(* ===== verification/Sbi_Prelude.thy ===== *)
theory Sbi_Prelude
  imports Main "HOL-Library.Word" "HOL-Library.Monad_Syntax"
begin

text \<open>
  Shared vocabulary of the development: the C integer types at their width on a
  64-bit hart, the error codes of \<^verbatim>\<open>include/sbi/sbi_error.h\<close>, checked array access
  (an access outside the array is the value \<open>None\<close>), little-endian byte encodings, and the
  generic facts on words, lists and bits that the component theories use.

  The collections \<open>bit_arith\<close> and \<open>acc_simps\<close> gather the facts that the component
  proofs hand to the simplifier.
\<close>

unbundle bit_operations_syntax

named_theorems bit_arith \<open>reading single bits of words built by shifts and masks\<close>
named_theorems acc_simps \<open>checked reads and writes of arrays\<close>

section \<open>C types and error codes\<close>

type_synonym u8 = "8 word"
type_synonym u16 = "16 word"
type_synonym u32 = "32 word"
type_synonym u64 = "64 word"
type_synonym ulong = "64 word"

abbreviation (input) SBI_OK :: int where "SBI_OK \<equiv> 0"
abbreviation (input) SBI_EFAIL :: int where "SBI_EFAIL \<equiv> - 1"
abbreviation (input) SBI_ENOTSUPP :: int where "SBI_ENOTSUPP \<equiv> - 2"
abbreviation (input) SBI_EINVAL :: int where "SBI_EINVAL \<equiv> - 3"
abbreviation (input) SBI_EDENIED :: int where "SBI_EDENIED \<equiv> - 4"
abbreviation (input) SBI_EINVALID_ADDR :: int where "SBI_EINVALID_ADDR \<equiv> - 5"
abbreviation (input) SBI_EALREADY :: int where "SBI_EALREADY \<equiv> - 6"
abbreviation (input) SBI_LAST_ERR :: int where "SBI_LAST_ERR \<equiv> - 6"
abbreviation (input) SBI_ENODEV :: int where "SBI_ENODEV \<equiv> - 1000"
abbreviation (input) SBI_ENOSPC :: int where "SBI_ENOSPC \<equiv> - 1005"
abbreviation (input) SBI_ENOMEM :: int where "SBI_ENOMEM \<equiv> - 1006"
abbreviation (input) SBI_ETRAP :: int where "SBI_ETRAP \<equiv> - 1007"
abbreviation (input) SBI_ENOENT :: int where "SBI_ENOENT \<equiv> - 1009"

section \<open>Checked array access\<close>

text \<open>
  C arrays are lists. A read or write outside the array is undefined behaviour in C and the
  value \<open>None\<close> here, so that a theorem saying that a function returns \<open>Some\<close> also says that it
  stays inside its arrays.
\<close>

definition rd :: "'a list \<Rightarrow> nat \<Rightarrow> 'a option" where
  "rd xs i = (if i < length xs then Some (xs ! i) else None)"

definition wr :: "'a list \<Rightarrow> nat \<Rightarrow> 'a \<Rightarrow> 'a list option" where
  "wr xs i v = (if i < length xs then Some (xs[i := v]) else None)"

lemma rd_in [simp, acc_simps]: "i < length xs \<Longrightarrow> rd xs i = Some (xs ! i)"
  by (simp add: rd_def)

lemma wr_in [simp, acc_simps]: "i < length xs \<Longrightarrow> wr xs i v = Some (xs[i := v])"
  by (simp add: wr_def)

lemma rd_eq_Some [acc_simps]: "rd xs i = Some v \<longleftrightarrow> i < length xs \<and> v = xs ! i"
  by (auto simp: rd_def)

lemma wr_eq_Some [acc_simps]: "wr xs i v = Some ys \<longleftrightarrow> i < length xs \<and> ys = xs[i := v]"
  by (auto simp: wr_def)

section \<open>Bits of words\<close>

text \<open>The shift operators of C on unsigned operands.\<close>

definition shl :: "'a::len word \<Rightarrow> nat \<Rightarrow> 'a word" where
  "shl w n = push_bit n w"

definition shr :: "'a::len word \<Rightarrow> nat \<Rightarrow> 'a word" where
  "shr w n = drop_bit n w"

lemma bit_shl [bit_arith]:
  "bit (shl w k :: 'a::len word) n \<longleftrightarrow> k \<le> n \<and> n < LENGTH('a) \<and> bit w (n - k)"
  by (auto simp: shl_def bit_push_bit_iff)

lemma bit_shr [bit_arith]: "bit (shr w k) n \<longleftrightarrow> bit w (k + n)"
  by (simp add: shr_def bit_drop_bit_eq)

lemmas bit_logic [bit_arith] = bit_and_iff bit_or_iff bit_xor_iff bit_not_iff bit_mask_iff

lemma bit_ones [bit_arith]: "bit (- 1 :: 'a::len word) n \<longleftrightarrow> n < LENGTH('a)"
  by simp

lemma bit_one [bit_arith]: "bit (1 :: 'a::len word) n \<longleftrightarrow> n = 0"
  by (simp add: bit_1_iff)

lemma bit_less_len: "bit (w :: 'a::len word) n \<Longrightarrow> n < LENGTH('a)"
  by (rule bit_imp_le_length)

lemma word_zero_iff_bits: "(w :: 'a::len word) = 0 \<longleftrightarrow> (\<forall>n<LENGTH('a). \<not> bit w n)"
  by (auto intro: bit_word_eqI)

lemma word_nonzero_bit: "(w :: 'a::len word) \<noteq> 0 \<Longrightarrow> \<exists>n<LENGTH('a). bit w n"
  by (simp add: word_zero_iff_bits)

lemma word_ones_iff_bits: "(w :: 'a::len word) = - 1 \<longleftrightarrow> (\<forall>n<LENGTH('a). bit w n)"
  by (auto intro: bit_word_eqI)

section \<open>Widths\<close>

lemma unat_ucast_up: "LENGTH('a) \<le> LENGTH('b) \<Longrightarrow> unat (ucast (x :: 'a::len word) :: 'b::len word) = unat x"
  by (simp add: unsigned_ucast_eq take_bit_nat_eq_self_iff order_less_le_trans [OF unsigned_less])

lemma unat16: "unat (x :: u16) < 65536"
  using unsigned_less [of x, where ?'a = nat] by simp

lemma unat64: "unat (x :: ulong) < 18446744073709551616"
  using unsigned_less [of x, where ?'a = nat] by simp

section \<open>First index with a property\<close>

text \<open>
  The reference for every search loop: the least index in \<open>[lo, hi)\<close> at which \<open>P\<close> holds, and
  \<open>hi\<close> when there is none.
\<close>

definition first_in :: "(nat \<Rightarrow> bool) \<Rightarrow> nat \<Rightarrow> nat \<Rightarrow> nat" where
  "first_in P lo hi = (case find P [lo..<hi] of Some n \<Rightarrow> n | None \<Rightarrow> hi)"

lemma upt_split: "lo \<le> mid \<Longrightarrow> mid \<le> hi \<Longrightarrow> [lo..<hi] = [lo..<mid] @ [mid..<hi]"
  using upt_add_eq_append [of lo mid "hi - mid"] by simp

lemma upt_split_at: "lo \<le> k \<Longrightarrow> k < hi \<Longrightarrow> [lo..<hi] = [lo..<k] @ k # [Suc k..<hi]"
  using upt_split [of lo k hi] by (simp add: upt_conv_Cons)

lemma find_app: "find P (xs @ ys) = (case find P xs of None \<Rightarrow> find P ys | Some x \<Rightarrow> Some x)"
  by (induction xs) auto

lemma first_in_eqI:
  assumes "lo \<le> r" "r < hi" "P r" "\<And>i. lo \<le> i \<Longrightarrow> i < r \<Longrightarrow> \<not> P i"
  shows "first_in P lo hi = r"
proof -
  have "find P [lo..<hi] = Some r"
    unfolding find_Some_iff
    by (rule exI [of _ "r - lo"]) (use assms in auto)
  then show ?thesis by (simp add: first_in_def)
qed

lemma first_in_none: "(\<And>i. lo \<le> i \<Longrightarrow> i < hi \<Longrightarrow> \<not> P i) \<Longrightarrow> first_in P lo hi = hi"
  unfolding first_in_def by (cases "find P [lo..<hi]") (auto simp: find_Some_iff)

lemma first_in_skip:
  assumes "lo \<le> mid" "mid \<le> hi" "\<And>i. lo \<le> i \<Longrightarrow> i < mid \<Longrightarrow> \<not> P i"
  shows "first_in P lo hi = first_in P mid hi"
proof -
  have "[lo..<hi] = [lo..<mid] @ [mid..<hi]"
    using assms(1,2) by (rule upt_split)
  moreover have "find P [lo..<mid] = None"
    using assms(3) by (auto simp: find_None_iff)
  ultimately have "find P [lo..<hi] = find P [mid..<hi]"
    by (simp add: find_app)
  then show ?thesis by (simp add: first_in_def)
qed

lemma first_in_cases:
  assumes "lo \<le> hi"
  shows "(first_in P lo hi = hi \<and> (\<forall>i. lo \<le> i \<and> i < hi \<longrightarrow> \<not> P i)) \<or>
         (lo \<le> first_in P lo hi \<and> first_in P lo hi < hi \<and> P (first_in P lo hi) \<and>
          (\<forall>i. lo \<le> i \<and> i < first_in P lo hi \<longrightarrow> \<not> P i))"
proof (cases "find P [lo..<hi]")
  case None
  moreover from None have "\<forall>i. lo \<le> i \<and> i < hi \<longrightarrow> \<not> P i"
    by (auto simp: find_None_iff)
  ultimately show ?thesis by (simp add: first_in_def)
next
  case (Some n)
  then obtain i where i: "i < hi - lo" "P (lo + i)" "n = lo + i" "\<forall>j<i. \<not> P (lo + j)"
    by (auto simp: find_Some_iff)
  have "\<not> P k" if "lo \<le> k" "k < n" for k
    using i(4) [rule_format, of "k - lo"] i(3) that by simp
  then show ?thesis using Some i by (auto simp: first_in_def)
qed

end
