(* ===== verification/Riscv_Encoding.thy ===== *)
theory Riscv_Encoding
  imports Sbi_Prelude
begin

text \<open>
  The constants of \<^verbatim>\<open>include/sbi/riscv_encoding.h\<close> that the modelled code uses, for a 64-bit hart:
  CSR numbers, fields of \<open>mstatus\<close>, interrupt bits, PMP attributes, trap causes and the match/mask
  pairs of the instructions that are emulated.
\<close>

section \<open>CSR numbers, trap causes and instruction patterns\<close>

abbreviation (input) CSR_USTATUS :: nat where "CSR_USTATUS \<equiv> 0x0"
abbreviation (input) CSR_FCSR :: nat where "CSR_FCSR \<equiv> 0x3"
abbreviation (input) CSR_CYCLE :: nat where "CSR_CYCLE \<equiv> 0xc00"
abbreviation (input) CSR_UIE :: nat where "CSR_UIE \<equiv> 0x4"
abbreviation (input) CSR_UTVEC :: nat where "CSR_UTVEC \<equiv> 0x5"
abbreviation (input) CSR_USCRATCH :: nat where "CSR_USCRATCH \<equiv> 0x40"
abbreviation (input) CSR_UEPC :: nat where "CSR_UEPC \<equiv> 0x41"
abbreviation (input) CSR_UCAUSE :: nat where "CSR_UCAUSE \<equiv> 0x42"
abbreviation (input) CSR_UTVAL :: nat where "CSR_UTVAL \<equiv> 0x43"
abbreviation (input) CSR_TIME :: nat where "CSR_TIME \<equiv> 0xc01"
abbreviation (input) CSR_INSTRET :: nat where "CSR_INSTRET \<equiv> 0xc02"
abbreviation (input) CSR_HPMCOUNTER3 :: nat where "CSR_HPMCOUNTER3 \<equiv> 0xc03"
abbreviation (input) CSR_HPMCOUNTER4 :: nat where "CSR_HPMCOUNTER4 \<equiv> 0xc04"
abbreviation (input) CSR_SSTATUS :: nat where "CSR_SSTATUS \<equiv> 0x100"
abbreviation (input) CSR_SIE :: nat where "CSR_SIE \<equiv> 0x104"
abbreviation (input) CSR_STVEC :: nat where "CSR_STVEC \<equiv> 0x105"
abbreviation (input) CSR_SCOUNTEREN :: nat where "CSR_SCOUNTEREN \<equiv> 0x106"
abbreviation (input) CSR_SSCRATCH :: nat where "CSR_SSCRATCH \<equiv> 0x140"
abbreviation (input) CSR_SEPC :: nat where "CSR_SEPC \<equiv> 0x141"
abbreviation (input) CSR_SCAUSE :: nat where "CSR_SCAUSE \<equiv> 0x142"
abbreviation (input) CSR_STVAL :: nat where "CSR_STVAL \<equiv> 0x143"
abbreviation (input) CSR_SIP :: nat where "CSR_SIP \<equiv> 0x144"
abbreviation (input) CSR_SATP :: nat where "CSR_SATP \<equiv> 0x180"
abbreviation (input) CSR_HSTATUS :: nat where "CSR_HSTATUS \<equiv> 0x600"
abbreviation (input) CSR_HTIMEDELTA :: nat where "CSR_HTIMEDELTA \<equiv> 0x605"
abbreviation (input) CSR_HTVAL :: nat where "CSR_HTVAL \<equiv> 0x643"
abbreviation (input) CSR_HTINST :: nat where "CSR_HTINST \<equiv> 0x64a"
abbreviation (input) CSR_HGATP :: nat where "CSR_HGATP \<equiv> 0x680"
abbreviation (input) CSR_VSSTATUS :: nat where "CSR_VSSTATUS \<equiv> 0x200"
abbreviation (input) CSR_VSTVEC :: nat where "CSR_VSTVEC \<equiv> 0x205"
abbreviation (input) CSR_VSEPC :: nat where "CSR_VSEPC \<equiv> 0x241"
abbreviation (input) CSR_VSCAUSE :: nat where "CSR_VSCAUSE \<equiv> 0x242"
abbreviation (input) CSR_VSTVAL :: nat where "CSR_VSTVAL \<equiv> 0x243"
abbreviation (input) CSR_MSTATUS :: nat where "CSR_MSTATUS \<equiv> 0x300"
abbreviation (input) CSR_MISA :: nat where "CSR_MISA \<equiv> 0x301"
abbreviation (input) CSR_MEDELEG :: nat where "CSR_MEDELEG \<equiv> 0x302"
abbreviation (input) CSR_MIDELEG :: nat where "CSR_MIDELEG \<equiv> 0x303"
abbreviation (input) CSR_MIE :: nat where "CSR_MIE \<equiv> 0x304"
abbreviation (input) CSR_MTVEC :: nat where "CSR_MTVEC \<equiv> 0x305"
abbreviation (input) CSR_MCOUNTEREN :: nat where "CSR_MCOUNTEREN \<equiv> 0x306"
abbreviation (input) CSR_MSCRATCH :: nat where "CSR_MSCRATCH \<equiv> 0x340"
abbreviation (input) CSR_MEPC :: nat where "CSR_MEPC \<equiv> 0x341"
abbreviation (input) CSR_MCAUSE :: nat where "CSR_MCAUSE \<equiv> 0x342"
abbreviation (input) CSR_MTVAL :: nat where "CSR_MTVAL \<equiv> 0x343"
abbreviation (input) CSR_MIP :: nat where "CSR_MIP \<equiv> 0x344"
abbreviation (input) CSR_MTINST :: nat where "CSR_MTINST \<equiv> 0x34a"
abbreviation (input) CSR_MTVAL2 :: nat where "CSR_MTVAL2 \<equiv> 0x34b"
abbreviation (input) CSR_PMPCFG0 :: nat where "CSR_PMPCFG0 \<equiv> 0x3a0"
abbreviation (input) CSR_PMPADDR0 :: nat where "CSR_PMPADDR0 \<equiv> 0x3b0"
abbreviation (input) CSR_MCYCLE :: nat where "CSR_MCYCLE \<equiv> 0xb00"
abbreviation (input) CSR_MINSTRET :: nat where "CSR_MINSTRET \<equiv> 0xb02"
abbreviation (input) CSR_MHPMCOUNTER3 :: nat where "CSR_MHPMCOUNTER3 \<equiv> 0xb03"
abbreviation (input) CSR_MHPMCOUNTER4 :: nat where "CSR_MHPMCOUNTER4 \<equiv> 0xb04"
abbreviation (input) CSR_MHPMEVENT3 :: nat where "CSR_MHPMEVENT3 \<equiv> 0x323"
abbreviation (input) CSR_MHPMEVENT4 :: nat where "CSR_MHPMEVENT4 \<equiv> 0x324"
abbreviation (input) CSR_MHPMEVENT5 :: nat where "CSR_MHPMEVENT5 \<equiv> 0x325"
abbreviation (input) CSR_MHPMEVENT6 :: nat where "CSR_MHPMEVENT6 \<equiv> 0x326"
abbreviation (input) CSR_MVENDORID :: nat where "CSR_MVENDORID \<equiv> 0xf11"
abbreviation (input) CSR_MARCHID :: nat where "CSR_MARCHID \<equiv> 0xf12"
abbreviation (input) CSR_MIMPID :: nat where "CSR_MIMPID \<equiv> 0xf13"
abbreviation (input) CSR_MHARTID :: nat where "CSR_MHARTID \<equiv> 0xf14"
abbreviation (input) CAUSE_MISALIGNED_FETCH :: ulong where "CAUSE_MISALIGNED_FETCH \<equiv> 0x0"
abbreviation (input) CAUSE_FETCH_ACCESS :: ulong where "CAUSE_FETCH_ACCESS \<equiv> 0x1"
abbreviation (input) CAUSE_ILLEGAL_INSTRUCTION :: ulong where "CAUSE_ILLEGAL_INSTRUCTION \<equiv> 0x2"
abbreviation (input) CAUSE_BREAKPOINT :: ulong where "CAUSE_BREAKPOINT \<equiv> 0x3"
abbreviation (input) CAUSE_MISALIGNED_LOAD :: ulong where "CAUSE_MISALIGNED_LOAD \<equiv> 0x4"
abbreviation (input) CAUSE_LOAD_ACCESS :: ulong where "CAUSE_LOAD_ACCESS \<equiv> 0x5"
abbreviation (input) CAUSE_MISALIGNED_STORE :: ulong where "CAUSE_MISALIGNED_STORE \<equiv> 0x6"
abbreviation (input) CAUSE_STORE_ACCESS :: ulong where "CAUSE_STORE_ACCESS \<equiv> 0x7"
abbreviation (input) CAUSE_USER_ECALL :: ulong where "CAUSE_USER_ECALL \<equiv> 0x8"
abbreviation (input) CAUSE_HYPERVISOR_ECALL :: ulong where "CAUSE_HYPERVISOR_ECALL \<equiv> 0x9"
abbreviation (input) CAUSE_SUPERVISOR_ECALL :: ulong where "CAUSE_SUPERVISOR_ECALL \<equiv> 0xa"
abbreviation (input) CAUSE_MACHINE_ECALL :: ulong where "CAUSE_MACHINE_ECALL \<equiv> 0xb"
abbreviation (input) CAUSE_FETCH_PAGE_FAULT :: ulong where "CAUSE_FETCH_PAGE_FAULT \<equiv> 0xc"
abbreviation (input) CAUSE_LOAD_PAGE_FAULT :: ulong where "CAUSE_LOAD_PAGE_FAULT \<equiv> 0xd"
abbreviation (input) CAUSE_STORE_PAGE_FAULT :: ulong where "CAUSE_STORE_PAGE_FAULT \<equiv> 0xf"
abbreviation (input) CAUSE_FETCH_GUEST_PAGE_FAULT :: ulong where "CAUSE_FETCH_GUEST_PAGE_FAULT \<equiv> 0x14"
abbreviation (input) CAUSE_LOAD_GUEST_PAGE_FAULT :: ulong where "CAUSE_LOAD_GUEST_PAGE_FAULT \<equiv> 0x15"
abbreviation (input) CAUSE_VIRTUAL_INST_FAULT :: ulong where "CAUSE_VIRTUAL_INST_FAULT \<equiv> 0x16"
abbreviation (input) CAUSE_STORE_GUEST_PAGE_FAULT :: ulong where "CAUSE_STORE_GUEST_PAGE_FAULT \<equiv> 0x17"
abbreviation (input) INSN_MATCH_LB :: ulong where "INSN_MATCH_LB \<equiv> 0x3"
abbreviation (input) INSN_MASK_LB :: ulong where "INSN_MASK_LB \<equiv> 0x707f"
abbreviation (input) INSN_MATCH_LH :: ulong where "INSN_MATCH_LH \<equiv> 0x1003"
abbreviation (input) INSN_MASK_LH :: ulong where "INSN_MASK_LH \<equiv> 0x707f"
abbreviation (input) INSN_MATCH_LW :: ulong where "INSN_MATCH_LW \<equiv> 0x2003"
abbreviation (input) INSN_MASK_LW :: ulong where "INSN_MASK_LW \<equiv> 0x707f"
abbreviation (input) INSN_MATCH_LD :: ulong where "INSN_MATCH_LD \<equiv> 0x3003"
abbreviation (input) INSN_MASK_LD :: ulong where "INSN_MASK_LD \<equiv> 0x707f"
abbreviation (input) INSN_MATCH_LBU :: ulong where "INSN_MATCH_LBU \<equiv> 0x4003"
abbreviation (input) INSN_MASK_LBU :: ulong where "INSN_MASK_LBU \<equiv> 0x707f"
abbreviation (input) INSN_MATCH_LHU :: ulong where "INSN_MATCH_LHU \<equiv> 0x5003"
abbreviation (input) INSN_MASK_LHU :: ulong where "INSN_MASK_LHU \<equiv> 0x707f"
abbreviation (input) INSN_MATCH_LWU :: ulong where "INSN_MATCH_LWU \<equiv> 0x6003"
abbreviation (input) INSN_MASK_LWU :: ulong where "INSN_MASK_LWU \<equiv> 0x707f"
abbreviation (input) INSN_MATCH_SB :: ulong where "INSN_MATCH_SB \<equiv> 0x23"
abbreviation (input) INSN_MASK_SB :: ulong where "INSN_MASK_SB \<equiv> 0x707f"
abbreviation (input) INSN_MATCH_SH :: ulong where "INSN_MATCH_SH \<equiv> 0x1023"
abbreviation (input) INSN_MASK_SH :: ulong where "INSN_MASK_SH \<equiv> 0x707f"
abbreviation (input) INSN_MATCH_SW :: ulong where "INSN_MATCH_SW \<equiv> 0x2023"
abbreviation (input) INSN_MASK_SW :: ulong where "INSN_MASK_SW \<equiv> 0x707f"
abbreviation (input) INSN_MATCH_SD :: ulong where "INSN_MATCH_SD \<equiv> 0x3023"
abbreviation (input) INSN_MASK_SD :: ulong where "INSN_MASK_SD \<equiv> 0x707f"
abbreviation (input) INSN_MATCH_FLW :: ulong where "INSN_MATCH_FLW \<equiv> 0x2007"
abbreviation (input) INSN_MASK_FLW :: ulong where "INSN_MASK_FLW \<equiv> 0x707f"
abbreviation (input) INSN_MATCH_FLD :: ulong where "INSN_MATCH_FLD \<equiv> 0x3007"
abbreviation (input) INSN_MASK_FLD :: ulong where "INSN_MASK_FLD \<equiv> 0x707f"
abbreviation (input) INSN_MATCH_FLQ :: ulong where "INSN_MATCH_FLQ \<equiv> 0x4007"
abbreviation (input) INSN_MASK_FLQ :: ulong where "INSN_MASK_FLQ \<equiv> 0x707f"
abbreviation (input) INSN_MATCH_FSW :: ulong where "INSN_MATCH_FSW \<equiv> 0x2027"
abbreviation (input) INSN_MASK_FSW :: ulong where "INSN_MASK_FSW \<equiv> 0x707f"
abbreviation (input) INSN_MATCH_FSD :: ulong where "INSN_MATCH_FSD \<equiv> 0x3027"
abbreviation (input) INSN_MASK_FSD :: ulong where "INSN_MASK_FSD \<equiv> 0x707f"
abbreviation (input) INSN_MATCH_FSQ :: ulong where "INSN_MATCH_FSQ \<equiv> 0x4027"
abbreviation (input) INSN_MASK_FSQ :: ulong where "INSN_MASK_FSQ \<equiv> 0x707f"
abbreviation (input) INSN_MATCH_C_LD :: ulong where "INSN_MATCH_C_LD \<equiv> 0x6000"
abbreviation (input) INSN_MASK_C_LD :: ulong where "INSN_MASK_C_LD \<equiv> 0xe003"
abbreviation (input) INSN_MATCH_C_SD :: ulong where "INSN_MATCH_C_SD \<equiv> 0xe000"
abbreviation (input) INSN_MASK_C_SD :: ulong where "INSN_MASK_C_SD \<equiv> 0xe003"
abbreviation (input) INSN_MATCH_C_LW :: ulong where "INSN_MATCH_C_LW \<equiv> 0x4000"
abbreviation (input) INSN_MASK_C_LW :: ulong where "INSN_MASK_C_LW \<equiv> 0xe003"
abbreviation (input) INSN_MATCH_C_SW :: ulong where "INSN_MATCH_C_SW \<equiv> 0xc000"
abbreviation (input) INSN_MASK_C_SW :: ulong where "INSN_MASK_C_SW \<equiv> 0xe003"
abbreviation (input) INSN_MATCH_C_LDSP :: ulong where "INSN_MATCH_C_LDSP \<equiv> 0x6002"
abbreviation (input) INSN_MASK_C_LDSP :: ulong where "INSN_MASK_C_LDSP \<equiv> 0xe003"
abbreviation (input) INSN_MATCH_C_SDSP :: ulong where "INSN_MATCH_C_SDSP \<equiv> 0xe002"
abbreviation (input) INSN_MASK_C_SDSP :: ulong where "INSN_MASK_C_SDSP \<equiv> 0xe003"
abbreviation (input) INSN_MATCH_C_LWSP :: ulong where "INSN_MATCH_C_LWSP \<equiv> 0x4002"
abbreviation (input) INSN_MASK_C_LWSP :: ulong where "INSN_MASK_C_LWSP \<equiv> 0xe003"
abbreviation (input) INSN_MATCH_C_SWSP :: ulong where "INSN_MATCH_C_SWSP \<equiv> 0xc002"
abbreviation (input) INSN_MASK_C_SWSP :: ulong where "INSN_MASK_C_SWSP \<equiv> 0xe003"
abbreviation (input) INSN_MATCH_C_FLD :: ulong where "INSN_MATCH_C_FLD \<equiv> 0x2000"
abbreviation (input) INSN_MASK_C_FLD :: ulong where "INSN_MASK_C_FLD \<equiv> 0xe003"
abbreviation (input) INSN_MATCH_C_FLW :: ulong where "INSN_MATCH_C_FLW \<equiv> 0x6000"
abbreviation (input) INSN_MASK_C_FLW :: ulong where "INSN_MASK_C_FLW \<equiv> 0xe003"
abbreviation (input) INSN_MATCH_C_FSD :: ulong where "INSN_MATCH_C_FSD \<equiv> 0xa000"
abbreviation (input) INSN_MASK_C_FSD :: ulong where "INSN_MASK_C_FSD \<equiv> 0xe003"
abbreviation (input) INSN_MATCH_C_FSW :: ulong where "INSN_MATCH_C_FSW \<equiv> 0xe000"
abbreviation (input) INSN_MASK_C_FSW :: ulong where "INSN_MASK_C_FSW \<equiv> 0xe003"
abbreviation (input) INSN_MATCH_C_FLDSP :: ulong where "INSN_MATCH_C_FLDSP \<equiv> 0x2002"
abbreviation (input) INSN_MASK_C_FLDSP :: ulong where "INSN_MASK_C_FLDSP \<equiv> 0xe003"
abbreviation (input) INSN_MATCH_C_FSDSP :: ulong where "INSN_MATCH_C_FSDSP \<equiv> 0xa002"
abbreviation (input) INSN_MASK_C_FSDSP :: ulong where "INSN_MASK_C_FSDSP \<equiv> 0xe003"
abbreviation (input) INSN_MATCH_C_FLWSP :: ulong where "INSN_MATCH_C_FLWSP \<equiv> 0x6002"
abbreviation (input) INSN_MASK_C_FLWSP :: ulong where "INSN_MASK_C_FLWSP \<equiv> 0xe003"
abbreviation (input) INSN_MATCH_C_FSWSP :: ulong where "INSN_MATCH_C_FSWSP \<equiv> 0xe002"
abbreviation (input) INSN_MASK_C_FSWSP :: ulong where "INSN_MASK_C_FSWSP \<equiv> 0xe003"
abbreviation (input) INSN_MASK_WFI :: ulong where "INSN_MASK_WFI \<equiv> 0xffffff00"
abbreviation (input) INSN_MATCH_WFI :: ulong where "INSN_MATCH_WFI \<equiv> 0x10500000"
abbreviation (input) INSN_16BIT_MASK :: ulong where "INSN_16BIT_MASK \<equiv> 0x3"
abbreviation (input) INSN_32BIT_MASK :: ulong where "INSN_32BIT_MASK \<equiv> 0x1c"
abbreviation (input) MASK_FUNCT3 :: ulong where "MASK_FUNCT3 \<equiv> 0x7000"

section \<open>Fields and masks\<close>

abbreviation (input) MSTATUS_SIE :: ulong where "MSTATUS_SIE \<equiv> 0x2"
abbreviation (input) MSTATUS_SPIE_SHIFT :: nat where "MSTATUS_SPIE_SHIFT \<equiv> 5"
abbreviation (input) MSTATUS_SPIE :: ulong where "MSTATUS_SPIE \<equiv> 0x20"
abbreviation (input) MSTATUS_MPIE :: ulong where "MSTATUS_MPIE \<equiv> 0x80"
abbreviation (input) MSTATUS_SPP_SHIFT :: nat where "MSTATUS_SPP_SHIFT \<equiv> 8"
abbreviation (input) MSTATUS_SPP :: ulong where "MSTATUS_SPP \<equiv> 0x100"
abbreviation (input) MSTATUS_MPP_SHIFT :: nat where "MSTATUS_MPP_SHIFT \<equiv> 11"
abbreviation (input) MSTATUS_MPP :: ulong where "MSTATUS_MPP \<equiv> 0x1800"
abbreviation (input) MSTATUS_FS :: ulong where "MSTATUS_FS \<equiv> 0x6000"
abbreviation (input) MSTATUS_VS :: ulong where "MSTATUS_VS \<equiv> 0x1800000"
abbreviation (input) MSTATUS_MPRV :: ulong where "MSTATUS_MPRV \<equiv> 0x20000"
abbreviation (input) MSTATUS_MXR :: ulong where "MSTATUS_MXR \<equiv> 0x80000"
abbreviation (input) MSTATUS_MPV :: ulong where "MSTATUS_MPV \<equiv> 0x8000000000"
abbreviation (input) SSTATUS_SIE :: ulong where "SSTATUS_SIE \<equiv> 0x2"
abbreviation (input) SSTATUS_SPIE_SHIFT :: nat where "SSTATUS_SPIE_SHIFT \<equiv> 5"
abbreviation (input) SSTATUS_SPIE :: ulong where "SSTATUS_SPIE \<equiv> 0x20"
abbreviation (input) SSTATUS_SPP_SHIFT :: nat where "SSTATUS_SPP_SHIFT \<equiv> 8"
abbreviation (input) SSTATUS_SPP :: ulong where "SSTATUS_SPP \<equiv> 0x100"
abbreviation (input) HSTATUS_SPVP :: ulong where "HSTATUS_SPVP \<equiv> 0x100"
abbreviation (input) HSTATUS_SPV :: ulong where "HSTATUS_SPV \<equiv> 0x80"
abbreviation (input) HSTATUS_GVA :: ulong where "HSTATUS_GVA \<equiv> 0x40"
abbreviation (input) MIP_SSIP :: ulong where "MIP_SSIP \<equiv> 0x2"
abbreviation (input) MIP_MSIP :: ulong where "MIP_MSIP \<equiv> 0x8"
abbreviation (input) MIP_STIP :: ulong where "MIP_STIP \<equiv> 0x20"
abbreviation (input) MIP_MTIP :: ulong where "MIP_MTIP \<equiv> 0x80"
abbreviation (input) MIP_SEIP :: ulong where "MIP_SEIP \<equiv> 0x200"
abbreviation (input) PRV_U :: ulong where "PRV_U \<equiv> 0"
abbreviation (input) PRV_S :: ulong where "PRV_S \<equiv> 1"
abbreviation (input) PRV_M :: ulong where "PRV_M \<equiv> 3"
abbreviation (input) HGATP_VMID_MASK :: ulong where "HGATP_VMID_MASK \<equiv> 0x03FFF00000000000"
abbreviation (input) PMP_R :: ulong where "PMP_R \<equiv> 0x01"
abbreviation (input) PMP_W :: ulong where "PMP_W \<equiv> 0x02"
abbreviation (input) PMP_X :: ulong where "PMP_X \<equiv> 0x04"
abbreviation (input) PMP_A :: ulong where "PMP_A \<equiv> 0x18"
abbreviation (input) PMP_A_NA4 :: ulong where "PMP_A_NA4 \<equiv> 0x10"
abbreviation (input) PMP_A_NAPOT :: ulong where "PMP_A_NAPOT \<equiv> 0x18"
abbreviation (input) PMP_L :: ulong where "PMP_L \<equiv> 0x80"
abbreviation (input) HGATP_VMID_SHIFT :: nat where "HGATP_VMID_SHIFT \<equiv> 44"
abbreviation (input) PMP_SHIFT :: nat where "PMP_SHIFT \<equiv> 2"
abbreviation (input) PMP_COUNT :: nat where "PMP_COUNT \<equiv> 16"
abbreviation (input) IRQ_M_TIMER :: ulong where "IRQ_M_TIMER \<equiv> 7"
abbreviation (input) IRQ_M_SOFT :: ulong where "IRQ_M_SOFT \<equiv> 3"
abbreviation (input) PAGE_SIZE :: ulong where "PAGE_SIZE \<equiv> 0x1000"

end
