(* ===== verification/Sbi_Bitops.thy ===== *)
theory Sbi_Bitops
  imports Sbi_Prelude
begin

text \<open>
  The bit searches of \<^verbatim>\<open>include/sbi/sbi_bitops.h\<close> and \<^verbatim>\<open>lib/sbi/sbi_bitops.c\<close>. A bitmap is
  the C array of \<open>unsigned long\<close> words that holds it; sizes, offsets and bit numbers are
  natural numbers (none of the sums the code forms exceeds the size of the bitmap, so none
  wraps around). Names the C code starts with two underscores start with \<open>u_\<close> here.

  Each search is shown equal to the reference \<open>first_in\<close> (least index with the property),
  and to stay inside its array.
\<close>

abbreviation (input) BITS_PER_LONG :: nat where "BITS_PER_LONG \<equiv> 64"

abbreviation (input) BIT_WORD :: "nat \<Rightarrow> nat" where "BIT_WORD b \<equiv> b div BITS_PER_LONG"

abbreviation (input) BIT_MASK :: "nat \<Rightarrow> ulong" where "BIT_MASK nr \<equiv> shl 1 (nr mod BITS_PER_LONG)"

definition BITS_TO_LONGS :: "nat \<Rightarrow> nat" where
  "BITS_TO_LONGS nbits = (nbits + BITS_PER_LONG - 1) div BITS_PER_LONG"

definition EXTRACT_FIELD :: "ulong \<Rightarrow> ulong \<Rightarrow> ulong" where
  "EXTRACT_FIELD val which = (val AND which) div (which AND NOT (which - 1))"

definition INSERT_FIELD :: "ulong \<Rightarrow> ulong \<Rightarrow> ulong \<Rightarrow> ulong" where
  "INSERT_FIELD val which fieldval =
     ((val AND NOT which) OR (fieldval * (which AND NOT (which - 1))))"

section \<open>Searching one word\<close>

text \<open>One conditional of the binary search: the low part is empty, so skip it.\<close>

definition ffs_step :: "'a::len word \<Rightarrow> nat \<Rightarrow> nat \<times> 'a word \<Rightarrow> nat \<times> 'a word" where
  "ffs_step m k = (\<lambda>(num, word). if word AND m = 0 then (num + k, shr word k) else (num, word))"

definition u_ffs :: "ulong \<Rightarrow> nat" where
  "u_ffs word =
     fst (ffs_step 0x1 1 (ffs_step 0x3 2 (ffs_step 0xf 4 (ffs_step 0xff 8
       (ffs_step 0xffff 16 (ffs_step 0xffffffff 32 (0, word)))))))"

definition ffz :: "ulong \<Rightarrow> nat" where
  "ffz x = u_ffs (NOT x)"

text \<open>The signed variant shifts arithmetically; the sign bit is never reached before a set bit.\<close>

definition ffs_sstep :: "u32 \<Rightarrow> nat \<Rightarrow> nat \<times> u32 \<Rightarrow> nat \<times> u32" where
  "ffs_sstep m k = (\<lambda>(r, x). if x AND m = 0 then (r + k, signed_drop_bit k x) else (r, x))"

definition ffs :: "u32 \<Rightarrow> nat" where
  "ffs x =
     (if x = 0 then 0
      else fst (ffs_sstep 1 1 (ffs_sstep 3 2 (ffs_sstep 0xf 4 (ffs_sstep 0xff 8
             (ffs_sstep 0xffff 16 (1, x)))))))"

text \<open>One conditional of the search from the top: the high part is empty, so shift it out.\<close>

definition fls_step :: "'a::len word \<Rightarrow> nat \<Rightarrow> nat \<times> 'a word \<Rightarrow> nat \<times> 'a word" where
  "fls_step m k = (\<lambda>(num, word). if word AND m = 0 then (num - k, shl word k) else (num, word))"

definition u_fls :: "ulong \<Rightarrow> nat" where
  "u_fls word =
     fst (fls_step (shl (- 1) (BITS_PER_LONG - 1)) 1 (fls_step (shl (- 1) (BITS_PER_LONG - 2)) 2
       (fls_step (shl (- 1) (BITS_PER_LONG - 4)) 4 (fls_step (shl (- 1) (BITS_PER_LONG - 8)) 8
       (fls_step (shl (- 1) (BITS_PER_LONG - 16)) 16 (fls_step (shl (- 1) 32) 32
         (BITS_PER_LONG - 1, word)))))))"

definition fls :: "u32 \<Rightarrow> nat" where
  "fls x =
     (if x = 0 then 0
      else fst (fls_step 0x80000000 1 (fls_step 0xc0000000 2 (fls_step 0xf0000000 4
             (fls_step 0xff000000 8 (fls_step 0xffff0000 16 (32, x)))))))"

section \<open>Single bits of a bitmap\<close>

definition u_set_bit :: "nat \<Rightarrow> ulong list \<Rightarrow> ulong list option" where
  "u_set_bit nr addr = do {
     p \<leftarrow> rd addr (BIT_WORD nr);
     wr addr (BIT_WORD nr) (p OR BIT_MASK nr) }"

definition u_clear_bit :: "nat \<Rightarrow> ulong list \<Rightarrow> ulong list option" where
  "u_clear_bit nr addr = do {
     p \<leftarrow> rd addr (BIT_WORD nr);
     wr addr (BIT_WORD nr) (p AND NOT (BIT_MASK nr)) }"

definition u_change_bit :: "nat \<Rightarrow> ulong list \<Rightarrow> ulong list option" where
  "u_change_bit nr addr = do {
     p \<leftarrow> rd addr (BIT_WORD nr);
     wr addr (BIT_WORD nr) (p XOR BIT_MASK nr) }"

definition u_test_and_set_bit :: "nat \<Rightarrow> ulong list \<Rightarrow> (bool \<times> ulong list) option" where
  "u_test_and_set_bit nr addr = do {
     old \<leftarrow> rd addr (BIT_WORD nr);
     addr' \<leftarrow> wr addr (BIT_WORD nr) (old OR BIT_MASK nr);
     Some (old AND BIT_MASK nr \<noteq> 0, addr') }"

definition u_test_and_clear_bit :: "nat \<Rightarrow> ulong list \<Rightarrow> (bool \<times> ulong list) option" where
  "u_test_and_clear_bit nr addr = do {
     old \<leftarrow> rd addr (BIT_WORD nr);
     addr' \<leftarrow> wr addr (BIT_WORD nr) (old AND NOT (BIT_MASK nr));
     Some (old AND BIT_MASK nr \<noteq> 0, addr') }"

definition u_test_bit :: "nat \<Rightarrow> ulong list \<Rightarrow> ulong option" where
  "u_test_bit nr addr = do {
     w \<leftarrow> rd addr (BIT_WORD nr);
     Some (1 AND shr w (nr mod BITS_PER_LONG)) }"

section \<open>Searching a bitmap\<close>

text \<open>
  \<open>p\<close> is the index of the word the C pointer \<open>p\<close> addresses. \<open>sz AND NOT 63\<close> is nonzero exactly
  when a whole word is left.
\<close>

fun find_bit_words :: "ulong list \<Rightarrow> nat \<Rightarrow> nat \<Rightarrow> nat \<Rightarrow> nat option" where
  "find_bit_words addr p result sz =
     (if BITS_PER_LONG \<le> sz then do {
        tmp \<leftarrow> rd addr p;
        if tmp \<noteq> 0 then Some (result + u_ffs tmp)
        else find_bit_words addr (p + 1) (result + BITS_PER_LONG) (sz - BITS_PER_LONG) }
      else if sz = 0 then Some result
      else do {
        tmp \<leftarrow> rd addr p;
        let tmp = tmp AND shr (- 1) (BITS_PER_LONG - sz);
        if tmp = 0 then Some (result + sz) else Some (result + u_ffs tmp) })"

fun find_zero_words :: "ulong list \<Rightarrow> nat \<Rightarrow> nat \<Rightarrow> nat \<Rightarrow> nat option" where
  "find_zero_words addr p result sz =
     (if BITS_PER_LONG \<le> sz then do {
        tmp \<leftarrow> rd addr p;
        if NOT tmp \<noteq> 0 then Some (result + ffz tmp)
        else find_zero_words addr (p + 1) (result + BITS_PER_LONG) (sz - BITS_PER_LONG) }
      else if sz = 0 then Some result
      else do {
        tmp \<leftarrow> rd addr p;
        let tmp = tmp OR shl (- 1) sz;
        if tmp = - 1 then Some (result + sz) else Some (result + ffz tmp) })"

declare find_bit_words.simps [simp del] find_zero_words.simps [simp del]

definition find_first_bit :: "ulong list \<Rightarrow> nat \<Rightarrow> nat option" where
  "find_first_bit addr sz = find_bit_words addr 0 0 sz"

definition find_first_zero_bit :: "ulong list \<Rightarrow> nat \<Rightarrow> nat option" where
  "find_first_zero_bit addr sz = find_zero_words addr 0 0 sz"

fun find_last_words :: "ulong list \<Rightarrow> nat \<Rightarrow> nat \<Rightarrow> nat option" where
  "find_last_words addr 0 sz = Some sz"
| "find_last_words addr (Suc words) sz = do {
     tmp \<leftarrow> rd addr words;
     if tmp \<noteq> 0 then Some (words * BITS_PER_LONG + u_fls tmp)
     else find_last_words addr words sz }"

definition find_last_bit :: "ulong list \<Rightarrow> nat \<Rightarrow> nat option" where
  "find_last_bit addr sz =
     (let words = sz div BITS_PER_LONG in
      if sz mod BITS_PER_LONG \<noteq> 0 then do {
        tmp \<leftarrow> rd addr words;
        let tmp = tmp AND shr (- 1) (BITS_PER_LONG - sz mod BITS_PER_LONG);
        if tmp \<noteq> 0 then Some (words * BITS_PER_LONG + u_fls tmp)
        else find_last_words addr words sz }
      else find_last_words addr words sz)"

definition find_next_bit :: "ulong list \<Rightarrow> nat \<Rightarrow> nat \<Rightarrow> nat option" where
  "find_next_bit addr sz offset =
     (let p = BIT_WORD offset; result = BITS_PER_LONG * (offset div BITS_PER_LONG) in
      if sz \<le> offset then Some sz
      else
        (let sz = sz - result; offset = offset mod BITS_PER_LONG in
         if offset \<noteq> 0 then do {
           tmp \<leftarrow> rd addr p;
           let tmp = tmp AND shl (- 1) offset;
           if sz < BITS_PER_LONG then
             (let tmp = tmp AND shr (- 1) (BITS_PER_LONG - sz) in
              if tmp = 0 then Some (result + sz) else Some (result + u_ffs tmp))
           else if tmp \<noteq> 0 then Some (result + u_ffs tmp)
           else find_bit_words addr (p + 1) (result + BITS_PER_LONG) (sz - BITS_PER_LONG) }
         else find_bit_words addr p result sz))"

definition find_next_zero_bit :: "ulong list \<Rightarrow> nat \<Rightarrow> nat \<Rightarrow> nat option" where
  "find_next_zero_bit addr sz offset =
     (let p = BIT_WORD offset; result = BITS_PER_LONG * (offset div BITS_PER_LONG) in
      if sz \<le> offset then Some sz
      else
        (let sz = sz - result; offset = offset mod BITS_PER_LONG in
         if offset \<noteq> 0 then do {
           tmp \<leftarrow> rd addr p;
           let tmp = tmp OR shr (- 1) (BITS_PER_LONG - offset);
           if sz < BITS_PER_LONG then
             (let tmp = tmp OR shl (- 1) sz in
              if tmp = - 1 then Some (result + sz) else Some (result + ffz tmp))
           else if NOT tmp \<noteq> 0 then Some (result + ffz tmp)
           else find_zero_words addr (p + 1) (result + BITS_PER_LONG) (sz - BITS_PER_LONG) }
         else find_zero_words addr p result sz))"

text \<open>
  The loop header \<^verbatim>\<open>for_each_set_bit\<close>: the bits the loop visits, in order. The second
  argument of the loop bounds the number of iterations left and is the size of the bitmap.
\<close>

fun for_each_from :: "ulong list \<Rightarrow> nat \<Rightarrow> nat \<Rightarrow> nat option \<Rightarrow> nat list option" where
  "for_each_from addr sz _ None = None"
| "for_each_from addr sz 0 (Some b) = (if b < sz then None else Some [])"
| "for_each_from addr sz (Suc n) (Some b) =
     (if b < sz
      then map_option (Cons b) (for_each_from addr sz n (find_next_bit addr sz (b + 1)))
      else Some [])"

definition for_each_set_bit :: "ulong list \<Rightarrow> nat \<Rightarrow> nat list option" where
  "for_each_set_bit addr sz = for_each_from addr sz sz (find_first_bit addr sz)"

section \<open>The searches in one word are correct\<close>

definition lowbit :: "'a::len word \<Rightarrow> nat \<Rightarrow> bool" where
  "lowbit w n \<longleftrightarrow> bit w n \<and> (\<forall>i<n. \<not> bit w i)"

definition highbit :: "'a::len word \<Rightarrow> nat \<Rightarrow> bool" where
  "highbit w n \<longleftrightarrow> bit w n \<and> (\<forall>i>n. \<not> bit w i)"

lemma lowbit_ex: "(w :: 'a::len word) \<noteq> 0 \<Longrightarrow> \<exists>n<LENGTH('a). lowbit w n"
proof -
  assume "w \<noteq> 0"
  then obtain m where "bit w m" using word_nonzero_bit by blast
  then have "lowbit w (LEAST n. bit w n)"
    by (auto simp: lowbit_def intro: LeastI dest: not_less_Least)
  then show ?thesis by (auto simp: lowbit_def dest: bit_less_len)
qed

lemma lowbit_unique: "lowbit w n \<Longrightarrow> lowbit w m \<Longrightarrow> n = m"
  unfolding lowbit_def by (cases n m rule: linorder_cases) auto

lemma highbit_ex:
  assumes "(w :: 'a::len word) \<noteq> 0"
  shows "\<exists>n<LENGTH('a). highbit w n"
proof -
  obtain m where m: "bit w m" using word_nonzero_bit [OF assms] by blast
  let ?n = "GREATEST n. bit w n"
  have bound: "i \<le> LENGTH('a)" if "bit w i" for i using bit_less_len [OF that] by simp
  have "bit w ?n" using GreatestI_nat [of "bit w", OF m bound] .
  moreover have "\<not> bit w i" if "?n < i" for i
    using Greatest_le_nat [of "bit w" i, OF _ bound] that by (meson leD)
  ultimately have "highbit w ?n" by (simp add: highbit_def)
  moreover have "?n < LENGTH('a)" using \<open>bit w ?n\<close> by (rule bit_less_len)
  ultimately show ?thesis by blast
qed

lemma highbit_unique: "highbit w n \<Longrightarrow> highbit w m \<Longrightarrow> n = m"
  unfolding highbit_def by (cases n m rule: linorder_cases) auto

lemma and_mask_eq_0: "(w :: 'a::len word) AND mask k = 0 \<longleftrightarrow> (\<forall>i<k. \<not> bit w i)"
  unfolding word_zero_iff_bits bit_and_iff bit_mask_iff using bit_less_len [of w] by auto

text \<open>
  The invariant of the chain of conditionals: the lowest set bit of the word left is below
  \<open>k\<close>, and together with the count (which starts at \<open>b\<close>) it is the lowest set bit of the word
  searched.
\<close>

definition ffs_inv :: "'a::len word \<Rightarrow> nat \<Rightarrow> nat \<Rightarrow> nat \<times> 'a word \<Rightarrow> bool" where
  "ffs_inv w0 b k = (\<lambda>(num, w). \<exists>n n0. lowbit w n \<and> n < k \<and> lowbit w0 n0 \<and> num + n = b + n0)"

lemma ffs_invI:
  "lowbit w n \<Longrightarrow> n < k \<Longrightarrow> lowbit w0 n0 \<Longrightarrow> num + n = b + n0 \<Longrightarrow> ffs_inv w0 b k (num, w)"
  by (auto simp: ffs_inv_def)

lemma lowbit_low_part:
  assumes "lowbit w n" "w AND mask k = 0"
  shows "k \<le> n"
  using assms by (auto simp: and_mask_eq_0 lowbit_def) (meson not_less)

lemma lowbit_not_low_part:
  assumes "lowbit w n" "w AND mask k \<noteq> 0"
  shows "n < k"
proof -
  obtain i where "i < k" "bit w i" using assms(2) by (auto simp: and_mask_eq_0)
  then have "\<not> i < n" using assms(1) by (auto simp: lowbit_def)
  with \<open>i < k\<close> show ?thesis by simp
qed

lemma ffs_step_inv:
  assumes "ffs_inv w0 b k2 st" "k2 = 2 * k" "m = mask k"
  shows "ffs_inv w0 b k (ffs_step m k st)"
proof -
  obtain num w n n0 where st: "st = (num, w)"
    and n: "lowbit w n" "n < 2 * k" "lowbit w0 n0" "num + n = b + n0"
    using assms(1,2) by (cases st) (auto simp: ffs_inv_def)
  show ?thesis
  proof (cases "w AND m = 0")
    case True
    then have "k \<le> n" using lowbit_low_part n(1) assms(3) by blast
    moreover have "lowbit (shr w k) (n - k)"
      using n(1) \<open>k \<le> n\<close> by (auto simp: lowbit_def bit_shr)
    ultimately have "ffs_inv w0 b k (num + k, shr w k)"
      using n(2-4) by (intro ffs_invI [of _ "n - k" _ _ n0]) auto
    then show ?thesis using True by (simp add: ffs_step_def st)
  next
    case False
    then show ?thesis using lowbit_not_low_part n assms(3)
      by (auto simp: ffs_step_def ffs_inv_def st)
  qed
qed

lemma ffs_sstep_inv:
  assumes "ffs_inv w0 b k2 st" "k2 = 2 * k" "m = mask k"
  shows "ffs_inv w0 b k (ffs_sstep m k st)"
proof -
  obtain num w n n0 where st: "st = (num, w)"
    and n: "lowbit w n" "n < 2 * k" "lowbit w0 n0" "num + n = b + n0"
    using assms(1,2) by (cases st) (auto simp: ffs_inv_def)
  show ?thesis
  proof (cases "w AND m = 0")
    case True
    then have "k \<le> n" using lowbit_low_part n(1) assms(3) by blast
    moreover have "lowbit (signed_drop_bit k w) (n - k)"
      using n(1) \<open>k \<le> n\<close> bit_less_len [of w n]
      by (auto simp: lowbit_def bit_signed_drop_bit_iff)
    ultimately have "ffs_inv w0 b k (num + k, signed_drop_bit k w)"
      using n(2-4) by (intro ffs_invI [of _ "n - k" _ _ n0]) auto
    then show ?thesis using True by (simp add: ffs_sstep_def st)
  next
    case False
    then show ?thesis using lowbit_not_low_part n assms(3)
      by (auto simp: ffs_sstep_def ffs_inv_def st)
  qed
qed

lemma ffs_inv_last: "ffs_inv w0 b 1 st \<Longrightarrow> \<exists>n. lowbit w0 n \<and> fst st = b + n"
  by (auto simp: ffs_inv_def)

lemma ffs_masks:
  "(0x1 :: 'a::len word) = mask 1" "(0x3 :: 'a word) = mask 2" "(0xf :: 'a word) = mask 4"
  "(0xff :: 'a word) = mask 8" "(0xffff :: 'a word) = mask 16" "(0xffffffff :: 'a word) = mask 32"
  by (simp_all add: mask_eq_exp_minus_1)

lemma u_ffs_lowbit:
  assumes "w \<noteq> 0"
  shows "lowbit w (u_ffs w)"
proof -
  obtain n where "n < 64" "lowbit w n" using lowbit_ex [OF assms] by auto
  then have "ffs_inv w 0 64 (0, w)" by (auto simp: ffs_inv_def)
  note s32 = ffs_step_inv [OF this _ ffs_masks(6)]
  note s16 = ffs_step_inv [OF s32 _ ffs_masks(5)]
  note s8 = ffs_step_inv [OF s16 _ ffs_masks(4)]
  note s4 = ffs_step_inv [OF s8 _ ffs_masks(3)]
  note s2 = ffs_step_inv [OF s4 _ ffs_masks(2)]
  note s1 = ffs_step_inv [OF s2 _ ffs_masks(1)]
  have "\<exists>n. lowbit w n \<and> u_ffs w = 0 + n"
    unfolding u_ffs_def by (rule ffs_inv_last, rule s1) simp_all
  then show ?thesis by auto
qed

lemma u_ffs_less: "w \<noteq> 0 \<Longrightarrow> u_ffs w < 64"
  using u_ffs_lowbit [of w] bit_less_len [of w "u_ffs w"] by (simp add: lowbit_def)

lemma u_ffs_bit: "w \<noteq> 0 \<Longrightarrow> bit w (u_ffs w)"
  using u_ffs_lowbit [of w] by (simp add: lowbit_def)

lemma ffs_lowbit:
  assumes "x \<noteq> 0"
  shows "\<exists>n. ffs x = Suc n \<and> lowbit x n"
proof -
  obtain n where "n < 32" "lowbit x n" using lowbit_ex [OF assms] by auto
  then have "ffs_inv x 1 32 (1, x)" by (auto simp: ffs_inv_def)
  note s16 = ffs_sstep_inv [OF this _ ffs_masks(5)]
  note s8 = ffs_sstep_inv [OF s16 _ ffs_masks(4)]
  note s4 = ffs_sstep_inv [OF s8 _ ffs_masks(3)]
  note s2 = ffs_sstep_inv [OF s4 _ ffs_masks(2)]
  note s1 = ffs_sstep_inv [OF s2 _ ffs_masks(1)]
  have "\<exists>n. lowbit x n \<and> ffs x = 1 + n"
    unfolding ffs_def if_not_P [OF assms] by (rule ffs_inv_last, rule s1) simp_all
  then show ?thesis by auto
qed

text \<open>The same from the top: \<open>num + n\<close> stays the same while the word moves up.\<close>

definition fls_inv :: "'a::len word \<Rightarrow> nat \<Rightarrow> nat \<Rightarrow> nat \<times> 'a word \<Rightarrow> bool" where
  "fls_inv w0 b k = (\<lambda>(num, w). \<exists>n n0. highbit w n \<and> LENGTH('a) \<le> n + k \<and> highbit w0 n0 \<and>
     num + n = b + n0)"

lemma fls_invI:
  "highbit w n \<Longrightarrow> LENGTH('a) \<le> n + k \<Longrightarrow> highbit w0 n0 \<Longrightarrow> num + n = b + n0 \<Longrightarrow>
   fls_inv (w0 :: 'a::len word) b k (num, w)"
  by (auto simp: fls_inv_def)

lemma highbit_high_part:
  assumes "highbit (w :: 'a::len word) n" "k \<le> LENGTH('a)"
  shows "w AND shl (- 1) (LENGTH('a) - k) = 0 \<longleftrightarrow> n + k < LENGTH('a)"
proof -
  have "n < LENGTH('a)" using assms(1) bit_less_len unfolding highbit_def by blast
  have "w AND shl (- 1) (LENGTH('a) - k) = 0 \<longleftrightarrow>
      (\<forall>i<LENGTH('a). LENGTH('a) - k \<le> i \<longrightarrow> \<not> bit w i)"
    unfolding word_zero_iff_bits by (auto simp: bit_and_iff bit_shl)
  also have "\<dots> \<longleftrightarrow> n + k < LENGTH('a)"
  proof
    assume L: "\<forall>i<LENGTH('a). LENGTH('a) - k \<le> i \<longrightarrow> \<not> bit w i"
    have "bit w n" using assms(1) by (simp add: highbit_def)
    then have "\<not> LENGTH('a) - k \<le> n" using L \<open>n < LENGTH('a)\<close> by blast
    then show "n + k < LENGTH('a)" using assms(2) by arith
  next
    assume "n + k < LENGTH('a)"
    then show "\<forall>i<LENGTH('a). LENGTH('a) - k \<le> i \<longrightarrow> \<not> bit w i"
      using assms(1) by (auto simp: highbit_def)
  qed
  finally show ?thesis .
qed

lemma fls_step_inv:
  assumes "fls_inv (w0 :: 'a::len word) b k2 st" "k2 = 2 * k" "m = shl (- 1) (LENGTH('a) - k)"
    "k2 \<le> LENGTH('a)" "LENGTH('a) \<le> Suc b"
  shows "fls_inv w0 b k (fls_step m k st)"
proof -
  obtain num w n n0 where st: "st = (num, w)"
    and n: "highbit w n" "LENGTH('a) \<le> n + 2 * k" "highbit w0 n0" "num + n = b + n0"
    using assms(1,2) by (cases st) (auto simp: fls_inv_def)
  have high: "w AND m = 0 \<longleftrightarrow> n + k < LENGTH('a)"
    using highbit_high_part [OF n(1)] assms(2,3,4) by simp
  show ?thesis
  proof (cases "w AND m = 0")
    case True
    with high have lt: "n + k < LENGTH('a)" by simp
    have "highbit (shl w k) (n + k)"
      using n(1) lt by (auto simp: highbit_def bit_shl)
    moreover have "num - k + (n + k) = b + n0" using n(4) lt assms(5) by linarith
    ultimately have "fls_inv w0 b k (num - k, shl w k)"
      using n(2,3) by (intro fls_invI [of _ "n + k" _ _ n0]) auto
    then show ?thesis using True by (simp add: fls_step_def st)
  next
    case False
    with high n have "fls_inv w0 b k (num, w)" by (intro fls_invI [of _ n _ _ n0]) auto
    then show ?thesis using False by (simp add: fls_step_def st)
  qed
qed

lemma fls_inv_last:
  fixes w0 :: "'a::len word"
  assumes "fls_inv w0 b 1 st" "Suc b = LENGTH('a) + c"
  shows "\<exists>n. highbit w0 n \<and> fst st = c + n"
proof -
  obtain n n0 where n: "highbit (snd st) n" "LENGTH('a) \<le> n + 1" "highbit w0 n0" "fst st + n = b + n0"
    using assms(1) by (cases st) (auto simp: fls_inv_def)
  have "n < LENGTH('a)" using n(1) bit_less_len unfolding highbit_def by blast
  then have "fst st = c + n0" using n(2,4) assms(2) by linarith
  then show ?thesis using n(3) by blast
qed

lemma u_fls_highbit:
  assumes "w \<noteq> 0"
  shows "highbit w (u_fls w)"
proof -
  obtain n where "highbit w n" using highbit_ex [OF assms] by auto
  then have "fls_inv w 63 64 (BITS_PER_LONG - 1, w)" by (auto simp: fls_inv_def)
  note s32 = fls_step_inv [OF this, of 32 "shl (- 1) 32"]
  note s16 = fls_step_inv [OF s32, of 16 "shl (- 1) (BITS_PER_LONG - 16)"]
  note s8 = fls_step_inv [OF s16, of 8 "shl (- 1) (BITS_PER_LONG - 8)"]
  note s4 = fls_step_inv [OF s8, of 4 "shl (- 1) (BITS_PER_LONG - 4)"]
  note s2 = fls_step_inv [OF s4, of 2 "shl (- 1) (BITS_PER_LONG - 2)"]
  note s1 = fls_step_inv [OF s2, of 1 "shl (- 1) (BITS_PER_LONG - 1)"]
  have "\<exists>n. highbit w n \<and> u_fls w = 0 + n"
    unfolding u_fls_def by (rule fls_inv_last, rule s1) simp_all
  then show ?thesis by auto
qed

lemma fls_masks:
  "(0x80000000 :: u32) = shl (- 1) (LENGTH(32) - 1)" "(0xc0000000 :: u32) = shl (- 1) (LENGTH(32) - 2)"
  "(0xf0000000 :: u32) = shl (- 1) (LENGTH(32) - 4)" "(0xff000000 :: u32) = shl (- 1) (LENGTH(32) - 8)"
  "(0xffff0000 :: u32) = shl (- 1) (LENGTH(32) - 16)"
  by (simp_all add: shl_def mask_eq_exp_minus_1)

lemma fls_highbit:
  assumes "x \<noteq> 0"
  shows "\<exists>n. fls x = Suc n \<and> highbit x n"
proof -
  obtain n where "highbit x n" using highbit_ex [OF assms] by auto
  then have "fls_inv x 32 32 (32, x)" by (auto simp: fls_inv_def)
  note s16 = fls_step_inv [OF this _ fls_masks(5)]
  note s8 = fls_step_inv [OF s16 _ fls_masks(4)]
  note s4 = fls_step_inv [OF s8 _ fls_masks(3)]
  note s2 = fls_step_inv [OF s4 _ fls_masks(2)]
  note s1 = fls_step_inv [OF s2 _ fls_masks(1)]
  have "\<exists>n. highbit x n \<and> fls x = 1 + n"
    unfolding fls_def if_not_P [OF assms] by (rule fls_inv_last, rule s1) simp_all
  then show ?thesis by auto
qed

section \<open>The searches in a bitmap are correct\<close>

definition bset :: "ulong list \<Rightarrow> nat \<Rightarrow> bool" where
  "bset addr n \<longleftrightarrow> bit (addr ! (n div 64)) (n mod 64)"

lemma bset_word: "k < 64 \<Longrightarrow> bset addr (64 * p + k) \<longleftrightarrow> bit (addr ! p) k"
  by (simp add: bset_def)

lemma first_in_refl: "first_in P n n = n"
  by (simp add: first_in_def)

text \<open>
  One word of a search: \<open>m\<close> selects the bits of word \<open>p\<close> from \<open>lo\<close> up to \<open>mid\<close>. Either none
  of them is set and the search goes on at \<open>mid\<close>, or the lowest of them is the result.
\<close>

lemma first_in_masked_word:
  assumes m: "\<And>i. bit m i \<longleftrightarrow> lo \<le> 64 * p + i \<and> 64 * p + i < mid"
    and "64 * p \<le> lo" "lo \<le> mid" "mid \<le> hi" "mid \<le> 64 * p + 64"
  shows "first_in (bset addr) lo hi =
    (if addr ! p AND m = 0 then first_in (bset addr) mid hi else 64 * p + u_ffs (addr ! p AND m))"
proof (cases "addr ! p AND m = 0")
  case True
  have "\<not> bset addr i" if i: "lo \<le> i" "i < mid" for i
  proof -
    obtain j where j: "i = 64 * p + j" using i assms(2) by (metis le_add_diff_inverse le_trans)
    have "\<not> bit (addr ! p AND m) j" by (simp add: True)
    then show ?thesis using i assms(5) by (simp add: j bset_word bit_and_iff m)
  qed
  then show ?thesis using True assms by (simp add: first_in_skip [of lo mid hi])
next
  case False
  define r where "r = u_ffs (addr ! p AND m)"
  have low: "lowbit (addr ! p AND m) r" using u_ffs_lowbit [OF False] by (simp add: r_def)
  then have r: "bit (addr ! p) r" "lo \<le> 64 * p + r" "64 * p + r < mid"
    by (auto simp: lowbit_def bit_and_iff m)
  have "first_in (bset addr) lo hi = 64 * p + r"
  proof (rule first_in_eqI)
    show "bset addr (64 * p + r)" using r(1,3) assms(5) by (simp add: bset_word)
    fix i assume i: "lo \<le> i" "i < 64 * p + r"
    obtain j where j: "i = 64 * p + j" using i assms(2) by (metis le_add_diff_inverse le_trans)
    then have "\<not> bit (addr ! p AND m) j" using low i by (simp add: lowbit_def)
    then show "\<not> bset addr i" using i r(3) assms(5) by (simp add: j bset_word bit_and_iff m)
  qed (use r assms in auto)
  then show ?thesis using False by (simp add: r_def)
qed

lemma first_in_whole_word:
  assumes "64 * p + 64 \<le> hi"
  shows "first_in (bset addr) (64 * p) hi =
    (if addr ! p = 0 then first_in (bset addr) (64 * p + 64) hi else 64 * p + u_ffs (addr ! p))"
  using first_in_masked_word [of "- 1" "64 * p" p "64 * p + 64" hi addr] assms by simp

lemma first_in_last_word:
  assumes "0 < sz" "sz < 64"
  shows "first_in (bset addr) (64 * p) (64 * p + sz) =
    (if addr ! p AND shr (- 1) (64 - sz) = 0 then 64 * p + sz
     else 64 * p + u_ffs (addr ! p AND shr (- 1) (64 - sz)))"
proof -
  have "bit (shr (- 1) (64 - sz) :: ulong) i \<longleftrightarrow> 64 * p \<le> 64 * p + i \<and> 64 * p + i < 64 * p + sz" for i
    using assms by (auto simp: bit_shr)
  from first_in_masked_word [of _ "64 * p" p "64 * p + sz" "64 * p + sz" addr, OF this] assms
  show ?thesis by (simp add: first_in_refl)
qed

lemma find_bit_words_correct:
  assumes "result = 64 * p" "64 * p + sz \<le> 64 * length addr"
  shows "find_bit_words addr p result sz = Some (first_in (bset addr) result (result + sz))"
  using assms
proof (induction addr p result sz rule: find_bit_words.induct)
  case (1 addr p result sz)
  show ?case
  proof (cases "64 \<le> sz")
    case True
    then have p: "p < length addr" using "1.prems" by simp
    have "find_bit_words addr (p + 1) (result + 64) (sz - 64) =
        Some (first_in (bset addr) (result + 64) (result + 64 + (sz - 64)))" if "addr ! p = 0"
      using True p that "1.prems" by (intro "1.IH") auto
    then show ?thesis
      using True p "1.prems" first_in_whole_word [of p "result + sz" addr]
      by (simp add: find_bit_words.simps [of addr p])
  next
    case False
    then show ?thesis
      using "1.prems" first_in_last_word [of sz addr p]
      by (cases "sz = 0") (simp_all add: find_bit_words.simps [of addr p] first_in_refl Let_def)
  qed
qed

lemma find_first_bit_correct:
  assumes "sz \<le> 64 * length addr"
  shows "find_first_bit addr sz = Some (first_in (bset addr) 0 sz)"
  using find_bit_words_correct [of 0 0 sz addr] assms by (simp add: find_first_bit_def)

text \<open>The first, partial word of \<open>find_next_bit\<close>: bits from \<open>k\<close> up, cut at the size.\<close>

lemma first_in_head_word:
  assumes "k < 64" "64 * p + 64 \<le> sz"
  shows "first_in (bset addr) (64 * p + k) sz =
    (if addr ! p AND shl (- 1) k = 0 then first_in (bset addr) (64 * p + 64) sz
     else 64 * p + u_ffs (addr ! p AND shl (- 1) k))"
proof -
  have "bit (shl (- 1) k :: ulong) i \<longleftrightarrow> 64 * p + k \<le> 64 * p + i \<and> 64 * p + i < 64 * p + 64" for i
    by (auto simp: bit_shl)
  from first_in_masked_word [of _ "64 * p + k" p "64 * p + 64" sz addr, OF this] assms
  show ?thesis by simp
qed

lemma first_in_only_word:
  assumes "k < r" "r < 64"
  shows "first_in (bset addr) (64 * p + k) (64 * p + r) =
    (if addr ! p AND shl (- 1) k AND shr (- 1) (64 - r) = 0 then 64 * p + r
     else 64 * p + u_ffs (addr ! p AND shl (- 1) k AND shr (- 1) (64 - r)))"
proof -
  have "bit (shl (- 1) k AND shr (- 1) (64 - r) :: ulong) i \<longleftrightarrow>
      64 * p + k \<le> 64 * p + i \<and> 64 * p + i < 64 * p + r" for i
    using assms by (auto simp: bit_and_iff bit_shl bit_shr)
  from first_in_masked_word [of _ "64 * p + k" p "64 * p + r" "64 * p + r" addr, OF this] assms
  show ?thesis by (simp add: first_in_refl)
qed

lemma find_next_bit_correct:
  assumes "sz \<le> 64 * length addr"
  shows "find_next_bit addr sz off = Some (if off < sz then first_in (bset addr) off sz else sz)"
proof (cases "off < sz")
  case False
  then show ?thesis by (simp add: find_next_bit_def)
next
  case True
  define p k where "p = off div 64" and "k = off mod 64"
  have off: "64 * p + k = off" "k < 64" by (auto simp: p_def k_def)
  define r where "r = sz - 64 * p"
  have sz: "sz = 64 * p + r" and kr: "k < r" using True off by (auto simp: r_def)
  have p: "p < length addr" using True assms off by auto
  have next_eq: "find_next_bit addr sz off =
     (if k \<noteq> 0 then
        (let tmp = addr ! p AND shl (- 1) k in
         if r < 64 then
           (let tmp = tmp AND shr (- 1) (64 - r) in
            if tmp = 0 then Some (64 * p + r) else Some (64 * p + u_ffs tmp))
         else if tmp \<noteq> 0 then Some (64 * p + u_ffs tmp)
         else find_bit_words addr (p + 1) (64 * p + 64) (r - 64))
      else find_bit_words addr p (64 * p) r)"
    using True p sz by (simp add: find_next_bit_def Let_def p_def k_def)
  have "find_bit_words addr p (64 * p) r = Some (first_in (bset addr) (64 * p) sz)"
    using find_bit_words_correct [of "64 * p" p r addr] assms sz by simp
  moreover have "find_bit_words addr (p + 1) (64 * p + 64) (r - 64) =
      Some (first_in (bset addr) (64 * p + 64) sz)" if "\<not> r < 64"
    using find_bit_words_correct [of "64 * p + 64" "p + 1" "r - 64" addr] that assms sz by simp
  ultimately show ?thesis
    unfolding next_eq
    using True off sz kr first_in_head_word [of k p sz addr] first_in_only_word [of k r addr p]
    by (cases "k = 0"; cases "r < 64") (auto simp: Let_def and.assoc)
qed

text \<open>Searching for a clear bit is searching for a set bit of the complement.\<close>

lemma find_zero_words_compl:
  "find_zero_words addr p result sz = find_bit_words (map (NOT) addr) p result sz"
proof (induction addr p result sz rule: find_zero_words.induct)
  case (1 addr p result sz)
  have rd: "rd (map (NOT) addr) p = map_option (NOT) (rd addr p)" by (simp add: rd_def)
  have cut: "NOT (w OR shl (- 1) sz) = NOT w AND shr (- 1) (64 - sz)" if "0 < sz" "sz < 64" for w :: ulong
    using that by (intro bit_word_eqI) (auto simp: bit_arith)
  have full: "w OR shl (- 1) sz = - 1 \<longleftrightarrow> NOT (w OR shl (- 1) sz) = 0" for w :: ulong
    by (metis bit.compl_zero bit.double_compl)
  show ?case
  proof (cases "rd addr p")
    case None
    then show ?thesis
      by (simp add: find_zero_words.simps [of addr p] find_bit_words.simps [of _ p] rd)
  next
    case (Some w)
    then show ?thesis
      using "1.IH" [of w] cut [of w] full [of w]
      by (auto simp: find_zero_words.simps [of addr p] find_bit_words.simps [of _ p] rd ffz_def Let_def)
  qed
qed

lemma find_next_zero_bit_compl:
  "find_next_zero_bit addr sz off = find_next_bit (map (NOT) addr) sz off"
proof -
  define k r where "k = off mod 64" and "r = sz - 64 * (off div 64)"
  have rd: "rd (map (NOT) addr) p = map_option (NOT) (rd addr p)" for p by (simp add: rd_def)
  have low: "NOT (shr (- 1) (64 - k)) = (shl (- 1) k :: ulong)"
    by (intro bit_word_eqI) (auto simp: bit_arith k_def)
  have full: "v = - 1 \<longleftrightarrow> NOT v = 0" for v :: ulong
    by (metis bit.compl_zero bit.double_compl)
  have cut: "NOT (shl (- 1) r) = (shr (- 1) (64 - r) :: ulong)" if "0 < r" "r < 64"
    using that by (intro bit_word_eqI) (auto simp: bit_arith)
  have r: "off < sz \<Longrightarrow> 0 < r" by (auto simp: r_def)
  show ?thesis
  proof (cases "rd addr (off div 64)")
    case None
    then show ?thesis
      by (simp add: find_next_zero_bit_def find_next_bit_def rd find_zero_words_compl Let_def)
  next
    case (Some w)
    then show ?thesis
      using r
      by (auto simp: find_next_zero_bit_def find_next_bit_def rd find_zero_words_compl Let_def ffz_def
          k_def [symmetric] r_def [symmetric] low cut full not_less)
  qed
qed

text \<open>The loop over the set bits visits exactly them, in increasing order, and ends.\<close>

lemma filter_from_first_in:
  assumes "lo \<le> hi"
  shows "filter P [lo..<hi] =
    (if first_in P lo hi < hi then first_in P lo hi # filter P [Suc (first_in P lo hi)..<hi] else [])"
proof (cases "first_in P lo hi < hi")
  case True
  let ?f = "first_in P lo hi"
  have f: "lo \<le> ?f" "P ?f" "\<forall>i. lo \<le> i \<and> i < ?f \<longrightarrow> \<not> P i"
    using first_in_cases [OF assms, of P] True by auto
  have "[lo..<hi] = [lo..<?f] @ ?f # [Suc ?f..<hi]"
    using f(1) True by (rule upt_split_at)
  moreover have "filter P [lo..<?f] = []" using f(3) by (auto simp: filter_empty_conv)
  ultimately have "filter P [lo..<hi] = ?f # filter P [Suc ?f..<hi]" using f(2) by simp
  then show ?thesis using True by simp
next
  case False
  then have "\<forall>i. lo \<le> i \<and> i < hi \<longrightarrow> \<not> P i" using first_in_cases [OF assms, of P] by auto
  then show ?thesis using False by (auto simp: filter_empty_conv)
qed

lemma for_each_from_correct:
  assumes "sz \<le> 64 * length addr" "lo \<le> sz" "sz - lo \<le> n"
  shows "for_each_from addr sz n (Some (first_in (bset addr) lo sz)) =
    Some (filter (bset addr) [lo..<sz])"
  using assms
proof (induction n arbitrary: lo)
  case 0
  then show ?case by (simp add: first_in_refl)
next
  case (Suc n)
  let ?f = "first_in (bset addr) lo sz"
  show ?case
  proof (cases "?f < sz")
    case True
    have "lo \<le> ?f" using first_in_cases [OF Suc.prems(2), of "bset addr"] Suc.prems(2) by auto
    then have "for_each_from addr sz n (Some (first_in (bset addr) (Suc ?f) sz)) =
        Some (filter (bset addr) [Suc ?f..<sz])"
      using True Suc.prems by (intro Suc.IH) auto
    moreover have "find_next_bit addr sz (?f + 1) = Some (first_in (bset addr) (Suc ?f) sz)"
      using True find_next_bit_correct [OF Suc.prems(1), of "?f + 1"]
      by (cases "Suc ?f = sz") (auto simp: first_in_refl)
    ultimately show ?thesis
      using True filter_from_first_in [OF Suc.prems(2), of "bset addr"] by simp
  next
    case False
    then show ?thesis using filter_from_first_in [OF Suc.prems(2), of "bset addr"] by simp
  qed
qed

lemma for_each_set_bit_correct:
  assumes "sz \<le> 64 * length addr"
  shows "for_each_set_bit addr sz = Some (filter (bset addr) [0..<sz])"
  using for_each_from_correct [OF assms, of 0 sz] find_first_bit_correct [OF assms]
  by (simp add: for_each_set_bit_def)

section \<open>The search from the top\<close>

definition last_in :: "(nat \<Rightarrow> bool) \<Rightarrow> nat \<Rightarrow> nat \<Rightarrow> nat" where
  "last_in P hi dflt = (case find P (rev [0..<hi]) of Some n \<Rightarrow> n | None \<Rightarrow> dflt)"

lemma last_in_masked_word:
  assumes m: "\<And>i. bit m i \<longleftrightarrow> 64 * p + i < hi" and "64 * p \<le> hi" "hi \<le> 64 * p + 64"
  shows "last_in (bset addr) hi d =
    (if addr ! p AND m = 0 then last_in (bset addr) (64 * p) d else p * 64 + u_fls (addr ! p AND m))"
proof (cases "addr ! p AND m = 0")
  case True
  have "\<not> bset addr i" if i: "64 * p \<le> i" "i < hi" for i
  proof -
    obtain j where j: "i = 64 * p + j" using i(1) le_Suc_ex by blast
    have "\<not> bit (addr ! p AND m) j" by (simp add: True)
    then show ?thesis using i assms(3) by (simp add: j bset_word bit_and_iff m)
  qed
  then have "find (bset addr) (rev [64 * p..<hi]) = None" by (auto simp: find_None_iff)
  moreover have "rev [0..<hi] = rev [64 * p..<hi] @ rev [0..<64 * p]"
    using upt_split [of 0 "64 * p" hi] assms(2) by simp
  ultimately show ?thesis using True by (simp add: last_in_def find_app)
next
  case False
  define r where "r = u_fls (addr ! p AND m)"
  have high: "highbit (addr ! p AND m) r" using u_fls_highbit [OF False] by (simp add: r_def)
  then have r: "bit (addr ! p) r" "64 * p + r < hi"
    by (auto simp: highbit_def bit_and_iff m)
  have "\<not> bset addr i" if i: "Suc (64 * p + r) \<le> i" "i < hi" for i
  proof -
    define j where "j = i - 64 * p"
    have j: "i = 64 * p + j" "r < j" "j < 64" using i assms(3) by (auto simp: j_def)
    have "\<not> bit (addr ! p AND m) j" using high j(2) by (simp add: highbit_def)
    then show ?thesis using i(2) j by (simp add: bset_word bit_and_iff m)
  qed
  then have "find (bset addr) (rev [Suc (64 * p + r)..<hi]) = None"
    by (auto simp: find_None_iff)
  moreover have "rev [0..<hi] = rev [Suc (64 * p + r)..<hi] @ (64 * p + r) # rev [0..<64 * p + r]"
    using upt_split_at [of 0 "64 * p + r" hi] r(2) by simp
  moreover have "bset addr (64 * p + r)" using r assms(3) by (simp add: bset_word)
  ultimately show ?thesis using False by (simp add: last_in_def find_app r_def [symmetric] mult.commute)
qed

lemma find_last_words_correct:
  "words \<le> length addr \<Longrightarrow> find_last_words addr words d = Some (last_in (bset addr) (64 * words) d)"
proof (induction words)
  case 0
  then show ?case by (simp add: last_in_def)
next
  case (Suc w)
  then show ?case
    using last_in_masked_word [of "- 1" w "64 * Suc w" addr d] by simp
qed

lemma find_last_bit_correct:
  assumes "sz \<le> 64 * length addr"
  shows "find_last_bit addr sz = Some (last_in (bset addr) sz sz)"
proof -
  define p r where "p = sz div 64" and "r = sz mod 64"
  have sz: "sz = 64 * p + r" "r < 64" by (auto simp: p_def r_def)
  have p: "p \<le> length addr" "r \<noteq> 0 \<Longrightarrow> p < length addr" using sz assms by auto
  have "bit (shr (- 1) (64 - r) :: ulong) i \<longleftrightarrow> 64 * p + i < sz" for i
    using sz by (auto simp: bit_shr)
  from last_in_masked_word [of _ p sz addr sz, OF this] show ?thesis
    using p sz find_last_words_correct [OF p(1), of sz]
    by (auto simp: find_last_bit_def Let_def p_def [symmetric] r_def [symmetric])
qed

section \<open>Properties\<close>

lemma bset_compl: "n < 64 * length addr \<Longrightarrow> bset (map NOT addr) n \<longleftrightarrow> \<not> bset addr n"
  by (auto simp: bset_def bit_not_iff less_mult_imp_div_less mult.commute)

lemma first_in_cong:
  "(\<And>i. lo \<le> i \<Longrightarrow> i < hi \<Longrightarrow> P i \<longleftrightarrow> Q i) \<Longrightarrow> first_in P lo hi = first_in Q lo hi"
  unfolding first_in_def by (subst find_cong [where Q = Q and ys = "[lo..<hi]"]) auto

text \<open>
  C23: the four searches of \<open>sbi_bitops.c\<close> return, without reading outside a bitmap of at least
  \<open>sz\<close> bits, the least index of a set bit (from 0, or from \<open>off\<close>), the least index of a clear
  bit from \<open>off\<close>, and the greatest index of a set bit below \<open>sz\<close>; each returns \<open>sz\<close> when there
  is no such bit. The word-at-a-time loops and the binary search in the word therefore agree
  with the bit-by-bit reference.
\<close>

theorem bitmap_searches_correct:
  assumes "sz \<le> 64 * length addr"
  shows "find_first_bit addr sz = Some (first_in (bset addr) 0 sz) \<and>
    find_next_bit addr sz off = Some (if off < sz then first_in (bset addr) off sz else sz) \<and>
    find_next_zero_bit addr sz off =
      Some (if off < sz then first_in (\<lambda>i. \<not> bset addr i) off sz else sz) \<and>
    find_last_bit addr sz = Some (last_in (bset addr) sz sz)"
  using assms bset_compl [of _ addr]
  by (auto simp: find_first_bit_correct find_next_bit_correct find_last_bit_correct
      find_next_zero_bit_compl intro!: first_in_cong)

theorem bitmap_searches_correct_witness:
  "find_first_bit [0, 0x50] 128 = Some 68 \<and> find_next_bit [0, 0x50] 128 69 = Some 70 \<and>
   find_next_zero_bit [- 1, 0x57] 128 3 = Some 67 \<and> find_last_bit [0, 0x50] 128 = Some 70"
  using bitmap_searches_correct [of 128 "[0, 0x50]" 69] bitmap_searches_correct [of 128 "[- 1, 0x57]" 3]
  by (simp add: first_in_def last_in_def bset_def upt_rec)

end
