(* ===== verification/Riscv_Pmp.thy ===== *)
theory Riscv_Pmp
  imports Riscv_Encoding Sbi_Bitops
begin

text \<open>
  Physical memory protection entries: \<open>pmp_set\<close>, \<open>pmp_get\<close> and their helpers from
  \<^verbatim>\<open>lib/sbi/riscv_asm.c\<close>, and \<open>log2roundup\<close> from \<^verbatim>\<open>lib/sbi/sbi_math.c\<close>, over the CSR file of
  a hart (a function from CSR numbers to values, with plain storage semantics).

  A naturally aligned region of \<open>2 ^ l\<close> bytes is encoded in the number of trailing ones of its
  address register; the round trip shows that decoding recovers the region.
\<close>

section \<open>Definitions\<close>

type_synonym csrs = "nat \<Rightarrow> ulong"

definition pmp_csr :: "nat \<Rightarrow> bool" where
  "pmp_csr n \<longleftrightarrow> CSR_PMPCFG0 \<le> n \<and> n \<le> CSR_PMPCFG0 + 3 \<or> CSR_PMPADDR0 \<le> n \<and> n \<le> CSR_PMPADDR0 + 15"

definition csr_read_num :: "nat \<Rightarrow> csrs \<Rightarrow> ulong" where
  "csr_read_num csr_num f = (if pmp_csr csr_num then f csr_num else 0)"

definition csr_write_num :: "nat \<Rightarrow> ulong \<Rightarrow> csrs \<Rightarrow> csrs" where
  "csr_write_num csr_num val f = (if pmp_csr csr_num then f(csr_num := val) else f)"

text \<open>The loop does not end on 0; not returning is the value \<open>None\<close>.\<close>

partial_function (option) ctz_from :: "ulong \<Rightarrow> nat \<Rightarrow> nat option" where
  "ctz_from x ret = (if x AND 1 = 0 then ctz_from (shr x 1) (ret + 1) else Some ret)"

definition ctz :: "ulong \<Rightarrow> nat option" where
  "ctz x = ctz_from x 0"

text \<open>The configuration register of an entry (even ones only on a 64-bit hart) and its byte there.\<close>

definition pmpcfg_csr :: "nat \<Rightarrow> nat" where
  "pmpcfg_csr n = (CSR_PMPCFG0 + n div 4) div 2 * 2"

definition pmpcfg_shift :: "nat \<Rightarrow> nat" where
  "pmpcfg_shift n = (n mod 8) * 8"

definition pmp_set :: "nat \<Rightarrow> ulong \<Rightarrow> ulong \<Rightarrow> nat \<Rightarrow> csrs \<Rightarrow> int \<times> csrs" where
  "pmp_set n prot addr log2len f =
     (if PMP_COUNT \<le> n \<or> 64 < log2len \<or> log2len < PMP_SHIFT then (SBI_EINVAL, f)
      else
        (let prot = prot OR (if log2len = PMP_SHIFT then PMP_A_NA4 else PMP_A_NAPOT);
             cfgmask = NOT (shl 0xff (pmpcfg_shift n));
             pmpcfg = csr_read_num (pmpcfg_csr n) f AND cfgmask;
             pmpcfg = pmpcfg OR (shl prot (pmpcfg_shift n) AND NOT cfgmask);
             addrmask = shl 1 (log2len - PMP_SHIFT) - 1;
             pmpaddr =
               (if log2len = PMP_SHIFT then shr addr PMP_SHIFT
                else if log2len = 64 then - 1
                else (shr addr PMP_SHIFT AND NOT addrmask) OR shr addrmask 1)
         in (0, csr_write_num (pmpcfg_csr n) pmpcfg (csr_write_num (CSR_PMPADDR0 + n) pmpaddr f))))"

text \<open>The outcome of \<open>pmp_get\<close>: the return code and, when written, protection, address and size.\<close>

definition pmp_get :: "nat \<Rightarrow> csrs \<Rightarrow> (int \<times> (ulong \<times> ulong \<times> ulong) option) option" where
  "pmp_get n f =
     (if PMP_COUNT \<le> n then Some (SBI_EINVAL, None)
      else
        (let cfgmask = shl 0xff (pmpcfg_shift n);
             pmpcfg = csr_read_num (pmpcfg_csr n) f AND cfgmask;
             prot = shr pmpcfg (pmpcfg_shift n);
             addr = csr_read_num (CSR_PMPADDR0 + n) f
         in do {
           (addr, log2len) \<leftarrow>
             (if prot AND PMP_A = PMP_A_NAPOT then
                if addr = - 1 then Some (0, 64)
                else do {
                  t1 \<leftarrow> ctz (NOT addr);
                  Some (shl (addr AND NOT (shl 1 t1 - 1)) PMP_SHIFT, t1 + PMP_SHIFT + 1) }
              else Some (shl addr PMP_SHIFT, PMP_SHIFT));
           Some (0, Some (prot, addr, if log2len < 64 then shl 1 log2len else 0)) }))"

fun log2roundup_from :: "nat \<Rightarrow> ulong \<Rightarrow> nat \<Rightarrow> nat" where
  "log2roundup_from 0 x ret = ret"
| "log2roundup_from (Suc n) x ret = (if x \<le> shl 1 ret then ret else log2roundup_from n x (ret + 1))"

definition log2roundup :: "ulong \<Rightarrow> nat" where
  "log2roundup x = log2roundup_from 64 x 0"

section \<open>Helpers\<close>

lemma shl_one_minus: "(shl 1 k - 1 :: 'a::len word) = mask k"
  by (simp add: shl_def mask_eq_decr_exp)

lemma and_one_eq_0: "(x :: 'a::len word) AND 1 = 0 \<longleftrightarrow> \<not> bit x 0"
  by (simp add: and_one_eq mod_2_eq_odd bit_0)

lemma lowbit_shr: "lowbit x (Suc n) \<Longrightarrow> lowbit (shr x 1) n"
  by (auto simp: lowbit_def bit_shr)

lemma ctz_from_correct: "lowbit x n \<Longrightarrow> ctz_from x ret = Some (ret + n)"
proof (induction n arbitrary: x ret)
  case 0
  then show ?case by (subst ctz_from.simps) (simp add: and_one_eq_0 lowbit_def)
next
  case (Suc n)
  then have "\<not> bit x 0" by (auto simp: lowbit_def)
  with Suc.IH [OF lowbit_shr [OF Suc.prems], of "ret + 1"] show ?case
    by (subst ctz_from.simps) (simp add: and_one_eq_0)
qed

lemma ctz_correct: "lowbit x n \<Longrightarrow> ctz x = Some n"
  by (simp add: ctz_def ctz_from_correct)

lemma log2roundup_from_correct:
  "(\<And>i. i < ret \<Longrightarrow> \<not> x \<le> shl 1 i) \<Longrightarrow> n + ret = 64 \<Longrightarrow>
   log2roundup_from n x ret = first_in (\<lambda>i. x \<le> shl 1 i) 0 64"
proof (induction n arbitrary: ret)
  case 0
  then show ?case using first_in_none [of 0 64 "\<lambda>i. x \<le> shl 1 i"] by simp
next
  case (Suc n)
  show ?case
  proof (cases "x \<le> shl 1 ret")
    case True
    then show ?thesis using Suc.prems first_in_eqI [of 0 ret 64 "\<lambda>i. x \<le> shl 1 i"] by simp
  next
    case False
    then show ?thesis using Suc.prems Suc.IH [of "Suc ret"] by (auto simp: less_Suc_eq)
  qed
qed

lemma log2roundup_first: "log2roundup x = first_in (\<lambda>i. x \<le> shl 1 i) 0 64"
  unfolding log2roundup_def by (rule log2roundup_from_correct) auto

lemma unat_shl_one: "k < 64 \<Longrightarrow> unat (shl 1 k :: ulong) = 2 ^ k"
  using unat_of_nat [of "2 ^ k", where ?'a = 64] power_strict_increasing [of k 64 "2 :: nat"]
  by (simp add: shl_def)

text \<open>The size is at most the power of two returned (which does not fit in a word when it is \<open>2 ^ 64\<close>).\<close>

lemma log2roundup_bound: "unat x \<le> 2 ^ log2roundup x \<and> log2roundup x \<le> 64"
proof -
  let ?P = "\<lambda>i. x \<le> shl 1 i"
  consider "log2roundup x = 64" | "log2roundup x < 64" "?P (log2roundup x)"
    unfolding log2roundup_first using first_in_cases [of 0 64 ?P] by auto
  then show ?thesis
  proof cases
    case 1
    then show ?thesis using unat64 [of x] by simp
  next
    case 2
    then show ?thesis by (auto simp: word_le_nat_alt unat_shl_one)
  qed
qed

section \<open>Entries do not interfere, and decoding recovers the region\<close>

lemma mask8: "(0xff :: ulong) = mask 8"
  by (simp add: mask_eq_exp_minus_1)

lemma pmpcfg_in: "n < PMP_COUNT \<Longrightarrow> pmp_csr (pmpcfg_csr n) \<and> pmp_csr (CSR_PMPADDR0 + n)"
  by (auto simp: pmp_csr_def pmpcfg_csr_def)

lemma pmpcfg_not_addr [simp]: "n < PMP_COUNT \<Longrightarrow> pmpcfg_csr n \<noteq> CSR_PMPADDR0 + m"
  "n < PMP_COUNT \<Longrightarrow> CSR_PMPADDR0 + m \<noteq> pmpcfg_csr n"
  by (auto simp: pmpcfg_csr_def)

lemma pmpcfg_shift_le: "pmpcfg_shift n + 8 \<le> 64"
  using mod_less_divisor [of 8 n] by (simp add: pmpcfg_shift_def)

lemma pmpcfg_apart:
  assumes "n \<noteq> m" "n < PMP_COUNT" "m < PMP_COUNT" "pmpcfg_csr n = pmpcfg_csr m"
  shows "pmpcfg_shift n + 8 \<le> pmpcfg_shift m \<or> pmpcfg_shift m + 8 \<le> pmpcfg_shift n"
proof -
  have "(CSR_PMPCFG0 + x) div 2 * 2 = CSR_PMPCFG0 + 2 * (x div 2)" for x
    by presburger
  then have "pmpcfg_csr k = CSR_PMPCFG0 + 2 * (k div 8)" for k
    using div_mult2_eq [of k 4 2] by (simp only: pmpcfg_csr_def) simp
  then have "n div 8 = m div 8" using assms(4) by simp
  then have "n mod 8 \<noteq> m mod 8" using assms(1) by (metis div_mult_mod_eq)
  then show ?thesis by (auto simp: pmpcfg_shift_def)
qed

text \<open>Replacing one byte of a configuration word: what it then holds, and what the others hold.\<close>

lemma cfg_byte_same:
  assumes "s + 8 \<le> 64"
  shows "shr (((w AND NOT (shl 0xff s)) OR (shl p s AND shl 0xff s)) AND shl 0xff s) s =
    (p AND 0xff :: ulong)"
  unfolding mask8 using assms by (intro bit_word_eqI) (auto simp: bit_arith)

lemma cfg_byte_other:
  assumes "s + 8 \<le> t \<or> t + 8 \<le> s" "t + 8 \<le> 64"
  shows "((w AND NOT (shl 0xff s)) OR (shl p s AND shl 0xff s)) AND shl 0xff t =
    (w AND shl 0xff t :: ulong)"
  unfolding mask8 using assms by (intro bit_word_eqI) (auto simp: bit_arith)

definition pmp_prot :: "ulong \<Rightarrow> nat \<Rightarrow> ulong" where
  "pmp_prot prot l = prot OR (if l = PMP_SHIFT then PMP_A_NA4 else PMP_A_NAPOT)"

definition napot :: "ulong \<Rightarrow> nat \<Rightarrow> ulong" where
  "napot addr l =
     (if l = PMP_SHIFT then shr addr PMP_SHIFT else if l = 64 then - 1
      else (shr addr PMP_SHIFT AND NOT (mask (l - PMP_SHIFT))) OR shr (mask (l - PMP_SHIFT)) 1)"

lemma pmp_set_ok:
  assumes "n < PMP_COUNT" "PMP_SHIFT \<le> l" "l \<le> 64"
  shows "pmp_set n prot addr l f =
    (0, f(CSR_PMPADDR0 + n := napot addr l,
          pmpcfg_csr n := (f (pmpcfg_csr n) AND NOT (shl 0xff (pmpcfg_shift n))) OR
            (shl (pmp_prot prot l) (pmpcfg_shift n) AND shl 0xff (pmpcfg_shift n))))"
  using assms pmpcfg_in [OF assms(1)]
  by (auto simp: pmp_set_def Let_def csr_read_num_def csr_write_num_def napot_def pmp_prot_def
      shl_one_minus)

text \<open>What \<open>pmp_get\<close> decodes from the configuration byte and the address register.\<close>

definition pmp_decode :: "ulong \<Rightarrow> ulong \<Rightarrow> (ulong \<times> ulong \<times> ulong) option" where
  "pmp_decode prot a =
     (if prot AND PMP_A = PMP_A_NAPOT then
        if a = - 1 then Some (prot, 0, 0)
        else map_option (\<lambda>t. (prot, shl (a AND NOT (mask t)) PMP_SHIFT,
               if t + PMP_SHIFT + 1 < 64 then shl 1 (t + PMP_SHIFT + 1) else 0)) (ctz (NOT a))
      else Some (prot, shl a PMP_SHIFT, shl 1 PMP_SHIFT))"

lemma pmp_get_decode:
  assumes "n < PMP_COUNT"
  shows "pmp_get n f =
    map_option (\<lambda>r. (0, Some r)) (pmp_decode (shr (f (pmpcfg_csr n) AND shl 0xff (pmpcfg_shift n)) (pmpcfg_shift n))
      (f (CSR_PMPADDR0 + n)))"
  using assms pmpcfg_in [OF assms]
  by (cases "ctz (NOT (f (CSR_PMPADDR0 + n)))")
    (auto simp: pmp_get_def pmp_decode_def Let_def csr_read_num_def shl_one_minus)

lemma pmp_get_set_other:
  assumes "n < PMP_COUNT" "m < PMP_COUNT" "m \<noteq> n" "PMP_SHIFT \<le> l" "l \<le> 64"
  shows "pmp_get m (snd (pmp_set n prot addr l f)) = pmp_get m f"
proof (cases "pmpcfg_csr n = pmpcfg_csr m")
  case True
  then have "pmpcfg_shift n + 8 \<le> pmpcfg_shift m \<or> pmpcfg_shift m + 8 \<le> pmpcfg_shift n"
    using pmpcfg_apart [of n m] assms by auto
  from cfg_byte_other [OF this pmpcfg_shift_le] show ?thesis
    using assms True by (simp add: pmp_get_decode pmp_set_ok)
next
  case False
  then show ?thesis using assms by (simp add: pmp_get_decode pmp_set_ok)
qed

lemma lowbit_not_napot:
  assumes "PMP_SHIFT < l" "l < 64"
  shows "lowbit (NOT (napot addr l)) (l - 3)"
  unfolding lowbit_def using assms by (auto simp: napot_def bit_arith)

lemma napot_not_ones: "PMP_SHIFT < l \<Longrightarrow> l < 64 \<Longrightarrow> napot addr l \<noteq> - 1"
  using lowbit_not_napot [of l addr] by (auto simp: lowbit_def)

lemma napot_base:
  assumes "PMP_SHIFT < l" "l < 64"
  shows "shl (napot addr l AND NOT (mask (l - 3))) PMP_SHIFT = addr AND NOT (mask l)"
proof (rule bit_word_eqI)
  fix i assume "i < LENGTH(64)"
  then show "bit (shl (napot addr l AND NOT (mask (l - 3))) PMP_SHIFT) i \<longleftrightarrow> bit (addr AND NOT (mask l)) i"
    using assms by (cases i; cases "i - 1") (auto simp: napot_def bit_arith)
qed

lemma shl_shr: "shl (shr w k) k = (w AND NOT (mask k) :: 'a::len word)"
  by (rule bit_word_eqI) (auto simp: bit_arith)

lemma pmp_get_set_same:
  assumes "n < PMP_COUNT" "PMP_SHIFT \<le> l" "l \<le> 64" "prot AND NOT 0xff = 0" "prot AND PMP_A = 0"
  shows "pmp_get n (snd (pmp_set n prot addr l f)) =
    Some (0, Some (pmp_prot prot l, if l < 64 then addr AND NOT (mask l) else 0, if l < 64 then shl 1 l else 0))"
proof -
  have "prot AND 0xff = prot"
    using assms(4) unfolding word_zero_iff_bits mask8 by (intro bit_word_eqI) (auto simp: bit_arith)
  then have "pmp_prot prot l AND 0xff = pmp_prot prot l"
    by (simp add: pmp_prot_def bit.conj_disj_distrib2)
  moreover have "pmp_prot prot l AND PMP_A = (if l = PMP_SHIFT then PMP_A_NA4 else PMP_A_NAPOT)"
    using assms(5) by (simp add: pmp_prot_def bit.conj_disj_distrib2)
  moreover have "shl (shr addr 2) 2 = addr AND NOT (mask 2)" by (rule shl_shr)
  moreover have "l \<noteq> 2 \<Longrightarrow> Suc (Suc (Suc (l - 3))) = l" using assms(2) by simp
  ultimately show ?thesis
    using assms cfg_byte_same [OF pmpcfg_shift_le] ctz_correct [OF lowbit_not_napot, of l addr]
      napot_not_ones [of l addr] napot_base [of l addr]
    by (auto simp: pmp_get_decode pmp_set_ok pmp_decode_def) (auto simp: napot_def)
qed

section \<open>Properties\<close>

text \<open>
  C24: an entry written by \<open>pmp_set\<close> is read back by \<open>pmp_get\<close> as the naturally aligned
  region it was given: the same protection bits with the matching mode, the address rounded
  down to the region size, and that size (0 stands for the whole address space). No other
  entry changes, although eight of them share one configuration register. Arguments out of
  range are refused with \<open>SBI_EINVAL\<close> and nothing is written.
\<close>

theorem pmp_set_get_round_trip:
  assumes "prot AND NOT 0xff = 0" "prot AND PMP_A = 0" "m < PMP_COUNT"
  shows "if n < PMP_COUNT \<and> PMP_SHIFT \<le> l \<and> l \<le> 64
    then fst (pmp_set n prot addr l f) = 0 \<and>
      pmp_get m (snd (pmp_set n prot addr l f)) =
        (if m = n
         then Some (0, Some (prot OR (if l = PMP_SHIFT then PMP_A_NA4 else PMP_A_NAPOT),
                             if l < 64 then addr AND NOT (mask l) else 0,
                             if l < 64 then 2 ^ l else 0))
         else pmp_get m f)
    else pmp_set n prot addr l f = (SBI_EINVAL, f)"
proof (cases "n < PMP_COUNT \<and> PMP_SHIFT \<le> l \<and> l \<le> 64")
  case True
  then have "fst (pmp_set n prot addr l f) = 0" by (simp add: pmp_set_ok)
  with True show ?thesis
    using pmp_get_set_same [of n l prot addr f] pmp_get_set_other [of n m l prot addr f] assms
    by (auto simp: pmp_prot_def shl_def)
next
  case False
  then show ?thesis by (auto simp: pmp_set_def)
qed

theorem pmp_set_get_round_trip_witness:
  "pmp_get 3 (snd (pmp_set 3 5 0x80201234 16 (\<lambda>_. 0x77))) =
    Some (0, Some (0x1d, 0x80200000, 0x10000))"
  using pmp_set_get_round_trip [of 5 3 3 16 "0x80201234" "\<lambda>_. 0x77"]
  by (simp add: mask_eq_exp_minus_1)

end
