(* ===== verification/Sbi_Hartmask.thy ===== *)
theory Sbi_Hartmask
  imports Sbi_Bitops
begin

text \<open>
  Bitmaps (\<^verbatim>\<open>include/sbi/sbi_bitmap.h\<close>, \<^verbatim>\<open>lib/sbi/sbi_bitmap.c\<close>) and the hart masks built on
  them (\<^verbatim>\<open>include/sbi/sbi_hartmask.h\<close>). The macro \<open>small_const_nbits\<close> asks the compiler whether
  its argument is a constant; the answer is the argument \<open>cst\<close>.

  A hart mask represents a set of hart ids below 128. The locale \<open>mask_set\<close> states the
  interface its clients rely on (a finite set with insertion, removal, membership and union),
  and the interpretation \<open>hm\<close> discharges it for the C operations.
\<close>

definition small_const_nbits :: "bool \<Rightarrow> nat \<Rightarrow> bool" where
  "small_const_nbits cst nbits \<longleftrightarrow> cst \<and> nbits \<le> BITS_PER_LONG"

definition BITMAP_LAST_WORD_MASK :: "nat \<Rightarrow> ulong" where
  "BITMAP_LAST_WORD_MASK nbits =
     (if nbits mod BITS_PER_LONG \<noteq> 0 then shl 1 (nbits mod BITS_PER_LONG) - 1 else - 1)"

definition bitmap_estimate_size :: "nat \<Rightarrow> nat" where
  "bitmap_estimate_size nbits = BITS_TO_LONGS nbits * 8"

section \<open>Word-wise loops\<close>

function bitmap_zip :: "(ulong \<Rightarrow> ulong \<Rightarrow> ulong) \<Rightarrow> nat \<Rightarrow> nat \<Rightarrow> ulong list \<Rightarrow> ulong list \<Rightarrow>
    ulong list \<Rightarrow> ulong list option" where
  "bitmap_zip f k nr dst bitmap1 bitmap2 =
     (if k < nr then do {
        x \<leftarrow> rd bitmap1 k;
        y \<leftarrow> rd bitmap2 k;
        dst' \<leftarrow> wr dst k (f x y);
        bitmap_zip f (k + 1) nr dst' bitmap1 bitmap2 }
      else Some dst)"
  by pat_completeness auto
termination by (relation "measure (\<lambda>(_, k, nr, _). nr - k)") auto

declare bitmap_zip.simps [simp del]

definition u_bitmap_and :: "ulong list \<Rightarrow> ulong list \<Rightarrow> ulong list \<Rightarrow> nat \<Rightarrow> ulong list option" where
  "u_bitmap_and dst bitmap1 bitmap2 bits = bitmap_zip (AND) 0 (BITS_TO_LONGS bits) dst bitmap1 bitmap2"

definition u_bitmap_or :: "ulong list \<Rightarrow> ulong list \<Rightarrow> ulong list \<Rightarrow> nat \<Rightarrow> ulong list option" where
  "u_bitmap_or dst bitmap1 bitmap2 bits = bitmap_zip (OR) 0 (BITS_TO_LONGS bits) dst bitmap1 bitmap2"

definition u_bitmap_xor :: "ulong list \<Rightarrow> ulong list \<Rightarrow> ulong list \<Rightarrow> nat \<Rightarrow> ulong list option" where
  "u_bitmap_xor dst bitmap1 bitmap2 bits = bitmap_zip (XOR) 0 (BITS_TO_LONGS bits) dst bitmap1 bitmap2"

text \<open>\<^verbatim>\<open>dst[i] = v i\<close> for \<open>i\<close> from \<open>k\<close> up to \<open>len\<close>.\<close>

function bitmap_fill_words :: "(nat \<Rightarrow> ulong option) \<Rightarrow> nat \<Rightarrow> nat \<Rightarrow> ulong list \<Rightarrow> ulong list option" where
  "bitmap_fill_words v k len dst =
     (if k < len then do {
        x \<leftarrow> v k;
        dst' \<leftarrow> wr dst k x;
        bitmap_fill_words v (k + 1) len dst' }
      else Some dst)"
  by pat_completeness auto
termination by (relation "measure (\<lambda>(_, k, len, _). len - k)") auto

declare bitmap_fill_words.simps [simp del]

fun bitmap_set :: "ulong list \<Rightarrow> nat \<Rightarrow> nat \<Rightarrow> ulong list option" where
  "bitmap_set bmap start 0 = Some bmap"
| "bitmap_set bmap start (Suc len) = do {
     bmap' \<leftarrow> u_set_bit start bmap;
     bitmap_set bmap' (start + 1) len }"

fun bitmap_clear :: "ulong list \<Rightarrow> nat \<Rightarrow> nat \<Rightarrow> ulong list option" where
  "bitmap_clear bmap start 0 = Some bmap"
| "bitmap_clear bmap start (Suc len) = do {
     bmap' \<leftarrow> u_clear_bit start bmap;
     bitmap_clear bmap' (start + 1) len }"

definition bitmap_zero :: "bool \<Rightarrow> ulong list \<Rightarrow> nat \<Rightarrow> ulong list option" where
  "bitmap_zero cst dst nbits =
     (if small_const_nbits cst nbits then wr dst 0 0
      else bitmap_fill_words (\<lambda>_. Some 0) 0 (BITS_TO_LONGS nbits) dst)"

definition bitmap_zero_except :: "bool \<Rightarrow> ulong list \<Rightarrow> nat \<Rightarrow> nat \<Rightarrow> ulong list option" where
  "bitmap_zero_except cst dst exception nbits = do {
     dst' \<leftarrow> (if small_const_nbits cst nbits then wr dst 0 0
             else bitmap_fill_words (\<lambda>_. Some 0) 0 (BITS_TO_LONGS nbits) dst);
     if exception < nbits then u_set_bit exception dst' else Some dst' }"

definition bitmap_fill :: "bool \<Rightarrow> ulong list \<Rightarrow> nat \<Rightarrow> ulong list option" where
  "bitmap_fill cst dst nbits =
     (let nlongs = BITS_TO_LONGS nbits in do {
        dst' \<leftarrow> (if \<not> small_const_nbits cst nbits
                then bitmap_fill_words (\<lambda>_. Some (- 1)) 0 (nlongs - 1) dst else Some dst);
        wr dst' (nlongs - 1) (BITMAP_LAST_WORD_MASK nbits) })"

definition bitmap_copy :: "bool \<Rightarrow> ulong list \<Rightarrow> ulong list \<Rightarrow> nat \<Rightarrow> ulong list option" where
  "bitmap_copy cst dst src nbits =
     (if small_const_nbits cst nbits then do { x \<leftarrow> rd src 0; wr dst 0 x }
      else bitmap_fill_words (rd src) 0 (BITS_TO_LONGS nbits) dst)"

definition bitmap_and :: "bool \<Rightarrow> ulong list \<Rightarrow> ulong list \<Rightarrow> ulong list \<Rightarrow> nat \<Rightarrow> ulong list option" where
  "bitmap_and cst dst src1 src2 nbits =
     (if small_const_nbits cst nbits
      then do { x \<leftarrow> rd src1 0; y \<leftarrow> rd src2 0; wr dst 0 (x AND y) }
      else u_bitmap_and dst src1 src2 nbits)"

definition bitmap_or :: "bool \<Rightarrow> ulong list \<Rightarrow> ulong list \<Rightarrow> ulong list \<Rightarrow> nat \<Rightarrow> ulong list option" where
  "bitmap_or cst dst src1 src2 nbits =
     (if small_const_nbits cst nbits
      then do { x \<leftarrow> rd src1 0; y \<leftarrow> rd src2 0; wr dst 0 (x OR y) }
      else u_bitmap_or dst src1 src2 nbits)"

definition bitmap_xor :: "bool \<Rightarrow> ulong list \<Rightarrow> ulong list \<Rightarrow> ulong list \<Rightarrow> nat \<Rightarrow> ulong list option" where
  "bitmap_xor cst dst src1 src2 nbits =
     (if small_const_nbits cst nbits
      then do { x \<leftarrow> rd src1 0; y \<leftarrow> rd src2 0; wr dst 0 (x XOR y) }
      else u_bitmap_xor dst src1 src2 nbits)"

section \<open>Hart masks\<close>

abbreviation (input) SBI_HARTMASK_MAX_BITS :: nat where "SBI_HARTMASK_MAX_BITS \<equiv> 128"

record sbi_hartmask =
  bits :: "ulong list"

definition with_bits :: "sbi_hartmask \<Rightarrow> ulong list option \<Rightarrow> sbi_hartmask option" where
  "with_bits m b = map_option (\<lambda>b. m\<lparr>bits := b\<rparr>) b"

definition SBI_HARTMASK_INIT :: "sbi_hartmask \<Rightarrow> sbi_hartmask option" where
  "SBI_HARTMASK_INIT m = with_bits m (bitmap_zero True (bits m) SBI_HARTMASK_MAX_BITS)"

definition SBI_HARTMASK_INIT_EXCEPT :: "sbi_hartmask \<Rightarrow> nat \<Rightarrow> sbi_hartmask option" where
  "SBI_HARTMASK_INIT_EXCEPT m h = with_bits m (bitmap_zero_except True (bits m) h SBI_HARTMASK_MAX_BITS)"

definition sbi_hartmask_set_hart :: "nat \<Rightarrow> sbi_hartmask \<Rightarrow> sbi_hartmask option" where
  "sbi_hartmask_set_hart h m =
     (if h < SBI_HARTMASK_MAX_BITS then with_bits m (u_set_bit h (bits m)) else Some m)"

definition sbi_hartmask_clear_hart :: "nat \<Rightarrow> sbi_hartmask \<Rightarrow> sbi_hartmask option" where
  "sbi_hartmask_clear_hart h m =
     (if h < SBI_HARTMASK_MAX_BITS then with_bits m (u_clear_bit h (bits m)) else Some m)"

definition sbi_hartmask_test_hart :: "nat \<Rightarrow> sbi_hartmask \<Rightarrow> ulong option" where
  "sbi_hartmask_test_hart h m =
     (if h < SBI_HARTMASK_MAX_BITS then u_test_bit h (bits m) else Some 0)"

definition sbi_hartmask_set_all :: "sbi_hartmask \<Rightarrow> sbi_hartmask option" where
  "sbi_hartmask_set_all m = with_bits m (bitmap_fill True (bits m) SBI_HARTMASK_MAX_BITS)"

definition sbi_hartmask_clear_all :: "sbi_hartmask \<Rightarrow> sbi_hartmask option" where
  "sbi_hartmask_clear_all m = with_bits m (bitmap_zero True (bits m) SBI_HARTMASK_MAX_BITS)"

definition sbi_hartmask_and :: "sbi_hartmask \<Rightarrow> sbi_hartmask \<Rightarrow> sbi_hartmask \<Rightarrow> sbi_hartmask option" where
  "sbi_hartmask_and dst src1 src2 =
     with_bits dst (bitmap_and True (bits dst) (bits src1) (bits src2) SBI_HARTMASK_MAX_BITS)"

definition sbi_hartmask_or :: "sbi_hartmask \<Rightarrow> sbi_hartmask \<Rightarrow> sbi_hartmask \<Rightarrow> sbi_hartmask option" where
  "sbi_hartmask_or dst src1 src2 =
     with_bits dst (bitmap_or True (bits dst) (bits src1) (bits src2) SBI_HARTMASK_MAX_BITS)"

definition sbi_hartmask_xor :: "sbi_hartmask \<Rightarrow> sbi_hartmask \<Rightarrow> sbi_hartmask \<Rightarrow> sbi_hartmask option" where
  "sbi_hartmask_xor dst src1 src2 =
     with_bits dst (bitmap_xor True (bits dst) (bits src1) (bits src2) SBI_HARTMASK_MAX_BITS)"

definition sbi_hartmask_for_each_hart :: "sbi_hartmask \<Rightarrow> nat list option" where
  "sbi_hartmask_for_each_hart m = for_each_set_bit (bits m) SBI_HARTMASK_MAX_BITS"

section \<open>The word-wise loops are pointwise\<close>

text \<open>The reference: \<open>dst\<close> with the words from \<open>k\<close> up to \<open>nr\<close> replaced by \<open>f\<close>.\<close>

definition upd_words :: "(nat \<Rightarrow> ulong) \<Rightarrow> nat \<Rightarrow> nat \<Rightarrow> ulong list \<Rightarrow> ulong list" where
  "upd_words f k nr dst = map (\<lambda>i. if k \<le> i \<and> i < nr then f i else dst ! i) [0..<length dst]"

lemma length_upd_words [simp]: "length (upd_words f k nr dst) = length dst"
  by (simp add: upd_words_def)

lemma nth_upd_words [simp]:
  "i < length dst \<Longrightarrow> upd_words f k nr dst ! i = (if k \<le> i \<and> i < nr then f i else dst ! i)"
  by (simp add: upd_words_def)

lemma upd_words_done [simp]: "nr \<le> k \<Longrightarrow> upd_words f k nr dst = dst"
  by (rule nth_equalityI) auto

lemma upd_words_step:
  "k < nr \<Longrightarrow> k < length dst \<Longrightarrow> upd_words f (Suc k) nr (dst[k := f k]) = upd_words f k nr dst"
  by (rule nth_equalityI) (auto simp: nth_list_update)

lemma bitmap_zip_correct:
  assumes "nr \<le> length dst" "nr \<le> length b1" "nr \<le> length b2"
  shows "bitmap_zip f k nr dst b1 b2 = Some (upd_words (\<lambda>i. f (b1 ! i) (b2 ! i)) k nr dst)"
  using assms
proof (induction f k nr dst b1 b2 rule: bitmap_zip.induct)
  case (1 f k nr dst b1 b2)
  then show ?case
    by (subst bitmap_zip.simps)
      (auto simp: upd_words_step [of k nr dst "\<lambda>i. f (b1 ! i) (b2 ! i)"])
qed

lemma bitmap_fill_words_correct:
  assumes "len \<le> length dst" "\<And>i. i < len \<Longrightarrow> v i = Some (f i)"
  shows "bitmap_fill_words v k len dst = Some (upd_words f k len dst)"
  using assms
proof (induction v k len dst rule: bitmap_fill_words.induct)
  case (1 v k len dst)
  then show ?case
    by (subst bitmap_fill_words.simps) (auto simp: upd_words_step)
qed

lemma bset_word_update:
  assumes "n div 64 < length addr"
  shows "bset (addr[n div 64 := w]) h = (if h div 64 = n div 64 then bit w (h mod 64) else bset addr h)"
  using assms by (auto simp: bset_def nth_list_update)

lemma div_mod_64_eq: "h div 64 = n div 64 \<Longrightarrow> h mod 64 = n mod 64 \<longleftrightarrow> h = (n :: nat)"
  by (metis div_mult_mod_eq)

lemma bit_BIT_MASK: "bit (BIT_MASK n) i \<longleftrightarrow> i = n mod 64"
  by (auto simp: bit_shl bit_one)

lemma u_set_bit_bset:
  assumes "n div 64 < length addr"
  shows "\<exists>a. u_set_bit n addr = Some a \<and> length a = length addr \<and>
    (\<forall>h. bset a h \<longleftrightarrow> h = n \<or> bset addr h)"
  using assms
  by (auto simp: u_set_bit_def bset_word_update bit_or_iff bit_BIT_MASK div_mod_64_eq)
    (auto simp: bset_def)

lemma u_clear_bit_bset:
  assumes "n div 64 < length addr"
  shows "\<exists>a. u_clear_bit n addr = Some a \<and> length a = length addr \<and>
    (\<forall>h. bset a h \<longleftrightarrow> h \<noteq> n \<and> bset addr h)"
  using assms
  by (auto simp: u_clear_bit_def bset_word_update bit_and_iff bit_not_iff bit_BIT_MASK div_mod_64_eq)
    (auto simp: bset_def dest: bit_less_len)

lemma u_test_bit_bset:
  assumes "n div 64 < length addr"
  shows "u_test_bit n addr = Some (of_bool (bset addr n))"
  using assms
  by (auto simp: u_test_bit_def bset_def bit_shr bit_and_iff bit_one intro!: bit_word_eqI)

section \<open>Hart masks are finite sets\<close>

text \<open>
  The interface of a set of hart ids below \<open>bound\<close>: the operations may fail (an access outside
  the bitmap), \<open>ok\<close> is the shape that excludes it, and \<open>set_of\<close> is the set represented.
\<close>

locale mask_set =
  fixes ok :: "'m \<Rightarrow> bool"
    and set_of :: "'m \<Rightarrow> nat set"
    and bound :: nat
    and zero :: "'m \<Rightarrow> 'm option"
    and ins :: "nat \<Rightarrow> 'm \<Rightarrow> 'm option"
    and del :: "nat \<Rightarrow> 'm \<Rightarrow> 'm option"
    and mem :: "nat \<Rightarrow> 'm \<Rightarrow> ulong option"
    and uni :: "'m \<Rightarrow> 'm \<Rightarrow> 'm \<Rightarrow> 'm option"
    and elems :: "'m \<Rightarrow> nat list option"
  assumes zero_law: "ok m \<Longrightarrow> \<exists>m'. zero m = Some m' \<and> ok m' \<and> set_of m' = {}"
    and ins_law: "ok m \<Longrightarrow> \<exists>m'. ins h m = Some m' \<and> ok m' \<and>
          set_of m' = (if h < bound then insert h (set_of m) else set_of m)"
    and del_law: "ok m \<Longrightarrow> \<exists>m'. del h m = Some m' \<and> ok m' \<and> set_of m' = set_of m - {h}"
    and mem_law: "ok m \<Longrightarrow> mem h m = Some (of_bool (h \<in> set_of m))"
    and uni_law: "ok d \<Longrightarrow> ok m \<Longrightarrow> ok n \<Longrightarrow> \<exists>m'. uni d m n = Some m' \<and> ok m' \<and>
          set_of m' = set_of m \<union> set_of n"
    and elems_law: "ok m \<Longrightarrow> \<exists>xs. elems m = Some xs \<and> set xs = set_of m \<and> sorted xs \<and> distinct xs"
    and bounded: "ok m \<Longrightarrow> set_of m \<subseteq> {..<bound}"
begin

lemma ins_mem:
  assumes "ok m"
  shows "(ins h m \<bind> mem k) = Some (of_bool (k = h \<and> h < bound \<or> k \<in> set_of m))"
proof -
  obtain m' where "ins h m = Some m'" "ok m'"
    "set_of m' = (if h < bound then insert h (set_of m) else set_of m)"
    using ins_law [OF assms] by blast
  then show ?thesis by (auto simp: mem_law)
qed

lemma del_mem:
  assumes "ok m"
  shows "(del h m \<bind> mem k) = Some (of_bool (k \<noteq> h \<and> k \<in> set_of m))"
proof -
  obtain m' where "del h m = Some m'" "ok m'" "set_of m' = set_of m - {h}"
    using del_law [OF assms] by blast
  then show ?thesis by (auto simp: mem_law)
qed

text \<open>A mask built by clearing and inserting is walked in order over exactly what was inserted.\<close>

lemma singleton_elems:
  assumes "ok m" "h < bound"
  shows "(zero m \<bind> ins h \<bind> elems) = Some [h]"
proof -
  obtain z where z: "zero m = Some z" "ok z" "set_of z = {}" using zero_law [OF assms(1)] by blast
  obtain i where i: "ins h z = Some i" "ok i" "set_of i = {h}"
    using ins_law [OF z(2), of h] z(3) assms(2) by auto
  obtain xs where xs: "elems i = Some xs" "set xs = {h}" "distinct xs"
    using elems_law [OF i(2)] i(3) by auto
  have "xs = [h]"
    using xs(2,3) by (cases xs; cases "tl xs") auto
  with z i xs show ?thesis by simp
qed

lemma uni_elems:
  assumes "ok d" "ok m" "ok n"
  obtains xs where "(uni d m n \<bind> elems) = Some xs" "set xs = set_of m \<union> set_of n" "sorted xs" "distinct xs"
proof -
  obtain u where u: "uni d m n = Some u" "ok u" "set_of u = set_of m \<union> set_of n"
    using uni_law [OF assms] by blast
  moreover obtain xs where "elems u = Some xs" "set xs = set_of u" "sorted xs" "distinct xs"
    using elems_law [OF u(2)] by blast
  ultimately show ?thesis by (intro that [of xs]) auto
qed

end

definition hm_ok :: "sbi_hartmask \<Rightarrow> bool" where
  "hm_ok m \<longleftrightarrow> length (bits m) = 2"

definition hm_set :: "sbi_hartmask \<Rightarrow> nat set" where
  "hm_set m = {h. h < SBI_HARTMASK_MAX_BITS \<and> bset (bits m) h}"

lemma hm_words [simp]: "BITS_TO_LONGS SBI_HARTMASK_MAX_BITS = 2"
  by (simp add: BITS_TO_LONGS_def)

lemma hm_not_small [simp]: "\<not> small_const_nbits c SBI_HARTMASK_MAX_BITS"
  by (simp add: small_const_nbits_def)

lemma hm_div: "hm_ok m \<Longrightarrow> h < SBI_HARTMASK_MAX_BITS \<Longrightarrow> h div 64 < length (bits m)"
  by (simp add: hm_ok_def less_mult_imp_div_less)

lemma with_bits_cases:
  "\<exists>b'. b = Some b' \<and> length b' = 2 \<and> P b' \<Longrightarrow> \<exists>m'. with_bits m b = Some m' \<and> hm_ok m' \<and> P (bits m')"
  by (auto simp: with_bits_def hm_ok_def)

lemma hm_zero:
  assumes "hm_ok m"
  shows "\<exists>m'. sbi_hartmask_clear_all m = Some m' \<and> hm_ok m' \<and> hm_set m' = {}"
proof -
  have "bitmap_zero True (bits m) SBI_HARTMASK_MAX_BITS = Some (upd_words (\<lambda>_. 0) 0 2 (bits m))"
    unfolding bitmap_zero_def using assms by (simp add: bitmap_fill_words_correct hm_ok_def)
  then show ?thesis using assms
    by (auto simp: sbi_hartmask_clear_all_def with_bits_def hm_ok_def hm_set_def bset_def
        less_mult_imp_div_less)
qed

lemma hm_ins:
  assumes "hm_ok m"
  shows "\<exists>m'. sbi_hartmask_set_hart h m = Some m' \<and> hm_ok m' \<and>
    hm_set m' = (if h < SBI_HARTMASK_MAX_BITS then insert h (hm_set m) else hm_set m)"
proof (cases "h < SBI_HARTMASK_MAX_BITS")
  case True
  then obtain a where "u_set_bit h (bits m) = Some a" "length a = length (bits m)"
    "\<forall>k. bset a k \<longleftrightarrow> k = h \<or> bset (bits m) k"
    using u_set_bit_bset [OF hm_div [OF assms]] by blast
  with True assms show ?thesis
    by (auto simp: sbi_hartmask_set_hart_def with_bits_def hm_ok_def hm_set_def)
qed (use assms in \<open>simp add: sbi_hartmask_set_hart_def\<close>)

lemma hm_del:
  assumes "hm_ok m"
  shows "\<exists>m'. sbi_hartmask_clear_hart h m = Some m' \<and> hm_ok m' \<and> hm_set m' = hm_set m - {h}"
proof (cases "h < SBI_HARTMASK_MAX_BITS")
  case True
  then obtain a where "u_clear_bit h (bits m) = Some a" "length a = length (bits m)"
    "\<forall>k. bset a k \<longleftrightarrow> k \<noteq> h \<and> bset (bits m) k"
    using u_clear_bit_bset [OF hm_div [OF assms]] by blast
  with True assms show ?thesis
    by (auto simp: sbi_hartmask_clear_hart_def with_bits_def hm_ok_def hm_set_def)
qed (use assms in \<open>auto simp: sbi_hartmask_clear_hart_def hm_set_def\<close>)

lemma hm_mem: "hm_ok m \<Longrightarrow> sbi_hartmask_test_hart h m = Some (of_bool (h \<in> hm_set m))"
  by (simp add: sbi_hartmask_test_hart_def hm_set_def u_test_bit_bset hm_div)

lemma hm_zip:
  assumes "hm_ok d" "hm_ok m" "hm_ok n"
    and "\<And>x y i. bit (f x y :: ulong) i \<longleftrightarrow> i < 64 \<and> g (bit x i) (bit y i)"
  shows "\<exists>m'. with_bits d (bitmap_zip f 0 2 (bits d) (bits m) (bits n)) = Some m' \<and> hm_ok m' \<and>
    hm_set m' = {h. h < SBI_HARTMASK_MAX_BITS \<and> g (h \<in> hm_set m) (h \<in> hm_set n)}"
  using assms
  by (auto simp: bitmap_zip_correct with_bits_def hm_ok_def hm_set_def bset_def
      less_mult_imp_div_less)

lemma hm_uni:
  assumes "hm_ok d" "hm_ok m" "hm_ok n"
  shows "\<exists>m'. sbi_hartmask_or d m n = Some m' \<and> hm_ok m' \<and> hm_set m' = hm_set m \<union> hm_set n"
proof -
  have "bit (x OR y) i \<longleftrightarrow> i < 64 \<and> (bit x i \<or> bit y i)" for x y :: ulong and i
    using bit_less_len [of x i] bit_less_len [of y i] by (auto simp: bit_or_iff)
  from hm_zip [OF assms, of "(OR)" "(\<or>)", OF this] show ?thesis
    by (auto simp: sbi_hartmask_or_def bitmap_or_def u_bitmap_or_def hm_set_def)
qed

lemma hm_inter:
  assumes "hm_ok d" "hm_ok m" "hm_ok n"
  shows "\<exists>m'. sbi_hartmask_and d m n = Some m' \<and> hm_ok m' \<and> hm_set m' = hm_set m \<inter> hm_set n"
proof -
  have "bit (x AND y) i \<longleftrightarrow> i < 64 \<and> (bit x i \<and> bit y i)" for x y :: ulong and i
    using bit_less_len [of x i] by (auto simp: bit_and_iff)
  from hm_zip [OF assms, of "(AND)" "(\<and>)", OF this] show ?thesis
    by (auto simp: sbi_hartmask_and_def bitmap_and_def u_bitmap_and_def hm_set_def)
qed

lemma hm_symdiff:
  assumes "hm_ok d" "hm_ok m" "hm_ok n"
  shows "\<exists>m'. sbi_hartmask_xor d m n = Some m' \<and> hm_ok m' \<and>
    hm_set m' = (hm_set m - hm_set n) \<union> (hm_set n - hm_set m)"
proof -
  have "bit (x XOR y) i \<longleftrightarrow> i < 64 \<and> (bit x i \<noteq> bit y i)" for x y :: ulong and i
    using bit_less_len [of x i] bit_less_len [of y i] by (auto simp: bit_xor_iff)
  from hm_zip [OF assms, of "(XOR)" "(\<noteq>)", OF this] show ?thesis
    by (auto simp: sbi_hartmask_xor_def bitmap_xor_def u_bitmap_xor_def hm_set_def)
qed

lemma hm_all:
  assumes "hm_ok m"
  shows "\<exists>m'. sbi_hartmask_set_all m = Some m' \<and> hm_ok m' \<and> hm_set m' = {..<SBI_HARTMASK_MAX_BITS}"
proof -
  have "bitmap_fill True (bits m) SBI_HARTMASK_MAX_BITS =
      Some ((upd_words (\<lambda>_. - 1) 0 1 (bits m))[1 := - 1])"
    unfolding bitmap_fill_def using assms
    by (simp add: bitmap_fill_words_correct hm_ok_def BITMAP_LAST_WORD_MASK_def Let_def)
  moreover have "h div 64 = 0 \<or> h div 64 = 1" if "h < SBI_HARTMASK_MAX_BITS" for h
    using that by (auto simp: less_mult_imp_div_less)
  ultimately show ?thesis using assms
    by (fastforce simp: sbi_hartmask_set_all_def with_bits_def hm_ok_def hm_set_def bset_def nth_list_update)
qed

lemma hm_init_except:
  assumes "hm_ok m"
  shows "\<exists>m'. SBI_HARTMASK_INIT_EXCEPT m h = Some m' \<and> hm_ok m' \<and>
    hm_set m' = {h} \<inter> {..<SBI_HARTMASK_MAX_BITS}"
proof -
  obtain z where z: "sbi_hartmask_clear_all m = Some z" "hm_ok z" "hm_set z = {}"
    using hm_zero [OF assms] by blast
  have "SBI_HARTMASK_INIT_EXCEPT m h = (sbi_hartmask_clear_all m \<bind> sbi_hartmask_set_hart h)"
    by (cases "bitmap_fill_words (\<lambda>_. Some 0) 0 2 (bits m)")
      (auto simp: SBI_HARTMASK_INIT_EXCEPT_def sbi_hartmask_clear_all_def sbi_hartmask_set_hart_def
        bitmap_zero_def bitmap_zero_except_def with_bits_def option.map_comp o_def)
  with z hm_ins [OF z(2), of h] show ?thesis by auto
qed

lemma hm_elems:
  assumes "hm_ok m"
  shows "\<exists>xs. sbi_hartmask_for_each_hart m = Some xs \<and> set xs = hm_set m \<and> sorted xs \<and> distinct xs"
  using assms by (auto simp: sbi_hartmask_for_each_hart_def for_each_set_bit_correct hm_ok_def hm_set_def
      intro: sorted_wrt_filter)

interpretation hm: mask_set hm_ok hm_set SBI_HARTMASK_MAX_BITS sbi_hartmask_clear_all
  sbi_hartmask_set_hart sbi_hartmask_clear_hart sbi_hartmask_test_hart sbi_hartmask_or
  sbi_hartmask_for_each_hart
proof
  show "hm_set m \<subseteq> {..<SBI_HARTMASK_MAX_BITS}" for m by (auto simp: hm_set_def)
qed (fact hm_zero hm_ins hm_del hm_mem hm_uni hm_elems)+

section \<open>Properties\<close>

text \<open>
  C29: a hart mask behaves as a set of hart ids below 128. Testing a hart after setting or
  clearing one gives membership in the updated set, and a hart id of 128 or more is ignored
  rather than written outside the two words; the three binary operations, used with the
  destination equal to the first operand as the TLB code does, are union, intersection and
  symmetric difference; and the iteration visits each member once in increasing order.
\<close>

theorem hartmask_is_a_set:
  assumes "hm_ok m" "hm_ok n"
  shows "(sbi_hartmask_set_hart h m \<bind> sbi_hartmask_test_hart k) =
      Some (of_bool (k = h \<and> h < SBI_HARTMASK_MAX_BITS \<or> k \<in> hm_set m)) \<and>
    (sbi_hartmask_clear_hart h m \<bind> sbi_hartmask_test_hart k) =
      Some (of_bool (k \<noteq> h \<and> k \<in> hm_set m)) \<and>
    map_option hm_set (sbi_hartmask_or m m n) = Some (hm_set m \<union> hm_set n) \<and>
    map_option hm_set (sbi_hartmask_and m m n) = Some (hm_set m \<inter> hm_set n) \<and>
    map_option hm_set (sbi_hartmask_xor m m n) = Some ((hm_set m - hm_set n) \<union> (hm_set n - hm_set m)) \<and>
    (\<exists>xs. (sbi_hartmask_or m m n \<bind> sbi_hartmask_for_each_hart) = Some xs \<and>
      set xs = hm_set m \<union> hm_set n \<and> sorted xs \<and> distinct xs)"
  using hm.ins_mem [OF assms(1)] hm.del_mem [OF assms(1)] hm_uni [OF assms(1) assms]
    hm_inter [OF assms(1) assms] hm_symdiff [OF assms(1) assms] hm.uni_elems [OF assms(1) assms]
  by (metis option.simps(9))

theorem hartmask_is_a_set_witness:
  "(sbi_hartmask_set_hart 70 \<lparr>bits = [5, 0]\<rparr> \<bind> sbi_hartmask_test_hart 70) = Some 1"
  using hartmask_is_a_set [of "\<lparr>bits = [5, 0]\<rparr>" "\<lparr>bits = [6, 1]\<rparr>" 70 70] by (simp add: hm_ok_def)

end
