(* ===== verification/Sbi_Strings.thy ===== *)
theory Sbi_Strings
  imports Sbi_Prelude
begin

text \<open>
  The string and memory routines of \<^verbatim>\<open>lib/sbi/sbi_string.c\<close> over byte buffers.

  A pointer is a buffer and an index into it; a pointer result is the index (\<open>None\<close> inside the
  outer \<open>Some\<close> is the null pointer). Every load and store is checked, so the outer \<open>None\<close> means
  that the C code would leave the buffer. \<^verbatim>\<open>char\<close> is unsigned on RISC-V. Routines with two
  buffers take them as distinct objects; \<open>sbi_memmove\<close> works inside one buffer.
\<close>

section \<open>The routines\<close>

function strcmp_from :: "u8 list \<Rightarrow> nat \<Rightarrow> u8 list \<Rightarrow> nat \<Rightarrow> int option" where
  "strcmp_from a i b j = do {
     x \<leftarrow> rd a i;
     y \<leftarrow> rd b j;
     if x = y \<and> x \<noteq> 0 then strcmp_from a (i + 1) b (j + 1) else Some (uint x - uint y) }"
  by pat_completeness auto
termination
  by (relation "measure (\<lambda>(a, i, b, j). length a - i)") (auto simp: rd_eq_Some)

definition sbi_strcmp :: "u8 list \<Rightarrow> u8 list \<Rightarrow> int option" where
  "sbi_strcmp a b = strcmp_from a 0 b 0"

function strlen_from :: "u8 list \<Rightarrow> nat \<Rightarrow> nat \<Rightarrow> nat option" where
  "strlen_from str i ret = do {
     c \<leftarrow> rd str i;
     if c \<noteq> 0 then strlen_from str (i + 1) (ret + 1) else Some ret }"
  by pat_completeness auto
termination
  by (relation "measure (\<lambda>(str, i, ret). length str - i)") (auto simp: rd_eq_Some)

definition sbi_strlen :: "u8 list \<Rightarrow> nat option" where
  "sbi_strlen str = strlen_from str 0 0"

function strnlen_from :: "u8 list \<Rightarrow> nat \<Rightarrow> nat \<Rightarrow> nat \<Rightarrow> nat option" where
  "strnlen_from str i ret count = do {
     c \<leftarrow> rd str i;
     if c \<noteq> 0 \<and> ret < count then strnlen_from str (i + 1) (ret + 1) (count - 1) else Some ret }"
  by pat_completeness auto
termination
  by (relation "measure (\<lambda>(str, i, ret, count). length str - i)") (auto simp: rd_eq_Some)

definition sbi_strnlen :: "u8 list \<Rightarrow> nat \<Rightarrow> nat option" where
  "sbi_strnlen str count = strnlen_from str 0 0 count"

function strcpy_from :: "u8 list \<Rightarrow> nat \<Rightarrow> u8 list \<Rightarrow> nat \<Rightarrow> u8 list option" where
  "strcpy_from dest d src s = do {
     c \<leftarrow> rd src s;
     if c \<noteq> 0 then do {
       dest' \<leftarrow> wr dest d c;
       strcpy_from dest' (d + 1) src (s + 1) }
     else Some dest }"
  by pat_completeness auto
termination
  by (relation "measure (\<lambda>(dest, d, src, s). length src - s)") (auto simp: rd_eq_Some)

definition sbi_strcpy :: "u8 list \<Rightarrow> u8 list \<Rightarrow> u8 list option" where
  "sbi_strcpy dest src = strcpy_from dest 0 src 0"

fun strncpy_from :: "u8 list \<Rightarrow> nat \<Rightarrow> u8 list \<Rightarrow> nat \<Rightarrow> nat \<Rightarrow> u8 list option" where
  "strncpy_from dest d src s 0 = Some dest"
| "strncpy_from dest d src s (Suc count) = do {
     c \<leftarrow> rd src s;
     if c \<noteq> 0 then do {
       dest' \<leftarrow> wr dest d c;
       strncpy_from dest' (d + 1) src (s + 1) count }
     else Some dest }"

definition sbi_strncpy :: "u8 list \<Rightarrow> u8 list \<Rightarrow> nat \<Rightarrow> u8 list option" where
  "sbi_strncpy dest src count = strncpy_from dest 0 src 0 count"

function strchr_from :: "u8 list \<Rightarrow> nat \<Rightarrow> u8 \<Rightarrow> nat option option" where
  "strchr_from s i c = do {
     x \<leftarrow> rd s i;
     if x \<noteq> 0 \<and> x \<noteq> c then strchr_from s (i + 1) c
     else if x = 0 then Some None else Some (Some i) }"
  by pat_completeness auto
termination
  by (relation "measure (\<lambda>(s, i, c). length s - i)") (auto simp: rd_eq_Some)

definition sbi_strchr :: "u8 list \<Rightarrow> u32 \<Rightarrow> nat option option" where
  "sbi_strchr s c = strchr_from s 0 (ucast c)"

fun strrchr_from :: "u8 list \<Rightarrow> nat \<Rightarrow> u8 \<Rightarrow> nat option option" where
  "strrchr_from s 0 c = do {
     x \<leftarrow> rd s 0;
     if x \<noteq> c then Some None else Some (Some 0) }"
| "strrchr_from s (Suc n) c = do {
     x \<leftarrow> rd s (Suc n);
     if x \<noteq> c then strrchr_from s n c else Some (Some (Suc n)) }"

definition sbi_strrchr :: "u8 list \<Rightarrow> u32 \<Rightarrow> nat option option" where
  "sbi_strrchr s c = do {
     n \<leftarrow> sbi_strlen s;
     strrchr_from s n (ucast c) }"

fun sbi_memset :: "u8 list \<Rightarrow> nat \<Rightarrow> u32 \<Rightarrow> nat \<Rightarrow> u8 list option" where
  "sbi_memset s i c 0 = Some s"
| "sbi_memset s i c (Suc count) = do {
     s' \<leftarrow> wr s i (ucast c);
     sbi_memset s' (i + 1) c count }"

fun sbi_memcpy :: "u8 list \<Rightarrow> nat \<Rightarrow> u8 list \<Rightarrow> nat \<Rightarrow> nat \<Rightarrow> u8 list option" where
  "sbi_memcpy dest d src s 0 = Some dest"
| "sbi_memcpy dest d src s (Suc count) = do {
     x \<leftarrow> rd src s;
     dest' \<leftarrow> wr dest d x;
     sbi_memcpy dest' (d + 1) src (s + 1) count }"

text \<open>The two loops of \<open>sbi_memmove\<close>: upwards, and downwards from the last byte.\<close>

fun memmove_up :: "u8 list \<Rightarrow> nat \<Rightarrow> nat \<Rightarrow> nat \<Rightarrow> u8 list option" where
  "memmove_up m d s 0 = Some m"
| "memmove_up m d s (Suc count) = do {
     x \<leftarrow> rd m s;
     m' \<leftarrow> wr m d x;
     memmove_up m' (d + 1) (s + 1) count }"

fun memmove_down :: "u8 list \<Rightarrow> nat \<Rightarrow> nat \<Rightarrow> nat \<Rightarrow> u8 list option" where
  "memmove_down m d s 0 = Some m"
| "memmove_down m d s (Suc count) = do {
     x \<leftarrow> rd m (s + count);
     m' \<leftarrow> wr m (d + count) x;
     memmove_down m' d s count }"

definition sbi_memmove :: "u8 list \<Rightarrow> nat \<Rightarrow> nat \<Rightarrow> nat \<Rightarrow> u8 list option" where
  "sbi_memmove m dest src count =
     (if src = dest then Some m
      else if dest < src then memmove_up m dest src count
      else memmove_down m dest src count)"

fun sbi_memcmp :: "u8 list \<Rightarrow> nat \<Rightarrow> u8 list \<Rightarrow> nat \<Rightarrow> nat \<Rightarrow> int option" where
  "sbi_memcmp s1 i s2 j 0 = Some 0"
| "sbi_memcmp s1 i s2 j (Suc count) = do {
     x \<leftarrow> rd s1 i;
     y \<leftarrow> rd s2 j;
     if x = y then sbi_memcmp s1 (i + 1) s2 (j + 1) count else Some (uint x - uint y) }"

fun memchr_from :: "u8 list \<Rightarrow> nat \<Rightarrow> u8 \<Rightarrow> nat \<Rightarrow> nat option option" where
  "memchr_from s i c 0 = Some None"
| "memchr_from s i c (Suc count) = do {
     x \<leftarrow> rd s i;
     if c = x then Some (Some i) else memchr_from s (i + 1) c count }"

definition sbi_memchr :: "u8 list \<Rightarrow> u32 \<Rightarrow> nat \<Rightarrow> nat option option" where
  "sbi_memchr s c count = memchr_from s 0 (ucast c) count"

declare strcmp_from.simps [simp del] strlen_from.simps [simp del] strnlen_from.simps [simp del]
  strcpy_from.simps [simp del] strchr_from.simps [simp del]

section \<open>C strings\<close>

text \<open>The string at index \<open>i\<close> of a buffer, and that its terminator is inside the buffer.\<close>

definition cstr :: "u8 list \<Rightarrow> nat \<Rightarrow> u8 list" where
  "cstr m i = takeWhile (\<lambda>c. c \<noteq> 0) (drop i m)"

definition terminated :: "u8 list \<Rightarrow> nat \<Rightarrow> bool" where
  "terminated m i \<longleftrightarrow> 0 \<in> set (drop i m)"

lemma terminated_less: "terminated m i \<Longrightarrow> i < length m"
  by (rule ccontr) (simp add: terminated_def)

lemma drop_Cons: "i < length m \<Longrightarrow> drop i m = m ! i # drop (Suc i) m"
  by (rule Cons_nth_drop_Suc [symmetric])

lemma terminated_step: "terminated m i \<Longrightarrow> m ! i \<noteq> 0 \<Longrightarrow> terminated m (Suc i)"
  using terminated_less [of m i] by (simp add: terminated_def drop_Cons)

lemma cstr_simps:
  "i < length m \<Longrightarrow> m ! i = 0 \<Longrightarrow> cstr m i = []"
  "i < length m \<Longrightarrow> m ! i \<noteq> 0 \<Longrightarrow> cstr m i = m ! i # cstr m (Suc i)"
  by (simp_all add: cstr_def drop_Cons)

text \<open>Induction along a terminated string.\<close>

lemma cstr_induct [consumes 1, case_names end_of_string step]:
  assumes "terminated m i"
    and "\<And>i. i < length m \<Longrightarrow> m ! i = 0 \<Longrightarrow> P i"
    and "\<And>i. i < length m \<Longrightarrow> m ! i \<noteq> 0 \<Longrightarrow> terminated m (Suc i) \<Longrightarrow> P (Suc i) \<Longrightarrow> P i"
  shows "P i"
  using assms(1)
proof (induction "length m - i" arbitrary: i rule: less_induct)
  case less
  have "i < length m" using less.prems by (rule terminated_less)
  then show ?case
    using assms(2) [of i] assms(3) [of i] terminated_step [OF less.prems] less.hyps [of "Suc i"]
    by (cases "m ! i = 0") auto
qed

lemma strlen_from_correct: "terminated m i \<Longrightarrow> strlen_from m i n = Some (n + length (cstr m i))"
proof (induction arbitrary: n rule: cstr_induct)
  case (end_of_string i)
  then show ?case by (simp add: strlen_from.simps [of m i] cstr_simps)
next
  case (step i)
  then show ?case by (simp add: strlen_from.simps [of m i] cstr_simps)
qed

lemma strcmp_from_correct:
  assumes "terminated a i" "terminated b j"
  shows "\<exists>r. strcmp_from a i b j = Some r \<and> (r = 0 \<longleftrightarrow> cstr a i = cstr b j) \<and>
    (r < 0 \<longleftrightarrow> (cstr a i, cstr b j) \<in> lexord {(x, y). x < y})"
  using assms
proof (induction arbitrary: j rule: cstr_induct)
  case (end_of_string i)
  then have j: "j < length b" by (simp add: terminated_less)
  then show ?case using end_of_string
    by (cases "b ! j = 0") (auto simp: strcmp_from.simps [of a i] cstr_simps word_less_def
        order.strict_iff_order uint_0_iff)
next
  case (step i)
  then have j: "j < length b" by (simp add: terminated_less)
  show ?case
  proof (cases "a ! i = b ! j")
    case True
    then have "terminated b (Suc j)" using step.prems step.hyps by (simp add: terminated_step)
    from step.IH [OF this] obtain r where "strcmp_from a (Suc i) b (Suc j) = Some r"
      "r = 0 \<longleftrightarrow> cstr a (Suc i) = cstr b (Suc j)"
      "r < 0 \<longleftrightarrow> (cstr a (Suc i), cstr b (Suc j)) \<in> lexord {(x, y). x < y}" by blast
    with True j step.hyps show ?thesis by (simp add: strcmp_from.simps [of a i] cstr_simps)
  next
    case False
    then show ?thesis using j step.hyps
      by (cases "b ! j = 0")
        (auto simp: strcmp_from.simps [of a i] cstr_simps word_less_def word_uint_eq_iff)
  qed
qed

section \<open>Blocks of bytes\<close>

text \<open>The block of \<open>n\<close> bytes at \<open>i\<close>, and a buffer with the block \<open>xs\<close> written at \<open>d\<close>.\<close>

definition blk :: "'a list \<Rightarrow> nat \<Rightarrow> nat \<Rightarrow> 'a list" where
  "blk m i n = take n (drop i m)"

definition blit :: "'a list \<Rightarrow> nat \<Rightarrow> 'a list \<Rightarrow> 'a list" where
  "blit m d xs = take d m @ xs @ drop (d + length xs) m"

lemma length_blk [simp]: "i + n \<le> length m \<Longrightarrow> length (blk m i n) = n"
  by (simp add: blk_def)

lemma nth_blk [simp]: "i + n \<le> length m \<Longrightarrow> k < n \<Longrightarrow> blk m i n ! k = m ! (i + k)"
  by (simp add: blk_def)

lemma length_blit [simp]: "d + length xs \<le> length m \<Longrightarrow> length (blit m d xs) = length m"
  by (simp add: blit_def)

lemma nth_blit:
  assumes "d + length xs \<le> length m" "k < length m"
  shows "blit m d xs ! k = (if d \<le> k \<and> k < d + length xs then xs ! (k - d) else m ! k)"
  using assms by (auto simp: blit_def nth_append min_def)

lemma blit_Nil [simp]: "d \<le> length m \<Longrightarrow> blit m d [] = m"
  by (simp add: blit_def)

lemma blit_Cons: "d + length (x # xs) \<le> length m \<Longrightarrow> blit (m[d := x]) (Suc d) xs = blit m d (x # xs)"
  by (rule nth_equalityI) (auto simp: nth_blit nth_list_update nth_Cons')

lemma blk_Suc: "i + Suc n \<le> length m \<Longrightarrow> blk m i (Suc n) = m ! i # blk m (Suc i) n"
  by (rule nth_equalityI) (auto simp: nth_Cons')

lemma blk_blit_same: "d + length xs \<le> length m \<Longrightarrow> n = length xs \<Longrightarrow> blk (blit m d xs) d n = xs"
  by (rule nth_equalityI) (auto simp: nth_blit)

lemma blk_blit_other:
  assumes "d + length xs \<le> length m" "i + n \<le> length m" "i + n \<le> d \<or> d + length xs \<le> i"
  shows "blk (blit m d xs) i n = blk m i n"
  using assms by (intro nth_equalityI) (auto simp: nth_blit)

lemma blk_update_other: "k < i \<or> i + n \<le> k \<Longrightarrow> blk (m[k := x]) i n = blk m i n"
  by (auto simp: blk_def drop_update_swap take_update_swap list_update_beyond)

lemma memset_correct:
  "i + count \<le> length s \<Longrightarrow> sbi_memset s i c count = Some (blit s i (replicate count (ucast c)))"
  by (induction count arbitrary: s i) (auto simp: blit_Cons)

lemma memcpy_correct:
  "d + count \<le> length dest \<Longrightarrow> s + count \<le> length src \<Longrightarrow>
   sbi_memcpy dest d src s count = Some (blit dest d (blk src s count))"
  by (induction count arbitrary: dest d s) (auto simp: blit_Cons blk_Suc blk_def [of _ _ 0])

lemma memmove_up_correct:
  assumes "d < s" "s + count \<le> length m"
  shows "memmove_up m d s count = Some (blit m d (blk m s count))"
  using assms
proof (induction count arbitrary: m d s)
  case 0
  then show ?case by (simp add: blk_def)
next
  case (Suc count)
  then show ?case by (simp add: blk_update_other blk_Suc blit_Cons)
qed

lemma blk_snoc: "i + Suc n \<le> length m \<Longrightarrow> blk m i (Suc n) = blk m i n @ [m ! (i + n)]"
  by (rule nth_equalityI) (auto simp: nth_append less_Suc_eq)

lemma blit_snoc:
  "d + Suc (length xs) \<le> length m \<Longrightarrow> blit (m[d + length xs := x]) d xs = blit m d (xs @ [x])"
  by (rule nth_equalityI) (auto simp: nth_blit nth_list_update nth_append)

lemma memmove_down_correct:
  assumes "s < d" "d + count \<le> length m"
  shows "memmove_down m d s count = Some (blit m d (blk m s count))"
  using assms
proof (induction count arbitrary: m)
  case 0
  then show ?case by (simp add: blk_def)
next
  case (Suc count)
  then have "blit (m[d + count := m ! (s + count)]) d (blk m s count) = blit m d (blk m s (Suc count))"
    using blit_snoc [of d "blk m s count" m "m ! (s + count)"] by (simp add: blk_snoc)
  then show ?case using Suc by (simp add: blk_update_other)
qed

lemma memmove_correct:
  assumes "src + count \<le> length m" "dest + count \<le> length m"
  shows "sbi_memmove m dest src count = Some (blit m dest (blk m src count))"
proof -
  have "blit m dest (blk m dest count) = m"
    using assms(2) by (intro nth_equalityI) (auto simp: nth_blit)
  then show ?thesis
    using assms memmove_up_correct memmove_down_correct unfolding sbi_memmove_def
    by (cases dest src rule: linorder_cases) auto
qed

lemma memcmp_correct:
  "i + n \<le> length a \<Longrightarrow> j + n \<le> length b \<Longrightarrow>
   \<exists>r. sbi_memcmp a i b j n = Some r \<and> (r = 0 \<longleftrightarrow> blk a i n = blk b j n)"
proof (induction n arbitrary: i j)
  case 0
  then show ?case by (simp add: blk_def)
next
  case (Suc n)
  from Suc.IH [of "Suc i" "Suc j"] Suc.prems show ?case
    by (auto simp: blk_Suc word_uint_eq_iff)
qed

text \<open>Where the copying routines differ from the C library: neither writes a terminator.\<close>

lemma strcpy_from_correct:
  assumes "terminated src s" "d + length (cstr src s) \<le> length dest"
  shows "strcpy_from dest d src s = Some (blit dest d (cstr src s))"
  using assms
proof (induction arbitrary: dest d rule: cstr_induct)
  case (end_of_string i)
  then show ?case by (simp add: strcpy_from.simps [of dest d] cstr_simps)
next
  case (step i)
  then show ?case by (simp add: strcpy_from.simps [of dest d] cstr_simps blit_Cons)
qed

lemma strncpy_from_correct:
  assumes "terminated src s" "d + min count (length (cstr src s)) \<le> length dest"
  shows "strncpy_from dest d src s count = Some (blit dest d (take count (cstr src s)))"
  using assms
proof (induction arbitrary: dest d count rule: cstr_induct)
  case (end_of_string i)
  then show ?case by (cases count) (simp_all add: cstr_simps)
next
  case (step i)
  then show ?case by (cases count) (simp_all add: cstr_simps blit_Cons)
qed

text \<open>The bound of \<open>sbi_strnlen\<close> shrinks while the count grows, so the loop stops half way.\<close>

lemma strnlen_from_correct:
  assumes "terminated m i"
  shows "strnlen_from m i ret count = Some (ret + min (length (cstr m i)) ((count - ret + 1) div 2))"
  using assms
proof (induction arbitrary: ret count rule: cstr_induct)
  case (end_of_string i)
  then show ?case by (simp add: strnlen_from.simps [of m i] cstr_simps)
next
  case (step i)
  have "Suc (count - ret) div 2 = Suc (Suc (count - Suc (Suc ret)) div 2)" if "ret < count"
    using that by presburger
  with step show ?case by (simp add: strnlen_from.simps [of m i] cstr_simps)
qed

section \<open>Properties\<close>

text \<open>
  C40: the memory routines stay inside their buffers and do what their C library namesakes
  promise: \<open>sbi_memset\<close> (with the low byte of its argument) and \<open>sbi_memcpy\<close> write exactly the addressed block, \<open>sbi_memmove\<close>
  copies the original contents of the source block even when the two blocks overlap in either
  direction, and \<open>sbi_memcmp\<close> is 0 exactly on equal blocks.
\<close>

theorem memory_routines_correct:
  assumes "i + n \<le> length m" "j + n \<le> length m" "k + n \<le> length b"
  shows "sbi_memset m i c n = Some (blit m i (replicate n (ucast c))) \<and>
    sbi_memcpy m i b k n = Some (blit m i (blk b k n)) \<and>
    sbi_memmove m i j n = Some (blit m i (blk m j n)) \<and>
    (\<exists>r. sbi_memcmp m i b k n = Some r \<and> (r = 0 \<longleftrightarrow> blk m i n = blk b k n))"
  using assms memcmp_correct [of i n m k b]
  by (simp add: memset_correct memcpy_correct memmove_correct)

theorem memory_routines_correct_witness:
  "sbi_memmove [1, 2, 3, 4, 5] 1 0 3 = Some [1, 1, 2, 3, 5]"
  using memory_routines_correct [of 1 3 "[1, 2, 3, 4, 5]" 0 0 "[9, 9, 9]" 7]
  by (simp add: blit_def blk_def eval_nat_numeral)

text \<open>
  On strings whose terminator lies inside their buffer, \<open>sbi_strlen\<close> is the length and
  \<open>sbi_strcmp\<close> is zero exactly on equal strings and negative exactly when the first precedes
  the second lexicographically; both stop before leaving the buffers.
\<close>

lemma string_routines_correct:
  assumes "terminated a 0" "terminated b 0"
  shows "sbi_strlen a = Some (length (cstr a 0)) \<and>
    (\<exists>r. sbi_strcmp a b = Some r \<and> (r = 0 \<longleftrightarrow> cstr a 0 = cstr b 0) \<and>
      (r < 0 \<longleftrightarrow> (cstr a 0, cstr b 0) \<in> lexord {(x, y). x < y}))"
  using assms strlen_from_correct [OF assms(1), of 0] strcmp_from_correct [OF assms]
  by (simp add: sbi_strlen_def sbi_strcmp_def)

text \<open>
  What the bounded routines really do. \<open>sbi_strnlen\<close> both counts up and lowers its bound,
  so it returns at most half of \<open>count\<close> (rounded up) instead of at most \<open>count\<close>; \<open>sbi_strcpy\<close>
  and \<open>sbi_strncpy\<close> copy the characters and leave every byte after them as it was, so the
  result is not terminated unless the destination happened to hold a zero there.
\<close>

lemma bounded_string_routines_behaviour:
  assumes "terminated src 0" "length (cstr src 0) \<le> length dest"
  shows "sbi_strnlen src count = Some (min (length (cstr src 0)) ((count + 1) div 2)) \<and>
    sbi_strcpy dest src = Some (cstr src 0 @ drop (length (cstr src 0)) dest) \<and>
    sbi_strncpy dest src count =
      Some (take count (cstr src 0) @ drop (min count (length (cstr src 0))) dest)"
  using assms strnlen_from_correct [OF assms(1)] strcpy_from_correct [OF assms(1), of 0 dest]
    strncpy_from_correct [OF assms(1), of 0 count dest]
  by (simp add: sbi_strnlen_def sbi_strcpy_def sbi_strncpy_def blit_def min.commute)

end
