(* ===== verification/Sbi_Fifo.thy ===== *)
theory Sbi_Fifo
  imports Sbi_Strings
begin

text \<open>
  The ring buffer of \<^verbatim>\<open>lib/sbi/sbi_fifo.c\<close>, at the level of its bytes: a queue memory of
  \<open>num_entries * entry_size\<close> bytes, a tail index and a fill count, all at their C widths.

  A pointer argument is an option (\<open>None\<close> is the null pointer). Every operation takes
  \<open>qlock\<close> before its first access and releases it after its last, so each is one atomic step;
  the lock word itself is not part of the record.

  The locale \<open>bounded_queue\<close> is the contract the TLB code relies on (a queue of bounded
  capacity with first-in first-out order and an in-place update), and \<open>rb\<close> interprets it on
  the byte-level operations.
\<close>

section \<open>The operations\<close>

record sbi_fifo =
  queue :: "u8 list"
  entry_size :: u16
  num_entries :: u16
  avail :: u16
  tail :: u16

datatype sbi_fifo_inplace_update_types = SBI_FIFO_SKIP | SBI_FIFO_UPDATED | SBI_FIFO_UNCHANGED

definition sbi_fifo_init :: "sbi_fifo \<Rightarrow> u8 list \<Rightarrow> u16 \<Rightarrow> u16 \<Rightarrow> sbi_fifo option" where
  "sbi_fifo_init fifo queue_mem entries esize = do {
     q \<leftarrow> sbi_memset queue_mem 0 0 (unat entries * unat esize);
     Some (fifo\<lparr>queue := q, num_entries := entries, entry_size := esize, avail := 0, tail := 0\<rparr>) }"

definition u_sbi_fifo_is_full :: "sbi_fifo \<Rightarrow> bool" where
  "u_sbi_fifo_is_full fifo \<longleftrightarrow> avail fifo = num_entries fifo"

definition sbi_fifo_avail :: "sbi_fifo option \<Rightarrow> u16" where
  "sbi_fifo_avail fifo = (case fifo of None \<Rightarrow> 0 | Some f \<Rightarrow> avail f)"

definition sbi_fifo_is_full :: "sbi_fifo \<Rightarrow> bool" where
  "sbi_fifo_is_full fifo = u_sbi_fifo_is_full fifo"

definition u_sbi_fifo_enqueue :: "sbi_fifo \<Rightarrow> u8 list \<Rightarrow> sbi_fifo option" where
  "u_sbi_fifo_enqueue fifo data =
     (let head = (ucast (tail fifo) + ucast (avail fifo) :: u32);
          head = (if ucast (num_entries fifo) \<le> head then head - ucast (num_entries fifo) else head)
      in do {
        q \<leftarrow> sbi_memcpy (queue fifo) (unat (head * ucast (entry_size fifo))) data 0
              (unat (entry_size fifo));
        Some (fifo\<lparr>queue := q, avail := avail fifo + 1\<rparr>) })"

definition u_sbi_fifo_is_empty :: "sbi_fifo \<Rightarrow> bool" where
  "u_sbi_fifo_is_empty fifo \<longleftrightarrow> avail fifo = 0"

definition sbi_fifo_is_empty :: "sbi_fifo \<Rightarrow> bool" where
  "sbi_fifo_is_empty fifo = u_sbi_fifo_is_empty fifo"

definition u_sbi_fifo_reset :: "sbi_fifo \<Rightarrow> sbi_fifo option" where
  "u_sbi_fifo_reset fifo = do {
     q \<leftarrow> sbi_memset (queue fifo) 0 0 (unat (num_entries fifo) * unat (entry_size fifo));
     Some (fifo\<lparr>avail := 0, tail := 0, queue := q\<rparr>) }"

definition sbi_fifo_reset :: "sbi_fifo option \<Rightarrow> (bool \<times> sbi_fifo option) option" where
  "sbi_fifo_reset fifo =
     (case fifo of
        None \<Rightarrow> Some (False, None)
      | Some f \<Rightarrow> do { f' \<leftarrow> u_sbi_fifo_reset f; Some (True, Some f') })"

text \<open>
  The loop of \<open>sbi_fifo_inplace_update\<close>, with \<open>n\<close> iterations left. The callback works on
  the bytes of the entry through the pointer it is given; it returns its verdict and the bytes
  as it leaves them.
\<close>

fun inplace_update_loop :: "('i \<Rightarrow> u8 list \<Rightarrow> (sbi_fifo_inplace_update_types \<times> u8 list) option) \<Rightarrow>
    'i \<Rightarrow> nat \<Rightarrow> nat \<Rightarrow> sbi_fifo_inplace_update_types \<Rightarrow> sbi_fifo \<Rightarrow>
    (sbi_fifo_inplace_update_types \<times> sbi_fifo) option" where
  "inplace_update_loop fptr inp i 0 ret fifo = Some (ret, fifo)"
| "inplace_update_loop fptr inp i (Suc n) ret fifo =
     (let index = unat (tail fifo) + i;
          index = (if unat (num_entries fifo) \<le> index then index - unat (num_entries fifo) else index);
          es = unat (entry_size fifo); off = index * es
      in if length (queue fifo) < off + es then None
         else do {
           (ret', entry) \<leftarrow> fptr inp (blk (queue fifo) off es);
           q \<leftarrow> sbi_memcpy (queue fifo) off entry 0 es;
           if ret' = SBI_FIFO_SKIP \<or> ret' = SBI_FIFO_UPDATED
           then Some (ret', fifo\<lparr>queue := q\<rparr>)
           else inplace_update_loop fptr inp (i + 1) n ret' (fifo\<lparr>queue := q\<rparr>) })"

definition sbi_fifo_inplace_update ::
  "('i \<Rightarrow> u8 list \<Rightarrow> (sbi_fifo_inplace_update_types \<times> u8 list) option) \<Rightarrow> 'i option \<Rightarrow>
   sbi_fifo option \<Rightarrow> (sbi_fifo_inplace_update_types \<times> sbi_fifo option) option" where
  "sbi_fifo_inplace_update fptr inp fifo =
     (case (fifo, inp) of
        (Some f, Some x) \<Rightarrow>
          if u_sbi_fifo_is_empty f then Some (SBI_FIFO_UNCHANGED, Some f)
          else map_option (\<lambda>(r, f). (r, Some f))
                 (inplace_update_loop fptr x 0 (unat (avail f)) SBI_FIFO_UNCHANGED f)
      | _ \<Rightarrow> Some (SBI_FIFO_UNCHANGED, fifo))"

definition sbi_fifo_enqueue :: "u8 list option \<Rightarrow> sbi_fifo option \<Rightarrow> (int \<times> sbi_fifo option) option" where
  "sbi_fifo_enqueue data fifo =
     (case (fifo, data) of
        (Some f, Some d) \<Rightarrow>
          if u_sbi_fifo_is_full f then Some (SBI_ENOSPC, fifo)
          else do { f' \<leftarrow> u_sbi_fifo_enqueue f d; Some (0, Some f') }
      | _ \<Rightarrow> Some (SBI_EINVAL, fifo))"

definition sbi_fifo_dequeue :: "u8 list option \<Rightarrow> sbi_fifo option \<Rightarrow>
    (int \<times> sbi_fifo option \<times> u8 list option) option" where
  "sbi_fifo_dequeue data fifo =
     (case (fifo, data) of
        (Some f, Some d) \<Rightarrow>
          if u_sbi_fifo_is_empty f then Some (SBI_ENOENT, fifo, data)
          else do {
            d' \<leftarrow> sbi_memcpy d 0 (queue f) (unat (ucast (tail f) * ucast (entry_size f) :: u32))
                   (unat (entry_size f));
            let t = tail f + 1;
            Some (0, Some (f\<lparr>avail := avail f - 1, tail := (if num_entries f \<le> t then 0 else t)\<rparr>),
                  Some d') }
      | _ \<Rightarrow> Some (SBI_EINVAL, fifo, data))"

section \<open>The bounded queue contract\<close>

locale bounded_queue =
  fixes inv :: "'q \<Rightarrow> bool"
    and items :: "'q \<Rightarrow> 'e list"
    and cap :: "'q \<Rightarrow> nat"
    and fits :: "'q \<Rightarrow> 'e \<Rightarrow> bool"
    and enq :: "'e option \<Rightarrow> 'q \<Rightarrow> (int \<times> 'q) option"
    and deq :: "'e option \<Rightarrow> 'q \<Rightarrow> (int \<times> 'q \<times> 'e option) option"
  assumes enq_room: "inv q \<Longrightarrow> fits q x \<Longrightarrow> length (items q) < cap q \<Longrightarrow>
      \<exists>q'. enq (Some x) q = Some (0, q') \<and> inv q' \<and> items q' = items q @ [x] \<and> cap q' = cap q \<and>
           fits q' = fits q"
    and enq_full: "inv q \<Longrightarrow> length (items q) = cap q \<Longrightarrow> enq (Some x) q = Some (SBI_ENOSPC, q)"
    and deq_item: "inv q \<Longrightarrow> fits q b \<Longrightarrow> items q = x # xs \<Longrightarrow>
      \<exists>q'. deq (Some b) q = Some (0, q', Some x) \<and> inv q' \<and> items q' = xs \<and> cap q' = cap q \<and>
           fits q' = fits q"
    and deq_none: "inv q \<Longrightarrow> items q = [] \<Longrightarrow> deq (Some b) q = Some (SBI_ENOENT, q, Some b)"
    and bound: "inv q \<Longrightarrow> length (items q) \<le> cap q"
    and elems: "inv q \<Longrightarrow> x \<in> set (items q) \<Longrightarrow> fits q x"
begin

text \<open>Offering a list to the queue: as many as there is room for are taken, in order.\<close>

primrec enq_all :: "'e list \<Rightarrow> 'q \<Rightarrow> 'q option" where
  "enq_all [] q = Some q"
| "enq_all (x # xs) q = (case enq (Some x) q of None \<Rightarrow> None | Some (_, q') \<Rightarrow> enq_all xs q')"

primrec deq_all :: "nat \<Rightarrow> 'e \<Rightarrow> 'q \<Rightarrow> ('e list \<times> 'q) option" where
  "deq_all 0 b q = Some ([], q)"
| "deq_all (Suc n) b q =
     (case deq (Some b) q of
        Some (r, q', Some x) \<Rightarrow>
          if r = 0 then map_option (\<lambda>(ys, q''). (x # ys, q'')) (deq_all n b q') else Some ([], q')
      | _ \<Rightarrow> None)"

lemma enq_all_items:
  assumes "inv q" "\<forall>x\<in>set xs. fits q x"
  shows "\<exists>q'. enq_all xs q = Some q' \<and> inv q' \<and> cap q' = cap q \<and> fits q' = fits q \<and>
    items q' = items q @ take (cap q - length (items q)) xs"
  using assms
proof (induction xs arbitrary: q)
  case Nil
  then show ?case by simp
next
  case (Cons x xs)
  show ?case
  proof (cases "length (items q) < cap q")
    case True
    then obtain q' where q': "enq (Some x) q = Some (0, q')" "inv q'" "items q' = items q @ [x]"
      "cap q' = cap q" "fits q' = fits q"
      using enq_room [OF Cons.prems(1), of x] Cons.prems(2) by auto
    moreover have "cap q - length (items q) = Suc (cap q - Suc (length (items q)))"
      using True by simp
    ultimately show ?thesis using Cons.IH [of q'] Cons.prems(2) by auto
  next
    case False
    then have "length (items q) = cap q" using bound [OF Cons.prems(1)] by simp
    then show ?thesis using Cons.IH [OF Cons.prems(1)] Cons.prems enq_full by auto
  qed
qed

text \<open>Draining: enough attempts empty the queue and yield its items in order.\<close>

lemma deq_all_items:
  assumes "inv q" "fits q b" "length (items q) \<le> n"
  shows "\<exists>q'. deq_all n b q = Some (items q, q') \<and> inv q' \<and> items q' = [] \<and> cap q' = cap q \<and>
    fits q' = fits q"
  using assms
proof (induction n arbitrary: q)
  case 0
  then show ?case by simp
next
  case (Suc n)
  show ?case
  proof (cases "items q")
    case Nil
    then show ?thesis using deq_none [OF Suc.prems(1)] Suc.prems by simp
  next
    case (Cons x xs)
    then obtain q' where "deq (Some b) q = Some (0, q', Some x)" "inv q'" "items q' = xs"
      "cap q' = cap q" "fits q' = fits q"
      using deq_item [OF Suc.prems(1,2)] by blast
    then show ?thesis using Suc.IH [of q'] Suc.prems Cons by auto
  qed
qed

lemma fifo_order:
  assumes "inv q" "fits q b" "items q = []" "\<forall>x\<in>set xs. fits q x" "length xs \<le> cap q"
  shows "\<exists>q' q''. enq_all xs q = Some q' \<and> deq_all (length xs) b q' = Some (xs, q'') \<and> items q'' = []"
proof -
  obtain q' where q': "enq_all xs q = Some q'" "inv q'" "items q' = xs" "fits q' = fits q"
    using enq_all_items [OF assms(1,4)] assms(3,5) by auto
  with deq_all_items [of q' b "length xs"] assms(2) show ?thesis by auto
qed

end

section \<open>The ring buffer is a bounded queue\<close>

definition slot :: "sbi_fifo \<Rightarrow> nat \<Rightarrow> u8 list" where
  "slot f i = blk (queue f) (i * unat (entry_size f)) (unat (entry_size f))"

definition fifo_inv :: "sbi_fifo \<Rightarrow> bool" where
  "fifo_inv f \<longleftrightarrow> length (queue f) = unat (num_entries f) * unat (entry_size f) \<and>
     tail f < num_entries f \<and> avail f \<le> num_entries f"

definition fifo_items :: "sbi_fifo \<Rightarrow> u8 list list" where
  "fifo_items f = map (\<lambda>i. slot f ((unat (tail f) + i) mod unat (num_entries f))) [0..<unat (avail f)]"

definition q_inv :: "sbi_fifo option \<Rightarrow> bool" where
  "q_inv q = (case q of None \<Rightarrow> False | Some f \<Rightarrow> fifo_inv f)"

definition q_items :: "sbi_fifo option \<Rightarrow> u8 list list" where
  "q_items q = (case q of None \<Rightarrow> [] | Some f \<Rightarrow> fifo_items f)"

definition q_cap :: "sbi_fifo option \<Rightarrow> nat" where
  "q_cap q = (case q of None \<Rightarrow> 0 | Some f \<Rightarrow> unat (num_entries f))"

definition q_fits :: "sbi_fifo option \<Rightarrow> u8 list \<Rightarrow> bool" where
  "q_fits q x = (case q of None \<Rightarrow> False | Some f \<Rightarrow> length x = unat (entry_size f))"

lemmas q_defs = q_inv_def q_items_def q_cap_def q_fits_def

text \<open>The subtraction that replaces a division when the index runs past the end.\<close>

lemma wrap_index: "t < n \<Longrightarrow> i < n \<Longrightarrow> (if n \<le> t + i then t + i - n else t + i) = (t + i) mod (n :: nat)"
  by (auto simp: mod_if)

lemma slot_in: "i < n \<Longrightarrow> i * e + e \<le> n * (e :: nat)"
  by (metis Suc_leI add.commute mult_Suc mult_le_mono1)

lemma slot_apart: "i \<noteq> j \<Longrightarrow> i * e + e \<le> j * e \<or> j * e + e \<le> i * (e :: nat)"
  using slot_in [of i j e] slot_in [of j i e] by (cases i j rule: linorder_cases) auto

lemma fifo_invD:
  assumes "fifo_inv f"
  shows "length (queue f) = unat (num_entries f) * unat (entry_size f)"
    "unat (tail f) < unat (num_entries f)" "unat (avail f) \<le> unat (num_entries f)"
  using assms by (auto simp: fifo_inv_def word_less_nat_alt word_le_nat_alt)

lemma length_slot: "fifo_inv f \<Longrightarrow> i < unat (num_entries f) \<Longrightarrow> length (slot f i) = unat (entry_size f)"
  by (simp add: slot_def slot_in fifo_invD)

text \<open>The \<open>u32\<close> index arithmetic does not wrap: all operands are 16 bits wide.\<close>

lemma unat_u32_add: "unat (ucast (x :: u16) + ucast (y :: u16) :: u32) = unat x + unat y"
  using unat16 [of x] unat16 [of y] by (simp add: unat_add_lem [THEN iffD1] unat_ucast_up)

lemma unat_u32_mult:
  assumes "unat h < 65536"
  shows "unat ((h :: u32) * ucast (e :: u16)) = unat h * unat e"
proof -
  have "unat h * unat e \<le> 65535 * 65535"
    using assms unat16 [of e] by (intro mult_le_mono) auto
  then show ?thesis by (simp add: unat_mult_lem [THEN iffD1] unat_ucast_up)
qed

lemma head_index:
  assumes "fifo_inv f" "avail f \<noteq> num_entries f"
  shows "unat ((let head = (ucast (tail f) + ucast (avail f) :: u32) in
      if ucast (num_entries f) \<le> head then head - ucast (num_entries f) else head)) =
    (unat (tail f) + unat (avail f)) mod unat (num_entries f)"
proof -
  have lt: "unat (avail f) < unat (num_entries f)"
    using fifo_invD(3) [OF assms(1)] assms(2) by (simp add: le_less word_unat_eq_iff)
  then show ?thesis
    using wrap_index [OF fifo_invD(2) [OF assms(1)] lt]
    by (simp add: Let_def word_le_nat_alt unat_u32_add unat_sub unat_ucast_up split: if_splits)
qed

definition set_slot :: "nat \<Rightarrow> u8 list \<Rightarrow> sbi_fifo \<Rightarrow> sbi_fifo" where
  "set_slot h x f = f\<lparr>queue := blit (queue f) (h * unat (entry_size f)) x\<rparr>"

lemma set_slot_simps [simp]:
  "entry_size (set_slot h x f) = entry_size f" "num_entries (set_slot h x f) = num_entries f"
  "avail (set_slot h x f) = avail f" "tail (set_slot h x f) = tail f"
  by (simp_all add: set_slot_def)

lemma set_slot_inv:
  "fifo_inv f \<Longrightarrow> h < unat (num_entries f) \<Longrightarrow> length x = unat (entry_size f) \<Longrightarrow> fifo_inv (set_slot h x f)"
  using slot_in [of h "unat (num_entries f)" "unat (entry_size f)"]
  by (auto simp: fifo_inv_def set_slot_def)

lemma slot_set_slot:
  assumes "fifo_inv f" "h < unat (num_entries f)" "i < unat (num_entries f)"
    "length x = unat (entry_size f)"
  shows "slot (set_slot h x f) i = (if i = h then x else slot f i)"
proof -
  note b = slot_in [OF assms(2), of "unat (entry_size f)"] slot_in [OF assms(3), of "unat (entry_size f)"]
  show ?thesis
  proof (cases "i = h")
    case True
    then show ?thesis using b assms by (simp add: slot_def set_slot_def blk_blit_same fifo_invD)
  next
    case False
    then show ?thesis
      using b assms slot_apart [OF False, of "unat (entry_size f)"]
      by (simp add: slot_def set_slot_def blk_blit_other fifo_invD)
  qed
qed

lemma memcpy_slot:
  assumes "fifo_inv f" "h < unat (num_entries f)" "length x = unat (entry_size f)"
  shows "sbi_memcpy (queue f) (h * unat (entry_size f)) x 0 (unat (entry_size f)) =
    Some (queue (set_slot h x f))"
  using assms slot_in [OF assms(2), of "unat (entry_size f)"]
  by (simp add: memcpy_correct fifo_invD set_slot_def blk_def)

lemma enqueue_room:
  assumes "fifo_inv f" "length x = unat (entry_size f)" "avail f \<noteq> num_entries f"
  shows "\<exists>f'. u_sbi_fifo_enqueue f x = Some f' \<and> fifo_inv f' \<and> fifo_items f' = fifo_items f @ [x] \<and>
    num_entries f' = num_entries f \<and> entry_size f' = entry_size f"
proof -
  define n t a h where "n = unat (num_entries f)" and "t = unat (tail f)" and "a = unat (avail f)"
    and "h = (t + a) mod n"
  have lt: "a < n" "t < n" "h < n"
    using fifo_invD [OF assms(1)] assms(3) by (auto simp: n_def t_def a_def h_def le_less word_unat_eq_iff)
  define f' where "f' = (set_slot h x f)\<lparr>avail := avail f + 1\<rparr>"
  have a': "unat (avail f + 1) = Suc a"
    using lt(1) unat16 [of "num_entries f"] by (simp add: a_def n_def unat_word_ariths)
  have "h < 65536" using lt(3) unat16 [of "num_entries f"] by (simp add: n_def)
  then have enq: "u_sbi_fifo_enqueue f x = Some f'"
    using head_index [OF assms(1,3)] memcpy_slot [OF assms(1) _ assms(2), of h] lt(3)
    by (simp add: u_sbi_fifo_enqueue_def Let_def unat_u32_mult h_def n_def t_def a_def f'_def set_slot_def)
  have inv: "fifo_inv f'"
    using set_slot_inv [OF assms(1) _ assms(2), of h] lt a'
    by (simp add: f'_def fifo_inv_def n_def word_le_nat_alt)
  have sl: "slot f' i = (if i = h then x else slot f i)" if "i < n" for i
    using slot_set_slot [OF assms(1) _ _ assms(2), of h i] that lt by (simp add: f'_def slot_def n_def)
  have other: "(t + i) mod n \<noteq> h" if "i < a" for i
    unfolding h_def using that lt by (auto simp: mod_if)
  have "fifo_items f' = map (\<lambda>i. slot f' ((t + i) mod n)) [0..<a] @ [slot f' h]"
    using a' by (simp add: fifo_items_def f'_def n_def t_def h_def)
  also have "\<dots> = fifo_items f @ [x]"
    using lt other sl by (auto simp: fifo_items_def a_def n_def [symmetric] t_def [symmetric])
  finally show ?thesis using enq inv by (auto simp: f'_def)
qed

lemma dequeue_item:
  assumes "fifo_inv f" "length b = unat (entry_size f)" "fifo_items f = x # xs"
  shows "\<exists>f'. sbi_fifo_dequeue (Some b) (Some f) = Some (0, Some f', Some x) \<and> fifo_inv f' \<and>
    fifo_items f' = xs \<and> num_entries f' = num_entries f \<and> entry_size f' = entry_size f"
proof -
  define n t where "n = unat (num_entries f)" and "t = unat (tail f)"
  obtain a where a: "unat (avail f) = Suc a" and x: "x = slot f (t mod n)"
    and xs: "xs = map (\<lambda>i. slot f ((t + i) mod n)) [1..<Suc a]"
    using assms(3) by (cases "unat (avail f)") (auto simp: fifo_items_def n_def t_def upt_conv_Cons simp del: upt_Suc)
  have lt: "t < n" "Suc a \<le> n" using fifo_invD [OF assms(1)] a by (auto simp: n_def t_def)
  define f' where "f' = f\<lparr>avail := avail f - 1, tail := (if num_entries f \<le> tail f + 1 then 0 else tail f + 1)\<rparr>"
  have t1: "unat (tail f + 1) = Suc t"
    using lt unat16 [of "num_entries f"] by (simp add: n_def t_def unat_word_ariths)
  have t': "unat (tail f') = Suc t mod n"
    using lt t1 by (auto simp: f'_def word_le_nat_alt n_def mod_if)
  have a': "unat (avail f') = a"
    using a by (simp add: f'_def unat_sub word_le_nat_alt)
  have st: "slot f t = x" "length x = unat (entry_size f)"
    using x lt length_slot [OF assms(1), of t] by (auto simp: n_def)
  then have deq: "sbi_fifo_dequeue (Some b) (Some f) = Some (0, Some f', Some x)"
    using a assms(2) lt slot_in [OF lt(1), of "unat (entry_size f)"] unat16 [of "tail f"]
    by (simp add: sbi_fifo_dequeue_def u_sbi_fifo_is_empty_def f'_def unat_u32_mult unat_ucast_up
        memcpy_correct fifo_invD assms(1) slot_def t_def n_def blit_def Let_def unat_eq_0 [symmetric])
  have inv: "fifo_inv f'"
    using assms(1) t' a' lt by (auto simp: fifo_inv_def f'_def word_less_nat_alt word_le_nat_alt n_def)
  have "fifo_items f' = map (\<lambda>i. slot f ((Suc t mod n + i) mod n)) [0..<a]"
    using t' a' by (simp add: fifo_items_def) (simp add: f'_def slot_def n_def)
  also have "\<dots> = xs" unfolding xs
    by (intro nth_equalityI) (auto simp: mod_simps simp del: upt_Suc)
  finally show ?thesis using deq inv by (auto simp: f'_def)
qed

lemma length_fifo_items: "length (fifo_items f) = unat (avail f)"
  by (simp add: fifo_items_def)

interpretation rb: bounded_queue q_inv q_items q_cap q_fits sbi_fifo_enqueue sbi_fifo_dequeue
proof
  fix q x assume "q_inv q" "q_fits q x" "length (q_items q) < q_cap q"
  then show "\<exists>q'. sbi_fifo_enqueue (Some x) q = Some (0, q') \<and> q_inv q' \<and> q_items q' = q_items q @ [x] \<and>
      q_cap q' = q_cap q \<and> q_fits q' = q_fits q"
    using enqueue_room [of "the q" x]
    by (cases q) (auto simp: q_defs sbi_fifo_enqueue_def u_sbi_fifo_is_full_def length_fifo_items fun_eq_iff)
next
  fix q x assume "q_inv q" "length (q_items q) = q_cap q"
  then show "sbi_fifo_enqueue (Some x) q = Some (SBI_ENOSPC, q)"
    by (auto simp: q_defs sbi_fifo_enqueue_def u_sbi_fifo_is_full_def length_fifo_items word_unat_eq_iff
        split: option.splits)
next
  fix q b x xs assume "q_inv q" "q_fits q b" "q_items q = x # xs"
  then show "\<exists>q'. sbi_fifo_dequeue (Some b) q = Some (0, q', Some x) \<and> q_inv q' \<and> q_items q' = xs \<and>
      q_cap q' = q_cap q \<and> q_fits q' = q_fits q"
    using dequeue_item [of "the q" b x xs] by (cases q) (auto simp: q_defs fun_eq_iff)
next
  fix q b assume "q_inv q" "q_items q = []"
  then show "sbi_fifo_dequeue (Some b) q = Some (SBI_ENOENT, q, Some b)"
    by (auto simp: q_defs sbi_fifo_dequeue_def u_sbi_fifo_is_empty_def fifo_items_def unat_eq_0
        split: option.splits)
next
  fix q assume "q_inv q"
  then show "length (q_items q) \<le> q_cap q"
    by (auto simp: q_defs length_fifo_items fifo_invD split: option.splits)
next
  fix q x assume "q_inv q" "x \<in> set (q_items q)"
  then show "q_fits q x"
    by (auto simp: q_defs fifo_items_def split: option.splits intro!: length_slot mod_less_divisor
        dest: fifo_invD(2))
qed

section \<open>The in-place update\<close>

text \<open>The reference on the list of entries: the first entry that the callback takes is the last visited.\<close>

fun upd_first :: "('e \<Rightarrow> (sbi_fifo_inplace_update_types \<times> 'e) option) \<Rightarrow> 'e list \<Rightarrow>
    (sbi_fifo_inplace_update_types \<times> 'e list) option" where
  "upd_first g [] = Some (SBI_FIFO_UNCHANGED, [])"
| "upd_first g (x # xs) = do {
     (r, x') \<leftarrow> g x;
     if r = SBI_FIFO_SKIP \<or> r = SBI_FIFO_UPDATED then Some (r, x' # xs)
     else do { (r', xs') \<leftarrow> upd_first g xs; Some (r', x' # xs') } }"

lemma upd_verdict: "r \<noteq> SBI_FIFO_SKIP \<Longrightarrow> r \<noteq> SBI_FIFO_UPDATED \<Longrightarrow> r = SBI_FIFO_UNCHANGED"
  by (cases r) auto

lemma fifo_items_set_slot:
  assumes "fifo_inv f" "i < unat (avail f)" "length x = unat (entry_size f)"
  shows "fifo_items (set_slot ((unat (tail f) + i) mod unat (num_entries f)) x f) = (fifo_items f)[i := x]"
proof (rule nth_equalityI)
  let ?n = "unat (num_entries f)" and ?t = "unat (tail f)"
  note b = fifo_invD [OF assms(1)]
  fix j assume "j < length (fifo_items (set_slot ((?t + i) mod ?n) x f))"
  then have j: "j < unat (avail f)" by (simp add: length_fifo_items)
  have "(?t + j) mod ?n = (?t + i) mod ?n \<longleftrightarrow> j = i"
    using b j assms(2) by (auto simp: mod_if split: if_splits)
  moreover have "(?t + k) mod ?n < ?n" for k using b(2) by (intro mod_less_divisor) simp
  ultimately show "fifo_items (set_slot ((?t + i) mod ?n) x f) ! j = (fifo_items f)[i := x] ! j"
    using j assms slot_set_slot [OF assms(1) _ _ assms(3)] by (auto simp: fifo_items_def nth_list_update)
qed (simp add: length_fifo_items)

lemma inplace_update_loop_items:
  assumes "fifo_inv f" "i + n = unat (avail f)"
    "\<And>e r e'. length e = unat (entry_size f) \<Longrightarrow> fptr inp e = Some (r, e') \<Longrightarrow> length e' = length e"
    "upd_first (fptr inp) (drop i (fifo_items f)) = Some (r, ys)"
  shows "\<exists>f'. inplace_update_loop fptr inp i n SBI_FIFO_UNCHANGED f = Some (r, f') \<and> fifo_inv f' \<and>
    fifo_items f' = take i (fifo_items f) @ ys \<and> num_entries f' = num_entries f \<and> entry_size f' = entry_size f"
  using assms
proof (induction n arbitrary: i f r ys)
  case 0
  then show ?case by (simp add: length_fifo_items)
next
  case (Suc n)
  let ?k = "(unat (tail f) + i) mod unat (num_entries f)"
  note b = fifo_invD [OF Suc.prems(1)]
  have i: "i < unat (avail f)" "i < unat (num_entries f)" using Suc.prems(2) b(3) by auto
  have k: "?k < unat (num_entries f)" using b(2) by (intro mod_less_divisor) simp
  have es: "length (slot f ?k) = unat (entry_size f)" using length_slot [OF Suc.prems(1) k] .
  have dr: "drop i (fifo_items f) = slot f ?k # drop (Suc i) (fifo_items f)"
    using i by (simp add: Cons_nth_drop_Suc [symmetric] length_fifo_items) (simp add: fifo_items_def)
  obtain r1 e where g: "fptr inp (slot f ?k) = Some (r1, e)"
    using Suc.prems(4) by (auto simp: dr Option.bind_eq_Some_conv)
  have le: "length e = unat (entry_size f)" using Suc.prems(3) [OF es g] es by simp
  let ?f = "set_slot ?k e f"
  note inv = set_slot_inv [OF Suc.prems(1) k le]
  note it = fifo_items_set_slot [OF Suc.prems(1) i(1) le]
  have step: "inplace_update_loop fptr inp i (Suc n) SBI_FIFO_UNCHANGED f =
      (if r1 = SBI_FIFO_SKIP \<or> r1 = SBI_FIFO_UPDATED then Some (r1, ?f)
       else inplace_update_loop fptr inp (Suc i) n r1 ?f)"
    using g slot_in [OF k, of "unat (entry_size f)"] memcpy_slot [OF Suc.prems(1) k le] b(1)
    by (simp add: Let_def wrap_index [OF b(2) i(2)] slot_def set_slot_def)
  show ?case
  proof (cases "r1 = SBI_FIFO_SKIP \<or> r1 = SBI_FIFO_UPDATED")
    case True
    then have "r = r1" "ys = e # drop (Suc i) (fifo_items f)" using Suc.prems(4) g by (auto simp: dr)
    then show ?thesis using step True inv it i
      by (simp add: upd_conv_take_nth_drop length_fifo_items)
  next
    case False
    then obtain ys' where ys: "ys = e # ys'" and rest: "upd_first (fptr inp) (drop (Suc i) (fifo_items f)) = Some (r, ys')"
      using Suc.prems(4) g by (auto simp: dr Option.bind_eq_Some_conv split: prod.splits)
    have "\<exists>f'. inplace_update_loop fptr inp (Suc i) n SBI_FIFO_UNCHANGED ?f = Some (r, f') \<and> fifo_inv f' \<and>
        fifo_items f' = take (Suc i) (fifo_items ?f) @ ys' \<and> num_entries f' = num_entries ?f \<and> entry_size f' = entry_size ?f"
      using Suc.prems(2,3) rest inv it by (intro Suc.IH) auto
    then show ?thesis using step False upd_verdict [of r1] it i ys
      by (auto simp: take_Suc_conv_app_nth length_fifo_items)
  qed
qed

lemma inplace_update_items:
  assumes "fifo_inv f"
    "\<And>e r e'. length e = unat (entry_size f) \<Longrightarrow> fptr x e = Some (r, e') \<Longrightarrow> length e' = length e"
    "upd_first (fptr x) (fifo_items f) = Some (r, ys)"
  shows "\<exists>f'. sbi_fifo_inplace_update fptr (Some x) (Some f) = Some (r, Some f') \<and> fifo_inv f' \<and>
    fifo_items f' = ys \<and> num_entries f' = num_entries f \<and> entry_size f' = entry_size f"
proof (cases "avail f = 0")
  case True
  then show ?thesis using assms
    by (simp add: sbi_fifo_inplace_update_def u_sbi_fifo_is_empty_def fifo_items_def)
next
  case False
  have "\<exists>f'. inplace_update_loop fptr x 0 (unat (avail f)) SBI_FIFO_UNCHANGED f = Some (r, f') \<and> fifo_inv f' \<and>
      fifo_items f' = take 0 (fifo_items f) @ ys \<and> num_entries f' = num_entries f \<and> entry_size f' = entry_size f"
    using assms by (intro inplace_update_loop_items) auto
  with False show ?thesis by (auto simp: sbi_fifo_inplace_update_def u_sbi_fifo_is_empty_def)
qed

lemma fifo_init_items:
  assumes "length m = unat n * unat e" "0 < n"
  shows "\<exists>f'. sbi_fifo_init f m n e = Some f' \<and> fifo_inv f' \<and> fifo_items f' = [] \<and>
    num_entries f' = n \<and> entry_size f' = e"
  using assms by (auto simp: sbi_fifo_init_def memset_correct fifo_inv_def fifo_items_def)

section \<open>Properties\<close>

text \<open>
  C15: the ring buffer implements a bounded first-in first-out queue of byte entries. From a
  state satisfying the invariant (indices in range, memory of the right size), an enqueue
  appends the entry or, at capacity, answers \<open>SBI_ENOSPC\<close> and changes nothing; a dequeue
  removes and delivers the oldest entry or, when empty, answers \<open>SBI_ENOENT\<close> and changes
  nothing; the invariant is kept, and no access leaves the queue memory although the indices
  wrap around.
\<close>

theorem fifo_refines_bounded_queue:
  assumes "fifo_inv f" "length x = unat (entry_size f)"
  shows "(\<exists>r f'. sbi_fifo_enqueue (Some x) (Some f) = Some (r, Some f') \<and> fifo_inv f' \<and>
      (if length (fifo_items f) < unat (num_entries f)
       then r = 0 \<and> fifo_items f' = fifo_items f @ [x] else r = SBI_ENOSPC \<and> f' = f)) \<and>
    (\<exists>r f' y. sbi_fifo_dequeue (Some x) (Some f) = Some (r, Some f', Some y) \<and> fifo_inv f' \<and>
      (if fifo_items f = [] then r = SBI_ENOENT \<and> f' = f \<and> y = x
       else r = 0 \<and> fifo_items f = y # fifo_items f'))"
proof
  have q: "q_inv (Some f)" "q_fits (Some f) x" using assms by (simp_all add: q_defs)
  have "length (fifo_items f) \<le> unat (num_entries f)" using rb.bound [OF q(1)] by (simp add: q_defs)
  then show "\<exists>r f'. sbi_fifo_enqueue (Some x) (Some f) = Some (r, Some f') \<and> fifo_inv f' \<and>
      (if length (fifo_items f) < unat (num_entries f)
       then r = 0 \<and> fifo_items f' = fifo_items f @ [x] else r = SBI_ENOSPC \<and> f' = f)"
    using enqueue_room [OF assms] rb.enq_full [OF q(1), of x] assms
    by (cases "avail f = num_entries f")
      (auto simp: q_defs length_fifo_items sbi_fifo_enqueue_def u_sbi_fifo_is_full_def word_unat_eq_iff)
  show "\<exists>r f' y. sbi_fifo_dequeue (Some x) (Some f) = Some (r, Some f', Some y) \<and> fifo_inv f' \<and>
      (if fifo_items f = [] then r = SBI_ENOENT \<and> f' = f \<and> y = x
       else r = 0 \<and> fifo_items f = y # fifo_items f')"
    using rb.deq_none [OF q(1), of x] dequeue_item [OF assms] assms
    by (cases "fifo_items f") (auto simp: q_defs)
qed

theorem fifo_refines_bounded_queue_witness:
  "\<exists>f'. sbi_fifo_enqueue (Some [7, 8])
     (Some \<lparr>queue = [1, 2, 3, 4], entry_size = 2, num_entries = 2, avail = 1, tail = 1\<rparr>) =
     Some (0, Some f') \<and> fifo_items f' = [[3, 4], [7, 8]]"
  using fifo_refines_bounded_queue [of "\<lparr>queue = [1, 2, 3, 4], entry_size = 2, num_entries = 2, avail = 1, tail = 1\<rparr>" "[7, 8]"]
  by (auto simp: fifo_inv_def fifo_items_def slot_def blk_def)

text \<open>
  Entries come out in the order they went in. A freshly initialised ring of \<open>n\<close> entries
  takes any list of at most \<open>n\<close> entries and, drained, gives exactly that list back and is
  empty.
\<close>

lemma fifo_round_trip:
  assumes "length m = unat n * unat e" "0 < n" "length xs \<le> unat n" "\<forall>x\<in>set xs. length x = unat e"
  shows "\<exists>f q q'. sbi_fifo_init f0 m n e = Some f \<and> rb.enq_all xs (Some f) = Some q \<and>
    rb.deq_all (length xs) (replicate (unat e) 0) q = Some (xs, q') \<and> q_items q' = []"
proof -
  obtain f where f: "sbi_fifo_init f0 m n e = Some f" "fifo_inv f" "fifo_items f = []"
    "num_entries f = n" "entry_size f = e"
    using fifo_init_items [OF assms(1,2)] by blast
  have "\<exists>q q'. rb.enq_all xs (Some f) = Some q \<and>
      rb.deq_all (length xs) (replicate (unat e) 0) q = Some (xs, q') \<and> q_items q' = []"
    using f assms(3,4) by (intro rb.fifo_order) (auto simp: q_defs)
  with f show ?thesis by blast
qed

end
