(* ===== verification/Sbi_Machine.thy ===== *)
theory Sbi_Machine
  imports Riscv_Pmp Sbi_Hartmask Sbi_Fifo
begin

text \<open>
  The machine the firmware runs on, as the code sees it: harts with their CSRs, the per-hart
  scratch areas, the global variables of the library, and the platform operations.

  Functions of the firmware are computations in a state monad with early termination. An
  outcome is a value with the state reached, or the reason why control does not come back: the
  hart hangs in \<open>wfi\<close>, leaves the firmware by \<open>mret\<close> or by a jump, is stopped by the platform,
  reads outside an array, or used up the iterations granted to a busy-wait loop.

  What the firmware is given rather than computes is the configuration \<open>cfg\<close>: the platform
  operations (each optional, as their pointers may be null), the firmware's hart id to
  scratch function, which CSRs a hart implements, which unprivileged accesses fault, what
  other harts do to the shared state while a loop waits (\<open>interf\<close>), and a bound on the
  iterations of each busy-wait loop (\<open>fuel\<close>).
\<close>

section \<open>Computations\<close>

datatype halt =
    Hang \<comment> \<open>\<open>sbi_hart_hang\<close>\<close>
  | Spin \<comment> \<open>a busy-wait loop did not end within its fuel\<close>
  | BadAccess \<comment> \<open>an access outside an array, or through a null pointer\<close>
  | Jump ulong \<comment> \<open>a jump to the given address\<close>
  | Mret ulong ulong \<comment> \<open>\<open>mret\<close> with the given \<open>a0\<close> and \<open>a1\<close>\<close>
  | Stopped \<comment> \<open>a platform operation that does not return\<close>

datatype ('s, 'a) outcome = Ret 'a 's | Halt halt 's

definition retM :: "'a \<Rightarrow> 's \<Rightarrow> ('s, 'a) outcome" where
  "retM x s = Ret x s"

definition bindM :: "('s \<Rightarrow> ('s, 'a) outcome) \<Rightarrow> ('a \<Rightarrow> 's \<Rightarrow> ('s, 'b) outcome) \<Rightarrow> 's \<Rightarrow> ('s, 'b) outcome" where
  "bindM m f s = (case m s of Ret x s' \<Rightarrow> f x s' | Halt r s' \<Rightarrow> Halt r s')"

definition seqM :: "('s \<Rightarrow> ('s, 'a) outcome) \<Rightarrow> ('s \<Rightarrow> ('s, 'b) outcome) \<Rightarrow> 's \<Rightarrow> ('s, 'b) outcome" where
  "seqM m n = bindM m (\<lambda>_. n)"

definition haltM :: "halt \<Rightarrow> 's \<Rightarrow> ('s, 'a) outcome" where
  "haltM r s = Halt r s"

definition getM :: "('s \<Rightarrow> 'a) \<Rightarrow> 's \<Rightarrow> ('s, 'a) outcome" where
  "getM f s = Ret (f s) s"

definition modM :: "('s \<Rightarrow> 's) \<Rightarrow> 's \<Rightarrow> ('s, unit) outcome" where
  "modM f s = Ret () (f s)"

definition whenM :: "bool \<Rightarrow> ('s \<Rightarrow> ('s, unit) outcome) \<Rightarrow> 's \<Rightarrow> ('s, unit) outcome" where
  "whenM b m = (if b then m else retM ())"

definition liftO :: "'a option \<Rightarrow> 's \<Rightarrow> ('s, 'a) outcome" where
  "liftO x = (case x of None \<Rightarrow> haltM BadAccess | Some v \<Rightarrow> retM v)"

primrec forM :: "'i list \<Rightarrow> ('i \<Rightarrow> 's \<Rightarrow> ('s, unit) outcome) \<Rightarrow> 's \<Rightarrow> ('s, unit) outcome" where
  "forM [] f = retM ()"
| "forM (x # xs) f = seqM (f x) (forM xs f)"

named_theorems run_simps \<open>running a computation\<close>

lemma run_ret [run_simps]: "retM x s = Ret x s" by (simp add: retM_def)
lemma run_bind [run_simps]:
  "bindM m f s = (case m s of Ret x s' \<Rightarrow> f x s' | Halt r s' \<Rightarrow> Halt r s')" by (simp add: bindM_def)
lemma run_seq [run_simps]:
  "seqM m n s = (case m s of Ret x s' \<Rightarrow> n s' | Halt r s' \<Rightarrow> Halt r s')" by (simp add: seqM_def bindM_def)
lemma run_halt [run_simps]: "haltM r s = Halt r s" by (simp add: haltM_def)
lemma run_get [run_simps]: "getM f s = Ret (f s) s" by (simp add: getM_def)
lemma run_mod [run_simps]: "modM f s = Ret () (f s)" by (simp add: modM_def)
lemma run_when [run_simps]: "whenM b m s = (if b then m s else Ret () s)" by (simp add: whenM_def retM_def)
lemma run_lift [run_simps]: "liftO x s = (case x of None \<Rightarrow> Halt BadAccess s | Some v \<Rightarrow> Ret v s)"
  by (simp add: liftO_def run_halt run_ret split: option.splits)

text \<open>The state in which an outcome leaves the machine.\<close>

primrec final :: "('s, 'a) outcome \<Rightarrow> 's" where
  "final (Ret x s) = s"
| "final (Halt r s) = s"

text \<open>
  A frame is a reflexive and transitive relation between states, read as what a computation may
  change. A computation keeps the frame when every outcome is related to the state it started
  in; the composite forms keep it when their parts do.
\<close>

locale frame =
  fixes R :: "'s \<Rightarrow> 's \<Rightarrow> bool"
  assumes R_refl: "R s s"
    and R_trans: "R s t \<Longrightarrow> R t u \<Longrightarrow> R s u"
begin

definition keeps :: "('s \<Rightarrow> ('s, 'a) outcome) \<Rightarrow> bool" where
  "keeps m \<longleftrightarrow> (\<forall>s. R s (final (m s)))"

lemma keepsD: "keeps m \<Longrightarrow> R s (final (m s))"
  by (simp add: keeps_def)

lemma keeps_Ret: "keeps m \<Longrightarrow> m s = Ret x s' \<Longrightarrow> R s s'"
  using keepsD [of m s] by simp

lemma keeps_Halt: "keeps m \<Longrightarrow> m s = Halt r s' \<Longrightarrow> R s s'"
  using keepsD [of m s] by simp

lemma keeps_ret: "keeps (retM x)"
  by (simp add: keeps_def run_simps R_refl)

lemma keeps_halt: "keeps (haltM r)"
  by (simp add: keeps_def run_simps R_refl)

lemma keeps_get: "keeps (getM f)"
  by (simp add: keeps_def run_simps R_refl)

lemma keeps_lift: "keeps (liftO x)"
  by (simp add: keeps_def run_simps R_refl split: option.splits)

lemma keeps_mod: "(\<And>s. R s (f s)) \<Longrightarrow> keeps (modM f)"
  by (simp add: keeps_def run_simps)

lemma keeps_bind:
  assumes "keeps m" "\<And>x. keeps (f x)"
  shows "keeps (bindM m f)"
  using assms unfolding keeps_def
  by (auto simp: run_simps split: outcome.splits) (metis R_trans final.simps)+

lemma keeps_seq: "keeps m \<Longrightarrow> keeps n \<Longrightarrow> keeps (seqM m n)"
  unfolding seqM_def by (rule keeps_bind)

lemma keeps_if: "(b \<Longrightarrow> keeps m) \<Longrightarrow> (\<not> b \<Longrightarrow> keeps n) \<Longrightarrow> keeps (if b then m else n)"
  by simp

lemma keeps_when: "(b \<Longrightarrow> keeps m) \<Longrightarrow> keeps (whenM b m)"
  by (simp add: whenM_def keeps_ret)

lemma keeps_forM: "(\<And>x. keeps (f x)) \<Longrightarrow> keeps (forM xs f)"
  by (induction xs) (auto intro: keeps_ret keeps_seq)

lemma keeps_prod: "(\<And>x y. keeps (f x y)) \<Longrightarrow> keeps (case p of (x, y) \<Rightarrow> f x y)"
  by (simp split: prod.splits)

lemma keeps_option: "keeps m \<Longrightarrow> (\<And>x. keeps (f x)) \<Longrightarrow> keeps (case p of None \<Rightarrow> m | Some x \<Rightarrow> f x)"
  by (simp split: option.splits)

lemma keeps_let: "(\<And>x. keeps (f x)) \<Longrightarrow> keeps (let x = v in f x)"
  by (simp add: Let_def)

lemmas keeps_rules = keeps_ret keeps_halt keeps_get keeps_lift keeps_bind keeps_seq keeps_if keeps_when
  keeps_forM keeps_prod keeps_option keeps_let

end

section \<open>Computations that return or wait\<close>

text \<open>
  \<open>sees m s Q\<close>: \<open>m\<close>, started in \<open>s\<close>, returns with \<open>Q\<close> or is still in a busy-wait loop when its fuel ends. On
  composite computations the rules compute weakest preconditions.
\<close>

definition sees :: "('s \<Rightarrow> ('s, 'a) outcome) \<Rightarrow> 's \<Rightarrow> ('a \<Rightarrow> 's \<Rightarrow> bool) \<Rightarrow> bool" where
  "sees m s Q \<longleftrightarrow> (case m s of Ret x s' \<Rightarrow> Q x s' | Halt r s' \<Rightarrow> r = Spin)"

lemma sees_ret [simp]: "sees (retM x) s Q = Q x s"
  and sees_bind [simp]: "sees (bindM m f) s Q' = sees m s (\<lambda>x s'. sees (f x) s' Q')"
  and sees_seq [simp]: "sees (seqM m n) s Q' = sees m s (\<lambda>_ s'. sees n s' Q')"
  and sees_mod [simp]: "sees (modM g) s R = R () (g s)"
  and sees_get [simp]: "sees (getM h) s P = P (h s) s"
  and sees_halt [simp]: "sees (haltM Spin) s T"
  by (simp_all add: sees_def run_simps split: outcome.splits)

lemma sees_mono: "sees m s Q \<Longrightarrow> (\<And>x s'. Q x s' \<Longrightarrow> Q' x s') \<Longrightarrow> sees m s Q'"
  by (auto simp: sees_def split: outcome.splits)

text \<open>A relation between the states before and after that is kept by everything that is put together from parts that
  keep it.\<close>

locale waits =
  fixes R :: "'s \<Rightarrow> 's \<Rightarrow> bool"
  assumes R_refl: "R s s" and R_trans: "R s s' \<Longrightarrow> R s' s'' \<Longrightarrow> R s s''"
begin

definition stays :: "('s \<Rightarrow> ('s, 'a) outcome) \<Rightarrow> bool" where
  "stays m \<longleftrightarrow> (\<forall>s. sees m s (\<lambda>_ s'. R s s'))"

lemma staysD: "stays m \<Longrightarrow> (\<And>x s'. R s s' \<Longrightarrow> Q x s') \<Longrightarrow> sees m s Q"
  unfolding stays_def by (blast intro: sees_mono)

lemma stays_mod: "(\<And>s. R s (g s)) \<Longrightarrow> stays (modM g)"
  by (simp add: stays_def)

lemma stays_ret: "stays (retM x)" and stays_halt: "stays (haltM Spin)" and stays_get: "stays (getM h)"
  by (simp_all add: stays_def R_refl)

lemma stays_bind: "stays m \<Longrightarrow> (\<And>x. stays (f x)) \<Longrightarrow> stays (bindM m f)"
  unfolding stays_def [of "bindM m f"] sees_bind by (blast intro: staysD R_trans)

lemma stays_seq: "stays m \<Longrightarrow> stays n \<Longrightarrow> stays (seqM m n)"
  unfolding seqM_def by (rule stays_bind)

lemma stays_if: "(b \<Longrightarrow> stays m) \<Longrightarrow> (\<not> b \<Longrightarrow> stays n) \<Longrightarrow> stays (if b then m else n)"
  by simp

lemma stays_when: "stays m \<Longrightarrow> stays (whenM b m)"
  by (simp add: whenM_def stays_ret)

lemma stays_for: "(\<And>x. stays (f x)) \<Longrightarrow> stays (forM xs f)"
  by (induction xs) (auto intro: stays_ret stays_seq)

lemmas stays_rules = stays_ret stays_halt stays_get stays_bind stays_seq stays_if stays_when stays_for

end

section \<open>Refinement\<close>

text \<open>
  A component refines a specification when each of its steps acts on the abstract state as the
  specification says, as long as an invariant holds that every step keeps. Then any sequence of
  steps does, and every invariant of the specification carries over.
\<close>

locale refinement =
  fixes inv :: "'s \<Rightarrow> bool"
    and abs :: "'s \<Rightarrow> 'm"
    and step :: "'e \<Rightarrow> 's \<Rightarrow> 's"
    and spec :: "'e \<Rightarrow> 'm \<Rightarrow> 'm"
  assumes step_inv: "inv s \<Longrightarrow> inv (step e s)"
    and step_abs: "inv s \<Longrightarrow> abs (step e s) = spec e (abs s)"
begin

lemma run_refines: "inv s \<Longrightarrow> inv (fold step es s) \<and> abs (fold step es s) = fold spec es (abs s)"
  by (induction es arbitrary: s) (auto simp: step_inv step_abs)

lemma spec_invariant:
  assumes "inv s" "P (abs s)" "\<And>e m. P m \<Longrightarrow> P (spec e m)"
  shows "P (abs (fold step es s))"
proof -
  have "P (fold spec es m)" if "P m" for m using that assms(3) by (induction es arbitrary: m) auto
  then show ?thesis using run_refines [OF assms(1)] assms(2) by simp
qed

end

section \<open>Trap frames\<close>

text \<open>\<open>gpr i\<close> is the word at index \<open>i\<close> of the saved register block.\<close>

record sbi_trap_regs =
  gpr :: "nat \<Rightarrow> ulong"
  mepc :: ulong
  mstatus :: ulong
  mstatusH :: ulong

record sbi_trap_info =
  epc :: ulong
  cause :: ulong
  tval :: ulong
  tval2 :: ulong
  tinst :: ulong

section \<open>Harts and scratch areas\<close>

text \<open>
  The TLB maintenance instructions a hart executes, in order. Those for guest virtual
  addresses act on the VMID in \<open>hgatp\<close>, which is recorded with them.
\<close>

datatype fence =
    SFENCE_VMA_ALL | SFENCE_VMA ulong | SFENCE_VMA_ASID ulong | SFENCE_VMA_ASID_VA ulong ulong
  | HFENCE_GVMA_ALL | HFENCE_GVMA_GPA ulong | HFENCE_GVMA_VMID ulong | HFENCE_GVMA_VMID_GPA ulong ulong
  | HFENCE_VVMA_ALL ulong | HFENCE_VVMA_VA ulong ulong | HFENCE_VVMA_ASID ulong ulong
  | HFENCE_VVMA_ASID_VA ulong ulong ulong
  | FENCE_I

record hart =
  csr :: csrs
  mscratch :: nat
  fences :: "fence list"
  fpr :: "nat \<Rightarrow> u64"

text \<open>
  A scratch area is named by a number. Its header is the C structure; the extra space behind
  it holds machine words at the byte offsets the allocator hands out, and the ring of the TLB
  code as a typed object (the structure at \<open>tlb_fifo_off\<close> with its memory at \<open>tlb_fifo_mem_off\<close>).
\<close>

record sbi_scratch =
  fw_start :: ulong
  fw_size :: ulong
  next_arg1 :: ulong
  next_addr :: ulong
  next_mode :: ulong
  warmboot_addr :: ulong
  tmp0 :: ulong
  options :: ulong
  extra :: "nat \<Rightarrow> ulong"
  tlb_fifo :: sbi_fifo

abbreviation (input) SBI_SCRATCH_EXTRA_SPACE_OFFSET :: ulong where "SBI_SCRATCH_EXTRA_SPACE_OFFSET \<equiv> 80"
abbreviation (input) SBI_SCRATCH_SIZE :: ulong where "SBI_SCRATCH_SIZE \<equiv> 0x1000"
abbreviation (input) SBI_SCRATCH_NO_BOOT_PRINTS :: ulong where "SBI_SCRATCH_NO_BOOT_PRINTS \<equiv> 1"
abbreviation (input) SBI_SCRATCH_DEBUG_PRINTS :: ulong where "SBI_SCRATCH_DEBUG_PRINTS \<equiv> 2"

section \<open>The library's global state\<close>

datatype sbi_ipi_event_ops = ipi_smode_ops | ipi_halt_ops | tlb_ops

abbreviation (input) SBI_IPI_EVENT_MAX :: nat where "SBI_IPI_EVENT_MAX \<equiv> 64"

text \<open>The function pointer \<open>get_time_val\<close>: null, the time CSR, or the platform's timer.\<close>

datatype get_time_fn = no_time | get_ticks | platform_timer_value

datatype sbi_ecall_extension =
    ecall_time | ecall_rfence | ecall_ipi | ecall_base | ecall_hsm | ecall_legacy | ecall_vendor

record 'd sys =
  dev :: 'd
  harts :: "nat \<Rightarrow> hart"
  scratch :: "nat \<Rightarrow> sbi_scratch"
  mem :: "ulong \<Rightarrow> u8"
  last_hartid_having_scratch :: nat
  hartid_to_scratch_table :: "nat option list"
  extra_offset :: ulong
  init_count_offset :: ulong
  hart_data_offset :: ulong
  hart_features_offset :: ulong
  ipi_data_off :: ulong
  time_delta_off :: ulong
  tlb_sync_off :: ulong
  tlb_fifo_off :: ulong
  tlb_fifo_mem_off :: ulong
  tlb_range_flush_limit :: ulong
  ipi_ops_array :: "sbi_ipi_event_ops option list"
  ipi_smode_event :: nat
  ipi_halt_event :: nat
  tlb_event :: nat
  get_time_val :: get_time_fn
  console_plat :: bool
  coldboot_done :: bool
  coldboot_wait_hmask :: sbi_hartmask
  coldboot_lottery :: ulong
  ecall_exts_list :: "sbi_ecall_extension list"
  ecall_impid :: ulong
  expected_trap_hext :: bool

text \<open>
  The state in which the firmware starts: the static initialisers of the C files, for a given
  device state, harts, scratch areas (prepared by the start-up assembly) and memory.
\<close>

definition boot_sys :: "'d \<Rightarrow> (nat \<Rightarrow> hart) \<Rightarrow> (nat \<Rightarrow> sbi_scratch) \<Rightarrow> (ulong \<Rightarrow> u8) \<Rightarrow> 'd sys" where
  "boot_sys d hs sc m =
     \<lparr>dev = d, harts = hs, scratch = sc, mem = m,
      last_hartid_having_scratch = SBI_HARTMASK_MAX_BITS,
      hartid_to_scratch_table = replicate SBI_HARTMASK_MAX_BITS None,
      extra_offset = SBI_SCRATCH_EXTRA_SPACE_OFFSET,
      init_count_offset = 0, hart_data_offset = 0, hart_features_offset = 0, ipi_data_off = 0,
      time_delta_off = 0, tlb_sync_off = 0, tlb_fifo_off = 0, tlb_fifo_mem_off = 0,
      tlb_range_flush_limit = 0,
      ipi_ops_array = replicate SBI_IPI_EVENT_MAX None,
      ipi_smode_event = SBI_IPI_EVENT_MAX, ipi_halt_event = SBI_IPI_EVENT_MAX,
      tlb_event = SBI_IPI_EVENT_MAX,
      get_time_val = no_time, console_plat = False, coldboot_done = False,
      coldboot_wait_hmask = \<lparr>bits = [0, 0]\<rparr>, coldboot_lottery = 0,
      ecall_exts_list = [], ecall_impid = 1, expected_trap_hext = False\<rparr>"

text \<open>All-zero objects, used to give concrete inputs.\<close>

definition zero_fifo :: sbi_fifo where
  "zero_fifo = \<lparr>queue = [], entry_size = 0, num_entries = 0, avail = 0, tail = 0\<rparr>"

definition zero_scratch :: sbi_scratch where
  "zero_scratch = \<lparr>fw_start = 0, fw_size = 0, next_arg1 = 0, next_addr = 0, next_mode = 0,
     warmboot_addr = 0, tmp0 = 0, options = 0, extra = (\<lambda>_. 0), tlb_fifo = zero_fifo\<rparr>"

definition zero_hart :: hart where
  "zero_hart = \<lparr>csr = (\<lambda>_. 0), mscratch = 0, fences = [], fpr = (\<lambda>_. 0)\<rparr>"

definition zero_sys :: "unit sys" where
  "zero_sys = boot_sys () (\<lambda>_. zero_hart) (\<lambda>_. zero_scratch) (\<lambda>_. 0)"

text \<open>Two harts, hart \<open>i\<close> with scratch area \<open>i\<close>, and no other allocation made yet.\<close>

definition two_harts :: "unit sys" where
  "two_harts = zero_sys\<lparr>hartid_to_scratch_table := Some 0 # Some 1 # replicate 126 None,
     last_hartid_having_scratch := 1,
     harts := (\<lambda>h. zero_hart\<lparr>mscratch := h\<rparr>),
     scratch := (\<lambda>_. zero_scratch\<lparr>extra := (\<lambda>_. 7)\<rparr>)\<rparr>"

end
