(* ===== verification/Sbi_Platform.thy ===== *)
theory Sbi_Platform
  imports Sbi_Machine
begin

text \<open>
  The platform interface of \<^verbatim>\<open>include/sbi/sbi_platform.h\<close> and \<^verbatim>\<open>lib/sbi/sbi_platform.c\<close>: the
  table of optional platform operations and the wrappers through which the library calls them.

  The operations belong to the platform, not to the library: they are arguments here (fields of
  the configuration), acting on a device state of an arbitrary type. Each receives the id of
  the calling hart first. An operation that may not return answers with an option.
\<close>

section \<open>The platform and the configuration\<close>

record 'd sbi_platform_operations =
  early_init :: "(nat \<Rightarrow> bool \<Rightarrow> 'd \<Rightarrow> int \<times> 'd) option"
  final_init :: "(nat \<Rightarrow> bool \<Rightarrow> 'd \<Rightarrow> int \<times> 'd) option"
  early_exit :: "(nat \<Rightarrow> 'd \<Rightarrow> 'd) option"
  final_exit :: "(nat \<Rightarrow> 'd \<Rightarrow> 'd) option"
  misa_check_extension :: "(nat \<Rightarrow> u8 \<Rightarrow> int) option"
  misa_get_xlen :: "(nat \<Rightarrow> int) option"
  pmp_region_count :: "(nat \<Rightarrow> nat) option"
  pmp_region_info :: "(nat \<Rightarrow> nat \<Rightarrow> int \<times> ulong \<times> ulong \<times> ulong) option"
  console_putc :: "(u8 \<Rightarrow> 'd \<Rightarrow> 'd) option"
  console_getc :: "('d \<Rightarrow> int \<times> 'd) option"
  console_init :: "('d \<Rightarrow> int \<times> 'd) option"
  irqchip_init :: "(nat \<Rightarrow> bool \<Rightarrow> 'd \<Rightarrow> int \<times> 'd) option"
  irqchip_exit :: "(nat \<Rightarrow> 'd \<Rightarrow> 'd) option"
  ipi_send :: "(nat \<Rightarrow> 'd \<Rightarrow> 'd) option"
  ipi_clear :: "(nat \<Rightarrow> 'd \<Rightarrow> 'd) option"
  ipi_init :: "(nat \<Rightarrow> bool \<Rightarrow> 'd \<Rightarrow> int \<times> 'd) option"
  ipi_exit :: "(nat \<Rightarrow> 'd \<Rightarrow> 'd) option"
  get_tlbr_flush_limit :: "u64 option"
  timer_value :: "('d \<Rightarrow> u64) option"
  timer_event_start :: "(nat \<Rightarrow> u64 \<Rightarrow> 'd \<Rightarrow> 'd) option"
  timer_event_stop :: "(nat \<Rightarrow> 'd \<Rightarrow> 'd) option"
  timer_init :: "(nat \<Rightarrow> bool \<Rightarrow> 'd \<Rightarrow> int \<times> 'd) option"
  timer_exit :: "(nat \<Rightarrow> 'd \<Rightarrow> 'd) option"
  hart_start :: "(nat \<Rightarrow> ulong \<Rightarrow> 'd \<Rightarrow> int \<times> 'd) option"
  hart_stop :: "(nat \<Rightarrow> 'd \<Rightarrow> int option \<times> 'd) option"
  system_reset :: "(u32 \<Rightarrow> 'd \<Rightarrow> int option \<times> 'd) option"
  vendor_ext_check :: "(ulong \<Rightarrow> int) option"
  vendor_ext_provider :: "(ulong \<Rightarrow> ulong \<Rightarrow> ulong list \<Rightarrow> ulong \<Rightarrow> sbi_trap_info \<Rightarrow> 'd \<Rightarrow>
    int \<times> ulong \<times> sbi_trap_info \<times> 'd) option"

text \<open>\<open>hart_index2id\<close> is the array of hart ids by index (\<open>None\<close> when the pointer is null).\<close>

record 'd sbi_platform =
  opensbi_version :: u32
  platform_version :: u32
  plat_name :: "u8 list"
  plat_features :: u64
  hart_count :: nat
  hart_stack_size :: nat
  hart_index2id :: "(nat \<Rightarrow> nat) option"
  plat_ops :: "'d sbi_platform_operations"

text \<open>
  \<open>ld_trap\<close> and \<open>st_trap\<close> give the fault of an unprivileged access of the given width, if any;
  \<open>ifetch_trap\<close> that of an unprivileged instruction fetch.
\<close>

record 'd cfg =
  plat :: "'d sbi_platform option"
  hartid_to_scratch :: "nat \<Rightarrow> nat \<Rightarrow> nat option"
  has_csr :: "nat \<Rightarrow> nat \<Rightarrow> bool"
  interf :: "nat \<Rightarrow> 'd sys \<Rightarrow> 'd sys"
  fuel :: nat
  ld_trap :: "nat \<Rightarrow> 'd sys \<Rightarrow> ulong \<Rightarrow> nat \<Rightarrow> sbi_trap_info option"
  st_trap :: "nat \<Rightarrow> 'd sys \<Rightarrow> ulong \<Rightarrow> nat \<Rightarrow> sbi_trap_info option"
  ifetch_trap :: "nat \<Rightarrow> 'd sys \<Rightarrow> ulong \<Rightarrow> nat \<Rightarrow> sbi_trap_info option"

abbreviation (input) SBI_PLATFORM_HAS_TIMER_VALUE :: u64 where "SBI_PLATFORM_HAS_TIMER_VALUE \<equiv> 1"
abbreviation (input) SBI_PLATFORM_HAS_HART_HOTPLUG :: u64 where "SBI_PLATFORM_HAS_HART_HOTPLUG \<equiv> 2"
abbreviation (input) SBI_PLATFORM_HAS_MFAULTS_DELEGATION :: u64 where
  "SBI_PLATFORM_HAS_MFAULTS_DELEGATION \<equiv> 4"
abbreviation (input) SBI_PLATFORM_HAS_HART_SECONDARY_BOOT :: u64 where
  "SBI_PLATFORM_HAS_HART_SECONDARY_BOOT \<equiv> 8"
abbreviation (input) SBI_PLATFORM_TLB_RANGE_FLUSH_LIMIT_DEFAULT :: u64 where
  "SBI_PLATFORM_TLB_RANGE_FLUSH_LIMIT_DEFAULT \<equiv> 0x1000"

text \<open>The operation of the platform, if there is a platform and it has the operation.\<close>

definition plat_op :: "'d cfg \<Rightarrow> ('d sbi_platform_operations \<Rightarrow> 'f option) \<Rightarrow> 'f option" where
  "plat_op c sel = (case plat c of None \<Rightarrow> None | Some p \<Rightarrow> sel (plat_ops p))"

definition dev_run :: "('d \<Rightarrow> 'a \<times> 'd) \<Rightarrow> 'd sys \<Rightarrow> ('d sys, 'a) outcome" where
  "dev_run f s = (case f (dev s) of (x, d) \<Rightarrow> Ret x (s\<lparr>dev := d\<rparr>))"

definition dev_mod :: "('d \<Rightarrow> 'd) \<Rightarrow> 'd sys \<Rightarrow> ('d sys, unit) outcome" where
  "dev_mod f = modM (\<lambda>s. s\<lparr>dev := f (dev s)\<rparr>)"

section \<open>Wrappers\<close>

definition sbi_platform_name :: "'d cfg \<Rightarrow> u8 list" where
  "sbi_platform_name c =
     (case plat c of None \<Rightarrow> map (of_nat \<circ> of_char) ''Unknown'' | Some p \<Rightarrow> plat_name p)"

definition sbi_platform_get_features :: "'d cfg \<Rightarrow> ulong" where
  "sbi_platform_get_features c = (case plat c of None \<Rightarrow> 0 | Some p \<Rightarrow> plat_features p)"

text \<open>
  The feature tests read through the platform pointer without a null check; the callers have a
  platform, and without one the value is 0 here.
\<close>

definition sbi_platform_has_timer_value :: "'d cfg \<Rightarrow> bool" where
  "sbi_platform_has_timer_value c \<longleftrightarrow> sbi_platform_get_features c AND SBI_PLATFORM_HAS_TIMER_VALUE \<noteq> 0"

definition sbi_platform_has_hart_hotplug :: "'d cfg \<Rightarrow> bool" where
  "sbi_platform_has_hart_hotplug c \<longleftrightarrow> sbi_platform_get_features c AND SBI_PLATFORM_HAS_HART_HOTPLUG \<noteq> 0"

definition sbi_platform_has_mfaults_delegation :: "'d cfg \<Rightarrow> bool" where
  "sbi_platform_has_mfaults_delegation c \<longleftrightarrow>
     sbi_platform_get_features c AND SBI_PLATFORM_HAS_MFAULTS_DELEGATION \<noteq> 0"

definition sbi_platform_has_hart_secondary_boot :: "'d cfg \<Rightarrow> bool" where
  "sbi_platform_has_hart_secondary_boot c \<longleftrightarrow>
     sbi_platform_get_features c AND SBI_PLATFORM_HAS_HART_SECONDARY_BOOT \<noteq> 0"

definition sbi_platform_tlbr_flush_limit :: "'d cfg \<Rightarrow> u64" where
  "sbi_platform_tlbr_flush_limit c =
     (case plat_op c get_tlbr_flush_limit of Some v \<Rightarrow> v
      | None \<Rightarrow> SBI_PLATFORM_TLB_RANGE_FLUSH_LIMIT_DEFAULT)"

definition sbi_platform_hart_count :: "'d cfg \<Rightarrow> nat" where
  "sbi_platform_hart_count c = (case plat c of None \<Rightarrow> 0 | Some p \<Rightarrow> hart_count p)"

definition sbi_platform_hart_stack_size :: "'d cfg \<Rightarrow> nat" where
  "sbi_platform_hart_stack_size c = (case plat c of None \<Rightarrow> 0 | Some p \<Rightarrow> hart_stack_size p)"

text \<open>\<open>-1U\<close>, the index of a hart the platform does not have.\<close>

abbreviation (input) no_index :: nat where "no_index \<equiv> 4294967295"

definition sbi_platform_hart_index :: "'d cfg \<Rightarrow> nat \<Rightarrow> nat" where
  "sbi_platform_hart_index c hartid =
     (case plat c of
        None \<Rightarrow> no_index
      | Some p \<Rightarrow>
          (case hart_index2id p of
             Some tab \<Rightarrow>
               (case find (\<lambda>i. tab i = hartid) [0..<hart_count p] of Some i \<Rightarrow> i | None \<Rightarrow> no_index)
           | None \<Rightarrow> hartid))"

definition sbi_platform_hart_invalid :: "'d cfg \<Rightarrow> nat \<Rightarrow> bool" where
  "sbi_platform_hart_invalid c hartid \<longleftrightarrow>
     (case plat c of None \<Rightarrow> True | Some p \<Rightarrow> hart_count p \<le> sbi_platform_hart_index c hartid)"

definition sbi_platform_hart_start :: "'d cfg \<Rightarrow> nat \<Rightarrow> ulong \<Rightarrow> 'd sys \<Rightarrow> ('d sys, int) outcome" where
  "sbi_platform_hart_start c hartid saddr =
     (case plat_op c hart_start of None \<Rightarrow> retM SBI_ENOTSUPP | Some f \<Rightarrow> dev_run (f hartid saddr))"

definition sbi_platform_hart_stop :: "'d cfg \<Rightarrow> nat \<Rightarrow> 'd sys \<Rightarrow> ('d sys, int) outcome" where
  "sbi_platform_hart_stop c h =
     (case plat_op c hart_stop of
        None \<Rightarrow> retM SBI_ENOTSUPP
      | Some f \<Rightarrow> bindM (dev_run (f h)) (\<lambda>r. case r of None \<Rightarrow> haltM Stopped | Some v \<Rightarrow> retM v))"

text \<open>Operations that return a code, default 0, and those that return nothing.\<close>

definition plat_init_op :: "'d cfg \<Rightarrow> ('d sbi_platform_operations \<Rightarrow> (nat \<Rightarrow> bool \<Rightarrow> 'd \<Rightarrow> int \<times> 'd) option) \<Rightarrow>
    nat \<Rightarrow> bool \<Rightarrow> 'd sys \<Rightarrow> ('d sys, int) outcome" where
  "plat_init_op c sel h cold_boot =
     (case plat_op c sel of None \<Rightarrow> retM 0 | Some f \<Rightarrow> dev_run (f h cold_boot))"

definition plat_void_op :: "'d cfg \<Rightarrow> ('d sbi_platform_operations \<Rightarrow> ('x \<Rightarrow> 'd \<Rightarrow> 'd) option) \<Rightarrow> 'x \<Rightarrow>
    'd sys \<Rightarrow> ('d sys, unit) outcome" where
  "plat_void_op c sel x = (case plat_op c sel of None \<Rightarrow> retM () | Some f \<Rightarrow> dev_mod (f x))"

definition sbi_platform_early_init where "sbi_platform_early_init c = plat_init_op c early_init"
definition sbi_platform_final_init where "sbi_platform_final_init c = plat_init_op c final_init"
definition sbi_platform_early_exit where "sbi_platform_early_exit c = plat_void_op c early_exit"
definition sbi_platform_final_exit where "sbi_platform_final_exit c = plat_void_op c final_exit"
definition sbi_platform_irqchip_init where "sbi_platform_irqchip_init c = plat_init_op c irqchip_init"
definition sbi_platform_irqchip_exit where "sbi_platform_irqchip_exit c = plat_void_op c irqchip_exit"
definition sbi_platform_ipi_send where "sbi_platform_ipi_send c = plat_void_op c ipi_send"
definition sbi_platform_ipi_clear where "sbi_platform_ipi_clear c = plat_void_op c ipi_clear"
definition sbi_platform_ipi_init where "sbi_platform_ipi_init c = plat_init_op c ipi_init"
definition sbi_platform_ipi_exit where "sbi_platform_ipi_exit c = plat_void_op c ipi_exit"
definition sbi_platform_timer_event_stop where
  "sbi_platform_timer_event_stop c = plat_void_op c timer_event_stop"
definition sbi_platform_timer_init where "sbi_platform_timer_init c = plat_init_op c timer_init"
definition sbi_platform_timer_exit where "sbi_platform_timer_exit c = plat_void_op c timer_exit"
definition sbi_platform_console_putc where "sbi_platform_console_putc c = plat_void_op c console_putc"

definition sbi_platform_timer_event_start :: "'d cfg \<Rightarrow> nat \<Rightarrow> u64 \<Rightarrow> 'd sys \<Rightarrow> ('d sys, unit) outcome" where
  "sbi_platform_timer_event_start c h next_event =
     (case plat_op c timer_event_start of None \<Rightarrow> retM () | Some f \<Rightarrow> dev_mod (f h next_event))"

definition sbi_platform_misa_extension :: "'d cfg \<Rightarrow> nat \<Rightarrow> u8 \<Rightarrow> int" where
  "sbi_platform_misa_extension c h ext =
     (case plat_op c misa_check_extension of None \<Rightarrow> 0 | Some f \<Rightarrow> f h ext)"

definition sbi_platform_misa_xlen :: "'d cfg \<Rightarrow> nat \<Rightarrow> int" where
  "sbi_platform_misa_xlen c h = (case plat_op c misa_get_xlen of None \<Rightarrow> - 1 | Some f \<Rightarrow> f h)"

definition sbi_platform_pmp_region_count :: "'d cfg \<Rightarrow> nat \<Rightarrow> nat" where
  "sbi_platform_pmp_region_count c hartid =
     (case plat_op c pmp_region_count of None \<Rightarrow> 0 | Some f \<Rightarrow> f hartid)"

text \<open>Without the operation the outputs are not written: \<open>None\<close>.\<close>

definition sbi_platform_pmp_region_info :: "'d cfg \<Rightarrow> nat \<Rightarrow> nat \<Rightarrow> int \<times> (ulong \<times> ulong \<times> ulong) option" where
  "sbi_platform_pmp_region_info c hartid index =
     (case plat_op c pmp_region_info of
        None \<Rightarrow> (0, None) | Some f \<Rightarrow> (case f hartid index of (r, info) \<Rightarrow> (r, Some info)))"

definition sbi_platform_console_getc :: "'d cfg \<Rightarrow> 'd sys \<Rightarrow> ('d sys, int) outcome" where
  "sbi_platform_console_getc c = (case plat_op c console_getc of None \<Rightarrow> retM (- 1) | Some f \<Rightarrow> dev_run f)"

definition sbi_platform_console_init :: "'d cfg \<Rightarrow> 'd sys \<Rightarrow> ('d sys, int) outcome" where
  "sbi_platform_console_init c = (case plat_op c console_init of None \<Rightarrow> retM 0 | Some f \<Rightarrow> dev_run f)"

definition sbi_platform_timer_value :: "'d cfg \<Rightarrow> 'd sys \<Rightarrow> ('d sys, u64) outcome" where
  "sbi_platform_timer_value c =
     (case plat_op c timer_value of None \<Rightarrow> retM 0 | Some f \<Rightarrow> getM (\<lambda>s. f (dev s)))"

definition sbi_platform_system_reset :: "'d cfg \<Rightarrow> u32 \<Rightarrow> 'd sys \<Rightarrow> ('d sys, int) outcome" where
  "sbi_platform_system_reset c reset_type =
     (case plat_op c system_reset of
        None \<Rightarrow> retM 0
      | Some f \<Rightarrow> bindM (dev_run (f reset_type)) (\<lambda>r. case r of None \<Rightarrow> haltM Stopped | Some v \<Rightarrow> retM v))"

definition sbi_platform_vendor_ext_check :: "'d cfg \<Rightarrow> ulong \<Rightarrow> int" where
  "sbi_platform_vendor_ext_check c extid =
     (case plat_op c vendor_ext_check of None \<Rightarrow> 0 | Some f \<Rightarrow> f extid)"

definition sbi_platform_vendor_ext_provider :: "'d cfg \<Rightarrow> ulong \<Rightarrow> ulong \<Rightarrow> ulong list \<Rightarrow> ulong \<Rightarrow>
    sbi_trap_info \<Rightarrow> 'd sys \<Rightarrow> ('d sys, int \<times> ulong \<times> sbi_trap_info) outcome" where
  "sbi_platform_vendor_ext_provider c extid funcid args out_value out_trap =
     (case plat_op c vendor_ext_provider of
        None \<Rightarrow> retM (SBI_ENOTSUPP, out_value, out_trap)
      | Some f \<Rightarrow> dev_run (\<lambda>d. case f extid funcid args out_value out_trap d of
                                 (r, v, t, d') \<Rightarrow> ((r, v, t), d')))"

section \<open>Hart indices\<close>

lemma hart_index_valid:
  assumes "\<not> sbi_platform_hart_invalid c hartid"
  shows "\<exists>p. plat c = Some p \<and> sbi_platform_hart_index c hartid < hart_count p \<and>
    (case hart_index2id p of None \<Rightarrow> sbi_platform_hart_index c hartid = hartid
     | Some tab \<Rightarrow> tab (sbi_platform_hart_index c hartid) = hartid \<or>
         sbi_platform_hart_index c hartid = no_index)"
  using assms
  by (auto simp: sbi_platform_hart_invalid_def sbi_platform_hart_index_def find_Some_iff find_None_iff
      split: option.splits)

text \<open>Two valid harts never share an index (so never a scratch area chosen by index).\<close>

lemma hart_index_inj:
  assumes "\<not> sbi_platform_hart_invalid c i" "\<not> sbi_platform_hart_invalid c j"
    "sbi_platform_hart_index c i = sbi_platform_hart_index c j" "sbi_platform_hart_index c i \<noteq> no_index"
  shows "i = j"
  using hart_index_valid [OF assms(1)] hart_index_valid [OF assms(2)] assms(3,4)
  by (auto split: option.splits)

section \<open>Platform operations only change the device\<close>

definition dev_rel :: "'d sys \<Rightarrow> 'd sys \<Rightarrow> bool" where
  "dev_rel s s' \<longleftrightarrow> (\<exists>d. s' = s\<lparr>dev := d\<rparr>)"

interpretation devf: frame dev_rel
proof
  show "dev_rel s s" for s :: "'a sys" by (auto simp: dev_rel_def intro: exI [of _ "dev s"])
qed (auto simp: dev_rel_def)

lemma dev_rel_upd [simp, intro]: "dev_rel s (s\<lparr>dev := d\<rparr>)"
  by (auto simp: dev_rel_def)

lemma keeps_dev_run: "devf.keeps (dev_run f)"
  by (auto simp: devf.keeps_def dev_run_def split: prod.splits)

lemma keeps_dev_mod: "devf.keeps (dev_mod f)"
  unfolding dev_mod_def by (rule devf.keeps_mod) simp

lemma keeps_plat_init_op: "devf.keeps (plat_init_op c sel h b)"
  unfolding plat_init_op_def by (intro devf.keeps_rules keeps_dev_run)

lemma keeps_plat_void_op: "devf.keeps (plat_void_op c sel x)"
  unfolding plat_void_op_def by (intro devf.keeps_rules keeps_dev_mod)

lemmas plat_wrapper_defs = sbi_platform_early_init_def sbi_platform_final_init_def
  sbi_platform_early_exit_def sbi_platform_final_exit_def sbi_platform_irqchip_init_def
  sbi_platform_irqchip_exit_def sbi_platform_ipi_send_def sbi_platform_ipi_clear_def
  sbi_platform_ipi_init_def sbi_platform_ipi_exit_def sbi_platform_timer_event_stop_def
  sbi_platform_timer_init_def sbi_platform_timer_exit_def sbi_platform_console_putc_def

text \<open>Operations without a result always return.\<close>

definition plat_void_eff :: "'d cfg \<Rightarrow> ('d sbi_platform_operations \<Rightarrow> ('x \<Rightarrow> 'd \<Rightarrow> 'd) option) \<Rightarrow> 'x \<Rightarrow> 'd \<Rightarrow> 'd" where
  "plat_void_eff c sel x = (case plat_op c sel of None \<Rightarrow> id | Some f \<Rightarrow> f x)"

lemma run_plat_void_op [run_simps]:
  "plat_void_op c sel x s = Ret () (s\<lparr>dev := plat_void_eff c sel x (dev s)\<rparr>)"
  by (simp add: plat_void_op_def plat_void_eff_def dev_mod_def run_simps split: option.splits)

text \<open>
  A configuration without platform operations, for concrete inputs: all CSRs exist, no access
  faults, other harts do nothing.
\<close>

definition bare_cfg :: "unit cfg" where
  "bare_cfg = \<lparr>plat = None, hartid_to_scratch = (\<lambda>_ _. None), has_csr = (\<lambda>_ _. True), interf = (\<lambda>_ s. s),
     fuel = 8, ld_trap = (\<lambda>_ _ _ _. None), st_trap = (\<lambda>_ _ _ _. None), ifetch_trap = (\<lambda>_ _ _ _. None)\<rparr>"

end
