(* ===== verification/Sbi_Scratch.thy ===== *)
theory Sbi_Scratch
  imports Sbi_Platform
begin

text \<open>
  CSR access (\<^verbatim>\<open>include/sbi/riscv_asm.h\<close>), atomic operations on words of a scratch area
  (\<^verbatim>\<open>lib/sbi/riscv_atomic.c\<close>), and the scratch table and allocator
  (\<^verbatim>\<open>include/sbi/sbi_scratch.h\<close>, \<^verbatim>\<open>lib/sbi/sbi_scratch.c\<close>).

  A pointer to a scratch area is the number of the area; \<open>sbi_scratch_offset_ptr\<close> is the pair of
  that number and an offset. The locale \<open>bump_allocator\<close> states what users of the extra space
  rely on: allocations succeed or leave the state alone, stay inside the area and never
  overlap.
\<close>

section \<open>CSR access\<close>

definition upd_hart :: "nat \<Rightarrow> (hart \<Rightarrow> hart) \<Rightarrow> 'd sys \<Rightarrow> 'd sys" where
  "upd_hart h f s = s\<lparr>harts := (harts s)(h := f (harts s h))\<rparr>"

definition csr_read :: "nat \<Rightarrow> nat \<Rightarrow> 'd sys \<Rightarrow> ('d sys, ulong) outcome" where
  "csr_read h n = getM (\<lambda>s. csr (harts s h) n)"

definition csr_write :: "nat \<Rightarrow> nat \<Rightarrow> ulong \<Rightarrow> 'd sys \<Rightarrow> ('d sys, unit) outcome" where
  "csr_write h n v = modM (upd_hart h (\<lambda>t. t\<lparr>csr := (csr t)(n := v)\<rparr>))"

definition csr_set :: "nat \<Rightarrow> nat \<Rightarrow> ulong \<Rightarrow> 'd sys \<Rightarrow> ('d sys, unit) outcome" where
  "csr_set h n v = bindM (csr_read h n) (\<lambda>old. csr_write h n (old OR v))"

definition csr_clear :: "nat \<Rightarrow> nat \<Rightarrow> ulong \<Rightarrow> 'd sys \<Rightarrow> ('d sys, unit) outcome" where
  "csr_clear h n v = bindM (csr_read h n) (\<lambda>old. csr_write h n (old AND NOT v))"

definition csr_swap :: "nat \<Rightarrow> nat \<Rightarrow> ulong \<Rightarrow> 'd sys \<Rightarrow> ('d sys, ulong) outcome" where
  "csr_swap h n v = bindM (csr_read h n) (\<lambda>old. seqM (csr_write h n v) (retM old))"

text \<open>
  Accesses under the expected-trap handler: \<open>None\<close> when the CSR does not exist (the handler
  stores a non-zero cause), otherwise the value read.
\<close>

definition csr_read_allowed :: "'d cfg \<Rightarrow> nat \<Rightarrow> nat \<Rightarrow> 'd sys \<Rightarrow> ('d sys, ulong option) outcome" where
  "csr_read_allowed c h n = getM (\<lambda>s. if has_csr c h n then Some (csr (harts s h) n) else None)"

definition csr_write_allowed :: "'d cfg \<Rightarrow> nat \<Rightarrow> nat \<Rightarrow> ulong \<Rightarrow> 'd sys \<Rightarrow> ('d sys, unit option) outcome" where
  "csr_write_allowed c h n v =
     (if has_csr c h n then seqM (csr_write h n v) (retM (Some ())) else retM None)"

section \<open>Scratch areas\<close>

definition upd_scratch :: "nat \<Rightarrow> (sbi_scratch \<Rightarrow> sbi_scratch) \<Rightarrow> 'd sys \<Rightarrow> 'd sys" where
  "upd_scratch sc f s = s\<lparr>scratch := (scratch s)(sc := f (scratch s sc))\<rparr>"

definition scratch_rd :: "nat \<Rightarrow> ulong \<Rightarrow> 'd sys \<Rightarrow> ulong" where
  "scratch_rd sc off s = extra (scratch s sc) (unat off)"

definition scratch_wr :: "nat \<Rightarrow> ulong \<Rightarrow> ulong \<Rightarrow> 'd sys \<Rightarrow> 'd sys" where
  "scratch_wr sc off v = upd_scratch sc (\<lambda>t. t\<lparr>extra := (extra t)(unat off := v)\<rparr>)"

definition sbi_scratch_thishart_ptr :: "nat \<Rightarrow> 'd sys \<Rightarrow> ('d sys, nat) outcome" where
  "sbi_scratch_thishart_ptr h = getM (\<lambda>s. mscratch (harts s h))"

definition sbi_hartid_to_scratch :: "nat \<Rightarrow> 'd sys \<Rightarrow> ('d sys, nat option) outcome" where
  "sbi_hartid_to_scratch hartid = bindM (getM (\<lambda>s. rd (hartid_to_scratch_table s) hartid)) liftO"

definition sbi_scratch_last_hartid :: "'d sys \<Rightarrow> ('d sys, nat) outcome" where
  "sbi_scratch_last_hartid = getM last_hartid_having_scratch"

definition sbi_scratch_init :: "'d cfg \<Rightarrow> 'd sys \<Rightarrow> ('d sys, int) outcome" where
  "sbi_scratch_init c =
     seqM
       (forM [0..<SBI_HARTMASK_MAX_BITS] (\<lambda>i.
          if sbi_platform_hart_invalid c i then retM ()
          else
            (let p = hartid_to_scratch c i (sbi_platform_hart_index c i) in
             seqM (bindM (getM (\<lambda>s. wr (hartid_to_scratch_table s) i p)) (\<lambda>t.
                   bindM (liftO t) (\<lambda>tab. modM (\<lambda>s. s\<lparr>hartid_to_scratch_table := tab\<rparr>))))
               (whenM (p \<noteq> None) (modM (\<lambda>s. s\<lparr>last_hartid_having_scratch := i\<rparr>))))))
       (retM 0)"

text \<open>Clearing the bytes of an allocation in one area.\<close>

definition zero_extra :: "nat \<Rightarrow> nat \<Rightarrow> sbi_scratch \<Rightarrow> sbi_scratch" where
  "zero_extra off sz t = t\<lparr>extra := (\<lambda>a. if off \<le> a \<and> a < off + sz then 0 else extra t a)\<rparr>"

definition round_up_ptr :: "ulong \<Rightarrow> ulong" where
  "round_up_ptr sz = (if sz AND 7 \<noteq> 0 then (sz AND NOT 7) + 8 else sz)"

definition sbi_scratch_alloc_offset :: "ulong \<Rightarrow> 'd sys \<Rightarrow> ('d sys, ulong) outcome" where
  "sbi_scratch_alloc_offset sz =
     (if sz = 0 then retM 0
      else
        (let sz = round_up_ptr sz in
         bindM (getM extra_offset) (\<lambda>off.
           if SBI_SCRATCH_SIZE < off + sz then retM 0
           else
             seqM (modM (\<lambda>s. s\<lparr>extra_offset := off + sz\<rparr>))
               (if off \<noteq> 0 then
                  bindM sbi_scratch_last_hartid (\<lambda>last.
                  seqM
                    (forM [0..<last] (\<lambda>i.
                       bindM (sbi_hartid_to_scratch i) (\<lambda>r.
                         case r of None \<Rightarrow> retM ()
                         | Some sc \<Rightarrow> modM (upd_scratch sc (zero_extra (unat off) (unat sz))))))
                    (retM off))
                else retM off))))"

definition sbi_scratch_free_offset :: "ulong \<Rightarrow> 'd sys \<Rightarrow> ('d sys, unit) outcome" where
  "sbi_scratch_free_offset offset =
     (if offset < SBI_SCRATCH_EXTRA_SPACE_OFFSET \<or> SBI_SCRATCH_SIZE \<le> offset then retM () else retM ())"

section \<open>Atomic operations on scratch words\<close>

definition atomic_read :: "nat \<Rightarrow> ulong \<Rightarrow> 'd sys \<Rightarrow> ('d sys, ulong) outcome" where
  "atomic_read sc off = getM (scratch_rd sc off)"

definition atomic_write :: "nat \<Rightarrow> ulong \<Rightarrow> ulong \<Rightarrow> 'd sys \<Rightarrow> ('d sys, unit) outcome" where
  "atomic_write sc off v = modM (scratch_wr sc off v)"

text \<open>The \<^verbatim>\<open>amoadd.w\<close> of the two counters acts on the low half of the word.\<close>

definition amoadd_w :: "nat \<Rightarrow> ulong \<Rightarrow> ulong \<Rightarrow> 'd sys \<Rightarrow> ('d sys, ulong) outcome" where
  "amoadd_w sc off v =
     bindM (getM (scratch_rd sc off)) (\<lambda>old.
       (let low = (ucast old :: u32) in
        seqM (modM (scratch_wr sc off ((old AND NOT 0xffffffff) OR ucast (low + ucast v))))
          (retM (scast low))))"

definition atomic_add_return :: "nat \<Rightarrow> ulong \<Rightarrow> ulong \<Rightarrow> 'd sys \<Rightarrow> ('d sys, ulong) outcome" where
  "atomic_add_return sc off v = bindM (amoadd_w sc off v) (\<lambda>r. retM (r + v))"

definition atomic_sub_return :: "nat \<Rightarrow> ulong \<Rightarrow> ulong \<Rightarrow> 'd sys \<Rightarrow> ('d sys, ulong) outcome" where
  "atomic_sub_return sc off v = bindM (amoadd_w sc off (- v)) (\<lambda>r. retM (r - v))"

definition atomic_cmpxchg :: "nat \<Rightarrow> ulong \<Rightarrow> ulong \<Rightarrow> ulong \<Rightarrow> 'd sys \<Rightarrow> ('d sys, ulong) outcome" where
  "atomic_cmpxchg sc off oldval newval =
     bindM (getM (scratch_rd sc off)) (\<lambda>old.
       seqM (whenM (old = oldval) (modM (scratch_wr sc off newval))) (retM old))"

definition atomic_raw_xchg_ulong :: "nat \<Rightarrow> ulong \<Rightarrow> ulong \<Rightarrow> 'd sys \<Rightarrow> ('d sys, ulong) outcome" where
  "atomic_raw_xchg_ulong sc off newval =
     bindM (getM (scratch_rd sc off)) (\<lambda>old. seqM (modM (scratch_wr sc off newval)) (retM old))"

definition atomic_raw_set_bit :: "nat \<Rightarrow> nat \<Rightarrow> ulong \<Rightarrow> 'd sys \<Rightarrow> ('d sys, unit) outcome" where
  "atomic_raw_set_bit nr sc off =
     (let off = off + of_nat (8 * BIT_WORD nr) in
      modM (\<lambda>s. scratch_wr sc off (scratch_rd sc off s OR BIT_MASK nr) s))"

definition atomic_raw_clear_bit :: "nat \<Rightarrow> nat \<Rightarrow> ulong \<Rightarrow> 'd sys \<Rightarrow> ('d sys, unit) outcome" where
  "atomic_raw_clear_bit nr sc off =
     (let off = off + of_nat (8 * BIT_WORD nr) in
      modM (\<lambda>s. scratch_wr sc off (scratch_rd sc off s AND NOT (BIT_MASK nr)) s))"

section \<open>Running the accessors\<close>

lemmas csr_defs = csr_read_def csr_write_def csr_set_def csr_clear_def csr_swap_def
  csr_read_allowed_def csr_write_allowed_def

lemmas atomic_defs = atomic_read_def atomic_write_def atomic_cmpxchg_def atomic_raw_xchg_ulong_def
  atomic_raw_set_bit_def atomic_raw_clear_bit_def

lemma upd_hart_simps [simp]:
  "harts (upd_hart h f s) h' = (if h' = h then f (harts s h) else harts s h')"
  "scratch (upd_hart h f s) = scratch s" "dev (upd_hart h f s) = dev s"
  "hartid_to_scratch_table (upd_hart h f s) = hartid_to_scratch_table s"
  "last_hartid_having_scratch (upd_hart h f s) = last_hartid_having_scratch s"
  by (simp_all add: upd_hart_def)

lemma upd_scratch_simps [simp]:
  "scratch (upd_scratch sc f s) sc' = (if sc' = sc then f (scratch s sc) else scratch s sc')"
  "harts (upd_scratch sc f s) = harts s" "dev (upd_scratch sc f s) = dev s"
  "hartid_to_scratch_table (upd_scratch sc f s) = hartid_to_scratch_table s"
  "last_hartid_having_scratch (upd_scratch sc f s) = last_hartid_having_scratch s"
  "extra_offset (upd_scratch sc f s) = extra_offset s"
  by (simp_all add: upd_scratch_def)

lemma scratch_rd_wr:
  "scratch_rd sc off (scratch_wr sc' off' v s) =
    (if sc = sc' \<and> off = off' then v else scratch_rd sc off s)"
  by (auto simp: scratch_rd_def scratch_wr_def word_unat_eq_iff)

lemma scratch_wr_simps [simp]:
  "harts (scratch_wr sc off v s) = harts s" "dev (scratch_wr sc off v s) = dev s"
  "hartid_to_scratch_table (scratch_wr sc off v s) = hartid_to_scratch_table s"
  "last_hartid_having_scratch (scratch_wr sc off v s) = last_hartid_having_scratch s"
  by (simp_all add: scratch_wr_def)

lemma run_hartid_to_scratch [run_simps]:
  "sbi_hartid_to_scratch i s =
    (if i < length (hartid_to_scratch_table s) then Ret (hartid_to_scratch_table s ! i) s
     else Halt BadAccess s)"
  by (simp add: sbi_hartid_to_scratch_def run_simps rd_def)

lemma run_last_hartid [run_simps]: "sbi_scratch_last_hartid s = Ret (last_hartid_having_scratch s) s"
  by (simp add: sbi_scratch_last_hartid_def run_simps)

lemma run_thishart_ptr [run_simps]: "sbi_scratch_thishart_ptr h s = Ret (mscratch (harts s h)) s"
  by (simp add: sbi_scratch_thishart_ptr_def run_simps)

text \<open>A loop whose body never stops is the fold of the states it reaches.\<close>

lemma forM_fold:
  assumes "\<And>x s. x \<in> set xs \<Longrightarrow> I s \<Longrightarrow> f x s = Ret () (g x s) \<and> I (g x s)" "I s"
  shows "forM xs f s = Ret () (fold g xs s) \<and> I (fold g xs s)"
  using assms
proof (induction xs arbitrary: s)
  case Nil
  then show ?case by (simp add: run_simps)
next
  case (Cons x xs)
  then show ?case by (simp add: run_simps)
qed

section \<open>The allocator\<close>

locale bump_allocator =
  fixes inv :: "'s \<Rightarrow> bool"
    and top :: "'s \<Rightarrow> nat"
    and lo :: nat
    and hi :: nat
    and alloc :: "ulong \<Rightarrow> 's \<Rightarrow> ('s, ulong) outcome"
  assumes alloc_law: "inv s \<Longrightarrow> unat sz \<le> hi \<Longrightarrow> \<exists>r s'. alloc sz s = Ret r s' \<and> inv s' \<and>
      (r = 0 \<and> top s' = top s \<or> unat r = top s \<and> top s + unat sz \<le> top s')"
    and lo_pos: "0 < lo"
    and range: "inv s \<Longrightarrow> lo \<le> top s \<and> top s \<le> hi"
begin

primrec allocs :: "ulong list \<Rightarrow> 's \<Rightarrow> ('s, ulong list) outcome" where
  "allocs [] s = Ret [] s"
| "allocs (x # xs) s =
     (case alloc x s of
        Ret r s' \<Rightarrow> (case allocs xs s' of Ret rs s'' \<Rightarrow> Ret (r # rs) s'' | Halt e s'' \<Rightarrow> Halt e s'')
      | Halt e s' \<Rightarrow> Halt e s')"

text \<open>Successful allocations lie in the area, one after the other.\<close>

lemma allocs_apart:
  assumes "inv s" "\<forall>x\<in>set xs. unat x \<le> hi"
  shows "\<exists>rs s'. allocs xs s = Ret rs s' \<and> inv s' \<and> top s \<le> top s' \<and> length rs = length xs \<and>
    (\<forall>i<length xs. rs ! i \<noteq> 0 \<longrightarrow> top s \<le> unat (rs ! i) \<and> unat (rs ! i) + unat (xs ! i) \<le> top s') \<and>
    (\<forall>i j. i < j \<longrightarrow> j < length xs \<longrightarrow> rs ! i \<noteq> 0 \<longrightarrow> rs ! j \<noteq> 0 \<longrightarrow>
      unat (rs ! i) + unat (xs ! i) \<le> unat (rs ! j))"
  using assms
proof (induction xs arbitrary: s)
  case Nil
  then show ?case by simp
next
  case (Cons x xs)
  obtain r s' where a: "alloc x s = Ret r s'" "inv s'" "top s \<le> top s'"
    and r: "r \<noteq> 0 \<longrightarrow> top s \<le> unat r \<and> unat r + unat x \<le> top s'"
    using alloc_law [OF Cons.prems(1), of x] Cons.prems(2) by auto
  obtain rs s'' where b: "allocs xs s' = Ret rs s''" "inv s''" "top s' \<le> top s''" "length rs = length xs"
    and in1: "\<forall>i<length xs. rs ! i \<noteq> 0 \<longrightarrow> top s' \<le> unat (rs ! i) \<and> unat (rs ! i) + unat (xs ! i) \<le> top s''"
    and ap: "\<forall>i j. i < j \<longrightarrow> j < length xs \<longrightarrow> rs ! i \<noteq> 0 \<longrightarrow> rs ! j \<noteq> 0 \<longrightarrow>
      unat (rs ! i) + unat (xs ! i) \<le> unat (rs ! j)"
    using Cons.IH [OF a(2)] Cons.prems(2) by auto
  have "(r # rs) ! i \<noteq> 0 \<longrightarrow> top s \<le> unat ((r # rs) ! i) \<and> unat ((r # rs) ! i) + unat ((x # xs) ! i) \<le> top s''"
    if "i < length (x # xs)" for i
    using that in1 r a(3) b(3) by (cases i) force+
  moreover have "unat ((r # rs) ! i) + unat ((x # xs) ! i) \<le> unat ((r # rs) ! j)"
    if "i < j" "j < length (x # xs)" "(r # rs) ! i \<noteq> 0" "(r # rs) ! j \<noteq> 0" for i j
    using that in1 r ap by (cases i; cases j) force+
  ultimately show ?case using a b by auto
qed

end

definition alloc_inv :: "'d sys \<Rightarrow> bool" where
  "alloc_inv s \<longleftrightarrow> 80 \<le> unat (extra_offset s) \<and> unat (extra_offset s) \<le> 4096 \<and> 8 dvd unat (extra_offset s) \<and>
     length (hartid_to_scratch_table s) = SBI_HARTMASK_MAX_BITS \<and>
     last_hartid_having_scratch s \<le> SBI_HARTMASK_MAX_BITS"

lemma unat_and_mask: "unat (w AND mask k) = unat (w :: ulong) mod 2 ^ k"
  using unsigned_take_bit_eq [of k w, where ?'a = nat] by (simp add: take_bit_eq_mask [symmetric]) (simp add: take_bit_eq_mod)

lemma and_plus_and_not: "(a AND m) + (a AND NOT m) = (a :: ulong)"
  by (subst disjunctive_add) (auto simp: bit_arith intro!: bit_word_eqI)

lemma round_up_ptr_correct:
  assumes "unat sz \<le> 4096"
  shows "unat (round_up_ptr sz) = (unat sz + 7) div 8 * 8"
proof -
  have m: "(7 :: ulong) = mask 3" by (simp add: mask_eq_exp_minus_1)
  have low: "unat (sz AND 7) = unat sz mod 8" unfolding m unat_and_mask by simp
  have "sz AND NOT 7 = sz - (sz AND 7)" by (metis add_diff_cancel_left' and_plus_and_not)
  moreover have "sz AND 7 \<le> sz" by (simp add: word_and_le2)
  ultimately have high: "unat (sz AND NOT 7) = unat sz - unat sz mod 8" using low by (simp add: unat_sub)
  then have up: "unat ((sz AND NOT 7) + 8) = unat sz - unat sz mod 8 + 8"
    using assms by (subst unat_add_lem [THEN iffD1]) auto
  have z: "sz AND 7 = 0 \<longleftrightarrow> unat sz mod 8 = 0" using low by (simp add: unat_eq_0 [symmetric])
  have "unat (round_up_ptr sz) = (if unat sz mod 8 = 0 then unat sz else unat sz - unat sz mod 8 + 8)"
    using up z by (auto simp: round_up_ptr_def)
  moreover define q r where "q = unat sz div 8" and "r = unat sz mod 8"
  then have "unat sz = 8 * q + r" "r < 8" by simp_all
  moreover from this have "(r + 7) div 8 = (if r = 0 then 0 else 1)" by auto
  moreover have "(8 * q + r + 7) div 8 = q + (r + 7) div 8"
    using div_mult_self4 [of 8 q "r + 7"] by (simp add: ac_simps)
  ultimately show ?thesis by (cases "r = 0") auto
qed

definition zero_step :: "nat \<Rightarrow> nat \<Rightarrow> nat \<Rightarrow> 'd sys \<Rightarrow> 'd sys" where
  "zero_step off sz i s =
     (case hartid_to_scratch_table s ! i of None \<Rightarrow> s | Some sc \<Rightarrow> upd_scratch sc (zero_extra off sz) s)"

lemma zero_step_simps [simp]:
  "hartid_to_scratch_table (zero_step off sz i s) = hartid_to_scratch_table s"
  "last_hartid_having_scratch (zero_step off sz i s) = last_hartid_having_scratch s"
  "extra_offset (zero_step off sz i s) = extra_offset s" "harts (zero_step off sz i s) = harts s"
  by (simp_all add: zero_step_def split: option.splits)

lemma zero_steps_simps [simp]:
  "hartid_to_scratch_table (fold (zero_step off sz) xs s) = hartid_to_scratch_table s"
  "last_hartid_having_scratch (fold (zero_step off sz) xs s) = last_hartid_having_scratch s"
  "extra_offset (fold (zero_step off sz) xs s) = extra_offset s"
  "harts (fold (zero_step off sz) xs s) = harts s"
  by (induction xs arbitrary: s) simp_all

text \<open>A word is cleared in the areas of the harts visited, and nowhere else.\<close>

lemma zero_steps_extra:
  "extra (scratch (fold (zero_step off sz) xs s) sc) a =
    (if off \<le> a \<and> a < off + sz \<and> (\<exists>i\<in>set xs. hartid_to_scratch_table s ! i = Some sc) then 0
     else extra (scratch s sc) a)"
  by (induction xs arbitrary: s) (auto simp: zero_step_def zero_extra_def split: option.splits)

lemma alloc_offset_run:
  assumes "alloc_inv s" "unat sz \<le> 4096"
  defines "n \<equiv> (unat sz + 7) div 8 * 8"
  shows "sbi_scratch_alloc_offset sz s =
    (if sz = 0 \<or> 4096 < unat (extra_offset s) + n then Ret 0 s
     else Ret (extra_offset s) (fold (zero_step (unat (extra_offset s)) n) [0..<last_hartid_having_scratch s]
                    (s\<lparr>extra_offset := extra_offset s + of_nat n\<rparr>)))"
proof -
  have r: "unat (round_up_ptr sz) = n" using round_up_ptr_correct [OF assms(2)] by (simp add: n_def)
  have n: "n \<le> 4096 + 7" using assms(2) by (simp add: n_def)
  have s: "unat (extra_offset s + round_up_ptr sz) = unat (extra_offset s) + n"
    using assms(1) n r by (subst unat_add_lem [THEN iffD1]) (auto simp: alloc_inv_def)
  have z: "extra_offset s \<noteq> 0" using assms(1) by (auto simp: alloc_inv_def)
  have w: "round_up_ptr sz = of_nat n" by (simp flip: r)
  then have u: "unat (of_nat n :: ulong) = n" using r by simp
  let ?s = "s\<lparr>extra_offset := extra_offset s + of_nat n\<rparr>"
  let ?f = "\<lambda>i. bindM (sbi_hartid_to_scratch i) (\<lambda>r. case r of None \<Rightarrow> retM ()
      | Some sc \<Rightarrow> modM (upd_scratch sc (zero_extra (unat (extra_offset s)) n)))"
  have "forM [0..<last_hartid_having_scratch s] ?f ?s =
      Ret () (fold (zero_step (unat (extra_offset s)) n) [0..<last_hartid_having_scratch s] ?s) \<and>
      length (hartid_to_scratch_table (fold (zero_step (unat (extra_offset s)) n) [0..<last_hartid_having_scratch s] ?s)) = 128"
    using assms(1)
    by (intro forM_fold [where I = "\<lambda>s. length (hartid_to_scratch_table s) = 128"])
      (auto simp: run_simps zero_step_def alloc_inv_def split: option.splits)
  then show ?thesis
    using s z by (simp add: sbi_scratch_alloc_offset_def Let_def run_simps word_less_nat_alt w u)
qed

lemma alloc_inv_step:
  assumes "alloc_inv s" "unat (extra_offset s) + n \<le> 4096" "8 dvd n"
  shows "alloc_inv (s\<lparr>extra_offset := extra_offset s + of_nat n\<rparr>) \<and>
    unat (extra_offset s + of_nat n) = unat (extra_offset s) + n"
proof -
  have "unat (extra_offset s + of_nat n) = unat (extra_offset s) + n"
    using assms(2) by (simp add: unat_word_ariths unat_of_nat)
  then show ?thesis using assms by (simp add: alloc_inv_def)
qed

lemma alloc_inv_zero_steps [simp]: "alloc_inv (fold (zero_step off sz) xs s) = alloc_inv s"
  by (simp add: alloc_inv_def)

interpretation scratch_alloc: bump_allocator alloc_inv "\<lambda>s. unat (extra_offset s)" 80 4096 sbi_scratch_alloc_offset
proof
  fix s :: "'a sys" and sz :: ulong
  assume *: "alloc_inv s" "unat sz \<le> 4096"
  let ?n = "(unat sz + 7) div 8 * 8"
  have n: "unat sz \<le> ?n" by presburger
  show "\<exists>r s'. sbi_scratch_alloc_offset sz s = Ret r s' \<and> alloc_inv s' \<and>
      (r = 0 \<and> unat (extra_offset s') = unat (extra_offset s) \<or>
       unat r = unat (extra_offset s) \<and> unat (extra_offset s) + unat sz \<le> unat (extra_offset s'))"
    using alloc_offset_run [OF *] alloc_inv_step [OF *(1), of ?n] n *(1) by auto
qed (auto simp: alloc_inv_def)

section \<open>The scratch table\<close>

definition hart_scratch :: "'d cfg \<Rightarrow> nat \<Rightarrow> nat option" where
  "hart_scratch c i =
     (if sbi_platform_hart_invalid c i then None else hartid_to_scratch c i (sbi_platform_hart_index c i))"

definition init_step :: "'d cfg \<Rightarrow> nat \<Rightarrow> 'd sys \<Rightarrow> 'd sys" where
  "init_step c i s =
     (if sbi_platform_hart_invalid c i then s
      else s\<lparr>hartid_to_scratch_table := (hartid_to_scratch_table s)[i := hart_scratch c i],
             last_hartid_having_scratch :=
               (if hart_scratch c i \<noteq> None then i else last_hartid_having_scratch s)\<rparr>)"

lemma init_steps_table:
  assumes "length (hartid_to_scratch_table s) = SBI_HARTMASK_MAX_BITS" "n \<le> SBI_HARTMASK_MAX_BITS"
  shows "length (hartid_to_scratch_table (fold (init_step c) [0..<n] s)) = SBI_HARTMASK_MAX_BITS \<and>
    (\<forall>i<SBI_HARTMASK_MAX_BITS. hartid_to_scratch_table (fold (init_step c) [0..<n] s) ! i =
      (if i < n \<and> \<not> sbi_platform_hart_invalid c i then hart_scratch c i else hartid_to_scratch_table s ! i))"
  using assms
  by (induction n) (auto simp: init_step_def nth_list_update less_Suc_eq)

lemma init_steps_last:
  "last_hartid_having_scratch (fold (init_step c) [0..<n] s) =
    last_in (\<lambda>i. hart_scratch c i \<noteq> None) n (last_hartid_having_scratch s)"
  by (induction n) (auto simp: init_step_def last_in_def hart_scratch_def)

lemma scratch_init_run:
  assumes "length (hartid_to_scratch_table s) = SBI_HARTMASK_MAX_BITS"
  shows "sbi_scratch_init c s = Ret 0 (fold (init_step c) [0..<SBI_HARTMASK_MAX_BITS] s)"
proof -
  let ?f = "\<lambda>i. if sbi_platform_hart_invalid c i then retM ()
     else (let p = hartid_to_scratch c i (sbi_platform_hart_index c i) in
             seqM (bindM (getM (\<lambda>s. wr (hartid_to_scratch_table s) i p)) (\<lambda>t.
                   bindM (liftO t) (\<lambda>tab. modM (\<lambda>s. s\<lparr>hartid_to_scratch_table := tab\<rparr>))))
               (whenM (p \<noteq> None) (modM (\<lambda>s. s\<lparr>last_hartid_having_scratch := i\<rparr>))))"
  have "forM [0..<SBI_HARTMASK_MAX_BITS] ?f s = Ret () (fold (init_step c) [0..<SBI_HARTMASK_MAX_BITS] s) \<and>
      length (hartid_to_scratch_table (fold (init_step c) [0..<SBI_HARTMASK_MAX_BITS] s)) = SBI_HARTMASK_MAX_BITS"
    using assms
    by (intro forM_fold [where I = "\<lambda>s. length (hartid_to_scratch_table s) = SBI_HARTMASK_MAX_BITS"])
      (auto simp: run_simps init_step_def hart_scratch_def Let_def)
  then show ?thesis by (simp add: sbi_scratch_init_def run_simps)
qed

lemma last_in_greatest:
  assumes "P k" "k < n"
  shows "P (last_in P n d) \<and> last_in P n d < n \<and> (\<forall>i<n. P i \<longrightarrow> i \<le> last_in P n d)"
  using assms
proof (induction n)
  case (Suc n)
  then show ?case by (cases "P n") (auto simp: last_in_def less_Suc_eq)
qed simp

text \<open>
  The shape of the table that the rest of the library relies on: every hart id up to the last
  one with a scratch area is in range, no id beyond it has an area, and areas are not shared.
\<close>

definition scratch_wf :: "'d sys \<Rightarrow> bool" where
  "scratch_wf s \<longleftrightarrow> length (hartid_to_scratch_table s) = SBI_HARTMASK_MAX_BITS \<and>
     last_hartid_having_scratch s < SBI_HARTMASK_MAX_BITS \<and>
     (\<forall>i<SBI_HARTMASK_MAX_BITS. hartid_to_scratch_table s ! i \<noteq> None \<longrightarrow> i \<le> last_hartid_having_scratch s) \<and>
     (\<forall>i<SBI_HARTMASK_MAX_BITS. \<forall>j<SBI_HARTMASK_MAX_BITS. \<forall>sc. hartid_to_scratch_table s ! i = Some sc \<longrightarrow>
        hartid_to_scratch_table s ! j = Some sc \<longrightarrow> i = j)"

lemma scratch_wfD:
  assumes "scratch_wf s"
  shows "length (hartid_to_scratch_table s) = SBI_HARTMASK_MAX_BITS"
    "last_hartid_having_scratch s < SBI_HARTMASK_MAX_BITS"
    "i < SBI_HARTMASK_MAX_BITS \<Longrightarrow> hartid_to_scratch_table s ! i = Some sc \<Longrightarrow> i \<le> last_hartid_having_scratch s"
    "i < SBI_HARTMASK_MAX_BITS \<Longrightarrow> j < SBI_HARTMASK_MAX_BITS \<Longrightarrow> hartid_to_scratch_table s ! i = Some sc \<Longrightarrow>
       hartid_to_scratch_table s ! j = Some sc \<Longrightarrow> i = j"
  using assms by (auto simp: scratch_wf_def)

section \<open>Properties\<close>

text \<open>
  C21: the scratch allocator. Whatever sizes (of at most a page) are requested one after the
  other, every allocation that is not refused lies wholly behind the header and inside the
  4 KiB area, and no two of them overlap; the request never reads outside the hart table.
\<close>

theorem scratch_allocations_disjoint:
  assumes "alloc_inv s" "\<forall>x\<in>set szs. unat x \<le> 4096"
  shows "\<exists>offs s'. scratch_alloc.allocs szs s = Ret offs s' \<and> length offs = length szs \<and>
    (\<forall>i<length szs. offs ! i \<noteq> 0 \<longrightarrow> 80 \<le> unat (offs ! i) \<and> unat (offs ! i) + unat (szs ! i) \<le> 4096) \<and>
    (\<forall>i j. i < j \<longrightarrow> j < length szs \<longrightarrow> offs ! i \<noteq> 0 \<longrightarrow> offs ! j \<noteq> 0 \<longrightarrow>
      unat (offs ! i) + unat (szs ! i) \<le> unat (offs ! j))"
proof -
  obtain offs s' where r: "scratch_alloc.allocs szs s = Ret offs s'" "alloc_inv s'" "length offs = length szs"
    and b: "\<forall>i<length szs. offs ! i \<noteq> 0 \<longrightarrow> unat (extra_offset s) \<le> unat (offs ! i) \<and>
      unat (offs ! i) + unat (szs ! i) \<le> unat (extra_offset s')"
    and d: "\<forall>i j. i < j \<longrightarrow> j < length szs \<longrightarrow> offs ! i \<noteq> 0 \<longrightarrow> offs ! j \<noteq> 0 \<longrightarrow>
      unat (offs ! i) + unat (szs ! i) \<le> unat (offs ! j)"
    using scratch_alloc.allocs_apart [OF assms] by blast
  have "80 \<le> unat (extra_offset s)" "unat (extra_offset s') \<le> 4096"
    using scratch_alloc.range [OF assms(1)] scratch_alloc.range [OF r(2)] by auto
  with b have "\<forall>i<length szs. offs ! i \<noteq> 0 \<longrightarrow> 80 \<le> unat (offs ! i) \<and> unat (offs ! i) + unat (szs ! i) \<le> 4096"
    by (meson order_trans)
  with r d show ?thesis by blast
qed

theorem scratch_allocations_disjoint_witness:
  "\<exists>offs s'. scratch_alloc.allocs [8, 12, 24] (zero_sys\<lparr>last_hartid_having_scratch := 0\<rparr>) = Ret offs s' \<and> offs = [80, 88, 104] \<and>
    (\<forall>i<3. 80 \<le> unat (offs ! i) \<and> unat (offs ! i) + unat ([8 :: ulong, 12, 24] ! i) \<le> 4096) \<and>
    unat (offs ! 0) + 8 \<le> unat (offs ! 1) \<and> unat (offs ! 1) + 12 \<le> unat (offs ! 2)"
proof -
  let ?z = "zero_sys\<lparr>last_hartid_having_scratch := 0\<rparr>"
  have z: "alloc_inv ?z" "extra_offset ?z = 80"
    by (simp_all add: alloc_inv_def zero_sys_def boot_sys_def)
  then have i: "alloc_inv (?z\<lparr>extra_offset := 88\<rparr>)" "alloc_inv (?z\<lparr>extra_offset := 104\<rparr>)" by (simp_all add: alloc_inv_def)
  have "scratch_alloc.allocs [8, 12, 24] ?z = Ret [80, 88, 104] (?z\<lparr>extra_offset := 128\<rparr>)"
    using alloc_offset_run [OF z(1), of 8] alloc_offset_run [OF i(1), of 12] alloc_offset_run [OF i(2), of 24] z(2) by simp
  moreover have "\<forall>i<3. [80, 88, 104] ! i \<noteq> (0 :: ulong)" by (simp add: nth_Cons')
  moreover have "\<forall>x\<in>set [8, 12, 24 :: ulong]. unat x \<le> 4096" by simp
  ultimately show ?thesis using scratch_allocations_disjoint [OF z(1), of "[8, 12, 24]"] by (auto simp: numeral_3_eq_3)
qed

text \<open>
  An allocation clears its bytes in the scratch areas of the harts with an id strictly below
  \<open>sbi_scratch_last_hartid()\<close> only. The area of the last hart keeps its old contents, although
  every hart up to and including it can use the allocation.
\<close>

lemma scratch_alloc_skips_last_hart:
  assumes "alloc_inv s" "unat sz \<le> 4096" "scratch_wf s"
    "sbi_scratch_alloc_offset sz s = Ret off s'" "off \<noteq> 0"
    "hartid_to_scratch_table s ! i = Some sc" "i < SBI_HARTMASK_MAX_BITS"
    "unat off \<le> a" "a < unat off + unat sz"
  shows "extra (scratch s' sc) a = (if i < last_hartid_having_scratch s then 0 else extra (scratch s sc) a)"
proof -
  have "unat sz \<le> (unat sz + 7) div 8 * 8" by presburger
  then have a: "a < unat off + (unat sz + 7) div 8 * 8" using assms(9) by linarith
  have i: "hartid_to_scratch_table s ! j = Some sc \<longleftrightarrow> j = i" if "j < last_hartid_having_scratch s" for j
    using that scratch_wfD [OF assms(3)] assms(6,7) by (metis less_trans)
  show ?thesis
    using alloc_offset_run [OF assms(1,2)] assms(4,5,8) a i by (auto simp: zero_steps_extra split: if_splits)
qed

lemma two_harts_table:
  "length (hartid_to_scratch_table two_harts) = 128"
  "i < 128 \<Longrightarrow> hartid_to_scratch_table two_harts ! i = (if i < 2 then Some i else None)"
  by (auto simp: two_harts_def nth_Cons' less_Suc_eq)

lemma two_harts_wf: "alloc_inv two_harts \<and> scratch_wf two_harts"
  by (auto simp: alloc_inv_def scratch_wf_def two_harts_table split: if_splits)
    (auto simp: two_harts_def zero_sys_def boot_sys_def)

end
