(* ===== verification/Sbi_Console.thy ===== *)
theory Sbi_Console
  imports Sbi_Scratch
begin

text \<open>
  The console and the formatted output of \<^verbatim>\<open>lib/sbi/sbi_console.c\<close>.

  \<open>print\<close> writes through \<open>printc\<close>, either to the console or into a caller's buffer; both targets are
  computations on characters, and \<open>print\<close> takes the one for a character as argument. A format
  string is the list of its characters without the terminator (reading at its end gives the
  terminator). The variable arguments are the list of argument slots left: a word, or a
  pointer to a string; taking one that is not there, or of the wrong kind, is a bad access.
\<close>

section \<open>Characters and arguments\<close>

definition cs :: "string \<Rightarrow> u8 list" where
  "cs t = map (\<lambda>x. of_nat (of_char x)) t"

abbreviation (input) ch :: "char \<Rightarrow> u8" where "ch x \<equiv> of_nat (of_char x)"

datatype va = Vword ulong | Vstr "u8 list option"

definition at_end :: "u8 list \<Rightarrow> u8" where
  "at_end fmt = (case fmt of [] \<Rightarrow> 0 | x # _ \<Rightarrow> x)"

definition va_word :: "va list \<Rightarrow> (ulong \<times> va list) option" where
  "va_word args = (case args of Vword w # rest \<Rightarrow> Some (w, rest) | _ \<Rightarrow> None)"

definition va_str :: "va list \<Rightarrow> (u8 list option \<times> va list) option" where
  "va_str args = (case args of Vstr t # rest \<Rightarrow> Some (t, rest) | _ \<Rightarrow> None)"

text \<open>\<^verbatim>\<open>va_arg(args, int)\<close> widened to \<^verbatim>\<open>long long\<close>, and \<^verbatim>\<open>va_arg(args, unsigned int)\<close>.\<close>

definition as_int :: "ulong \<Rightarrow> ulong" where
  "as_int w = scast (ucast w :: 32 word)"

definition as_uint :: "ulong \<Rightarrow> ulong" where
  "as_uint w = ucast (ucast w :: 32 word)"

section \<open>Formatting\<close>

abbreviation (input) PAD_RIGHT :: nat where "PAD_RIGHT \<equiv> 1"
abbreviation (input) PAD_ZERO :: nat where "PAD_ZERO \<equiv> 2"
abbreviation (input) PAD_ALTERNATE :: nat where "PAD_ALTERNATE \<equiv> 4"
abbreviation (input) PRINT_BUF_LEN :: nat where "PRINT_BUF_LEN \<equiv> 64"

type_synonym 's sink = "u8 \<Rightarrow> 's \<Rightarrow> ('s, unit) outcome"

definition prints :: "'s sink \<Rightarrow> u8 list \<Rightarrow> nat \<Rightarrow> nat \<Rightarrow> 's \<Rightarrow> ('s, nat) outcome" where
  "prints printc str width flags =
     (let padchar = (if 0 < width \<and> flags AND PAD_ZERO \<noteq> 0 then ch CHR ''0'' else ch CHR '' '');
          width = (if length str \<ge> width then 0 else width - length str);
          left = (if flags AND PAD_RIGHT = 0 then width else 0);
          right = width - left
      in seqM (forM (replicate left padchar @ str @ replicate right padchar) printc)
           (retM (left + length str + right)))"

lemma digits_less: "u \<noteq> 0 \<Longrightarrow> \<not> b < 2 \<Longrightarrow> unat (of_nat (unat (u :: ulong) div b) :: ulong) < unat u"
proof -
  assume "u \<noteq> 0" "\<not> b < 2"
  then have "unat u div b < unat u" by (simp add: unat_gt_0)
  then show ?thesis using unat64 [of u] by (simp add: unat_of_nat)
qed

text \<open>
  The digits of \<open>u\<close> in base \<open>b\<close>, put in front of what the buffer already holds. The callers pass
  the bases 10 and 16; for other bases below 2 the C loop would not end.
\<close>

function print_digits :: "nat \<Rightarrow> u8 \<Rightarrow> ulong \<Rightarrow> u8 list \<Rightarrow> u8 list" where
  "print_digits b letbase u buf =
     (if u = 0 \<or> b < 2 then buf
      else
        (let t = unat u mod b; u = of_nat (unat u div b);
             d = (if 10 \<le> t then of_nat t + letbase - ch CHR ''0'' - 10 else of_nat t)
         in print_digits b letbase u ((d + ch CHR ''0'') # buf)))"
  by pat_completeness auto
termination
  by (relation "measure (\<lambda>(b, letbase, u, buf). unat u)") (auto intro: digits_less)

declare print_digits.simps [simp del]

definition printi :: "'s sink \<Rightarrow> ulong \<Rightarrow> nat \<Rightarrow> bool \<Rightarrow> nat \<Rightarrow> nat \<Rightarrow> u8 \<Rightarrow> 's \<Rightarrow> ('s, nat) outcome" where
  "printi printc i b sg width flags letbase =
     (let neg = (sg \<and> b = 10 \<and> sint i < 0);
          u = (if neg then - i else i);
          s = (if u = 0 then [ch CHR ''0''] else print_digits b letbase u []);
          s = (if flags AND PAD_ALTERNATE \<noteq> 0 then
                 ch CHR ''0'' #
                   ((if b = 16 \<and> letbase = ch CHR ''A'' then [ch CHR ''X'']
                     else if b = 16 \<and> letbase = ch CHR ''a'' then [ch CHR ''x''] else []) @ s)
               else s)
      in if neg then
           if width \<noteq> 0 \<and> flags AND PAD_ZERO \<noteq> 0 then
             seqM (printc (ch CHR ''-''))
               (bindM (prints printc s (width - 1) flags) (\<lambda>n. retM (1 + n)))
           else prints printc (ch CHR ''-'' # s) width flags
         else prints printc s width flags)"

text \<open>Flags and width of a conversion: \<open>-\<close>, \<open>#\<close>, zeros, then decimal digits.\<close>

fun skip_zeros :: "u8 list \<Rightarrow> nat \<Rightarrow> u8 list \<times> nat" where
  "skip_zeros [] flags = ([], flags)"
| "skip_zeros (x # xs) flags = (if x = ch CHR ''0'' then skip_zeros xs (flags OR PAD_ZERO) else (x # xs, flags))"

fun read_width :: "u8 list \<Rightarrow> nat \<Rightarrow> u8 list \<times> nat" where
  "read_width [] width = ([], width)"
| "read_width (x # xs) width =
     (if ch CHR ''0'' \<le> x \<and> x \<le> ch CHR ''9'' then read_width xs (width * 10 + unat (x - ch CHR ''0''))
      else (x # xs, width))"

definition read_flags :: "u8 list \<Rightarrow> u8 list \<times> nat \<times> nat" where
  "read_flags fmt =
     (let (fmt, flags) = (if at_end fmt = ch CHR ''-'' then (tl fmt, PAD_RIGHT) else (fmt, 0));
          (fmt, flags) = (if at_end fmt = ch CHR ''#'' then (tl fmt, flags OR PAD_ALTERNATE) else (fmt, flags));
          (fmt, flags) = skip_zeros fmt flags;
          (fmt, width) = read_width fmt 0
      in (fmt, flags, width))"

text \<open>
  Before a \<^verbatim>\<open>long long\<close> the code discards \<^verbatim>\<open>int\<close> arguments until the byte count \<open>acnt\<close> is a
  multiple of 8.
\<close>

function skip_ints :: "nat \<Rightarrow> va list \<Rightarrow> (nat \<times> va list) option" where
  "skip_ints acnt args =
     (if acnt mod 8 \<noteq> 0 then
        (case va_word args of None \<Rightarrow> None | Some (_, rest) \<Rightarrow> skip_ints (acnt + 4) rest)
      else Some (acnt, args))"
  by pat_completeness auto
termination
  by (relation "measure (\<lambda>(acnt, args). length args)")
    (auto simp: va_word_def split: list.splits va.splits)

declare skip_ints.simps [simp del]

text \<open>
  One conversion, at its specifier: the computation that prints it, the format from the
  character the loop increment then skips, the arguments and the byte count left.
\<close>

definition conv_int :: "'s sink \<Rightarrow> (ulong \<Rightarrow> ulong) \<Rightarrow> nat \<Rightarrow> bool \<Rightarrow> u8 \<Rightarrow> nat \<Rightarrow> nat \<Rightarrow> nat \<Rightarrow> va list \<Rightarrow> nat \<Rightarrow>
    's \<Rightarrow> ('s, nat \<times> va list \<times> nat) outcome" where
  "conv_int printc cast b sg letbase width flags bytes args acnt =
     bindM (liftO (va_word args)) (\<lambda>(w, rest).
       bindM (printi printc (cast w) b sg width flags letbase) (\<lambda>n. retM (n, rest, acnt + bytes)))"

definition conv_ll :: "'s sink \<Rightarrow> u8 list \<Rightarrow> nat \<Rightarrow> nat \<Rightarrow> va list \<Rightarrow> nat \<Rightarrow>
    's \<Rightarrow> ('s, nat \<times> u8 list \<times> va list \<times> nat) outcome" where
  "conv_ll printc fmt width flags args acnt =
     bindM (liftO (skip_ints acnt args)) (\<lambda>(acnt, args).
       bindM (liftO (va_word args)) (\<lambda>(tmp, args).
         (let c2 = at_end (drop 2 fmt); acnt = acnt + 8 in
          if c2 = ch CHR ''u'' then
            bindM (printi printc tmp 10 False width flags (ch CHR ''a'')) (\<lambda>n. retM (n, drop 2 fmt, args, acnt))
          else if c2 = ch CHR ''x'' then
            bindM (printi printc tmp 16 False width flags (ch CHR ''a'')) (\<lambda>n. retM (n, drop 2 fmt, args, acnt))
          else if c2 = ch CHR ''X'' then
            bindM (printi printc tmp 16 False width flags (ch CHR ''A'')) (\<lambda>n. retM (n, drop 2 fmt, args, acnt))
          else
            bindM (printi printc tmp 10 True width flags (ch CHR ''0'')) (\<lambda>n. retM (n, drop 1 fmt, args, acnt)))))"

definition conv_l :: "'s sink \<Rightarrow> u8 list \<Rightarrow> nat \<Rightarrow> nat \<Rightarrow> va list \<Rightarrow> nat \<Rightarrow>
    's \<Rightarrow> ('s, nat \<times> u8 list \<times> va list \<times> nat) outcome" where
  "conv_l printc fmt width flags args acnt =
     (let c1 = at_end (drop 1 fmt) in
      if c1 = ch CHR ''u'' then
        bindM (conv_int printc id 10 False (ch CHR ''a'') width flags 0 args acnt)
          (\<lambda>(n, args, acnt). retM (n, drop 1 fmt, args, acnt))
      else if c1 = ch CHR ''x'' then
        bindM (conv_int printc id 16 False (ch CHR ''a'') width flags 8 args acnt)
          (\<lambda>(n, args, acnt). retM (n, drop 1 fmt, args, acnt))
      else if c1 = ch CHR ''X'' then
        bindM (conv_int printc id 16 False (ch CHR ''A'') width flags 8 args acnt)
          (\<lambda>(n, args, acnt). retM (n, drop 1 fmt, args, acnt))
      else
        bindM (conv_int printc id 10 True (ch CHR ''0'') width flags 8 args acnt)
          (\<lambda>(n, args, acnt). retM (n, fmt, args, acnt)))"

definition conversion :: "'s sink \<Rightarrow> u8 list \<Rightarrow> nat \<Rightarrow> nat \<Rightarrow> va list \<Rightarrow> nat \<Rightarrow>
    's \<Rightarrow> ('s, nat \<times> u8 list \<times> va list \<times> nat) outcome" where
  "conversion printc fmt width flags args acnt =
     (let c0 = at_end fmt;
          keep = (\<lambda>m. bindM m (\<lambda>(n, args, acnt). retM (n, fmt, args, acnt))) in
      if c0 = ch CHR ''s'' then
        bindM (liftO (va_str args)) (\<lambda>(t, rest).
          bindM (prints printc (case t of None \<Rightarrow> cs ''(null)'' | Some x \<Rightarrow> x) width flags) (\<lambda>n.
            retM (n, fmt, rest, acnt + 8)))
      else if c0 = ch CHR ''d'' \<or> c0 = ch CHR ''i'' then
        keep (conv_int printc as_int 10 True (ch CHR ''0'') width flags 4 args acnt)
      else if c0 = ch CHR ''x'' then
        keep (conv_int printc as_uint 16 False (ch CHR ''a'') width flags 4 args acnt)
      else if c0 = ch CHR ''X'' then
        keep (conv_int printc as_uint 16 False (ch CHR ''A'') width flags 4 args acnt)
      else if c0 = ch CHR ''u'' then
        keep (conv_int printc as_uint 10 False (ch CHR ''a'') width flags 4 args acnt)
      else if c0 = ch CHR ''p'' then
        keep (conv_int printc id 16 False (ch CHR ''a'') width flags 8 args acnt)
      else if c0 = ch CHR ''P'' then
        keep (conv_int printc id 16 False (ch CHR ''A'') width flags 8 args acnt)
      else if c0 = ch CHR ''l'' \<and> at_end (drop 1 fmt) = ch CHR ''l'' then
        conv_ll printc fmt width flags args acnt
      else
        bindM (if c0 = ch CHR ''l'' then conv_l printc fmt width flags args acnt
               else retM (0, fmt, args, acnt)) (\<lambda>(n, fmt, args, acnt).
          if at_end fmt = ch CHR ''c'' then
            bindM (liftO (va_word args)) (\<lambda>(w, rest).
              bindM (prints printc (if ucast w = (0 :: u8) then [] else [ucast w]) width flags) (\<lambda>k.
                retM (n + k, fmt, rest, acnt + 4)))
          else retM (n, fmt, args, acnt)))"

text \<open>A conversion leaves a suffix of the format, so the format loop ends.\<close>

lemma skip_zeros_length: "skip_zeros fmt flags = (rest, flags') \<Longrightarrow> length rest \<le> length fmt"
  by (induction fmt flags rule: skip_zeros.induct) (auto split: if_splits)

lemma read_width_length: "read_width fmt w = (rest, w') \<Longrightarrow> length rest \<le> length fmt"
  by (induction fmt w rule: read_width.induct) (auto split: if_splits)

lemma read_flags_length: "read_flags fmt = (spec, flags, width) \<Longrightarrow> length spec \<le> length fmt"
  by (auto simp: read_flags_def Let_def split: prod.splits if_splits
      dest!: skip_zeros_length read_width_length)

lemma conv_l_length:
  "conv_l printc fmt width flags args acnt s = Ret (n, rest, r) s' \<Longrightarrow> length rest \<le> length fmt"
  by (auto simp: conv_l_def Let_def run_simps split: outcome.splits if_splits prod.splits)

lemma conv_ll_length:
  "conv_ll printc fmt width flags args acnt s = Ret (n, rest, r) s' \<Longrightarrow> length rest \<le> length fmt"
  by (auto simp: conv_ll_def Let_def run_simps split: outcome.splits if_splits prod.splits option.splits)

lemma conversion_length:
  "conversion printc fmt width flags args acnt s = Ret (n, rest, r) s' \<Longrightarrow> length rest \<le> length fmt"
  unfolding conversion_def Let_def
  by (auto simp: run_simps split: outcome.splits if_splits prod.splits option.splits
      dest!: conv_l_length conv_ll_length)

text \<open>
  The format loop. A conversion cut off by the end of the format makes the loop step over the
  terminator and read on behind the string.
\<close>

function print_loop :: "'s sink \<Rightarrow> u8 list \<Rightarrow> va list \<Rightarrow> nat \<Rightarrow> nat \<Rightarrow> 's \<Rightarrow> ('s, nat) outcome" where
  "print_loop printc [] args acnt pc s = Ret pc s"
| "print_loop printc (x # fmt) args acnt pc s =
     (if x = ch CHR ''%'' then
        (case fmt of
           [] \<Rightarrow> Ret pc s
         | y # fmt' \<Rightarrow>
             if y = ch CHR ''%'' then
               (case printc y s of Halt r s' \<Rightarrow> Halt r s'
                | Ret _ s' \<Rightarrow> print_loop printc fmt' args acnt (pc + 1) s')
             else
               (case read_flags fmt of (spec, flags, width) \<Rightarrow>
                  (case conversion printc spec width flags args acnt s of Halt r s' \<Rightarrow> Halt r s'
                   | Ret (n, rest, args', acnt') s' \<Rightarrow>
                       (case rest of [] \<Rightarrow> Halt BadAccess s'
                        | _ # rest' \<Rightarrow> print_loop printc rest' args' acnt' (pc + n) s'))))
      else
        (case printc x s of Halt r s' \<Rightarrow> Halt r s'
         | Ret _ s' \<Rightarrow> print_loop printc fmt args acnt (pc + 1) s'))"
  by pat_completeness auto
termination
  by (relation "measure (\<lambda>(printc, fmt, args, acnt, pc, s). length fmt)")
    (auto dest!: read_flags_length [OF sym] conversion_length)

declare print_loop.simps [simp del]

definition print :: "'s sink \<Rightarrow> ('s \<Rightarrow> ('s, unit) outcome) \<Rightarrow> u8 list \<Rightarrow> va list \<Rightarrow> 's \<Rightarrow> ('s, nat) outcome" where
  "print printc fin fmt args = bindM (print_loop printc fmt args 0 0) (\<lambda>n. seqM fin (retM n))"

section \<open>Targets\<close>

text \<open>A buffer with the write position and, for \<open>sbi_snprintf\<close>, the remaining length.\<close>

record outbuf =
  ob_buf :: "u8 list"
  ob_pos :: nat
  ob_len :: "nat option"

definition printc_buf :: "outbuf sink" where
  "printc_buf c b =
     (case wr (ob_buf b) (ob_pos b) c of
        None \<Rightarrow> Halt BadAccess b
      | Some buf \<Rightarrow>
          Ret () (b\<lparr>ob_buf := buf, ob_pos := ob_pos b + 1,
                    ob_len := (case ob_len b of Some n \<Rightarrow> Some (if 0 < n then n - 1 else n) | None \<Rightarrow> None)\<rparr>))"

definition fin_buf :: "outbuf \<Rightarrow> (outbuf, unit) outcome" where
  "fin_buf b =
     (case wr (ob_buf b) (ob_pos b) 0 of None \<Rightarrow> Halt BadAccess b | Some buf \<Rightarrow> Ret () (b\<lparr>ob_buf := buf\<rparr>))"

definition sbi_sprintf :: "u8 list \<Rightarrow> nat \<Rightarrow> u8 list \<Rightarrow> va list \<Rightarrow> (outbuf, nat) outcome" where
  "sbi_sprintf out pos fmt args =
     print printc_buf fin_buf fmt args \<lparr>ob_buf = out, ob_pos = pos, ob_len = None\<rparr>"

definition sbi_snprintf :: "u8 list \<Rightarrow> nat \<Rightarrow> nat \<Rightarrow> u8 list \<Rightarrow> va list \<Rightarrow> (outbuf, nat) outcome" where
  "sbi_snprintf out pos out_sz fmt args =
     print printc_buf fin_buf fmt args \<lparr>ob_buf = out, ob_pos = pos, ob_len = Some out_sz\<rparr>"

section \<open>The console\<close>

definition sbi_isprintable :: "u8 \<Rightarrow> bool" where
  "sbi_isprintable c \<longleftrightarrow> 31 < c \<and> c < 127 \<or> c = 12 \<or> c = 13 \<or> c = 10 \<or> c = 9"

definition sbi_getc :: "'d cfg \<Rightarrow> 'd sys \<Rightarrow> ('d sys, int) outcome" where
  "sbi_getc c = bindM (getM console_plat) (\<lambda>b. if b then sbi_platform_console_getc c else retM (- 1))"

definition con_putc :: "'d cfg \<Rightarrow> u8 \<Rightarrow> 'd sys \<Rightarrow> ('d sys, unit) outcome" where
  "con_putc c x = bindM (getM console_plat) (\<lambda>b. whenM b (sbi_platform_console_putc c x))"

definition sbi_putc :: "'d cfg \<Rightarrow> u8 \<Rightarrow> 'd sys \<Rightarrow> ('d sys, unit) outcome" where
  "sbi_putc c x = seqM (whenM (x = 10) (con_putc c 13)) (con_putc c x)"

definition sbi_puts :: "'d cfg \<Rightarrow> u8 list \<Rightarrow> 'd sys \<Rightarrow> ('d sys, unit) outcome" where
  "sbi_puts c str = forM str (sbi_putc c)"

text \<open>The characters \<open>sbi_gets\<close> stores before the terminator.\<close>

fun gets_loop :: "'d cfg \<Rightarrow> nat \<Rightarrow> int \<Rightarrow> u8 list \<Rightarrow> 'd sys \<Rightarrow> ('d sys, u8 list) outcome" where
  "gets_loop c n endchar acc s =
     (case sbi_getc c s of
        Halt r s' \<Rightarrow> Halt r s'
      | Ret x s' \<Rightarrow>
          (case n of
             Suc n' \<Rightarrow>
               if x \<noteq> endchar \<and> 0 \<le> x then gets_loop c n' endchar (acc @ [of_int x]) s' else Ret acc s'
           | 0 \<Rightarrow> Ret acc s'))"

definition sbi_gets :: "'d cfg \<Rightarrow> int \<Rightarrow> u8 \<Rightarrow> 'd sys \<Rightarrow> ('d sys, u8 list) outcome" where
  "sbi_gets c maxwidth endchar =
     bindM (gets_loop c (nat (maxwidth - 1)) (uint endchar) []) (\<lambda>t. retM (t @ [0]))"

definition sbi_printf :: "'d cfg \<Rightarrow> u8 list \<Rightarrow> va list \<Rightarrow> 'd sys \<Rightarrow> ('d sys, nat) outcome" where
  "sbi_printf c fmt args = print (sbi_putc c) (retM ()) fmt args"

definition sbi_dprintf :: "'d cfg \<Rightarrow> nat \<Rightarrow> u8 list \<Rightarrow> va list \<Rightarrow> 'd sys \<Rightarrow> ('d sys, nat) outcome" where
  "sbi_dprintf c h fmt args =
     bindM (sbi_scratch_thishart_ptr h) (\<lambda>sc.
       bindM (getM (\<lambda>s. options (scratch s sc))) (\<lambda>opts.
         if opts AND SBI_SCRATCH_DEBUG_PRINTS \<noteq> 0 then print (sbi_putc c) (retM ()) fmt args else retM 0))"

definition sbi_console_init :: "'d cfg \<Rightarrow> 'd sys \<Rightarrow> ('d sys, int) outcome" where
  "sbi_console_init c = seqM (modM (\<lambda>s. s\<lparr>console_plat := (plat c \<noteq> None)\<rparr>)) (sbi_platform_console_init c)"

section \<open>Formatting does not depend on the target\<close>

text \<open>
  When the characters written to one target act like those written to another, seen through
  \<open>view\<close>, whole format strings do.
\<close>

locale sink_hom =
  fixes view :: "'s \<Rightarrow> 't"
    and printc1 :: "'s sink"
    and printc2 :: "'t sink"
  assumes printc_hom: "printc2 x (view s) = map_outcome view id (printc1 x s)"
begin

definition hom :: "('s \<Rightarrow> ('s, 'a) outcome) \<Rightarrow> ('t \<Rightarrow> ('t, 'a) outcome) \<Rightarrow> bool" where
  "hom m n \<longleftrightarrow> (\<forall>s. n (view s) = map_outcome view id (m s))"

lemma hom_printc: "hom (printc1 x) (printc2 x)"
  by (simp add: hom_def printc_hom)

lemma hom_ret: "hom (retM x) (retM x)"
  by (simp add: hom_def run_simps)

lemma hom_lift: "hom (liftO x) (liftO x)"
  by (simp add: hom_def run_simps split: option.splits)

lemma hom_bind:
  assumes "hom m n" "\<And>x. hom (f x) (g x)"
  shows "hom (bindM m f) (bindM n g)"
  using assms unfolding hom_def by (auto simp: run_simps split: outcome.splits)

lemma hom_seq: "hom m n \<Longrightarrow> hom m' n' \<Longrightarrow> hom (seqM m m') (seqM n n')"
  unfolding seqM_def by (rule hom_bind)

lemma hom_forM: "(\<And>x. hom (f x) (g x)) \<Longrightarrow> hom (forM xs f) (forM xs g)"
  by (induction xs) (auto intro: hom_ret hom_seq)

lemma hom_if: "hom m n \<Longrightarrow> hom m' n' \<Longrightarrow> hom (if b then m else m') (if b then n else n')"
  by simp

lemma hom_prod: "(\<And>x y. hom (f x y) (g x y)) \<Longrightarrow> hom (case p of (x, y) \<Rightarrow> f x y) (case p of (x, y) \<Rightarrow> g x y)"
  by (simp split: prod.splits)

lemmas hom_rules = hom_printc hom_ret hom_lift hom_bind hom_seq hom_forM hom_if hom_prod

lemma hom_prints: "hom (prints printc1 str width flags) (prints printc2 str width flags)"
  unfolding prints_def Let_def by (intro hom_rules)

lemma hom_printi: "hom (printi printc1 i b sg width flags letbase) (printi printc2 i b sg width flags letbase)"
  unfolding printi_def Let_def by (intro hom_rules hom_prints)

lemma hom_conv_int:
  "hom (conv_int printc1 cast b sg letbase width flags bytes args acnt)
       (conv_int printc2 cast b sg letbase width flags bytes args acnt)"
  unfolding conv_int_def by (intro hom_rules hom_printi)

lemma hom_conv_ll: "hom (conv_ll printc1 fmt width flags args acnt) (conv_ll printc2 fmt width flags args acnt)"
  unfolding conv_ll_def Let_def by (intro hom_rules hom_printi)

lemma hom_conv_l: "hom (conv_l printc1 fmt width flags args acnt) (conv_l printc2 fmt width flags args acnt)"
  unfolding conv_l_def Let_def by (intro hom_rules hom_conv_int)

lemma hom_conversion:
  "hom (conversion printc1 fmt width flags args acnt) (conversion printc2 fmt width flags args acnt)"
  unfolding conversion_def Let_def
  by (intro hom_rules hom_conv_int hom_conv_l hom_conv_ll hom_prints)

lemma hom_print_loop: "print_loop printc2 fmt args acnt pc (view s) = map_outcome view id (print_loop printc1 fmt args acnt pc s)"
proof (induction "length fmt" arbitrary: fmt args acnt pc s rule: less_induct)
  case less
  have conv: "conversion printc2 spec width flags args acnt (view s) =
      map_outcome view id (conversion printc1 spec width flags args acnt s)" for spec width flags
    using hom_conversion unfolding hom_def by blast
  show ?case
  proof (cases fmt)
    case (Cons x fmt')
    obtain spec flags width where rf: "read_flags fmt' = (spec, flags, width)" by (metis prod_cases3)
    have "length r < length fmt" if "conversion printc1 spec width flags args acnt s = Ret (n, y # r, q) t" for n y r q t
      using conversion_length [OF that] read_flags_length [OF rf] Cons by simp
    with rf show ?thesis
      using less Cons
      by (auto simp: print_loop.simps(2) [of _ x fmt'] printc_hom conv split: outcome.splits list.split)
  qed (simp add: print_loop.simps)
qed

lemma hom_print:
  assumes "\<And>s. fin2 (view s) = map_outcome view id (fin1 s)"
  shows "print printc2 fin2 fmt args (view s) = map_outcome view id (print printc1 fin1 fmt args s)"
  by (auto simp: print_def run_simps hom_print_loop assms split: outcome.splits)

end

text \<open>Console: the characters of a format, collected in a list, are what reaches the device.\<close>

definition collect :: "u8 list sink" where
  "collect x t = Ret () (t @ [x])"

definition con_eff :: "'d cfg \<Rightarrow> u8 \<Rightarrow> 'd sys \<Rightarrow> 'd sys" where
  "con_eff c x s =
     (case (console_plat s, plat_op c console_putc) of
        (True, Some f) \<Rightarrow> s\<lparr>dev := f x (dev s)\<rparr> | _ \<Rightarrow> s)"

definition putc_eff :: "'d cfg \<Rightarrow> u8 \<Rightarrow> 'd sys \<Rightarrow> 'd sys" where
  "putc_eff c x s = con_eff c x (if x = 10 then con_eff c 13 s else s)"

lemma con_putc_run [run_simps]: "con_putc c x s = Ret () (con_eff c x s)"
  by (simp add: con_putc_def con_eff_def run_simps sbi_platform_console_putc_def plat_void_op_def dev_mod_def
      split: option.splits)

lemma sbi_putc_run [run_simps]: "sbi_putc c x s = Ret () (putc_eff c x s)"
  by (simp add: sbi_putc_def putc_eff_def run_simps)

interpretation con: sink_hom "\<lambda>t. fold (putc_eff c) t st" collect "sbi_putc c" for c st
  by unfold_locales (simp add: collect_def run_simps)

text \<open>Buffers: forgetting the remaining length.\<close>

definition forget_len :: "outbuf \<Rightarrow> outbuf" where
  "forget_len b = b\<lparr>ob_len := None\<rparr>"

interpretation buf: sink_hom forget_len printc_buf printc_buf
  by unfold_locales (simp add: printc_buf_def forget_len_def split: option.splits)

text \<open>The characters and the count of a format, or that it takes an argument that is not there.\<close>

definition fmt_chars :: "u8 list \<Rightarrow> va list \<Rightarrow> (u8 list, nat) outcome" where
  "fmt_chars fmt args = print_loop collect fmt args 0 0 []"

lemma printf_run:
  "sbi_printf c fmt args s = map_outcome (\<lambda>t. fold (putc_eff c) t s) id (fmt_chars fmt args)"
  using con.hom_print_loop [where c = c and st = s and fmt = fmt and args = args and acnt = 0 and pc = 0 and s = "[]"]
  by (auto simp: sbi_printf_def print_def run_simps fmt_chars_def split: outcome.splits)

lemma con_eff_simps: "\<exists>d. con_eff c x s = s\<lparr>dev := d\<rparr>"
  by (cases "plat_op c console_putc"; cases "console_plat s") (auto simp: con_eff_def intro: exI [of _ "dev s"])

lemma putc_eff_dev: "\<exists>d. putc_eff c x s = s\<lparr>dev := d\<rparr>"
proof -
  obtain e where e: "con_eff c 13 s = s\<lparr>dev := e\<rparr>" using con_eff_simps [of c 13 s] by auto
  show ?thesis
    using con_eff_simps [of c x s] con_eff_simps [of c x "s\<lparr>dev := e\<rparr>"] by (auto simp: putc_eff_def e)
qed

lemma putcs_eff_dev: "\<exists>d. fold (putc_eff c) t s = s\<lparr>dev := d\<rparr>"
proof (induction t arbitrary: s)
  case Nil
  show ?case by (auto intro: exI [of _ "dev s"])
next
  case (Cons x t)
  obtain d where "putc_eff c x s = s\<lparr>dev := d\<rparr>" using putc_eff_dev [of c x s] by auto
  with Cons [of "s\<lparr>dev := d\<rparr>"] show ?case by auto
qed

text \<open>A print whose arguments fit its format returns and touches only the device.\<close>

lemma printf_dev:
  assumes "fmt_chars fmt args = Ret n t"
  shows "\<exists>d. sbi_printf c fmt args s = Ret n (s\<lparr>dev := d\<rparr>)"
  using putcs_eff_dev [of c t s] assms by (auto simp: printf_run)

lemma keeps_printf: "devf.keeps (sbi_printf c fmt args)"
proof -
  have "dev_rel s (fold (putc_eff c) t s)" for t s
    using putcs_eff_dev [of c t s] by (auto simp: dev_rel_def)
  then have "dev_rel s (final (map_outcome (\<lambda>t. fold (putc_eff c) t s) id (fmt_chars fmt args)))" for s
    by (cases "fmt_chars fmt args") auto
  then show ?thesis by (simp add: devf.keeps_def printf_run)
qed

section \<open>Digits\<close>

definition dval :: "u8 \<Rightarrow> u8 \<Rightarrow> nat" where
  "dval letbase d = (if d - ch CHR ''0'' < 10 then unat (d - ch CHR ''0'') else unat (d - letbase) + 10)"

definition dnum :: "nat \<Rightarrow> u8 \<Rightarrow> u8 list \<Rightarrow> nat" where
  "dnum b letbase ds = foldl (\<lambda>a d. a * b + dval letbase d) 0 ds"

definition dchar :: "u8 \<Rightarrow> nat \<Rightarrow> u8" where
  "dchar letbase t = (if 10 \<le> t then of_nat t + letbase - ch CHR ''0'' - 10 else of_nat t) + ch CHR ''0''"

definition radix_ok :: "nat \<Rightarrow> u8 \<Rightarrow> bool" where
  "radix_ok b letbase \<longleftrightarrow> b = 10 \<or> b = 16 \<and> (letbase = ch CHR ''a'' \<or> letbase = ch CHR ''A'')"

lemma dval_dchar:
  assumes "radix_ok b letbase" "t < b"
  shows "dval letbase (dchar letbase t) = t"
proof -
  have "t < 16" using assms by (auto simp: radix_ok_def)
  then have "t = 0 \<or> t = 1 \<or> t = 2 \<or> t = 3 \<or> t = 4 \<or> t = 5 \<or> t = 6 \<or> t = 7 \<or> t = 8 \<or> t = 9 \<or>
      t = 10 \<or> t = 11 \<or> t = 12 \<or> t = 13 \<or> t = 14 \<or> t = 15" by arith
  then show ?thesis using assms by (auto simp: dval_def dchar_def radix_ok_def)
qed

lemma print_digits_step:
  assumes "u \<noteq> 0" "2 \<le> b"
  shows "print_digits b letbase u buf =
    print_digits b letbase (of_nat (unat u div b)) (dchar letbase (unat u mod b) # buf)"
  using assms by (subst print_digits.simps) (simp add: Let_def dchar_def)

lemma print_digits_done: "print_digits b letbase 0 buf = buf"
  by (subst print_digits.simps) simp

lemma unat_div: "unat (of_nat (unat (u :: ulong) div b) :: ulong) = unat u div b"
  using le_less_trans [OF div_le_dividend unat64, of u b] by (simp add: unat_of_nat)

lemma print_digits_app: "2 \<le> b \<Longrightarrow> print_digits b letbase u buf = print_digits b letbase u [] @ buf"
proof (induction "unat u" arbitrary: u buf rule: less_induct)
  case less
  show ?case
  proof (cases "u = 0")
    case False
    let ?v = "of_nat (unat u div b) :: ulong" and ?d = "dchar letbase (unat u mod b)"
    have lt: "unat ?v < unat u" using False less.prems by (intro digits_less) auto
    show ?thesis
      using less.hyps [OF lt less.prems, of "?d # buf"] less.hyps [OF lt less.prems, of "[?d]"] False less.prems
      by (simp add: print_digits_step [of u])
  qed (simp add: print_digits_done)
qed

text \<open>The digits denote the number, and there are no more of them than its size allows.\<close>

lemma print_digits_correct:
  assumes "radix_ok b letbase"
  shows "dnum b letbase (print_digits b letbase u []) = unat u \<and>
    (unat u < b ^ k \<longrightarrow> length (print_digits b letbase u []) \<le> k)"
proof (induction "unat u" arbitrary: u k rule: less_induct)
  case less
  have b: "2 \<le> b" using assms by (auto simp: radix_ok_def)
  show ?case
  proof (cases "u = 0")
    case True
    then show ?thesis by (simp add: print_digits_done dnum_def)
  next
    case False
    let ?v = "of_nat (unat u div b) :: ulong" and ?d = "dchar letbase (unat u mod b)"
    have lt: "unat ?v < unat u" using False b by (intro digits_less) auto
    have eq: "print_digits b letbase u [] = print_digits b letbase ?v [] @ [?d]"
      using print_digits_app [OF b, of letbase ?v "[?d]"] False b by (simp add: print_digits_step [of u])
    have "dval letbase ?d = unat u mod b" using dval_dchar [OF assms, of "unat u mod b"] b by simp
    moreover have "length (print_digits b letbase ?v []) < k" if "unat u < b ^ k"
    proof (cases k)
      case 0
      then show ?thesis using that False by (simp add: unat_eq_0)
    next
      case (Suc j)
      then have "unat u div b < b ^ j" using that by (simp add: less_mult_imp_div_less mult.commute)
      then show ?thesis using less.hyps [OF lt, of j] Suc by (simp add: unat_div)
    qed
    ultimately show ?thesis using less.hyps [OF lt] by (auto simp: eq dnum_def unat_div)
  qed
qed

section \<open>Properties\<close>

text \<open>
  Integers are printed correctly. In the bases the conversions use, the characters
  produced denote the number (read back with the same digit letters they give it), and they fit the
  64-byte buffer of \<open>printi\<close> with the prefix \<open>0x\<close>, a sign and the terminator.
\<close>

lemma print_digits_round_trip:
  assumes "radix_ok b letbase"
  shows "dnum b letbase (print_digits b letbase u []) = unat u \<and>
    length (print_digits b letbase u []) + 4 \<le> PRINT_BUF_LEN"
proof -
  have "unat u < b ^ 20" using assms unat64 [of u] by (auto simp: radix_ok_def)
  then show ?thesis using print_digits_correct [OF assms, of u 20] by simp
qed

text \<open>
  The size given to \<open>sbi_snprintf\<close> has no effect on what it writes. For every size the bytes
  stored, their number and the outcome are those of the unbounded \<open>sbi_sprintf\<close>: \<open>printc\<close>
  stores the character in both branches of its test of the remaining length.
\<close>

lemma snprintf_ignores_size:
  "map_outcome forget_len id (sbi_snprintf out pos out_sz fmt args) = sbi_sprintf out pos fmt args"
proof -
  have "fin_buf (forget_len b) = map_outcome forget_len id (fin_buf b)" for b
    by (simp add: fin_buf_def forget_len_def split: option.splits)
  from buf.hom_print [of fin_buf fin_buf, OF this] show ?thesis
    unfolding sbi_snprintf_def sbi_sprintf_def
    by (metis (lifting) forget_len_def outbuf.update_convs(3))
qed

text \<open>
  Conversions that do not print what their argument says: \<open>%ld\<close> leaves its \<open>d\<close> in the
  output, and a \<open>%llx\<close> after a \<open>%d\<close> discards its own argument and prints the next one, because
  the byte count kept for 32-bit targets is not a multiple of 8.
\<close>

lemma printf_long_conversions:
  "fmt_chars (cs ''%ld'') [Vword 42] = Ret 3 (cs ''42d'') \<and>
   fmt_chars (cs ''%d %llx'') [Vword 1, Vword 0xaa, Vword 0xbb] = Ret 4 (cs ''1 bb'')"
  by code_simp

end
