(* ===== verification/Sbi_Hart.thy ===== *)
theory Sbi_Hart
  imports Sbi_Console
begin

text \<open>
  Hart features, boot-time CSR setup, trap delegation, memory protection and the switch to the next
  boot stage: \<^verbatim>\<open>lib/sbi/sbi_hart.c\<close>, with the \<open>misa\<close> helpers of \<^verbatim>\<open>lib/sbi/riscv_asm.c\<close> and
  the feature strings of \<^verbatim>\<open>lib/sbi/sbi_platform.c\<close>.

  Floating point registers are 64 bits wide; a single-precision value is stored with the upper half
  set, as the instruction \<^verbatim>\<open>fmv.s.x\<close> does.
\<close>

section \<open>Machine ISA register\<close>

definition misa_extension_imp :: "'d cfg \<Rightarrow> nat \<Rightarrow> u8 \<Rightarrow> 'd sys \<Rightarrow> ('d sys, int) outcome" where
  "misa_extension_imp c h ext =
     bindM (csr_read h CSR_MISA) (\<lambda>misa.
       if misa \<noteq> 0 then
         if ch CHR ''A'' \<le> ext \<and> ext \<le> ch CHR ''Z''
         then retM (uint (misa AND shl 1 (unat (ext - ch CHR ''A''))))
         else if ch CHR ''a'' \<le> ext \<and> ext \<le> ch CHR ''z''
         then retM (uint (misa AND shl 1 (unat (ext - ch CHR ''a''))))
         else retM 0
       else retM (sbi_platform_misa_extension c h ext))"

definition misa_extension :: "'d cfg \<Rightarrow> nat \<Rightarrow> u8 \<Rightarrow> 'd sys \<Rightarrow> ('d sys, bool) outcome" where
  "misa_extension c h ext = bindM (misa_extension_imp c h ext) (\<lambda>r. retM (r \<noteq> 0))"

definition misa_xlen :: "'d cfg \<Rightarrow> nat \<Rightarrow> 'd sys \<Rightarrow> ('d sys, int) outcome" where
  "misa_xlen c h =
     bindM (csr_read h CSR_MISA) (\<lambda>misa.
       if misa = 0 then retM (sbi_platform_misa_xlen c h)
       else
         (let r = (if sint misa < 0 then 2 else 0) + (if sint (shl misa 1) < 0 then 1 else 0) in
          retM (if r \<noteq> 0 then r else - 1)))"

definition valid_isa_order :: "u8 list" where
  "valid_isa_order = cs ''iemafdqclbjtpvnsuhkorwxyzg'' @ [0]"

text \<open>Storing at the current position of a buffer.\<close>

definition put_at :: "u8 \<Rightarrow> nat \<times> u8 list \<Rightarrow> 's \<Rightarrow> ('s, nat \<times> u8 list) outcome" where
  "put_at x = (\<lambda>(pos, out). bindM (liftO (wr out pos x)) (\<lambda>out'. retM (pos + 1, out')))"

primrec put_all :: "u8 list \<Rightarrow> nat \<times> u8 list \<Rightarrow> 's \<Rightarrow> ('s, nat \<times> u8 list) outcome" where
  "put_all [] po = retM po"
| "put_all (x # xs) po = bindM (put_at x po) (put_all xs)"

fun misa_letters :: "'d cfg \<Rightarrow> nat \<Rightarrow> nat \<Rightarrow> u8 list \<Rightarrow> nat \<times> u8 list \<Rightarrow> 'd sys \<Rightarrow> ('d sys, nat \<times> u8 list) outcome" where
  "misa_letters c h out_sz [] po = retM po"
| "misa_letters c h out_sz (x # xs) po =
     (if fst po < out_sz then
        bindM (misa_extension_imp c h x) (\<lambda>r.
          bindM (if r \<noteq> 0 then put_at x po else retM po) (misa_letters c h out_sz xs))
      else retM po)"

definition misa_string :: "'d cfg \<Rightarrow> nat \<Rightarrow> int \<Rightarrow> u8 list \<Rightarrow> nat \<Rightarrow> 'd sys \<Rightarrow> ('d sys, u8 list) outcome" where
  "misa_string c h xlen out out_sz =
     (let digits = (if xlen = 1 then Some ''32'' else if xlen = 2 then Some ''64''
                    else if xlen = 3 then Some ''128'' else None);
          tail_part = (\<lambda>po. bindM (misa_letters c h out_sz valid_isa_order po) (\<lambda>po.
             bindM (if fst po < out_sz then put_at 0 po else retM po) (\<lambda>(pos, out). retM out)))
      in if 5 \<le> out_sz then
           bindM (put_all (cs ''rv'') (0, out)) (\<lambda>po.
             case digits of None \<Rightarrow> retM (snd po) | Some d \<Rightarrow> bindM (put_all (cs d) po) tail_part)
         else tail_part (0, out))"

section \<open>Hart features\<close>

abbreviation (input) SBI_HART_HAS_PMP :: ulong where "SBI_HART_HAS_PMP \<equiv> 1"
abbreviation (input) SBI_HART_HAS_SCOUNTEREN :: ulong where "SBI_HART_HAS_SCOUNTEREN \<equiv> 2"
abbreviation (input) SBI_HART_HAS_MCOUNTEREN :: ulong where "SBI_HART_HAS_MCOUNTEREN \<equiv> 4"
abbreviation (input) SBI_HART_HAS_TIME :: ulong where "SBI_HART_HAS_TIME \<equiv> 8"

text \<open>The structure \<open>hart_features\<close>: the feature word, and the PMP count in the next word.\<close>

definition hart_get_features :: "nat \<Rightarrow> 'd sys \<Rightarrow> ('d sys, ulong) outcome" where
  "hart_get_features sc = getM (\<lambda>s. scratch_rd sc (hart_features_offset s) s)"

definition sbi_hart_has_feature :: "nat \<Rightarrow> ulong \<Rightarrow> 'd sys \<Rightarrow> ('d sys, bool) outcome" where
  "sbi_hart_has_feature sc feature =
     getM (\<lambda>s. scratch_rd sc (hart_features_offset s) s AND feature \<noteq> 0)"

definition sbi_hart_pmp_count :: "nat \<Rightarrow> 'd sys \<Rightarrow> ('d sys, nat) outcome" where
  "sbi_hart_pmp_count sc = getM (\<lambda>s. unat (scratch_rd sc (hart_features_offset s + 8) s))"

definition set_hart_features :: "nat \<Rightarrow> ulong \<Rightarrow> nat \<Rightarrow> 'd sys \<Rightarrow> ('d sys, unit) outcome" where
  "set_hart_features sc features pmp_count =
     modM (\<lambda>s. scratch_wr sc (hart_features_offset s + 8) (of_nat pmp_count)
                 (scratch_wr sc (hart_features_offset s) features s))"

text \<open>
  \<^verbatim>\<open>__detect_pmp\<close> for each address register: once a trap was taken the cause stays set, so
  later registers are not counted.
\<close>

fun detect_pmp :: "'d cfg \<Rightarrow> nat \<Rightarrow> nat list \<Rightarrow> bool \<Rightarrow> nat \<Rightarrow> 'd sys \<Rightarrow> ('d sys, nat) outcome" where
  "detect_pmp c h [] trapped n = retM n"
| "detect_pmp c h (x # xs) trapped n =
     bindM (csr_read_allowed c h x) (\<lambda>v.
       case (if trapped then None else v) of
         None \<Rightarrow> detect_pmp c h xs True n
       | Some val \<Rightarrow>
           bindM (csr_write_allowed c h x val) (\<lambda>w.
             case w of None \<Rightarrow> detect_pmp c h xs True n | Some _ \<Rightarrow> detect_pmp c h xs False (n + 1)))"

definition detect_rw :: "'d cfg \<Rightarrow> nat \<Rightarrow> nat \<Rightarrow> ulong \<Rightarrow> 'd sys \<Rightarrow> ('d sys, ulong) outcome" where
  "detect_rw c h n feature =
     bindM (csr_read_allowed c h n) (\<lambda>v.
       case v of None \<Rightarrow> retM 0
       | Some val \<Rightarrow> bindM (csr_write_allowed c h n val) (\<lambda>w. retM (if w = None then 0 else feature)))"

definition hart_detect_features :: "'d cfg \<Rightarrow> nat \<Rightarrow> nat \<Rightarrow> 'd sys \<Rightarrow> ('d sys, unit) outcome" where
  "hart_detect_features c h sc =
     seqM (set_hart_features sc 0 0)
       (bindM (detect_pmp c h [CSR_PMPADDR0..<CSR_PMPADDR0 + 16] False 0) (\<lambda>pmp_count.
        bindM (detect_rw c h CSR_SCOUNTEREN SBI_HART_HAS_SCOUNTEREN) (\<lambda>f1.
        bindM (detect_rw c h CSR_MCOUNTEREN SBI_HART_HAS_MCOUNTEREN) (\<lambda>f2.
        bindM (csr_read_allowed c h CSR_TIME) (\<lambda>t.
          set_hart_features sc
            ((if pmp_count \<noteq> 0 then SBI_HART_HAS_PMP else 0) OR f1 OR f2 OR
             (if t = None then 0 else SBI_HART_HAS_TIME)) pmp_count)))))"

section \<open>Feature strings\<close>

definition sbi_hart_feature_id2string :: "ulong \<Rightarrow> u8 list option" where
  "sbi_hart_feature_id2string feature =
     (if feature = SBI_HART_HAS_PMP then Some (cs ''pmp'')
      else if feature = SBI_HART_HAS_SCOUNTEREN then Some (cs ''scounteren'')
      else if feature = SBI_HART_HAS_MCOUNTEREN then Some (cs ''mcounteren'')
      else if feature = SBI_HART_HAS_TIME then Some (cs ''time'') else None)"

definition sbi_platform_feature_id2string :: "ulong \<Rightarrow> u8 list option" where
  "sbi_platform_feature_id2string feature =
     (if feature = SBI_PLATFORM_HAS_TIMER_VALUE then Some (cs ''timer'')
      else if feature = SBI_PLATFORM_HAS_HART_HOTPLUG then Some (cs ''hotplug'')
      else if feature = SBI_PLATFORM_HAS_MFAULTS_DELEGATION then Some (cs ''mfdeleg'')
      else if feature = SBI_PLATFORM_HAS_HART_SECONDARY_BOOT then Some (cs ''sec_boot'') else None)"

text \<open>The loop over the feature bits, appending each known name and a comma at \<open>offset\<close>.\<close>

fun features_loop :: "(ulong \<Rightarrow> u8 list option) \<Rightarrow> ulong \<Rightarrow> nat \<Rightarrow> ulong list \<Rightarrow> nat \<Rightarrow> u8 list \<Rightarrow>
    (nat \<times> u8 list) option" where
  "features_loop id2string features nfstr [] offset buf = Some (offset, buf)"
| "features_loop id2string features nfstr (feat # feats) offset buf =
     (case (if features AND feat \<noteq> 0 then id2string feat else None) of
        None \<Rightarrow> features_loop id2string features nfstr feats offset buf
      | Some temp \<Rightarrow>
          (case sbi_snprintf buf offset nfstr (cs ''%s,'') [Vstr (Some temp)] of
             Halt _ _ \<Rightarrow> None
           | Ret _ ob \<Rightarrow> features_loop id2string features nfstr feats (offset + length temp + 1) (ob_buf ob)))"

definition features_str :: "(ulong \<Rightarrow> u8 list option) \<Rightarrow> ulong \<Rightarrow> u8 list \<Rightarrow> nat \<Rightarrow> u8 list option" where
  "features_str id2string features buf nfstr = do {
     buf \<leftarrow> sbi_memset buf 0 0 nfstr;
     (offset, buf) \<leftarrow> features_loop id2string features nfstr [1, 2, 4, 8] 0 buf;
     if offset \<noteq> 0 then wr buf (offset - 1) 0
     else strncpy_from buf 0 (cs ''none'' @ [0]) 0 nfstr }"

definition sbi_hart_get_features_str :: "nat \<Rightarrow> u8 list \<Rightarrow> nat \<Rightarrow> 'd sys \<Rightarrow> ('d sys, u8 list) outcome" where
  "sbi_hart_get_features_str sc buf nfstr =
     (if nfstr = 0 then retM buf
      else bindM (hart_get_features sc) (\<lambda>features.
             liftO (features_str sbi_hart_feature_id2string features buf nfstr)))"

definition sbi_platform_get_features_str :: "'d cfg \<Rightarrow> u8 list \<Rightarrow> nat \<Rightarrow> 'd sys \<Rightarrow> ('d sys, u8 list) outcome" where
  "sbi_platform_get_features_str c buf nfstr =
     (if plat c = None \<or> nfstr = 0 then retM buf
      else liftO (features_str sbi_platform_feature_id2string (sbi_platform_get_features c) buf nfstr))"

section \<open>Boot-time CSR setup\<close>

definition printfM :: "'d cfg \<Rightarrow> string \<Rightarrow> va list \<Rightarrow> 'd sys \<Rightarrow> ('d sys, unit) outcome" where
  "printfM c fmt args = bindM (sbi_printf c (cs fmt) args) (\<lambda>_. retM ())"

definition mstatus_init :: "'d cfg \<Rightarrow> nat \<Rightarrow> nat \<Rightarrow> 'd sys \<Rightarrow> ('d sys, unit) outcome" where
  "mstatus_init c h sc =
     bindM (misa_extension c h (ch CHR ''D'')) (\<lambda>d.
     bindM (if d then retM True else misa_extension c h (ch CHR ''F'')) (\<lambda>fp.
     bindM (misa_extension c h (ch CHR ''V'')) (\<lambda>v.
     seqM (csr_write h CSR_MSTATUS ((if fp then MSTATUS_FS else 0) OR (if v then MSTATUS_VS else 0)))
    (bindM (misa_extension c h (ch CHR ''S'')) (\<lambda>sm.
     bindM (if sm then sbi_hart_has_feature sc SBI_HART_HAS_SCOUNTEREN else retM False) (\<lambda>sce.
     seqM (whenM sce (seqM (csr_write h CSR_SCOUNTEREN (- 1)) (printfM c ''scounter enabled'' [])))
    (bindM (sbi_hart_has_feature sc SBI_HART_HAS_MCOUNTEREN) (\<lambda>mce.
     seqM (whenM mce (seqM (csr_write h CSR_MCOUNTEREN (- 1)) (printfM c ''mcounter enabled'' [])))
    (seqM (csr_write h CSR_MHPMEVENT3 (shl 1 8 OR 2))
    (seqM (csr_write h CSR_MHPMEVENT4 (shl 1 9 OR 2))
    (seqM (csr_write h CSR_MHPMEVENT5 (shl 1 11 OR 2))
    (seqM (csr_write h CSR_MHPMEVENT6 (shl 1 12 OR 2))
    (seqM (csr_write h CSR_MIE 0)
    (bindM (misa_extension c h (ch CHR ''S'')) (\<lambda>sm. whenM sm (csr_write h CSR_SATP 0))))))))))))))))"

definition SET_F32_REG :: "nat \<Rightarrow> nat \<Rightarrow> u32 \<Rightarrow> 'd sys \<Rightarrow> ('d sys, unit) outcome" where
  "SET_F32_REG h n v = modM (upd_hart h (\<lambda>t. t\<lparr>fpr := (fpr t)(n := 0xFFFFFFFF00000000 OR ucast v)\<rparr>))"

definition SET_F64_REG :: "nat \<Rightarrow> nat \<Rightarrow> u64 \<Rightarrow> 'd sys \<Rightarrow> ('d sys, unit) outcome" where
  "SET_F64_REG h n v = modM (upd_hart h (\<lambda>t. t\<lparr>fpr := (fpr t)(n := v)\<rparr>))"

definition GET_F32_REG :: "nat \<Rightarrow> nat \<Rightarrow> 'd sys \<Rightarrow> ('d sys, ulong) outcome" where
  "GET_F32_REG h n = getM (\<lambda>s. scast (ucast (fpr (harts s h) n) :: u32))"

definition GET_F64_REG :: "nat \<Rightarrow> nat \<Rightarrow> 'd sys \<Rightarrow> ('d sys, u64) outcome" where
  "GET_F64_REG h n = getM (\<lambda>s. fpr (harts s h) n)"

definition fp_init :: "'d cfg \<Rightarrow> nat \<Rightarrow> 'd sys \<Rightarrow> ('d sys, int) outcome" where
  "fp_init c h =
     bindM (misa_extension c h (ch CHR ''D'')) (\<lambda>d.
     bindM (if d then retM True else misa_extension c h (ch CHR ''F'')) (\<lambda>fp.
       if \<not> fp then retM 0
       else
         bindM (csr_read h CSR_MSTATUS) (\<lambda>m.
           if m AND MSTATUS_FS = 0 then retM SBI_EINVAL
           else seqM (forM [0..<32] (\<lambda>i. SET_F32_REG h i 0)) (seqM (csr_write h CSR_FCSR 0) (retM 0)))))"

definition delegate_traps :: "'d cfg \<Rightarrow> nat \<Rightarrow> 'd sys \<Rightarrow> ('d sys, int) outcome" where
  "delegate_traps c h =
     bindM (misa_extension c h (ch CHR ''S'')) (\<lambda>sm.
       if \<not> sm then retM 0
       else
         bindM (misa_extension c h (ch CHR ''H'')) (\<lambda>hy.
         (let interrupts = MIP_SSIP OR MIP_STIP OR MIP_SEIP;
              exceptions = shl 1 (unat CAUSE_MISALIGNED_FETCH) OR shl 1 (unat CAUSE_BREAKPOINT) OR
                shl 1 (unat CAUSE_USER_ECALL);
              exceptions = exceptions OR
                (if sbi_platform_has_mfaults_delegation c
                 then shl 1 (unat CAUSE_FETCH_PAGE_FAULT) OR shl 1 (unat CAUSE_LOAD_PAGE_FAULT) OR
                   shl 1 (unat CAUSE_STORE_PAGE_FAULT) else 0);
              exceptions = exceptions OR
                (if hy then shl 1 (unat CAUSE_SUPERVISOR_ECALL) OR shl 1 (unat CAUSE_FETCH_GUEST_PAGE_FAULT) OR
                   shl 1 (unat CAUSE_LOAD_GUEST_PAGE_FAULT) OR shl 1 (unat CAUSE_VIRTUAL_INST_FAULT) OR
                   shl 1 (unat CAUSE_STORE_GUEST_PAGE_FAULT) else 0)
          in seqM (csr_write h CSR_MIDELEG interrupts)
               (seqM (csr_write h CSR_MEDELEG exceptions) (retM 0)))))"

definition sbi_hart_delegation_dump :: "'d cfg \<Rightarrow> nat \<Rightarrow> 'd sys \<Rightarrow> ('d sys, unit) outcome" where
  "sbi_hart_delegation_dump c h =
     bindM (misa_extension c h (ch CHR ''S'')) (\<lambda>sm.
       whenM sm
         (bindM (csr_read h CSR_MIDELEG) (\<lambda>i.
          seqM (printfM c ''MIDELEG : 0x%016lx\<newline>'' [Vword i])
         (bindM (csr_read h CSR_MEDELEG) (\<lambda>e.
          printfM c ''MEDELEG : 0x%016lx\<newline>'' [Vword e])))))"

section \<open>Memory protection\<close>

definition pmp_setM :: "nat \<Rightarrow> nat \<Rightarrow> ulong \<Rightarrow> ulong \<Rightarrow> nat \<Rightarrow> 'd sys \<Rightarrow> ('d sys, int) outcome" where
  "pmp_setM h n prot addr log2len =
     bindM (getM (\<lambda>s. pmp_set n prot addr log2len (csr (harts s h)))) (\<lambda>(r, f).
       seqM (modM (upd_hart h (\<lambda>t. t\<lparr>csr := f\<rparr>))) (retM r))"

definition pmp_getM :: "nat \<Rightarrow> nat \<Rightarrow> 'd sys \<Rightarrow> ('d sys, int \<times> (ulong \<times> ulong \<times> ulong) option) outcome" where
  "pmp_getM h n =
     bindM (getM (\<lambda>s. pmp_get n (csr (harts s h)))) (\<lambda>r. case r of None \<Rightarrow> haltM Spin | Some x \<Rightarrow> retM x)"

definition sbi_hart_pmp_get :: "nat \<Rightarrow> nat \<Rightarrow> nat \<Rightarrow> 'd sys \<Rightarrow>
    ('d sys, int \<times> (ulong \<times> ulong \<times> ulong) option) outcome" where
  "sbi_hart_pmp_get h sc n =
     bindM (sbi_hart_pmp_count sc) (\<lambda>k. if k \<le> n then retM (SBI_EINVAL, None) else pmp_getM h n)"

definition sbi_hart_pmp_dump :: "'d cfg \<Rightarrow> nat \<Rightarrow> nat \<Rightarrow> 'd sys \<Rightarrow> ('d sys, unit) outcome" where
  "sbi_hart_pmp_dump c h sc =
     bindM (sbi_hart_has_feature sc SBI_HART_HAS_PMP) (\<lambda>b.
       whenM b
         (bindM (sbi_hart_pmp_count sc) (\<lambda>pmp_count.
            forM [0..<pmp_count] (\<lambda>i.
              bindM (pmp_getM h i) (\<lambda>(_, info).
              bindM (liftO info) (\<lambda>(prot, addr, sz).
                whenM (prot AND PMP_A \<noteq> 0)
                  (seqM (printfM c ''PMP%d    : 0x%016lx-0x%016lx (A''
                           [Vword (of_nat i), Vword addr, Vword (addr + sz - 1)])
                  (seqM (whenM (prot AND PMP_L \<noteq> 0) (printfM c '',L'' []))
                  (seqM (whenM (prot AND PMP_R \<noteq> 0) (printfM c '',R'' []))
                  (seqM (whenM (prot AND PMP_W \<noteq> 0) (printfM c '',W'' []))
                  (seqM (whenM (prot AND PMP_X \<noteq> 0) (printfM c '',X'' []))
                    (printfM c '')\<newline>'' []))))))))))))"

fun pmp_check_loop :: "nat \<Rightarrow> ulong \<Rightarrow> ulong \<Rightarrow> nat list \<Rightarrow> 'd sys \<Rightarrow> ('d sys, int) outcome" where
  "pmp_check_loop h addr attr [] = retM SBI_OK"
| "pmp_check_loop h addr attr (i # is) =
     bindM (pmp_getM h i) (\<lambda>(_, info).
     bindM (liftO info) (\<lambda>(prot, tempaddr, sz).
       if prot AND PMP_A \<noteq> 0 \<and> tempaddr \<le> addr \<and> addr \<le> tempaddr + sz \<and> prot AND attr = 0
       then retM SBI_EINVALID_ADDR else pmp_check_loop h addr attr is))"

definition sbi_hart_pmp_check_addr :: "nat \<Rightarrow> nat \<Rightarrow> ulong \<Rightarrow> ulong \<Rightarrow> 'd sys \<Rightarrow> ('d sys, int) outcome" where
  "sbi_hart_pmp_check_addr h sc addr attr =
     bindM (sbi_hart_has_feature sc SBI_HART_HAS_PMP) (\<lambda>b.
       if \<not> b then retM SBI_OK
       else bindM (sbi_hart_pmp_count sc) (\<lambda>pmp_count. pmp_check_loop h addr attr [0..<pmp_count]))"

text \<open>The platform regions: \<open>i\<close> runs up to the region count while an entry is left for the default one.\<close>

fun pmp_regions :: "'d cfg \<Rightarrow> nat \<Rightarrow> nat \<Rightarrow> nat list \<Rightarrow> nat \<Rightarrow> 'd sys \<Rightarrow> ('d sys, nat) outcome" where
  "pmp_regions c h pmp_count [] pmp_idx = retM pmp_idx"
| "pmp_regions c h pmp_count (i # is) pmp_idx =
     (if pmp_idx < (pmp_count + 4294967295) mod 4294967296 then
        (case sbi_platform_pmp_region_info c h i of
           (r, info) \<Rightarrow>
             if r \<noteq> 0 then pmp_regions c h pmp_count is pmp_idx
             else
               bindM (liftO info) (\<lambda>(prot, addr, log2size).
                 seqM (pmp_setM h pmp_idx prot addr (unat log2size))
                   (pmp_regions c h pmp_count is (pmp_idx + 1))))
      else retM pmp_idx)"

definition pmp_init :: "'d cfg \<Rightarrow> nat \<Rightarrow> nat \<Rightarrow> 'd sys \<Rightarrow> ('d sys, int) outcome" where
  "pmp_init c h sc =
     bindM (sbi_hart_has_feature sc SBI_HART_HAS_PMP) (\<lambda>b.
       if \<not> b then retM 0
       else
         bindM (getM (\<lambda>s. scratch s sc)) (\<lambda>t.
         (let fw_size_log2 = log2roundup (fw_size t);
              start = fw_start t AND NOT (shl 1 fw_size_log2 - 1) in
          seqM (pmp_setM h 0 0 start fw_size_log2)
         (bindM (sbi_hart_pmp_count sc) (\<lambda>pmp_count.
          bindM (pmp_regions c h pmp_count [0..<sbi_platform_pmp_region_count c h] 1) (\<lambda>pmp_idx.
          seqM (pmp_setM h pmp_idx (PMP_R OR PMP_W OR PMP_X) 0 64) (retM 0)))))))"

section \<open>Initialisation and the switch to the next stage\<close>

definition sbi_hart_init :: "'d cfg \<Rightarrow> nat \<Rightarrow> nat \<Rightarrow> bool \<Rightarrow> 'd sys \<Rightarrow> ('d sys, int) outcome" where
  "sbi_hart_init c h sc cold_boot =
     bindM
       (if cold_boot then
          bindM (misa_extension c h (ch CHR ''H'')) (\<lambda>hy.
          seqM (whenM hy (modM (\<lambda>s. s\<lparr>expected_trap_hext := True\<rparr>)))
         (bindM (sbi_scratch_alloc_offset 16) (\<lambda>off.
          seqM (modM (\<lambda>s. s\<lparr>hart_features_offset := off\<rparr>)) (retM off))))
        else retM 1) (\<lambda>off.
     if off = 0 then retM SBI_ENOMEM
     else
       seqM (hart_detect_features c h sc)
      (seqM (mstatus_init c h sc)
      (bindM (fp_init c h) (\<lambda>rc. if rc \<noteq> 0 then retM rc else
       bindM (delegate_traps c h) (\<lambda>rc. if rc \<noteq> 0 then retM rc else
       pmp_init c h sc)))))"

definition sbi_hart_hang :: "'d sys \<Rightarrow> ('d sys, 'a) outcome" where
  "sbi_hart_hang = haltM Hang"

definition sbi_hart_switch_mode :: "'d cfg \<Rightarrow> nat \<Rightarrow> ulong \<Rightarrow> ulong \<Rightarrow> ulong \<Rightarrow> ulong \<Rightarrow> bool \<Rightarrow>
    'd sys \<Rightarrow> ('d sys, unit) outcome" where
  "sbi_hart_switch_mode c h arg0 arg1 naddr nmode next_virt =
     bindM
       (if nmode = PRV_M then retM True
        else if nmode = PRV_S then misa_extension c h (ch CHR ''S'')
        else if nmode = PRV_U then misa_extension c h (ch CHR ''U'')
        else retM False) (\<lambda>ok.
     if \<not> ok then sbi_hart_hang
     else
       bindM (csr_read h CSR_MSTATUS) (\<lambda>val.
       bindM (misa_extension c h (ch CHR ''H'')) (\<lambda>hy.
      (let val = INSERT_FIELD val MSTATUS_MPP nmode;
           val = INSERT_FIELD val MSTATUS_MPIE 0;
           val = (if hy then INSERT_FIELD val MSTATUS_MPV (if next_virt then 1 else 0) else val) in
       seqM (csr_write h CSR_MSTATUS val)
      (seqM (csr_write h CSR_MEPC naddr)
      (seqM
         (if nmode = PRV_S then
            seqM (csr_write h CSR_STVEC naddr)
           (seqM (csr_write h CSR_SSCRATCH 0)
           (seqM (csr_write h CSR_SIE 0) (csr_write h CSR_SATP 0)))
          else if nmode = PRV_U then
            seqM (csr_write h CSR_UTVEC naddr)
           (seqM (csr_write h CSR_USCRATCH 0) (csr_write h CSR_UIE 0))
          else retM ())
       (haltM (Mret arg0 arg1))))))))"

section \<open>Running the helpers\<close>

lemma run_csr_read [run_simps]: "csr_read h n s = Ret (csr (harts s h) n) s"
  by (simp add: csr_read_def run_simps)

lemma run_csr_write [run_simps]:
  "csr_write h n v s = Ret () (upd_hart h (\<lambda>t. t\<lparr>csr := (csr t)(n := v)\<rparr>) s)"
  by (simp add: csr_write_def run_simps)

lemma run_csr_set [run_simps]:
  "csr_set h n v s = Ret () (upd_hart h (\<lambda>t. t\<lparr>csr := (csr t)(n := csr t n OR v)\<rparr>) s)"
  by (simp add: csr_set_def run_simps upd_hart_def)

lemma run_csr_clear [run_simps]:
  "csr_clear h n v s = Ret () (upd_hart h (\<lambda>t. t\<lparr>csr := (csr t)(n := csr t n AND NOT v)\<rparr>) s)"
  by (simp add: csr_clear_def run_simps upd_hart_def)

definition misa_has :: "'d cfg \<Rightarrow> nat \<Rightarrow> u8 \<Rightarrow> ulong \<Rightarrow> bool" where
  "misa_has c h ext misa =
     (if misa \<noteq> 0 then
        if ch CHR ''A'' \<le> ext \<and> ext \<le> ch CHR ''Z'' then misa AND shl 1 (unat (ext - ch CHR ''A'')) \<noteq> 0
        else ch CHR ''a'' \<le> ext \<and> ext \<le> ch CHR ''z'' \<and> misa AND shl 1 (unat (ext - ch CHR ''a'')) \<noteq> 0
      else sbi_platform_misa_extension c h ext \<noteq> 0)"

lemma run_misa_extension [run_simps]:
  "misa_extension c h ext s = Ret (misa_has c h ext (csr (harts s h) CSR_MISA)) s"
  by (auto simp: misa_extension_def misa_extension_imp_def run_simps misa_has_def uint_0_iff)

lemma run_has_feature [run_simps]:
  "sbi_hart_has_feature sc f s = Ret (scratch_rd sc (hart_features_offset s) s AND f \<noteq> 0) s"
  by (simp add: sbi_hart_has_feature_def run_simps)

lemma run_pmp_count [run_simps]:
  "sbi_hart_pmp_count sc s = Ret (unat (scratch_rd sc (hart_features_offset s + 8) s)) s"
  by (simp add: sbi_hart_pmp_count_def run_simps)

lemma run_pmp_setM [run_simps]:
  "pmp_setM h n prot addr l s =
    Ret (fst (pmp_set n prot addr l (csr (harts s h))))
      (upd_hart h (\<lambda>t. t\<lparr>csr := snd (pmp_set n prot addr l (csr t))\<rparr>) s)"
  by (simp add: pmp_setM_def run_simps upd_hart_def split: prod.splits)

lemma keeps_printfM: "devf.keeps (printfM c fmt args)"
  unfolding printfM_def by (intro devf.keeps_rules keeps_printf)

text \<open>The address check only reads.\<close>

lemma pmp_check_loop_reads: "final (pmp_check_loop h addr attr is s) = s"
  by (induction "is") (auto simp: run_simps pmp_getM_def split: option.splits prod.splits)

lemma pmp_check_addr_reads: "final (sbi_hart_pmp_check_addr h sc addr attr s) = s"
  by (simp add: sbi_hart_pmp_check_addr_def run_simps pmp_check_loop_reads)

section \<open>The firmware's own protection entry\<close>

text \<open>Only the CSRs of the hart differ between two states.\<close>

definition csrs_only :: "nat \<Rightarrow> 'd sys \<Rightarrow> 'd sys \<Rightarrow> bool" where
  "csrs_only h s s' \<longleftrightarrow> (\<exists>f. s' = upd_hart h (\<lambda>t. t\<lparr>csr := f\<rparr>) s)"

lemma csrs_only_refl: "csrs_only h s s"
proof -
  have "s = upd_hart h (\<lambda>t. t\<lparr>csr := csr (harts s h)\<rparr>) s" by (simp add: upd_hart_def)
  then show ?thesis unfolding csrs_only_def by blast
qed

lemma csrs_only_upd: "csrs_only h s s' \<Longrightarrow> csrs_only h s (upd_hart h (\<lambda>t. t\<lparr>csr := g t\<rparr>) s')"
  by (auto simp: csrs_only_def upd_hart_def)

lemma csrs_only_simps:
  assumes "csrs_only h s s'"
  shows "scratch s' = scratch s" "hart_features_offset s' = hart_features_offset s"
    "scratch_rd sc off s' = scratch_rd sc off s"
  using assms by (auto simp: csrs_only_def upd_hart_def scratch_rd_def)

lemma pmp_get_set_neq:
  assumes "m < PMP_COUNT" "m \<noteq> n"
  shows "pmp_get m (snd (pmp_set n prot addr l f)) = pmp_get m f"
proof (cases "n < PMP_COUNT \<and> PMP_SHIFT \<le> l \<and> l \<le> 64")
  case True
  then show ?thesis using assms by (intro pmp_get_set_other) auto
next
  case False
  then show ?thesis by (auto simp: pmp_set_def)
qed

text \<open>Regions are described wherever they are counted.\<close>

definition pmp_info_ok :: "'d cfg \<Rightarrow> nat \<Rightarrow> bool" where
  "pmp_info_ok c h \<longleftrightarrow> sbi_platform_pmp_region_count c h = 0 \<or> plat_op c pmp_region_info \<noteq> None"

lemma pmp_regions_run:
  assumes "is = [] \<or> plat_op c pmp_region_info \<noteq> None" "0 < idx"
  shows "\<exists>idx' s'. pmp_regions c h n is idx s = Ret idx' s' \<and> 0 < idx' \<and> csrs_only h s s' \<and>
    pmp_get 0 (csr (harts s' h)) = pmp_get 0 (csr (harts s h))"
  using assms
proof (induction "is" arbitrary: idx s)
  case Nil
  then show ?case by (simp add: run_simps csrs_only_refl)
next
  case (Cons i "is")
  obtain f where f: "plat_op c pmp_region_info = Some f" using Cons.prems(1) by auto
  obtain r prot addr l where i: "f h i = (r, prot, addr, l)" by (metis prod_cases4)
  let ?s = "upd_hart h (\<lambda>t. t\<lparr>csr := snd (pmp_set idx prot addr (unat l) (csr t))\<rparr>) s"
  have get: "pmp_get 0 (csr (harts ?s h)) = pmp_get 0 (csr (harts s h))"
    using Cons.prems(2) by (simp add: pmp_get_set_neq)
  have only: "csrs_only h s s'" if "csrs_only h ?s s'" for s'
    using that by (auto simp: csrs_only_def upd_hart_def)
  show ?case
    using Cons.IH [of idx s] Cons.IH [of "idx + 1" ?s] Cons.prems f i get only
    by (auto simp: run_simps sbi_platform_pmp_region_info_def csrs_only_refl)
qed

lemma pmp_init_run:
  assumes "scratch_rd sc (hart_features_offset s) s AND SBI_HART_HAS_PMP \<noteq> 0" "pmp_info_ok c h"
    "PMP_SHIFT < log2roundup (fw_size (scratch s sc))" "log2roundup (fw_size (scratch s sc)) < 64"
  defines "l \<equiv> log2roundup (fw_size (scratch s sc))"
  shows "\<exists>s'. pmp_init c h sc s = Ret 0 s' \<and> csrs_only h s s' \<and>
    pmp_get 0 (csr (harts s' h)) =
      Some (0, Some (PMP_A_NAPOT, fw_start (scratch s sc) AND NOT (mask l), shl 1 l))"
proof -
  let ?fw = "fw_start (scratch s sc) AND NOT (mask l)"
  let ?s0 = "upd_hart h (\<lambda>t. t\<lparr>csr := snd (pmp_set 0 0 ?fw l (csr t))\<rparr>) s"
  have same: "?fw AND NOT (mask l) = ?fw" by (simp add: and.assoc)
  have e0: "pmp_get 0 (csr (harts ?s0 h)) = Some (0, Some (PMP_A_NAPOT, ?fw, shl 1 l))"
    using assms(3,4) pmp_get_set_same [of 0 l 0 ?fw "csr (harts s h)"] unfolding same
    by (simp add: l_def pmp_prot_def)
  have o0: "csrs_only h s ?s0" by (rule csrs_only_upd [OF csrs_only_refl])
  have "[0..<sbi_platform_pmp_region_count c h] = [] \<or> plat_op c pmp_region_info \<noteq> None"
    using assms(2) by (auto simp: pmp_info_ok_def)
  from pmp_regions_run [OF this, of 1 h "unat (scratch_rd sc (hart_features_offset s + 8) s)" ?s0]
  obtain idx s1 where r: "pmp_regions c h (unat (scratch_rd sc (hart_features_offset s + 8) s))
        [0..<sbi_platform_pmp_region_count c h] 1 ?s0 = Ret idx s1"
    "0 < idx" "csrs_only h ?s0 s1" "pmp_get 0 (csr (harts s1 h)) = pmp_get 0 (csr (harts ?s0 h))" by auto
  have "csrs_only h s s1" using o0 r(3) by (auto simp: csrs_only_def upd_hart_def)
  then have "csrs_only h s (upd_hart h (\<lambda>t. t\<lparr>csr := snd (pmp_set idx 7 0 64 (csr t))\<rparr>) s1)"
    by (rule csrs_only_upd)
  then show ?thesis
    using assms(1) r e0 csrs_only_simps [OF o0] pmp_get_set_neq [of 0 idx]
    by (simp add: pmp_init_def run_simps l_def [symmetric] shl_one_minus Let_def)
qed

lemma pmp_check_denied:
  assumes "pmp_get 0 (csr (harts s h)) = Some (r, Some (prot, base, sz))" "prot AND PMP_A \<noteq> 0"
    "prot AND attr = 0" "base \<le> addr" "addr \<le> base + sz"
    "scratch_rd sc (hart_features_offset s) s AND SBI_HART_HAS_PMP \<noteq> 0"
    "scratch_rd sc (hart_features_offset s + 8) s \<noteq> 0"
  shows "sbi_hart_pmp_check_addr h sc addr attr s = Ret SBI_EINVALID_ADDR s"
proof -
  have "[0..<unat (scratch_rd sc (hart_features_offset s + 8) s)] =
      0 # [1..<unat (scratch_rd sc (hart_features_offset s + 8) s)]"
    using assms(7) by (simp add: upt_conv_Cons unat_gt_0)
  then show ?thesis
    using assms(1-6) by (simp add: sbi_hart_pmp_check_addr_def run_simps pmp_getM_def)
qed

section \<open>The switch to the next stage\<close>

lemma insert_field_simps:
  "m = 0 \<or> m = 1 \<or> m = 3 \<Longrightarrow> INSERT_FIELD v MSTATUS_MPP m AND MSTATUS_MPP = m * 0x800"
  "INSERT_FIELD v MSTATUS_MPIE 0 AND MSTATUS_MPP = v AND MSTATUS_MPP"
  "INSERT_FIELD v MSTATUS_MPIE 0 AND MSTATUS_MPIE = 0"
  "INSERT_FIELD v MSTATUS_MPV 1 AND MSTATUS_MPP = v AND MSTATUS_MPP"
  "INSERT_FIELD v MSTATUS_MPV 0 AND MSTATUS_MPP = v AND MSTATUS_MPP"
  "INSERT_FIELD v MSTATUS_MPV 1 AND MSTATUS_MPIE = v AND MSTATUS_MPIE"
  "INSERT_FIELD v MSTATUS_MPV 0 AND MSTATUS_MPIE = v AND MSTATUS_MPIE"
  by (auto simp: INSERT_FIELD_def bit.conj_disj_distrib2 and.assoc)

section \<open>Properties\<close>

text \<open>
  C9: memory protection of the firmware. On a hart with PMP support, \<open>pmp_init\<close> leaves entry 0
  denying all access to the naturally aligned region around the firmware, whatever regions the
  platform adds, and \<open>sbi_hart_pmp_check_addr\<close> then refuses every address of the region for
  every access kind. When the firmware is aligned to the region size the region contains it.
\<close>

theorem pmp_init_protects_firmware:
  assumes "scratch_rd sc (hart_features_offset s) s AND SBI_HART_HAS_PMP \<noteq> 0" "pmp_info_ok c h"
    "scratch_rd sc (hart_features_offset s + 8) s \<noteq> 0"
    "4 < fw_size (scratch s sc)" "fw_size (scratch s sc) \<le> 2 ^ 63"
    "unat (fw_start (scratch s sc)) + 2 ^ log2roundup (fw_size (scratch s sc)) < 2 ^ 64"
  defines "l \<equiv> log2roundup (fw_size (scratch s sc))"
  defines "base \<equiv> fw_start (scratch s sc) AND NOT (mask l)"
  shows "\<exists>s'. pmp_init c h sc s = Ret 0 s' \<and>
    (\<forall>addr attr. base \<le> addr \<and> unat addr < unat base + 2 ^ l \<and> attr AND PMP_A = 0 \<longrightarrow>
      sbi_hart_pmp_check_addr h sc addr attr s' = Ret SBI_EINVALID_ADDR s') \<and>
    (fw_start (scratch s sc) AND mask l = 0 \<longrightarrow>
      base = fw_start (scratch s sc) \<and> unat (fw_size (scratch s sc)) \<le> 2 ^ l)"
proof -
  let ?sz = "fw_size (scratch s sc)"
  have f: "first_in (\<lambda>i. ?sz \<le> shl 1 i) 0 64 = l" by (simp add: l_def log2roundup_first)
  have "4 < unat ?sz" using assms(4) by (simp add: word_less_nat_alt)
  then have "(4 :: nat) < 2 ^ l" using log2roundup_bound [of ?sz] by (simp add: l_def)
  then have l1: "2 < l" using power_increasing [of l 2 "2 :: nat"] by (cases "l \<le> 2") auto
  have l2: "l < 64"
    using first_in_cases [of 0 64 "\<lambda>i. ?sz \<le> shl 1 i"] assms(5) f by (auto simp: shl_def dest: spec [of _ 63])
  obtain s' where s': "pmp_init c h sc s = Ret 0 s'" "csrs_only h s s'"
    "pmp_get 0 (csr (harts s' h)) = Some (0, Some (PMP_A_NAPOT, base, shl 1 l))"
    using pmp_init_run [OF assms(1,2)] l1 l2 unfolding base_def l_def by auto
  have "unat base \<le> unat (fw_start (scratch s sc))"
    unfolding base_def by (simp add: word_le_nat_alt [symmetric] word_and_le2)
  then have nw: "unat (base + shl 1 l) = unat base + 2 ^ l"
    using assms(6) l2 by (subst unat_add_lem [THEN iffD1]) (auto simp: l_def [symmetric] unat_shl_one)
  have "sbi_hart_pmp_check_addr h sc addr attr s' = Ret SBI_EINVALID_ADDR s'"
    if "base \<le> addr" "unat addr < unat base + 2 ^ l" "attr AND PMP_A = 0" for addr attr
    using s'(3) that nw assms(1,3) csrs_only_simps [OF s'(2)]
    by (intro pmp_check_denied) (auto simp: word_le_nat_alt and.commute)
  moreover have "base = fw_start (scratch s sc)" if "fw_start (scratch s sc) AND mask l = 0"
    using and_plus_and_not [of "fw_start (scratch s sc)" "mask l"] that by (simp add: base_def)
  moreover have "unat ?sz \<le> 2 ^ l" using log2roundup_bound [of ?sz] by (simp add: l_def)
  ultimately show ?thesis using s'(1) by blast
qed

theorem pmp_init_protects_firmware_witness:
  "\<exists>s'. pmp_init bare_cfg 0 0 (two_harts\<lparr>scratch := (\<lambda>_. zero_scratch\<lparr>extra := (\<lambda>_. 7),
        fw_start := 0x80000000, fw_size := 0x20000\<rparr>)\<rparr>) = Ret 0 s' \<and>
    sbi_hart_pmp_check_addr 0 0 0x80001000 PMP_X s' = Ret SBI_EINVALID_ADDR s'"
proof -
  have l: "log2roundup 0x20000 = 17" by code_simp
  show ?thesis
    using pmp_init_protects_firmware [of 0 "two_harts\<lparr>scratch := (\<lambda>_. zero_scratch\<lparr>extra := (\<lambda>_. 7),
        fw_start := 0x80000000, fw_size := 0x20000\<rparr>)\<rparr>" bare_cfg 0]
    by (auto simp: scratch_rd_def pmp_info_ok_def sbi_platform_pmp_region_count_def plat_op_def bare_cfg_def l
        mask_eq_exp_minus_1)
qed

text \<open>
  The upper end of a denied region is one byte too far. An address just behind a region
  that forbids the access, which the hardware entry does not match, is refused as well.
\<close>

lemma pmp_check_addr_upper_bound:
  assumes "pmp_get 0 (csr (harts s h)) = Some (r, Some (prot, base, sz))" "prot AND PMP_A \<noteq> 0"
    "prot AND attr = 0" "base \<le> base + sz"
    "scratch_rd sc (hart_features_offset s) s AND SBI_HART_HAS_PMP \<noteq> 0"
    "scratch_rd sc (hart_features_offset s + 8) s \<noteq> 0"
  shows "sbi_hart_pmp_check_addr h sc (base + sz) attr s = Ret SBI_EINVALID_ADDR s"
  using assms by (intro pmp_check_denied) auto

text \<open>
  The switch to the next boot stage never returns. It hangs when the hart does not have the
  requested mode; otherwise it executes \<open>mret\<close> with the two arguments, into the requested mode and
  address (\<open>mstatus.MPP\<close> and \<open>mepc\<close>), with interrupts disabled on return, and for S-mode with
  address translation off and the trap vector at the entry point.
\<close>

lemma switch_mode_outcome:
  "case sbi_hart_switch_mode c h a0 a1 naddr nmode virt s of
     Ret _ _ \<Rightarrow> False
   | Halt r s' \<Rightarrow>
       if nmode = PRV_M \<or>
          nmode = PRV_S \<and> misa_has c h (ch CHR ''S'') (csr (harts s h) CSR_MISA) \<or>
          nmode = PRV_U \<and> misa_has c h (ch CHR ''U'') (csr (harts s h) CSR_MISA)
       then r = Mret a0 a1 \<and>
         csr (harts s' h) CSR_MSTATUS AND MSTATUS_MPP = nmode * 0x800 \<and>
         csr (harts s' h) CSR_MSTATUS AND MSTATUS_MPIE = 0 \<and>
         csr (harts s' h) CSR_MEPC = naddr \<and>
         (if nmode = PRV_S
          then csr (harts s' h) CSR_SATP = 0 \<and> csr (harts s' h) CSR_STVEC = naddr \<and>
            csr (harts s' h) CSR_SIE = 0
          else True)
       else r = Hang \<and> s' = s"
  unfolding sbi_hart_switch_mode_def sbi_hart_hang_def Let_def
  by (auto simp: run_simps insert_field_simps)

lemma bit_of_mask: "bit (shl 1 k :: ulong) i \<longleftrightarrow> i = k \<and> k < 64"
  by (cases "i < 64") (auto simp: bit_shl bit_1_iff dest: bit_imp_le_length)

text \<open>
  C38: which traps go to S-mode without passing through the firmware, as the numbers of the privileged architecture. On a hart with S-mode these are
  exactly: the supervisor software, timer and external interrupts (1, 5, 9); misaligned fetches, breakpoints and user calls (0, 3, 8); the
  three page faults (12, 13, 15) if and only if the platform delegates faults; and the calls of a guest supervisor, the guest page faults and
  virtual instruction faults (10, 20 to 23) if and only if the hart has the hypervisor extension. So illegal instructions (2), misaligned
  loads and stores (4, 6), supervisor calls (9) and the machine interrupts always reach the firmware, which emulates or serves them. No
  other register and no other hart changes, and on a hart without S-mode nothing does.
\<close>

theorem delegate_traps_exact:
  fixes c :: "'d cfg" and s :: "'d sys" and h :: nat
  defines "has \<equiv> \<lambda>e. misa_has c h e (csr (harts s h) CSR_MISA)"
  shows "\<exists>s'. delegate_traps c h s = Ret 0 s' \<and>
    (if has (ch CHR ''S'')
     then (\<forall>i. bit (csr (harts s' h) CSR_MIDELEG) i \<longleftrightarrow> i \<in> {1, 5, 9}) \<and>
       (\<forall>i. bit (csr (harts s' h) CSR_MEDELEG) i \<longleftrightarrow>
          i \<in> {0, 3, 8} \<or> sbi_platform_has_mfaults_delegation c \<and> i \<in> {12, 13, 15} \<or>
          has (ch CHR ''H'') \<and> i \<in> {10, 20, 21, 22, 23}) \<and>
       (\<forall>n. n \<noteq> CSR_MIDELEG \<and> n \<noteq> CSR_MEDELEG \<longrightarrow> csr (harts s' h) n = csr (harts s h) n) \<and>
       s' = upd_hart h (\<lambda>t. t\<lparr>csr := csr (harts s' h)\<rparr>) s
     else s' = s)"
proof -
  have m: "MIP_SSIP = shl 1 1" "MIP_STIP = shl 1 5" "MIP_SEIP = shl 1 9" by (simp_all add: shl_def)
  show ?thesis
    by (auto simp: delegate_traps_def run_simps Let_def has_def m bit_or_iff bit_of_mask upd_hart_def)
qed

theorem delegate_traps_exact_witness:
  "\<exists>s'. delegate_traps bare_cfg 0 (two_harts\<lparr>harts := (\<lambda>_. zero_hart\<lparr>csr := (\<lambda>_. - 1)\<rparr>)\<rparr>) = Ret 0 s' \<and>
    bit (csr (harts s' 0) CSR_MIDELEG) 5 \<and> \<not> bit (csr (harts s' 0) CSR_MIDELEG) 7 \<and>
    bit (csr (harts s' 0) CSR_MEDELEG) 3 \<and> bit (csr (harts s' 0) CSR_MEDELEG) 20 \<and>
    \<not> bit (csr (harts s' 0) CSR_MEDELEG) 9 \<and> \<not> bit (csr (harts s' 0) CSR_MEDELEG) 2 \<and> csr (harts s' 0) CSR_MIE = - 1"
proof -
  have "misa_has bare_cfg 0 (ch CHR ''S'') (- 1)" "misa_has bare_cfg 0 (ch CHR ''H'') (- 1)" by (simp_all add: misa_has_def shl_def)
  then show ?thesis using delegate_traps_exact [of bare_cfg 0 "two_harts\<lparr>harts := (\<lambda>_. zero_hart\<lparr>csr := (\<lambda>_. - 1)\<rparr>)\<rparr>"] by auto
qed

end
