(* ===== verification/Sbi_Hsm.thy ===== *)
theory Sbi_Hsm
  imports Sbi_Hart
begin

text \<open>
  Hart state management, \<^verbatim>\<open>lib/sbi/sbi_hsm.c\<close>, with \<open>sbi_init_count\<close> of \<^verbatim>\<open>lib/sbi/sbi_init.c\<close>.

  The state of a hart is one word of its scratch area, changed only by compare-and-exchange
  once it is initialised. \<open>hsm_spec\<close> is the state machine the component promises, \<open>hsm_call\<close> one
  call by some hart, and the refinement is stated over arbitrary sequences of calls by all harts.

  \<open>sbi_hsm_hart_stop\<close> may call \<open>sbi_exit\<close>, which is defined in terms of later components: it is
  an argument here.
\<close>

section \<open>States\<close>

abbreviation (input) SBI_HART_STOPPED :: ulong where "SBI_HART_STOPPED \<equiv> 0"
abbreviation (input) SBI_HART_STOPPING :: ulong where "SBI_HART_STOPPING \<equiv> 1"
abbreviation (input) SBI_HART_STARTING :: ulong where "SBI_HART_STARTING \<equiv> 2"
abbreviation (input) SBI_HART_STARTED :: ulong where "SBI_HART_STARTED \<equiv> 3"
abbreviation (input) SBI_HART_UNKNOWN :: int where "SBI_HART_UNKNOWN \<equiv> 4"

abbreviation (input) SBI_HSM_HART_STATUS_STARTED :: int where "SBI_HSM_HART_STATUS_STARTED \<equiv> 0"
abbreviation (input) SBI_HSM_HART_STATUS_STOPPED :: int where "SBI_HSM_HART_STATUS_STOPPED \<equiv> 1"
abbreviation (input) SBI_HSM_HART_STATUS_START_PENDING :: int where "SBI_HSM_HART_STATUS_START_PENDING \<equiv> 2"
abbreviation (input) SBI_HSM_HART_STATUS_STOP_PENDING :: int where "SBI_HSM_HART_STATUS_STOP_PENDING \<equiv> 3"

text \<open>A \<^verbatim>\<open>long\<close> returned as an \<^verbatim>\<open>int\<close>, and stored in an \<^verbatim>\<open>u32\<close>.\<close>

definition to_int :: "ulong \<Rightarrow> int" where
  "to_int w = sint (ucast w :: u32)"

abbreviation (input) to_u32 :: "ulong \<Rightarrow> u32" where "to_u32 w \<equiv> ucast w"

definition sbi_hsm_hart_state_to_status :: "int \<Rightarrow> int" where
  "sbi_hsm_hart_state_to_status state =
     (if state = 0 then SBI_HSM_HART_STATUS_STOPPED
      else if state = 1 then SBI_HSM_HART_STATUS_STOP_PENDING
      else if state = 2 then SBI_HSM_HART_STATUS_START_PENDING
      else if state = 3 then SBI_HSM_HART_STATUS_STARTED
      else SBI_EINVAL)"

definition sbi_hsm_hart_get_state :: "nat \<Rightarrow> 'd sys \<Rightarrow> ('d sys, int) outcome" where
  "sbi_hsm_hart_get_state hartid =
     bindM (sbi_hartid_to_scratch hartid) (\<lambda>r.
       case r of
         None \<Rightarrow> retM SBI_HART_UNKNOWN
       | Some sc \<Rightarrow> bindM (getM hart_data_offset) (\<lambda>off. bindM (atomic_read sc off) (\<lambda>st. retM (to_int st))))"

definition sbi_hsm_hart_started :: "nat \<Rightarrow> 'd sys \<Rightarrow> ('d sys, bool) outcome" where
  "sbi_hsm_hart_started hartid = bindM (sbi_hsm_hart_get_state hartid) (\<lambda>st. retM (st = 3))"

fun started_mask_loop :: "nat \<Rightarrow> nat list \<Rightarrow> ulong \<Rightarrow> 'd sys \<Rightarrow> ('d sys, ulong) outcome" where
  "started_mask_loop hbase [] hmask = retM hmask"
| "started_mask_loop hbase (i # is) hmask =
     bindM (sbi_hsm_hart_get_state i) (\<lambda>st.
       started_mask_loop hbase is (if st = 3 then hmask OR shl 1 (i - hbase) else hmask))"

definition sbi_hsm_hart_started_mask :: "ulong \<Rightarrow> 'd sys \<Rightarrow> ('d sys, int \<times> ulong) outcome" where
  "sbi_hsm_hart_started_mask hbase =
     bindM sbi_scratch_last_hartid (\<lambda>last.
       (let hcount = last + 1 in
        if hcount \<le> unat hbase then retM (SBI_EINVAL, 0)
        else
          (let hcount = (if 64 < hcount - unat hbase then 64 else hcount) in
           bindM (started_mask_loop (unat hbase) [unat hbase..<hcount] 0) (\<lambda>hmask. retM (0, hmask)))))"

section \<open>Operations\<close>

definition sbi_hsm_prepare_next_jump :: "nat \<Rightarrow> 'd sys \<Rightarrow> ('d sys, unit) outcome" where
  "sbi_hsm_prepare_next_jump sc =
     bindM (getM hart_data_offset) (\<lambda>off.
     bindM (atomic_cmpxchg sc off SBI_HART_STARTING SBI_HART_STARTED) (\<lambda>oldstate.
       whenM (to_u32 oldstate \<noteq> 2) sbi_hart_hang))"

fun hart_wait_loop :: "'d cfg \<Rightarrow> nat \<Rightarrow> nat \<Rightarrow> ulong \<Rightarrow> nat \<Rightarrow> 'd sys \<Rightarrow> ('d sys, unit) outcome" where
  "hart_wait_loop c h sc off 0 = haltM Spin"
| "hart_wait_loop c h sc off (Suc n) =
     bindM (atomic_read sc off) (\<lambda>st.
       if st \<noteq> SBI_HART_STARTING then seqM (modM (interf c h)) (hart_wait_loop c h sc off n) else retM ())"

definition sbi_hsm_hart_wait :: "'d cfg \<Rightarrow> nat \<Rightarrow> nat \<Rightarrow> 'd sys \<Rightarrow> ('d sys, unit) outcome" where
  "sbi_hsm_hart_wait c h sc =
     bindM (getM hart_data_offset) (\<lambda>off.
     bindM (csr_read h CSR_MIE) (\<lambda>saved_mie.
     seqM (csr_set h CSR_MIE MIP_MSIP)
    (seqM (hart_wait_loop c h sc off (fuel c))
    (seqM (csr_write h CSR_MIE saved_mie)
          (sbi_platform_ipi_clear c h)))))"

definition sbi_hsm_init :: "'d cfg \<Rightarrow> nat \<Rightarrow> nat \<Rightarrow> bool \<Rightarrow> 'd sys \<Rightarrow> ('d sys, int) outcome" where
  "sbi_hsm_init c h sc cold_boot =
     (if cold_boot then
        bindM (sbi_scratch_alloc_offset 8) (\<lambda>off.
        seqM (modM (\<lambda>s. s\<lparr>hart_data_offset := off\<rparr>))
          (if off = 0 then retM SBI_ENOMEM
           else
             bindM sbi_scratch_last_hartid (\<lambda>last.
             seqM (forM [0..<last + 1] (\<lambda>i.
                     bindM (sbi_hartid_to_scratch i) (\<lambda>r.
                       case r of None \<Rightarrow> retM ()
                       | Some rsc \<Rightarrow>
                           atomic_write rsc off (if i = h then SBI_HART_STARTING else SBI_HART_STOPPED))))
               (retM 0))))
      else seqM (sbi_hsm_hart_wait c h sc) (retM 0))"

text \<open>The part of \<open>sbi_hsm_exit\<close> behind the state change.\<close>

definition hsm_exit_tail :: "'d cfg \<Rightarrow> nat \<Rightarrow> ulong \<Rightarrow> u32 \<Rightarrow> 'd sys \<Rightarrow> ('d sys, unit) outcome" where
  "hsm_exit_tail c h jump_warmboot hstate =
     (let fail_exit = seqM (printfM c ''ERR: Failed stop hart [%u]\<newline>'' [Vword (of_nat h)]) sbi_hart_hang in
      if hstate \<noteq> 1 then fail_exit
      else if sbi_platform_has_hart_hotplug c then bindM (sbi_platform_hart_stop c h) (\<lambda>_. fail_exit)
      else haltM (Jump jump_warmboot))"

definition sbi_hsm_exit :: "'d cfg \<Rightarrow> nat \<Rightarrow> nat \<Rightarrow> 'd sys \<Rightarrow> ('d sys, unit) outcome" where
  "sbi_hsm_exit c h sc =
     bindM (getM hart_data_offset) (\<lambda>off.
     bindM (getM (\<lambda>s. warmboot_addr (scratch s sc))) (\<lambda>jump_warmboot.
     bindM (atomic_cmpxchg sc off SBI_HART_STOPPING SBI_HART_STOPPED) (\<lambda>hstate.
       hsm_exit_tail c h jump_warmboot (to_u32 hstate))))"

definition sbi_init_count :: "nat \<Rightarrow> 'd sys \<Rightarrow> ('d sys, ulong) outcome" where
  "sbi_init_count hartid =
     bindM (getM init_count_offset) (\<lambda>off.
       if off = 0 then retM 0
       else bindM (sbi_hartid_to_scratch hartid) (\<lambda>r.
              case r of None \<Rightarrow> retM 0 | Some sc \<Rightarrow> getM (scratch_rd sc off)))"

text \<open>The part of \<open>sbi_hsm_hart_start\<close> behind the state change.\<close>

definition hart_start_tail :: "'d cfg \<Rightarrow> nat \<Rightarrow> nat \<Rightarrow> nat \<Rightarrow> nat \<Rightarrow> ulong \<Rightarrow> ulong \<Rightarrow> 'd sys \<Rightarrow> ('d sys, int) outcome" where
  "hart_start_tail c h sc rsc hartid saddr priv =
     bindM (sbi_hart_pmp_check_addr h sc saddr PMP_X) (\<lambda>rc.
       if rc \<noteq> 0 then retM rc
       else
         bindM (sbi_init_count hartid) (\<lambda>init_count.
         seqM (modM (upd_scratch rsc (\<lambda>t. t\<lparr>next_arg1 := priv\<rparr>)))
        (seqM (modM (upd_scratch rsc (\<lambda>t. t\<lparr>next_addr := saddr\<rparr>)))
           (if sbi_platform_has_hart_hotplug c \<or>
               sbi_platform_has_hart_secondary_boot c \<and> init_count = 0
            then bindM (getM (\<lambda>s. warmboot_addr (scratch s sc))) (\<lambda>w.
                   sbi_platform_hart_start c hartid w)
            else seqM (sbi_platform_ipi_send c hartid) (retM 0)))))"

definition sbi_hsm_hart_start :: "'d cfg \<Rightarrow> nat \<Rightarrow> nat \<Rightarrow> nat \<Rightarrow> ulong \<Rightarrow> ulong \<Rightarrow> 'd sys \<Rightarrow> ('d sys, int) outcome" where
  "sbi_hsm_hart_start c h sc hartid saddr priv =
     bindM (sbi_hartid_to_scratch hartid) (\<lambda>r.
       case r of
         None \<Rightarrow> retM SBI_EINVAL
       | Some rsc \<Rightarrow>
           bindM (getM hart_data_offset) (\<lambda>off.
           bindM (atomic_cmpxchg rsc off SBI_HART_STOPPED SBI_HART_STARTING) (\<lambda>hstate.
             if to_u32 hstate = 3 then retM SBI_EALREADY
             else if to_u32 hstate \<noteq> 0 then retM SBI_EINVAL
             else hart_start_tail c h sc rsc hartid saddr priv)))"

definition sbi_hsm_hart_stop :: "'d cfg \<Rightarrow> nat \<Rightarrow> (nat \<Rightarrow> 'd sys \<Rightarrow> ('d sys, unit) outcome) \<Rightarrow> nat \<Rightarrow> bool \<Rightarrow>
    'd sys \<Rightarrow> ('d sys, int) outcome" where
  "sbi_hsm_hart_stop c h sbi_exit sc exitnow =
     bindM (sbi_hsm_hart_started h) (\<lambda>b.
       if \<not> b then retM SBI_EINVAL
       else
         bindM (getM hart_data_offset) (\<lambda>off.
         bindM (atomic_cmpxchg sc off SBI_HART_STARTED SBI_HART_STOPPING) (\<lambda>oldstate.
           if to_int oldstate \<noteq> 3 then
             seqM (printfM c ''%s: ERR: The hart is in invalid state [%u]\<newline>''
                     [Vstr (Some (cs ''sbi_hsm_hart_stop'')), Vword oldstate])
               (retM SBI_EDENIED)
           else seqM (whenM exitnow (sbi_exit sc)) (retM 0))))"

section \<open>The state machine\<close>

text \<open>What a hart can ask for, and the states of all harts as seen in their scratch areas.\<close>

datatype hsm_op = Start nat ulong ulong | NextJump | Stop | Exit

type_synonym hsm_map = "nat \<Rightarrow> ulong option"

definition hsm_granted :: "nat \<Rightarrow> hsm_op \<Rightarrow> hsm_map \<Rightarrow> bool" where
  "hsm_granted h cmd m \<longleftrightarrow> m h \<noteq> None \<and>
     (case cmd of
        Start i _ _ \<Rightarrow> m i = Some SBI_HART_STOPPED
      | NextJump \<Rightarrow> m h = Some SBI_HART_STARTING
      | Stop \<Rightarrow> m h = Some SBI_HART_STARTED
      | Exit \<Rightarrow> m h = Some SBI_HART_STOPPING)"

definition hsm_spec :: "nat \<times> hsm_op \<Rightarrow> hsm_map \<Rightarrow> hsm_map" where
  "hsm_spec = (\<lambda>(h, cmd) m.
     if hsm_granted h cmd m then
       (case cmd of
          Start i _ _ \<Rightarrow> m(i \<mapsto> SBI_HART_STARTING)
        | NextJump \<Rightarrow> m(h \<mapsto> SBI_HART_STARTED)
        | Stop \<Rightarrow> m(h \<mapsto> SBI_HART_STOPPING)
        | Exit \<Rightarrow> m(h \<mapsto> SBI_HART_STOPPED))
     else m)"

definition area_of :: "'d sys \<Rightarrow> nat \<Rightarrow> nat option" where
  "area_of s i = (if i < SBI_HARTMASK_MAX_BITS then hartid_to_scratch_table s ! i else None)"

definition hsm_view :: "'d sys \<Rightarrow> hsm_map" where
  "hsm_view s i = map_option (\<lambda>sc. scratch_rd sc (hart_data_offset s) s) (area_of s i)"

definition hsm_ok :: "'d sys \<Rightarrow> bool" where
  "hsm_ok s \<longleftrightarrow> scratch_wf s \<and> ran (hsm_view s) \<subseteq> {0, 1, 2, 3}"

text \<open>The call of hart \<open>h\<close>, which runs only when it has a scratch area.\<close>

definition hsm_call :: "'d cfg \<Rightarrow> nat \<Rightarrow> hsm_op \<Rightarrow> nat \<Rightarrow> 'd sys \<Rightarrow> ('d sys, int) outcome" where
  "hsm_call c h cmd sc =
     (case cmd of
        Start i saddr priv \<Rightarrow> sbi_hsm_hart_start c h sc i saddr priv
      | NextJump \<Rightarrow> seqM (sbi_hsm_prepare_next_jump sc) (retM 0)
      | Stop \<Rightarrow> sbi_hsm_hart_stop c h (\<lambda>_. haltM Hang) sc False
      | Exit \<Rightarrow> seqM (sbi_hsm_exit c h sc) (retM 0))"

definition hsm_step :: "'d cfg \<Rightarrow> nat \<times> hsm_op \<Rightarrow> 'd sys \<Rightarrow> 'd sys" where
  "hsm_step c = (\<lambda>(h, cmd) s. case area_of s h of None \<Rightarrow> s | Some sc \<Rightarrow> final (hsm_call c h cmd sc s))"

section \<open>Frame\<close>

definition hsm_rel :: "'d sys \<Rightarrow> 'd sys \<Rightarrow> bool" where
  "hsm_rel s s' \<longleftrightarrow> hsm_view s' = hsm_view s \<and> hartid_to_scratch_table s' = hartid_to_scratch_table s \<and>
     last_hartid_having_scratch s' = last_hartid_having_scratch s \<and> hart_data_offset s' = hart_data_offset s"

interpretation hsmf: frame hsm_rel
  by unfold_locales (auto simp: hsm_rel_def)

lemma dev_rel_hsm: "dev_rel s s' \<Longrightarrow> hsm_rel s s'"
  by (auto simp: dev_rel_def hsm_rel_def hsm_view_def area_of_def scratch_rd_def fun_eq_iff)

lemma hsm_keeps_dev: "devf.keeps m \<Longrightarrow> hsmf.keeps m"
  using dev_rel_hsm by (auto simp: devf.keeps_def hsmf.keeps_def)

lemma hsm_ok_rel: "hsm_rel s s' \<Longrightarrow> hsm_ok s' = hsm_ok s"
  by (simp add: hsm_rel_def hsm_ok_def scratch_wf_def)

lemma hsm_rel_upd_scratch:
  "(\<And>t. extra (f t) = extra t) \<Longrightarrow> hsm_rel s (upd_scratch sc f s)"
proof -
  assume "\<And>t. extra (f t) = extra t"
  then have "scratch_rd x off (upd_scratch sc f s) = scratch_rd x off s" for x off
    by (simp add: scratch_rd_def)
  moreover have "hart_data_offset (upd_scratch sc f s) = hart_data_offset s" by (simp add: upd_scratch_def)
  ultimately show ?thesis by (simp add: hsm_rel_def hsm_view_def area_of_def fun_eq_iff)
qed

lemma hart_data_offset_wr [simp]: "hart_data_offset (scratch_wr sc off w s) = hart_data_offset s"
  by (simp add: scratch_wr_def upd_scratch_def)

lemma area_of_wr [simp]: "area_of (scratch_wr sc off w s) = area_of s"
  by (simp add: area_of_def fun_eq_iff)

lemma hsm_view_wr:
  assumes "scratch_wf s" "area_of s i = Some sc"
  shows "hsm_view (scratch_wr sc (hart_data_offset s) w s) = (hsm_view s)(i \<mapsto> w)"
proof
  have *: "area_of s j = Some sc \<longleftrightarrow> j = i" for j
    using assms scratch_wfD(4) [OF assms(1)] by (auto simp: area_of_def split: if_splits)
  show "hsm_view (scratch_wr sc (hart_data_offset s) w s) j = ((hsm_view s)(i \<mapsto> w)) j" for j
    using * [of j] assms(2)
    by (cases "area_of s j") (auto simp: hsm_view_def area_of_def scratch_rd_wr)
qed

lemma hsm_ok_wr:
  assumes "hsm_ok s" "area_of s i = Some sc" "w \<in> {0, 1, 2, 3}"
  shows "hsm_ok (scratch_wr sc (hart_data_offset s) w s)"
proof -
  have "scratch_wf s" using assms(1) by (simp add: hsm_ok_def)
  then show ?thesis
    using assms hsm_view_wr [OF \<open>scratch_wf s\<close> assms(2), of w]
    by (auto simp: hsm_ok_def scratch_wf_def ran_def)
qed

text \<open>The states a hart with an area can be in, and how the code compares them.\<close>

lemma hsm_state_cases:
  assumes "hsm_ok s" "area_of s i = Some sc"
  shows "scratch_rd sc (hart_data_offset s) s \<in> {0, 1, 2, 3}"
proof -
  have "hsm_view s i = Some (scratch_rd sc (hart_data_offset s) s)" using assms(2) by (simp add: hsm_view_def)
  from ranI [of "hsm_view s", OF this] show ?thesis using assms(1) unfolding hsm_ok_def by blast
qed

lemma run_cmpxchg [run_simps]:
  "atomic_cmpxchg sc off a b s =
    Ret (scratch_rd sc off s) (if scratch_rd sc off s = a then scratch_wr sc off b s else s)"
  by (simp add: atomic_cmpxchg_def run_simps)

lemma hsm_cas:
  fixes a :: ulong
  assumes "hsm_ok s" "area_of s i = Some sc" "b \<in> {0, 1, 2, 3}"
  defines "s' \<equiv> (if scratch_rd sc (hart_data_offset s) s = a then scratch_wr sc (hart_data_offset s) b s else s)"
  shows "hsm_ok s'" "hsm_view s' = (if hsm_view s i = Some a then (hsm_view s)(i \<mapsto> b) else hsm_view s)"
proof -
  have "hsm_view s i = Some (scratch_rd sc (hart_data_offset s) s)" using assms(2) by (simp add: hsm_view_def)
  then show "hsm_ok s'" "hsm_view s' = (if hsm_view s i = Some a then (hsm_view s)(i \<mapsto> b) else hsm_view s)"
    using assms hsm_view_wr [OF _ assms(2), of b] hsm_ok_wr [OF assms(1-3)] by (auto simp: hsm_ok_def)
qed

lemma hsm_keeps_start_tail: "hsmf.keeps (hart_start_tail c h sc rsc hartid saddr priv)"
proof -
  have 1: "hsmf.keeps (sbi_hart_pmp_check_addr h sc saddr PMP_X)"
    by (simp add: hsmf.keeps_def pmp_check_addr_reads hsmf.R_refl)
  have 2: "hsmf.keeps (sbi_init_count hartid)"
    unfolding sbi_init_count_def sbi_hartid_to_scratch_def by (intro hsmf.keeps_rules)
  have 3: "hsmf.keeps (sbi_platform_hart_start c hartid w)" for w
    unfolding sbi_platform_hart_start_def by (intro hsm_keeps_dev devf.keeps_rules keeps_dev_run)
  have 4: "hsmf.keeps (sbi_platform_ipi_send c hartid)"
    unfolding plat_wrapper_defs by (intro hsm_keeps_dev keeps_plat_void_op)
  show ?thesis
    unfolding hart_start_tail_def
    by (intro hsmf.keeps_rules 1 2 3 4 hsmf.keeps_mod hsm_rel_upd_scratch) simp_all
qed

lemma hsm_keeps_exit_tail: "hsmf.keeps (hsm_exit_tail c h w hstate)"
proof -
  have "devf.keeps (hsm_exit_tail c h w hstate)"
    unfolding hsm_exit_tail_def Let_def sbi_hart_hang_def sbi_platform_hart_stop_def
    by (intro devf.keeps_rules keeps_printfM keeps_dev_run)
  then show ?thesis by (rule hsm_keeps_dev)
qed

text \<open>After the compare-and-exchange of an operation nothing changes a state.\<close>

lemma hsm_keeps_view:
  assumes "hsmf.keeps m" "hsm_ok s"
  shows "hsm_ok (final (m s)) \<and> hsm_view (final (m s)) = hsm_view s"
  using hsmf.keepsD [OF assms(1), of s] assms(2) by (simp add: hsm_ok_rel) (simp add: hsm_rel_def)

lemma hsm_start_cases:
  assumes "hsm_ok s" "area_of s i = Some rsc"
  defines "w \<equiv> scratch_rd rsc (hart_data_offset s) s"
  shows "sbi_hsm_hart_start c h sc i saddr priv s =
    (if w = SBI_HART_STOPPED
     then hart_start_tail c h sc rsc i saddr priv (scratch_wr rsc (hart_data_offset s) SBI_HART_STARTING s)
     else Ret (if w = SBI_HART_STARTED then SBI_EALREADY else SBI_EINVAL) s)"
  using assms hsm_state_cases [OF assms(1,2)] scratch_wfD(1) [of s]
  by (auto simp: sbi_hsm_hart_start_def run_simps area_of_def hsm_ok_def split: if_splits)

lemma hsm_start_unknown:
  assumes "hsm_ok s" "area_of s i = None"
  shows "sbi_hsm_hart_start c h sc i saddr priv s =
    (if i < SBI_HARTMASK_MAX_BITS then Ret SBI_EINVAL s else Halt BadAccess s)"
  using assms scratch_wfD(1) [of s]
  by (auto simp: sbi_hsm_hart_start_def run_simps area_of_def hsm_ok_def split: if_splits)

lemma hsm_start_view:
  assumes "hsm_ok s" "hsm_view s h \<noteq> None"
  shows "hsm_ok (final (sbi_hsm_hart_start c h sc i saddr priv s)) \<and>
    hsm_view (final (sbi_hsm_hart_start c h sc i saddr priv s)) = hsm_spec (h, Start i saddr priv) (hsm_view s)"
proof (cases "area_of s i")
  case None
  then show ?thesis
    using assms hsm_start_unknown [OF assms(1) None]
    by (simp add: hsm_spec_def hsm_granted_def hsm_view_def)
next
  case (Some rsc)
  have v: "hsm_view s i = Some (scratch_rd rsc (hart_data_offset s) s)" using Some by (simp add: hsm_view_def)
  show ?thesis
    using assms v hsm_start_cases [OF assms(1) Some] hsm_cas [OF assms(1) Some, of 2 0]
      hsm_keeps_view [OF hsm_keeps_start_tail, of "scratch_wr rsc (hart_data_offset s) 2 s" c h sc rsc i saddr priv]
    by (cases "scratch_rd rsc (hart_data_offset s) s = 0") (auto simp: hsm_spec_def hsm_granted_def)
qed

lemma hsm_stop_cases:
  assumes "hsm_ok s" "area_of s h = Some sc"
  shows "sbi_hsm_hart_stop c h xit sc exitnow s =
    (if scratch_rd sc (hart_data_offset s) s = SBI_HART_STARTED
     then seqM (whenM exitnow (xit sc)) (retM 0) (scratch_wr sc (hart_data_offset s) SBI_HART_STOPPING s)
     else Ret SBI_EINVAL s)"
  using assms hsm_state_cases [OF assms] scratch_wfD(1) [of s]
  by (auto simp: sbi_hsm_hart_stop_def sbi_hsm_hart_started_def sbi_hsm_hart_get_state_def
      atomic_read_def run_simps area_of_def hsm_ok_def to_int_def split: if_splits)

lemma hsm_exit_view:
  assumes "hsm_ok s" "area_of s h = Some sc"
  shows "hsm_ok (final (sbi_hsm_exit c h sc s)) \<and>
    hsm_view (final (sbi_hsm_exit c h sc s)) = hsm_spec (h, Exit) (hsm_view s)"
proof -
  define s' where "s' = (if scratch_rd sc (hart_data_offset s) s = 1
    then scratch_wr sc (hart_data_offset s) 0 s else s)"
  have "sbi_hsm_exit c h sc s = hsm_exit_tail c h (warmboot_addr (scratch s sc))
      (to_u32 (scratch_rd sc (hart_data_offset s) s)) s'"
    by (simp add: sbi_hsm_exit_def run_simps s'_def)
  then show ?thesis
    using hsm_cas [OF assms, of 0 1] hsm_keeps_view [OF hsm_keeps_exit_tail, of s']
    by (auto simp: s'_def [symmetric] hsm_spec_def hsm_granted_def)
qed

lemma hsm_call_view:
  assumes "hsm_ok s" "area_of s h = Some sc"
  shows "hsm_ok (final (hsm_call c h cmd sc s)) \<and>
    hsm_view (final (hsm_call c h cmd sc s)) = hsm_spec (h, cmd) (hsm_view s)"
proof -
  have w: "hsm_view s h = Some (scratch_rd sc (hart_data_offset s) s)" using assms(2) by (simp add: hsm_view_def)
  note cas = hsm_cas [OF assms]
  show ?thesis
  proof (cases cmd)
    case (Start i saddr priv)
    then show ?thesis using hsm_start_view [OF assms(1)] w by (simp add: hsm_call_def)
  next
    case NextJump
    then show ?thesis
      using cas [of 3 2] w
      by (auto simp: hsm_call_def sbi_hsm_prepare_next_jump_def sbi_hart_hang_def run_simps hsm_spec_def hsm_granted_def)
  next
    case Stop
    then show ?thesis
      using cas [of 1 3] w
      by (auto simp: hsm_call_def hsm_stop_cases [OF assms] run_simps hsm_spec_def hsm_granted_def)
  next
    case Exit
    have "final (hsm_call c h cmd sc s) = final (sbi_hsm_exit c h sc s)"
      by (simp add: Exit hsm_call_def run_simps split: outcome.splits)
    then show ?thesis using hsm_exit_view [OF assms] by (simp add: Exit)
  qed
qed

interpretation hsm_ref: refinement hsm_ok hsm_view "hsm_step c" hsm_spec for c
proof
  fix s :: "'a sys" and e :: "nat \<times> hsm_op"
  assume ok: "hsm_ok s"
  obtain h cmd where e: "e = (h, cmd)" by (cases e)
  have "hsm_ok (hsm_step c e s) \<and> hsm_view (hsm_step c e s) = hsm_spec e (hsm_view s)"
  proof (cases "area_of s h")
    case None
    then show ?thesis using ok by (simp add: e hsm_step_def hsm_spec_def hsm_granted_def hsm_view_def)
  next
    case (Some sc)
    then show ?thesis using hsm_call_view [OF ok Some] by (simp add: e hsm_step_def)
  qed
  then show "hsm_ok (hsm_step c e s)" "hsm_view (hsm_step c e s) = hsm_spec e (hsm_view s)" by simp_all
qed

text \<open>Without a completed exit of hart \<open>i\<close> it does not become stopped.\<close>

lemma not_stopped_without_exit:
  assumes "(i, Exit) \<notin> set es" "m i \<noteq> Some SBI_HART_STOPPED"
  shows "fold hsm_spec es m i \<noteq> Some SBI_HART_STOPPED"
  using assms
proof (induction es arbitrary: m)
  case (Cons e es)
  obtain h cmd where e: "e = (h, cmd)" by (cases e)
  have "hsm_spec e m i \<noteq> Some SBI_HART_STOPPED"
    using Cons.prems by (cases cmd) (auto simp: e hsm_spec_def)
  then show ?case using Cons by simp
qed simp

section \<open>The mask of started harts\<close>

lemma get_state_run:
  assumes "hsm_ok s" "i < SBI_HARTMASK_MAX_BITS"
  shows "sbi_hsm_hart_get_state i s =
    Ret (case hsm_view s i of None \<Rightarrow> SBI_HART_UNKNOWN | Some w \<Rightarrow> to_int w) s"
  using assms scratch_wfD(1) [of s]
  by (auto simp: sbi_hsm_hart_get_state_def run_simps hsm_view_def area_of_def atomic_read_def hsm_ok_def
      split: option.splits)

lemma started_view:
  assumes "hsm_ok s"
  shows "(case hsm_view s i of None \<Rightarrow> SBI_HART_UNKNOWN | Some w \<Rightarrow> to_int w) = 3 \<longleftrightarrow>
    hsm_view s i = Some SBI_HART_STARTED"
proof (cases "area_of s i")
  case (Some sc)
  then show ?thesis using hsm_state_cases [OF assms Some] by (auto simp: hsm_view_def to_int_def)
qed (simp add: hsm_view_def)

lemma started_mask_loop_run:
  assumes "hsm_ok s" "\<forall>i\<in>set is. i < SBI_HARTMASK_MAX_BITS \<and> hbase \<le> i"
  shows "\<exists>m. started_mask_loop hbase is acc s = Ret m s \<and>
    (\<forall>k<64. bit m k \<longleftrightarrow> bit acc k \<or> hbase + k \<in> set is \<and> hsm_view s (hbase + k) = Some SBI_HART_STARTED)"
  using assms(2)
proof (induction "is" arbitrary: acc)
  case (Cons i "is")
  let ?acc = "if hsm_view s i = Some 3 then acc OR shl 1 (i - hbase) else acc"
  have i: "i < 128" "hbase \<le> i" using Cons.prems by auto
  obtain m where m: "started_mask_loop hbase is ?acc s = Ret m s"
    "\<forall>k<64. bit m k \<longleftrightarrow> bit ?acc k \<or> hbase + k \<in> set is \<and> hsm_view s (hbase + k) = Some 3"
    using Cons.IH [of ?acc] Cons.prems by auto
  have "bit ?acc k \<longleftrightarrow> bit acc k \<or> hbase + k = i \<and> hsm_view s i = Some 3" if "k < 64" for k
    using that i(2) by (auto simp: bit_or_iff bit_shl bit_1_iff)
  then show ?case
    using m get_state_run [OF assms(1) i(1)] started_view [OF assms(1), of i] by (auto simp: run_simps)
qed (simp add: run_simps)

lemma started_mask_run:
  fixes hbase :: ulong
  assumes "hsm_ok s"
  defines "n \<equiv> last_hartid_having_scratch s + 1 - unat hbase"
  shows "if n = 0 then sbi_hsm_hart_started_mask hbase s = Ret (SBI_EINVAL, 0) s
    else \<exists>m. sbi_hsm_hart_started_mask hbase s = Ret (0, m) s \<and>
      (\<forall>k<64. bit m k \<longleftrightarrow> hsm_view s (unat hbase + k) = Some SBI_HART_STARTED \<and>
        (n \<le> 64 \<or> unat hbase + k < 64))"
proof (cases "n = 0")
  case True
  then show ?thesis by (simp add: sbi_hsm_hart_started_mask_def run_simps n_def)
next
  case False
  let ?top = "if 64 < n then 64 else last_hartid_having_scratch s + 1"
  have l: "last_hartid_having_scratch s < 128" using assms(1) by (simp add: hsm_ok_def scratch_wf_def)
  then have "\<forall>i\<in>set [unat hbase..<?top]. i < 128 \<and> unat hbase \<le> i" by auto
  from started_mask_loop_run [OF assms(1) this, of 0]
  obtain m where m: "started_mask_loop (unat hbase) [unat hbase..<?top] 0 s = Ret m s"
    "\<forall>k<64. bit m k \<longleftrightarrow> unat hbase + k < ?top \<and> hsm_view s (unat hbase + k) = Some 3" by auto
  have last: "i \<le> last_hartid_having_scratch s" if "hsm_view s i = Some 3" for i
    using that assms(1) scratch_wfD(3) [of s i] by (auto simp: hsm_view_def area_of_def hsm_ok_def split: if_splits)
  have "bit m k \<longleftrightarrow> hsm_view s (unat hbase + k) = Some 3 \<and> (n \<le> 64 \<or> unat hbase + k < 64)" if "k < 64" for k
    using m(2) that last [of "unat hbase + k"] by auto
  then show ?thesis
    using m(1) False by (auto simp: sbi_hsm_hart_started_mask_def run_simps Let_def n_def)
qed

section \<open>Properties\<close>

definition one_running :: "unit sys" where
  "one_running = two_harts\<lparr>hart_data_offset := 80, hart_features_offset := 88,
     scratch := (\<lambda>_. zero_scratch)(0 := zero_scratch\<lparr>extra := (\<lambda>_. 0)(80 := SBI_HART_STARTED, 88 := 1, 96 := 1)\<rparr>)\<rparr>"

lemma one_running_area: "area_of one_running i = (if i < 2 then Some i else None)"
  using two_harts_table(2) [of i] by (auto simp: area_of_def one_running_def)

lemma one_running_view: "hsm_view one_running = [0 \<mapsto> SBI_HART_STARTED, 1 \<mapsto> SBI_HART_STOPPED]"
  by (auto simp: hsm_view_def one_running_area fun_eq_iff less_Suc_eq numeral_2_eq_2)
    (auto simp: one_running_def scratch_rd_def zero_scratch_def)

lemma one_running_ok: "hsm_ok one_running"
proof -
  have "scratch_wf one_running" using two_harts_wf by (simp add: scratch_wf_def one_running_def)
  then show ?thesis by (auto simp: hsm_ok_def one_running_view)
qed

text \<open>
  C2: hart state management implements its state machine. For every sequence of start,
  next-jump, stop and exit calls made by any harts in any order, the states in the scratch
  areas are exactly those of the specification: a start moves only a stopped hart to starting,
  a hart itself moves on from starting to started, to stopping and to stopped, and every
  other call changes no state. Whatever else the calls do (address checks, platform
  operations, prints, failures) has no influence.
\<close>

theorem hsm_refines_state_machine:
  assumes "hsm_ok s"
  shows "hsm_view (fold (hsm_step c) es s) = fold hsm_spec es (hsm_view s) \<and>
    hsm_ok (fold (hsm_step c) es s)"
  using hsm_ref.run_refines [OF assms, of c es] by simp

theorem hsm_refines_state_machine_witness:
  "hsm_view (fold (hsm_step bare_cfg) [(0, Start 1 0x80000000 0), (1, NextJump)] one_running) =
     [0 \<mapsto> SBI_HART_STARTED, 1 \<mapsto> SBI_HART_STARTED]"
  using hsm_refines_state_machine [OF one_running_ok, of bare_cfg "[(0, Start 1 0x80000000 0), (1, NextJump)]"]
  by (auto simp: one_running_view hsm_spec_def hsm_granted_def)

text \<open>
  C36: starting a hart is exclusive. Once a start call found the hart stopped, every further start
  call for it, from any hart and after any calls by all harts in between, is refused without
  changing any state, until the hart itself has completed an exit.
\<close>

theorem hsm_start_exclusive:
  fixes c :: "'d cfg" and sc :: nat and saddr priv :: ulong
  assumes "hsm_ok s" "hsm_view s h \<noteq> None" "hsm_view s i = Some SBI_HART_STOPPED"
    "(i, Exit) \<notin> set es"
  defines "s2 \<equiv> fold (hsm_step c) es (final (sbi_hsm_hart_start c h sc i saddr priv s))"
  shows "\<exists>r. sbi_hsm_hart_start c h' sc' i saddr' priv' s2 = Ret r s2 \<and> (r = SBI_EALREADY \<or> r = SBI_EINVAL)"
proof -
  let ?s1 = "final (sbi_hsm_hart_start c h sc i saddr priv s)"
  have s1: "hsm_ok ?s1" "hsm_view ?s1 = (hsm_view s)(i \<mapsto> SBI_HART_STARTING)"
    using hsm_start_view [OF assms(1,2), of c sc i saddr priv] assms(2,3)
    by (simp_all add: hsm_spec_def hsm_granted_def)
  have s2: "hsm_ok s2" "hsm_view s2 = fold hsm_spec es (hsm_view ?s1)"
    using hsm_ref.run_refines [OF s1(1), of c es] by (simp_all add: s2_def)
  then have n: "hsm_view s2 i \<noteq> Some SBI_HART_STOPPED"
    using not_stopped_without_exit [OF assms(4), of "hsm_view ?s1"] s1(2) by simp
  show ?thesis
  proof (cases "area_of s2 i")
    case None
    have "i < 128" using assms(3) by (auto simp: hsm_view_def area_of_def split: if_splits)
    then show ?thesis using hsm_start_unknown [OF s2(1) None] by simp
  next
    case (Some rsc)
    then have "scratch_rd rsc (hart_data_offset s2) s2 \<noteq> 0" using n by (simp add: hsm_view_def)
    then show ?thesis using hsm_start_cases [OF s2(1) Some] by simp
  qed
qed

theorem hsm_start_exclusive_witness:
  "\<exists>s2 r. s2 = fold (hsm_step bare_cfg) [(1, NextJump)] (final (sbi_hsm_hart_start bare_cfg 0 0 1 0x80000000 0 one_running)) \<and>
    sbi_hsm_hart_start bare_cfg 1 1 1 0x80200000 5 s2 = Ret r s2 \<and> (r = SBI_EALREADY \<or> r = SBI_EINVAL)"
  using hsm_start_exclusive [where c = bare_cfg and s = one_running and h = 0 and sc = 0 and i = 1 and
      saddr = "0x80000000" and priv = 0 and es = "[(1, NextJump)]" and h' = 1 and sc' = 1 and
      saddr' = "0x80200000" and priv' = 5] one_running_ok
  by (auto simp: one_running_view)

text \<open>
  C37: a start call whose address the memory protection refuses. The error code is returned, but the
  hart has already been moved to starting and is not moved back; it is not told to run, and
  its start address is not set. All later start calls for it are refused as invalid, whatever
  their address.
\<close>

theorem hart_start_refused_address_wedges:
  assumes "hsm_ok s" "hsm_view s i = Some SBI_HART_STOPPED"
    "sbi_hart_pmp_check_addr h sc saddr PMP_X s = Ret SBI_EINVALID_ADDR s"
    "hart_features_offset s \<noteq> hart_data_offset s" "hart_features_offset s + 8 \<noteq> hart_data_offset s"
  shows "\<exists>s'. sbi_hsm_hart_start c h sc i saddr priv s = Ret SBI_EINVALID_ADDR s' \<and>
    hsm_view s' = (hsm_view s)(i \<mapsto> SBI_HART_STARTING) \<and> dev s' = dev s \<and>
    (\<forall>j. next_addr (scratch s' j) = next_addr (scratch s j)) \<and>
    (\<forall>h' sc' saddr' priv'. sbi_hsm_hart_start c h' sc' i saddr' priv' s' = Ret SBI_EINVAL s')"
proof -
  obtain rsc where a: "area_of s i = Some rsc" and z: "scratch_rd rsc (hart_data_offset s) s = 0"
    using assms(2) by (auto simp: hsm_view_def)
  let ?s = "scratch_wr rsc (hart_data_offset s) SBI_HART_STARTING s"
  have f: "hart_features_offset ?s = hart_features_offset s"
    by (simp add: scratch_wr_def upd_scratch_def)
  have loop: "pmp_check_loop h saddr PMP_X is ?s = map_outcome (\<lambda>_. ?s) id (pmp_check_loop h saddr PMP_X is s)" for "is"
    by (induction "is") (auto simp: run_simps pmp_getM_def split: option.splits prod.splits)
  have "sbi_hart_pmp_check_addr h sc saddr PMP_X ?s = Ret SBI_EINVALID_ADDR ?s"
    using assms(3-5) by (auto simp: sbi_hart_pmp_check_addr_def run_simps f scratch_rd_wr loop split: if_splits)
  then have r: "sbi_hsm_hart_start c h sc i saddr priv s = Ret SBI_EINVALID_ADDR ?s"
    using hsm_start_cases [OF assms(1) a, of c h sc saddr priv] z by (simp add: hart_start_tail_def run_simps)
  have ok: "hsm_ok ?s" and v: "hsm_view ?s = (hsm_view s)(i \<mapsto> SBI_HART_STARTING)"
    using hsm_ok_wr [OF assms(1) a] hsm_view_wr [OF _ a] assms(1) by (auto simp: hsm_ok_def)
  have "sbi_hsm_hart_start c h' sc' i saddr' priv' ?s = Ret SBI_EINVAL ?s" for h' sc' saddr' priv'
    using hsm_start_cases [OF ok, of i rsc] a by (simp add: scratch_rd_wr)
  moreover have "next_addr (scratch ?s j) = next_addr (scratch s j)" for j
    by (simp add: scratch_wr_def)
  ultimately show ?thesis using r v by (intro exI [of _ ?s]) simp
qed

definition one_protected :: "unit sys" where
  "one_protected = one_running\<lparr>harts := (\<lambda>_. zero_hart\<lparr>csr := (\<lambda>_. 0)
     (CSR_PMPCFG0 := PMP_A_NA4, CSR_PMPADDR0 := 0x400)\<rparr>)\<rparr>"

theorem hart_start_refused_address_wedges_witness:
  "\<exists>s'. sbi_hsm_hart_start bare_cfg 0 0 1 0x1000 0 one_protected = Ret SBI_EINVALID_ADDR s' \<and>
    sbi_hsm_hart_start bare_cfg 0 0 1 0x80000000 0 s' = Ret SBI_EINVAL s'"
proof -
  have "hsm_rel one_running one_protected"
    by (simp add: hsm_rel_def one_protected_def hsm_view_def area_of_def scratch_rd_def fun_eq_iff)
  then have ok: "hsm_ok one_protected" "hsm_view one_protected = [0 \<mapsto> SBI_HART_STARTED, 1 \<mapsto> SBI_HART_STOPPED]"
    using one_running_ok one_running_view by (simp_all add: hsm_ok_rel) (simp add: hsm_rel_def)
  have "pmp_get 0 ((\<lambda>_. 0)(CSR_PMPCFG0 := PMP_A_NA4, CSR_PMPADDR0 := 0x400)) = Some (0, Some (PMP_A_NA4, 0x1000, 4))"
    by (simp add: pmp_get_decode pmp_decode_def pmpcfg_csr_def pmpcfg_shift_def shl_def shr_def)
  then have "sbi_hart_pmp_check_addr 0 0 0x1000 PMP_X one_protected = Ret SBI_EINVALID_ADDR one_protected"
    by (intro pmp_check_denied [where base = "0x1000" and sz = 4 and r = 0 and prot = PMP_A_NA4])
      (auto simp: one_protected_def one_running_def scratch_rd_def zero_scratch_def)
  then show ?thesis
    using hart_start_refused_address_wedges [OF ok(1), of 1 0 0 "0x1000" bare_cfg 0] ok(2)
    by (auto simp: one_protected_def one_running_def)
qed

text \<open>
  The mask of started harts from a base id. A base beyond the last hart is refused with an
  empty mask. Otherwise bit \<open>k\<close> stands for hart \<open>hbase + k\<close>, for all harts from the base on when there
  are at most 64 of them. When there are more, only harts with an id below 64 are looked at,
  rather than the 64 harts from the base on.
\<close>

lemma started_mask_bits:
  fixes hbase :: ulong
  assumes "hsm_ok s"
  defines "n \<equiv> last_hartid_having_scratch s + 1 - unat hbase"
  shows "if n = 0 then sbi_hsm_hart_started_mask hbase s = Ret (SBI_EINVAL, 0) s
    else \<exists>m. sbi_hsm_hart_started_mask hbase s = Ret (0, m) s \<and>
      (\<forall>k<64. bit m k \<longleftrightarrow> hsm_view s (unat hbase + k) = Some SBI_HART_STARTED \<and>
        (n \<le> 64 \<or> unat hbase + k < 64))"
  using started_mask_run [OF assms(1), of hbase] by (simp only: n_def)

end
