(* ===== verification/Sbi_Tlb.thy ===== *)
theory Sbi_Tlb
  imports Sbi_Hsm
begin

text \<open>
  Remote TLB and instruction cache flushes, \<^verbatim>\<open>lib/sbi/sbi_tlb.c\<close>: the local flushes, the request
  queue of a hart with its merging rule, and the synchronisation between requester and target.
  The two functions of the file that build on inter-processor interrupts (\<open>sbi_tlb_request\<close> and
  \<open>sbi_tlb_init\<close>) are in the theory of that component.

  A request is the C structure; in the ring buffer it is the 56 bytes of that structure, seven
  words in little-endian order. The loop over the pages of a range does not end when its counter
  can wrap around below the size, and then the flush is the outcome \<open>Spin\<close>.

  \<open>covers\<close> says what a flush instruction invalidates, and \<open>in_range\<close> what a request asks for. The
  protocol between the harts is the subject of the next theory.
\<close>

section \<open>Requests\<close>

record sbi_tlb_info =
  t_start :: ulong
  t_size :: ulong
  t_asid :: ulong
  t_vmid :: ulong
  t_type :: ulong
  t_smask :: sbi_hartmask

abbreviation (input) SBI_TLB_FLUSH_ALL :: ulong where "SBI_TLB_FLUSH_ALL \<equiv> - 1"
abbreviation (input) SBI_TLB_FIFO_NUM_ENTRIES :: u16 where "SBI_TLB_FIFO_NUM_ENTRIES \<equiv> 8"
abbreviation (input) SBI_TLB_INFO_SIZE :: u16 where "SBI_TLB_INFO_SIZE \<equiv> 56"

abbreviation (input) SBI_TLB_FLUSH_VMA :: ulong where "SBI_TLB_FLUSH_VMA \<equiv> 0"
abbreviation (input) SBI_TLB_FLUSH_VMA_ASID :: ulong where "SBI_TLB_FLUSH_VMA_ASID \<equiv> 1"
abbreviation (input) SBI_TLB_FLUSH_GVMA :: ulong where "SBI_TLB_FLUSH_GVMA \<equiv> 2"
abbreviation (input) SBI_TLB_FLUSH_GVMA_VMID :: ulong where "SBI_TLB_FLUSH_GVMA_VMID \<equiv> 3"
abbreviation (input) SBI_TLB_FLUSH_VVMA :: ulong where "SBI_TLB_FLUSH_VVMA \<equiv> 4"
abbreviation (input) SBI_TLB_FLUSH_VVMA_ASID :: ulong where "SBI_TLB_FLUSH_VVMA_ASID \<equiv> 5"
abbreviation (input) SBI_ITLB_FLUSH :: ulong where "SBI_ITLB_FLUSH \<equiv> 6"

definition SBI_TLB_INFO_INIT :: "sbi_tlb_info \<Rightarrow> ulong \<Rightarrow> ulong \<Rightarrow> ulong \<Rightarrow> ulong \<Rightarrow> ulong \<Rightarrow> nat \<Rightarrow> sbi_tlb_info option" where
  "SBI_TLB_INFO_INIT p st sz asid vmid ty src = do {
     m \<leftarrow> SBI_HARTMASK_INIT_EXCEPT (t_smask p) src;
     Some \<lparr>t_start = st, t_size = sz, t_asid = asid, t_vmid = vmid, t_type = ty, t_smask = m\<rparr> }"

text \<open>The bytes of a word and of a request.\<close>

definition le64 :: "ulong \<Rightarrow> u8 list" where
  "le64 w = map (\<lambda>i. ucast (shr w (8 * i))) [0..<8]"

primrec of_le :: "u8 list \<Rightarrow> ulong" where
  "of_le [] = 0"
| "of_le (b # bs) = ucast b OR shl (of_le bs) 8"

definition encode_tlb :: "sbi_tlb_info \<Rightarrow> u8 list" where
  "encode_tlb t = concat (map le64 ([t_start t, t_size t, t_asid t, t_vmid t, t_type t] @ bits (t_smask t)))"

definition decode_tlb :: "u8 list \<Rightarrow> sbi_tlb_info" where
  "decode_tlb bs =
     (let w = (\<lambda>i. of_le (blk bs (8 * i) 8)) in
      \<lparr>t_start = w 0, t_size = w 1, t_asid = w 2, t_vmid = w 3, t_type = w 4, t_smask = \<lparr>bits = [w 5, w 6]\<rparr>\<rparr>)"

section \<open>Local flushes\<close>

definition emit_fence :: "nat \<Rightarrow> (hart \<Rightarrow> fence) \<Rightarrow> 'd sys \<Rightarrow> ('d sys, unit) outcome" where
  "emit_fence h f = modM (upd_hart h (\<lambda>t. t\<lparr>fences := fences t @ [f t]\<rparr>))"

text \<open>The values of \<open>i\<close> in \<^verbatim>\<open>for (i = 0; i < size; i += PAGE_SIZE)\<close>.\<close>

partial_function (option) page_steps :: "ulong \<Rightarrow> ulong \<Rightarrow> ulong list option" where
  "page_steps i sz =
     (if i < sz then do { is \<leftarrow> page_steps (i + PAGE_SIZE) sz; Some (i # is) } else Some [])"

definition flush_pages :: "nat \<Rightarrow> ulong \<Rightarrow> ulong \<Rightarrow> (ulong \<Rightarrow> hart \<Rightarrow> fence) \<Rightarrow> 'd sys \<Rightarrow> ('d sys, unit) outcome" where
  "flush_pages h st sz mk =
     (case page_steps 0 sz of
        None \<Rightarrow> haltM Spin
      | Some is \<Rightarrow> forM is (\<lambda>i. emit_fence h (mk (st + i))))"

definition sbi_tlb_flush_all :: "nat \<Rightarrow> 'd sys \<Rightarrow> ('d sys, unit) outcome" where
  "sbi_tlb_flush_all h = emit_fence h (\<lambda>_. SFENCE_VMA_ALL)"

abbreviation (input) hgatp_of :: "hart \<Rightarrow> ulong" where "hgatp_of t \<equiv> csr t CSR_HGATP"

definition sbi_tlb_hfence_vvma :: "nat \<Rightarrow> sbi_tlb_info \<Rightarrow> 'd sys \<Rightarrow> ('d sys, unit) outcome" where
  "sbi_tlb_hfence_vvma h t =
     bindM (csr_swap h CSR_HGATP (shl (t_vmid t) HGATP_VMID_SHIFT AND HGATP_VMID_MASK)) (\<lambda>hgatp.
     seqM
       (if t_start t = 0 \<and> t_size t = 0 \<or> t_size t = SBI_TLB_FLUSH_ALL
        then emit_fence h (\<lambda>x. HFENCE_VVMA_ALL (hgatp_of x))
        else flush_pages h (t_start t) (t_size t) (\<lambda>va x. HFENCE_VVMA_VA (hgatp_of x) va))
       (csr_write h CSR_HGATP hgatp))"

definition sbi_tlb_hfence_gvma :: "nat \<Rightarrow> sbi_tlb_info \<Rightarrow> 'd sys \<Rightarrow> ('d sys, unit) outcome" where
  "sbi_tlb_hfence_gvma h t =
     (if t_start t = 0 \<and> t_size t = 0 \<or> t_size t = SBI_TLB_FLUSH_ALL
      then emit_fence h (\<lambda>_. HFENCE_GVMA_ALL)
      else flush_pages h (t_start t) (t_size t) (\<lambda>gpa _. HFENCE_GVMA_GPA gpa))"

definition sbi_tlb_sfence_vma :: "nat \<Rightarrow> sbi_tlb_info \<Rightarrow> 'd sys \<Rightarrow> ('d sys, unit) outcome" where
  "sbi_tlb_sfence_vma h t =
     (if t_start t = 0 \<and> t_size t = 0 \<or> t_size t = SBI_TLB_FLUSH_ALL
      then sbi_tlb_flush_all h
      else flush_pages h (t_start t) (t_size t) (\<lambda>va _. SFENCE_VMA va))"

definition sbi_tlb_hfence_vvma_asid :: "nat \<Rightarrow> sbi_tlb_info \<Rightarrow> 'd sys \<Rightarrow> ('d sys, unit) outcome" where
  "sbi_tlb_hfence_vvma_asid h t =
     bindM (csr_swap h CSR_HGATP (shl (t_vmid t) HGATP_VMID_SHIFT AND HGATP_VMID_MASK)) (\<lambda>hgatp.
     seqM
       (if t_start t = 0 \<and> t_size t = 0 then emit_fence h (\<lambda>x. HFENCE_VVMA_ALL (hgatp_of x))
        else if t_size t = SBI_TLB_FLUSH_ALL
        then emit_fence h (\<lambda>x. HFENCE_VVMA_ASID (hgatp_of x) (t_asid t))
        else flush_pages h (t_start t) (t_size t) (\<lambda>va x. HFENCE_VVMA_ASID_VA (hgatp_of x) va (t_asid t)))
       (csr_write h CSR_HGATP hgatp))"

definition sbi_tlb_hfence_gvma_vmid :: "nat \<Rightarrow> sbi_tlb_info \<Rightarrow> 'd sys \<Rightarrow> ('d sys, unit) outcome" where
  "sbi_tlb_hfence_gvma_vmid h t =
     (if t_start t = 0 \<and> t_size t = 0 then emit_fence h (\<lambda>_. HFENCE_GVMA_ALL)
      else if t_size t = SBI_TLB_FLUSH_ALL then emit_fence h (\<lambda>_. HFENCE_GVMA_VMID (t_vmid t))
      else flush_pages h (t_start t) (t_size t) (\<lambda>gpa _. HFENCE_GVMA_VMID_GPA gpa (t_vmid t)))"

definition sbi_tlb_sfence_vma_asid :: "nat \<Rightarrow> sbi_tlb_info \<Rightarrow> 'd sys \<Rightarrow> ('d sys, unit) outcome" where
  "sbi_tlb_sfence_vma_asid h t =
     (if t_start t = 0 \<and> t_size t = 0 then sbi_tlb_flush_all h
      else if t_size t = SBI_TLB_FLUSH_ALL then emit_fence h (\<lambda>_. SFENCE_VMA_ASID (t_asid t))
      else flush_pages h (t_start t) (t_size t) (\<lambda>va _. SFENCE_VMA_ASID_VA va (t_asid t)))"

definition sbi_tlb_local_flush :: "'d cfg \<Rightarrow> nat \<Rightarrow> sbi_tlb_info \<Rightarrow> 'd sys \<Rightarrow> ('d sys, unit) outcome" where
  "sbi_tlb_local_flush c h t =
     (if t_type t = SBI_TLB_FLUSH_VMA then sbi_tlb_sfence_vma h t
      else if t_type t = SBI_TLB_FLUSH_VMA_ASID then sbi_tlb_sfence_vma_asid h t
      else if t_type t = SBI_TLB_FLUSH_GVMA then sbi_tlb_hfence_gvma h t
      else if t_type t = SBI_TLB_FLUSH_GVMA_VMID then sbi_tlb_hfence_gvma_vmid h t
      else if t_type t = SBI_TLB_FLUSH_VVMA then sbi_tlb_hfence_vvma h t
      else if t_type t = SBI_TLB_FLUSH_VVMA_ASID then sbi_tlb_hfence_vvma_asid h t
      else if t_type t = SBI_ITLB_FLUSH then emit_fence h (\<lambda>_. FENCE_I)
      else printfM c ''Invalid tlb flush request type [%lu]\<newline>'' [Vword (t_type t)])"

section \<open>Serving requests\<close>

text \<open>Telling one requester, once its synchronisation word is free.\<close>

fun sync_set_loop :: "'d cfg \<Rightarrow> nat \<Rightarrow> nat \<Rightarrow> ulong \<Rightarrow> nat \<Rightarrow> 'd sys \<Rightarrow> ('d sys, unit) outcome" where
  "sync_set_loop c h rsc off 0 = haltM Spin"
| "sync_set_loop c h rsc off (Suc n) =
     bindM (atomic_raw_xchg_ulong rsc off 1) (\<lambda>old.
       if old \<noteq> 0 then seqM (modM (interf c h)) (sync_set_loop c h rsc off n) else retM ())"

definition sbi_tlb_entry_process :: "'d cfg \<Rightarrow> nat \<Rightarrow> sbi_tlb_info \<Rightarrow> 'd sys \<Rightarrow> ('d sys, unit) outcome" where
  "sbi_tlb_entry_process c h t =
     seqM (sbi_tlb_local_flush c h t)
    (bindM (liftO (sbi_hartmask_for_each_hart (t_smask t))) (\<lambda>rhartids.
       forM rhartids (\<lambda>rhartid.
         bindM (sbi_hartid_to_scratch rhartid) (\<lambda>r.
           case r of None \<Rightarrow> retM ()
           | Some rsc \<Rightarrow> bindM (getM tlb_sync_off) (\<lambda>off. sync_set_loop c h rsc off (fuel c))))))"

text \<open>
  Taking an entry out of the ring of an area. The local variable receiving it is not initialised in
  the code; all its bytes are overwritten.
\<close>

definition tlb_dequeue :: "nat \<Rightarrow> 'd sys \<Rightarrow> ('d sys, sbi_tlb_info option) outcome" where
  "tlb_dequeue sc =
     bindM (getM (\<lambda>s. sbi_fifo_dequeue (Some (replicate 56 0)) (Some (tlb_fifo (scratch s sc))))) (\<lambda>r.
     bindM (liftO r) (\<lambda>(ret, fifo, data).
     bindM (liftO fifo) (\<lambda>fifo'.
     bindM (liftO data) (\<lambda>bs.
       seqM (modM (upd_scratch sc (\<lambda>t. t\<lparr>tlb_fifo := fifo'\<rparr>)))
         (retM (if ret = 0 then Some (decode_tlb bs) else None))))))"

text \<open>At most \<open>n\<close> rounds of dequeuing and processing.\<close>

fun process_loop :: "'d cfg \<Rightarrow> nat \<Rightarrow> nat \<Rightarrow> nat \<Rightarrow> ('d sys \<Rightarrow> ('d sys, unit) outcome) \<Rightarrow> 'd sys \<Rightarrow> ('d sys, unit) outcome" where
  "process_loop c h sc 0 end_of_rounds = end_of_rounds"
| "process_loop c h sc (Suc n) end_of_rounds =
     bindM (tlb_dequeue sc) (\<lambda>r.
       case r of None \<Rightarrow> retM ()
       | Some t \<Rightarrow> seqM (sbi_tlb_entry_process c h t) (process_loop c h sc n end_of_rounds))"

text \<open>The count is compared after the increment, so \<open>count + 1\<close> entries are processed.\<close>

definition sbi_tlb_process_count :: "'d cfg \<Rightarrow> nat \<Rightarrow> nat \<Rightarrow> nat \<Rightarrow> 'd sys \<Rightarrow> ('d sys, unit) outcome" where
  "sbi_tlb_process_count c h sc count = process_loop c h sc (count + 1) (retM ())"

definition sbi_tlb_process :: "'d cfg \<Rightarrow> nat \<Rightarrow> nat \<Rightarrow> 'd sys \<Rightarrow> ('d sys, unit) outcome" where
  "sbi_tlb_process c h sc = process_loop c h sc (fuel c) (haltM Spin)"

fun tlb_sync_loop :: "'d cfg \<Rightarrow> nat \<Rightarrow> nat \<Rightarrow> ulong \<Rightarrow> nat \<Rightarrow> 'd sys \<Rightarrow> ('d sys, unit) outcome" where
  "tlb_sync_loop c h sc off 0 = haltM Spin"
| "tlb_sync_loop c h sc off (Suc n) =
     bindM (atomic_raw_xchg_ulong sc off 0) (\<lambda>v.
       if v = 0 then
         seqM (sbi_tlb_process_count c h sc 1) (seqM (modM (interf c h)) (tlb_sync_loop c h sc off n))
       else retM ())"

definition sbi_tlb_sync :: "'d cfg \<Rightarrow> nat \<Rightarrow> nat \<Rightarrow> 'd sys \<Rightarrow> ('d sys, unit) outcome" where
  "sbi_tlb_sync c h sc = bindM (getM tlb_sync_off) (\<lambda>off. tlb_sync_loop c h sc off (fuel c))"

section \<open>Making requests\<close>

definition u_sbi_tlb_range_check :: "sbi_tlb_info \<Rightarrow> sbi_tlb_info \<Rightarrow> (sbi_fifo_inplace_update_types \<times> sbi_tlb_info) option" where
  "u_sbi_tlb_range_check cur nxt =
     (let next_end = t_start nxt + t_size nxt; curr_end = t_start cur + t_size cur in
      if t_start nxt \<le> t_start cur \<and> curr_end < next_end then do {
        m \<leftarrow> sbi_hartmask_or (t_smask cur) (t_smask cur) (t_smask nxt);
        Some (SBI_FIFO_UPDATED, cur\<lparr>t_start := t_start nxt, t_size := t_size nxt, t_smask := m\<rparr>) }
      else if t_start cur \<le> t_start nxt \<and> next_end \<le> curr_end then do {
        m \<leftarrow> sbi_hartmask_or (t_smask cur) (t_smask cur) (t_smask nxt);
        Some (SBI_FIFO_SKIP, cur\<lparr>t_smask := m\<rparr>) }
      else Some (SBI_FIFO_UNCHANGED, cur))"

definition sbi_tlb_update_cb :: "sbi_tlb_info \<Rightarrow> sbi_tlb_info \<Rightarrow> (sbi_fifo_inplace_update_types \<times> sbi_tlb_info) option" where
  "sbi_tlb_update_cb nxt cur =
     (if t_type nxt = SBI_TLB_FLUSH_VMA_ASID \<and> t_type cur = SBI_TLB_FLUSH_VMA_ASID then
        if t_asid nxt = t_asid cur then u_sbi_tlb_range_check cur nxt else Some (SBI_FIFO_UNCHANGED, cur)
      else if t_type nxt = SBI_TLB_FLUSH_VMA \<and> t_type cur = SBI_TLB_FLUSH_VMA
      then u_sbi_tlb_range_check cur nxt
      else Some (SBI_FIFO_UNCHANGED, cur))"

text \<open>The callback on the bytes of an entry.\<close>

definition update_cb_bytes :: "sbi_tlb_info \<Rightarrow> u8 list \<Rightarrow> (sbi_fifo_inplace_update_types \<times> u8 list) option" where
  "update_cb_bytes nxt bs = map_option (map_prod id encode_tlb) (sbi_tlb_update_cb nxt (decode_tlb bs))"

definition tlb_upgrade :: "ulong \<Rightarrow> sbi_tlb_info \<Rightarrow> sbi_tlb_info" where
  "tlb_upgrade limit t = (if limit < t_size t then t\<lparr>t_start := 0, t_size := SBI_TLB_FLUSH_ALL\<rparr> else t)"

fun tlb_enqueue_loop :: "'d cfg \<Rightarrow> nat \<Rightarrow> nat \<Rightarrow> nat \<Rightarrow> nat \<Rightarrow> sbi_tlb_info \<Rightarrow> nat \<Rightarrow> 'd sys \<Rightarrow> ('d sys, unit) outcome" where
  "tlb_enqueue_loop c h sc remote_sc remote_hartid t 0 = haltM Spin"
| "tlb_enqueue_loop c h sc remote_sc remote_hartid t (Suc n) =
     bindM (getM (\<lambda>s. sbi_fifo_enqueue (Some (encode_tlb t)) (Some (tlb_fifo (scratch s remote_sc))))) (\<lambda>r.
     bindM (liftO r) (\<lambda>(ret, fifo).
     bindM (liftO fifo) (\<lambda>fifo'.
     seqM (modM (upd_scratch remote_sc (\<lambda>x. x\<lparr>tlb_fifo := fifo'\<rparr>)))
       (if ret < 0 then
          seqM (sbi_tlb_process_count c h sc 1)
         (bindM (sbi_dprintf c h (cs ''hart%d: hart%d tlb fifo full\<newline>'')
                   [Vword (of_nat h), Vword (of_nat remote_hartid)]) (\<lambda>_.
          seqM (modM (interf c h)) (tlb_enqueue_loop c h sc remote_sc remote_hartid t n)))
        else retM ()))))"

text \<open>The request is changed through the pointer, so it is part of the result.\<close>

definition sbi_tlb_update :: "'d cfg \<Rightarrow> nat \<Rightarrow> nat \<Rightarrow> nat \<Rightarrow> nat \<Rightarrow> sbi_tlb_info \<Rightarrow>
    'd sys \<Rightarrow> ('d sys, int \<times> sbi_tlb_info) outcome" where
  "sbi_tlb_update c h sc remote_sc remote_hartid tinfo =
     bindM (getM tlb_range_flush_limit) (\<lambda>limit.
       (let t = tlb_upgrade limit tinfo in
        if remote_hartid = h then seqM (sbi_tlb_local_flush c h t) (retM (- 1, t))
        else
          bindM (getM (\<lambda>s. sbi_fifo_inplace_update update_cb_bytes (Some t) (Some (tlb_fifo (scratch s remote_sc))))) (\<lambda>r.
          bindM (liftO r) (\<lambda>(ret, fifo).
          bindM (liftO fifo) (\<lambda>fifo'.
          seqM (modM (upd_scratch remote_sc (\<lambda>x. x\<lparr>tlb_fifo := fifo'\<rparr>)))
            (if ret \<noteq> SBI_FIFO_UNCHANGED then retM (1, t)
             else seqM (tlb_enqueue_loop c h sc remote_sc remote_hartid t (fuel c)) (retM (0, t))))))))"

section \<open>Requests as bytes\<close>

lemma length_le64 [simp]: "length (le64 w) = 8"
  by (simp add: le64_def)

lemma bit_of_le:
  "bit (of_le bs) n \<longleftrightarrow> n < 64 \<and> n div 8 < length bs \<and> bit (bs ! (n div 8)) (n mod 8)"
proof (induction bs arbitrary: n)
  case (Cons b bs)
  show ?case
  proof (cases "n < 8")
    case False
    then have "n div 8 = Suc ((n - 8) div 8)" "n mod 8 = (n - 8) mod 8"
      by (simp_all add: div_if mod_if)
    moreover have "\<not> bit b n" using False bit_less_len [of b n] by auto
    ultimately show ?thesis using Cons [of "n - 8"] False by (auto simp: bit_or_iff bit_shl bit_ucast_iff)
  qed (auto simp: bit_or_iff bit_shl bit_ucast_iff)
qed simp

lemma of_le_le64 [simp]: "of_le (le64 w) = w"
proof (rule bit_word_eqI)
  fix n assume "n < LENGTH(64)"
  then have "n div 8 < 8" "n < 64" by auto
  then show "bit (of_le (le64 w)) n \<longleftrightarrow> bit w n"
    by (simp add: bit_of_le le64_def bit_ucast_iff bit_shr)
qed

lemma le64_of_le:
  assumes "length bs = 8"
  shows "le64 (of_le bs) = bs"
proof (rule nth_equalityI)
  fix i assume "i < length (le64 (of_le bs))"
  then have i: "i < 8" by simp
  have "bit (le64 (of_le bs) ! i) k \<longleftrightarrow> bit (bs ! i) k" if "k < 8" for k
  proof -
    have "(8 * i + k) div 8 = i" "(8 * i + k) mod 8 = k" "8 * i + k < 64" using that i by auto
    then show ?thesis using i that assms by (simp add: le64_def bit_ucast_iff bit_shr bit_of_le)
  qed
  then show "le64 (of_le bs) ! i = bs ! i" by (intro bit_word_eqI) auto
qed (simp add: assms)

lemma length_encode_tlb: "hm_ok (t_smask t) \<Longrightarrow> length (encode_tlb t) = 56"
  by (auto simp: encode_tlb_def hm_ok_def length_Suc_conv numeral_2_eq_2)

lemma decode_encode_tlb:
  assumes "hm_ok (t_smask t)"
  shows "decode_tlb (encode_tlb t) = t"
proof -
  obtain a b where m: "t_smask t = \<lparr>bits = [a, b]\<rparr>"
    using assms by (cases "t_smask t") (auto simp: hm_ok_def length_Suc_conv numeral_2_eq_2)
  show ?thesis by (simp add: decode_tlb_def encode_tlb_def blk_def m Let_def)
qed

lemma blocks_take: "concat (map (\<lambda>i. blk bs (8 * i) 8) [0..<n]) = take (8 * n) bs"
proof (induction n)
  case (Suc n)
  have "take (8 * Suc n) bs = take (8 * n) bs @ take 8 (drop (8 * n) bs)"
    using take_add [of "8 * n" 8 bs] by (simp add: ac_simps)
  then show ?case using Suc by (simp add: blk_def)
qed simp

lemma hm_ok_decode [simp]: "hm_ok (t_smask (decode_tlb bs))"
  by (simp add: decode_tlb_def hm_ok_def Let_def)

lemma encode_decode_tlb:
  assumes "length bs = 56"
  shows "encode_tlb (decode_tlb bs) = bs"
proof -
  have w: "le64 (of_le (blk bs (8 * i) 8)) = blk bs (8 * i) 8" if "i < 7" for i
    using that assms by (intro le64_of_le) (simp add: blk_def)
  have "encode_tlb (decode_tlb bs) = concat (map (\<lambda>i. blk bs (8 * i) 8) [0..<7])"
    using w [of 0] w [of 1] w [of 2] w [of 3] w [of 4] w [of 5] w [of 6]
    by (simp add: encode_tlb_def decode_tlb_def Let_def upt_rec [of _ 7])
  then show ?thesis using assms by (simp only: blocks_take) simp
qed

section \<open>What a flush covers\<close>

definition same_page :: "ulong \<Rightarrow> ulong \<Rightarrow> bool" where
  "same_page x a \<longleftrightarrow> unat x div 4096 = unat a div 4096"

definition in_range :: "sbi_tlb_info \<Rightarrow> ulong \<Rightarrow> bool" where
  "in_range t a \<longleftrightarrow> t_start t = 0 \<and> t_size t = 0 \<or> t_size t = SBI_TLB_FLUSH_ALL \<or>
     t_start t \<le> a \<and> unat a < unat (t_start t) + unat (t_size t)"

definition vmid_field :: "sbi_tlb_info \<Rightarrow> ulong" where
  "vmid_field t = shl (t_vmid t) HGATP_VMID_SHIFT AND HGATP_VMID_MASK"

definition covers :: "fence \<Rightarrow> sbi_tlb_info \<Rightarrow> ulong \<Rightarrow> bool" where
  "covers f t a =
     (case f of
        SFENCE_VMA_ALL \<Rightarrow> t_type t = 0 \<or> t_type t = 1
      | SFENCE_VMA x \<Rightarrow> t_type t = 0 \<and> same_page x a
      | SFENCE_VMA_ASID asid \<Rightarrow> t_type t = 1 \<and> asid = t_asid t
      | SFENCE_VMA_ASID_VA x asid \<Rightarrow> t_type t = 1 \<and> asid = t_asid t \<and> same_page x a
      | HFENCE_GVMA_ALL \<Rightarrow> t_type t = 2 \<or> t_type t = 3
      | HFENCE_GVMA_GPA x \<Rightarrow> t_type t = 2 \<and> same_page x a
      | HFENCE_GVMA_VMID vmid \<Rightarrow> t_type t = 3 \<and> vmid = t_vmid t
      | HFENCE_GVMA_VMID_GPA x vmid \<Rightarrow> t_type t = 3 \<and> vmid = t_vmid t \<and> same_page x a
      | HFENCE_VVMA_ALL v \<Rightarrow> (t_type t = 4 \<or> t_type t = 5) \<and> v = vmid_field t
      | HFENCE_VVMA_VA v x \<Rightarrow> t_type t = 4 \<and> v = vmid_field t \<and> same_page x a
      | HFENCE_VVMA_ASID v asid \<Rightarrow> t_type t = 5 \<and> v = vmid_field t \<and> asid = t_asid t
      | HFENCE_VVMA_ASID_VA v x asid \<Rightarrow> t_type t = 5 \<and> v = vmid_field t \<and> asid = t_asid t \<and> same_page x a
      | FENCE_I \<Rightarrow> t_type t = 6)"

text \<open>Requests whose page loop ends and does not run past the end of the address space.\<close>

definition tlb_req_ok :: "sbi_tlb_info \<Rightarrow> bool" where
  "tlb_req_ok t \<longleftrightarrow> t_type t \<le> 6 \<and> 4096 dvd unat (t_start t) \<and>
     (t_size t = SBI_TLB_FLUSH_ALL \<or>
      unat (t_size t) \<le> 2 ^ 64 - 4096 \<and> unat (t_start t) + unat (t_size t) \<le> 2 ^ 64)"

lemma unat_of_nat_small: "n < 2 ^ 64 \<Longrightarrow> unat (of_nat n :: ulong) = n"
  by (simp add: unat_of_nat)

lemma page_steps_run:
  assumes "unat sz \<le> 2 ^ 64 - 4096" "k \<le> (unat sz + 4095) div 4096"
  shows "page_steps (of_nat (4096 * k)) sz = Some (map (\<lambda>j. of_nat (4096 * j)) [k..<(unat sz + 4095) div 4096])"
  using assms(2)
proof (induction "(unat sz + 4095) div 4096 - k" arbitrary: k)
  case 0
  then have k: "k = (unat sz + 4095) div 4096" by simp
  have "4096 * k \<le> unat sz + 4095" using k by simp
  then have "4096 * k < 2 ^ 64" using assms(1) by simp
  then have "unat (of_nat (4096 * k) :: ulong) = 4096 * k" by (rule unat_of_nat_small)
  then have "\<not> (of_nat (4096 * k) :: ulong) < sz" using k by (simp add: word_less_nat_alt)
  then show ?case using k by (subst page_steps.simps) simp
next
  case (Suc d)
  then have k: "k < (unat sz + 4095) div 4096" "d = (unat sz + 4095) div 4096 - Suc k" by auto
  then have b: "4096 * k < unat sz" by auto
  then have "unat (of_nat (4096 * k) :: ulong) = 4096 * k"
    using unat64 [of sz] by (intro unat_of_nat_small) simp
  then have lt: "(of_nat (4096 * k) :: ulong) < sz" using b by (simp add: word_less_nat_alt)
  have nx: "of_nat (4096 * k) + 4096 = (of_nat (4096 * Suc k) :: ulong)" by simp
  have "page_steps (of_nat (4096 * k)) sz =
      Some (of_nat (4096 * k) # map (\<lambda>j. of_nat (4096 * j)) [Suc k..<(unat sz + 4095) div 4096])"
    using lt Suc.hyps(1) [OF k(2)] k(1) by (subst page_steps.simps) (simp only: nx if_True, simp)
  then show ?case using k(1) by (simp add: upt_conv_Cons)
qed

definition add_fences :: "nat \<Rightarrow> fence list \<Rightarrow> 'd sys \<Rightarrow> 'd sys" where
  "add_fences h fs = upd_hart h (\<lambda>t. t\<lparr>fences := fences t @ fs\<rparr>)"

definition range_pages :: "sbi_tlb_info \<Rightarrow> ulong list" where
  "range_pages t = map (\<lambda>j. t_start t + of_nat (4096 * j)) [0..<(unat (t_size t) + 4095) div 4096]"

lemma run_emit [run_simps]:
  "emit_fence h f s = Ret () (add_fences h [f (harts s h)] s)"
  by (simp add: emit_fence_def add_fences_def run_simps upd_hart_def)

lemma add_fences_simps [simp]:
  "harts (add_fences h fs s) h = (harts s h)\<lparr>fences := fences (harts s h) @ fs\<rparr>"
  "add_fences h gs (add_fences h fs s) = add_fences h (fs @ gs) s" "add_fences h [] s = s"
  by (simp_all add: add_fences_def upd_hart_def)

lemma emit_all_run:
  assumes "\<And>x t fs. mk x (t\<lparr>fences := fs\<rparr>) = mk x t"
  shows "forM is (\<lambda>i. emit_fence h (mk (st + i))) s = Ret () (add_fences h (map (\<lambda>i. mk (st + i) (harts s h)) is) s)"
  by (induction "is" arbitrary: s) (simp_all add: run_simps assms)

lemma flush_pages_run:
  assumes "unat (t_size t) \<le> 2 ^ 64 - 4096" "\<And>x t fs. mk x (t\<lparr>fences := fs\<rparr>) = mk x t"
  shows "flush_pages h (t_start t) (t_size t) mk s =
    Ret () (add_fences h (map (\<lambda>x. mk x (harts s h)) (range_pages t)) s)"
proof -
  have "page_steps 0 (t_size t) = Some (map (\<lambda>j. of_nat (4096 * j)) [0..<(unat (t_size t) + 4095) div 4096])"
    using page_steps_run [OF assms(1), of 0] by simp
  then show ?thesis
    using emit_all_run [of mk, where st = "t_start t" and h = h and s = s] assms(2)
    by (simp add: flush_pages_def range_pages_def comp_def del: of_nat_mult)
qed

text \<open>Every address of a range lies in one of the pages the loop visits.\<close>

lemma range_pages_cover:
  assumes "tlb_req_ok t" "in_range t a" "\<not> (t_start t = 0 \<and> t_size t = 0)" "t_size t \<noteq> SBI_TLB_FLUSH_ALL"
  shows "\<exists>x\<in>set (range_pages t). same_page x a"
proof -
  define j where "j = (unat a - unat (t_start t)) div 4096"
  obtain q where q: "unat (t_start t) = 4096 * q" using assms(1) by (auto simp: tlb_req_ok_def)
  have a: "unat (t_start t) \<le> unat a" "unat a < unat (t_start t) + unat (t_size t)"
    using assms by (auto simp: in_range_def word_le_nat_alt)
  define d where "d = unat a - unat (t_start t)"
  have d: "unat a = 4096 * q + d" "d < unat (t_size t)" "j = d div 4096"
    using a q by (auto simp: d_def j_def)
  have "4096 * j \<le> d" using d(3) by simp
  then have "4096 * j < 2 ^ 64" "unat (t_start t) + 4096 * j < 2 ^ 64"
    using d(1) q unat64 [of a] by simp_all
  then have x: "unat (t_start t + of_nat (4096 * j)) = 4096 * (q + j)"
    using unat_of_nat_small [of "4096 * j"] q
    by (subst unat_add_lem [THEN iffD1]) (simp_all del: of_nat_mult)
  have "unat a div 4096 = q + j" unfolding d(1) d(3) by simp
  then have "same_page (t_start t + of_nat (4096 * j)) a" using x by (simp add: same_page_def)
  moreover have "j < (unat (t_size t) + 4095) div 4096" using d(2,3) by auto
  ultimately show ?thesis by (auto simp: range_pages_def)
qed

lemma hgatp_restored:
  "upd_hart h (\<lambda>x. x\<lparr>csr := (csr x)(n := csr (harts s h) n)\<rparr>)
     (add_fences h fs (upd_hart h (\<lambda>x. x\<lparr>csr := (csr x)(n := v)\<rparr>) s)) = add_fences h fs s"
  by (simp add: upd_hart_def add_fences_def)

lemma run_csr_swap [run_simps]:
  "csr_swap h n v s = Ret (csr (harts s h) n) (upd_hart h (\<lambda>t. t\<lparr>csr := (csr t)(n := v)\<rparr>) s)"
  by (simp add: csr_swap_def run_simps)

lemmas flush_defs = sbi_tlb_local_flush_def sbi_tlb_sfence_vma_def sbi_tlb_sfence_vma_asid_def
  sbi_tlb_hfence_gvma_def sbi_tlb_hfence_gvma_vmid_def sbi_tlb_hfence_vvma_def
  sbi_tlb_hfence_vvma_asid_def sbi_tlb_flush_all_def

lemma word_le_6_cases: "(w :: ulong) \<le> 6 \<Longrightarrow> w = 0 \<or> w = 1 \<or> w = 2 \<or> w = 3 \<or> w = 4 \<or> w = 5 \<or> w = 6"
proof -
  assume "w \<le> 6"
  then have "unat w \<le> 6" by (simp add: word_le_nat_alt)
  then have "unat w = 0 \<or> unat w = 1 \<or> unat w = 2 \<or> unat w = 3 \<or> unat w = 4 \<or> unat w = 5 \<or> unat w = 6"
    by linarith
  moreover have "w = of_nat k" if "unat w = k" for k using that by auto
  from this [of 0] this [of 1] this [of 2] this [of 3] this [of 4] this [of 5] this [of 6]
  have "unat w = 0 \<longrightarrow> w = 0" "unat w = 1 \<longrightarrow> w = 1" "unat w = 2 \<longrightarrow> w = 2" "unat w = 3 \<longrightarrow> w = 3"
    "unat w = 4 \<longrightarrow> w = 4" "unat w = 5 \<longrightarrow> w = 5" "unat w = 6 \<longrightarrow> w = 6" by simp_all
  ultimately show ?thesis by blast
qed

text \<open>The instruction for one page, and for everything, by the type of the request.\<close>

definition page_fence :: "sbi_tlb_info \<Rightarrow> ulong \<Rightarrow> fence" where
  "page_fence t =
     (if t_type t = 0 then SFENCE_VMA
      else if t_type t = 1 then (\<lambda>x. SFENCE_VMA_ASID_VA x (t_asid t))
      else if t_type t = 2 then HFENCE_GVMA_GPA
      else if t_type t = 3 then (\<lambda>x. HFENCE_GVMA_VMID_GPA x (t_vmid t))
      else if t_type t = 4 then HFENCE_VVMA_VA (vmid_field t)
      else if t_type t = 5 then (\<lambda>x. HFENCE_VVMA_ASID_VA (vmid_field t) x (t_asid t))
      else (\<lambda>_. FENCE_I))"

definition all_fence :: "sbi_tlb_info \<Rightarrow> fence" where
  "all_fence t =
     (if t_type t = 0 then SFENCE_VMA_ALL
      else if t_type t = 1 then if t_size t = 0 then SFENCE_VMA_ALL else SFENCE_VMA_ASID (t_asid t)
      else if t_type t = 2 then HFENCE_GVMA_ALL
      else if t_type t = 3 then if t_size t = 0 then HFENCE_GVMA_ALL else HFENCE_GVMA_VMID (t_vmid t)
      else if t_type t = 4 then HFENCE_VVMA_ALL (vmid_field t)
      else if t_type t = 5 then
        if t_size t = 0 then HFENCE_VVMA_ALL (vmid_field t) else HFENCE_VVMA_ASID (vmid_field t) (t_asid t)
      else FENCE_I)"

definition flush_fences :: "sbi_tlb_info \<Rightarrow> fence list" where
  "flush_fences t =
     (if t_type t = 6 then [FENCE_I]
      else if t_start t = 0 \<and> t_size t = 0 \<or> t_size t = SBI_TLB_FLUSH_ALL then [all_fence t]
      else map (page_fence t) (range_pages t))"

lemma local_flush_all:
  assumes "t_start t = 0 \<and> t_size t = 0 \<or> t_size t = SBI_TLB_FLUSH_ALL" "t_type t \<le> 6"
  shows "sbi_tlb_local_flush c h t s = Ret () (add_fences h [all_fence t] s)"
  using word_le_6_cases [OF assms(2)] assms(1)
  by (elim disjE) (simp_all add: flush_defs run_simps all_fence_def hgatp_restored vmid_field_def)

lemma local_flush_range:
  assumes "\<not> (t_start t = 0 \<and> t_size t = 0)" "t_size t \<noteq> SBI_TLB_FLUSH_ALL" "t_type t \<le> 6" "t_type t \<noteq> 6"
    "unat (t_size t) \<le> 2 ^ 64 - 4096"
  shows "sbi_tlb_local_flush c h t s = Ret () (add_fences h (map (page_fence t) (range_pages t)) s)"
  using word_le_6_cases [OF assms(3)] assms(1,2,4)
  by (elim disjE)
    (auto simp add: flush_defs run_simps page_fence_def flush_pages_run [OF assms(5)] hgatp_restored vmid_field_def)

lemma local_flush_run:
  assumes "tlb_req_ok t"
  shows "sbi_tlb_local_flush c h t s = Ret () (add_fences h (flush_fences t) s)"
proof (cases "t_start t = 0 \<and> t_size t = 0 \<or> t_size t = SBI_TLB_FLUSH_ALL")
  case True
  then show ?thesis
    using local_flush_all [OF True] assms by (auto simp: tlb_req_ok_def flush_fences_def all_fence_def)
next
  case False
  then show ?thesis
    using local_flush_range [of t] assms
    by (cases "t_type t = 6") (auto simp: tlb_req_ok_def flush_fences_def sbi_tlb_local_flush_def run_simps)
qed

lemma all_fence_covers: "t_type t \<le> 6 \<Longrightarrow> covers (all_fence t) t a"
  by (drule word_le_6_cases) (auto simp: covers_def all_fence_def)

lemma page_fence_covers: "t_type t \<le> 6 \<Longrightarrow> same_page x a \<Longrightarrow> covers (page_fence t x) t a"
  by (drule word_le_6_cases) (auto simp: covers_def page_fence_def)

lemma flush_fences_cover:
  assumes "tlb_req_ok t" "in_range t a"
  shows "\<exists>f\<in>set (flush_fences t). covers f t a"
proof -
  have ty: "t_type t \<le> 6" using assms(1) by (simp add: tlb_req_ok_def)
  show ?thesis
  proof (cases "t_start t = 0 \<and> t_size t = 0 \<or> t_size t = SBI_TLB_FLUSH_ALL")
    case True
    then show ?thesis using all_fence_covers [OF ty] by (auto simp: flush_fences_def covers_def)
  next
    case False
    then obtain x where "x \<in> set (range_pages t)" "same_page x a"
      using range_pages_cover [OF assms] by auto
    then show ?thesis
      using page_fence_covers [OF ty, of x a] False by (auto simp: flush_fences_def covers_def)
  qed
qed

section \<open>Merging\<close>

text \<open>Requests for the same translations, and a request that serves another.\<close>

definition same_ctx :: "sbi_tlb_info \<Rightarrow> sbi_tlb_info \<Rightarrow> bool" where
  "same_ctx e t \<longleftrightarrow> t_type e = t_type t \<and> (t_type t = 0 \<or> t_asid e = t_asid t) \<and>
     (t_type t = 0 \<or> t_type t = 1 \<or> t_vmid e = t_vmid t)"

definition serves :: "sbi_tlb_info \<Rightarrow> sbi_tlb_info \<Rightarrow> bool" where
  "serves e t \<longleftrightarrow> same_ctx e t \<and> (\<forall>a. in_range t a \<longrightarrow> in_range e a)"

text \<open>Requests that the merging rule treats correctly: not \<open>(0, 0)\<close>, and without wrap-around.\<close>

definition tlb_wf :: "sbi_tlb_info \<Rightarrow> bool" where
  "tlb_wf t \<longleftrightarrow> hm_ok (t_smask t) \<and> unat (t_start t) + unat (t_size t) < 2 ^ 64 \<and>
     \<not> (t_start t = 0 \<and> t_size t = 0)"

lemma serves_refl: "serves t t"
  by (simp add: serves_def same_ctx_def)

lemma serves_trans: "serves a b \<Longrightarrow> serves b c \<Longrightarrow> serves a c"
  by (auto simp: serves_def same_ctx_def)

lemma covers_ctx: "same_ctx e t \<Longrightarrow> covers f e a = covers f t a"
  by (auto simp: same_ctx_def covers_def vmid_field_def split: fence.splits)

lemma unat_minus_1 [simp]: "unat (- 1 :: ulong) = 18446744073709551615"
  by (simp add: unsigned_minus_1_eq_mask mask_eq_exp_minus_1)

lemma unat_max: "unat (w :: ulong) = 2 ^ 64 - 1 \<longleftrightarrow> w = - 1"
  by (simp add: word_unat_eq_iff)

lemma tlb_wf_all: "tlb_wf t \<Longrightarrow> t_size t = SBI_TLB_FLUSH_ALL \<Longrightarrow> t_start t = 0"
  by (auto simp: tlb_wf_def simp flip: unat_eq_0)

lemma tlb_wf_end: "tlb_wf t \<Longrightarrow> unat (t_start t + t_size t) = unat (t_start t) + unat (t_size t)"
  by (simp add: tlb_wf_def unat_add_lem [THEN iffD1])

lemma in_range_wf:
  "tlb_wf t \<Longrightarrow> in_range t a \<longleftrightarrow> t_size t = SBI_TLB_FLUSH_ALL \<or>
    unat (t_start t) \<le> unat a \<and> unat a < unat (t_start t) + unat (t_size t)"
  by (auto simp: in_range_def tlb_wf_def word_le_nat_alt)

lemma range_check_cases:
  assumes "tlb_wf cur" "tlb_wf nxt" "u_sbi_tlb_range_check cur nxt = Some (r, cur')"
  shows "r = SBI_FIFO_UNCHANGED \<and> cur' = cur \<or>
    r \<noteq> SBI_FIFO_UNCHANGED \<and> tlb_wf cur' \<and> hm_set (t_smask cur') = hm_set (t_smask cur) \<union> hm_set (t_smask nxt) \<and>
    t_type cur' = t_type cur \<and> t_asid cur' = t_asid cur \<and> t_vmid cur' = t_vmid cur \<and>
    (\<forall>a. in_range cur a \<or> in_range nxt a \<longrightarrow> in_range cur' a)"
proof -
  obtain m where m: "sbi_hartmask_or (t_smask cur) (t_smask cur) (t_smask nxt) = Some m" "hm_ok m"
    "hm_set m = hm_set (t_smask cur) \<union> hm_set (t_smask nxt)"
    using hm_uni [of "t_smask cur" "t_smask cur" "t_smask nxt"] assms(1,2) by (auto simp: tlb_wf_def)
  let ?upd = "cur\<lparr>t_start := t_start nxt, t_size := t_size nxt, t_smask := m\<rparr>"
  let ?skip = "cur\<lparr>t_smask := m\<rparr>"
  have w: "tlb_wf ?upd" "tlb_wf ?skip" using assms(1,2) m(2) by (auto simp: tlb_wf_def)
  note ends = tlb_wf_end [OF assms(1)] tlb_wf_end [OF assms(2)]
  have up: "in_range ?upd a" if "in_range cur a \<or> in_range nxt a" "t_start nxt \<le> t_start cur"
      "t_start cur + t_size cur < t_start nxt + t_size nxt" for a
  proof -
    have "t_size cur \<noteq> - 1"
      using that(3) ends tlb_wf_all [OF assms(1)] unat64 [of "t_start nxt + t_size nxt"]
      by (auto simp: word_less_nat_alt)
    then show ?thesis
      using that ends in_range_wf [OF assms(1)] in_range_wf [OF assms(2)] in_range_wf [OF w(1)]
      by (auto simp: word_le_nat_alt word_less_nat_alt)
  qed
  have sk: "in_range ?skip a" if "in_range cur a \<or> in_range nxt a" "t_start cur \<le> t_start nxt"
      "t_start nxt + t_size nxt \<le> t_start cur + t_size cur" for a
  proof -
    have "t_size cur = - 1" if *: "t_size nxt = - 1"
    proof -
      have "unat (t_start nxt) = 0" using tlb_wf_all [OF assms(2) *] by simp
      then have "unat (t_size cur) = 2 ^ 64 - 1"
        using \<open>t_start cur \<le> t_start nxt\<close> \<open>t_start nxt + t_size nxt \<le> t_start cur + t_size cur\<close> ends *
          unat64 [of "t_size cur"] by (simp add: word_le_nat_alt)
      then show ?thesis by (simp only: unat_max)
    qed
    then show ?thesis
      using that ends in_range_wf [OF assms(1)] in_range_wf [OF assms(2)] in_range_wf [OF w(2)]
      by (auto simp: word_le_nat_alt)
  qed
  show ?thesis
    using assms(3) m w up sk by (auto simp: u_sbi_tlb_range_check_def Let_def split: if_splits)
qed

lemma update_cb_cases:
  assumes "tlb_wf cur" "tlb_wf nxt" "sbi_tlb_update_cb nxt cur = Some (r, cur')"
  shows "r = SBI_FIFO_UNCHANGED \<and> cur' = cur \<or>
    r \<noteq> SBI_FIFO_UNCHANGED \<and> tlb_wf cur' \<and> hm_set (t_smask cur') = hm_set (t_smask cur) \<union> hm_set (t_smask nxt) \<and>
    serves cur' cur \<and> serves cur' nxt"
  using assms(3) range_check_cases [OF assms(1,2), of r cur']
  by (auto simp: sbi_tlb_update_cb_def serves_def same_ctx_def split: if_splits)

lemma update_cb_total:
  assumes "hm_ok (t_smask cur)" "hm_ok (t_smask nxt)"
  shows "\<exists>r cur'. sbi_tlb_update_cb nxt cur = Some (r, cur') \<and> hm_ok (t_smask cur') \<and>
    (r = SBI_FIFO_UNCHANGED \<longrightarrow> cur' = cur)"
  using hm_uni [OF assms(1) assms] assms(1)
  by (auto simp: sbi_tlb_update_cb_def u_sbi_tlb_range_check_def Let_def)

text \<open>The queue as a list of requests: a request is merged with the first entry that takes it, or appended.\<close>

definition tlb_add :: "sbi_tlb_info \<Rightarrow> sbi_tlb_info list \<Rightarrow> sbi_fifo_inplace_update_types \<times> sbi_tlb_info list" where
  "tlb_add t q =
     (case upd_first (sbi_tlb_update_cb t) q of
        Some (r, q') \<Rightarrow> if r = SBI_FIFO_UNCHANGED then (r, q @ [t]) else (r, q')
      | None \<Rightarrow> (SBI_FIFO_UNCHANGED, q))"

lemma upd_first_total:
  assumes "\<forall>x\<in>set q. hm_ok (t_smask x)" "hm_ok (t_smask t)"
  shows "\<exists>r q'. upd_first (sbi_tlb_update_cb t) q = Some (r, q') \<and> (r = SBI_FIFO_UNCHANGED \<longrightarrow> q' = q)"
  using assms(1)
proof (induction q)
  case (Cons x q)
  obtain r x' where x: "sbi_tlb_update_cb t x = Some (r, x')" "r = SBI_FIFO_UNCHANGED \<longrightarrow> x' = x"
    using update_cb_total [of x t] Cons.prems assms(2) by auto
  show ?case using Cons x upd_verdict [of r] by fastforce
qed simp

lemma tlb_add_Cons:
  assumes "tlb_wf x" "\<forall>y\<in>set q. tlb_wf y" "tlb_wf t"
  shows "tlb_add t (x # q) = (fst (tlb_add t q), x # snd (tlb_add t q)) \<or>
    (\<exists>r x'. tlb_add t (x # q) = (r, x' # q) \<and> tlb_wf x' \<and>
      hm_set (t_smask x') = hm_set (t_smask x) \<union> hm_set (t_smask t) \<and> serves x' x \<and> serves x' t)"
proof -
  obtain r x' where x: "sbi_tlb_update_cb t x = Some (r, x')"
    using update_cb_total [of x t] assms by (auto simp: tlb_wf_def)
  obtain r' q' where q': "upd_first (sbi_tlb_update_cb t) q = Some (r', q')" "r' = SBI_FIFO_UNCHANGED \<longrightarrow> q' = q"
    using upd_first_total [of q t] assms by (auto simp: tlb_wf_def)
  show ?thesis
    using update_cb_cases [OF assms(1,3) x] x q' upd_verdict [of r] by (auto simp: tlb_add_def)
qed

text \<open>Merging loses no request that is waiting, and serves the new one.\<close>

lemma tlb_add_cases:
  assumes "\<forall>x\<in>set q. tlb_wf x" "tlb_wf t"
  shows "(\<forall>x\<in>set (snd (tlb_add t q)). tlb_wf x) \<and>
    (\<forall>e\<in>set q. \<exists>e'\<in>set (snd (tlb_add t q)). hm_set (t_smask e) \<subseteq> hm_set (t_smask e') \<and> serves e' e) \<and>
    (\<exists>e'\<in>set (snd (tlb_add t q)). hm_set (t_smask t) \<subseteq> hm_set (t_smask e') \<and> serves e' t) \<and>
    (\<forall>e'\<in>set (snd (tlb_add t q)). (e' \<in> set q \<or> e' = t) \<or>
       (\<exists>e\<in>set q. hm_set (t_smask e') = hm_set (t_smask e) \<union> hm_set (t_smask t) \<and> serves e' e \<and> serves e' t))"
  using assms(1)
proof (induction q)
  case Nil
  then show ?case using assms(2) by (simp add: tlb_add_def serves_refl)
next
  case (Cons x q)
  then have "tlb_add t (x # q) = (fst (tlb_add t q), x # snd (tlb_add t q)) \<or>
    (\<exists>r x'. tlb_add t (x # q) = (r, x' # q) \<and> tlb_wf x' \<and>
      hm_set (t_smask x') = hm_set (t_smask x) \<union> hm_set (t_smask t) \<and> serves x' x \<and> serves x' t)"
    using assms(2) by (intro tlb_add_Cons) auto
  then show ?case
  proof
    assume "tlb_add t (x # q) = (fst (tlb_add t q), x # snd (tlb_add t q))"
    then show ?thesis using Cons.IH Cons.prems serves_refl [of x] by auto
  next
    assume "\<exists>r x'. tlb_add t (x # q) = (r, x' # q) \<and> tlb_wf x' \<and>
      hm_set (t_smask x') = hm_set (t_smask x) \<union> hm_set (t_smask t) \<and> serves x' x \<and> serves x' t"
    then show ?thesis using Cons.prems serves_refl by auto
  qed
qed

text \<open>The requesters of a list of entries.\<close>

definition all_masks :: "sbi_tlb_info list \<Rightarrow> nat set" where
  "all_masks q = (\<Union>t\<in>set q. hm_set (t_smask t))"

fun masks_disjoint :: "sbi_tlb_info list \<Rightarrow> bool" where
  "masks_disjoint [] \<longleftrightarrow> True"
| "masks_disjoint (t # q) \<longleftrightarrow> hm_set (t_smask t) \<inter> all_masks q = {} \<and> masks_disjoint q"

lemma all_masks_simps [simp]:
  "all_masks [] = {}" "all_masks (t # q) = hm_set (t_smask t) \<union> all_masks q"
  by (simp_all add: all_masks_def)

lemma tlb_add_masks:
  assumes "\<forall>x\<in>set q. tlb_wf x" "tlb_wf t" "hm_set (t_smask t) \<inter> all_masks q = {}" "masks_disjoint q"
  shows "all_masks (snd (tlb_add t q)) = all_masks q \<union> hm_set (t_smask t) \<and> masks_disjoint (snd (tlb_add t q))"
  using assms(1,3,4)
proof (induction q)
  case Nil
  then show ?case by (simp add: tlb_add_def)
next
  case (Cons x q)
  then have IH: "all_masks (snd (tlb_add t q)) = all_masks q \<union> hm_set (t_smask t) \<and> masks_disjoint (snd (tlb_add t q))"
    by auto
  have "tlb_add t (x # q) = (fst (tlb_add t q), x # snd (tlb_add t q)) \<or>
    (\<exists>r x'. tlb_add t (x # q) = (r, x' # q) \<and> tlb_wf x' \<and>
      hm_set (t_smask x') = hm_set (t_smask x) \<union> hm_set (t_smask t) \<and> serves x' x \<and> serves x' t)"
    using Cons.prems assms(2) by (intro tlb_add_Cons) auto
  then show ?case using IH Cons.prems by auto
qed

section \<open>The request queue in the ring buffer\<close>

definition ring_ok :: "'d sys \<Rightarrow> nat \<Rightarrow> bool" where
  "ring_ok s sc \<longleftrightarrow> fifo_inv (tlb_fifo (scratch s sc)) \<and>
     num_entries (tlb_fifo (scratch s sc)) = SBI_TLB_FIFO_NUM_ENTRIES \<and>
     entry_size (tlb_fifo (scratch s sc)) = SBI_TLB_INFO_SIZE"

definition tlb_reqs :: "'d sys \<Rightarrow> nat \<Rightarrow> sbi_tlb_info list" where
  "tlb_reqs s sc = map decode_tlb (fifo_items (tlb_fifo (scratch s sc)))"

definition set_ring :: "nat \<Rightarrow> sbi_fifo \<Rightarrow> 'd sys \<Rightarrow> 'd sys" where
  "set_ring sc f = upd_scratch sc (\<lambda>x. x\<lparr>tlb_fifo := f\<rparr>)"

lemma set_ring_simps [simp]:
  "tlb_fifo (scratch (set_ring sc f s) sc) = f"
  "sc' \<noteq> sc \<Longrightarrow> scratch (set_ring sc f s) sc' = scratch s sc'"
  "scratch_rd x off (set_ring sc f s) = scratch_rd x off s" "harts (set_ring sc f s) = harts s"
  "area_of (set_ring sc f s) = area_of s" "scratch_wf (set_ring sc f s) = scratch_wf s"
  "tlb_sync_off (set_ring sc f s) = tlb_sync_off s" "set_ring sc f (set_ring sc g s) = set_ring sc f s"
  by (auto simp: set_ring_def scratch_rd_def area_of_def fun_eq_iff scratch_wf_def) (simp_all add: upd_scratch_def)

lemma set_ring_same: "set_ring sc (tlb_fifo (scratch s sc)) s = s"
  by (simp add: set_ring_def upd_scratch_def)

lemma ring_items_length:
  assumes "ring_ok s sc" "bs \<in> set (fifo_items (tlb_fifo (scratch s sc)))"
  shows "length bs = 56"
  using rb.elems [of "Some (tlb_fifo (scratch s sc))" bs] assms by (simp add: q_defs ring_ok_def)

lemma tlb_reqs_hm_ok: "x \<in> set (tlb_reqs s sc) \<Longrightarrow> hm_ok (t_smask x)"
  by (auto simp: tlb_reqs_def)

lemma tlb_dequeue_run:
  assumes "ring_ok s sc"
  shows "case tlb_reqs s sc of
      [] \<Rightarrow> tlb_dequeue sc s = Ret None s
    | t # q \<Rightarrow> \<exists>f. tlb_dequeue sc s = Ret (Some t) (set_ring sc f s) \<and>
        ring_ok (set_ring sc f s) sc \<and> tlb_reqs (set_ring sc f s) sc = q"
proof (cases "fifo_items (tlb_fifo (scratch s sc))")
  case Nil
  then have "sbi_fifo_dequeue (Some (replicate 56 0)) (Some (tlb_fifo (scratch s sc))) =
      Some (SBI_ENOENT, Some (tlb_fifo (scratch s sc)), Some (replicate 56 0))"
    using rb.deq_none [of "Some (tlb_fifo (scratch s sc))"] assms by (simp add: q_defs ring_ok_def)
  then show ?thesis
    using Nil set_ring_same [of sc s] by (simp add: tlb_reqs_def tlb_dequeue_def run_simps set_ring_def)
next
  case (Cons x xs)
  obtain f where "sbi_fifo_dequeue (Some (replicate 56 0)) (Some (tlb_fifo (scratch s sc))) = Some (0, Some f, Some x)"
    "fifo_inv f" "fifo_items f = xs" "num_entries f = 8" "entry_size f = 56"
    using dequeue_item [of "tlb_fifo (scratch s sc)" "replicate 56 0" x xs] assms Cons by (auto simp: ring_ok_def)
  then show ?thesis
    using Cons by (auto simp: tlb_reqs_def tlb_dequeue_def run_simps ring_ok_def set_ring_def [symmetric] intro!: exI [of _ f])
qed

text \<open>The callback on the bytes of the entries acts as the one on requests.\<close>

lemma upd_first_bytes:
  assumes "\<forall>bs\<in>set bss. length bs = 56" "hm_ok (t_smask t)"
  shows "upd_first (update_cb_bytes t) bss =
    map_option (map_prod id (map encode_tlb)) (upd_first (sbi_tlb_update_cb t) (map decode_tlb bss))"
  using assms(1)
proof (induction bss)
  case (Cons bs bss)
  obtain r x where x: "sbi_tlb_update_cb t (decode_tlb bs) = Some (r, x)"
    using update_cb_total [OF hm_ok_decode assms(2), of bs] by auto
  have "map (encode_tlb \<circ> decode_tlb) bss = bss"
    using Cons.prems by (intro map_idI) (simp add: encode_decode_tlb)
  then show ?case
    using Cons x by (cases "upd_first (sbi_tlb_update_cb t) (map decode_tlb bss)")
      (auto simp: update_cb_bytes_def)
qed simp

lemma update_cb_bytes_length:
  assumes "update_cb_bytes t e = Some (r, e')" "hm_ok (t_smask t)" "length e = 56"
  shows "length e' = length e"
proof -
  obtain r' x where x: "sbi_tlb_update_cb t (decode_tlb e) = Some (r', x)" "hm_ok (t_smask x)"
    using update_cb_total [OF hm_ok_decode assms(2), of e] by auto
  then show ?thesis using assms(1,3) length_encode_tlb [OF x(2)] by (auto simp: update_cb_bytes_def)
qed

lemma decode_encode_all: "\<forall>x\<in>set q. hm_ok (t_smask x) \<Longrightarrow> map (decode_tlb \<circ> encode_tlb) q = q"
  by (intro map_idI) (simp add: decode_encode_tlb)

lemma upd_first_hm_ok:
  assumes "upd_first (sbi_tlb_update_cb t) q = Some (r, q')" "\<forall>x\<in>set q. hm_ok (t_smask x)" "hm_ok (t_smask t)"
  shows "\<forall>x\<in>set q'. hm_ok (t_smask x)"
  using assms(1,2)
proof (induction q arbitrary: r q')
  case (Cons x q)
  obtain r1 x1 where x: "sbi_tlb_update_cb t x = Some (r1, x1)" "hm_ok (t_smask x1)"
    using update_cb_total [of x t] Cons.prems(2) assms(3) by auto
  show ?case
    using Cons x by (cases "upd_first (sbi_tlb_update_cb t) q") (auto split: if_splits)
qed simp

lemma inplace_update_reqs:
  assumes "ring_ok s sc" "hm_ok (t_smask t)" "upd_first (sbi_tlb_update_cb t) (tlb_reqs s sc) = Some (r, q')"
  shows "\<exists>f. sbi_fifo_inplace_update update_cb_bytes (Some t) (Some (tlb_fifo (scratch s sc))) = Some (r, Some f) \<and>
    ring_ok (set_ring sc f s) sc \<and> tlb_reqs (set_ring sc f s) sc = q'"
proof -
  let ?f = "tlb_fifo (scratch s sc)"
  have "upd_first (update_cb_bytes t) (fifo_items ?f) = Some (r, map encode_tlb q')"
    using upd_first_bytes [OF _ assms(2), of "fifo_items ?f"] ring_items_length [OF assms(1)] assms(3)
    by (simp add: tlb_reqs_def)
  then obtain f where f: "sbi_fifo_inplace_update update_cb_bytes (Some t) (Some ?f) = Some (r, Some f)"
    "fifo_inv f" "fifo_items f = map encode_tlb q'" "num_entries f = num_entries ?f" "entry_size f = entry_size ?f"
    using inplace_update_items [of ?f update_cb_bytes t r "map encode_tlb q'"] assms(1)
      update_cb_bytes_length [OF _ assms(2)] by (auto simp: ring_ok_def)
  have "\<forall>x\<in>set q'. hm_ok (t_smask x)"
    using upd_first_hm_ok [OF assms(3)] tlb_reqs_hm_ok assms(2) by blast
  then show ?thesis
    using f assms(1) decode_encode_all [of q'] by (intro exI [of _ f]) (simp add: ring_ok_def tlb_reqs_def)
qed

lemma enqueue_reqs:
  assumes "ring_ok s sc" "hm_ok (t_smask t)" "length (tlb_reqs s sc) < 8"
  shows "\<exists>f. sbi_fifo_enqueue (Some (encode_tlb t)) (Some (tlb_fifo (scratch s sc))) = Some (0, Some f) \<and>
    ring_ok (set_ring sc f s) sc \<and> tlb_reqs (set_ring sc f s) sc = tlb_reqs s sc @ [t]"
proof -
  let ?f = "tlb_fifo (scratch s sc)"
  have "avail ?f \<noteq> num_entries ?f"
    using assms(1,3) by (auto simp: ring_ok_def tlb_reqs_def length_fifo_items)
  then obtain f where f: "u_sbi_fifo_enqueue ?f (encode_tlb t) = Some f" "fifo_inv f"
    "fifo_items f = fifo_items ?f @ [encode_tlb t]" "num_entries f = num_entries ?f" "entry_size f = entry_size ?f"
    using enqueue_room [of ?f "encode_tlb t"] assms(1) length_encode_tlb [OF assms(2)] by (auto simp: ring_ok_def)
  moreover have "\<not> u_sbi_fifo_is_full ?f"
    using \<open>avail ?f \<noteq> num_entries ?f\<close> by (simp add: u_sbi_fifo_is_full_def)
  ultimately show ?thesis
    using assms(1,2) by (intro exI [of _ f])
      (simp add: sbi_fifo_enqueue_def ring_ok_def tlb_reqs_def decode_encode_tlb)
qed

lemma tlb_update_run:
  fixes t :: sbi_tlb_info and s :: "'d sys"
  assumes "remote \<noteq> h" "ring_ok s rsc" "hm_ok (t_smask t)" "0 < fuel c"
  defines "t' \<equiv> tlb_upgrade (tlb_range_flush_limit s) t"
  assumes "fst (tlb_add t' (tlb_reqs s rsc)) \<noteq> SBI_FIFO_UNCHANGED \<or> length (tlb_reqs s rsc) < 8"
  shows "\<exists>f. sbi_tlb_update c h sc rsc remote t s =
      Ret (if fst (tlb_add t' (tlb_reqs s rsc)) = SBI_FIFO_UNCHANGED then 0 else 1, t') (set_ring rsc f s) \<and>
    ring_ok (set_ring rsc f s) rsc \<and> tlb_reqs (set_ring rsc f s) rsc = snd (tlb_add t' (tlb_reqs s rsc))"
proof -
  have m: "hm_ok (t_smask t')" using assms(3) by (simp add: t'_def tlb_upgrade_def)
  obtain r q' where q': "upd_first (sbi_tlb_update_cb t') (tlb_reqs s rsc) = Some (r, q')"
    "r = SBI_FIFO_UNCHANGED \<longrightarrow> q' = tlb_reqs s rsc"
    using upd_first_total [OF _ m, of "tlb_reqs s rsc"] tlb_reqs_hm_ok by blast
  obtain f where f: "sbi_fifo_inplace_update update_cb_bytes (Some t') (Some (tlb_fifo (scratch s rsc))) = Some (r, Some f)"
    "ring_ok (set_ring rsc f s) rsc" "tlb_reqs (set_ring rsc f s) rsc = q'"
    using inplace_update_reqs [OF assms(2) m q'(1)] by blast
  show ?thesis
  proof (cases "r = SBI_FIFO_UNCHANGED")
    case True
    have "length (tlb_reqs (set_ring rsc f s) rsc) < 8"
      using assms(6) True q' f(3) by (simp add: tlb_add_def)
    then obtain g where g: "sbi_fifo_enqueue (Some (encode_tlb t')) (Some f) = Some (0, Some g)"
      "ring_ok (set_ring rsc g s) rsc" "tlb_reqs (set_ring rsc g s) rsc = q' @ [t']"
      using enqueue_reqs [OF f(2) m] f(3) by auto
    obtain n where n: "fuel c = Suc n" using assms(4) by (cases "fuel c") auto
    show ?thesis
      using assms(1) True q' f g n
      by (intro exI [of _ g])
        (simp add: sbi_tlb_update_def run_simps Let_def t'_def [symmetric] set_ring_def [symmetric] tlb_add_def)
  next
    case False
    then show ?thesis
      using assms(1) q' f by (intro exI [of _ f])
        (simp add: sbi_tlb_update_def run_simps Let_def t'_def [symmetric] set_ring_def [symmetric] tlb_add_def)
  qed
qed

section \<open>Synchronisation words\<close>

definition tlb_flag :: "'d sys \<Rightarrow> nat \<Rightarrow> ulong option" where
  "tlb_flag s i = map_option (\<lambda>sc. scratch_rd sc (tlb_sync_off s) s) (area_of s i)"

definition signal :: "nat \<Rightarrow> 'd sys \<Rightarrow> 'd sys" where
  "signal i s = (case area_of s i of None \<Rightarrow> s | Some sc \<Rightarrow> scratch_wr sc (tlb_sync_off s) 1 s)"

lemma tlb_sync_off_wr [simp]: "tlb_sync_off (scratch_wr sc off w s) = tlb_sync_off s"
  by (simp add: scratch_wr_def upd_scratch_def)

lemma scratch_wf_wr [simp]: "scratch_wf (scratch_wr sc off w s) = scratch_wf s"
  by (simp add: scratch_wf_def)

lemma signal_simps [simp]:
  "area_of (signal i s) = area_of s" "tlb_sync_off (signal i s) = tlb_sync_off s" "harts (signal i s) = harts s"
  "scratch_wf (signal i s) = scratch_wf s" "tlb_fifo (scratch (signal i s) sc) = tlb_fifo (scratch s sc)"
  by (simp_all add: signal_def scratch_wr_def split: option.splits)
    (simp_all add: upd_scratch_def area_of_def scratch_wf_def fun_eq_iff)

lemma area_inj:
  assumes "scratch_wf s" "area_of s i = Some sc" "area_of s j = Some sc"
  shows "i = j"
  using assms scratch_wfD(4) [OF assms(1)] by (auto simp: area_of_def split: if_splits)

lemma tlb_flag_signal:
  assumes "scratch_wf s"
  shows "tlb_flag (signal i s) j = (if j = i \<and> area_of s i \<noteq> None then Some 1 else tlb_flag s j)"
proof (cases "area_of s i")
  case (Some sc)
  then show ?thesis
    using area_inj [OF assms] by (cases "area_of s j") (auto simp: tlb_flag_def signal_def scratch_rd_wr)
qed (simp add: signal_def)

lemma signals_simps [simp]:
  "area_of (fold signal is s) = area_of s" "tlb_sync_off (fold signal is s) = tlb_sync_off s"
  "harts (fold signal is s) = harts s" "scratch_wf (fold signal is s) = scratch_wf s"
  "tlb_fifo (scratch (fold signal is s) sc) = tlb_fifo (scratch s sc)"
  by (induction "is" arbitrary: s) simp_all

lemma tlb_flag_signals:
  assumes "scratch_wf s"
  shows "tlb_flag (fold signal is s) j = (if j \<in> set is \<and> area_of s j \<noteq> None then Some 1 else tlb_flag s j)"
  using assms by (induction "is" arbitrary: s) (auto simp: tlb_flag_signal)

lemma run_xchg [run_simps]:
  "atomic_raw_xchg_ulong sc off v s = Ret (scratch_rd sc off s) (scratch_wr sc off v s)"
  by (simp add: atomic_raw_xchg_ulong_def run_simps)

text \<open>Telling the requesters of an entry, none of which has an unread signal.\<close>

lemma signal_loop_run:
  assumes "scratch_wf s" "\<forall>i\<in>set is. i < SBI_HARTMASK_MAX_BITS \<and> (area_of s i = None \<or> tlb_flag s i = Some 0)"
    "distinct is" "0 < fuel c"
  shows "forM is (\<lambda>i. bindM (sbi_hartid_to_scratch i) (\<lambda>r. case r of None \<Rightarrow> retM ()
           | Some rsc \<Rightarrow> bindM (getM tlb_sync_off) (\<lambda>off. sync_set_loop c h rsc off (fuel c)))) s =
    Ret () (fold signal is s)"
  using assms(1-3)
proof (induction "is" arbitrary: s)
  case (Cons i "is")
  obtain n where n: "fuel c = Suc n" using assms(4) by (cases "fuel c") auto
  have len: "length (hartid_to_scratch_table s) = 128" using Cons.prems(1) by (simp add: scratch_wf_def)
  have rest: "\<forall>j\<in>set is. j < 128 \<and> (area_of (signal i s) j = None \<or> tlb_flag (signal i s) j = Some 0)"
    using Cons.prems by (auto simp: tlb_flag_signal)
  have "(case hartid_to_scratch_table s ! i of None \<Rightarrow> retM ()
      | Some rsc \<Rightarrow> bindM (getM tlb_sync_off) (\<lambda>off. sync_set_loop c h rsc off (fuel c))) s = Ret () (signal i s)"
    using Cons.prems(2) n
    by (auto simp: signal_def area_of_def tlb_flag_def run_simps split: option.splits)
  then show ?case
    using Cons.IH [OF _ rest] Cons.prems len by (simp add: run_simps)
qed (simp add: run_simps)

definition mask_list :: "sbi_tlb_info \<Rightarrow> nat list" where
  "mask_list t = filter (bset (bits (t_smask t))) [0..<SBI_HARTMASK_MAX_BITS]"

lemma set_mask_list: "hm_ok (t_smask t) \<Longrightarrow> set (mask_list t) = hm_set (t_smask t)"
  by (auto simp: mask_list_def hm_set_def)

lemma add_fences_frame [simp]:
  "area_of (add_fences h fs s) = area_of s" "tlb_sync_off (add_fences h fs s) = tlb_sync_off s"
  "scratch (add_fences h fs s) = scratch s" "scratch_wf (add_fences h fs s) = scratch_wf s"
  "tlb_flag (add_fences h fs s) = tlb_flag s"
  by (simp_all add: add_fences_def area_of_def upd_hart_def scratch_wf_def tlb_flag_def scratch_rd_def fun_eq_iff)

lemma entry_process_run:
  assumes "tlb_req_ok t" "hm_ok (t_smask t)" "scratch_wf s" "0 < fuel c"
    "\<forall>i\<in>hm_set (t_smask t). area_of s i = None \<or> tlb_flag s i = Some 0"
  shows "sbi_tlb_entry_process c h t s = Ret () (fold signal (mask_list t) (add_fences h (flush_fences t) s))"
proof -
  have l: "sbi_hartmask_for_each_hart (t_smask t) = Some (mask_list t)"
    using assms(2) by (simp add: sbi_hartmask_for_each_hart_def for_each_set_bit_correct hm_ok_def mask_list_def)
  have "\<forall>i\<in>set (mask_list t). i < 128 \<and> (area_of s i = None \<or> tlb_flag s i = Some 0)"
    using assms(5) set_mask_list [OF assms(2)] by (auto simp: hm_set_def)
  then show ?thesis
    using l signal_loop_run [of "add_fences h (flush_fences t) s" "mask_list t" c h] assms(3,4)
    by (simp add: sbi_tlb_entry_process_def run_simps local_flush_run [OF assms(1)] mask_list_def)
qed

text \<open>Draining the queue of a hart whose entries have pairwise different requesters.\<close>

lemma process_loop_run:
  assumes "ring_ok s sc" "scratch_wf s" "0 < fuel c" "length (tlb_reqs s sc) < n"
    "\<forall>t\<in>set (tlb_reqs s sc). tlb_req_ok t" "masks_disjoint (tlb_reqs s sc)"
    "\<forall>i\<in>all_masks (tlb_reqs s sc). area_of s i = None \<or> tlb_flag s i = Some 0"
  shows "\<exists>s'. process_loop c h sc n fin s = Ret () s' \<and> tlb_reqs s' sc = [] \<and>
    fences (harts s' h) = fences (harts s h) @ concat (map flush_fences (tlb_reqs s sc)) \<and>
    (\<forall>i. tlb_flag s' i = (if i \<in> all_masks (tlb_reqs s sc) \<and> area_of s i \<noteq> None then Some 1 else tlb_flag s i))"
  using assms(1,2,4-7)
proof (induction "tlb_reqs s sc" arbitrary: s n)
  case Nil
  then obtain k where "n = Suc k" by (cases n) auto
  moreover have "tlb_dequeue sc s = Ret None s" using tlb_dequeue_run [OF Nil.prems(1)] Nil.hyps [symmetric] by simp
  ultimately show ?case using Nil.hyps [symmetric] by (auto simp: run_simps all_masks_def)
next
  case (Cons t q)
  obtain k where k: "n = Suc k" using Cons.prems(3) by (cases n) auto
  obtain f where f: "tlb_dequeue sc s = Ret (Some t) (set_ring sc f s)" "ring_ok (set_ring sc f s) sc"
    "tlb_reqs (set_ring sc f s) sc = q"
    using tlb_dequeue_run [OF Cons.prems(1)] Cons.hyps(2) [symmetric] by auto
  note reqs = Cons.hyps(2) [symmetric]
  have hm: "hm_ok (t_smask t)" using tlb_reqs_hm_ok [of t s sc] reqs by simp
  have fl: "tlb_flag (set_ring sc f s) = tlb_flag s" by (simp add: tlb_flag_def fun_eq_iff)
  let ?s = "fold signal (mask_list t) (add_fences h (flush_fences t) (set_ring sc f s))"
  have p: "sbi_tlb_entry_process c h t (set_ring sc f s) = Ret () ?s"
    using Cons.prems(2,4,6) hm assms(3) reqs fl by (intro entry_process_run) (auto simp: all_masks_def)
  have q: "tlb_reqs ?s sc = q" "ring_ok ?s sc"
    using f(2,3) by (simp_all add: tlb_reqs_def ring_ok_def)
  have flag: "tlb_flag ?s i = (if i \<in> hm_set (t_smask t) \<and> area_of s i \<noteq> None then Some 1 else tlb_flag s i)" for i
    using Cons.prems(2) set_mask_list [OF hm] fl by (auto simp: tlb_flag_signals)
  have "\<forall>i\<in>all_masks q. area_of s i = None \<or> tlb_flag ?s i = Some 0"
    using Cons.prems(5,6) reqs flag by (auto simp: all_masks_def)
  then obtain s' where s': "process_loop c h sc k fin ?s = Ret () s'" "tlb_reqs s' sc = []"
    "fences (harts s' h) = fences (harts ?s h) @ concat (map flush_fences q)"
    "\<forall>i. tlb_flag s' i = (if i \<in> all_masks q \<and> area_of s i \<noteq> None then Some 1 else tlb_flag ?s i)"
    using Cons.hyps(1) [of ?s k] q Cons.prems reqs k by auto
  show ?case
    using s' f p k reqs flag by (auto simp: run_simps all_masks_def)
qed

section \<open>Properties\<close>

text \<open>
  C20: a local flush does what was asked. For a request of any of the seven types, with an aligned start
  and a range inside the address space, the flush ends, changes nothing but the list of
  flush instructions executed (the VMID register is restored), and for every address of the
  range an instruction was executed that invalidates its page for the requested address space
  and virtual machine.
\<close>

theorem tlb_flush_covers_request:
  assumes "tlb_req_ok t"
  shows "\<exists>fs. sbi_tlb_local_flush c h t s = Ret () (add_fences h fs s) \<and>
    (\<forall>a. in_range t a \<longrightarrow> (\<exists>f\<in>set fs. covers f t a))"
  using local_flush_run [OF assms] flush_fences_cover [OF assms] by blast

definition demo_req :: sbi_tlb_info where
  "demo_req = \<lparr>t_start = 0x80000000, t_size = 0x2000, t_asid = 7, t_vmid = 3, t_type = SBI_TLB_FLUSH_VVMA_ASID,
     t_smask = \<lparr>bits = [1, 0]\<rparr>\<rparr>"

theorem tlb_flush_covers_request_witness:
  "\<exists>fs. sbi_tlb_local_flush bare_cfg 0 demo_req zero_sys = Ret () (add_fences 0 fs zero_sys) \<and>
    (\<exists>f\<in>set fs. covers f demo_req 0x80001abc)"
proof -
  have "tlb_req_ok demo_req" "in_range demo_req 0x80001abc"
    by (simp_all add: tlb_req_ok_def demo_req_def in_range_def)
  then show ?thesis using tlb_flush_covers_request [of demo_req bare_cfg 0 zero_sys] by blast
qed

text \<open>
  C30: making a request. When the target is another hart and its queue has room (or an entry can
  take the request), \<open>sbi_tlb_update\<close> returns with 0 for a queued and 1 for a merged request, the byte
  ring of the target holds the requests of the list-level queue in which the request is merged into the
  first entry that takes it and otherwise appended, and nothing else changes.
\<close>

theorem tlb_update_refines_queue:
  fixes t :: sbi_tlb_info and s :: "'d sys"
  assumes "remote \<noteq> h" "ring_ok s rsc" "hm_ok (t_smask t)" "0 < fuel c"
  defines "t' \<equiv> tlb_upgrade (tlb_range_flush_limit s) t"
  assumes "fst (tlb_add t' (tlb_reqs s rsc)) \<noteq> SBI_FIFO_UNCHANGED \<or> length (tlb_reqs s rsc) < 8"
  shows "\<exists>f. sbi_tlb_update c h sc rsc remote t s =
      Ret (if fst (tlb_add t' (tlb_reqs s rsc)) = SBI_FIFO_UNCHANGED then 0 else 1, t') (set_ring rsc f s) \<and>
    ring_ok (set_ring rsc f s) rsc \<and> tlb_reqs (set_ring rsc f s) rsc = snd (tlb_add t' (tlb_reqs s rsc))"
  using tlb_update_run [OF assms(1-4)] assms(6) by (simp add: t'_def)

definition empty_ring :: sbi_fifo where
  "empty_ring = \<lparr>queue = replicate 448 0, entry_size = 56, num_entries = 8, avail = 0, tail = 0\<rparr>"

definition tlb_demo :: "unit sys" where
  "tlb_demo = two_harts\<lparr>tlb_sync_off := 104, tlb_range_flush_limit := 0x10000,
     scratch := (\<lambda>_. zero_scratch\<lparr>tlb_fifo := empty_ring\<rparr>)\<rparr>"

lemma tlb_demo_ok:
  "ring_ok tlb_demo sc" "tlb_reqs tlb_demo sc = []" "scratch_wf tlb_demo" "hm_ok (t_smask demo_req)"
  using two_harts_wf
  by (simp_all add: tlb_demo_def ring_ok_def empty_ring_def fifo_inv_def tlb_reqs_def fifo_items_def demo_req_def hm_ok_def
      scratch_wf_def)

theorem tlb_update_refines_queue_witness:
  "\<exists>f. sbi_tlb_update bare_cfg 0 0 1 1 demo_req tlb_demo = Ret (0, demo_req) (set_ring 1 f tlb_demo) \<and>
    tlb_reqs (set_ring 1 f tlb_demo) 1 = [demo_req]"
proof -
  have u: "tlb_upgrade (tlb_range_flush_limit tlb_demo) demo_req = demo_req"
    by (simp add: tlb_upgrade_def tlb_demo_def demo_req_def)
  show ?thesis
    using tlb_update_refines_queue [of 1 0 tlb_demo 1 demo_req bare_cfg 0] tlb_demo_ok
    by (auto simp: u tlb_add_def bare_cfg_def)
qed

text \<open>
  Serving requests. A hart that processes its queue, whose entries have different requesters
  without an unread signal, ends with an empty queue, having executed the flushes of all entries
  in the order of the queue, and with the synchronisation word of exactly their requesters set.
\<close>

lemma tlb_process_serves_queue:
  assumes "ring_ok s sc" "scratch_wf s" "8 < fuel c" "\<forall>t\<in>set (tlb_reqs s sc). tlb_req_ok t"
    "masks_disjoint (tlb_reqs s sc)"
    "\<forall>i\<in>all_masks (tlb_reqs s sc). area_of s i = None \<or> tlb_flag s i = Some 0"
  shows "\<exists>s'. sbi_tlb_process c h sc s = Ret () s' \<and> tlb_reqs s' sc = [] \<and>
    fences (harts s' h) = fences (harts s h) @ concat (map flush_fences (tlb_reqs s sc)) \<and>
    (\<forall>i. tlb_flag s' i = (if i \<in> all_masks (tlb_reqs s sc) \<and> area_of s i \<noteq> None then Some 1 else tlb_flag s i))"
proof -
  have "length (tlb_reqs s sc) \<le> 8"
    using rb.bound [of "Some (tlb_fifo (scratch s sc))"] assms(1) by (simp add: ring_ok_def tlb_reqs_def q_defs)
  then show ?thesis
    unfolding sbi_tlb_process_def using assms by (intro process_loop_run) auto
qed

section \<open>When merging loses a flush\<close>

text \<open>
  The three forms of a request: flush everything, written as start 0 and size 0 by the caller or with the size that stands for everything by the
  firmware, and a range that does not run past the end of the address space. Such a range may end exactly there, so that the sum of its
  start and its size is 0.
\<close>

definition flush_zero :: "sbi_tlb_info \<Rightarrow> bool" where
  "flush_zero t \<longleftrightarrow> t_start t = 0 \<and> t_size t = 0"

definition flush_all :: "sbi_tlb_info \<Rightarrow> bool" where
  "flush_all t \<longleftrightarrow> t_start t = 0 \<and> t_size t = SBI_TLB_FLUSH_ALL"

definition flush_span :: "sbi_tlb_info \<Rightarrow> bool" where
  "flush_span t \<longleftrightarrow> t_size t \<noteq> 0 \<and> t_size t \<noteq> SBI_TLB_FLUSH_ALL \<and> unat (t_start t) + unat (t_size t) \<le> 2 ^ 64"

definition to_top :: "sbi_tlb_info \<Rightarrow> bool" where
  "to_top t \<longleftrightarrow> flush_span t \<and> unat (t_start t) + unat (t_size t) = 2 ^ 64"

definition mergeable :: "sbi_tlb_info \<Rightarrow> sbi_tlb_info \<Rightarrow> bool" where
  "mergeable cur nxt \<longleftrightarrow> t_type nxt = t_type cur \<and>
     (t_type cur = SBI_TLB_FLUSH_VMA \<or> t_type cur = SBI_TLB_FLUSH_VMA_ASID \<and> t_asid nxt = t_asid cur)"

text \<open>The end of a request as the code computes it, and what the request is for.\<close>

lemma form_end:
  "flush_zero t \<Longrightarrow> t_start t + t_size t = 0" "flush_all t \<Longrightarrow> t_start t + t_size t = - 1"
  "to_top t \<Longrightarrow> t_start t + t_size t = 0"
  "flush_span t \<Longrightarrow> \<not> to_top t \<Longrightarrow> unat (t_start t + t_size t) = unat (t_start t) + unat (t_size t)"
proof -
  have "unat (t_start t + t_size t) = (unat (t_start t) + unat (t_size t)) mod 2 ^ 64" by (simp add: unat_word_ariths)
  then show "to_top t \<Longrightarrow> t_start t + t_size t = 0"
    "flush_span t \<Longrightarrow> \<not> to_top t \<Longrightarrow> unat (t_start t + t_size t) = unat (t_start t) + unat (t_size t)"
    by (auto simp: to_top_def flush_span_def unat_eq_zero [symmetric])
qed (simp_all add: flush_zero_def flush_all_def)

lemma form_range:
  "flush_zero t \<Longrightarrow> in_range t a" "flush_all t \<Longrightarrow> in_range t a"
  "to_top t \<Longrightarrow> in_range t a \<longleftrightarrow> t_start t \<le> a"
  "flush_span t \<Longrightarrow> \<not> to_top t \<Longrightarrow> in_range t a \<longleftrightarrow> t_start t \<le> a \<and> a < t_start t + t_size t"
proof -
  show "flush_span t \<Longrightarrow> \<not> to_top t \<Longrightarrow> in_range t a \<longleftrightarrow> t_start t \<le> a \<and> a < t_start t + t_size t"
    using form_end(4) [of t] by (auto simp: in_range_def flush_span_def word_less_nat_alt)
  show "to_top t \<Longrightarrow> in_range t a \<longleftrightarrow> t_start t \<le> a"
    using unat64 [of a] by (auto simp: in_range_def to_top_def flush_span_def)
qed (simp_all add: in_range_def flush_zero_def flush_all_def)

text \<open>The decision of the code, and the flush that the entry which stays does not cover.\<close>

definition loses :: "sbi_tlb_info \<Rightarrow> sbi_tlb_info \<Rightarrow> bool" where
  "loses cur nxt \<longleftrightarrow>
     (let cur_end = t_start cur + t_size cur; next_end = t_start nxt + t_size nxt in
      if t_start nxt \<le> t_start cur \<and> cur_end < next_end then \<exists>a. in_range cur a \<and> \<not> in_range nxt a
      else t_start cur \<le> t_start nxt \<and> next_end \<le> cur_end \<and> (\<exists>a. in_range nxt a \<and> \<not> in_range cur a))"

lemma merge_loses:
  assumes "mergeable cur nxt" "hm_ok (t_smask cur)" "hm_ok (t_smask nxt)"
  shows "\<exists>r e. sbi_tlb_update_cb nxt cur = Some (r, e) \<and>
    (r \<noteq> SBI_FIFO_UNCHANGED \<and> (\<exists>a. (in_range cur a \<or> in_range nxt a) \<and> \<not> in_range e a) \<longleftrightarrow> loses cur nxt)"
proof -
  obtain m where m: "sbi_hartmask_or (t_smask cur) (t_smask cur) (t_smask nxt) = Some m"
    using hm_uni [OF assms(2) assms(2,3)] by auto
  have r: "in_range (cur\<lparr>t_start := t_start nxt, t_size := t_size nxt, t_smask := k\<rparr>) a = in_range nxt a"
    "in_range (cur\<lparr>t_smask := k\<rparr>) a = in_range cur a" for a k by (simp_all add: in_range_def)
  have "sbi_tlb_update_cb nxt cur = u_sbi_tlb_range_check cur nxt" using assms(1) by (auto simp: sbi_tlb_update_cb_def mergeable_def)
  then show ?thesis by (auto simp: u_sbi_tlb_range_check_def Let_def m r loses_def)
qed

lemma form_disjoint:
  "flush_zero t \<Longrightarrow> \<not> flush_span t \<and> \<not> to_top t \<and> \<not> flush_all t" "flush_all t \<Longrightarrow> \<not> flush_span t \<and> \<not> to_top t"
  "to_top t \<Longrightarrow> flush_span t" "flush_span t \<Longrightarrow> t_start t < t_start t + t_size t \<or> to_top t" "to_top t \<Longrightarrow> t_start t \<noteq> 0"
proof -
  show "flush_span t \<Longrightarrow> t_start t < t_start t + t_size t \<or> to_top t"
    using form_end(4) [of t] by (cases "to_top t") (auto simp: word_less_nat_alt flush_span_def unat_gt_0)
  show "to_top t \<Longrightarrow> t_start t \<noteq> 0" using unat64 [of "t_size t"] by (auto simp: to_top_def)
qed (auto simp: flush_zero_def flush_all_def flush_span_def to_top_def)

lemma loses_full:
  "flush_zero nxt \<Longrightarrow> loses cur nxt \<longleftrightarrow> t_start cur = 0 \<and> (\<exists>a. \<not> in_range cur a)"
  "flush_zero cur \<Longrightarrow> loses cur nxt \<longleftrightarrow> t_start nxt = 0 \<and> t_start nxt + t_size nxt \<noteq> 0 \<and> (\<exists>a. \<not> in_range nxt a)"
  "flush_all cur \<Longrightarrow> \<not> loses cur nxt" "flush_all nxt \<Longrightarrow> \<not> loses cur nxt"
proof -
  show "flush_zero nxt \<Longrightarrow> loses cur nxt \<longleftrightarrow> t_start cur = 0 \<and> (\<exists>a. \<not> in_range cur a)"
    using form_range(1) [of nxt] by (simp add: loses_def Let_def flush_zero_def)
  show "flush_zero cur \<Longrightarrow> loses cur nxt \<longleftrightarrow> t_start nxt = 0 \<and> t_start nxt + t_size nxt \<noteq> 0 \<and> (\<exists>a. \<not> in_range nxt a)"
    using form_range(1) [of cur] by (auto simp: loses_def Let_def flush_zero_def word_neq_0_conv)
  show "flush_all cur \<Longrightarrow> \<not> loses cur nxt"
    using form_range(2) [of cur] form_end(2) [of cur] by (simp add: loses_def Let_def not_less)
  assume n: "flush_all nxt"
  have "in_range cur a" if "t_start cur = 0" "- 1 \<le> t_size cur" for a
    using that by (simp add: in_range_def word_order.extremum_unique)
  then show "\<not> loses cur nxt"
    using form_range(2) [OF n] form_end(2) [OF n] n by (auto simp: loses_def Let_def flush_all_def)
qed

lemma loses_spans:
  assumes "flush_span cur" "flush_span nxt"
  shows "loses cur nxt \<longleftrightarrow>
    to_top cur \<and> \<not> to_top nxt \<and> t_start nxt \<le> t_start cur \<or> to_top nxt \<and> \<not> to_top cur \<and> t_start cur \<le> t_start nxt"
proof -
  have last: "in_range t (- 1) \<longleftrightarrow> to_top t" if "flush_span t" for t
    using that form_range(3,4) [of t "- 1"] by (cases "to_top t") simp_all
  have pos: "0 < t_start t + t_size t" if "flush_span t" "\<not> to_top t" for t
    using form_disjoint(4) [OF that(1)] that(2) by (meson le_less_trans word_zero_le)
  show ?thesis
  proof (cases "to_top cur"; cases "to_top nxt")
    assume t: "to_top cur" "to_top nxt"
    then show ?thesis using form_range(3) [of cur] form_range(3) [of nxt] by (auto simp: loses_def Let_def form_end)
  next
    assume t: "to_top cur" "\<not> to_top nxt"
    then have "\<exists>a. in_range cur a \<and> \<not> in_range nxt a" using last assms by blast
    then show ?thesis using t pos [OF assms(2)] by (auto simp: loses_def Let_def form_end)
  next
    assume t: "\<not> to_top cur" "to_top nxt"
    then have "\<exists>a. in_range nxt a \<and> \<not> in_range cur a" using last assms by blast
    then show ?thesis using t by (simp add: loses_def Let_def form_end)
  next
    assume t: "\<not> to_top cur" "\<not> to_top nxt"
    note R = form_range(4) [OF assms(1) t(1)] form_range(4) [OF assms(2) t(2)]
    show ?thesis using t unfolding loses_def Let_def R by (auto intro: order_trans less_trans less_le_trans)
  qed
qed

text \<open>
  C39: exactly when merging a request into a queued one of the same kind loses a flush. Of requests that flush everything or a range, the queue entry that stays
  fails to cover one of the two in four cases and in no other: a request to flush everything, written as start 0 and size 0, is dropped for a
  queued range that starts at 0; in the other order the queued full flush is narrowed to the range; a queued range that ends at the top of the address space
  is replaced by any range that starts no later and ends below it; and a new range up to the top is dropped for any queued
  range that starts no later and ends below it.
\<close>

theorem tlb_merge_loses_exactly:
  assumes "mergeable cur nxt" "hm_ok (t_smask cur)" "hm_ok (t_smask nxt)"
    "flush_zero cur \<or> flush_all cur \<or> flush_span cur" "flush_zero nxt \<or> flush_all nxt \<or> flush_span nxt"
  shows "\<exists>r e. sbi_tlb_update_cb nxt cur = Some (r, e) \<and>
    (r \<noteq> SBI_FIFO_UNCHANGED \<and> (\<exists>a. (in_range cur a \<or> in_range nxt a) \<and> \<not> in_range e a) \<longleftrightarrow>
      flush_zero nxt \<and> flush_span cur \<and> t_start cur = 0 \<or>
      flush_zero cur \<and> flush_span nxt \<and> t_start nxt = 0 \<or>
      to_top cur \<and> flush_span nxt \<and> \<not> to_top nxt \<and> t_start nxt \<le> t_start cur \<or>
      to_top nxt \<and> flush_span cur \<and> \<not> to_top cur \<and> t_start cur \<le> t_start nxt)"
    (is "\<exists>r e. _ \<and> (?lost r e \<longleftrightarrow> ?bad)")
proof -
  have full: "\<exists>a. \<not> in_range t a" "t_start t + t_size t \<noteq> 0" if "flush_span t" "t_start t = 0" for t
  proof -
    have n: "\<not> to_top t" using form_disjoint(5) [of t] that(2) by blast
    then show "\<exists>a. \<not> in_range t a" using that by (intro exI [of _ "t_start t + t_size t"]) (simp add: form_range(4))
    show "t_start t + t_size t \<noteq> 0" using that by (simp add: flush_span_def)
  qed
  note D = form_disjoint(1-3) [of cur] form_disjoint(1-3) [of nxt] form_range(1,2) [of cur] form_range(1,2) [of nxt]
  have "loses cur nxt \<longleftrightarrow> ?bad"
  proof (cases "flush_span cur \<and> flush_span nxt")
    case True
    then show ?thesis using loses_spans [of cur nxt] D(1,4) by blast
  next
    case False
    then consider (a) "flush_all cur \<or> flush_all nxt" | (z) "flush_zero nxt" | (c) "flush_zero cur" using assms(4,5) by blast
    then show ?thesis
    proof cases
      case a
      then show ?thesis using loses_full(3,4) [of cur nxt] loses_full(3,4) [of nxt cur] D by blast
    next
      case z
      then show ?thesis using loses_full(1) [OF z, of cur] full [of cur] assms(4) D by blast
    next
      case c
      then show ?thesis using loses_full(2) [OF c, of nxt] full [of nxt] assms(5) D by blast
    qed
  qed
  then show ?thesis using merge_loses [OF assms(1-3)] by simp
qed

theorem tlb_merge_loses_exactly_witness:
  "\<exists>r e. sbi_tlb_update_cb (demo_req\<lparr>t_type := 0, t_start := 0xFFFFFFFFFFFFF000, t_size := 0x1000\<rparr>)
      (demo_req\<lparr>t_type := 0, t_start := 0x4000, t_size := 0x2000\<rparr>) = Some (r, e) \<and> r \<noteq> SBI_FIFO_UNCHANGED \<and>
    (\<exists>a. a \<in> {0x4000..<0x6000} \<union> {0xFFFFFFFFFFFFF000..} \<and> \<not> in_range e a)"
proof -
  let ?nxt = "demo_req\<lparr>t_type := 0, t_start := 0xFFFFFFFFFFFFF000, t_size := 0x1000\<rparr>"
  let ?cur = "demo_req\<lparr>t_type := 0, t_start := 0x4000, t_size := 0x2000\<rparr>"
  have f: "mergeable ?cur ?nxt" "hm_ok (t_smask ?cur)" "hm_ok (t_smask ?nxt)" "to_top ?nxt" "flush_span ?cur" "\<not> to_top ?cur" "flush_span ?nxt"
    by (simp_all add: mergeable_def demo_req_def hm_ok_def to_top_def flush_span_def)
  have "in_range ?cur a \<or> in_range ?nxt a \<longleftrightarrow> a \<in> {0x4000..<0x6000} \<union> {0xFFFFFFFFFFFFF000..}" for a
    using form_range(4) [OF f(5,6)] form_range(3) [OF f(4)] by simp
  then show ?thesis using tlb_merge_loses_exactly [OF f(1-3)] f(4-7) by simp
qed

end
