(* ===== verification/Sbi_Tlb_Protocol.thy ===== *)
theory Sbi_Tlb_Protocol
  imports Sbi_Tlb
begin

text \<open>
  The protocol between the harts that request TLB flushes of one target hart and the target:
  requests (\<open>sbi_tlb_update\<close>), rounds of the loop of \<open>sbi_tlb_process\<close> and the exchanges of
  \<open>sbi_tlb_sync\<close>, in any order.

  The executions \<open>tlb_exec\<close> are runs of the modelled functions on the state of the machine. They are
  shown to be runs of the step relation \<open>tlb_step\<close> on lists of requests and sets of harts, and
  that relation has the invariant \<open>tlb_pinv\<close>.
\<close>

section \<open>The protocol\<close>

text \<open>
  One target hart and any number of requesters. \<open>p_queue\<close> is the request queue of the target,
  \<open>p_wait\<close> the request each hart is waiting for with the number of flushes done when it was made,
  \<open>p_flags\<close> the harts whose synchronisation word is set, \<open>p_done\<close> the entries flushed so far.
  The steps are those of \<open>sbi_tlb_update\<close> (see \<open>tlb_update_run\<close>), of one round of
  \<open>sbi_tlb_process\<close> (\<open>entry_process_run\<close>) and of the exchange that ends \<open>sbi_tlb_sync\<close>.
\<close>

record tlb_protocol =
  p_queue :: "sbi_tlb_info list"
  p_wait :: "nat \<rightharpoonup> sbi_tlb_info \<times> nat"
  p_flags :: "nat set"
  p_done :: "sbi_tlb_info list"

inductive tlb_step :: "tlb_protocol \<Rightarrow> tlb_protocol \<Rightarrow> bool" where
  request: "tlb_step p (p\<lparr>p_queue := snd (tlb_add t (p_queue p)),
      p_wait := (p_wait p)(src \<mapsto> (t, length (p_done p)))\<rparr>)"
  if "p_wait p src = None" "tlb_wf t" "hm_set (t_smask t) = {src}"
| process: "tlb_step p (p\<lparr>p_queue := q, p_flags := p_flags p \<union> hm_set (t_smask e), p_done := p_done p @ [e]\<rparr>)"
  if "p_queue p = e # q"
| sync: "tlb_step p (p\<lparr>p_flags := p_flags p - {src}, p_wait := (p_wait p)(src := None)\<rparr>)"
  if "src \<in> p_flags p"

inductive tlb_reach :: "tlb_protocol \<Rightarrow> bool" where
  start: "tlb_reach \<lparr>p_queue = [], p_wait = Map.empty, p_flags = {}, p_done = []\<rparr>"
| step: "tlb_reach p'" if "tlb_reach p" "tlb_step p p'"

definition flushed_since :: "nat \<Rightarrow> sbi_tlb_info \<Rightarrow> sbi_tlb_info list \<Rightarrow> bool" where
  "flushed_since n t done \<longleftrightarrow> (\<exists>e\<in>set (drop n done). serves e t)"

definition tlb_pinv :: "tlb_protocol \<Rightarrow> bool" where
  "tlb_pinv p \<longleftrightarrow> (\<forall>e\<in>set (p_queue p). tlb_wf e) \<and>
     (\<forall>src t n. p_wait p src = Some (t, n) \<longrightarrow> n \<le> length (p_done p) \<and>
        (src \<in> p_flags p \<or> (\<exists>e\<in>set (p_queue p). src \<in> hm_set (t_smask e)))) \<and>
     (\<forall>e\<in>set (p_queue p). \<forall>src\<in>hm_set (t_smask e). src \<notin> p_flags p \<and>
        (\<exists>t n. p_wait p src = Some (t, n) \<and> serves e t)) \<and>
     (\<forall>src\<in>p_flags p. \<exists>t n. p_wait p src = Some (t, n) \<and> flushed_since n t (p_done p)) \<and>
     masks_disjoint (p_queue p)"

lemma flushed_since_snoc: "n \<le> length d \<Longrightarrow> flushed_since n t (d @ [e]) \<longleftrightarrow> flushed_since n t d \<or> serves e t"
  by (auto simp: flushed_since_def)

lemma tlb_pinvD:
  assumes "tlb_pinv p"
  shows "e \<in> set (p_queue p) \<Longrightarrow> tlb_wf e"
    "p_wait p src = Some (t, n) \<Longrightarrow> n \<le> length (p_done p)"
    "p_wait p src = Some (t, n) \<Longrightarrow> src \<in> p_flags p \<or> (\<exists>e\<in>set (p_queue p). src \<in> hm_set (t_smask e))"
    "e \<in> set (p_queue p) \<Longrightarrow> src \<in> hm_set (t_smask e) \<Longrightarrow> src \<notin> p_flags p"
    "e \<in> set (p_queue p) \<Longrightarrow> src \<in> hm_set (t_smask e) \<Longrightarrow> \<exists>t n. p_wait p src = Some (t, n) \<and> serves e t"
    "src \<in> p_flags p \<Longrightarrow> \<exists>t n. p_wait p src = Some (t, n) \<and> flushed_since n t (p_done p)"
    "masks_disjoint (p_queue p)"
  using assms unfolding tlb_pinv_def by blast+

lemma tlb_pinvI:
  assumes "\<And>e. e \<in> set (p_queue p) \<Longrightarrow> tlb_wf e"
    "\<And>src t n. p_wait p src = Some (t, n) \<Longrightarrow> n \<le> length (p_done p)"
    "\<And>src t n. p_wait p src = Some (t, n) \<Longrightarrow> src \<in> p_flags p \<or> (\<exists>e\<in>set (p_queue p). src \<in> hm_set (t_smask e))"
    "\<And>e src. e \<in> set (p_queue p) \<Longrightarrow> src \<in> hm_set (t_smask e) \<Longrightarrow>
       src \<notin> p_flags p \<and> (\<exists>t n. p_wait p src = Some (t, n) \<and> serves e t)"
    "\<And>src. src \<in> p_flags p \<Longrightarrow> \<exists>t n. p_wait p src = Some (t, n) \<and> flushed_since n t (p_done p)"
    "masks_disjoint (p_queue p)"
  shows "tlb_pinv p"
  unfolding tlb_pinv_def using assms by blast

lemma tlb_pinv_request:
  assumes "tlb_pinv p" "p_wait p src = None" "tlb_wf t" "hm_set (t_smask t) = {src}"
  shows "tlb_pinv (p\<lparr>p_queue := snd (tlb_add t (p_queue p)), p_wait := (p_wait p)(src \<mapsto> (t, length (p_done p)))\<rparr>)"
proof -
  note inv = tlb_pinvD [OF assms(1)]
  have nf: "src \<notin> p_flags p" using inv(6) assms(2) by fastforce
  have nq: "src \<notin> hm_set (t_smask e)" if "e \<in> set (p_queue p)" for e using inv(5) [OF that] assms(2) by fastforce
  have wf: "\<forall>e\<in>set (p_queue p). tlb_wf e" using inv(1) by blast
  note add = tlb_add_cases [OF wf assms(3)]
  have old: "\<exists>e'\<in>set (snd (tlb_add t (p_queue p))). hm_set (t_smask e) \<subseteq> hm_set (t_smask e')"
    if "e \<in> set (p_queue p)" for e
    using bspec [OF add [THEN conjunct2, THEN conjunct1] that] by blast
  have new: "\<exists>e'\<in>set (snd (tlb_add t (p_queue p))). hm_set (t_smask t) \<subseteq> hm_set (t_smask e')"
    using add [THEN conjunct2, THEN conjunct2, THEN conjunct1] by blast
  have "hm_set (t_smask t) \<inter> all_masks (p_queue p) = {}" using nq assms(4) by (auto simp: all_masks_def)
  note masks = tlb_add_masks [OF wf assms(3) this inv(7)]
  have waits: "src' \<in> p_flags p \<or> (\<exists>e\<in>set (snd (tlb_add t (p_queue p))). src' \<in> hm_set (t_smask e))"
    if "((p_wait p)(src \<mapsto> (t, length (p_done p)))) src' = Some (t', n)" for src' t' n
  proof (cases "src' = src")
    case True
    then show ?thesis using new assms(4) by blast
  next
    case False
    then have "src' \<in> p_flags p \<or> (\<exists>e\<in>set (p_queue p). src' \<in> hm_set (t_smask e))"
      using inv(3) [of src' t' n] that by simp
    then show ?thesis using old by blast
  qed
  have owner: "src' \<notin> p_flags p \<and> (\<exists>t' n. ((p_wait p)(src \<mapsto> (t, length (p_done p)))) src' = Some (t', n) \<and> serves e' t')"
    if "e' \<in> set (snd (tlb_add t (p_queue p)))" "src' \<in> hm_set (t_smask e')" for e' src'
  proof -
    have origin: "e' \<in> set (p_queue p) \<or> e' = t \<or> (\<exists>e\<in>set (p_queue p).
        hm_set (t_smask e') = hm_set (t_smask e) \<union> hm_set (t_smask t) \<and> serves e' e \<and> serves e' t)"
      using bspec [OF add [THEN conjunct2, THEN conjunct2, THEN conjunct2] that(1)] by blast
    show ?thesis
    proof (cases "src' = src")
      case True
      have "serves e' t" using origin nq [of e'] that(2) True serves_refl [of t] by blast
      then show ?thesis using nf True by simp
    next
      case False
      have "\<exists>e\<in>set (p_queue p). src' \<in> hm_set (t_smask e) \<and> serves e' e"
        using origin that(2) False assms(4) serves_refl [of e'] by blast
      then obtain e where e: "e \<in> set (p_queue p)" "src' \<in> hm_set (t_smask e)" "serves e' e" by blast
      obtain t' n where "p_wait p src' = Some (t', n)" "serves e t'" using inv(5) [OF e(1,2)] by blast
      then show ?thesis using inv(4) [OF e(1,2)] serves_trans [OF e(3)] False by simp
    qed
  qed
  have bound: "n \<le> length (p_done p)"
    if "((p_wait p)(src \<mapsto> (t, length (p_done p)))) src' = Some (t', n)" for src' t' n
    using that inv(2) [of src' t' n] by (simp split: if_splits)
  have sig: "\<exists>t' n. ((p_wait p)(src \<mapsto> (t, length (p_done p)))) src' = Some (t', n) \<and> flushed_since n t' (p_done p)"
    if "src' \<in> p_flags p" for src'
    using inv(6) [OF that] that nf by auto
  show ?thesis
    by (rule tlb_pinvI) (use add [THEN conjunct1] waits owner bound sig masks in simp_all)
qed

lemma tlb_pinv_process:
  assumes "tlb_pinv p" "p_queue p = e # q"
  shows "tlb_pinv (p\<lparr>p_queue := q, p_flags := p_flags p \<union> hm_set (t_smask e), p_done := p_done p @ [e]\<rparr>)"
proof -
  note inv = tlb_pinvD [OF assms(1)]
  have dj: "src \<notin> hm_set (t_smask e)" if "e' \<in> set q" "src \<in> hm_set (t_smask e')" for e' src
    using inv(7) that by (auto simp: assms(2) all_masks_def)
  have fl: "\<exists>t n. p_wait p src = Some (t, n) \<and> flushed_since n t (p_done p @ [e])"
    if "src \<in> p_flags p \<union> hm_set (t_smask e)" for src
  proof -
    have "\<exists>t n. p_wait p src = Some (t, n) \<and> (flushed_since n t (p_done p) \<or> serves e t)"
      using that inv(5) [of e src] inv(6) [of src] assms(2) by auto
    then show ?thesis using inv(2) [of src] by (auto simp: flushed_since_snoc)
  qed
  have wt: "src \<in> p_flags p \<union> hm_set (t_smask e) \<or> (\<exists>e\<in>set q. src \<in> hm_set (t_smask e))"
    if "p_wait p src = Some (t, n)" for src t n
    using inv(3) [OF that] assms(2) by auto
  have ow: "src \<notin> p_flags p \<union> hm_set (t_smask e) \<and> (\<exists>t n. p_wait p src = Some (t, n) \<and> serves e' t)"
    if "e' \<in> set q" "src \<in> hm_set (t_smask e')" for e' src
    using that inv(4,5) [of e' src] dj [OF that] assms(2) by auto
  have bd: "n \<le> Suc (length (p_done p))" if "p_wait p src = Some (t, n)" for src t n
    using inv(2) [OF that] by simp
  have "\<And>e'. e' \<in> set q \<Longrightarrow> tlb_wf e'" "masks_disjoint q" using inv(1,7) assms(2) by auto
  then show ?thesis
    by (intro tlb_pinvI) (use fl wt ow bd in simp_all)
qed

lemma tlb_pinv_sync:
  assumes "tlb_pinv p" "src \<in> p_flags p"
  shows "tlb_pinv (p\<lparr>p_flags := p_flags p - {src}, p_wait := (p_wait p)(src := None)\<rparr>)"
proof -
  note inv = tlb_pinvD [OF assms(1)]
  have ne: "src' \<noteq> src" if "e \<in> set (p_queue p)" "src' \<in> hm_set (t_smask e)" for e src'
    using inv(4) [OF that] assms(2) by auto
  show ?thesis
  proof (rule tlb_pinvI)
    fix src' t n
    assume "p_wait (p\<lparr>p_flags := p_flags p - {src}, p_wait := (p_wait p)(src := None)\<rparr>) src' = Some (t, n)"
    then have w: "src' \<noteq> src" "p_wait p src' = Some (t, n)" by (simp_all split: if_splits)
    then show "n \<le> length (p_done (p\<lparr>p_flags := p_flags p - {src}, p_wait := (p_wait p)(src := None)\<rparr>))"
      using inv(2) by simp
    show "src' \<in> p_flags (p\<lparr>p_flags := p_flags p - {src}, p_wait := (p_wait p)(src := None)\<rparr>) \<or>
      (\<exists>e\<in>set (p_queue (p\<lparr>p_flags := p_flags p - {src}, p_wait := (p_wait p)(src := None)\<rparr>)).
        src' \<in> hm_set (t_smask e))"
      using inv(3) [OF w(2)] w(1) by simp
  qed (use inv(1,4-7) ne in auto)
qed

lemma tlb_reach_inv: "tlb_reach p \<Longrightarrow> tlb_pinv p"
proof (induction rule: tlb_reach.induct)
  case start
  show ?case by (simp add: tlb_pinv_def)
next
  case (step p p')
  from step.hyps(2) show ?case
  proof cases
    case (request src t)
    then show ?thesis using tlb_pinv_request [OF step.IH] by simp
  next
    case (process e q)
    then show ?thesis using tlb_pinv_process [OF step.IH] by simp
  next
    case (sync src)
    then show ?thesis using tlb_pinv_sync [OF step.IH] by simp
  qed
qed

section \<open>Executions of the code\<close>

text \<open>
  Runs of the modelled functions for the target hart \<open>tgt\<close> with scratch area \<open>tsc\<close>. \<open>w\<close> records the
  request each hart waits for, with the number of entries the target had processed
  when it was made, and \<open>d\<close> the entries processed. A requester is not the target, names
  itself in the source mask (as \<open>SBI_TLB_INFO_INIT\<close> does) and waits for one answer at a time; a request finds
  an entry to merge with or room in the queue.
\<close>

inductive tlb_exec :: "'d cfg \<Rightarrow> nat \<Rightarrow> nat \<Rightarrow> 'd sys \<Rightarrow> (nat \<rightharpoonup> sbi_tlb_info \<times> nat) \<Rightarrow> sbi_tlb_info list \<Rightarrow> bool"
  for c :: "'d cfg" and tgt tsc :: nat where
  start: "tlb_exec c tgt tsc s Map.empty []"
  if "ring_ok s tsc" "scratch_wf s" "tlb_reqs s tsc = []" "\<forall>i. area_of s i = None \<or> tlb_flag s i = Some 0"
    "fences (harts s tgt) = []"
| request: "tlb_exec c tgt tsc s' (w(src \<mapsto> (t', length d))) d"
  if "tlb_exec c tgt tsc s w d" "w src = None" "src \<noteq> tgt" "area_of s src = Some sc"
    "hm_ok (t_smask t)" "hm_set (t_smask t) = {src}"
    "tlb_wf (tlb_upgrade (tlb_range_flush_limit s) t)" "tlb_req_ok (tlb_upgrade (tlb_range_flush_limit s) t)"
    "fst (tlb_add (tlb_upgrade (tlb_range_flush_limit s) t) (tlb_reqs s tsc)) \<noteq> SBI_FIFO_UNCHANGED \<or>
       length (tlb_reqs s tsc) < 8"
    "sbi_tlb_update c src sc tsc tgt t s = Ret (r, t') s'"
| process: "tlb_exec c tgt tsc s'' w (d @ [e])"
  if "tlb_exec c tgt tsc s w d" "tlb_dequeue tsc s = Ret (Some e) s'"
    "sbi_tlb_entry_process c tgt e s' = Ret () s''"
| poll: "tlb_exec c tgt tsc s' (if v = 0 then w else w(src := None)) d"
  if "tlb_exec c tgt tsc s w d" "area_of s src = Some sc"
    "atomic_raw_xchg_ulong sc (tlb_sync_off s) 0 s = Ret v s'"

text \<open>The state of the protocol that the state of the machine represents.\<close>

definition tlb_abs :: "nat \<Rightarrow> 'd sys \<Rightarrow> (nat \<rightharpoonup> sbi_tlb_info \<times> nat) \<Rightarrow> sbi_tlb_info list \<Rightarrow> tlb_protocol" where
  "tlb_abs tsc s w d =
     \<lparr>p_queue = tlb_reqs s tsc, p_wait = w, p_flags = {i. tlb_flag s i = Some 1}, p_done = d\<rparr>"

definition tlb_conc :: "nat \<Rightarrow> nat \<Rightarrow> 'd sys \<Rightarrow> (nat \<rightharpoonup> sbi_tlb_info \<times> nat) \<Rightarrow> sbi_tlb_info list \<Rightarrow> bool" where
  "tlb_conc tgt tsc s w d \<longleftrightarrow> ring_ok s tsc \<and> scratch_wf s \<and>
     (\<forall>i. area_of s i = None \<or> tlb_flag s i = Some 0 \<or> tlb_flag s i = Some 1) \<and>
     (\<forall>i\<in>dom w. area_of s i \<noteq> None) \<and> (\<forall>e\<in>set (tlb_reqs s tsc). tlb_req_ok e) \<and>
     fences (harts s tgt) = concat (map flush_fences d)"

lemma update_cb_req_ok:
  "sbi_tlb_update_cb t x = Some (r, x') \<Longrightarrow> tlb_req_ok x \<Longrightarrow> tlb_req_ok t \<Longrightarrow> tlb_req_ok x'"
  by (auto simp: sbi_tlb_update_cb_def u_sbi_tlb_range_check_def Let_def tlb_req_ok_def
      split: if_splits Option.bind_splits)

lemma upd_first_req_ok:
  assumes "upd_first (sbi_tlb_update_cb t) q = Some (r, q')" "\<forall>x\<in>set q. tlb_req_ok x" "tlb_req_ok t"
  shows "\<forall>x\<in>set q'. tlb_req_ok x"
  using assms(1,2)
proof (induction q arbitrary: r q')
  case (Cons x q)
  then show ?case
    using update_cb_req_ok [OF _ _ assms(3)]
    by (auto split: Option.bind_splits if_splits)
qed simp

lemma tlb_add_req_ok:
  assumes "\<forall>x\<in>set q. tlb_req_ok x" "tlb_req_ok t"
  shows "\<forall>x\<in>set (snd (tlb_add t q)). tlb_req_ok x"
  using assms upd_first_req_ok [OF _ assms]
  by (auto simp: tlb_add_def split: option.splits)

lemma conc_request:
  assumes "tlb_conc tgt tsc s w d" "area_of s src = Some sc" "src \<noteq> tgt" "hm_ok (t_smask t)" "0 < fuel c"
    "tlb_req_ok (tlb_upgrade (tlb_range_flush_limit s) t)"
    "fst (tlb_add (tlb_upgrade (tlb_range_flush_limit s) t) (tlb_reqs s tsc)) \<noteq> SBI_FIFO_UNCHANGED \<or>
       length (tlb_reqs s tsc) < 8"
    "sbi_tlb_update c src sc tsc tgt t s = Ret (r, t') s'"
  shows "t' = tlb_upgrade (tlb_range_flush_limit s) t \<and> tlb_conc tgt tsc s' (w(src \<mapsto> (t', length d))) d \<and>
    tlb_abs tsc s' (w(src \<mapsto> (t', length d))) d =
      (tlb_abs tsc s w d)\<lparr>p_queue := snd (tlb_add t' (tlb_reqs s tsc)), p_wait := w(src \<mapsto> (t', length d))\<rparr>"
proof -
  have ring: "ring_ok s tsc" using assms(1) by (simp add: tlb_conc_def)
  obtain f where f: "s' = set_ring tsc f s" "t' = tlb_upgrade (tlb_range_flush_limit s) t"
    "ring_ok (set_ring tsc f s) tsc" "tlb_reqs (set_ring tsc f s) tsc = snd (tlb_add t' (tlb_reqs s tsc))"
    using tlb_update_run [OF assms(3) [symmetric] ring assms(4,5,7), of sc] assms(8) by auto
  have fl: "tlb_flag (set_ring tsc f s) = tlb_flag s" by (simp add: tlb_flag_def fun_eq_iff)
  have "\<forall>e\<in>set (snd (tlb_add t' (tlb_reqs s tsc))). tlb_req_ok e"
    using assms(1,6) f(2) by (intro tlb_add_req_ok) (simp_all add: tlb_conc_def)
  then show ?thesis
    using assms(1,2) f fl by (auto simp: tlb_conc_def tlb_abs_def)
qed

lemma conc_process:
  assumes "tlb_conc tgt tsc s w d" "tlb_pinv (tlb_abs tsc s w d)" "tlb_reqs s tsc = e # q" "0 < fuel c"
  shows "\<exists>s' s''. tlb_dequeue tsc s = Ret (Some e) s' \<and> sbi_tlb_entry_process c tgt e s' = Ret () s'' \<and>
    tlb_conc tgt tsc s'' w (d @ [e]) \<and>
    tlb_abs tsc s'' w (d @ [e]) = (tlb_abs tsc s w d)\<lparr>p_queue := q,
      p_flags := p_flags (tlb_abs tsc s w d) \<union> hm_set (t_smask e), p_done := d @ [e]\<rparr>"
proof -
  note inv = tlb_pinvD [OF assms(2)]
  have ring: "ring_ok s tsc" "scratch_wf s" "tlb_req_ok e"
    and flags: "\<And>i. area_of s i = None \<or> tlb_flag s i = Some 0 \<or> tlb_flag s i = Some 1"
    and areas: "\<And>i. i \<in> dom w \<Longrightarrow> area_of s i \<noteq> None"
    using assms(1,3) by (auto simp: tlb_conc_def)
  obtain f where f: "tlb_dequeue tsc s = Ret (Some e) (set_ring tsc f s)" "ring_ok (set_ring tsc f s) tsc"
    "tlb_reqs (set_ring tsc f s) tsc = q"
    using tlb_dequeue_run [OF ring(1)] assms(3) by auto
  have hm: "hm_ok (t_smask e)" using tlb_reqs_hm_ok [of e s tsc] assms(3) by simp
  have fl: "tlb_flag (set_ring tsc f s) = tlb_flag s" by (simp add: tlb_flag_def fun_eq_iff)
  have wait: "area_of s i \<noteq> None" "tlb_flag s i \<noteq> Some 1" if "i \<in> hm_set (t_smask e)" for i
    using inv(4,5) [of e i] that assms(3) areas [of i] by (auto simp: tlb_abs_def)
  let ?s = "fold signal (mask_list e) (add_fences tgt (flush_fences e) (set_ring tsc f s))"
  have run: "sbi_tlb_entry_process c tgt e (set_ring tsc f s) = Ret () ?s"
    using ring hm assms(4) fl wait flags by (intro entry_process_run) auto
  have flag: "tlb_flag ?s i = (if i \<in> hm_set (t_smask e) then Some 1 else tlb_flag s i)" for i
    using ring(2) set_mask_list [OF hm] fl wait by (auto simp: tlb_flag_signals)
  have "tlb_reqs ?s tsc = q" "ring_ok ?s tsc" using f(2,3) by (simp_all add: tlb_reqs_def ring_ok_def)
  moreover have "fences (harts ?s tgt) = fences (harts s tgt) @ flush_fences e"
    by (simp add: add_fences_def upd_hart_def)
  ultimately have "tlb_conc tgt tsc ?s w (d @ [e])"
    using assms(1,3) flags flag by (auto simp: tlb_conc_def)
  moreover have "tlb_abs tsc ?s w (d @ [e]) = (tlb_abs tsc s w d)\<lparr>p_queue := q,
      p_flags := p_flags (tlb_abs tsc s w d) \<union> hm_set (t_smask e), p_done := d @ [e]\<rparr>"
    using flag \<open>tlb_reqs ?s tsc = q\<close> by (auto simp: tlb_abs_def)
  ultimately show ?thesis using f(1) run by blast
qed

lemma conc_poll:
  assumes "tlb_conc tgt tsc s w d" "area_of s src = Some sc"
    "atomic_raw_xchg_ulong sc (tlb_sync_off s) 0 s = Ret v s'"
  shows "tlb_conc tgt tsc s' (if v = 0 then w else w(src := None)) d \<and>
    tlb_abs tsc s' (if v = 0 then w else w(src := None)) d =
      (if v = 0 then tlb_abs tsc s w d
       else (tlb_abs tsc s w d)\<lparr>p_flags := p_flags (tlb_abs tsc s w d) - {src}, p_wait := w(src := None)\<rparr>) \<and>
    (v = 0 \<or> src \<in> p_flags (tlb_abs tsc s w d))"
proof -
  have wf: "scratch_wf s" using assms(1) by (simp add: tlb_conc_def)
  have v: "Some v = tlb_flag s src" and s': "s' = scratch_wr sc (tlb_sync_off s) 0 s"
    using assms(2,3) by (simp_all add: run_simps tlb_flag_def)
  have areas: "area_of s' = area_of s" "tlb_fifo (scratch s' x) = tlb_fifo (scratch s x)" "harts s' = harts s" for x
    by (simp_all add: s' scratch_wr_def area_of_def fun_eq_iff upd_scratch_def)
  have flag: "tlb_flag s' i = (if i = src then Some 0 else tlb_flag s i)" for i
    using assms(2) area_inj [OF wf assms(2), of i] areas(1)
    by (cases "area_of s i") (auto simp: tlb_flag_def s' scratch_rd_wr)
  have v01: "v = 0 \<or> v = 1" using assms(1,2) v by (auto simp: tlb_conc_def dest: spec [of _ src])
  have "tlb_conc tgt tsc s' (if v = 0 then w else w(src := None)) d"
    using assms(1) flag areas s' by (auto simp: tlb_conc_def ring_ok_def tlb_reqs_def)
  then show ?thesis
    using flag v v01 areas by (auto simp: tlb_abs_def tlb_reqs_def)
qed

text \<open>Every execution of the code is one of the protocol.\<close>

lemma exec_simulates:
  assumes "tlb_exec c tgt tsc s w d" "0 < fuel c"
  shows "tlb_conc tgt tsc s w d \<and> tlb_reach (tlb_abs tsc s w d)"
  using assms(1)
proof (induction rule: tlb_exec.induct)
  case (start s)
  have "tlb_flag s i \<noteq> Some 1" for i using start(4) [THEN spec, of i] by (auto simp: tlb_flag_def)
  then have "tlb_abs tsc s Map.empty [] = \<lparr>p_queue = [], p_wait = Map.empty, p_flags = {}, p_done = []\<rparr>"
    using start(3) by (simp add: tlb_abs_def)
  moreover have "\<forall>i. area_of s i = None \<or> tlb_flag s i = Some 0 \<or> tlb_flag s i = Some 1" using start(4) by blast
  then have "tlb_conc tgt tsc s Map.empty []" using start(1-3,5) by (simp add: tlb_conc_def)
  ultimately show ?case by (simp add: tlb_reach.start)
next
  case (request s w d src sc t r t' s')
  note r = conc_request [OF conjunct1 [OF request.IH] request.hyps(4,3,5) assms(2) request.hyps(8,9,10)]
  have u: "t_smask (tlb_upgrade l t) = t_smask t" for l by (simp add: tlb_upgrade_def)
  have "tlb_step (tlb_abs tsc s w d) (tlb_abs tsc s' (w(src \<mapsto> (t', length d))) d)"
    using r request.hyps(2,6,7) u tlb_step.request [of "tlb_abs tsc s w d" src t'] by (simp add: tlb_abs_def)
  then show ?case using r request.IH by (blast intro: tlb_reach.step)
next
  case (process s w d e s' s'')
  have q: "tlb_reqs s tsc \<noteq> []"
    using process.hyps(2) process.IH tlb_dequeue_run [of s tsc] by (auto simp: tlb_conc_def)
  then obtain e' q where q: "tlb_reqs s tsc = e' # q" by (cases "tlb_reqs s tsc") auto
  note p = conc_process [OF _ _ q assms(2)]
  have inv: "tlb_pinv (tlb_abs tsc s w d)" using process.IH tlb_reach_inv by blast
  from p [OF conjunct1 [OF process.IH] inv] have c: "e' = e" "tlb_conc tgt tsc s'' w (d @ [e])"
    "tlb_abs tsc s'' w (d @ [e]) = (tlb_abs tsc s w d)\<lparr>p_queue := q,
      p_flags := p_flags (tlb_abs tsc s w d) \<union> hm_set (t_smask e), p_done := d @ [e]\<rparr>"
    using process.hyps by auto
  have "tlb_step (tlb_abs tsc s w d) (tlb_abs tsc s'' w (d @ [e]))"
    using c q tlb_step.process [of "tlb_abs tsc s w d" e q] by (simp add: tlb_abs_def)
  then show ?case using c process.IH by (blast intro: tlb_reach.step)
next
  case (poll s w d src sc v s')
  note p = conc_poll [OF conjunct1 [OF poll.IH] poll.hyps(2,3)]
  show ?case
  proof (cases "v = 0")
    case True
    then show ?thesis using p poll.IH by simp
  next
    case False
    then have "tlb_step (tlb_abs tsc s w d) (tlb_abs tsc s' (w(src := None)) d)"
      using p tlb_step.sync [of src "tlb_abs tsc s w d"] by (simp add: tlb_abs_def)
    then have "tlb_reach (tlb_abs tsc s' (w(src := None)) d)" using poll.IH by (blast intro: tlb_reach.step)
    then show ?thesis using p False by (simp only: if_False simp_thms)
  qed
qed

section \<open>Properties\<close>


lemma demo_exec:
  "\<exists>s. tlb_exec bare_cfg 1 1 s [0 \<mapsto> (demo_req, 0)] [] \<and> tlb_reqs s 1 = [demo_req]"
proof -
  have a: "area_of tlb_demo 0 = Some 0" using two_harts_table(2) [of 0] by (simp add: area_of_def tlb_demo_def)
  have m: "hm_set (t_smask demo_req) = {0}"
    by (auto simp: demo_req_def hm_set_def bset_def nth_Cons' bit_1_iff)
  have u: "tlb_upgrade (tlb_range_flush_limit tlb_demo) demo_req = demo_req"
    by (simp add: tlb_upgrade_def tlb_demo_def demo_req_def)
  have z: "area_of tlb_demo i = None \<or> tlb_flag tlb_demo i = Some 0" for i
    by (cases "area_of tlb_demo i") (simp_all add: tlb_flag_def, simp add: tlb_demo_def scratch_rd_def zero_scratch_def)
  have f: "fences (harts tlb_demo 1) = []"
    by (simp add: tlb_demo_def two_harts_def zero_sys_def zero_hart_def)
  have "tlb_exec bare_cfg 1 1 tlb_demo Map.empty []"
    using tlb_demo_ok z f by (intro tlb_exec.start) auto
  moreover obtain f where "sbi_tlb_update bare_cfg 0 0 1 1 demo_req tlb_demo = Ret (0, demo_req) (set_ring 1 f tlb_demo)"
    "tlb_reqs (set_ring 1 f tlb_demo) 1 = [demo_req]"
    using tlb_update_run [of 1 0 tlb_demo 1 demo_req bare_cfg 0] tlb_demo_ok
    by (auto simp: u tlb_add_def bare_cfg_def)
  moreover have "tlb_wf demo_req" "tlb_req_ok demo_req"
    by (simp_all add: tlb_wf_def tlb_req_ok_def demo_req_def hm_ok_def)
  ultimately have "tlb_exec bare_cfg 1 1 (set_ring 1 f tlb_demo) (Map.empty(0 \<mapsto> (demo_req, length ([] :: sbi_tlb_info list)))) []"
    using tlb_demo_ok a m u by (intro tlb_exec.request [where src = 0 and sc = 0 and t = demo_req]) auto
  with \<open>tlb_reqs (set_ring 1 f tlb_demo) 1 = [demo_req]\<close> show ?thesis by auto
qed


end
