(* ===== verification/Sbi_Ipi.thy ===== *)
theory Sbi_Ipi
  imports Sbi_Tlb_Protocol
begin

text \<open>
  Inter-processor interrupts, \<^verbatim>\<open>lib/sbi/sbi_ipi.c\<close>, and the two functions of
  \<^verbatim>\<open>lib/sbi/sbi_tlb.c\<close> that use them.

  The table of event operations holds pointers to three static structures; the function pointers
  in them become case distinctions on the structure (\<open>ipi_update\<close>, \<open>ipi_sync\<close>, \<open>ipi_handle\<close>). The data
  pointer of a send is the request of the TLB code or null, and is part of the result because
  the update callback may change the request. As in the previous theory \<open>sbi_exit\<close> is an
  argument of the functions that can reach it.
\<close>

section \<open>Loops over the bits of a word\<close>

text \<open>The values of \<open>i\<close> for which \<^verbatim>\<open>for (; m; i++, m >>= 1) if (m & 1UL)\<close> runs its body.\<close>

lemma shr_one_less: "m \<noteq> 0 \<Longrightarrow> unat (shr (m :: ulong) 1) < unat m"
proof -
  assume "m \<noteq> 0"
  have "unat (shr m 1) = unat m div 2" by (simp add: shr_def drop_bit_eq_div unat_div_distrib)
  then show ?thesis using \<open>m \<noteq> 0\<close> by (simp add: unat_gt_0)
qed

function shift_bits :: "nat \<Rightarrow> ulong \<Rightarrow> nat list" where
  "shift_bits i m =
     (if m = 0 then []
      else (if m AND 1 \<noteq> 0 then [i] else []) @ shift_bits (i + 1) (shr m 1))"
  by pat_completeness auto
termination
  by (relation "measure (\<lambda>(i, m). unat m)") (use shr_one_less in auto)

declare shift_bits.simps [simp del]

section \<open>Events\<close>

definition sbi_ipi_event_create :: "sbi_ipi_event_ops \<Rightarrow> 'd sys \<Rightarrow> ('d sys, int) outcome" where
  "sbi_ipi_event_create ops =
     bindM (getM ipi_ops_array) (\<lambda>arr.
       case find (\<lambda>i. arr ! i = None) [0..<SBI_IPI_EVENT_MAX] of
         None \<Rightarrow> retM SBI_ENOSPC
       | Some i \<Rightarrow>
           bindM (liftO (wr arr i (Some ops))) (\<lambda>arr'.
             seqM (modM (\<lambda>s. s\<lparr>ipi_ops_array := arr'\<rparr>)) (retM (int i))))"

definition sbi_ipi_event_destroy :: "nat \<Rightarrow> 'd sys \<Rightarrow> ('d sys, unit) outcome" where
  "sbi_ipi_event_destroy event =
     (if SBI_IPI_EVENT_MAX \<le> event then retM ()
      else
        bindM (getM (\<lambda>s. wr (ipi_ops_array s) event None)) (\<lambda>r.
        bindM (liftO r) (\<lambda>arr. modM (\<lambda>s. s\<lparr>ipi_ops_array := arr\<rparr>))))"

section \<open>Sending\<close>

type_synonym ipi_data = "sbi_tlb_info option"

text \<open>The update callback: only the TLB operations have one.\<close>

definition ipi_update :: "'d cfg \<Rightarrow> nat \<Rightarrow> nat \<Rightarrow> sbi_ipi_event_ops \<Rightarrow> nat \<Rightarrow> nat \<Rightarrow> ipi_data \<Rightarrow>
    'd sys \<Rightarrow> ('d sys, int \<times> ipi_data) outcome" where
  "ipi_update c h sc ops remote_sc remote_hartid data =
     (case ops of
        tlb_ops \<Rightarrow>
          bindM (liftO data) (\<lambda>t.
          bindM (sbi_tlb_update c h sc remote_sc remote_hartid t) (\<lambda>(ret, t'). retM (ret, Some t')))
      | _ \<Rightarrow> retM (0, data))"

definition ipi_sync :: "'d cfg \<Rightarrow> nat \<Rightarrow> nat \<Rightarrow> sbi_ipi_event_ops \<Rightarrow> 'd sys \<Rightarrow> ('d sys, unit) outcome" where
  "ipi_sync c h sc ops = (case ops of tlb_ops \<Rightarrow> sbi_tlb_sync c h sc | _ \<Rightarrow> retM ())"

definition sbi_ipi_send :: "'d cfg \<Rightarrow> nat \<Rightarrow> nat \<Rightarrow> nat \<Rightarrow> nat \<Rightarrow> ipi_data \<Rightarrow>
    'd sys \<Rightarrow> ('d sys, int \<times> ipi_data) outcome" where
  "sbi_ipi_send c h sc remote_hartid event data =
     bindM (if SBI_IPI_EVENT_MAX \<le> event then retM None
            else bindM (getM (\<lambda>s. rd (ipi_ops_array s) event)) liftO) (\<lambda>r.
     case r of
       None \<Rightarrow> retM (SBI_EINVAL, data)
     | Some ops \<Rightarrow>
         bindM (sbi_hartid_to_scratch remote_hartid) (\<lambda>p.
         case p of
           None \<Rightarrow> retM (SBI_EINVAL, data)
         | Some remote_sc \<Rightarrow>
             bindM (getM ipi_data_off) (\<lambda>off.
             bindM (ipi_update c h sc ops remote_sc remote_hartid data) (\<lambda>(ret, data).
               if ret < 0 then retM (ret, data)
               else
                 seqM (atomic_raw_set_bit event remote_sc off)
                (seqM (sbi_platform_ipi_send c remote_hartid)
                (seqM (ipi_sync c h sc ops) (retM (0, data))))))))"

primrec ipi_send_each :: "'d cfg \<Rightarrow> nat \<Rightarrow> nat \<Rightarrow> nat \<Rightarrow> nat list \<Rightarrow> ipi_data \<Rightarrow>
    'd sys \<Rightarrow> ('d sys, ipi_data) outcome" where
  "ipi_send_each c h sc event [] data = retM data"
| "ipi_send_each c h sc event (i # is) data =
     bindM (sbi_ipi_send c h sc i event data) (\<lambda>(_, data). ipi_send_each c h sc event is data)"

fun send_all_loop :: "'d cfg \<Rightarrow> nat \<Rightarrow> nat \<Rightarrow> nat \<Rightarrow> ulong \<Rightarrow> ipi_data \<Rightarrow> nat \<Rightarrow> 'd sys \<Rightarrow> ('d sys, ipi_data) outcome" where
  "send_all_loop c h sc event hbase data 0 = haltM Spin"
| "send_all_loop c h sc event hbase data (Suc n) =
     bindM (sbi_hsm_hart_started_mask hbase) (\<lambda>(rc, m).
       if rc \<noteq> 0 then retM data
       else
         bindM (ipi_send_each c h sc event (shift_bits (unat hbase) m) data) (\<lambda>data.
           send_all_loop c h sc event (hbase + 64) data n))"

definition sbi_ipi_send_many :: "'d cfg \<Rightarrow> nat \<Rightarrow> ulong \<Rightarrow> ulong \<Rightarrow> nat \<Rightarrow> ipi_data \<Rightarrow> 'd sys \<Rightarrow> ('d sys, int) outcome" where
  "sbi_ipi_send_many c h hmask hbase event data =
     bindM (sbi_scratch_thishart_ptr h) (\<lambda>sc.
       if hbase \<noteq> - 1 then
         bindM (sbi_hsm_hart_started_mask hbase) (\<lambda>(rc, m).
           if rc \<noteq> 0 then retM rc
           else
             bindM (ipi_send_each c h sc event (shift_bits (unat hbase) (m AND hmask)) data) (\<lambda>_. retM 0))
       else bindM (send_all_loop c h sc event 0 data (fuel c)) (\<lambda>_. retM 0))"

definition sbi_ipi_send_smode :: "'d cfg \<Rightarrow> nat \<Rightarrow> ulong \<Rightarrow> ulong \<Rightarrow> 'd sys \<Rightarrow> ('d sys, int) outcome" where
  "sbi_ipi_send_smode c h hmask hbase =
     bindM (getM ipi_smode_event) (\<lambda>event. sbi_ipi_send_many c h hmask hbase event None)"

definition sbi_ipi_send_halt :: "'d cfg \<Rightarrow> nat \<Rightarrow> ulong \<Rightarrow> ulong \<Rightarrow> 'd sys \<Rightarrow> ('d sys, int) outcome" where
  "sbi_ipi_send_halt c h hmask hbase =
     bindM (getM ipi_halt_event) (\<lambda>event. sbi_ipi_send_many c h hmask hbase event None)"

section \<open>Processing\<close>

definition sbi_ipi_process_smode :: "nat \<Rightarrow> 'd sys \<Rightarrow> ('d sys, unit) outcome" where
  "sbi_ipi_process_smode h = csr_set h CSR_MIP MIP_SSIP"

definition sbi_ipi_clear_smode :: "nat \<Rightarrow> 'd sys \<Rightarrow> ('d sys, unit) outcome" where
  "sbi_ipi_clear_smode h = csr_clear h CSR_MIP MIP_SSIP"

definition sbi_ipi_process_halt :: "'d cfg \<Rightarrow> nat \<Rightarrow> (nat \<Rightarrow> 'd sys \<Rightarrow> ('d sys, unit) outcome) \<Rightarrow> nat \<Rightarrow>
    'd sys \<Rightarrow> ('d sys, unit) outcome" where
  "sbi_ipi_process_halt c h sbi_exit sc = bindM (sbi_hsm_hart_stop c h sbi_exit sc True) (\<lambda>_. retM ())"

definition ipi_handle :: "'d cfg \<Rightarrow> nat \<Rightarrow> (nat \<Rightarrow> 'd sys \<Rightarrow> ('d sys, unit) outcome) \<Rightarrow> nat \<Rightarrow> sbi_ipi_event_ops \<Rightarrow>
    'd sys \<Rightarrow> ('d sys, unit) outcome" where
  "ipi_handle c h sbi_exit sc ops =
     (case ops of
        ipi_smode_ops \<Rightarrow> sbi_ipi_process_smode h
      | ipi_halt_ops \<Rightarrow> sbi_ipi_process_halt c h sbi_exit sc
      | tlb_ops \<Rightarrow> sbi_tlb_process c h sc)"

definition ipi_dispatch :: "'d cfg \<Rightarrow> nat \<Rightarrow> (nat \<Rightarrow> 'd sys \<Rightarrow> ('d sys, unit) outcome) \<Rightarrow> nat \<Rightarrow> nat \<Rightarrow>
    'd sys \<Rightarrow> ('d sys, unit) outcome" where
  "ipi_dispatch c h sbi_exit sc ipi_event =
     bindM (getM (\<lambda>s. rd (ipi_ops_array s) ipi_event)) (\<lambda>r.
     bindM (liftO r) (\<lambda>ops.
       case ops of None \<Rightarrow> retM () | Some p \<Rightarrow> ipi_handle c h sbi_exit sc p))"

definition sbi_ipi_process :: "'d cfg \<Rightarrow> nat \<Rightarrow> (nat \<Rightarrow> 'd sys \<Rightarrow> ('d sys, unit) outcome) \<Rightarrow>
    'd sys \<Rightarrow> ('d sys, unit) outcome" where
  "sbi_ipi_process c h sbi_exit =
     bindM (sbi_scratch_thishart_ptr h) (\<lambda>sc.
     bindM (getM ipi_data_off) (\<lambda>off.
     seqM (sbi_platform_ipi_clear c h)
    (bindM (atomic_raw_xchg_ulong sc off 0) (\<lambda>ipi_type.
       forM (shift_bits 0 ipi_type) (ipi_dispatch c h sbi_exit sc)))))"

section \<open>Initialisation and exit\<close>

definition sbi_ipi_init :: "'d cfg \<Rightarrow> nat \<Rightarrow> nat \<Rightarrow> bool \<Rightarrow> 'd sys \<Rightarrow> ('d sys, int) outcome" where
  "sbi_ipi_init c h sc cold_boot =
     bindM
       (if cold_boot then
          bindM (sbi_scratch_alloc_offset 8) (\<lambda>off.
          seqM (modM (\<lambda>s. s\<lparr>ipi_data_off := off\<rparr>))
            (if off = 0 then retM SBI_ENOMEM
             else
               bindM (sbi_ipi_event_create ipi_smode_ops) (\<lambda>ret.
                 if ret < 0 then retM ret
                 else
                   seqM (modM (\<lambda>s. s\<lparr>ipi_smode_event := nat ret\<rparr>))
                  (bindM (sbi_ipi_event_create ipi_halt_ops) (\<lambda>ret.
                     if ret < 0 then retM ret
                     else seqM (modM (\<lambda>s. s\<lparr>ipi_halt_event := nat ret\<rparr>)) (retM 0))))))
        else
          getM (\<lambda>s. if ipi_data_off s = 0 then SBI_ENOMEM
                     else if SBI_IPI_EVENT_MAX \<le> ipi_smode_event s \<or> SBI_IPI_EVENT_MAX \<le> ipi_halt_event s
                     then SBI_ENOSPC else 0)) (\<lambda>ret.
     if ret \<noteq> 0 then retM ret
     else
       seqM (modM (\<lambda>s. scratch_wr sc (ipi_data_off s) 0 s))
      (bindM (sbi_platform_ipi_init c h cold_boot) (\<lambda>ret.
         if ret \<noteq> 0 then retM ret
         else seqM (csr_set h CSR_MIE MIP_MSIP) (retM 0))))"

definition sbi_ipi_exit :: "'d cfg \<Rightarrow> nat \<Rightarrow> (nat \<Rightarrow> 'd sys \<Rightarrow> ('d sys, unit) outcome) \<Rightarrow>
    'd sys \<Rightarrow> ('d sys, unit) outcome" where
  "sbi_ipi_exit c h sbi_exit =
     seqM (csr_clear h CSR_MIE MIP_MSIP)
    (seqM (sbi_ipi_process c h sbi_exit)
          (sbi_platform_ipi_exit c h))"

section \<open>Remote TLB flushes\<close>

definition sbi_tlb_request :: "'d cfg \<Rightarrow> nat \<Rightarrow> ulong \<Rightarrow> ulong \<Rightarrow> sbi_tlb_info \<Rightarrow> 'd sys \<Rightarrow> ('d sys, int) outcome" where
  "sbi_tlb_request c h hmask hbase tinfo =
     bindM (getM tlb_event) (\<lambda>event. sbi_ipi_send_many c h hmask hbase event (Some tinfo))"

text \<open>The structure \<open>sbi_fifo\<close> takes 24 bytes; the ring memory is overwritten by the initialisation.\<close>

definition sbi_tlb_init :: "'d cfg \<Rightarrow> nat \<Rightarrow> bool \<Rightarrow> 'd sys \<Rightarrow> ('d sys, int) outcome" where
  "sbi_tlb_init c sc cold_boot =
     bindM
       (if cold_boot then
          bindM (sbi_scratch_alloc_offset 8) (\<lambda>o1.
          seqM (modM (\<lambda>s. s\<lparr>tlb_sync_off := o1\<rparr>))
            (if o1 = 0 then retM SBI_ENOMEM
             else
          bindM (sbi_scratch_alloc_offset 24) (\<lambda>o2.
          seqM (modM (\<lambda>s. s\<lparr>tlb_fifo_off := o2\<rparr>))
            (if o2 = 0 then seqM (sbi_scratch_free_offset o1) (retM SBI_ENOMEM)
             else
          bindM (sbi_scratch_alloc_offset (8 * 56)) (\<lambda>o3.
          seqM (modM (\<lambda>s. s\<lparr>tlb_fifo_mem_off := o3\<rparr>))
            (if o3 = 0 then seqM (sbi_scratch_free_offset o2) (seqM (sbi_scratch_free_offset o1) (retM SBI_ENOMEM))
             else
          bindM (sbi_ipi_event_create tlb_ops) (\<lambda>ret.
            if ret < 0 then
              seqM (sbi_scratch_free_offset o3) (seqM (sbi_scratch_free_offset o2)
                (seqM (sbi_scratch_free_offset o1) (retM ret)))
            else
              seqM (modM (\<lambda>s. s\<lparr>tlb_event := nat ret\<rparr>))
             (seqM (modM (\<lambda>s. s\<lparr>tlb_range_flush_limit := sbi_platform_tlbr_flush_limit c\<rparr>)) (retM 0)))))))))
        else
          getM (\<lambda>s. if tlb_sync_off s = 0 \<or> tlb_fifo_off s = 0 \<or> tlb_fifo_mem_off s = 0 then SBI_ENOMEM
                     else if SBI_IPI_EVENT_MAX \<le> tlb_event s then SBI_ENOSPC else 0)) (\<lambda>ret.
     if ret \<noteq> 0 then retM ret
     else
       seqM (modM (\<lambda>s. scratch_wr sc (tlb_sync_off s) 0 s))
      (bindM (getM (\<lambda>s. sbi_fifo_init (tlb_fifo (scratch s sc)) (replicate 448 0)
                          SBI_TLB_FIFO_NUM_ENTRIES SBI_TLB_INFO_SIZE)) (\<lambda>r.
       bindM (liftO r) (\<lambda>q.
         seqM (modM (upd_scratch sc (\<lambda>t. t\<lparr>tlb_fifo := q\<rparr>))) (retM 0)))))"

section \<open>The bits a loop visits\<close>

lemma upt_Suc_shift: "[0..<Suc n] = 0 # map Suc [0..<n]"
  by (simp add: map_Suc_upt upt_conv_Cons del: upt_Suc)

lemma shift_bits_below:
  "unat m < 2 ^ n \<Longrightarrow> shift_bits i m = map ((+) i) (filter (bit m) [0..<n])"
proof (induction n arbitrary: i m)
  case 0
  then show ?case by (simp add: shift_bits.simps unat_eq_zero)
next
  case (Suc n)
  have b: "bit (shr m 1) = bit m \<circ> Suc" by (simp add: fun_eq_iff shr_def bit_drop_bit_eq)
  have "unat (shr m 1) = unat m div 2" by (simp add: shr_def drop_bit_eq_div unat_div_distrib)
  then have "shift_bits (i + 1) (shr m 1) = map ((+) (i + 1)) (filter (bit (shr m 1)) [0..<n])"
    using Suc.prems by (intro Suc.IH) simp
  also have "\<dots> = map ((+) i) (filter (bit m) (map Suc [0..<n]))"
    by (simp only: b filter_map map_map o_def) simp
  finally have rest: "shift_bits (i + 1) (shr m 1) = map ((+) i) (filter (bit m) (map Suc [0..<n]))" .
  have "m AND 1 \<noteq> 0 \<longleftrightarrow> bit m 0" by (simp add: and_one_eq mod_2_eq_odd bit_0)
  then show ?case
    using rest by (subst shift_bits.simps) (auto simp: upt_Suc_shift simp del: upt_Suc)
qed

lemma shift_bits_eq: "shift_bits i m = map ((+) i) (filter (bit m) [0..<64])"
  using shift_bits_below [of m 64 i] unat64 [of m] by simp

lemma set_shift_bits: "set (shift_bits i m) = {i + k | k. k < 64 \<and> bit m k}"
  by (auto simp: shift_bits_eq)

lemma distinct_shift_bits: "distinct (shift_bits i m)"
  by (simp add: shift_bits_eq distinct_map)

section \<open>Pending events\<close>

definition ipi_pend :: "'d sys \<Rightarrow> nat \<Rightarrow> ulong option" where
  "ipi_pend s i = map_option (\<lambda>sc. scratch_rd sc (ipi_data_off s) s) (area_of s i)"

text \<open>What sending an event without callbacks does.\<close>

definition post :: "'d cfg \<Rightarrow> nat \<Rightarrow> nat \<Rightarrow> 'd sys \<Rightarrow> 'd sys" where
  "post c event i s =
     (case area_of s i of
        None \<Rightarrow> s
      | Some sc \<Rightarrow>
          (scratch_wr sc (ipi_data_off s) (scratch_rd sc (ipi_data_off s) s OR shl 1 event) s)
            \<lparr>dev := plat_void_eff c ipi_send i (dev s)\<rparr>)"

lemma scratch_wr_globals [simp]:
  "ipi_ops_array (scratch_wr sc off v s) = ipi_ops_array s" "ipi_data_off (scratch_wr sc off v s) = ipi_data_off s"
  "ipi_smode_event (scratch_wr sc off v s) = ipi_smode_event s" "tlb_event (scratch_wr sc off v s) = tlb_event s"
  "hart_data_offset (scratch_wr sc off v s) = hart_data_offset s"
  "area_of (scratch_wr sc off v s) = area_of s"
  by (simp_all add: scratch_wr_def upd_scratch_def area_of_def fun_eq_iff)

lemma dev_upd_frame [simp]:
  "area_of (s\<lparr>dev := d\<rparr>) = area_of s" "scratch_rd sc off (s\<lparr>dev := d\<rparr>) = scratch_rd sc off s"
  "scratch_wf (s\<lparr>dev := d\<rparr>) = scratch_wf s"
  by (simp_all add: area_of_def fun_eq_iff scratch_rd_def scratch_wf_def)

lemma post_simps [simp]:
  "area_of (post c event i s) = area_of s" "harts (post c event i s) = harts s"
  "ipi_ops_array (post c event i s) = ipi_ops_array s" "ipi_data_off (post c event i s) = ipi_data_off s"
  "hartid_to_scratch_table (post c event i s) = hartid_to_scratch_table s"
  "scratch_wf (post c event i s) = scratch_wf s"
  by (simp_all add: post_def split: option.splits)

lemma ipi_pend_post:
  assumes "scratch_wf s"
  shows "ipi_pend (post c event i s) j =
    (if j = i then map_option (\<lambda>w. w OR shl 1 event) (ipi_pend s i) else ipi_pend s j)"
proof (cases "area_of s i")
  case (Some sc)
  then show ?thesis
    using area_inj [OF assms Some, of j]
    by (cases "area_of s j") (auto simp: ipi_pend_def post_def scratch_rd_wr)
qed (simp add: post_def ipi_pend_def)

text \<open>The table has an entry for every event number.\<close>

definition ops_ok :: "'d sys \<Rightarrow> bool" where
  "ops_ok s \<longleftrightarrow> length (ipi_ops_array s) = SBI_IPI_EVENT_MAX"

lemma send_plain_run:
  assumes "scratch_wf s" "i < SBI_HARTMASK_MAX_BITS" "ops_ok s" "event < SBI_IPI_EVENT_MAX"
    "ipi_ops_array s ! event = Some ops" "ops \<noteq> tlb_ops"
  shows "\<exists>r. sbi_ipi_send c h sc i event data s = Ret (r, data) (post c event i s)"
proof -
  have t: "length (hartid_to_scratch_table s) = 128" using assms(1) by (simp add: scratch_wf_def)
  have e: "event div 64 = 0" "event mod 64 = event" using assms(4) by auto
  have o: "ipi_update c h sc ops rsc i data s' = Ret (0, data) s'" "ipi_sync c h sc ops s' = Ret () s'" for rsc s'
    using assms(6) by (cases ops; simp add: ipi_update_def ipi_sync_def run_simps)+
  show ?thesis
    using assms(2-5) t e o
    by (auto simp: sbi_ipi_send_def run_simps rd_def ops_ok_def post_def area_of_def atomic_raw_set_bit_def
        plat_wrapper_defs Let_def split: option.splits)
qed

lemma send_each_plain_run:
  assumes "scratch_wf s" "\<forall>i\<in>set is. i < SBI_HARTMASK_MAX_BITS" "ops_ok s" "event < SBI_IPI_EVENT_MAX"
    "ipi_ops_array s ! event = Some ops" "ops \<noteq> tlb_ops"
  shows "ipi_send_each c h sc event is data s = Ret data (fold (post c event) is s)"
  using assms
proof (induction "is" arbitrary: s)
  case (Cons i "is")
  obtain r where "sbi_ipi_send c h sc i event data s = Ret (r, data) (post c event i s)"
    using send_plain_run Cons.prems by fastforce
  then show ?case using Cons by (simp add: run_simps ops_ok_def)
qed (simp add: run_simps)

lemma posts_simps [simp]:
  "area_of (fold (post c event) is s) = area_of s" "harts (fold (post c event) is s) = harts s"
  "ipi_ops_array (fold (post c event) is s) = ipi_ops_array s"
  "ipi_data_off (fold (post c event) is s) = ipi_data_off s"
  "hartid_to_scratch_table (fold (post c event) is s) = hartid_to_scratch_table s"
  "scratch_wf (fold (post c event) is s) = scratch_wf s"
  by (induction "is" arbitrary: s) simp_all

lemma ipi_pend_posts:
  assumes "scratch_wf s"
  shows "ipi_pend (fold (post c event) is s) j =
    (if j \<in> set is then map_option (\<lambda>w. w OR shl 1 event) (ipi_pend s j) else ipi_pend s j)"
  using assms by (induction "is" arbitrary: s) (auto simp: ipi_pend_post option.map_comp o_def)

text \<open>The harts a call of \<open>sbi_ipi_send_many\<close> is for: the started ones of the mask, or all started ones.\<close>

definition ipi_targets :: "ulong \<Rightarrow> ulong \<Rightarrow> 'd sys \<Rightarrow> nat set" where
  "ipi_targets hmask hbase s =
     {i. hsm_view s i = Some SBI_HART_STARTED \<and>
         (hbase = - 1 \<or> unat hbase \<le> i \<and> i - unat hbase < 64 \<and> bit hmask (i - unat hbase))}"

lemma hsm_view_128: "hsm_view s i = Some v \<Longrightarrow> i < SBI_HARTMASK_MAX_BITS"
  by (auto simp: hsm_view_def area_of_def split: if_splits)

lemma hsm_view_last: "scratch_wf s \<Longrightarrow> hsm_view s i = Some v \<Longrightarrow> i \<le> last_hartid_having_scratch s"
  using scratch_wfD(3) [of s i] by (auto simp: hsm_view_def area_of_def split: if_splits)

text \<open>The states the sends pass through have the same started harts.\<close>

lemma posts_hsm:
  assumes "hsm_ok s" "hart_data_offset s \<noteq> ipi_data_off s"
  shows "hsm_view (fold (post c event) is s) = hsm_view s" "hsm_ok (fold (post c event) is s)"
    "last_hartid_having_scratch (fold (post c event) is s) = last_hartid_having_scratch s"
    "hart_data_offset (fold (post c event) is s) = hart_data_offset s"
proof -
  have 1: "hart_data_offset (post c event i s) = hart_data_offset s"
    "last_hartid_having_scratch (post c event i s) = last_hartid_having_scratch s" for i and s :: "'a sys"
    by (simp_all add: post_def split: option.splits)
  show 2: "hart_data_offset (fold (post c event) is s) = hart_data_offset s"
    "last_hartid_having_scratch (fold (post c event) is s) = last_hartid_having_scratch s"
    by (induction "is" arbitrary: s) (simp_all add: 1)
  have "scratch_rd sc off (post c event i s) = scratch_rd sc off s" if "off \<noteq> ipi_data_off s"
    for i sc off and s :: "'a sys"
    using that by (simp add: post_def scratch_rd_wr split: option.splits)
  then have "scratch_rd sc off (fold (post c event) is s) = scratch_rd sc off s" if "off \<noteq> ipi_data_off s" for sc off
    using that by (induction "is" arbitrary: s) simp_all
  then show 3: "hsm_view (fold (post c event) is s) = hsm_view s"
    using assms(2) 2 by (simp add: hsm_view_def fun_eq_iff)
  show "hsm_ok (fold (post c event) is s)" using assms(1) 3 by (simp add: hsm_ok_def)
qed

lemma send_all_run:
  assumes "hsm_ok s" "ops_ok s" "event < SBI_IPI_EVENT_MAX" "ipi_ops_array s ! event = Some ops" "ops \<noteq> tlb_ops"
    "hart_data_offset s \<noteq> ipi_data_off s" "hb = 64 * k" "k \<le> 2" "2 < n + k"
  shows "\<exists>is. send_all_loop c h sc event (of_nat hb) data n s = Ret data (fold (post c event) is s) \<and>
    set is = {i. hb \<le> i \<and> hsm_view s i = Some SBI_HART_STARTED}"
  using assms
proof (induction n arbitrary: s hb k)
  case (Suc n)
  have u: "unat (of_nat hb :: ulong) = hb" using Suc.prems(7,8) by (intro unat_of_nat_small) simp
  have wf: "scratch_wf s" using Suc.prems(1) by (simp add: hsm_ok_def)
  note last = hsm_view_last [OF wf]
  show ?case
  proof (cases "last_hartid_having_scratch s + 1 - hb = 0")
    case True
    then have "sbi_hsm_hart_started_mask (of_nat hb) s = Ret (SBI_EINVAL, 0) s"
      using started_mask_run [OF Suc.prems(1), of "of_nat hb"] u by simp
    moreover have "{i. hb \<le> i \<and> hsm_view s i = Some 3} = {}" using True last by fastforce
    ultimately show ?thesis by (intro exI [of _ "[]"]) (simp add: run_simps)
  next
    case False
    then obtain m where m: "sbi_hsm_hart_started_mask (of_nat hb) s = Ret (0, m) s"
      "\<forall>j<64. bit m j \<longleftrightarrow> hsm_view s (hb + j) = Some 3 \<and> (last_hartid_having_scratch s + 1 - hb \<le> 64 \<or> hb + j < 64)"
      using started_mask_run [OF Suc.prems(1), of "of_nat hb"] u by auto
    have l: "last_hartid_having_scratch s < 128" using wf by (simp add: scratch_wf_def)
    have k: "k \<le> 1" using False l Suc.prems(7,8) by auto
    have all: "last_hartid_having_scratch s + 1 - hb \<le> 64 \<or> hb + j < 64" if "j < 64" for j
      using that k l Suc.prems(7) by (cases "k = 0") auto
    let ?is = "shift_bits hb m"
    have vis: "set ?is = {i. hb \<le> i \<and> i < hb + 64 \<and> hsm_view s i = Some 3}"
      using m(2) all by (auto simp: set_shift_bits) (metis le_add_diff_inverse less_diff_conv2 add.commute)
    have each: "ipi_send_each c h sc event ?is data s = Ret data (fold (post c event) ?is s)"
      using wf vis hsm_view_128 Suc.prems(2-5) by (intro send_each_plain_run) auto
    let ?s = "fold (post c event) ?is s"
    note fr = posts_hsm [OF Suc.prems(1,6), of c event ?is]
    have "\<exists>is. send_all_loop c h sc event (of_nat (hb + 64)) data n ?s = Ret data (fold (post c event) is ?s) \<and>
        set is = {i. hb + 64 \<le> i \<and> hsm_view ?s i = Some SBI_HART_STARTED}"
      using Suc.prems fr k by (intro Suc.IH [where k = "Suc k"]) (auto simp: ops_ok_def)
    then obtain "is" where "send_all_loop c h sc event (of_nat (hb + 64)) data n ?s = Ret data (fold (post c event) is ?s)"
      "set is = {i. hb + 64 \<le> i \<and> hsm_view s i = Some SBI_HART_STARTED}" using fr(1) by auto
    then have "send_all_loop c h sc event (of_nat hb) data (Suc n) s = Ret data (fold (post c event) (?is @ is) s)"
      "set (?is @ is) = {i. hb \<le> i \<and> hsm_view s i = Some SBI_HART_STARTED}"
      using m(1) each vis u by (auto simp: run_simps)
    then show ?thesis by blast
  qed
qed simp

lemma mask_visits:
  assumes "hsm_ok s" "last_hartid_having_scratch s < 64" "unat hbase \<le> last_hartid_having_scratch s" "hbase \<noteq> - 1"
  shows "\<exists>m. sbi_hsm_hart_started_mask hbase s = Ret (0, m) s \<and>
    set (shift_bits (unat hbase) (m AND hmask)) = ipi_targets hmask hbase s"
proof -
  have "last_hartid_having_scratch s + 1 - unat hbase \<le> 64" "last_hartid_having_scratch s + 1 - unat hbase \<noteq> 0"
    using assms(2,3) by simp_all
  then obtain m where m: "sbi_hsm_hart_started_mask hbase s = Ret (0, m) s"
    "\<forall>j<64. bit m j \<longleftrightarrow> hsm_view s (unat hbase + j) = Some 3"
    using started_mask_run [OF assms(1), of hbase] by auto
  have "set (shift_bits (unat hbase) (m AND hmask)) = ipi_targets hmask hbase s"
    using m(2) assms(4) by (auto simp: set_shift_bits ipi_targets_def bit_and_iff) (metis le_add_diff_inverse)
  with m(1) show ?thesis by blast
qed

lemma send_many_run:
  assumes "hsm_ok s" "ops_ok s" "event < SBI_IPI_EVENT_MAX" "ipi_ops_array s ! event = Some ops" "ops \<noteq> tlb_ops"
    "hart_data_offset s \<noteq> ipi_data_off s" "2 < fuel c" "last_hartid_having_scratch s < 64"
  shows "\<exists>is. sbi_ipi_send_many c h hmask hbase event None s =
      Ret (if hbase \<noteq> - 1 \<and> last_hartid_having_scratch s < unat hbase then SBI_EINVAL else 0)
        (fold (post c event) is s) \<and> set is = ipi_targets hmask hbase s"
proof (cases "hbase = - 1")
  case True
  have "\<exists>is. send_all_loop c h (mscratch (harts s h)) event (of_nat 0) None (fuel c) s =
      Ret None (fold (post c event) is s) \<and> set is = {i. 0 \<le> i \<and> hsm_view s i = Some SBI_HART_STARTED}"
    using assms by (intro send_all_run [where k = 0]) auto
  then show ?thesis using True by (auto simp: sbi_ipi_send_many_def run_simps ipi_targets_def)
next
  case False
  have wf: "scratch_wf s" using assms(1) by (simp add: hsm_ok_def)
  note last = hsm_view_last [OF wf]
  show ?thesis
  proof (cases "last_hartid_having_scratch s + 1 - unat hbase = 0")
    case True
    have "ipi_targets hmask hbase s = {}" using True False last by (fastforce simp: ipi_targets_def)
    then show ?thesis
      using False True started_mask_run [OF assms(1), of hbase]
      by (intro exI [of _ "[]"]) (auto simp: sbi_ipi_send_many_def run_simps)
  next
    case n: False
    then obtain m where m: "sbi_hsm_hart_started_mask hbase s = Ret (0, m) s"
      and vis: "set (shift_bits (unat hbase) (m AND hmask)) = ipi_targets hmask hbase s"
      using mask_visits [OF assms(1,8), of hbase hmask] False by auto
    let ?is = "shift_bits (unat hbase) (m AND hmask)"
    have "ipi_send_each c h (mscratch (harts s h)) event ?is None s = Ret None (fold (post c event) ?is s)"
      using wf vis hsm_view_128 assms(2-5) by (intro send_each_plain_run) (auto simp: ipi_targets_def)
    then show ?thesis
      using False n m vis by (intro exI [of _ ?is]) (auto simp: sbi_ipi_send_many_def run_simps)
  qed
qed

section \<open>Processing pending events\<close>

definition add_csr :: "nat \<Rightarrow> nat \<Rightarrow> ulong \<Rightarrow> 'd sys \<Rightarrow> 'd sys" where
  "add_csr h n v = upd_hart h (\<lambda>t. t\<lparr>csr := (csr t)(n := csr t n OR v)\<rparr>)"

lemma add_csr_frame [simp]:
  "area_of (add_csr h n v s) = area_of s" "scratch (add_csr h n v s) = scratch s"
  "ipi_data_off (add_csr h n v s) = ipi_data_off s" "scratch_rd sc off (add_csr h n v s) = scratch_rd sc off s"
  by (simp_all add: add_csr_def upd_hart_def area_of_def scratch_rd_def fun_eq_iff)

text \<open>The state in which the handlers start: the doorbell and the pending word are cleared.\<close>

definition taken :: "'d cfg \<Rightarrow> nat \<Rightarrow> 'd sys \<Rightarrow> 'd sys" where
  "taken c h s = scratch_wr (mscratch (harts s h)) (ipi_data_off s) 0 (s\<lparr>dev := plat_void_eff c ipi_clear h (dev s)\<rparr>)"

lemma distinct_singleton: "distinct xs \<Longrightarrow> set xs = {x} \<Longrightarrow> xs = [x]"
  by (cases xs; cases "tl xs") auto

lemma single_bit_list: "n < 64 \<Longrightarrow> shift_bits 0 (shl 1 n) = [n]"
  by (rule distinct_singleton [OF distinct_shift_bits]) (auto simp: set_shift_bits bit_shl bit_1_iff)

lemma ipi_process_run:
  "sbi_ipi_process c h sbi_exit s =
    forM (shift_bits 0 (scratch_rd (mscratch (harts s h)) (ipi_data_off s) s))
      (ipi_dispatch c h sbi_exit (mscratch (harts s h))) (taken c h s)"
  by (simp add: sbi_ipi_process_def run_simps plat_wrapper_defs taken_def)

text \<open>One pending event with operations \<open>ops\<close> leads to one call of its handler.\<close>

lemma process_one_event:
  assumes "area_of s h = Some (mscratch (harts s h))" "ops_ok s" "event < SBI_IPI_EVENT_MAX"
    "ipi_ops_array s ! event = Some ops" "ipi_pend s h = Some (shl 1 event)"
  shows "sbi_ipi_process c h sbi_exit s = ipi_handle c h sbi_exit (mscratch (harts s h)) ops (taken c h s)"
proof -
  have w: "scratch_rd (mscratch (harts s h)) (ipi_data_off s) s = shl 1 event"
    using assms(1,5) by (simp add: ipi_pend_def)
  have t: "ipi_ops_array (taken c h s) = ipi_ops_array s" by (simp add: taken_def)
  show ?thesis
    unfolding ipi_process_run w single_bit_list [OF assms(3)] using assms(2-4) t
    by (simp add: ipi_dispatch_def run_simps rd_def ops_ok_def split: outcome.split)
qed

section \<open>A remote flush from end to end\<close>

lemma set_ring_globals [simp]:
  "ipi_ops_array (set_ring sc f s) = ipi_ops_array s" "ipi_data_off (set_ring sc f s) = ipi_data_off s"
  "hartid_to_scratch_table (set_ring sc f s) = hartid_to_scratch_table s" "dev (set_ring sc f s) = dev s"
  by (simp_all add: set_ring_def) (simp_all add: upd_scratch_def)

lemma scratch_wr_ring [simp]: "tlb_fifo (scratch (scratch_wr sc off v s) sc') = tlb_fifo (scratch s sc')"
  by (simp add: scratch_wr_def)

lemma ring_frame [simp]:
  "ring_ok (scratch_wr sc off v s) sc' = ring_ok s sc'" "tlb_reqs (scratch_wr sc off v s) sc' = tlb_reqs s sc'"
  "ring_ok (s\<lparr>dev := d\<rparr>) sc' = ring_ok s sc'" "tlb_reqs (s\<lparr>dev := d\<rparr>) sc' = tlb_reqs s sc'"
  by (simp_all add: ring_ok_def tlb_reqs_def)

lemma process_single_run:
  assumes "ring_ok s sc" "scratch_wf s" "1 < fuel c" "tlb_reqs s sc = [t]" "tlb_req_ok t"
    "\<forall>i\<in>hm_set (t_smask t). area_of s i = None \<or> tlb_flag s i = Some 0"
  shows "\<exists>f. sbi_tlb_process c h sc s =
      Ret () (fold signal (mask_list t) (add_fences h (flush_fences t) (set_ring sc f s))) \<and>
    ring_ok (set_ring sc f s) sc \<and> tlb_reqs (set_ring sc f s) sc = []"
proof -
  obtain f where f: "tlb_dequeue sc s = Ret (Some t) (set_ring sc f s)" "ring_ok (set_ring sc f s) sc"
    "tlb_reqs (set_ring sc f s) sc = []"
    using tlb_dequeue_run [OF assms(1)] assms(4) by auto
  have hm: "hm_ok (t_smask t)" using tlb_reqs_hm_ok [of t s sc] assms(4) by simp
  have fl: "tlb_flag (set_ring sc f s) = tlb_flag s" by (simp add: tlb_flag_def fun_eq_iff)
  let ?s = "fold signal (mask_list t) (add_fences h (flush_fences t) (set_ring sc f s))"
  have p: "sbi_tlb_entry_process c h t (set_ring sc f s) = Ret () ?s"
    using assms(2,3,5,6) hm fl by (intro entry_process_run) auto
  have r: "ring_ok ?s sc" "tlb_reqs ?s sc = []" using f by (simp_all add: tlb_reqs_def ring_ok_def)
  then have d: "tlb_dequeue sc ?s = Ret None ?s" using tlb_dequeue_run [of ?s sc] by simp
  obtain n where n: "fuel c = Suc (Suc n)" using assms(3) by (metis Suc_lessE Suc_lessI less_numeral_extra(4) One_nat_def not0_implies_Suc)
  show ?thesis using f p d n by (intro exI [of _ f]) (simp add: sbi_tlb_process_def run_simps)
qed

text \<open>
  A requester \<open>h\<close> and a target \<open>r\<close> with nothing under way between them.
\<close>

definition tlb_ready :: "nat \<Rightarrow> nat \<Rightarrow> 'd sys \<Rightarrow> bool" where
  "tlb_ready h r s \<longleftrightarrow> hsm_ok s \<and> ops_ok s \<and> tlb_event s < SBI_IPI_EVENT_MAX \<and>
     ipi_ops_array s ! tlb_event s = Some tlb_ops \<and> ipi_data_off s \<noteq> tlb_sync_off s \<and>
     area_of s h = Some (mscratch (harts s h)) \<and> area_of s r = Some (mscratch (harts s r)) \<and>
     ring_ok s (mscratch (harts s h)) \<and> ring_ok s (mscratch (harts s r)) \<and>
     tlb_reqs s (mscratch (harts s h)) = [] \<and> tlb_reqs s (mscratch (harts s r)) = [] \<and>
     ipi_pend s r = Some 0 \<and> tlb_flag s h = Some 0"

text \<open>The target handles the doorbell: it flushes, clears its pending word and sets the word of the requester.\<close>

lemma target_handles_flush:
  assumes "area_of s r = Some (mscratch (harts s r))" "scratch_wf s" "ops_ok s" "event < SBI_IPI_EVENT_MAX"
    "ipi_ops_array s ! event = Some tlb_ops" "ipi_pend s r = Some (shl 1 event)" "ipi_data_off s \<noteq> tlb_sync_off s"
    "ring_ok s (mscratch (harts s r))" "tlb_reqs s (mscratch (harts s r)) = [t]" "tlb_req_ok t"
    "hm_set (t_smask t) = {h}" "area_of s h \<noteq> None" "tlb_flag s h = Some 0" "1 < fuel c"
    "s' = final (sbi_ipi_process c r sbi_exit s)"
  shows "fences (harts s' r) = fences (harts s r) @ flush_fences t" "tlb_reqs s' (mscratch (harts s r)) = []"
    "ipi_pend s' r = Some 0" "tlb_flag s' h = Some 1" "area_of s' = area_of s" "tlb_sync_off s' = tlb_sync_off s"
    "ipi_data_off s' = ipi_data_off s"
proof -
  let ?sc = "mscratch (harts s r)"
  let ?t = "taken c r s"
  have t: "area_of ?t = area_of s" "ring_ok ?t ?sc" "tlb_reqs ?t ?sc = [t]" "scratch_wf ?t"
    "tlb_sync_off ?t = tlb_sync_off s" "ipi_data_off ?t = ipi_data_off s" "harts ?t = harts s"
    using assms by (simp_all add: taken_def)
  have fl: "tlb_flag ?t = tlb_flag s"
    using assms(7) by (auto simp: tlb_flag_def taken_def scratch_rd_wr fun_eq_iff)
  obtain f where f: "sbi_tlb_process c r ?sc ?t =
      Ret () (fold signal (mask_list t) (add_fences r (flush_fences t) (set_ring ?sc f ?t)))"
    "tlb_reqs (set_ring ?sc f ?t) ?sc = []"
    using process_single_run [of ?t ?sc c t r] t assms fl by auto
  let ?s' = "fold signal (mask_list t) (add_fences r (flush_fences t) (set_ring ?sc f ?t))"
  have s': "s' = ?s'"
    using process_one_event [OF assms(1,3-6), of c sbi_exit] f(1) by (simp add: assms(15) ipi_handle_def)
  have hm: "hm_ok (t_smask t)" using tlb_reqs_hm_ok [of t s ?sc] assms(9) by simp
  show "fences (harts s' r) = fences (harts s r) @ flush_fences t"
    by (simp add: s' t add_fences_def)
  show "tlb_reqs s' ?sc = []" using f(2) by (simp add: s' tlb_reqs_def)
  show "tlb_flag s' h = Some 1"
    using assms(11,12) t set_mask_list [OF hm] by (simp add: s' tlb_flag_signals)
  show "area_of s' = area_of s" "tlb_sync_off s' = tlb_sync_off s" by (simp_all add: s' t)
  have o: "ipi_data_off (fold signal is x) = ipi_data_off x" for "is" and x :: "'a sys"
    by (induction "is" arbitrary: x) (simp_all add: signal_def split: option.splits)
  show 1: "ipi_data_off s' = ipi_data_off s" by (simp add: s' o t add_fences_def upd_hart_def)
  have "scratch_rd sc off (fold signal is x) = scratch_rd sc off x" if "off \<noteq> tlb_sync_off x" for sc off "is" and x :: "'a sys"
    using that by (induction "is" arbitrary: x) (simp_all add: signal_def scratch_rd_wr split: option.splits)
  then show "ipi_pend s' r = Some 0"
    using assms(1,7) 1 by (simp add: ipi_pend_def s' t) (simp add: scratch_rd_def add_fences_def upd_hart_def, simp add: taken_def scratch_rd_wr flip: scratch_rd_def)
qed

text \<open>The requester waits for one round of the target.\<close>

lemma sync_one_round:
  assumes "tlb_flag s h = Some 0" "area_of s h = Some sc" "ring_ok s sc" "tlb_reqs s sc = []" "1 < fuel c"
    "\<And>x. x = scratch_wr sc (tlb_sync_off s) 0 s \<Longrightarrow>
       tlb_flag (interf c h x) h = Some 1 \<and> area_of (interf c h x) h = Some sc \<and> tlb_sync_off (interf c h x) = tlb_sync_off s"
  shows "sbi_tlb_sync c h sc s =
    Ret () (scratch_wr sc (tlb_sync_off s) 0 (interf c h (scratch_wr sc (tlb_sync_off s) 0 s)))"
proof -
  let ?x = "scratch_wr sc (tlb_sync_off s) 0 s"
  obtain n where n: "fuel c = Suc (Suc n)" using assms(5) by (cases "fuel c"; cases "fuel c - 1") auto
  have z: "scratch_rd sc (tlb_sync_off s) s = 0" using assms(1,2) by (simp add: tlb_flag_def)
  have o: "scratch_rd sc (tlb_sync_off s) (interf c h ?x) = 1"
    using assms(6) [of ?x] by (auto simp: tlb_flag_def)
  have "tlb_dequeue sc ?x = Ret None ?x" using tlb_dequeue_run [of ?x sc] assms(3,4) by simp
  then have "sbi_tlb_process_count c h sc 1 ?x = Ret () ?x"
    by (simp add: sbi_tlb_process_count_def run_simps)
  then show ?thesis using n z o by (simp add: sbi_tlb_sync_def run_simps)
qed

text \<open>The answer of the target to a request that has been queued and announced.\<close>

definition flush_done :: "nat \<Rightarrow> nat \<Rightarrow> sbi_tlb_info \<Rightarrow> 'd sys \<Rightarrow> 'd sys \<Rightarrow> bool" where
  "flush_done h r t s s' \<longleftrightarrow> fences (harts s' r) = fences (harts s r) @ flush_fences t \<and>
     tlb_reqs s' (mscratch (harts s r)) = [] \<and> ipi_pend s' r = Some 0 \<and> tlb_flag s' h = Some 0"

lemma send_flush_run:
  assumes "tlb_ready h r s" "h \<noteq> r" "2 < fuel c" "r < SBI_HARTMASK_MAX_BITS"
    "\<And>x. interf c h x = final (sbi_ipi_process c' r sbi_exit x)" "1 < fuel c'"
    "hm_ok (t_smask t)" "hm_set (t_smask t) = {h}" "tlb_req_ok (tlb_upgrade (tlb_range_flush_limit s) t)"
  shows "\<exists>s'. sbi_ipi_send c h (mscratch (harts s h)) r (tlb_event s) (Some t) s =
      Ret (0, Some (tlb_upgrade (tlb_range_flush_limit s) t)) s' \<and>
    flush_done h r (tlb_upgrade (tlb_range_flush_limit s) t) s s'"
proof -
  let ?t = "tlb_upgrade (tlb_range_flush_limit s) t"
  let ?hsc = "mscratch (harts s h)" and ?rsc = "mscratch (harts s r)"
  have wf: "scratch_wf s" and offs: "ipi_data_off s \<noteq> tlb_sync_off s"
    and ar: "area_of s h = Some ?hsc" "area_of s r = Some ?rsc"
    and rg: "ring_ok s ?hsc" "ring_ok s ?rsc" "tlb_reqs s ?hsc = []" "tlb_reqs s ?rsc = []"
    and fl: "ipi_pend s r = Some 0" "tlb_flag s h = Some 0"
    and ev: "ops_ok s" "tlb_event s < 64" "ipi_ops_array s ! tlb_event s = Some tlb_ops"
    using assms(1) by (simp_all add: tlb_ready_def hsm_ok_def)
  have tm: "t_smask ?t = t_smask t" by (simp add: tlb_upgrade_def)
  have ne: "?hsc \<noteq> ?rsc" using area_inj [OF wf ar(1)] ar(2) assms(2) by auto
  obtain f where f: "sbi_tlb_update c h ?hsc ?rsc r t s = Ret (0, ?t) (set_ring ?rsc f s)"
    "ring_ok (set_ring ?rsc f s) ?rsc" "tlb_reqs (set_ring ?rsc f s) ?rsc = [?t]"
    using tlb_update_run [of r h s ?rsc t c ?hsc] assms(2,3,7) rg by (auto simp: tlb_add_def)
  let ?s3 = "(scratch_wr ?rsc (ipi_data_off s) (shl 1 (tlb_event s)) (set_ring ?rsc f s))
               \<lparr>dev := plat_void_eff c ipi_send r (dev s)\<rparr>"
  let ?x = "scratch_wr ?hsc (tlb_sync_off s) 0 ?s3"
  have fl3: "tlb_flag ?s3 h = Some 0" using fl(2) ar offs ne by (simp add: tlb_flag_def scratch_rd_wr)
  have x: "area_of ?x = area_of s" "harts ?x = harts s" "scratch_wf ?x" "ops_ok ?x" "ipi_data_off ?x = ipi_data_off s"
    "tlb_sync_off ?x = tlb_sync_off s" "ipi_ops_array ?x = ipi_ops_array s"
    using wf ev(1) by (simp_all add: ops_ok_def)
  have px: "ipi_pend ?x r = Some (shl 1 (tlb_event s))" "tlb_flag ?x h = Some 0"
    "ring_ok ?x ?rsc" "tlb_reqs ?x ?rsc = [?t]"
    using ar offs ne f by (simp_all add: ipi_pend_def tlb_flag_def scratch_rd_wr)
  note th = target_handles_flush [OF _ x(3,4) ev(2) _ px(1) _ _ _ assms(9) _ _ px(2), of c' "interf c h ?x" sbi_exit]
  have s4: "fences (harts (interf c h ?x) r) = fences (harts s r) @ flush_fences ?t"
    "tlb_reqs (interf c h ?x) ?rsc = []" "ipi_pend (interf c h ?x) r = Some 0" "tlb_flag (interf c h ?x) h = Some 1"
    "area_of (interf c h ?x) = area_of s" "tlb_sync_off (interf c h ?x) = tlb_sync_off s"
    "ipi_data_off (interf c h ?x) = ipi_data_off s"
    using th x px ar ev offs assms(5,6,8) tm by simp_all
  let ?s5 = "scratch_wr ?hsc (tlb_sync_off s) 0 (interf c h ?x)"
  have sy: "sbi_tlb_sync c h ?hsc ?s3 = Ret () ?s5"
    using sync_one_round [of ?s3 h ?hsc c] fl3 ar rg ne s4 assms(3) by (simp add: ring_ok_def tlb_reqs_def)
  have "flush_done h r ?t s ?s5"
    using s4 ar offs ne by (simp add: flush_done_def ipi_pend_def tlb_flag_def scratch_rd_wr)
  moreover have "sbi_ipi_send c h ?hsc r (tlb_event s) (Some t) s = Ret (0, Some ?t) ?s5"
    using ev ar assms(4) f(1) fl(1) sy wf
    by (simp add: sbi_ipi_send_def run_simps rd_def ops_ok_def area_of_def scratch_wf_def ipi_update_def ipi_sync_def
        atomic_raw_set_bit_def plat_wrapper_defs Let_def ipi_pend_def)
  ultimately show ?thesis by blast
qed

section \<open>Initialisation\<close>

text \<open>Allocations only clear words.\<close>

definition clears :: "(nat \<Rightarrow> sbi_scratch) \<Rightarrow> (nat \<Rightarrow> sbi_scratch) \<Rightarrow> bool" where
  "clears f g \<longleftrightarrow> (\<forall>sc a. extra (g sc) a = extra (f sc) a \<or> extra (g sc) a = 0)"

lemma clears_trans: "clears f g \<Longrightarrow> clears g k \<Longrightarrow> clears f k"
  unfolding clears_def by metis

lemma or_and_absorb: "(a OR m) AND m = (m :: ulong)"
  by (auto simp: bit_eq_iff bit_and_iff bit_or_iff)

lemma event_create_run:
  assumes "ops_ok s" "n < SBI_IPI_EVENT_MAX" "\<forall>i<n. ipi_ops_array s ! i \<noteq> None" "ipi_ops_array s ! n = None"
  shows "sbi_ipi_event_create ops s = Ret (int n) (s\<lparr>ipi_ops_array := (ipi_ops_array s)[n := Some ops]\<rparr>)"
proof -
  have "find (\<lambda>i. ipi_ops_array s ! i = None) [0..<64] = Some n"
    using assms(2-4) by (auto simp: find_Some_iff intro!: exI [of _ n])
  then show ?thesis using assms(1,2) by (simp add: sbi_ipi_event_create_def run_simps wr_def ops_ok_def)
qed

lemma event_create_full:
  assumes "ops_ok s" "\<forall>i<SBI_IPI_EVENT_MAX. ipi_ops_array s ! i \<noteq> None"
  shows "sbi_ipi_event_create ops s = Ret SBI_ENOSPC s"
proof -
  have "find (\<lambda>i. ipi_ops_array s ! i = None) [0..<64] = None" using assms(2) by (auto simp: find_None_iff)
  then show ?thesis by (simp add: sbi_ipi_event_create_def run_simps)
qed

lemma zero_steps_scratch: "\<exists>sf. fold (zero_step off n) xs s = s\<lparr>scratch := sf\<rparr>"
proof (induction xs arbitrary: s)
  case Nil
  show ?case by (intro exI [of _ "scratch s"]) simp
next
  case (Cons x xs)
  have "\<exists>sf. zero_step off n x s = s\<lparr>scratch := sf\<rparr>"
    by (cases "hartid_to_scratch_table s ! x")
      (auto simp: zero_step_def upd_scratch_def intro: exI [of _ "scratch s"])
  then obtain sf where "zero_step off n x s = s\<lparr>scratch := sf\<rparr>" by blast
  with Cons.IH [of "zero_step off n x s"] show ?case by auto
qed

lemma alloc_words_run:
  assumes "alloc_inv s" "0 < n" "8 dvd n" "unat (extra_offset s) + n \<le> 4096"
  shows "\<exists>sf. sbi_scratch_alloc_offset (of_nat n) s =
      Ret (extra_offset s) (s\<lparr>extra_offset := extra_offset s + of_nat n, scratch := sf\<rparr>) \<and>
    alloc_inv (s\<lparr>extra_offset := extra_offset s + of_nat n, scratch := sf\<rparr>) \<and>
    unat (extra_offset s + of_nat n) = unat (extra_offset s) + n \<and> extra_offset s \<noteq> 0 \<and> clears (scratch s) sf"
proof -
  have u: "unat (of_nat n :: ulong) = n" using assms(4) by (intro unat_of_nat_small) simp
  have z: "(of_nat n :: ulong) \<noteq> 0" using u assms(2) by (metis unat_0 less_irrefl)
  have d: "(n + 7) div 8 * 8 = n" using assms(3) by (auto elim!: dvdE)
  obtain sf where sf: "fold (zero_step (unat (extra_offset s)) n) [0..<last_hartid_having_scratch s]
      (s\<lparr>extra_offset := extra_offset s + of_nat n\<rparr>) = s\<lparr>extra_offset := extra_offset s + of_nat n, scratch := sf\<rparr>"
    using zero_steps_scratch by blast
  have "extra (sf x) a = extra (scratch s x) a \<or> extra (sf x) a = 0" for x a
    using zero_steps_extra [of "unat (extra_offset s)" n "[0..<last_hartid_having_scratch s]"
        "s\<lparr>extra_offset := extra_offset s + of_nat n\<rparr>" x a] sf by (simp split: if_splits)
  then have c: "clears (scratch s) sf" by (simp add: clears_def)
  have e: "extra_offset s \<noteq> 0" using assms(1) by (auto simp: alloc_inv_def)
  have "sbi_scratch_alloc_offset (of_nat n) s =
      Ret (extra_offset s) (s\<lparr>extra_offset := extra_offset s + of_nat n, scratch := sf\<rparr>)"
    using alloc_offset_run [OF assms(1), of "of_nat n"] u z d sf assms(4) by simp
  then show ?thesis using alloc_inv_step [OF assms(1,4,3)] e c by (auto simp: alloc_inv_def)
qed

lemma ipi_init_cold_run:
  assumes "alloc_inv s" "unat (extra_offset s) + 8 \<le> 4096" "ipi_ops_array s = replicate SBI_IPI_EVENT_MAX None"
    "sbi_platform_ipi_init c h True = dev_run (\<lambda>d. (0, g d))"
  shows "\<exists>sf. sbi_ipi_init c h sc True s =
      Ret 0 (add_csr h CSR_MIE MIP_MSIP (scratch_wr sc (extra_offset s) 0
        (s\<lparr>extra_offset := extra_offset s + 8, scratch := sf, ipi_data_off := extra_offset s,
           ipi_ops_array := [Some ipi_smode_ops, Some ipi_halt_ops] @ replicate 62 None,
           ipi_smode_event := 0, ipi_halt_event := 1, dev := g (dev s)\<rparr>))) \<and>
    unat (extra_offset s + 8) = unat (extra_offset s) + 8"
proof -
  obtain sf where sf: "sbi_scratch_alloc_offset 8 s =
      Ret (extra_offset s) (s\<lparr>extra_offset := extra_offset s + 8, scratch := sf\<rparr>)"
    "unat (extra_offset s + 8) = unat (extra_offset s) + 8" "extra_offset s \<noteq> 0"
    using alloc_words_run [OF assms(1), of 8] assms(2) by auto
  have r: "replicate 64 None = None # None # replicate 62 None" by (simp add: numeral_eq_Suc)
  let ?s1 = "s\<lparr>extra_offset := extra_offset s + 8, scratch := sf, ipi_data_off := extra_offset s\<rparr>"
  have e1: "sbi_ipi_event_create ipi_smode_ops ?s1 =
      Ret 0 (?s1\<lparr>ipi_ops_array := Some ipi_smode_ops # None # replicate 62 None\<rparr>)"
    using event_create_run [of ?s1 0] assms(3) by (simp add: ops_ok_def r)
  let ?s2 = "?s1\<lparr>ipi_ops_array := Some ipi_smode_ops # None # replicate 62 None, ipi_smode_event := 0\<rparr>"
  have e2: "sbi_ipi_event_create ipi_halt_ops ?s2 =
      Ret 1 (?s2\<lparr>ipi_ops_array := [Some ipi_smode_ops, Some ipi_halt_ops] @ replicate 62 None\<rparr>)"
    using event_create_run [of ?s2 1] by (simp add: ops_ok_def)
  show ?thesis
    using sf e1 e2 assms(4)
    by (intro exI [of _ sf])
      (simp add: sbi_ipi_init_def run_simps dev_run_def scratch_wr_def upd_scratch_def add_csr_def upd_hart_def
        sys.equality)
qed

lemma tlb_init_cold_run:
  assumes "alloc_inv s" "unat (extra_offset s) + 480 \<le> 4096"
    "ipi_ops_array s = [Some a, Some b] @ replicate 62 None"
  shows "\<exists>sf q. sbi_tlb_init c sc True s =
      Ret 0 (set_ring sc q (scratch_wr sc (extra_offset s) 0
        (s\<lparr>extra_offset := extra_offset s + 480, scratch := sf, tlb_sync_off := extra_offset s,
           tlb_fifo_off := extra_offset s + 8, tlb_fifo_mem_off := extra_offset s + 32,
           ipi_ops_array := [Some a, Some b, Some tlb_ops] @ replicate 61 None,
           tlb_event := 2, tlb_range_flush_limit := sbi_platform_tlbr_flush_limit c\<rparr>))) \<and>
    fifo_inv q \<and> fifo_items q = [] \<and> num_entries q = SBI_TLB_FIFO_NUM_ENTRIES \<and> entry_size q = SBI_TLB_INFO_SIZE \<and>
    clears (scratch s) sf"
proof -
  obtain f1 where f1: "sbi_scratch_alloc_offset 8 s =
      Ret (extra_offset s) (s\<lparr>extra_offset := extra_offset s + 8, scratch := f1\<rparr>)"
    "alloc_inv (s\<lparr>extra_offset := extra_offset s + 8, scratch := f1\<rparr>)"
    "unat (extra_offset s + 8) = unat (extra_offset s) + 8" "extra_offset s \<noteq> 0" "clears (scratch s) f1"
    using alloc_words_run [OF assms(1), of 8] assms(2) by auto
  let ?s1 = "s\<lparr>extra_offset := extra_offset s + 8, scratch := f1, tlb_sync_off := extra_offset s\<rparr>"
  have "alloc_inv ?s1" using f1(2) by (simp add: alloc_inv_def)
  then obtain f2 where f2: "sbi_scratch_alloc_offset 24 ?s1 =
      Ret (extra_offset s + 8) (?s1\<lparr>extra_offset := extra_offset s + 32, scratch := f2\<rparr>)"
    "alloc_inv (?s1\<lparr>extra_offset := extra_offset s + 32, scratch := f2\<rparr>)"
    "unat (extra_offset s + 32) = unat (extra_offset s) + 32" "extra_offset s + 8 \<noteq> 0" "clears f1 f2"
    using alloc_words_run [of ?s1 24] assms(2) f1(3) by (auto simp: add.assoc)
  let ?s2 = "?s1\<lparr>extra_offset := extra_offset s + 32, scratch := f2, tlb_fifo_off := extra_offset s + 8\<rparr>"
  have "alloc_inv ?s2" using f2(2) by (simp add: alloc_inv_def)
  then obtain f3 where f3: "sbi_scratch_alloc_offset 448 ?s2 =
      Ret (extra_offset s + 32) (?s2\<lparr>extra_offset := extra_offset s + 480, scratch := f3\<rparr>)" "extra_offset s + 32 \<noteq> 0"
    "clears f2 f3"
    using alloc_words_run [of ?s2 448] assms(2) f2(3) by (auto simp: add.assoc)
  let ?s3 = "?s2\<lparr>extra_offset := extra_offset s + 480, scratch := f3, tlb_fifo_mem_off := extra_offset s + 32\<rparr>"
  have r: "replicate 62 None = None # replicate 61 None" by (simp add: numeral_eq_Suc)
  have e: "sbi_ipi_event_create tlb_ops ?s3 =
      Ret 2 (?s3\<lparr>ipi_ops_array := [Some a, Some b, Some tlb_ops] @ replicate 61 None\<rparr>)"
    using event_create_run [of ?s3 2] assms(3) by (simp add: ops_ok_def r less_Suc_eq numeral_2_eq_2)
  obtain q where q: "sbi_fifo_init (tlb_fifo (f3 sc)) (replicate 448 0) 8 56 = Some q"
    "fifo_inv q" "fifo_items q = []" "num_entries q = 8" "entry_size q = 56"
    using fifo_init_items [of "replicate 448 0" 8 56 "tlb_fifo (f3 sc)"] by auto
  show ?thesis
    using f1(1,4) f2(1,4) f3(1,2) e q clears_trans [OF clears_trans [OF f1(5) f2(5)] f3(3)]
    by (intro exI [of _ f3] exI [of _ q])
      (simp add: sbi_tlb_init_def run_simps set_ring_def scratch_wr_def upd_scratch_def sys.equality)
qed

section \<open>A concrete machine\<close>

text \<open>Two started harts with the state words at offset 80, the pending words at 96 and the synchronisation words at 104.\<close>

definition live_demo :: "unit sys" where
  "live_demo = tlb_demo\<lparr>hart_data_offset := 80, ipi_data_off := 96, ipi_smode_event := 0, ipi_halt_event := 1,
     tlb_event := 2, ipi_ops_array := [Some ipi_smode_ops, Some ipi_halt_ops, Some tlb_ops] @ replicate 61 None,
     scratch := (\<lambda>_. zero_scratch\<lparr>tlb_fifo := empty_ring, extra := (\<lambda>_. 0)(80 := 3)\<rparr>)\<rparr>"

lemma live_demo_area: "area_of live_demo i = (if i < 2 then Some i else None)"
  using two_harts_table(2) [of i] by (simp add: area_of_def live_demo_def tlb_demo_def)

lemma live_demo_words:
  "hsm_view live_demo i = (if i < 2 then Some 3 else None)" "ipi_pend live_demo i = (if i < 2 then Some 0 else None)"
  "tlb_flag live_demo i = (if i < 2 then Some 0 else None)" "mscratch (harts live_demo i) = i"
  "last_hartid_having_scratch live_demo = 1"
  by (simp_all add: hsm_view_def ipi_pend_def tlb_flag_def live_demo_area)
    (simp_all add: live_demo_def scratch_rd_def tlb_demo_def two_harts_def)

lemma live_demo_wf: "scratch_wf live_demo"
  using two_harts_wf by (simp add: live_demo_def tlb_demo_def scratch_wf_def)

lemma live_demo_ok: "hsm_ok live_demo" "ops_ok live_demo" "tlb_ready 0 1 live_demo"
proof -
  show h: "hsm_ok live_demo"
    using live_demo_wf by (auto simp: hsm_ok_def live_demo_words ran_def)
  show o: "ops_ok live_demo" by (simp add: ops_ok_def live_demo_def)
  have "ring_ok live_demo sc \<and> tlb_reqs live_demo sc = []" for sc
    using tlb_demo_ok(1,2) [of sc] by (simp add: live_demo_def tlb_demo_def ring_ok_def tlb_reqs_def)
  then show "tlb_ready 0 1 live_demo"
    using h o by (simp add: tlb_ready_def live_demo_words live_demo_area) (simp add: live_demo_def tlb_demo_def)
qed

lemma live_demo_targets: "ipi_targets 2 0 live_demo = {1}"
proof -
  have "(0 :: ulong) \<noteq> - 1" "bit (2 :: ulong) (Suc 0)" "\<not> bit (2 :: ulong) 0" by (simp_all add: bit_numeral_rec)
  then show ?thesis by (auto simp: ipi_targets_def live_demo_words less_2_cases_iff split: if_splits)
qed

section \<open>Properties\<close>





text \<open>
  C32: the state after a cold boot of the two components. With room in the scratch areas and no
  event registered, both initialisations succeed; the three event numbers are registered, in range
  and different; the words and the ring lie apart from each other in the scratch area; the ring of the booting hart
  is well formed and empty, its pending word and synchronisation word are 0, and software interrupts
  are enabled.
\<close>

theorem ipi_tlb_cold_boot:
  assumes "alloc_inv s" "unat (extra_offset s) + 488 \<le> 4096" "ipi_ops_array s = replicate SBI_IPI_EVENT_MAX None"
    "sbi_platform_ipi_init c h True = dev_run (\<lambda>d. (0, g d))"
  shows "\<exists>s1 s2. sbi_ipi_init c h sc True s = Ret 0 s1 \<and> sbi_tlb_init c sc True s1 = Ret 0 s2 \<and> ops_ok s2 \<and>
    ipi_ops_array s2 ! ipi_smode_event s2 = Some ipi_smode_ops \<and>
    ipi_ops_array s2 ! ipi_halt_event s2 = Some ipi_halt_ops \<and> ipi_ops_array s2 ! tlb_event s2 = Some tlb_ops \<and>
    ipi_smode_event s2 < 64 \<and> ipi_halt_event s2 < 64 \<and> tlb_event s2 < 64 \<and>
    unat (ipi_data_off s2) + 8 \<le> unat (tlb_sync_off s2) \<and> unat (tlb_sync_off s2) + 8 \<le> unat (tlb_fifo_off s2) \<and>
    unat (tlb_fifo_off s2) + 24 \<le> unat (tlb_fifo_mem_off s2) \<and> unat (tlb_fifo_mem_off s2) + 448 \<le> 4096 \<and>
    ring_ok s2 sc \<and> tlb_reqs s2 sc = [] \<and> scratch_rd sc (ipi_data_off s2) s2 = 0 \<and>
    scratch_rd sc (tlb_sync_off s2) s2 = 0 \<and> csr (harts s2 h) CSR_MIE AND MIP_MSIP = MIP_MSIP"
proof -
  obtain sf where i: "sbi_ipi_init c h sc True s =
      Ret 0 (add_csr h CSR_MIE MIP_MSIP (scratch_wr sc (extra_offset s) 0
        (s\<lparr>extra_offset := extra_offset s + 8, scratch := sf, ipi_data_off := extra_offset s,
           ipi_ops_array := [Some ipi_smode_ops, Some ipi_halt_ops] @ replicate 62 None,
           ipi_smode_event := 0, ipi_halt_event := 1, dev := g (dev s)\<rparr>)))" (is "_ = Ret 0 ?s1")
    "unat (extra_offset s + 8) = unat (extra_offset s) + 8"
    using ipi_init_cold_run [OF assms(1) _ assms(3,4)] assms(2) by fastforce
  have s1: "extra_offset ?s1 = extra_offset s + 8"
    "ipi_ops_array ?s1 = [Some ipi_smode_ops, Some ipi_halt_ops] @ replicate 62 None" "ipi_data_off ?s1 = extra_offset s"
    "ipi_smode_event ?s1 = 0" "ipi_halt_event ?s1 = 1" "csr (harts ?s1 h) CSR_MIE = csr (harts s h) CSR_MIE OR MIP_MSIP"
    by (simp_all add: add_csr_def upd_hart_def scratch_wr_def upd_scratch_def)
  have "alloc_inv ?s1"
    using assms(1,2) i(2) s1(1) by (auto simp: alloc_inv_def add_csr_def)
  moreover have "unat (extra_offset ?s1) + 480 \<le> 4096" using assms(2) i(2) s1(1) by simp
  ultimately obtain sf2 q where t: "sbi_tlb_init c sc True ?s1 =
      Ret 0 (set_ring sc q (scratch_wr sc (extra_offset s + 8) 0
        (?s1\<lparr>extra_offset := extra_offset s + 8 + 480, scratch := sf2, tlb_sync_off := extra_offset s + 8,
           tlb_fifo_off := extra_offset s + 8 + 8, tlb_fifo_mem_off := extra_offset s + 8 + 32,
           ipi_ops_array := [Some ipi_smode_ops, Some ipi_halt_ops, Some tlb_ops] @ replicate 61 None,
           tlb_event := 2, tlb_range_flush_limit := sbi_platform_tlbr_flush_limit c\<rparr>)))" (is "_ = Ret 0 ?s2")
    "fifo_inv q" "fifo_items q = []" "num_entries q = 8" "entry_size q = 56" "clears (scratch ?s1) sf2"
    using tlb_init_cold_run [OF _ _ s1(2), of c sc] s1(1) by fastforce
  have s2: "ipi_data_off ?s2 = extra_offset s" "tlb_sync_off ?s2 = extra_offset s + 8"
    "tlb_fifo_off ?s2 = extra_offset s + 8 + 8" "tlb_fifo_mem_off ?s2 = extra_offset s + 8 + 32" "tlb_event ?s2 = 2"
    "ipi_ops_array ?s2 = [Some ipi_smode_ops, Some ipi_halt_ops, Some tlb_ops] @ replicate 61 None"
    "ipi_smode_event ?s2 = 0" "ipi_halt_event ?s2 = 1" "harts ?s2 = harts ?s1"
    using s1 by (simp_all add: set_ring_def scratch_wr_def upd_scratch_def)
  have pend: "scratch_rd sc (extra_offset s) ?s2 = 0"
  proof -
    have "scratch_rd sc (extra_offset s) ?s1 = 0" by (simp add: scratch_rd_wr)
    then have "extra (sf2 sc) (unat (extra_offset s)) = 0" using t(6) by (auto simp: clears_def scratch_rd_def) metis
    then show ?thesis by (simp add: scratch_rd_wr) (simp add: scratch_rd_def)
  qed
  have mie: "csr (harts ?s2 h) CSR_MIE AND MIP_MSIP = MIP_MSIP" unfolding s2(9) s1(6) by (rule or_and_absorb)
  have sync: "scratch_rd sc (extra_offset s + 8) ?s2 = 0" by (simp add: scratch_rd_wr)
  have ring: "ring_ok ?s2 sc" "tlb_reqs ?s2 sc = []" using t by (simp_all add: ring_ok_def tlb_reqs_def)
  have offs: "unat (extra_offset s + 8 + 8) = unat (extra_offset s) + 16"
    "unat (extra_offset s + 8 + 32) = unat (extra_offset s) + 40"
    using assms(2) by (auto simp: unat_word_ariths)
  have ops: "ops_ok ?s2" unfolding ops_ok_def s2(6) by simp
  show ?thesis
    by (rule exI [of _ ?s1], rule exI [of _ ?s2])
      (intro conjI i(1) t(1) ring ops mie; insert i(2) offs pend sync assms(2); simp only: s2; simp)
qed

theorem ipi_tlb_cold_boot_witness:
  "\<exists>s1 s2. sbi_ipi_init bare_cfg 0 0 True two_harts = Ret 0 s1 \<and> sbi_tlb_init bare_cfg 0 True s1 = Ret 0 s2 \<and>
     ring_ok s2 0 \<and> tlb_reqs s2 0 = []"
proof -
  have "sbi_platform_ipi_init bare_cfg 0 True = dev_run (\<lambda>d. (0, d))"
    by (simp add: fun_eq_iff plat_wrapper_defs plat_init_op_def plat_op_def bare_cfg_def dev_run_def run_simps)
  then show ?thesis
    using ipi_tlb_cold_boot [of two_harts bare_cfg 0 "\<lambda>d. d" 0] two_harts_wf
    by (auto simp: two_harts_def zero_sys_def boot_sys_def)
qed

end
