(* ===== verification/Sbi_Timer.thy ===== *)
theory Sbi_Timer
  imports Sbi_Ipi
begin

text \<open>
  Timer events and the time counter, \<^verbatim>\<open>lib/sbi/sbi_timer.c\<close>, for 64-bit harts.

  The function pointer \<open>get_time_val\<close> is null until the initialisation chose a source, and a
  call through it is then a bad access.
\<close>

section \<open>Time\<close>

definition get_ticks_fn :: "nat \<Rightarrow> 'd sys \<Rightarrow> ('d sys, u64) outcome" where
  "get_ticks_fn h = csr_read h CSR_TIME"

definition sbi_timer_value :: "'d cfg \<Rightarrow> nat \<Rightarrow> 'd sys \<Rightarrow> ('d sys, u64) outcome" where
  "sbi_timer_value c h =
     bindM (getM get_time_val) (\<lambda>f.
       case f of no_time \<Rightarrow> haltM BadAccess | get_ticks \<Rightarrow> get_ticks_fn h
       | platform_timer_value \<Rightarrow> sbi_platform_timer_value c)"

definition sbi_timer_get_delta :: "nat \<Rightarrow> 'd sys \<Rightarrow> ('d sys, u64) outcome" where
  "sbi_timer_get_delta h =
     bindM (sbi_scratch_thishart_ptr h) (\<lambda>sc. getM (\<lambda>s. scratch_rd sc (time_delta_off s) s))"

definition sbi_timer_virt_value :: "'d cfg \<Rightarrow> nat \<Rightarrow> 'd sys \<Rightarrow> ('d sys, u64) outcome" where
  "sbi_timer_virt_value c h =
     bindM (sbi_scratch_thishart_ptr h) (\<lambda>sc.
     bindM (getM time_delta_off) (\<lambda>off.
     bindM (sbi_timer_value c h) (\<lambda>t.
     bindM (getM (scratch_rd sc off)) (\<lambda>d. retM (t + d)))))"

definition sbi_timer_set_delta :: "nat \<Rightarrow> ulong \<Rightarrow> 'd sys \<Rightarrow> ('d sys, unit) outcome" where
  "sbi_timer_set_delta h delta =
     bindM (sbi_scratch_thishart_ptr h) (\<lambda>sc. modM (\<lambda>s. scratch_wr sc (time_delta_off s) delta s))"

definition sbi_timer_set_delta_upper :: "nat \<Rightarrow> ulong \<Rightarrow> 'd sys \<Rightarrow> ('d sys, unit) outcome" where
  "sbi_timer_set_delta_upper h delta_upper =
     bindM (sbi_scratch_thishart_ptr h) (\<lambda>sc.
     seqM (modM (\<lambda>s. scratch_wr sc (time_delta_off s) (scratch_rd sc (time_delta_off s) s AND 0xffffffff) s))
          (modM (\<lambda>s. scratch_wr sc (time_delta_off s)
             (scratch_rd sc (time_delta_off s) s OR shl delta_upper 32) s)))"

section \<open>Events\<close>

definition sbi_timer_event_start :: "'d cfg \<Rightarrow> nat \<Rightarrow> u64 \<Rightarrow> 'd sys \<Rightarrow> ('d sys, unit) outcome" where
  "sbi_timer_event_start c h next_event =
     seqM (sbi_platform_timer_event_start c h next_event)
    (seqM (csr_clear h CSR_MIP MIP_STIP)
          (csr_set h CSR_MIE MIP_MTIP))"

definition sbi_timer_process :: "nat \<Rightarrow> 'd sys \<Rightarrow> ('d sys, unit) outcome" where
  "sbi_timer_process h = seqM (csr_clear h CSR_MIE MIP_MTIP) (csr_set h CSR_MIP MIP_STIP)"

section \<open>Initialisation and exit\<close>

definition sbi_timer_init :: "'d cfg \<Rightarrow> nat \<Rightarrow> nat \<Rightarrow> bool \<Rightarrow> 'd sys \<Rightarrow> ('d sys, int) outcome" where
  "sbi_timer_init c h sc cold_boot =
     seqM
       (whenM cold_boot
          (bindM (sbi_scratch_alloc_offset 8) (\<lambda>off. modM (\<lambda>s. s\<lparr>time_delta_off := off\<rparr>))))
    (bindM (getM time_delta_off) (\<lambda>off.
       if off = 0 then retM SBI_ENOMEM
       else
         seqM (modM (scratch_wr sc off 0))
        (bindM (sbi_platform_timer_init c h cold_boot) (\<lambda>ret.
           if ret \<noteq> 0 then retM ret
           else
             bindM (sbi_hart_has_feature sc SBI_HART_HAS_TIME) (\<lambda>b.
               if b then seqM (modM (\<lambda>s. s\<lparr>get_time_val := get_ticks\<rparr>)) (retM 0)
               else if sbi_platform_has_timer_value c
               then seqM (modM (\<lambda>s. s\<lparr>get_time_val := platform_timer_value\<rparr>)) (retM 0)
               else retM SBI_ENODEV)))))"

definition sbi_timer_exit :: "'d cfg \<Rightarrow> nat \<Rightarrow> 'd sys \<Rightarrow> ('d sys, unit) outcome" where
  "sbi_timer_exit c h =
     seqM (sbi_platform_timer_event_stop c h)
    (seqM (csr_clear h CSR_MIP MIP_STIP)
    (seqM (csr_clear h CSR_MIE MIP_MTIP)
          (sbi_platform_timer_exit c h)))"

section \<open>Properties of the time offset\<close>

lemma virt_value_run:
  assumes "get_time_val s = get_ticks"
  shows "sbi_timer_virt_value c h s =
    Ret (csr (harts s h) CSR_TIME + scratch_rd (mscratch (harts s h)) (time_delta_off s) s) s"
  using assms by (simp add: sbi_timer_virt_value_def sbi_timer_value_def get_ticks_fn_def run_simps)

end
