(* ===== verification/Sbi_Exit.thy ===== *)
theory Sbi_Exit
  imports Sbi_Timer
begin

text \<open>
  Leaving the firmware: \<open>sbi_exit\<close> of \<^verbatim>\<open>lib/sbi/sbi_init.c\<close> and \<open>sbi_system_reset\<close> of
  \<^verbatim>\<open>lib/sbi/sbi_system.c\<close>.

  \<open>sbi_exit\<close> processes the pending events of the hart, a halt event stops the hart, and stopping
  the hart calls \<open>sbi_exit\<close>. The recursion is written with a depth: \<open>sbi_exit_n n\<close> allows \<open>n\<close> nested
  calls. A hart that is being stopped is no longer started, so that a nested call cannot stop it again:
  depth 2 is always enough, which is one of the properties.
\<close>

section \<open>Definitions\<close>

definition exit_body :: "'d cfg \<Rightarrow> nat \<Rightarrow> (nat \<Rightarrow> 'd sys \<Rightarrow> ('d sys, unit) outcome) \<Rightarrow> nat \<Rightarrow>
    'd sys \<Rightarrow> ('d sys, unit) outcome" where
  "exit_body c h nested sc =
     (if sbi_platform_hart_invalid c h then sbi_hart_hang
      else
        seqM (sbi_platform_early_exit c h)
       (seqM (sbi_timer_exit c h)
       (seqM (sbi_ipi_exit c h nested)
       (seqM (sbi_platform_irqchip_exit c h)
       (seqM (sbi_platform_final_exit c h)
             (sbi_hsm_exit c h sc))))))"

primrec sbi_exit_n :: "nat \<Rightarrow> 'd cfg \<Rightarrow> nat \<Rightarrow> nat \<Rightarrow> 'd sys \<Rightarrow> ('d sys, unit) outcome" where
  "sbi_exit_n 0 c h sc = haltM Spin"
| "sbi_exit_n (Suc n) c h sc = exit_body c h (sbi_exit_n n c h) sc"

definition sbi_exit :: "'d cfg \<Rightarrow> nat \<Rightarrow> nat \<Rightarrow> 'd sys \<Rightarrow> ('d sys, unit) outcome" where
  "sbi_exit c h sc = sbi_exit_n 2 c h sc"

text \<open>The shift amount is taken modulo 64, as the machine instruction does.\<close>

fun reset_halt_loop :: "'d cfg \<Rightarrow> nat \<Rightarrow> ulong \<Rightarrow> nat \<Rightarrow> 'd sys \<Rightarrow> ('d sys, unit) outcome" where
  "reset_halt_loop c h hbase 0 = haltM Spin"
| "reset_halt_loop c h hbase (Suc n) =
     bindM (sbi_hsm_hart_started_mask hbase) (\<lambda>(rc, hmask).
       if rc \<noteq> 0 then retM ()
       else
         (let hmask = (if unat hbase \<le> h then hmask AND NOT (shl 1 ((h - unat hbase) mod 64)) else hmask) in
          seqM (whenM (hmask \<noteq> 0) (bindM (sbi_ipi_send_halt c h hmask hbase) (\<lambda>_. retM ())))
               (reset_halt_loop c h (hbase + 64) n)))"

definition sbi_system_reset :: "'d cfg \<Rightarrow> nat \<Rightarrow> u32 \<Rightarrow> 'd sys \<Rightarrow> ('d sys, unit) outcome" where
  "sbi_system_reset c h platform_reset_type =
     bindM (sbi_scratch_thishart_ptr h) (\<lambda>sc.
     seqM (reset_halt_loop c h 0 (fuel c))
    (bindM (sbi_hsm_hart_stop c h (sbi_exit c h) sc False) (\<lambda>_.
     bindM (sbi_platform_system_reset c platform_reset_type) (\<lambda>_.
       sbi_exit c h sc))))"

lemma upd_hart_globals [simp]:
  "ipi_data_off (upd_hart h f s) = ipi_data_off s" "hart_data_offset (upd_hart h f s) = hart_data_offset s"
  "tlb_sync_off (upd_hart h f s) = tlb_sync_off s" "scratch_rd sc off (upd_hart h f s) = scratch_rd sc off s"
  "area_of (upd_hart h f s) = area_of s" "ipi_ops_array (upd_hart h f s) = ipi_ops_array s"
  by (simp_all add: upd_hart_def scratch_rd_def area_of_def fun_eq_iff)

lemma warmboot_addr_wr [simp]: "warmboot_addr (scratch (scratch_wr sc off v s) sc') = warmboot_addr (scratch s sc')"
  by (simp add: scratch_wr_def)

section \<open>What the code leaves to the hart itself\<close>

text \<open>The words at the three offsets are different words of a scratch area.\<close>

definition offs_ok :: "'d sys \<Rightarrow> bool" where
  "offs_ok s \<longleftrightarrow> hart_data_offset s \<noteq> ipi_data_off s \<and> hart_data_offset s \<noteq> tlb_sync_off s"

text \<open>The hart stays in the same state, with the same scratch area.\<close>

definition own_rel :: "nat \<Rightarrow> 'd sys \<Rightarrow> 'd sys \<Rightarrow> bool" where
  "own_rel h s s' \<longleftrightarrow> (offs_ok s \<longrightarrow> offs_ok s' \<and> hsm_view s' h = hsm_view s h \<and> hart_data_offset s' = hart_data_offset s \<and>
     ipi_data_off s' = ipi_data_off s \<and> tlb_sync_off s' = tlb_sync_off s \<and>
     hartid_to_scratch_table s' = hartid_to_scratch_table s \<and> mscratch (harts s' h) = mscratch (harts s h))"

interpretation ownf: frame "own_rel h" for h
  by unfold_locales (auto simp: own_rel_def)

lemma own_dev: "dev_rel s s' \<Longrightarrow> own_rel h s s'"
  by (auto simp: dev_rel_def own_rel_def offs_ok_def hsm_view_def)

lemma own_keeps_dev: "devf.keeps m \<Longrightarrow> ownf.keeps h m"
  using own_dev by (auto simp: devf.keeps_def ownf.keeps_def)

lemma own_upd_hart:
  "(\<And>t. mscratch (f t) = mscratch t) \<Longrightarrow> own_rel h s (upd_hart i f s)"
  by (simp add: own_rel_def offs_ok_def hsm_view_def)

lemma own_scratch_wr:
  "off = ipi_data_off s \<or> off = tlb_sync_off s \<Longrightarrow> own_rel h s (scratch_wr sc off v s)"
  by (auto simp: own_rel_def offs_ok_def hsm_view_def scratch_rd_wr)

lemma own_upd_scratch:
  assumes "\<And>t. extra (f t) = extra t"
  shows "own_rel h s (upd_scratch sc f s)"
proof -
  have "scratch_rd x off (upd_scratch sc f s) = scratch_rd x off s" for x off
    by (simp add: scratch_rd_def assms)
  then show ?thesis
    by (simp add: own_rel_def offs_ok_def hsm_view_def area_of_def) (simp add: upd_scratch_def)
qed

lemma own_keeps_csr:
  "ownf.keeps h (csr_read i n)" "ownf.keeps h (csr_write i n v)" "ownf.keeps h (csr_set i n v)"
  "ownf.keeps h (csr_clear i n v)" "ownf.keeps h (csr_swap i n v)"
  unfolding csr_read_def csr_write_def csr_set_def csr_clear_def csr_swap_def
  by (intro ownf.keeps_rules ownf.keeps_mod own_upd_hart; simp)+

lemma own_keeps_plat: "ownf.keeps h (plat_void_op c sel x)"
  by (intro own_keeps_dev keeps_plat_void_op)

lemma own_keeps_timer_exit: "ownf.keeps h (sbi_timer_exit c i)"
  unfolding sbi_timer_exit_def plat_wrapper_defs by (intro ownf.keeps_rules own_keeps_csr own_keeps_plat)

lemma own_keeps_fence: "ownf.keeps h (emit_fence i f)"
  unfolding emit_fence_def by (intro ownf.keeps_mod own_upd_hart) simp

lemma own_keeps_flush_pages: "ownf.keeps h (flush_pages i st sz f)"
  unfolding flush_pages_def by (intro ownf.keeps_rules own_keeps_fence)

lemma own_keeps_local_flush: "ownf.keeps h (sbi_tlb_local_flush c i t)"
  unfolding flush_defs
  by (intro ownf.keeps_rules own_keeps_fence own_keeps_flush_pages own_keeps_csr own_keeps_dev keeps_printfM)

text \<open>While a hart waits, the others leave its state alone.\<close>

definition interf_ok :: "'d cfg \<Rightarrow> nat \<Rightarrow> bool" where
  "interf_ok c h \<longleftrightarrow> (\<forall>s. own_rel h s (interf c h s))"

lemma own_sync_set_loop:
  assumes "interf_ok c h" "off = tlb_sync_off s" "offs_ok s"
  shows "own_rel h s (final (sync_set_loop c h rsc off n s))"
  using assms(2,3)
proof (induction n arbitrary: s)
  case 0
  then show ?case by (simp add: run_simps ownf.R_refl)
next
  case (Suc n)
  let ?x = "scratch_wr rsc off 1 s"
  have x: "own_rel h s ?x" using Suc.prems by (intro own_scratch_wr) simp
  have i: "own_rel h ?x (interf c h ?x)" using assms(1) by (simp add: interf_ok_def)
  have "offs_ok ?x" "tlb_sync_off ?x = off" using x Suc.prems by (simp_all add: own_rel_def)
  then have "offs_ok (interf c h ?x)" "off = tlb_sync_off (interf c h ?x)" using i by (simp_all add: own_rel_def)
  from Suc.IH [OF this(2,1)] have "own_rel h s (final (sync_set_loop c h rsc off n (interf c h ?x)))"
    using x i ownf.R_trans by blast
  then show ?case using x by (simp add: run_simps)
qed

lemma own_keeps_entry_process:
  assumes "interf_ok c h"
  shows "ownf.keeps h (sbi_tlb_entry_process c h t)"
proof -
  have l: "ownf.keeps h (bindM (getM tlb_sync_off) (\<lambda>off. sync_set_loop c h rsc off (fuel c)))" for rsc
    unfolding ownf.keeps_def
  proof
    fix s :: "'a sys"
    show "own_rel h s (final (bindM (getM tlb_sync_off) (\<lambda>off. sync_set_loop c h rsc off (fuel c)) s))"
      using own_sync_set_loop [OF assms refl, of s rsc] by (cases "offs_ok s") (simp_all add: run_simps own_rel_def)
  qed
  have "ownf.keeps h (sbi_hartid_to_scratch i)" for i
    unfolding sbi_hartid_to_scratch_def by (intro ownf.keeps_rules)
  then show ?thesis
    unfolding sbi_tlb_entry_process_def by (intro ownf.keeps_rules own_keeps_local_flush l)
qed

lemma own_keeps_tlb_process:
  assumes "interf_ok c h"
  shows "ownf.keeps h (sbi_tlb_process c h sc)"
proof -
  have d: "ownf.keeps h (tlb_dequeue sc)"
    unfolding tlb_dequeue_def by (intro ownf.keeps_rules ownf.keeps_mod own_upd_scratch) simp
  have "ownf.keeps h (process_loop c h sc n (haltM Spin))" for n
    by (induction n) (auto intro!: ownf.keeps_rules d own_keeps_entry_process [OF assms])
  then show ?thesis unfolding sbi_tlb_process_def .
qed

section \<open>Stopping twice\<close>

text \<open>A hart with scratch area \<open>sc\<close>, in one of the four states.\<close>

definition home :: "nat \<Rightarrow> nat \<Rightarrow> 'd sys \<Rightarrow> bool" where
  "home h sc s \<longleftrightarrow> area_of s h = Some sc \<and> mscratch (harts s h) = sc \<and> offs_ok s \<and>
     length (hartid_to_scratch_table s) = SBI_HARTMASK_MAX_BITS \<and> (\<exists>w\<in>{0, 1, 2, 3}. hsm_view s h = Some w)"

lemma home_own: "own_rel h s s' \<Longrightarrow> home h sc s \<Longrightarrow> home h sc s'"
  by (auto simp: own_rel_def home_def area_of_def split: if_splits)

lemma stop_idle:
  assumes "home h sc s" "hsm_view s h \<noteq> Some SBI_HART_STARTED"
  shows "sbi_hsm_hart_stop c h nested sc b s = Ret SBI_EINVAL s"
proof -
  have "area_of s h = Some sc" "h < 128" "length (hartid_to_scratch_table s) = 128"
    using assms(1) by (auto simp: home_def area_of_def split: if_splits)
  moreover have "scratch_rd sc (hart_data_offset s) s \<in> {0, 1, 2}"
    using assms calculation(1) by (auto simp: home_def hsm_view_def)
  ultimately show ?thesis
    by (auto simp: sbi_hsm_hart_stop_def sbi_hsm_hart_started_def sbi_hsm_hart_get_state_def atomic_defs run_simps
        area_of_def to_int_def split: if_splits)
qed

lemma stop_started:
  assumes "home h sc s" "hsm_view s h = Some SBI_HART_STARTED"
  shows "sbi_hsm_hart_stop c h nested sc True s =
    (case nested sc (scratch_wr sc (hart_data_offset s) SBI_HART_STOPPING s) of
       Ret _ s' \<Rightarrow> Ret 0 s' | Halt r s' \<Rightarrow> Halt r s')"
proof -
  have "area_of s h = Some sc" "h < 128" "length (hartid_to_scratch_table s) = 128"
    using assms(1) by (auto simp: home_def area_of_def split: if_splits)
  moreover have "scratch_rd sc (hart_data_offset s) s = 3"
    using assms(2) calculation(1) by (auto simp: hsm_view_def)
  ultimately show ?thesis
    by (simp add: sbi_hsm_hart_stop_def sbi_hsm_hart_started_def sbi_hsm_hart_get_state_def atomic_defs run_simps
        area_of_def to_int_def split: outcome.split)
qed

lemma home_stopping:
  assumes "home h sc s"
  shows "home h sc (scratch_wr sc (hart_data_offset s) SBI_HART_STOPPING s)"
    "hsm_view (scratch_wr sc (hart_data_offset s) SBI_HART_STOPPING s) h = Some SBI_HART_STOPPING"
  using assms by (auto simp: home_def offs_ok_def hsm_view_def scratch_rd_wr)

lemma one_neq_3: "(1 :: ulong) \<noteq> 3"
  by simp

text \<open>Two nested exits that do the same to a hart that is not started.\<close>

definition same_idle :: "nat \<Rightarrow> nat \<Rightarrow> (nat \<Rightarrow> 'd sys \<Rightarrow> ('d sys, unit) outcome) \<Rightarrow>
    (nat \<Rightarrow> 'd sys \<Rightarrow> ('d sys, unit) outcome) \<Rightarrow> bool" where
  "same_idle h sc x y \<longleftrightarrow> (\<forall>s. home h sc s \<longrightarrow> hsm_view s h \<noteq> Some SBI_HART_STARTED \<longrightarrow>
     x sc s = y sc s \<and> (\<exists>r s'. x sc s = Halt r s'))"

lemma dispatch_same:
  assumes "home h sc s" "interf_ok c h" "hsm_view s h \<noteq> Some SBI_HART_STARTED \<or> same_idle h sc x y"
  shows "ipi_dispatch c h x sc ev s = ipi_dispatch c h y sc ev s \<and>
    (\<forall>s'. ipi_dispatch c h x sc ev s = Ret () s' \<longrightarrow> own_rel h s s')"
proof -
  have halt: "sbi_ipi_process_halt c h x sc s = sbi_ipi_process_halt c h y sc s \<and>
      (\<forall>s'. sbi_ipi_process_halt c h x sc s = Ret () s' \<longrightarrow> own_rel h s s')"
  proof (cases "hsm_view s h = Some SBI_HART_STARTED")
    case True
    let ?s = "scratch_wr sc (hart_data_offset s) SBI_HART_STOPPING s"
    have "x sc ?s = y sc ?s \<and> (\<exists>r s'. x sc ?s = Halt r s')"
      using assms(3) True home_stopping [OF assms(1)] unfolding same_idle_def by (metis one_neq_3 option.inject)
    then obtain r u where "x sc ?s = Halt r u" "y sc ?s = Halt r u" by metis
    then show ?thesis
      using stop_started [OF assms(1) True, of c x] stop_started [OF assms(1) True, of c y]
      by (simp add: sbi_ipi_process_halt_def run_simps)
  next
    case False
    then show ?thesis
      using stop_idle [OF assms(1) False, of c] by (simp add: sbi_ipi_process_halt_def run_simps ownf.R_refl)
  qed
  have "own_rel h s s'" if "sbi_ipi_process_smode h s = Ret () s'" for s'
    using ownf.keeps_Ret [OF own_keeps_csr(3)] that by (simp add: sbi_ipi_process_smode_def)
  moreover have "own_rel h s s'" if "sbi_tlb_process c h sc s = Ret () s'" for s'
    using ownf.keeps_Ret [OF own_keeps_tlb_process [OF assms(2)]] that by simp
  ultimately show ?thesis
    using halt
    by (auto simp: ipi_dispatch_def ipi_handle_def run_simps ownf.R_refl
        split: option.splits sbi_ipi_event_ops.splits)
qed

lemma dispatch_all_same:
  assumes "home h sc s" "interf_ok c h" "hsm_view s h \<noteq> Some SBI_HART_STARTED \<or> same_idle h sc x y"
  shows "forM evs (ipi_dispatch c h x sc) s = forM evs (ipi_dispatch c h y sc) s"
  using assms(1,3)
proof (induction evs arbitrary: s)
  case (Cons ev evs)
  note d = dispatch_same [OF Cons.prems(1) assms(2) Cons.prems(2), of ev]
  show ?case
  proof (cases "ipi_dispatch c h x sc ev s")
    case (Ret u s')
    then have "own_rel h s s'" using d by simp
    then have "home h sc s'" "hsm_view s' h = hsm_view s h"
      using home_own Cons.prems(1) by (auto simp: own_rel_def home_def)
    then have "forM evs (ipi_dispatch c h x sc) s' = forM evs (ipi_dispatch c h y sc) s'"
      using Cons.IH Cons.prems(2) by simp
    then show ?thesis using Ret d by (simp add: run_simps)
  next
    case (Halt r s')
    then show ?thesis using d by (simp add: run_simps)
  qed
qed simp

section \<open>The exit sequence\<close>

definition exit_prefix :: "'d cfg \<Rightarrow> nat \<Rightarrow> 'd sys \<Rightarrow> ('d sys, unit) outcome" where
  "exit_prefix c h = seqM (sbi_platform_early_exit c h) (seqM (sbi_timer_exit c h) (csr_clear h CSR_MIE MIP_MSIP))"

definition exit_suffix :: "'d cfg \<Rightarrow> nat \<Rightarrow> nat \<Rightarrow> 'd sys \<Rightarrow> ('d sys, unit) outcome" where
  "exit_suffix c h sc =
     seqM (sbi_platform_ipi_exit c h)
    (seqM (sbi_platform_irqchip_exit c h) (seqM (sbi_platform_final_exit c h) (sbi_hsm_exit c h sc)))"

lemma exit_prefix_run: "\<exists>s'. exit_prefix c h s = Ret () s' \<and> own_rel h s s'"
proof -
  have k: "ownf.keeps h (exit_prefix c h)"
    unfolding exit_prefix_def plat_wrapper_defs
    by (intro ownf.keeps_rules own_keeps_timer_exit own_keeps_csr own_keeps_plat)
  have "\<exists>s'. exit_prefix c h s = Ret () s'"
    by (simp add: exit_prefix_def sbi_timer_exit_def plat_wrapper_defs run_simps)
  then show ?thesis using ownf.keeps_Ret [OF k] by blast
qed

lemma exit_body_split:
  assumes "\<not> sbi_platform_hart_invalid c h" "exit_prefix c h s = Ret () s1"
  shows "exit_body c h nested sc s =
    (case sbi_ipi_process c h nested s1 of Ret _ s2 \<Rightarrow> exit_suffix c h sc s2 | Halt r s2 \<Rightarrow> Halt r s2)"
proof -
  have "exit_body c h nested sc =
      seqM (exit_prefix c h) (seqM (sbi_ipi_process c h nested) (exit_suffix c h sc))"
    using assms(1)
    by (auto simp: exit_body_def exit_prefix_def exit_suffix_def sbi_ipi_exit_def fun_eq_iff run_simps split: outcome.splits)
  then show ?thesis using assms(2) by (simp add: run_simps)
qed

lemma exit_unfold: "sbi_exit c h sc = exit_body c h (sbi_exit_n 1 c h) sc"
  by (simp add: sbi_exit_def numeral_2_eq_2 del: sbi_exit_n.simps(2)) (simp only: sbi_exit_n.simps One_nat_def)

lemma hsm_exit_no_return: "\<exists>r s'. sbi_hsm_exit c h sc s = Halt r s'"
  by (auto simp: sbi_hsm_exit_def hsm_exit_tail_def run_simps Let_def atomic_defs sbi_hart_hang_def
      split: outcome.splits)

lemma exit_no_return: "\<exists>r s'. sbi_exit_n n c h sc s = Halt r s'"
proof (cases n)
  case (Suc m)
  obtain s1 where "exit_prefix c h s = Ret () s1" using exit_prefix_run by blast
  then show ?thesis
    using exit_body_split [of c h s s1 "sbi_exit_n m c h" sc] hsm_exit_no_return [of c h sc]
    by (cases "sbi_platform_hart_invalid c h")
      (auto simp: Suc exit_body_def sbi_hart_hang_def exit_suffix_def plat_wrapper_defs run_simps split: outcome.splits)
qed (simp add: run_simps)

lemma exit_body_same:
  assumes "home h sc s" "interf_ok c h" "hsm_view s h \<noteq> Some SBI_HART_STARTED \<or> same_idle h sc x y"
  shows "exit_body c h x sc s = exit_body c h y sc s"
proof (cases "sbi_platform_hart_invalid c h")
  case False
  obtain s1 where s1: "exit_prefix c h s = Ret () s1" "own_rel h s s1" using exit_prefix_run by blast
  have "own_rel h s (taken c h s1)"
  proof -
    have "own_rel h s1 (taken c h s1)"
      unfolding taken_def
      by (intro ownf.R_trans [OF own_dev own_scratch_wr]) simp_all
    then show ?thesis using s1(2) ownf.R_trans by blast
  qed
  then have t: "home h sc (taken c h s1)" "hsm_view (taken c h s1) h = hsm_view s h"
    using home_own [OF _ assms(1)] assms(1) by (auto simp: own_rel_def home_def)
  have "mscratch (harts s1 h) = sc" using home_own [OF s1(2) assms(1)] by (simp add: home_def)
  then have "sbi_ipi_process c h x s1 = sbi_ipi_process c h y s1"
    unfolding ipi_process_run using dispatch_all_same [OF t(1) assms(2)] assms(3) t(2) by simp
  then show ?thesis using exit_body_split [OF False s1(1)] by simp
qed (simp add: exit_body_def)

text \<open>A hart that is being stopped, with nothing pending, goes through the exit sequence once.\<close>

lemma exit_body_run:
  assumes "area_of s h = Some sc" "mscratch (harts s h) = sc" "scratch_rd sc (hart_data_offset s) s = SBI_HART_STOPPING"
    "hart_data_offset s \<noteq> ipi_data_off s" "\<not> sbi_platform_hart_invalid c h" "\<not> sbi_platform_has_hart_hotplug c"
    "scratch_rd sc (ipi_data_off s) s = 0"
  shows "\<exists>s'. exit_body c h nested sc s = Halt (Jump (warmboot_addr (scratch s sc))) s' \<and> hsm_view s' h = Some SBI_HART_STOPPED \<and>
    dev s' = plat_void_eff c final_exit h (plat_void_eff c irqchip_exit h (plat_void_eff c ipi_exit h
      (plat_void_eff c ipi_clear h (plat_void_eff c timer_exit h (plat_void_eff c timer_event_stop h
        (plat_void_eff c early_exit h (dev s))))))) \<and>
    csr (harts s' h) CSR_MIE = (csr (harts s h) CSR_MIE AND NOT MIP_MTIP) AND NOT MIP_MSIP \<and>
    csr (harts s' h) CSR_MIP = csr (harts s h) CSR_MIP AND NOT MIP_STIP \<and>
    area_of s' = area_of s \<and> ipi_data_off s' = ipi_data_off s \<and> (\<forall>x off. x \<noteq> sc \<longrightarrow> scratch_rd x off s' = scratch_rd x off s)"
proof -
  have z: "shift_bits 0 0 = []" by (simp add: shift_bits.simps)
  show ?thesis
    using assms z
    by (simp add: exit_body_def sbi_timer_exit_def sbi_ipi_exit_def plat_wrapper_defs ipi_process_run taken_def run_simps
        sbi_hsm_exit_def hsm_exit_tail_def atomic_cmpxchg_def scratch_rd_wr hsm_view_def Let_def)
qed

text \<open>A started hart that finds nothing but a halt event pending is marked as stopping and leaves through the nested exit.\<close>

lemma exit_body_halted:
  assumes "area_of s h = Some sc" "mscratch (harts s h) = sc" "scratch_rd sc (hart_data_offset s) s = SBI_HART_STARTED"
    "length (hartid_to_scratch_table s) = SBI_HARTMASK_MAX_BITS" "hart_data_offset s \<noteq> ipi_data_off s" "\<not> sbi_platform_hart_invalid c h"
    "scratch_rd sc (ipi_data_off s) s = shl 1 ev" "ev < 64" "rd (ipi_ops_array s) ev = Some (Some ipi_halt_ops)"
    "\<And>t. \<exists>r t'. nested sc t = Halt r t'"
  shows "\<exists>t. exit_body c h nested sc s = nested sc t \<and> area_of t h = Some sc \<and> mscratch (harts t h) = sc \<and>
    scratch_rd sc (hart_data_offset t) t = SBI_HART_STOPPING \<and> hart_data_offset t \<noteq> ipi_data_off t \<and>
    scratch_rd sc (ipi_data_off t) t = 0 \<and> warmboot_addr (scratch t sc) = warmboot_addr (scratch s sc)"
proof -
  have h: "h < 128" "hartid_to_scratch_table s ! h = Some sc" using assms(1) by (auto simp: area_of_def split: if_splits)
  obtain s1 where p: "exit_prefix c h s = Ret () s1" and s1: "area_of s1 = area_of s" "mscratch (harts s1 h) = sc"
    "scratch s1 = scratch s" "hartid_to_scratch_table s1 = hartid_to_scratch_table s" "ipi_ops_array s1 = ipi_ops_array s"
    "hart_data_offset s1 = hart_data_offset s" "ipi_data_off s1 = ipi_data_off s"
    using assms(2) by (auto simp: exit_prefix_def sbi_timer_exit_def plat_wrapper_defs run_simps upd_hart_def area_of_def fun_eq_iff)
  have r: "scratch_rd x off s1 = scratch_rd x off s" for x off by (simp add: scratch_rd_def s1(3))
  define t where "t = scratch_wr sc (hart_data_offset s) SBI_HART_STOPPING (taken c h s1)"
  obtain q u where q: "nested sc t = Halt q u" using assms(10) by blast
  have "sbi_ipi_process c h nested s1 = Halt q u"
    using assms(1-9) h s1 r q
    by (simp add: ipi_process_run single_bit_list ipi_dispatch_def ipi_handle_def run_simps sbi_ipi_process_halt_def
        sbi_hsm_hart_stop_def sbi_hsm_hart_started_def sbi_hsm_hart_get_state_def atomic_defs to_int_def scratch_rd_wr t_def taken_def)
  then have "exit_body c h nested sc s = nested sc t" using exit_body_split [OF assms(6) p] q by simp
  then show ?thesis using assms(1,5) s1
    by (intro exI [of _ t]) (simp add: t_def taken_def scratch_rd_wr)
qed

section \<open>Halting the other harts\<close>

lemma send_halt_run:
  assumes "hsm_ok s" "ops_ok s" "ipi_halt_event s < SBI_IPI_EVENT_MAX" "ipi_ops_array s ! ipi_halt_event s = Some ipi_halt_ops"
    "hart_data_offset s \<noteq> ipi_data_off s" "2 < fuel c" "last_hartid_having_scratch s < 64"
  shows "\<exists>is r. sbi_ipi_send_halt c h hmask 0 s = Ret r (fold (post c (ipi_halt_event s)) is s) \<and>
    set is = ipi_targets hmask 0 s"
  using send_many_run [OF assms(1-4) _ assms(5-7), of h hmask 0]
  by (auto simp: sbi_ipi_send_halt_def run_simps)

lemma bit_not_shl_one: "i < 64 \<Longrightarrow> bit (m AND NOT (shl 1 h)) i \<longleftrightarrow> bit (m :: ulong) i \<and> i \<noteq> h"
  by (auto simp: bit_and_iff bit_not_iff bit_shl bit_1_iff)

lemma reset_loop_run:
  assumes "hsm_ok s" "ops_ok s" "ipi_halt_event s < SBI_IPI_EVENT_MAX" "ipi_ops_array s ! ipi_halt_event s = Some ipi_halt_ops"
    "hart_data_offset s \<noteq> ipi_data_off s" "2 < fuel c" "last_hartid_having_scratch s < 64" "h < 64"
  shows "\<exists>is. reset_halt_loop c h 0 (fuel c) s = Ret () (fold (post c (ipi_halt_event s)) is s) \<and>
    set is = {i. i \<noteq> h \<and> hsm_view s i = Some SBI_HART_STARTED}"
proof -
  obtain n where n: "fuel c = Suc (Suc n)" using assms(6) by (cases "fuel c"; cases "fuel c - 1") auto
  have wf: "scratch_wf s" using assms(1) by (simp add: hsm_ok_def)
  note last = hsm_view_last [OF wf]
  obtain m where m: "sbi_hsm_hart_started_mask 0 s = Ret (0, m) s"
    "\<forall>j<64. bit m j \<longleftrightarrow> hsm_view s j = Some 3"
    using started_mask_run [OF assms(1), of 0] assms(7) by auto
  let ?m = "m AND NOT (shl 1 h)"
  have tg: "ipi_targets ?m 0 s = {i. i \<noteq> h \<and> hsm_view s i = Some 3}"
    using m(2) last assms(7) by (fastforce simp: ipi_targets_def bit_not_shl_one)
  have rest: "reset_halt_loop c h 64 (Suc n) t = Ret () t"
    if "hsm_ok t" "last_hartid_having_scratch t < 64" for t
    using started_mask_run [OF that(1), of 64] that(2) by (simp add: run_simps)
  show ?thesis
  proof (cases "?m = 0")
    case True
    then have "{i. i \<noteq> h \<and> hsm_view s i = Some 3} = {}" using tg by (auto simp: ipi_targets_def)
    then show ?thesis
      using True m(1) n rest [OF assms(1,7)] assms(8)
      by (intro exI [of _ "[]"]) (simp add: run_simps Let_def)
  next
    case False
    obtain "is" r where vis: "sbi_ipi_send_halt c h ?m 0 s = Ret r (fold (post c (ipi_halt_event s)) is s)"
      "set is = ipi_targets ?m 0 s" using send_halt_run [OF assms(1-7)] by blast
    note fr = posts_hsm [OF assms(1,5), of c "ipi_halt_event s" "is"]
    show ?thesis
      using False m(1) n vis tg rest [of "fold (post c (ipi_halt_event s)) is s"] fr assms(7,8)
      by (intro exI [of _ "is"]) (simp add: run_simps Let_def)
  qed
qed

section \<open>Properties\<close>

text \<open>A platform with two harts that can reset the system.\<close>

definition reset_ops :: "unit sbi_platform_operations" where
  "reset_ops = \<lparr>early_init = None, final_init = None, early_exit = None, final_exit = None, misa_check_extension = None,
     misa_get_xlen = None, pmp_region_count = None, pmp_region_info = None, console_putc = None, console_getc = None,
     console_init = None, irqchip_init = None, irqchip_exit = None, ipi_send = None, ipi_clear = None, ipi_init = None,
     ipi_exit = None, get_tlbr_flush_limit = None, timer_value = None, timer_event_start = None,
     timer_event_stop = None, timer_init = None, timer_exit = None, hart_start = None, hart_stop = None,
     system_reset = Some (\<lambda>_ d. (None, d)), vendor_ext_check = None, vendor_ext_provider = None\<rparr>"

definition reset_cfg :: "unit cfg" where
  "reset_cfg = bare_cfg\<lparr>plat := Some \<lparr>opensbi_version = 0, platform_version = 0, plat_name = [], plat_features = 0,
     hart_count = 2, hart_stack_size = 0, hart_index2id = None, plat_ops = reset_ops\<rparr>\<rparr>"

text \<open>A hart that is being stopped, and a started one that finds a halt event pending.\<close>

definition exit_demo :: "unit sys" where
  "exit_demo = live_demo\<lparr>scratch := (\<lambda>_. zero_scratch\<lparr>extra := (\<lambda>_. 0)(80 := 1), warmboot_addr := 0x80000000\<rparr>)\<rparr>"

definition halted_demo :: "unit sys" where
  "halted_demo = live_demo\<lparr>scratch := (\<lambda>_. zero_scratch\<lparr>extra := (\<lambda>_. 0)(80 := 3, 96 := 2), warmboot_addr := 0x80000000\<rparr>)\<rparr>"

lemma reset_cfg_simps:
  "sbi_platform_hart_invalid reset_cfg 0 = False" "sbi_platform_has_hart_hotplug reset_cfg = False"
  by (simp_all add: sbi_platform_hart_invalid_def sbi_platform_hart_index_def reset_cfg_def
      sbi_platform_has_hart_hotplug_def sbi_platform_get_features_def)

text \<open>
  C16: leaving the firmware always ends. For a hart in one of the four states whose state is left
  alone by the others while it waits, the call of \<open>sbi_exit\<close> inside the processing of a pending halt event
  never leads to a third one: any greater depth gives the same outcome as depth 2. And
  \<open>sbi_exit\<close> never returns to its caller.
\<close>

theorem exit_depth_two:
  assumes "home h sc s" "interf_ok c h"
  shows "sbi_exit_n (n + 2) c h sc s = sbi_exit c h sc s \<and> (\<exists>r s'. sbi_exit c h sc s = Halt r s')"
proof -
  have idle: "sbi_exit_n (Suc n) c h sc t = sbi_exit_n 1 c h sc t"
    if "home h sc t" "hsm_view t h \<noteq> Some SBI_HART_STARTED" for t n
    using exit_body_same [OF that(1) assms(2)] that(2) by simp
  have "same_idle h sc (sbi_exit_n (Suc n) c h) (sbi_exit_n 1 c h)"
    unfolding same_idle_def using idle exit_no_return by blast
  then have "exit_body c h (sbi_exit_n (Suc n) c h) sc s = exit_body c h (sbi_exit_n 1 c h) sc s"
    using exit_body_same [OF assms] by blast
  then show ?thesis
    using exit_no_return [of 2 c h sc s] unfolding exit_unfold [of c h sc, symmetric] by (simp add: sbi_exit_def)
qed

theorem exit_depth_two_witness:
  "sbi_exit_n (3 + 2) reset_cfg 0 0 halted_demo = sbi_exit reset_cfg 0 0 halted_demo \<and>
   (\<exists>s'. sbi_exit_n 1 reset_cfg 0 0 halted_demo = Halt Spin s') \<and>
   (\<exists>s'. sbi_exit reset_cfg 0 0 halted_demo = Halt (Jump 0x80000000) s' \<and> hsm_view s' 0 = Some SBI_HART_STOPPED)"
proof -
  have v: "area_of halted_demo 0 = Some 0" using live_demo_area [of 0] by (simp add: halted_demo_def area_of_def)
  have w: "scratch_rd 0 80 halted_demo = 3" "scratch_rd 0 96 halted_demo = 2" "hart_data_offset halted_demo = 80" "ipi_data_off halted_demo = 96"
    "warmboot_addr (scratch halted_demo 0) = 0x80000000" "mscratch (harts halted_demo 0) = 0" "ipi_ops_array halted_demo ! 1 = Some ipi_halt_ops"
    using live_demo_words(4) [of 0] by (simp_all add: halted_demo_def live_demo_def scratch_rd_def)
  have h: "hsm_view halted_demo 0 = Some 3" using v w by (simp add: hsm_view_def)
  have m: "home 0 0 halted_demo"
    using live_demo_wf v h w by (simp add: home_def scratch_wf_def) (simp add: offs_ok_def halted_demo_def live_demo_def tlb_demo_def)
  have i: "interf_ok reset_cfg 0" by (simp add: interf_ok_def reset_cfg_def bare_cfg_def ownf.R_refl)
  have b: "length (hartid_to_scratch_table halted_demo) = 128" "rd (ipi_ops_array halted_demo) 1 = Some (Some ipi_halt_ops)" "(2 :: ulong) = shl 1 1"
    using m by (simp_all add: home_def) (simp_all add: halted_demo_def live_demo_def rd_def shl_def)
  note H = exit_body_halted [of halted_demo 0 0 reset_cfg 1 "sbi_exit_n n reset_cfg 0" for n,
      unfolded w reset_cfg_simps, OF v refl refl b(1) _ _ b(3) _ b(2) exit_no_return]
  obtain t where "sbi_exit reset_cfg 0 0 halted_demo = sbi_exit_n 1 reset_cfg 0 0 t" "area_of t 0 = Some 0" "mscratch (harts t 0) = 0"
    "scratch_rd 0 (hart_data_offset t) t = 1" "hart_data_offset t \<noteq> ipi_data_off t" "scratch_rd 0 (ipi_data_off t) t = 0"
    "warmboot_addr (scratch t 0) = 0x80000000"
    using H [of 1] unfolding exit_unfold by auto
  then have n: "\<exists>s'. sbi_exit reset_cfg 0 0 halted_demo = Halt (Jump 0x80000000) s' \<and> hsm_view s' 0 = Some SBI_HART_STOPPED"
    using exit_body_run [of t 0 0 reset_cfg "sbi_exit_n 0 reset_cfg 0"] reset_cfg_simps by auto
  have o: "\<exists>s'. sbi_exit_n 1 reset_cfg 0 0 halted_demo = Halt Spin s'"
    using H [of 0] by (auto simp: run_simps)
  show ?thesis using exit_depth_two [OF m i, of 3] n o by blast
qed

text \<open>
  C34: what leaving the firmware does. A hart that is being stopped and has no pending event goes
  through the exit sequence once: the platform's exit operations run in the order early exit, timer stop, timer
  exit, interrupt clear, interrupt exit, interrupt controller exit, final exit; the timer and
  software interrupts are disabled and no supervisor timer interrupt stays pending; the state word says
  stopped; and the hart jumps to its warm boot address.
\<close>

theorem exit_sequence:
  assumes "home h sc s" "hsm_view s h = Some SBI_HART_STOPPING" "\<not> sbi_platform_hart_invalid c h"
    "\<not> sbi_platform_has_hart_hotplug c" "scratch_rd sc (ipi_data_off s) s = 0"
  shows "\<exists>s'. sbi_exit c h sc s = Halt (Jump (warmboot_addr (scratch s sc))) s' \<and> hsm_view s' h = Some SBI_HART_STOPPED \<and>
    dev s' = plat_void_eff c final_exit h (plat_void_eff c irqchip_exit h (plat_void_eff c ipi_exit h
      (plat_void_eff c ipi_clear h (plat_void_eff c timer_exit h (plat_void_eff c timer_event_stop h
        (plat_void_eff c early_exit h (dev s))))))) \<and>
    csr (harts s' h) CSR_MIE = (csr (harts s h) CSR_MIE AND NOT MIP_MTIP) AND NOT MIP_MSIP \<and>
    csr (harts s' h) CSR_MIP = csr (harts s h) CSR_MIP AND NOT MIP_STIP"
proof -
  have w: "area_of s h = Some sc" "mscratch (harts s h) = sc" "scratch_rd sc (hart_data_offset s) s = 1"
    "hart_data_offset s \<noteq> ipi_data_off s"
    using assms(1,2) by (auto simp: home_def hsm_view_def offs_ok_def)
  from exit_body_run [OF this assms(3-5), of "sbi_exit_n 1 c h"] show ?thesis unfolding exit_unfold by blast
qed

theorem exit_sequence_witness:
  "\<exists>s'. sbi_exit reset_cfg 0 0 exit_demo = Halt (Jump 0x80000000) s' \<and> hsm_view s' 0 = Some SBI_HART_STOPPED"
proof -
  have v: "area_of exit_demo 0 = Some 0" using live_demo_area [of 0] by (simp add: exit_demo_def area_of_def)
  then have h: "hsm_view exit_demo 0 = Some 1" by (simp add: hsm_view_def) (simp add: exit_demo_def live_demo_def scratch_rd_def)
  have "home 0 0 exit_demo"
    using live_demo_wf v h live_demo_words(4) [of 0]
    by (simp add: home_def scratch_wf_def) (simp add: offs_ok_def exit_demo_def live_demo_def tlb_demo_def)
  then show ?thesis
    using exit_sequence [of 0 0 exit_demo reset_cfg] h
    by (auto simp: reset_cfg_simps scratch_rd_def exit_demo_def live_demo_def)
qed

lemma exit_stopping:
  assumes "area_of s h = Some sc" "mscratch (harts s h) = sc" "hsm_view s h = Some SBI_HART_STOPPING" "ipi_pend s h = Some 0"
    "hart_data_offset s \<noteq> ipi_data_off s" "\<not> sbi_platform_hart_invalid c h" "\<not> sbi_platform_has_hart_hotplug c"
    "\<And>i. area_of s i = Some sc \<Longrightarrow> i = h"
  shows "\<exists>s'. sbi_exit c h sc s = Halt (Jump (warmboot_addr (scratch s sc))) s' \<and> hsm_view s' h = Some SBI_HART_STOPPED \<and>
    (\<forall>i. i \<noteq> h \<longrightarrow> ipi_pend s' i = ipi_pend s i)"
proof -
  obtain s' where s': "sbi_exit c h sc s = Halt (Jump (warmboot_addr (scratch s sc))) s'" "hsm_view s' h = Some SBI_HART_STOPPED"
      "area_of s' = area_of s" "ipi_data_off s' = ipi_data_off s" "\<And>x off. x \<noteq> sc \<Longrightarrow> scratch_rd x off s' = scratch_rd x off s"
    using exit_body_run [of s h sc c "sbi_exit_n 1 c h"] assms(1-7) unfolding exit_unfold by (auto simp: hsm_view_def ipi_pend_def)
  have "ipi_pend s' i = ipi_pend s i" if "i \<noteq> h" for i
    using assms(8) [of i] s'(3-5) that by (cases "area_of s i") (auto simp: ipi_pend_def)
  then show ?thesis using s'(1,2) by blast
qed

lemma posts_frame:
  "area_of (fold (post c event) is s) = area_of s" "harts (fold (post c event) is s) = harts s"
  "ipi_data_off (fold (post c event) is s) = ipi_data_off s"
  "warmboot_addr (scratch (fold (post c event) is s) sc) = warmboot_addr (scratch s sc)"
proof -
  have 1: "area_of (post c event i s) = area_of s" "harts (post c event i s) = harts s" "ipi_data_off (post c event i s) = ipi_data_off s"
    "warmboot_addr (scratch (post c event i s) sc) = warmboot_addr (scratch s sc)" for i and s :: "'a sys"
    by (simp_all add: post_def split: option.split)
  show "area_of (fold (post c event) is s) = area_of s" "harts (fold (post c event) is s) = harts s"
    "ipi_data_off (fold (post c event) is s) = ipi_data_off s"
    "warmboot_addr (scratch (fold (post c event) is s) sc) = warmboot_addr (scratch s sc)"
    by (induction "is" arbitrary: s) (simp_all add: 1)
qed

text \<open>The part of a system reset before the platform is asked.\<close>

lemma reset_front:
  fixes c :: "'d cfg" and s :: "'d sys" and h :: nat
  assumes "hsm_ok s" "ops_ok s" "ipi_halt_event s < SBI_IPI_EVENT_MAX" "ipi_ops_array s ! ipi_halt_event s = Some ipi_halt_ops"
    "hart_data_offset s \<noteq> ipi_data_off s" "2 < fuel c" "last_hartid_having_scratch s < 64"
    "area_of s h = Some (mscratch (harts s h))" "hsm_view s h = Some SBI_HART_STARTED"
  defines "sc \<equiv> mscratch (harts s h)"
  obtains s1 where "sbi_system_reset c h ty s = bindM (sbi_platform_system_reset c ty) (\<lambda>_. sbi_exit c h sc) s1"
    "hsm_view s1 h = Some SBI_HART_STOPPING" "area_of s1 = area_of s" "mscratch (harts s1 h) = sc"
    "hart_data_offset s1 = hart_data_offset s" "ipi_data_off s1 = ipi_data_off s" "warmboot_addr (scratch s1 sc) = warmboot_addr (scratch s sc)"
    "\<And>i. ipi_pend s1 i = (if i \<noteq> h \<and> hsm_view s i = Some SBI_HART_STARTED
       then map_option (\<lambda>w. w OR shl 1 (ipi_halt_event s)) (ipi_pend s i) else ipi_pend s i)"
proof -
  have wf: "scratch_wf s" using assms(1) by (simp add: hsm_ok_def)
  have h: "h < 64" using hsm_view_last [OF wf assms(9)] assms(7) by simp
  obtain "is" where vis: "reset_halt_loop c h 0 (fuel c) s = Ret () (fold (post c (ipi_halt_event s)) is s)"
    "set is = {i. i \<noteq> h \<and> hsm_view s i = Some SBI_HART_STARTED}"
    using reset_loop_run [OF assms(1-7) h] by blast
  let ?s = "fold (post c (ipi_halt_event s)) is s"
  note fr = posts_hsm [OF assms(1,5), of c "ipi_halt_event s" "is"]
  have len: "length (hartid_to_scratch_table s) = 128" using wf by (simp add: scratch_wf_def)
  have w: "scratch_rd sc (hart_data_offset s) ?s = 3"
    using assms(8,9) fr(1,4) by (auto simp: hsm_view_def sc_def fun_eq_iff dest: spec [of _ h])
  have tab: "hartid_to_scratch_table s ! h = Some sc" using assms(8) by (simp add: area_of_def sc_def split: if_splits)
  let ?t = "scratch_wr sc (hart_data_offset s) SBI_HART_STOPPING ?s"
  have stop: "sbi_hsm_hart_stop c h (sbi_exit c h) sc False ?s = Ret 0 ?t"
    using w fr(4) len h tab
    by (simp add: sbi_hsm_hart_stop_def sbi_hsm_hart_started_def sbi_hsm_hart_get_state_def atomic_defs run_simps to_int_def)
  show thesis
  proof (rule that)
    show "sbi_system_reset c h ty s = bindM (sbi_platform_system_reset c ty) (\<lambda>_. sbi_exit c h sc) ?t"
      using vis(1) stop by (simp add: sbi_system_reset_def run_simps sc_def)
    show "hsm_view ?t h = Some SBI_HART_STOPPING" using assms(8) fr(4) by (simp add: hsm_view_def scratch_rd_wr posts_frame sc_def)
    show "ipi_pend ?t i = (if i \<noteq> h \<and> hsm_view s i = Some SBI_HART_STARTED
       then map_option (\<lambda>w. w OR shl 1 (ipi_halt_event s)) (ipi_pend s i) else ipi_pend s i)" for i
      using ipi_pend_posts [OF wf, of c "ipi_halt_event s" "is" i] vis(2) assms(5)
      by (simp add: ipi_pend_def scratch_rd_wr posts_frame) 
  qed (simp_all add: posts_frame fr(4) sc_def)
qed

lemma platform_reset_cases:
  "bindM (sbi_platform_system_reset c ty) (\<lambda>_. m) s =
    (case plat_op c system_reset of
       None \<Rightarrow> m s
     | Some f \<Rightarrow> (case f ty (dev s) of (None, d) \<Rightarrow> Halt Stopped (s\<lparr>dev := d\<rparr>) | (Some r, d) \<Rightarrow> m (s\<lparr>dev := d\<rparr>)))"
  by (auto simp: sbi_platform_system_reset_def dev_run_def run_simps split: option.split prod.split)

lemma platform_reset_returns:
  assumes "\<forall>f d. plat_op c system_reset = Some f \<longrightarrow> fst (f ty d) \<noteq> None"
  shows "\<exists>d. bindM (sbi_platform_system_reset c ty) (\<lambda>_. m) s = m (s\<lparr>dev := d\<rparr>)"
proof (cases "plat_op c system_reset")
  case None
  then show ?thesis by (intro exI [of _ "dev s"]) (simp add: platform_reset_cases)
next
  case (Some f)
  then have "fst (f ty (dev s)) \<noteq> None" using assms by blast
  then obtain q d where "f ty (dev s) = (Some q, d)" by (cases "f ty (dev s)") auto
  then show ?thesis using Some by (intro exI [of _ d]) (simp add: platform_reset_cases)
qed

text \<open>
  C35: a system reset stops everybody. When a started hart resets a machine with up to 64 harts, then by the time the platform is asked to reset
  itself every other started hart has the halt event in its pending word, no other pending word has changed, and the resetting hart is marked as
  stopping. The hart then stays in the reset operation of the platform if that does not return; if there is no such operation, or it
  fails and returns, the hart leaves the firmware through \<open>sbi_exit\<close>. In no case does control come back to the caller. In the second
  case, a valid hart without hart hotplug and with nothing pending ends up stopped, at its warm boot address, and the halt events of the others stay
  pending.
\<close>

theorem system_reset_halts_others:
  fixes c :: "'d cfg" and s :: "'d sys" and h :: nat
  assumes "hsm_ok s" "ops_ok s" "ipi_halt_event s < SBI_IPI_EVENT_MAX" "ipi_ops_array s ! ipi_halt_event s = Some ipi_halt_ops"
    "hart_data_offset s \<noteq> ipi_data_off s" "2 < fuel c" "last_hartid_having_scratch s < 64"
    "area_of s h = Some (mscratch (harts s h))" "hsm_view s h = Some SBI_HART_STARTED"
  defines "sc \<equiv> mscratch (harts s h)"
    and "told \<equiv> \<lambda>s' i. ipi_pend s' i = (if i \<noteq> h \<and> hsm_view s i = Some SBI_HART_STARTED
      then map_option (\<lambda>w. w OR shl 1 (ipi_halt_event s)) (ipi_pend s i) else ipi_pend s i)"
  shows "(\<exists>s1. hsm_view s1 h = Some SBI_HART_STOPPING \<and> (\<forall>i. told s1 i) \<and>
      sbi_system_reset c h ty s =
        (case plat_op c system_reset of
           None \<Rightarrow> sbi_exit c h sc s1
         | Some f \<Rightarrow>
             (case f ty (dev s1) of
                (None, d) \<Rightarrow> Halt Stopped (s1\<lparr>dev := d\<rparr>)
              | (Some r, d) \<Rightarrow> sbi_exit c h sc (s1\<lparr>dev := d\<rparr>)))) \<and>
    (\<exists>r s'. sbi_system_reset c h ty s = Halt r s') \<and>
    (\<not> sbi_platform_hart_invalid c h \<longrightarrow> \<not> sbi_platform_has_hart_hotplug c \<longrightarrow> ipi_pend s h = Some 0 \<longrightarrow>
      (\<forall>f d. plat_op c system_reset = Some f \<longrightarrow> fst (f ty d) \<noteq> None) \<longrightarrow>
      (\<exists>s'. sbi_system_reset c h ty s = Halt (Jump (warmboot_addr (scratch s sc))) s' \<and>
        hsm_view s' h = Some SBI_HART_STOPPED \<and> (\<forall>i. i \<noteq> h \<longrightarrow> told s' i)))" (is "_ \<and> _ \<and> ?fallback")
proof -
  obtain s1 where run: "sbi_system_reset c h ty s = bindM (sbi_platform_system_reset c ty) (\<lambda>_. sbi_exit c h sc) s1"
    and s1: "hsm_view s1 h = Some SBI_HART_STOPPING" "area_of s1 = area_of s" "mscratch (harts s1 h) = sc"
      "hart_data_offset s1 = hart_data_offset s" "ipi_data_off s1 = ipi_data_off s" "warmboot_addr (scratch s1 sc) = warmboot_addr (scratch s sc)"
    and p: "\<And>i. told s1 i"
    unfolding told_def sc_def using reset_front [OF assms(1-9), of ty] by blast
  note cases = run [unfolded platform_reset_cases]
  have "\<exists>r s'. sbi_system_reset c h ty s = Halt r s'"
    unfolding cases sbi_exit_def using exit_no_return [of 2 c h sc] by (auto split: option.split prod.split)
  moreover have "\<exists>s'. sbi_system_reset c h ty s = Halt (Jump (warmboot_addr (scratch s sc))) s' \<and>
      hsm_view s' h = Some SBI_HART_STOPPED \<and> (\<forall>i. i \<noteq> h \<longrightarrow> told s' i)"
    if v: "\<not> sbi_platform_hart_invalid c h" "\<not> sbi_platform_has_hart_hotplug c" "ipi_pend s h = Some 0"
      and r: "\<forall>f d. plat_op c system_reset = Some f \<longrightarrow> fst (f ty d) \<noteq> None"
  proof -
    obtain d where d: "sbi_system_reset c h ty s = sbi_exit c h sc (s1\<lparr>dev := d\<rparr>)"
      unfolding run using platform_reset_returns [OF r, of "sbi_exit c h sc" s1] by blast
    have "\<exists>s'. sbi_exit c h sc (s1\<lparr>dev := d\<rparr>) = Halt (Jump (warmboot_addr (scratch (s1\<lparr>dev := d\<rparr>) sc))) s' \<and>
        hsm_view s' h = Some SBI_HART_STOPPED \<and> (\<forall>i. i \<noteq> h \<longrightarrow> ipi_pend s' i = ipi_pend (s1\<lparr>dev := d\<rparr>) i)"
    proof (rule exit_stopping [OF _ _ _ _ _ v(1,2)])
      show "i = h" if "area_of (s1\<lparr>dev := d\<rparr>) i = Some sc" for i
        using area_inj [of s i sc h] assms(1,8) that s1(2) by (simp add: sc_def hsm_ok_def)
      show "ipi_pend (s1\<lparr>dev := d\<rparr>) h = Some 0" using p [of h] v(3) by (simp add: told_def ipi_pend_def)
      show "area_of (s1\<lparr>dev := d\<rparr>) h = Some sc" using assms(8) s1(2) by (simp add: sc_def)
    qed (use s1 assms(5) in \<open>simp_all add: hsm_view_def\<close>)
    then show ?thesis unfolding d using p s1(6) by (simp add: told_def ipi_pend_def)
  qed
  ultimately have "(\<exists>r s'. sbi_system_reset c h ty s = Halt r s') \<and> ?fallback" by blast
  then show ?thesis by (rule conjI [rotated], intro exI [of _ s1]) (use s1(1) p cases in simp)
qed

text \<open>A platform whose reset operation fails and returns.\<close>

definition failing_cfg :: "unit cfg" where
  "failing_cfg = bare_cfg\<lparr>plat := Some \<lparr>opensbi_version = 0, platform_version = 0, plat_name = [], plat_features = 0,
     hart_count = 2, hart_stack_size = 0, hart_index2id = None, plat_ops = reset_ops\<lparr>system_reset := Some (\<lambda>_ d. (Some SBI_EFAIL, d))\<rparr>\<rparr>\<rparr>"

theorem system_reset_halts_others_witness:
  "(\<exists>s'. sbi_system_reset reset_cfg 0 0 live_demo = Halt Stopped s' \<and> ipi_pend s' 1 = Some 2) \<and>
   (\<exists>s'. sbi_system_reset failing_cfg 0 0 live_demo = Halt (Jump 0) s' \<and> hsm_view s' 0 = Some SBI_HART_STOPPED \<and> ipi_pend s' 1 = Some 2)"
proof -
  have l: "ipi_halt_event live_demo = 1" "ipi_ops_array live_demo ! 1 = Some ipi_halt_ops"
    "hart_data_offset live_demo \<noteq> ipi_data_off live_demo" "warmboot_addr (scratch live_demo 0) = 0" by (simp_all add: live_demo_def zero_scratch_def)
  have c: "plat_op reset_cfg system_reset = Some (\<lambda>_ d. (None, d))" "plat_op failing_cfg system_reset = Some (\<lambda>_ d. (Some SBI_EFAIL, d))"
    "2 < fuel reset_cfg" "2 < fuel failing_cfg" "\<not> sbi_platform_hart_invalid failing_cfg 0" "\<not> sbi_platform_has_hart_hotplug failing_cfg"
    by (simp_all add: plat_op_def reset_cfg_def failing_cfg_def reset_ops_def bare_cfg_def sbi_platform_hart_invalid_def
        sbi_platform_hart_index_def sbi_platform_has_hart_hotplug_def sbi_platform_get_features_def)
  note R = system_reset_halts_others [of live_demo _ 0 0, unfolded l(1,4) live_demo_words live_demo_area, OF live_demo_ok(1,2) _ l(2,3), simplified]
  have e: "ipi_pend (t\<lparr>dev := d\<rparr>) i = ipi_pend t i" for t :: "unit sys" and d i by (simp add: ipi_pend_def)
  have "\<exists>s'. sbi_system_reset reset_cfg 0 0 live_demo = Halt Stopped s' \<and> ipi_pend s' 1 = Some 2"
    using R [OF c(3)] unfolding c(1) by (auto simp: e shl_def)
  moreover have "\<exists>s'. sbi_system_reset failing_cfg 0 0 live_demo = Halt (Jump 0) s' \<and> hsm_view s' 0 = Some SBI_HART_STOPPED \<and> ipi_pend s' 1 = Some 2"
    using mp [OF mp [OF mp [OF conjunct2 [OF conjunct2 [OF R [OF c(4)]]] c(5)] c(6)]] c(2) by (auto simp: shl_def)
  ultimately show ?thesis by blast
qed

end
