(* ===== verification/Sbi_Redirect.thy ===== *)
theory Sbi_Redirect
  imports Sbi_Exit
begin

text \<open>
  Handing a trap over to the supervisor, \<open>sbi_trap_redirect\<close> of \<^verbatim>\<open>lib/sbi/sbi_trap.c\<close>, and the
  unprivileged memory accesses of \<^verbatim>\<open>lib/sbi/sbi_unpriv.c\<close>.

  The saved registers are passed as a value and returned, changed, with the result code. The memory \<open>mem\<close> is
  the memory as the interrupted context sees it: the accesses are made with its address
  translation, and which of them fault is part of the configuration. After a fault the value read is
  unspecified in the code, and no caller uses it; it is 0 here.
\<close>

section \<open>Redirection\<close>

definition prev_mode_of :: "sbi_trap_regs \<Rightarrow> ulong" where
  "prev_mode_of regs = shr (mstatus regs AND MSTATUS_MPP) MSTATUS_MPP_SHIFT"

definition prev_virt_of :: "sbi_trap_regs \<Rightarrow> bool" where
  "prev_virt_of regs \<longleftrightarrow> mstatus regs AND MSTATUS_MPV \<noteq> 0"

text \<open>
  The changes to the previous privilege, previous interrupt enable and interrupt enable bits; they are at the same
  positions in \<open>mstatus\<close> and \<open>vsstatus\<close>.
\<close>

definition enter_s :: "bool \<Rightarrow> ulong \<Rightarrow> ulong" where
  "enter_s from_s st =
     (let st = st AND NOT MSTATUS_SPP;
          st = (if from_s then st OR shl 1 MSTATUS_SPP_SHIFT else st);
          st = st AND NOT MSTATUS_SPIE;
          st = (if st AND MSTATUS_SIE \<noteq> 0 then st OR shl 1 MSTATUS_SPIE_SHIFT else st)
      in st AND NOT MSTATUS_SIE)"

definition set_mpp_s :: "ulong \<Rightarrow> ulong" where
  "set_mpp_s st = (st AND NOT MSTATUS_MPP) OR shl PRV_S MSTATUS_MPP_SHIFT"

definition sbi_trap_redirect :: "'d cfg \<Rightarrow> nat \<Rightarrow> sbi_trap_regs \<Rightarrow> sbi_trap_info \<Rightarrow>
    'd sys \<Rightarrow> ('d sys, int \<times> sbi_trap_regs) outcome" where
  "sbi_trap_redirect c h regs trap =
     (let prev_virt = prev_virt_of regs; prev_mode = prev_mode_of regs in
      if prev_mode \<noteq> PRV_S \<and> prev_mode \<noteq> PRV_U then retM (SBI_ENOTSUPP, regs)
      else
        bindM (misa_extension c h (ch CHR ''H'')) (\<lambda>hy.
        (let next_virt = (hy \<and> prev_virt \<and>
               (cause trap = CAUSE_FETCH_PAGE_FAULT \<or> cause trap = CAUSE_LOAD_PAGE_FAULT \<or>
                cause trap = CAUSE_STORE_PAGE_FAULT));
             m = (mstatus regs AND NOT MSTATUS_MPV) OR (if next_virt then MSTATUS_MPV else 0) in
         seqM
           (whenM (hy \<and> prev_virt \<and> \<not> next_virt)
              (bindM (csr_read h CSR_HSTATUS) (\<lambda>hstatus.
               (let hstatus = hstatus AND NOT HSTATUS_SPVP;
                    hstatus = hstatus OR (if m AND MSTATUS_SPP \<noteq> 0 then HSTATUS_SPVP else 0);
                    hstatus = hstatus AND NOT HSTATUS_SPV;
                    hstatus = hstatus OR (if prev_virt then HSTATUS_SPV else 0)
                in seqM (csr_write h CSR_HSTATUS hstatus)
                  (seqM (csr_write h CSR_HTVAL (tval2 trap))
                        (csr_write h CSR_HTINST (tinst trap)))))))
           (if next_virt then
              seqM (csr_write h CSR_VSTVAL (tval trap))
             (seqM (csr_write h CSR_VSEPC (epc trap))
             (seqM (csr_write h CSR_VSCAUSE (cause trap))
             (bindM (csr_read h CSR_VSTVEC) (\<lambda>vec.
              bindM (csr_read h CSR_VSSTATUS) (\<lambda>vsstatus.
              seqM (csr_write h CSR_VSSTATUS (enter_s (prev_mode = PRV_S) vsstatus))
                   (retM (0, regs\<lparr>mepc := vec, mstatus := set_mpp_s m\<rparr>)))))))
            else
              seqM (csr_write h CSR_STVAL (tval trap))
             (seqM (csr_write h CSR_SEPC (epc trap))
             (seqM (csr_write h CSR_SCAUSE (cause trap))
             (bindM (csr_read h CSR_STVEC) (\<lambda>vec.
                retM (0, regs\<lparr>mepc := vec, mstatus := enter_s (prev_mode = PRV_S) (set_mpp_s m)\<rparr>)))))))))"

section \<open>Unprivileged accesses\<close>

text \<open>The value of \<open>n\<close> bytes from an address on, in little-endian order.\<close>

primrec mem_read :: "(ulong \<Rightarrow> u8) \<Rightarrow> ulong \<Rightarrow> nat \<Rightarrow> ulong" where
  "mem_read m a 0 = 0"
| "mem_read m a (Suc n) = ucast (m a) OR shl (mem_read m (a + 1) n) 8"

text \<open>Loads and stores of a given number of bytes; \<open>None\<close> as the trap means that \<open>trap->cause\<close> is 0.\<close>

definition unpriv_load :: "'d cfg \<Rightarrow> nat \<Rightarrow> nat \<Rightarrow> ulong \<Rightarrow> 'd sys \<Rightarrow> ('d sys, ulong \<times> sbi_trap_info option) outcome" where
  "unpriv_load c h n addr =
     getM (\<lambda>s. case ld_trap c h s addr n of Some t \<Rightarrow> (0, Some t) | None \<Rightarrow> (mem_read (mem s) addr n, None))"

primrec mem_write :: "(ulong \<Rightarrow> u8) \<Rightarrow> ulong \<Rightarrow> nat \<Rightarrow> ulong \<Rightarrow> ulong \<Rightarrow> u8" where
  "mem_write m a 0 v = m"
| "mem_write m a (Suc n) v = mem_write (m(a := ucast v)) (a + 1) n (shr v 8)"

definition unpriv_store :: "'d cfg \<Rightarrow> nat \<Rightarrow> nat \<Rightarrow> ulong \<Rightarrow> ulong \<Rightarrow> 'd sys \<Rightarrow> ('d sys, sbi_trap_info option) outcome" where
  "unpriv_store c h n addr val =
     bindM (getM (\<lambda>s. st_trap c h s addr n)) (\<lambda>t.
       case t of Some _ \<Rightarrow> retM t | None \<Rightarrow> seqM (modM (\<lambda>s. s\<lparr>mem := mem_write (mem s) addr n val\<rparr>)) (retM None))"

definition sbi_load_u8 :: "'d cfg \<Rightarrow> nat \<Rightarrow> ulong \<Rightarrow> 'd sys \<Rightarrow> ('d sys, u8 \<times> sbi_trap_info option) outcome" where
  "sbi_load_u8 c h addr = bindM (unpriv_load c h 1 addr) (\<lambda>(v, t). retM (ucast v, t))"

definition sbi_load_u16 :: "'d cfg \<Rightarrow> nat \<Rightarrow> ulong \<Rightarrow> 'd sys \<Rightarrow> ('d sys, u16 \<times> sbi_trap_info option) outcome" where
  "sbi_load_u16 c h addr = bindM (unpriv_load c h 2 addr) (\<lambda>(v, t). retM (ucast v, t))"

definition sbi_load_u32 :: "'d cfg \<Rightarrow> nat \<Rightarrow> ulong \<Rightarrow> 'd sys \<Rightarrow> ('d sys, u32 \<times> sbi_trap_info option) outcome" where
  "sbi_load_u32 c h addr = bindM (unpriv_load c h 4 addr) (\<lambda>(v, t). retM (ucast v, t))"

definition sbi_load_u64 :: "'d cfg \<Rightarrow> nat \<Rightarrow> ulong \<Rightarrow> 'd sys \<Rightarrow> ('d sys, u64 \<times> sbi_trap_info option) outcome" where
  "sbi_load_u64 c h addr = unpriv_load c h 8 addr"

definition sbi_load_ulong :: "'d cfg \<Rightarrow> nat \<Rightarrow> ulong \<Rightarrow> 'd sys \<Rightarrow> ('d sys, ulong \<times> sbi_trap_info option) outcome" where
  "sbi_load_ulong c h addr = unpriv_load c h 8 addr"

definition sbi_store_u8 :: "'d cfg \<Rightarrow> nat \<Rightarrow> ulong \<Rightarrow> u8 \<Rightarrow> 'd sys \<Rightarrow> ('d sys, sbi_trap_info option) outcome" where
  "sbi_store_u8 c h addr val = unpriv_store c h 1 addr (ucast val)"

definition sbi_store_u16 :: "'d cfg \<Rightarrow> nat \<Rightarrow> ulong \<Rightarrow> u16 \<Rightarrow> 'd sys \<Rightarrow> ('d sys, sbi_trap_info option) outcome" where
  "sbi_store_u16 c h addr val = unpriv_store c h 2 addr (ucast val)"

definition sbi_store_u32 :: "'d cfg \<Rightarrow> nat \<Rightarrow> ulong \<Rightarrow> u32 \<Rightarrow> 'd sys \<Rightarrow> ('d sys, sbi_trap_info option) outcome" where
  "sbi_store_u32 c h addr val = unpriv_store c h 4 addr (ucast val)"

definition sbi_store_u64 :: "'d cfg \<Rightarrow> nat \<Rightarrow> ulong \<Rightarrow> u64 \<Rightarrow> 'd sys \<Rightarrow> ('d sys, sbi_trap_info option) outcome" where
  "sbi_store_u64 c h addr val = unpriv_store c h 8 addr val"

text \<open>
  Fetching the trapped instruction, half a word at a time. A fault is reported as a fetch fault with the address of the
  instruction.
\<close>

definition fetch_cause :: "ulong \<Rightarrow> sbi_trap_info \<Rightarrow> sbi_trap_info" where
  "fetch_cause pc t =
     (if cause t = CAUSE_LOAD_ACCESS then t\<lparr>cause := CAUSE_FETCH_ACCESS, tval := pc\<rparr>
      else if cause t = CAUSE_LOAD_PAGE_FAULT then t\<lparr>cause := CAUSE_FETCH_PAGE_FAULT, tval := pc\<rparr>
      else if cause t = CAUSE_LOAD_GUEST_PAGE_FAULT then t\<lparr>cause := CAUSE_FETCH_GUEST_PAGE_FAULT, tval := pc\<rparr>
      else t)"

definition sbi_get_insn :: "'d cfg \<Rightarrow> nat \<Rightarrow> ulong \<Rightarrow> 'd sys \<Rightarrow> ('d sys, ulong \<times> sbi_trap_info option) outcome" where
  "sbi_get_insn c h pc =
     getM (\<lambda>s.
       case ifetch_trap c h s pc 2 of
         Some t \<Rightarrow> (0, Some (fetch_cause pc t))
       | None \<Rightarrow>
           (let insn = mem_read (mem s) pc 2 in
            if insn AND 3 \<noteq> 3 then (insn, None)
            else
              (case ifetch_trap c h s (pc + 2) 2 of
                 Some t \<Rightarrow> (insn, Some (fetch_cause pc t))
               | None \<Rightarrow> (insn + shl (mem_read (mem s) (pc + 2) 2) 16, None))))"

section \<open>Bits of the status registers\<close>

lemma const_bits:
  "bit (0x2 :: ulong) n \<longleftrightarrow> n = 1" "bit (0x20 :: ulong) n \<longleftrightarrow> n = 5" "bit (0x100 :: ulong) n \<longleftrightarrow> n = 8"
  "bit (0x80 :: ulong) n \<longleftrightarrow> n = 7" "bit (0x8000000000 :: ulong) n \<longleftrightarrow> n = 39"
  "bit (0x1800 :: ulong) n \<longleftrightarrow> n = 11 \<or> n = 12"
proof -
  have e: "bit ((2 :: ulong) ^ k) n \<longleftrightarrow> n = k" if "k < 64" for k using that by (auto simp: bit_exp_iff)
  show "bit (0x2 :: ulong) n \<longleftrightarrow> n = 1" using e [of 1] by simp
  show "bit (0x20 :: ulong) n \<longleftrightarrow> n = 5" using e [of 5] by simp
  show "bit (0x100 :: ulong) n \<longleftrightarrow> n = 8" using e [of 8] by simp
  show "bit (0x80 :: ulong) n \<longleftrightarrow> n = 7" using e [of 7] by simp
  show "bit (0x8000000000 :: ulong) n \<longleftrightarrow> n = 39" using e [of 39] by simp
  have "(0x1800 :: ulong) = 2 ^ 11 OR 2 ^ 12" by simp
  then show "bit (0x1800 :: ulong) n \<longleftrightarrow> n = 11 \<or> n = 12" using e [of 11] e [of 12] by (simp only: bit_or_iff)
qed

lemma and_single_bit:
  assumes "\<And>n. bit m n \<longleftrightarrow> n = k"
  shows "(st AND m \<noteq> 0) \<longleftrightarrow> bit (st :: ulong) k"
proof
  assume "st AND m \<noteq> 0"
  then show "bit st k"
  proof (rule contrapos_np)
    assume "\<not> bit st k"
    then show "st AND m = 0" by (intro bit_word_eqI) (auto simp: bit_and_iff assms)
  qed
next
  assume "bit st k"
  then have "bit (st AND m) k" by (simp add: bit_and_iff assms)
  then show "st AND m \<noteq> 0" by auto
qed

lemma bit_enter_s_gen:
  fixes st spp spie sie :: ulong and from_s :: bool
  assumes "\<And>n. bit spp n \<longleftrightarrow> n = 8" "\<And>n. bit spie n \<longleftrightarrow> n = 5" "\<And>n. bit sie n \<longleftrightarrow> n = 1"
  defines "s1 \<equiv> st AND NOT spp"
  defines "s2 \<equiv> (if from_s then s1 OR shl 1 8 else s1)"
  defines "s3 \<equiv> s2 AND NOT spie"
  defines "s4 \<equiv> (if s3 AND sie \<noteq> 0 then s3 OR shl 1 5 else s3)"
  assumes "n < 64"
  shows "bit (s4 AND NOT sie) n =
    (if n = 8 then from_s else if n = 5 then bit st 1 else if n = 1 then False else bit st n)"
proof -
  have b1: "bit s1 k \<longleftrightarrow> bit st k \<and> k \<noteq> 8" if "k < 64" for k
    using that by (simp add: s1_def bit_and_iff bit_not_iff assms(1))
  have b2: "bit s2 k \<longleftrightarrow> (if k = 8 then from_s else bit st k)" if "k < 64" for k
    using b1 [OF that] that by (cases from_s) (auto simp: s2_def bit_or_iff bit_shl bit_1_iff)
  have b3: "bit s3 k \<longleftrightarrow> k \<noteq> 5 \<and> (if k = 8 then from_s else bit st k)" if "k < 64" for k
    using b2 [OF that] that by (auto simp: s3_def bit_and_iff bit_not_iff assms(2))
  have "(s3 AND sie \<noteq> 0) \<longleftrightarrow> bit st 1" using and_single_bit [OF assms(3), of s3] b3 [of 1] by simp
  then have b4: "bit s4 k \<longleftrightarrow> (if k = 5 then bit st 1 else bit s3 k)" if "k < 64" for k
    using b3 [OF that] that by (cases "bit st 1") (auto simp: s4_def bit_or_iff bit_shl bit_1_iff)
  have "bit (s4 AND NOT sie) n \<longleftrightarrow> n \<noteq> 1 \<and> bit s4 n"
    using assms(8) by (auto simp: bit_and_iff bit_not_iff assms(3))
  then show ?thesis using b4 [OF assms(8)] b3 [OF assms(8)] by auto
qed

lemma bit_enter_s:
  "n < 64 \<Longrightarrow> bit (enter_s from_s st) n =
    (if n = 8 then from_s else if n = 5 then bit st 1 else if n = 1 then False else bit st n)"
  unfolding enter_s_def Let_def by (rule bit_enter_s_gen [OF const_bits(3,2,1)])

lemma bit_set_mpp_gen:
  fixes st mpp :: ulong
  assumes "\<And>n. bit mpp n \<longleftrightarrow> n = 11 \<or> n = 12" "n < 64"
  shows "bit ((st AND NOT mpp) OR shl 1 11) n = (if n = 11 then True else if n = 12 then False else bit st n)"
proof -
  have "bit (shl 1 11 :: ulong) n \<longleftrightarrow> n = 11" using assms(2) by (auto simp: bit_shl bit_1_iff)
  then show ?thesis using assms(2) by (simp add: bit_and_iff bit_not_iff bit_or_iff assms(1))
qed

lemma bit_set_mpp_s: "n < 64 \<Longrightarrow> bit (set_mpp_s st) n = (if n = 11 then True else if n = 12 then False else bit st n)"
  unfolding set_mpp_s_def by (rule bit_set_mpp_gen [OF const_bits(6)])

lemma bit_upd_mpv_gen:
  fixes st mpv :: ulong
  assumes "\<And>n. bit mpv n \<longleftrightarrow> n = 39" "n < 64"
  shows "bit ((st AND NOT mpv) OR (if v then mpv else 0)) n = (if n = 39 then v else bit st n)"
  using assms(2) by (cases v) (simp_all add: bit_and_iff bit_not_iff bit_or_iff assms(1))

lemma bit_upd_mpv:
  "n < 64 \<Longrightarrow> bit ((st AND NOT MSTATUS_MPV) OR (if v then MSTATUS_MPV else 0)) n = (if n = 39 then v else bit st n)"
  by (rule bit_upd_mpv_gen [OF const_bits(5)])

text \<open>The hypervisor status of a trap that leaves a virtual machine.\<close>

definition hstatus_trap :: "ulong \<Rightarrow> ulong \<Rightarrow> ulong" where
  "hstatus_trap m hstatus =
     (((hstatus AND NOT HSTATUS_SPVP) OR (if m AND MSTATUS_SPP \<noteq> 0 then HSTATUS_SPVP else 0)) AND NOT HSTATUS_SPV)
       OR HSTATUS_SPV"

lemma bit_hstatus_gen:
  fixes m hs spp spvp spv :: ulong
  assumes "\<And>n. bit spp n \<longleftrightarrow> n = 8" "\<And>n. bit spvp n \<longleftrightarrow> n = 8" "\<And>n. bit spv n \<longleftrightarrow> n = 7" "n < 64"
  shows "bit ((((hs AND NOT spvp) OR (if m AND spp \<noteq> 0 then spvp else 0)) AND NOT spv) OR spv) n =
    (if n = 7 then True else if n = 8 then bit m 8 else bit hs n)"
  unfolding and_single_bit [OF assms(1)] using assms(4)
  by (cases "bit m 8") (auto simp: bit_and_iff bit_or_iff bit_not_iff assms(2,3))

lemma bit_hstatus_trap:
  "n < 64 \<Longrightarrow> bit (hstatus_trap m hs) n = (if n = 7 then True else if n = 8 then bit m 8 else bit hs n)"
  unfolding hstatus_trap_def by (rule bit_hstatus_gen [OF const_bits(3,3,4)])

lemma prev_mode_bits: "bit (prev_mode_of regs) n \<longleftrightarrow> (n = 0 \<or> n = 1) \<and> bit (mstatus regs) (n + 11)"
proof -
  have "bit (shr (m AND mpp) 11) n \<longleftrightarrow> (n = 0 \<or> n = 1) \<and> bit m (n + 11)"
    if "\<And>n. bit mpp n \<longleftrightarrow> n = 11 \<or> n = 12" for m mpp :: ulong
    using that by (auto simp: shr_def bit_drop_bit_eq bit_and_iff add.commute)
  from this [OF const_bits(6)] show ?thesis unfolding prev_mode_of_def .
qed

lemma prev_mode_s_iff:
  "prev_mode_of regs = PRV_S \<longleftrightarrow> bit (mstatus regs) 11 \<and> \<not> bit (mstatus regs) 12"
proof
  assume "prev_mode_of regs = PRV_S"
  then have "bit (prev_mode_of regs) 0" "\<not> bit (prev_mode_of regs) 1" by (simp_all add: bit_1_iff)
  then show "bit (mstatus regs) 11 \<and> \<not> bit (mstatus regs) 12" by (simp add: prev_mode_bits)
next
  assume "bit (mstatus regs) 11 \<and> \<not> bit (mstatus regs) 12"
  then have "bit (prev_mode_of regs) k \<longleftrightarrow> k = 0" for k by (auto simp: prev_mode_bits)
  then show "prev_mode_of regs = PRV_S" by (intro bit_word_eqI) (simp add: bit_1_iff)
qed

lemma prev_virt_iff: "prev_virt_of regs \<longleftrightarrow> bit (mstatus regs) 39"
  unfolding prev_virt_of_def by (rule and_single_bit [OF const_bits(5)])

text \<open>The two ways a redirection can end.\<close>

definition guest_fault :: "'d cfg \<Rightarrow> nat \<Rightarrow> sbi_trap_regs \<Rightarrow> sbi_trap_info \<Rightarrow> 'd sys \<Rightarrow> bool" where
  "guest_fault c h regs trap s \<longleftrightarrow> misa_has c h (ch CHR ''H'') (csr (harts s h) CSR_MISA) \<and> prev_virt_of regs \<and>
     (cause trap = CAUSE_FETCH_PAGE_FAULT \<or> cause trap = CAUSE_LOAD_PAGE_FAULT \<or> cause trap = CAUSE_STORE_PAGE_FAULT)"

definition guest_exit :: "'d cfg \<Rightarrow> nat \<Rightarrow> sbi_trap_regs \<Rightarrow> sbi_trap_info \<Rightarrow> 'd sys \<Rightarrow> bool" where
  "guest_exit c h regs trap s \<longleftrightarrow> misa_has c h (ch CHR ''H'') (csr (harts s h) CSR_MISA) \<and> prev_virt_of regs \<and>
     \<not> guest_fault c h regs trap s"

lemma redirect_run_vs:
  assumes "prev_mode_of regs = PRV_S \<or> prev_mode_of regs = PRV_U" "guest_fault c h regs trap s"
  shows "sbi_trap_redirect c h regs trap s =
    Ret (0, regs\<lparr>mepc := csr (harts s h) CSR_VSTVEC, mstatus := set_mpp_s ((mstatus regs AND NOT MSTATUS_MPV) OR MSTATUS_MPV)\<rparr>)
      (upd_hart h (\<lambda>t. t\<lparr>csr := (csr (harts s h))(CSR_VSTVAL := tval trap, CSR_VSEPC := epc trap, CSR_VSCAUSE := cause trap,
         CSR_VSSTATUS := enter_s (prev_mode_of regs = PRV_S) (csr (harts s h) CSR_VSSTATUS))\<rparr>) s)"
  using assms
  by (auto simp: sbi_trap_redirect_def guest_fault_def run_simps Let_def upd_hart_def)

lemma redirect_run_s:
  assumes "prev_mode_of regs = PRV_S \<or> prev_mode_of regs = PRV_U" "\<not> guest_fault c h regs trap s"
  defines "m \<equiv> mstatus regs AND NOT MSTATUS_MPV"
  defines "f \<equiv> (if guest_exit c h regs trap s
      then (csr (harts s h))(CSR_HSTATUS := hstatus_trap m (csr (harts s h) CSR_HSTATUS), CSR_HTVAL := tval2 trap, CSR_HTINST := tinst trap)
      else csr (harts s h))"
  shows "sbi_trap_redirect c h regs trap s =
    Ret (0, regs\<lparr>mepc := csr (harts s h) CSR_STVEC, mstatus := enter_s (prev_mode_of regs = PRV_S) (set_mpp_s m)\<rparr>)
      (upd_hart h (\<lambda>t. t\<lparr>csr := f(CSR_STVAL := tval trap, CSR_SEPC := epc trap, CSR_SCAUSE := cause trap)\<rparr>) s)"
proof (cases "guest_exit c h regs trap s")
  case True
  then show ?thesis
    using assms(1,2)
    by (auto simp: sbi_trap_redirect_def guest_exit_def guest_fault_def hstatus_trap_def run_simps Let_def upd_hart_def m_def f_def)
next
  case False
  then show ?thesis
    using assms(1,2)
    by (auto simp: sbi_trap_redirect_def guest_exit_def guest_fault_def run_simps Let_def upd_hart_def m_def f_def)
qed

section \<open>Properties\<close>

text \<open>
  C19: redirecting a trap enters the supervisor as the architecture would. A trap from machine mode is refused and
  changes nothing. Otherwise the result is 0, execution will resume in supervisor mode (virtual only
  for a page fault of a guest) at the trap vector of that mode, the general registers are
  untouched, the previous mode and interrupt enable are saved in the status register and
  interrupts disabled, all other status bits are kept, the cause, address and value registers of the
  receiving mode hold those of the trap, and no other CSR and nothing else changes. On leaving a guest
  the previous-virtualisation bit is set, while SPVP receives the stale SPP bit of \<open>mstatus\<close> and not the
  mode the trap came from.
\<close>

theorem redirect_enters_supervisor:
  fixes s :: "'d sys" and c :: "'d cfg" and regs :: sbi_trap_regs and trap :: sbi_trap_info and h :: nat
  assumes "n < 64"
  defines "vs \<equiv> guest_fault c h regs trap s" and "gx \<equiv> guest_exit c h regs trap s"
  shows "if prev_mode_of regs \<noteq> PRV_S \<and> prev_mode_of regs \<noteq> PRV_U
    then sbi_trap_redirect c h regs trap s = Ret (SBI_ENOTSUPP, regs) s
    else \<exists>regs' f. sbi_trap_redirect c h regs trap s = Ret (0, regs') (upd_hart h (\<lambda>t. t\<lparr>csr := f\<rparr>) s) \<and>
      gpr regs' = gpr regs \<and> prev_mode_of regs' = PRV_S \<and> prev_virt_of regs' = vs \<and>
      mepc regs' = csr (harts s h) (if vs then CSR_VSTVEC else CSR_STVEC) \<and>
      bit (mstatus regs') n =
        (if n = 39 then vs else if n = 11 then True else if n = 12 then False else if vs then bit (mstatus regs) n
         else if n = 8 then prev_mode_of regs = PRV_S else if n = 5 then bit (mstatus regs) 1
         else if n = 1 then False else bit (mstatus regs) n) \<and>
      f (if vs then CSR_VSTVAL else CSR_STVAL) = tval trap \<and> f (if vs then CSR_VSEPC else CSR_SEPC) = epc trap \<and>
      f (if vs then CSR_VSCAUSE else CSR_SCAUSE) = cause trap \<and>
      bit (f CSR_VSSTATUS) n =
        (if vs \<and> n = 8 then prev_mode_of regs = PRV_S else if vs \<and> n = 5 then bit (csr (harts s h) CSR_VSSTATUS) 1
         else if vs \<and> n = 1 then False else bit (csr (harts s h) CSR_VSSTATUS) n) \<and>
      bit (f CSR_HSTATUS) n =
        (if gx \<and> n = 7 then True else if gx \<and> n = 8 then bit (mstatus regs) 8
         else bit (csr (harts s h) CSR_HSTATUS) n) \<and>
      f CSR_HTVAL = (if gx then tval2 trap else csr (harts s h) CSR_HTVAL) \<and>
      f CSR_HTINST = (if gx then tinst trap else csr (harts s h) CSR_HTINST) \<and>
      {x. f x \<noteq> csr (harts s h) x} \<subseteq>
        (if vs then {CSR_VSTVAL, CSR_VSEPC, CSR_VSCAUSE, CSR_VSSTATUS} else {CSR_STVAL, CSR_SEPC, CSR_SCAUSE}) \<union>
        (if gx then {CSR_HSTATUS, CSR_HTVAL, CSR_HTINST} else {})"
proof (cases "prev_mode_of regs \<noteq> PRV_S \<and> prev_mode_of regs \<noteq> PRV_U")
  case True
  then show ?thesis by (simp add: sbi_trap_redirect_def run_simps Let_def)
next
  case False
  then have mode: "prev_mode_of regs = PRV_S \<or> prev_mode_of regs = PRV_U" by blast
  have mpv: "bit ((mstatus regs AND NOT MSTATUS_MPV) OR MSTATUS_MPV) k = (if k = 39 then True else bit (mstatus regs) k)"
    "bit (mstatus regs AND NOT MSTATUS_MPV) k = (if k = 39 then False else bit (mstatus regs) k)" if "k < 64" for k
    using bit_upd_mpv [OF that, of "mstatus regs" True] bit_upd_mpv [OF that, of "mstatus regs" False] by simp_all
  show ?thesis
  proof (cases vs)
    case True
    then have gx: "\<not> gx" by (simp add: vs_def gx_def guest_exit_def)
    define M where "M = (mstatus regs AND NOT MSTATUS_MPV) OR MSTATUS_MPV"
    note run = redirect_run_vs [OF mode True [unfolded vs_def], folded M_def]
    have bits: "bit (set_mpp_s M) k =
        (if k = 39 then True else if k = 11 then True else if k = 12 then False else bit (mstatus regs) k)" if "k < 64" for k
      using bit_set_mpp_s [OF that, of M] mpv(1) [OF that, folded M_def] by auto
    have 1: "prev_mode_of (regs\<lparr>mepc := v, mstatus := set_mpp_s M\<rparr>) = PRV_S"
      "prev_virt_of (regs\<lparr>mepc := v, mstatus := set_mpp_s M\<rparr>)" for v
      using bits [of 11] bits [of 12] bits [of 39] by (simp_all add: prev_mode_s_iff prev_virt_iff)
    show ?thesis
      unfolding if_not_P [OF False]
      by (intro exI conjI, rule run) (use True gx 1 bits [OF assms(1)] bit_enter_s [OF assms(1)] in auto)
  next
    case vs: False
    define M where "M = mstatus regs AND NOT MSTATUS_MPV"
    note run = redirect_run_s [OF mode vs [unfolded vs_def], folded M_def gx_def]
    have m8: "bit M 8 = bit (mstatus regs) 8" using mpv(2) [of 8] by (simp add: M_def)
    have bits: "bit (enter_s b (set_mpp_s M)) k =
        (if k = 39 then False else if k = 11 then True else if k = 12 then False else if k = 8 then b
         else if k = 5 then bit (mstatus regs) 1 else if k = 1 then False else bit (mstatus regs) k)" if "k < 64" for k b
      using bit_enter_s [OF that, of b "set_mpp_s M"] bit_set_mpp_s [OF that, of M] bit_set_mpp_s [of 1 M]
        mpv(2) [OF that, folded M_def] mpv(2) [of 1, folded M_def] by auto
    have 1: "prev_mode_of (regs\<lparr>mepc := v, mstatus := enter_s b (set_mpp_s M)\<rparr>) = PRV_S"
      "\<not> prev_virt_of (regs\<lparr>mepc := v, mstatus := enter_s b (set_mpp_s M)\<rparr>)" for v b
      using bits [of 11] bits [of 12] bits [of 39] by (simp_all add: prev_mode_s_iff prev_virt_iff)
    show ?thesis
      unfolding if_not_P [OF False]
      by (intro exI conjI, rule run) (use vs 1 bits [OF assms(1)] bit_hstatus_trap [OF assms(1)] m8 in auto)
  qed
qed

text \<open>A guest takes a page fault on a load in its user mode, on a hart with the hypervisor extension.\<close>

definition trap_regs0 :: sbi_trap_regs where
  "trap_regs0 = \<lparr>gpr = (\<lambda>_. 0), mepc = 0x1000, mstatus = 0, mstatusH = 0\<rparr>"

definition trap_info0 :: sbi_trap_info where
  "trap_info0 = \<lparr>epc = 0x1000, cause = CAUSE_LOAD_PAGE_FAULT, tval = 0x10, tval2 = 0, tinst = 0\<rparr>"

definition guest_hart :: "unit sys" where
  "guest_hart = upd_hart 0 (\<lambda>t. t\<lparr>csr := (csr t)(CSR_MISA := 0x80, CSR_VSTVEC := 0x4000, CSR_STVEC := 0x8000)\<rparr>) exit_demo"

theorem redirect_enters_supervisor_witness:
  "\<exists>regs' f. sbi_trap_redirect reset_cfg 0 (trap_regs0\<lparr>mstatus := MSTATUS_MPV\<rparr>) trap_info0 guest_hart =
      Ret (0, regs') (upd_hart 0 (\<lambda>t. t\<lparr>csr := f\<rparr>) guest_hart) \<and>
    prev_virt_of regs' \<and> mepc regs' = 0x4000 \<and> f CSR_VSCAUSE = CAUSE_LOAD_PAGE_FAULT \<and> bit (mstatus regs') 11"
proof -
  let ?r = "trap_regs0\<lparr>mstatus := MSTATUS_MPV\<rparr>"
  have m: "prev_mode_of ?r = PRV_U" "prev_virt_of ?r" by (simp_all add: prev_mode_of_def prev_virt_of_def shr_def)
  have v: "csr (harts guest_hart 0) CSR_VSTVEC = 0x4000" by (simp add: guest_hart_def upd_hart_def)
  have "guest_fault reset_cfg 0 ?r trap_info0 guest_hart"
    using m(2) by (simp add: guest_fault_def trap_info0_def) (simp add: guest_hart_def upd_hart_def misa_has_def shl_def)
  with redirect_enters_supervisor [of 11 ?r reset_cfg 0 trap_info0 guest_hart] m v
  show ?thesis by (auto simp: trap_info0_def)
qed

end
