(* ===== verification/Sbi_Emulate.thy ===== *)
theory Sbi_Emulate
  imports Sbi_Redirect
begin

text \<open>
  Instructions the firmware carries out for the software below it: accesses to counters and timer
  registers the hart does not implement (\<^verbatim>\<open>lib/sbi/sbi_emulate_csr.c\<close>, \<^verbatim>\<open>lib/sbi/sbi_illegal_insn.c\<close>) and loads and
  stores at misaligned addresses (\<^verbatim>\<open>lib/sbi/sbi_misaligned_ldst.c\<close>), with the register access macros
  of \<^verbatim>\<open>include/sbi/riscv_encoding.h\<close> and \<^verbatim>\<open>include/sbi/riscv_fp.h\<close>, for 64-bit harts compiled with floating point.

  A handler takes the saved registers and returns them, changed, with its result code.
\<close>

section \<open>Register fields\<close>

abbreviation (input) LOG_REGBYTES :: nat where "LOG_REGBYTES \<equiv> 3"
abbreviation (input) SH_RD :: nat where "SH_RD \<equiv> 7"
abbreviation (input) SH_RS1 :: nat where "SH_RS1 \<equiv> 15"
abbreviation (input) SH_RS2 :: nat where "SH_RS2 \<equiv> 20"
abbreviation (input) SH_RS2C :: nat where "SH_RS2C \<equiv> 2"

definition RV_X :: "ulong \<Rightarrow> nat \<Rightarrow> nat \<Rightarrow> ulong" where
  "RV_X x s n = shr x s AND (shl 1 n - 1)"

definition RVC_RS2S :: "ulong \<Rightarrow> ulong" where
  "RVC_RS2S insn = 8 + RV_X insn SH_RS2C 3"

text \<open>\<open>SHIFT_RIGHT\<close> of a position less the logarithm of the register size, which may be negative.\<close>

definition SHIFT_RIGHT :: "ulong \<Rightarrow> int \<Rightarrow> ulong" where
  "SHIFT_RIGHT x y = (if y < 0 then shl x (nat (- y)) else shr x (nat y))"

definition REG_MASK :: ulong where
  "REG_MASK = shl 1 (5 + LOG_REGBYTES) - shl 1 LOG_REGBYTES"

definition REG_OFFSET :: "ulong \<Rightarrow> nat \<Rightarrow> ulong" where
  "REG_OFFSET insn pos = SHIFT_RIGHT insn (int pos - int LOG_REGBYTES) AND REG_MASK"

text \<open>The byte offset selects a word of the saved registers, or an entry of the table of floating point moves.\<close>

definition REG_PTR :: "ulong \<Rightarrow> nat \<Rightarrow> nat" where
  "REG_PTR insn pos = unat (REG_OFFSET insn pos) div 8"

definition GET_RM :: "ulong \<Rightarrow> ulong" where "GET_RM insn = shr insn 12 AND 7"
definition GET_RS1 :: "ulong \<Rightarrow> sbi_trap_regs \<Rightarrow> ulong" where "GET_RS1 insn regs = gpr regs (REG_PTR insn SH_RS1)"
definition GET_RS2 :: "ulong \<Rightarrow> sbi_trap_regs \<Rightarrow> ulong" where "GET_RS2 insn regs = gpr regs (REG_PTR insn SH_RS2)"
definition GET_RS2S :: "ulong \<Rightarrow> sbi_trap_regs \<Rightarrow> ulong" where "GET_RS2S insn regs = gpr regs (REG_PTR (RVC_RS2S insn) 0)"
definition GET_RS2C :: "ulong \<Rightarrow> sbi_trap_regs \<Rightarrow> ulong" where "GET_RS2C insn regs = gpr regs (REG_PTR insn SH_RS2C)"

definition SET_RD :: "ulong \<Rightarrow> sbi_trap_regs \<Rightarrow> ulong \<Rightarrow> sbi_trap_regs" where
  "SET_RD insn regs val = regs\<lparr>gpr := (gpr regs)(REG_PTR insn SH_RD := val)\<rparr>"

definition INSN_IS_16BIT :: "ulong \<Rightarrow> bool" where
  "INSN_IS_16BIT insn \<longleftrightarrow> insn AND INSN_16BIT_MASK \<noteq> INSN_16BIT_MASK"

definition INSN_LEN :: "ulong \<Rightarrow> ulong" where
  "INSN_LEN insn = (if INSN_IS_16BIT insn then 2 else 4)"

section \<open>CSR emulation\<close>

text \<open>Whether the counter enable register lets user mode read a counter.\<close>

definition counter_enabled :: "ulong \<Rightarrow> nat \<Rightarrow> bool" where
  "counter_enabled cen n \<longleftrightarrow> shr cen n AND 1 \<noteq> 0"

definition csr_msg :: "'d cfg \<Rightarrow> nat \<Rightarrow> string \<Rightarrow> nat \<Rightarrow> 'd sys \<Rightarrow> ('d sys, nat) outcome" where
  "csr_msg c h fn csr_num =
     sbi_dprintf c h (cs ''%s: hartid%d: invalid csr_num=0x%x\<newline>'')
       [Vstr (Some (cs fn)), Vword (of_nat h), Vword (of_nat csr_num)]"

text \<open>The value is 0 when the result code is not, where the code leaves it unset.\<close>

definition sbi_emulate_csr_read :: "'d cfg \<Rightarrow> nat \<Rightarrow> nat \<Rightarrow> sbi_trap_regs \<Rightarrow>
    'd sys \<Rightarrow> ('d sys, int \<times> ulong) outcome" where
  "sbi_emulate_csr_read c h csr_num regs =
     (let prev_mode = prev_mode_of regs; virt = prev_virt_of regs;
          ok = (\<lambda>m. bindM m (\<lambda>v. retM (0, v)));
          bad = seqM (csr_msg c h ''sbi_emulate_csr_read'' csr_num) (retM (SBI_ENOTSUPP, 0)) in
      bindM (if prev_mode = PRV_U then csr_read h CSR_SCOUNTEREN else retM (- 1)) (\<lambda>cen.
        if csr_num = CSR_HTIMEDELTA then
          if prev_mode = PRV_S \<and> \<not> virt then ok (sbi_timer_get_delta h) else bad
        else if csr_num = CSR_CYCLE then
          if \<not> counter_enabled cen (CSR_CYCLE - CSR_CYCLE) then retM (- 1, 0) else ok (csr_read h CSR_MCYCLE)
        else if csr_num = CSR_TIME then
          if \<not> counter_enabled cen (CSR_TIME - CSR_CYCLE) then retM (- 1, 0)
          else ok (if virt then sbi_timer_virt_value c h else sbi_timer_value c h)
        else if csr_num = CSR_INSTRET then
          if \<not> counter_enabled cen (CSR_INSTRET - CSR_CYCLE) then retM (- 1, 0) else ok (csr_read h CSR_MINSTRET)
        else if csr_num = CSR_MHPMCOUNTER3 then
          if \<not> counter_enabled cen (3 + CSR_MHPMCOUNTER3 - CSR_MHPMCOUNTER3) then retM (- 1, 0)
          else ok (csr_read h CSR_MHPMCOUNTER3)
        else if csr_num = CSR_MHPMCOUNTER4 then
          if \<not> counter_enabled cen (3 + CSR_MHPMCOUNTER4 - CSR_MHPMCOUNTER3) then retM (- 1, 0)
          else ok (csr_read h CSR_MHPMCOUNTER4)
        else if csr_num = CSR_MHPMEVENT3 then ok (csr_read h CSR_MHPMEVENT3)
        else if csr_num = CSR_MHPMEVENT4 then ok (csr_read h CSR_MHPMEVENT4)
        else bad))"

definition sbi_emulate_csr_write :: "'d cfg \<Rightarrow> nat \<Rightarrow> nat \<Rightarrow> sbi_trap_regs \<Rightarrow> ulong \<Rightarrow>
    'd sys \<Rightarrow> ('d sys, int) outcome" where
  "sbi_emulate_csr_write c h csr_num regs csr_val =
     (let prev_mode = prev_mode_of regs; virt = prev_virt_of regs;
          bad = seqM (csr_msg c h ''sbi_emulate_csr_write'' csr_num) (retM SBI_ENOTSUPP) in
      if csr_num = CSR_HTIMEDELTA then
        if prev_mode = PRV_S \<and> \<not> virt then seqM (sbi_timer_set_delta h csr_val) (retM 0) else bad
      else if csr_num = CSR_CYCLE then seqM (csr_write h CSR_MCYCLE csr_val) (retM 0)
      else if csr_num = CSR_INSTRET then seqM (csr_write h CSR_MINSTRET csr_val) (retM 0)
      else if csr_num = CSR_MHPMCOUNTER3 then seqM (csr_write h CSR_MHPMCOUNTER3 csr_val) (retM 0)
      else if csr_num = CSR_MHPMCOUNTER4 then seqM (csr_write h CSR_MHPMCOUNTER4 csr_val) (retM 0)
      else if csr_num = CSR_MHPMEVENT3 then seqM (csr_write h CSR_MHPMEVENT3 csr_val) (retM 0)
      else if csr_num = CSR_MHPMEVENT4 then seqM (csr_write h CSR_MHPMEVENT4 csr_val) (retM 0)
      else bad)"

section \<open>Illegal instructions\<close>

type_synonym 'd insn_handler = "ulong \<Rightarrow> sbi_trap_regs \<Rightarrow> 'd sys \<Rightarrow> ('d sys, int \<times> sbi_trap_regs) outcome"

definition truly_illegal_insn :: "'d cfg \<Rightarrow> nat \<Rightarrow> 'd insn_handler" where
  "truly_illegal_insn c h insn regs =
     sbi_trap_redirect c h regs
       \<lparr>epc = mepc regs, cause = CAUSE_ILLEGAL_INSTRUCTION, tval = insn, tval2 = 0, tinst = 0\<rparr>"

text \<open>The new value of a CSR instruction and whether it writes, by its minor opcode.\<close>

definition csr_new_val :: "ulong \<Rightarrow> ulong \<Rightarrow> ulong \<Rightarrow> ulong \<Rightarrow> (ulong \<times> bool) option" where
  "csr_new_val rm csr_val rs1_num rs1_val =
     (let do_write = (rs1_num \<noteq> 0) in
      if rm = 1 then Some (rs1_val, True)
      else if rm = 2 then Some (csr_val OR rs1_val, do_write)
      else if rm = 3 then Some (csr_val AND NOT rs1_val, do_write)
      else if rm = 5 then Some (rs1_num, True)
      else if rm = 6 then Some (csr_val OR rs1_num, do_write)
      else if rm = 7 then Some (csr_val AND NOT rs1_num, do_write)
      else None)"

definition system_opcode_insn :: "'d cfg \<Rightarrow> nat \<Rightarrow> 'd insn_handler" where
  "system_opcode_insn c h insn regs =
     (let rs1_num = shr insn 15 AND 0x1f;
          rs1_val = GET_RS1 insn regs;
          csr_num = unat (shr (ucast insn :: u32) 20) in
      bindM (sbi_emulate_csr_read c h csr_num regs) (\<lambda>(ret, csr_val).
        if ret \<noteq> 0 then truly_illegal_insn c h insn regs
        else
          (case csr_new_val (GET_RM insn) csr_val rs1_num rs1_val of
             None \<Rightarrow> truly_illegal_insn c h insn regs
           | Some (new_csr_val, do_write) \<Rightarrow>
               bindM (if do_write then sbi_emulate_csr_write c h csr_num regs new_csr_val else retM 0) (\<lambda>w.
                 if w \<noteq> 0 then truly_illegal_insn c h insn regs
                 else
                   (let regs' = SET_RD insn regs csr_val in retM (0, regs'\<lparr>mepc := mepc regs' + 4\<rparr>))))))"

definition illegal_insn_table :: "'d cfg \<Rightarrow> nat \<Rightarrow> 'd insn_handler list" where
  "illegal_insn_table c h =
     replicate 28 (truly_illegal_insn c h) @ [system_opcode_insn c h] @ replicate 3 (truly_illegal_insn c h)"

definition sbi_illegal_insn_handler :: "'d cfg \<Rightarrow> nat \<Rightarrow> 'd insn_handler" where
  "sbi_illegal_insn_handler c h insn regs =
     (let table = (\<lambda>insn.
        bindM (liftO (rd (illegal_insn_table c h) (unat (shr (insn AND 0x7c) 2)))) (\<lambda>f. f insn regs)) in
      if insn AND 3 \<noteq> 3 then
        bindM (if insn = 0 then sbi_get_insn c h (mepc regs) else retM (insn, None)) (\<lambda>(insn, uptrap).
          case uptrap of
            Some t \<Rightarrow> sbi_trap_redirect c h regs (t\<lparr>epc := mepc regs\<rparr>)
          | None \<Rightarrow> if insn AND 3 \<noteq> 3 then truly_illegal_insn c h insn regs else table insn)
      else table insn)"

section \<open>Misaligned loads and stores\<close>

text \<open>The bytes of \<open>union reg_data\<close>.\<close>

definition set_byte :: "ulong \<Rightarrow> nat \<Rightarrow> u8 \<Rightarrow> ulong" where
  "set_byte v i b = (v AND NOT (shl 0xff (8 * i))) OR shl (ucast b) (8 * i)"

definition get_byte :: "ulong \<Rightarrow> nat \<Rightarrow> u8" where
  "get_byte v i = ucast (shr v (8 * i))"

text \<open>The trapped instruction, transformed by the hardware or fetched.\<close>

definition trapped_insn :: "'d cfg \<Rightarrow> nat \<Rightarrow> ulong \<Rightarrow> sbi_trap_regs \<Rightarrow>
    'd sys \<Rightarrow> ('d sys, ulong \<times> sbi_trap_info option) outcome" where
  "trapped_insn c h tinst' regs =
     (if tinst' AND 1 \<noteq> 0 then retM (tinst' OR INSN_16BIT_MASK, None) else sbi_get_insn c h (mepc regs))"

text \<open>
  How a load is carried out: whether the target is a floating point register, the number of bytes, the shift,
  and the instruction word from which the target and the length are taken.
\<close>

record load_form =
  lf_fp :: bool
  lf_len :: nat
  lf_shift :: nat
  lf_insn :: ulong

definition decode_load :: "ulong \<Rightarrow> load_form option" where
  "decode_load insn =
     (let form = (\<lambda>fp len shift i. Some \<lparr>lf_fp = fp, lf_len = len, lf_shift = shift, lf_insn = i\<rparr>);
          rd_field = shr insn SH_RD AND 0x1f in
      if insn AND INSN_MASK_LW = INSN_MATCH_LW then form False 4 (8 * (8 - 4)) insn
      else if insn AND INSN_MASK_LD = INSN_MATCH_LD then form False 8 (8 * (8 - 8)) insn
      else if insn AND INSN_MASK_LWU = INSN_MATCH_LWU then form False 4 0 insn
      else if insn AND INSN_MASK_FLD = INSN_MATCH_FLD then form True 8 0 insn
      else if insn AND INSN_MASK_FLW = INSN_MATCH_FLW then form True 4 0 insn
      else if insn AND INSN_MASK_LH = INSN_MATCH_LH then form False 2 (8 * (8 - 2)) insn
      else if insn AND INSN_MASK_LHU = INSN_MATCH_LHU then form False 2 0 insn
      else if insn AND INSN_MASK_C_LD = INSN_MATCH_C_LD then form False 8 (8 * (8 - 8)) (shl (RVC_RS2S insn) SH_RD)
      else if insn AND INSN_MASK_C_LDSP = INSN_MATCH_C_LDSP \<and> rd_field \<noteq> 0 then form False 8 (8 * (8 - 8)) insn
      else if insn AND INSN_MASK_C_LW = INSN_MATCH_C_LW then form False 4 (8 * (8 - 4)) (shl (RVC_RS2S insn) SH_RD)
      else if insn AND INSN_MASK_C_LWSP = INSN_MATCH_C_LWSP \<and> rd_field \<noteq> 0 then form False 4 (8 * (8 - 4)) insn
      else if insn AND INSN_MASK_C_FLD = INSN_MATCH_C_FLD then form True 8 0 (shl (RVC_RS2S insn) SH_RD)
      else if insn AND INSN_MASK_C_FLDSP = INSN_MATCH_C_FLDSP then form True 8 0 insn
      else None)"

text \<open>The loop over the bytes; the first argument counts the bytes left, the second is \<open>i\<close>.\<close>

primrec load_bytes :: "nat \<Rightarrow> nat \<Rightarrow> 'd cfg \<Rightarrow> nat \<Rightarrow> ulong \<Rightarrow> ulong \<Rightarrow>
    'd sys \<Rightarrow> ('d sys, ulong \<times> sbi_trap_info option) outcome" where
  "load_bytes 0 i c h addr val = retM (val, None)"
| "load_bytes (Suc n) i c h addr val =
     bindM (sbi_load_u8 c h (addr + of_nat i)) (\<lambda>(b, uptrap).
       case uptrap of Some t \<Rightarrow> retM (set_byte val i b, Some t)
       | None \<Rightarrow> load_bytes n (Suc i) c h addr (set_byte val i b))"

definition sbi_misaligned_load_handler :: "'d cfg \<Rightarrow> nat \<Rightarrow> ulong \<Rightarrow> ulong \<Rightarrow> ulong \<Rightarrow> sbi_trap_regs \<Rightarrow>
    'd sys \<Rightarrow> ('d sys, int \<times> sbi_trap_regs) outcome" where
  "sbi_misaligned_load_handler c h addr tval2' tinst' regs =
     bindM (trapped_insn c h tinst' regs) (\<lambda>(insn, uptrap).
       case uptrap of
         Some t \<Rightarrow> sbi_trap_redirect c h regs (t\<lparr>epc := mepc regs\<rparr>)
       | None \<Rightarrow>
           (case decode_load insn of
              None \<Rightarrow> sbi_trap_redirect c h regs
                \<lparr>epc = mepc regs, cause = CAUSE_MISALIGNED_LOAD, tval = addr, tval2 = tval2', tinst = tinst'\<rparr>
            | Some f \<Rightarrow>
                bindM (load_bytes (lf_len f) 0 c h addr 0) (\<lambda>(val, uptrap).
                  case uptrap of
                    Some t \<Rightarrow> sbi_trap_redirect c h regs (t\<lparr>epc := mepc regs\<rparr>)
                  | None \<Rightarrow>
                      bindM
                        (if \<not> lf_fp f then retM (SET_RD (lf_insn f) regs (shr (shl val (lf_shift f)) (lf_shift f)))
                         else if lf_len f = 8 then seqM (SET_F64_REG h (REG_PTR (lf_insn f) SH_RD) val) (retM regs)
                         else seqM (SET_F32_REG h (REG_PTR (lf_insn f) SH_RD) (ucast val)) (retM regs)) (\<lambda>regs'.
                      retM (0, regs'\<lparr>mepc := mepc regs' + INSN_LEN (lf_insn f)\<rparr>)))))"

text \<open>How a store is carried out: the number of bytes and the computation of the value.\<close>

definition decode_store :: "nat \<Rightarrow> sbi_trap_regs \<Rightarrow> ulong \<Rightarrow> (nat \<times> ('d sys \<Rightarrow> ('d sys, ulong) outcome)) option" where
  "decode_store h regs insn =
     (let rd_field = shr insn SH_RD AND 0x1f in
      if insn AND INSN_MASK_SW = INSN_MATCH_SW then Some (4, retM (GET_RS2 insn regs))
      else if insn AND INSN_MASK_SD = INSN_MATCH_SD then Some (8, retM (GET_RS2 insn regs))
      else if insn AND INSN_MASK_FSD = INSN_MATCH_FSD then Some (8, GET_F64_REG h (REG_PTR insn SH_RS2))
      else if insn AND INSN_MASK_FSW = INSN_MATCH_FSW then Some (4, GET_F32_REG h (REG_PTR insn SH_RS2))
      else if insn AND INSN_MASK_SH = INSN_MATCH_SH then Some (2, retM (GET_RS2 insn regs))
      else if insn AND INSN_MASK_C_SD = INSN_MATCH_C_SD then Some (8, retM (GET_RS2S insn regs))
      else if insn AND INSN_MASK_C_SDSP = INSN_MATCH_C_SDSP \<and> rd_field \<noteq> 0 then Some (8, retM (GET_RS2C insn regs))
      else if insn AND INSN_MASK_C_SW = INSN_MATCH_C_SW then Some (4, retM (GET_RS2S insn regs))
      else if insn AND INSN_MASK_C_SWSP = INSN_MATCH_C_SWSP \<and> rd_field \<noteq> 0 then Some (4, retM (GET_RS2C insn regs))
      else if insn AND INSN_MASK_C_FSD = INSN_MATCH_C_FSD then Some (8, GET_F64_REG h (REG_PTR (RVC_RS2S insn) 0))
      else if insn AND INSN_MASK_C_FSDSP = INSN_MATCH_C_FSDSP then Some (8, GET_F64_REG h (REG_PTR insn SH_RS2C))
      else None)"

primrec store_bytes :: "nat \<Rightarrow> nat \<Rightarrow> 'd cfg \<Rightarrow> nat \<Rightarrow> ulong \<Rightarrow> ulong \<Rightarrow>
    'd sys \<Rightarrow> ('d sys, sbi_trap_info option) outcome" where
  "store_bytes 0 i c h addr val = retM None"
| "store_bytes (Suc n) i c h addr val =
     bindM (sbi_store_u8 c h (addr + of_nat i) (get_byte val i)) (\<lambda>uptrap.
       case uptrap of Some t \<Rightarrow> retM (Some t) | None \<Rightarrow> store_bytes n (Suc i) c h addr val)"

definition sbi_misaligned_store_handler :: "'d cfg \<Rightarrow> nat \<Rightarrow> ulong \<Rightarrow> ulong \<Rightarrow> ulong \<Rightarrow> sbi_trap_regs \<Rightarrow>
    'd sys \<Rightarrow> ('d sys, int \<times> sbi_trap_regs) outcome" where
  "sbi_misaligned_store_handler c h addr tval2' tinst' regs =
     bindM (trapped_insn c h tinst' regs) (\<lambda>(insn, uptrap).
       case uptrap of
         Some t \<Rightarrow> sbi_trap_redirect c h regs (t\<lparr>epc := mepc regs\<rparr>)
       | None \<Rightarrow>
           (case decode_store h regs insn of
              None \<Rightarrow> sbi_trap_redirect c h regs
                \<lparr>epc = mepc regs, cause = CAUSE_MISALIGNED_STORE, tval = addr, tval2 = tval2', tinst = tinst'\<rparr>
            | Some (len, get) \<Rightarrow>
                bindM get (\<lambda>val.
                bindM (store_bytes len 0 c h addr val) (\<lambda>uptrap.
                  case uptrap of
                    Some t \<Rightarrow> sbi_trap_redirect c h regs (t\<lparr>epc := mepc regs\<rparr>)
                  | None \<Rightarrow> retM (0, regs\<lparr>mepc := mepc regs + INSN_LEN insn\<rparr>)))))"

section \<open>Fields and bytes\<close>

lemma field_mask_bits:
  "bit (0x1f :: ulong) n \<longleftrightarrow> n < 5" "bit (0xff :: ulong) n \<longleftrightarrow> n < 8" "bit (0xf8 :: ulong) n \<longleftrightarrow> 3 \<le> n \<and> n < 8"
proof -
  have m: "bit (mask k :: ulong) n \<longleftrightarrow> n < k" if "k \<le> 64" for k using that by (auto simp: bit_mask_iff)
  have e: "(0x1f :: ulong) = mask 5" "(0xff :: ulong) = mask 8" "(0xf8 :: ulong) = mask 8 AND NOT (mask 3)"
    by (simp_all add: mask_eq_exp_minus_1)
  show "bit (0x1f :: ulong) n \<longleftrightarrow> n < 5" "bit (0xff :: ulong) n \<longleftrightarrow> n < 8" unfolding e(1,2) using m by simp_all
  show "bit (0xf8 :: ulong) n \<longleftrightarrow> 3 \<le> n \<and> n < 8"
    unfolding e(3) using m [of 8] m [of 3] by (auto simp: bit_and_iff bit_not_iff)
qed

lemma REG_MASK_eq: "REG_MASK = 0xf8"
  by (simp add: REG_MASK_def shl_def)

lemma bit_SHIFT_RIGHT:
  "n < 64 \<Longrightarrow> bit (SHIFT_RIGHT x y) n \<longleftrightarrow> 0 \<le> int n + y \<and> bit x (nat (int n + y))"
proof (cases "y < 0")
  case True
  then have "n - nat (- y) = nat (int n + y)" "nat (- y) \<le> n \<longleftrightarrow> 0 \<le> int n + y" by linarith+
  then show "n < 64 \<Longrightarrow> ?thesis" using True by (auto simp: SHIFT_RIGHT_def bit_shl)
qed (simp add: SHIFT_RIGHT_def bit_shr nat_add_distrib add.commute)

lemma reg_field:
  fixes insn m5 m8 :: ulong
  assumes "\<And>n. bit m5 n \<longleftrightarrow> n < 5" "\<And>n. bit m8 n \<longleftrightarrow> 3 \<le> n \<and> n < 8"
  shows "shr (SHIFT_RIGHT insn (int pos - 3) AND m8) 3 = shr insn pos AND m5"
proof (rule bit_word_eqI)
  fix n assume "n < LENGTH(64)"
  have "bit (SHIFT_RIGHT insn (int pos - 3)) (n + 3) \<longleftrightarrow> bit insn (pos + n)" if "n < 5"
    using bit_SHIFT_RIGHT [of "n + 3" insn "int pos - 3"] that by (simp add: nat_add_distrib add.commute)
  then show "bit (shr (SHIFT_RIGHT insn (int pos - 3) AND m8) 3) n = bit (shr insn pos AND m5) n"
    using assms(2) [of "n + 3"] assms(1) [of n]
    by (auto simp: shr_def bit_drop_bit_eq bit_and_iff add.commute)
qed

lemma REG_PTR_field: "REG_PTR insn pos = unat (shr insn pos AND 0x1f)"
proof -
  have "unat (shr x 3) = unat x div 8" for x :: ulong unfolding shr_def unat_drop_bit_eq by (simp add: drop_bit_eq_div)
  then have "REG_PTR insn pos = unat (shr (REG_OFFSET insn pos) 3)" by (simp add: REG_PTR_def)
  also have "\<dots> = unat (shr insn pos AND 0x1f)"
    unfolding REG_OFFSET_def REG_MASK_eq
    using reg_field [OF field_mask_bits(1,3), of insn pos] by (simp only: of_nat_numeral)
  finally show ?thesis .
qed

lemma bit_get_byte: "bit (get_byte v i) n \<longleftrightarrow> n < 8 \<and> bit v (8 * i + n)"
  by (auto simp: get_byte_def shr_def bit_ucast_iff bit_drop_bit_eq)

lemma bit_set_byte:
  assumes "i < 8" "n < 64"
  shows "bit (set_byte v i b) n \<longleftrightarrow> (if n div 8 = i then bit b (n mod 8) else bit v n)"
proof -
  have r: "n div 8 = i \<longleftrightarrow> 8 * i \<le> n \<and> n - 8 * i < 8" by auto
  have "bit (set_byte v i b) n \<longleftrightarrow> bit v n \<and> \<not> (8 * i \<le> n \<and> n - 8 * i < 8) \<or> 8 * i \<le> n \<and> n - 8 * i < 8 \<and> bit b (n - 8 * i)"
    unfolding set_byte_def bit_or_iff bit_and_iff shl_def bit_push_bit_iff bit_not_iff bit_ucast_iff field_mask_bits
    using assms bit_imp_le_length [of b "n - 8 * i"] by auto
  also have "\<dots> \<longleftrightarrow> (if n div 8 = i then bit b (n mod 8) else bit v n)"
  proof (cases "n div 8 = i")
    case True
    then have "n - 8 * i = n mod 8" using minus_mult_div_eq_mod [of n 8] by simp
    then show ?thesis using True r by auto
  qed (use r in auto)
  finally show ?thesis .
qed

section \<open>The byte loops\<close>

lemma byte_ucast: "ucast (ucast b :: ulong) = (b :: u8)"
  by (rule bit_word_eqI) (simp add: bit_ucast_iff)

lemma load_u8_run:
  "ld_trap c h s a 1 = None \<Longrightarrow> sbi_load_u8 c h a s = Ret (mem s a, None) s"
  by (simp add: sbi_load_u8_def unpriv_load_def run_simps shl_def byte_ucast)

lemma store_u8_run:
  "st_trap c h s a 1 = None \<Longrightarrow> sbi_store_u8 c h a b s = Ret None (s\<lparr>mem := (mem s)(a := b)\<rparr>)"
  by (simp add: sbi_store_u8_def unpriv_store_def run_simps byte_ucast)

lemma load_bytes_run:
  assumes "\<And>j. i \<le> j \<Longrightarrow> j < i + n \<Longrightarrow> ld_trap c h s (addr + of_nat j) 1 = None" "i + n \<le> 8"
  shows "\<exists>v'. load_bytes n i c h addr v s = Ret (v', None) s \<and>
    (\<forall>k<64. bit v' k = (if i \<le> k div 8 \<and> k div 8 < i + n then bit (mem s (addr + of_nat (k div 8))) (k mod 8) else bit v k))"
  using assms
proof (induction n arbitrary: i v)
  case 0
  then show ?case by (auto simp: run_simps)
next
  case (Suc n)
  let ?v = "set_byte v i (mem s (addr + of_nat i))"
  from Suc.IH [of "Suc i" ?v] Suc.prems obtain v' where
    v: "load_bytes n (Suc i) c h addr ?v s = Ret (v', None) s"
    and b: "\<And>k. k < 64 \<Longrightarrow> bit v' k = (if Suc i \<le> k div 8 \<and> k div 8 < Suc i + n
      then bit (mem s (addr + of_nat (k div 8))) (k mod 8) else bit ?v k)"
    by auto
  have "load_bytes (Suc n) i c h addr v s = Ret (v', None) s"
    using Suc.prems(1) [of i] v by (simp add: run_simps load_u8_run)
  moreover have "bit v' k = (if i \<le> k div 8 \<and> k div 8 < i + Suc n
      then bit (mem s (addr + of_nat (k div 8))) (k mod 8) else bit v k)" if "k < 64" for k
    using b [OF that] bit_set_byte [of i k v] that Suc.prems(2) by auto
  ultimately show ?case by blast
qed

definition stored :: "ulong \<Rightarrow> nat \<Rightarrow> nat \<Rightarrow> ulong \<Rightarrow> (ulong \<Rightarrow> u8) \<Rightarrow> ulong \<Rightarrow> u8" where
  "stored addr i n v m = (\<lambda>a. if i \<le> unat (a - addr) \<and> unat (a - addr) < i + n then get_byte v (unat (a - addr)) else m a)"

lemma stored_Suc:
  assumes "i < 8"
  shows "stored addr (Suc i) n v (m(addr + of_nat i := get_byte v i)) = stored addr i (Suc n) v m"
proof
  fix a
  have "a = addr + of_nat i \<longleftrightarrow> unat (a - addr) = i"
  proof
    assume "unat (a - addr) = i"
    then have "of_nat i = a - addr" by auto
    then show "a = addr + of_nat i" by simp
  qed (use assms in \<open>simp add: unat_of_nat\<close>)
  then show "stored addr (Suc i) n v (m(addr + of_nat i := get_byte v i)) a = stored addr i (Suc n) v m a"
    by (auto simp: stored_def)
qed

lemma store_bytes_run:
  assumes "\<And>j m. i \<le> j \<Longrightarrow> j < i + n \<Longrightarrow> st_trap c h (s\<lparr>mem := m\<rparr>) (addr + of_nat j) 1 = None" "i + n \<le> 8"
  shows "store_bytes n i c h addr v s = Ret None (s\<lparr>mem := stored addr i n v (mem s)\<rparr>)"
  using assms
proof (induction n arbitrary: i s)
  case 0
  have "stored addr i 0 v (mem s) = mem s" by (rule ext) (auto simp: stored_def)
  then show ?case by (simp add: run_simps)
next
  case (Suc n)
  let ?s = "s\<lparr>mem := (mem s)(addr + of_nat i := get_byte v i)\<rparr>"
  have "st_trap c h s (addr + of_nat i) 1 = None" using Suc.prems(1) [of i "mem s"] by simp
  moreover have "store_bytes n (Suc i) c h addr v ?s = Ret None (?s\<lparr>mem := stored addr (Suc i) n v (mem ?s)\<rparr>)"
    using Suc.prems by (intro Suc.IH) auto
  ultimately show ?case
    using stored_Suc [of i addr n v "mem s"] Suc.prems(2) by (simp add: run_simps store_u8_run)
qed

text \<open>What a load finds where a value was stored.\<close>

lemma load_stored:
  assumes "\<And>j. j < n \<Longrightarrow> ld_trap c h s (addr + of_nat j) 1 = None" "n \<le> 8" "mem s = stored addr 0 n v m"
  shows "load_bytes n 0 c h addr 0 s = Ret (take_bit (8 * n) v, None) s"
proof -
  from load_bytes_run [of 0 n c h s addr 0] assms obtain v' where r: "load_bytes n 0 c h addr 0 s = Ret (v', None) s"
    and b: "\<And>k. k < 64 \<Longrightarrow> bit v' k = (k div 8 < n \<and> bit (mem s (addr + of_nat (k div 8))) (k mod 8))"
    by auto
  have "bit v' k = bit (take_bit (8 * n) v) k" if "k < 64" for k
  proof -
    have "unat (of_nat (k div 8) :: ulong) = k div 8" using that by (simp add: unat_of_nat)
    then have "k div 8 < n \<Longrightarrow> bit (mem s (addr + of_nat (k div 8))) (k mod 8) = bit v k"
      by (simp add: assms(3) stored_def bit_get_byte)
    moreover have "k div 8 < n \<longleftrightarrow> k < 8 * n" by (auto simp: div_less_iff_less_mult mult.commute)
    ultimately show ?thesis using b [OF that] by (auto simp: bit_take_bit_iff)
  qed
  then have "v' = take_bit (8 * n) v" by (intro bit_word_eqI) simp
  with r show ?thesis by simp
qed

lemma shift_back:
  fixes v :: ulong
  shows "k + m \<le> 64 \<Longrightarrow> shr (shl (take_bit k v) m) m = take_bit k v"
  by (intro bit_word_eqI) (auto simp: bit_shl bit_shr bit_take_bit_iff)

section \<open>Running the handlers\<close>

lemma len_transformed: "INSN_LEN (t OR INSN_16BIT_MASK) = 4"
  by (simp only: INSN_LEN_def INSN_IS_16BIT_def or_and_absorb) simp

text \<open>The integer loads and stores of more than one byte, by their minor opcode.\<close>

lemma decode_load_int:
  assumes "insn AND 0x707f = 3 OR shl (of_nat f) 12" "f \<in> (if k = 3 then {3} else {k, k + 4})" "k \<in> {1, 2, 3}"
  shows "\<exists>sh. decode_load insn = Some \<lparr>lf_fp = False, lf_len = 2 ^ k, lf_shift = sh, lf_insn = insn\<rparr> \<and> 8 * 2 ^ k + sh \<le> 64"
proof -
  from assms(2,3) consider "k = 1" "f = 1" | "k = 1" "f = 5" | "k = 2" "f = 2" | "k = 2" "f = 6" | "k = 3" "f = 3"
    by (auto split: if_splits)
  then show ?thesis using assms(1) by cases (simp_all add: decode_load_def Let_def shl_def)
qed

lemma decode_store_int:
  assumes "insn AND 0x707f = 0x23 OR shl (of_nat k) 12" "k \<in> {1, 2, 3}"
  shows "decode_store h regs insn = Some (2 ^ k, retM (GET_RS2 insn regs))"
proof -
  from assms(2) consider "k = 1" | "k = 2" | "k = 3" by auto
  then show ?thesis using assms(1) by cases (simp_all add: decode_store_def Let_def shl_def)
qed

text \<open>
  The machine register behind each emulated counter and event selector, and the bit of the counter enable
  register that controls it.
\<close>

definition csr_shadow :: "nat \<Rightarrow> (nat \<times> nat option) option" where
  "csr_shadow n =
     (if n = CSR_CYCLE then Some (CSR_MCYCLE, Some 0) else if n = CSR_INSTRET then Some (CSR_MINSTRET, Some 2)
      else if n = CSR_MHPMCOUNTER3 then Some (n, Some 3) else if n = CSR_MHPMCOUNTER4 then Some (n, Some 4)
      else if n = CSR_MHPMEVENT3 \<or> n = CSR_MHPMEVENT4 then Some (n, None) else None)"

lemma counter_enabled_bit: "counter_enabled cen n \<longleftrightarrow> bit cen n"
  using and_single_bit [of 1 0 "shr cen n"] by (simp add: counter_enabled_def bit_shr bit_1_iff)

lemma minus_1_bit: "n < 64 \<Longrightarrow> bit (- 1 :: ulong) n"
  by simp

lemma csr_read_run:
  assumes "csr_shadow n = Some (m, en)"
  shows "sbi_emulate_csr_read c h n regs s =
    Ret (if prev_mode_of regs = PRV_U \<and> (\<exists>b. en = Some b \<and> \<not> bit (csr (harts s h) CSR_SCOUNTEREN) b)
         then (- 1, 0) else (0, csr (harts s h) m)) s"
proof -
  have u: "bit (if prev_mode_of regs = PRV_U then csr (harts s h) CSR_SCOUNTEREN else - 1) b =
      (\<not> (prev_mode_of regs = PRV_U \<and> \<not> bit (csr (harts s h) CSR_SCOUNTEREN) b))" if "b < 64" for b
    using minus_1_bit [OF that] by simp
  have r: "(if prev_mode_of regs = PRV_U then csr_read h CSR_SCOUNTEREN else retM (- 1)) s =
      Ret (if prev_mode_of regs = PRV_U then csr (harts s h) CSR_SCOUNTEREN else - 1) s" by (simp add: run_simps)
  from assms consider "n = CSR_CYCLE" "m = CSR_MCYCLE" "en = Some 0" | "n = CSR_INSTRET" "m = CSR_MINSTRET" "en = Some 2"
    | "n = CSR_MHPMCOUNTER3" "m = n" "en = Some 3" | "n = CSR_MHPMCOUNTER4" "m = n" "en = Some 4"
    | "n = CSR_MHPMEVENT3" "m = n" "en = None" | "n = CSR_MHPMEVENT4" "m = n" "en = None"
    by (auto simp: csr_shadow_def split: if_splits)
  then show ?thesis
    unfolding sbi_emulate_csr_read_def Let_def run_bind r
    by cases (simp_all add: counter_enabled_bit u run_simps)
qed

lemma csr_write_run:
  assumes "csr_shadow n = Some (m, en)"
  shows "sbi_emulate_csr_write c h n regs v s = Ret 0 (upd_hart h (\<lambda>t. t\<lparr>csr := (csr t)(m := v)\<rparr>) s)"
  using assms by (auto simp: csr_shadow_def sbi_emulate_csr_write_def run_simps Let_def split: if_splits)

lemma rm_cases: "GET_RM insn \<notin> {0, 4} \<Longrightarrow> GET_RM insn \<in> {1, 2, 3, 5, 6, 7}"
proof -
  have "unat (GET_RM insn) \<le> 7" unfolding GET_RM_def using word_and_le1 [of "shr insn 12" 7] by (simp add: word_le_nat_alt)
  then have "unat (GET_RM insn) \<in> {0, 1, 2, 3, 4, 5, 6, 7}" by auto
  then show "GET_RM insn \<notin> {0, 4} \<Longrightarrow> GET_RM insn \<in> {1, 2, 3, 5, 6, 7}" by (simp add: word_unat_eq_iff)
qed

lemma new_val_run:
  fixes rm i r :: ulong
  assumes "rm \<in> {1, 2, 3, 5, 6, 7}"
  defines "x \<equiv> (if rm < 4 then r else i)"
  shows "csr_new_val rm old i r =
    Some (if rm \<in> {1, 5} then x else if rm \<in> {2, 6} then old OR x else old AND NOT x, rm \<in> {1, 5} \<or> i \<noteq> 0)"
  using assms(1) by (auto simp: csr_new_val_def x_def Let_def)

text \<open>The dispatch table has one entry that emulates, at the index of the SYSTEM opcode.\<close>

lemma opcode_fields:
  fixes insn m :: ulong
  assumes "insn AND 3 = 3"
  shows "shr (insn AND 0x7c) 2 = 28 \<longleftrightarrow> insn AND 0x7f = 0x73"
proof
  assume i: "shr (insn AND 0x7c) 2 = 28"
  have "insn AND 0x7f = (insn AND 0x7c) OR (insn AND 3)" by (simp flip: bit.conj_disj_distrib)
  moreover have "shl (shr (x AND y) 2) 2 = x AND y" if "\<And>n. bit y n \<Longrightarrow> 2 \<le> n \<and> n < 64" for x y :: ulong
  proof (rule bit_word_eqI)
    fix n assume "n < LENGTH(64)"
    moreover have "2 \<le> n \<Longrightarrow> 2 + (n - 2) = n" by simp
    ultimately show "bit (shl (shr (x AND y) 2) 2) n = bit (x AND y) n"
      using that [of n] by (cases "2 \<le> n") (auto simp: bit_shl bit_shr bit_and_iff simp del: add_2_eq_Suc)
  qed
  moreover have "2 \<le> n \<and> n < 64" if "bit (0x7c :: ulong) n" for n
  proof -
    have "(0x7c :: ulong) = shl 0x1f 2" by (simp add: shl_def)
    then have "bit (shl 0x1f 2 :: ulong) n" using that by (simp only:)
    then show ?thesis using bit_imp_le_length [of "shl 0x1f 2 :: ulong" n] by (simp add: bit_shl)
  qed
  ultimately have "insn AND 0x7f = shl 28 2 OR 3" using i assms by metis
  then show "insn AND 0x7f = 0x73" by (simp add: shl_def)
next
  assume a: "insn AND 0x7f = 0x73"
  have "insn AND 0x7c = (insn AND 0x7f) AND 0x7c" by (simp add: and.assoc)
  also have "\<dots> = 0x70" unfolding a by simp
  finally show "shr (insn AND 0x7c) 2 = 28" by (simp add: shr_def)
qed

lemma table_index: "unat (shr (insn AND 0x7c) 2 :: ulong) < 32"
proof -
  have "unat (insn AND (0x7c :: ulong)) \<le> unat (0x7c :: ulong)" by (rule word_le_nat_alt [THEN iffD1]) (rule word_and_le1)
  then show ?thesis unfolding shr_def unat_drop_bit_eq by (simp add: drop_bit_eq_div)
qed

lemma illegal_insn_run:
  assumes "insn AND 3 = 3"
  shows "sbi_illegal_insn_handler c h insn regs =
    (if insn AND 0x7f = 0x73 then system_opcode_insn c h insn regs else truly_illegal_insn c h insn regs)"
proof -
  have "illegal_insn_table c h ! i = (if i = 28 then system_opcode_insn c h else truly_illegal_insn c h)" if "i < 32" for i
    using that by (auto simp: illegal_insn_table_def nth_append nth_Cons' simp del: replicate.simps)
  moreover have i: "unat (shr (insn AND 0x7c) 2) = 28 \<longleftrightarrow> shr (insn AND 0x7c) 2 = 28"
    by (simp add: word_unat_eq_iff)
  ultimately have "rd (illegal_insn_table c h) (unat (shr (insn AND 0x7c) 2)) =
      Some (if insn AND 0x7f = 0x73 then system_opcode_insn c h else truly_illegal_insn c h)"
    using table_index [of insn] opcode_fields [OF assms] i by (simp add: rd_def illegal_insn_table_def)
  then show ?thesis using assms by (auto simp: sbi_illegal_insn_handler_def fun_eq_iff run_simps)
qed

section \<open>Properties\<close>

text \<open>
  C27: a misaligned store followed by a misaligned load of the same width at the same address, for the integer
  instructions of two, four and eight bytes, with the instructions supplied by the hardware and
  no access faulting. The store changes exactly the addressed bytes (the address may wrap around) and resumes after the
  instruction; the load puts the low bytes of the stored register into its target and changes
  nothing else. The value is extended with zeros for the signed loads LH and LW as well as for the unsigned
  ones.
\<close>

theorem misaligned_round_trip:
  fixes s :: "'d sys" and c :: "'d cfg"
  assumes "k \<in> {1, 2, 3}" "tinst1 AND 1 \<noteq> 0" "tinst2 AND 1 \<noteq> 0"
    "(tinst1 OR 3) AND 0x707f = 0x23 OR shl (of_nat k) 12" "(tinst2 OR 3) AND 0x707f = 3 OR shl (of_nat f) 12"
    "f \<in> (if k = 3 then {3} else {k, k + 4})"
    "\<And>j m. j < 2 ^ k \<Longrightarrow> st_trap c h (s\<lparr>mem := m\<rparr>) (addr + of_nat j) 1 = None"
    "\<And>j m. j < 2 ^ k \<Longrightarrow> ld_trap c h' (s\<lparr>mem := m\<rparr>) (addr + of_nat j) 1 = None"
  shows "\<exists>s'. sbi_misaligned_store_handler c h addr t1 tinst1 regs1 s = Ret (0, regs1\<lparr>mepc := mepc regs1 + 4\<rparr>) s' \<and>
    s' = s\<lparr>mem := mem s'\<rparr> \<and>
    mem s' a = (if unat (a - addr) < 2 ^ k then get_byte (gpr regs1 (unat (shr (tinst1 OR 3) 20 AND 0x1f))) (unat (a - addr)) else mem s a) \<and>
    sbi_misaligned_load_handler c h' addr t2 tinst2 regs2 s' =
      Ret (0, regs2\<lparr>gpr := (gpr regs2)(unat (shr (tinst2 OR 3) 7 AND 0x1f) :=
             take_bit (8 * 2 ^ k) (gpr regs1 (unat (shr (tinst1 OR 3) 20 AND 0x1f)))),
           mepc := mepc regs2 + 4\<rparr>) s'"
proof -
  let ?v = "gpr regs1 (unat (shr (tinst1 OR 3) 20 AND 0x1f))"
  let ?s = "s\<lparr>mem := stored addr 0 (2 ^ k) ?v (mem s)\<rparr>"
  have k: "(2::nat) ^ k \<le> 8" using assms(1) by auto
  have ds: "decode_store h regs1 (tinst1 OR 3) = Some (2 ^ k, retM (GET_RS2 (tinst1 OR 3) regs1) :: 'd sys \<Rightarrow> _)"
    by (rule decode_store_int [OF assms(4,1)])
  have st: "sbi_misaligned_store_handler c h addr t1 tinst1 regs1 s = Ret (0, regs1\<lparr>mepc := mepc regs1 + 4\<rparr>) ?s"
    using assms(2) ds store_bytes_run [of 0 "2 ^ k" c h s addr ?v] assms(7) k
    by (simp add: sbi_misaligned_store_handler_def trapped_insn_def run_simps GET_RS2_def REG_PTR_field len_transformed)
  obtain sh where d: "decode_load (tinst2 OR 3) = Some \<lparr>lf_fp = False, lf_len = 2 ^ k, lf_shift = sh, lf_insn = tinst2 OR 3\<rparr>"
    and sh: "8 * 2 ^ k + sh \<le> 64"
    using decode_load_int [OF assms(5,6,1)] by blast
  have "load_bytes (2 ^ k) 0 c h' addr 0 ?s = Ret (take_bit (8 * 2 ^ k) ?v, None) ?s"
    using assms(8) k by (intro load_stored) auto
  then have ld: "sbi_misaligned_load_handler c h' addr t2 tinst2 regs2 ?s =
      Ret (0, regs2\<lparr>gpr := (gpr regs2)(unat (shr (tinst2 OR 3) 7 AND 0x1f) := take_bit (8 * 2 ^ k) ?v), mepc := mepc regs2 + 4\<rparr>) ?s"
    using assms(3) d shift_back [OF sh, of ?v]
    by (simp add: sbi_misaligned_load_handler_def trapped_insn_def run_simps SET_RD_def REG_PTR_field len_transformed)
  show ?thesis
    using st ld by (intro exI [of _ ?s]) (simp add: stored_def)
qed

definition misaligned_demo :: "sbi_trap_regs" where
  "misaligned_demo = trap_regs0\<lparr>gpr := (\<lambda>_. 0)(5 := 0xFFFFFFFE)\<rparr>"

theorem misaligned_round_trip_witness:
  "\<exists>s'. sbi_misaligned_store_handler bare_cfg 0 0x1001 0 0x00502023 misaligned_demo zero_sys =
      Ret (0, misaligned_demo\<lparr>mepc := 0x1004\<rparr>) s' \<and> mem s' 0x1002 = 0xFF \<and>
    sbi_misaligned_load_handler bare_cfg 0 0x1001 0 0x00002303 trap_regs0 s' =
      Ret (0, trap_regs0\<lparr>gpr := (\<lambda>_. 0)(6 := 0xFFFFFFFE), mepc := 0x1004\<rparr>) s'"
proof -
  have t: "st_trap bare_cfg h s a n = None" "ld_trap bare_cfg h s a n = None" for h s a n by (simp_all add: bare_cfg_def)
  have d: "gpr misaligned_demo 5 = 0xFFFFFFFE" "mepc misaligned_demo = 0x1000" "mepc trap_regs0 = 0x1000" "gpr trap_regs0 = (\<lambda>_. 0)"
    by (simp_all add: misaligned_demo_def trap_regs0_def)
  then have "get_byte (gpr misaligned_demo 5) 1 = 0xFF" by (simp add: get_byte_def shr_def)
  then show ?thesis
    using misaligned_round_trip [of 2 "0x00502023" "0x00002303" 2 bare_cfg 0 zero_sys "0x1001" 0 0 misaligned_demo "0x1002" 0 trap_regs0] t
    by (auto simp: shl_def shr_def d)
qed

text \<open>
  C28: the emulation of CSR instructions on counters and event selectors. A trapped instruction whose opcode is not SYSTEM
  is passed to the supervisor as illegal. A CSR instruction reads the counter behind the register it names, and
  computes and conditionally writes the new value as the instruction set prescribes (write, set or clear
  bits, with a register or an immediate operand, no write for a zero operand of the last two); it
  puts the old value into its target register, resumes after the instruction and changes nothing
  else. It is passed on as illegal exactly when it came from user mode and the counter enable bit of
  the register is clear. Writing needs no privilege beyond that, and the event selectors need none at all.
\<close>

theorem csr_insn_emulated:
  fixes s :: "'d sys" and insn :: ulong and c :: "'d cfg" and h m :: nat and regs :: sbi_trap_regs
  assumes "insn AND 3 = 3" "csr_shadow (unat (shr (ucast insn :: u32) 20)) = Some (m, en)" "GET_RM insn \<notin> {0, 4}"
  defines "rm \<equiv> GET_RM insn" and "rs1 \<equiv> shr insn 15 AND 0x1f" and "old \<equiv> csr (harts s h) m"
  defines "x \<equiv> (if rm < 4 then gpr regs (unat rs1) else rs1)"
  defines "new \<equiv> (if rm \<in> {1, 5} then x else if rm \<in> {2, 6} then old OR x else old AND NOT x)"
  shows "sbi_illegal_insn_handler c h insn regs s =
    (if insn AND 0x7f \<noteq> 0x73 \<or> prev_mode_of regs = PRV_U \<and> (\<exists>b. en = Some b \<and> \<not> bit (csr (harts s h) CSR_SCOUNTEREN) b)
     then sbi_trap_redirect c h regs \<lparr>epc = mepc regs, cause = CAUSE_ILLEGAL_INSTRUCTION, tval = insn, tval2 = 0, tinst = 0\<rparr> s
     else Ret (0, regs\<lparr>gpr := (gpr regs)(unat (shr insn 7 AND 0x1f) := old), mepc := mepc regs + 4\<rparr>)
       (if rm \<in> {1, 5} \<or> rs1 \<noteq> 0 then upd_hart h (\<lambda>t. t\<lparr>csr := (csr t)(m := new)\<rparr>) s else s))"
proof (cases "insn AND 0x7f = 0x73")
  case True
  let ?bad = "prev_mode_of regs = PRV_U \<and> (\<exists>b. en = Some b \<and> \<not> bit (csr (harts s h) CSR_SCOUNTEREN) b)"
  note read = csr_read_run [OF assms(2), of c h regs s, folded old_def]
  note new = new_val_run [OF rm_cases [OF assms(3)], of old rs1 "gpr regs (unat rs1)", folded rm_def, folded x_def, folded new_def]
  show ?thesis
  proof (cases ?bad)
    case bad: True
    from read [unfolded if_P [OF bad]] show ?thesis
      unfolding illegal_insn_run [OF assms(1)] if_P [OF True] system_opcode_insn_def Let_def
      by (simp add: run_bind bad truly_illegal_insn_def)
  next
    case ok: False
    have "bindM (if w then sbi_emulate_csr_write c h (unat (shr (ucast insn :: u32) 20)) regs new else retM 0) g s =
        g 0 (if w then upd_hart h (\<lambda>t. t\<lparr>csr := (csr t)(m := new)\<rparr>) s else s)" for w and g :: "int \<Rightarrow> 'd sys \<Rightarrow> ('d sys, int \<times> sbi_trap_regs) outcome"
      using csr_write_run [OF assms(2), of c h regs new s] by (simp add: run_simps)
    then show ?thesis
      using read [unfolded if_not_P [OF ok]]
      unfolding illegal_insn_run [OF assms(1)] if_P [OF True] system_opcode_insn_def Let_def GET_RS1_def REG_PTR_field
      by (simp add: run_bind [of "sbi_emulate_csr_read _ _ _ _"] new [unfolded rm_def rs1_def] ok True run_ret SET_RD_def REG_PTR_field
          rm_def rs1_def)
  qed
next
  case False
  then show ?thesis by (simp add: illegal_insn_run [OF assms(1)] truly_illegal_insn_def)
qed

text \<open>In user mode, \<open>csrrs x6, mhpmevent3, x5\<close> sets bits of the event selector.\<close>

theorem csr_insn_emulated_witness:
  "sbi_illegal_insn_handler bare_cfg 0 0x3232a373 misaligned_demo zero_sys =
     Ret (0, misaligned_demo\<lparr>gpr := (gpr misaligned_demo)(6 := 0), mepc := 0x1004\<rparr>)
       (upd_hart 0 (\<lambda>t. t\<lparr>csr := (csr t)(CSR_MHPMEVENT3 := 0xFFFFFFFE)\<rparr>) zero_sys)"
proof -
  have d: "gpr misaligned_demo 5 = 0xFFFFFFFE" "mepc misaligned_demo = 0x1000" "csr (harts zero_sys 0) n = 0" for n
    by (simp_all add: misaligned_demo_def trap_regs0_def zero_sys_def boot_sys_def zero_hart_def)
  have f: "csr_shadow (unat (shr (ucast (0x3232a373 :: ulong) :: u32) 20)) = Some (CSR_MHPMEVENT3, None)" "GET_RM 0x3232a373 = 2"
    by (simp_all add: csr_shadow_def shr_def GET_RM_def)
  show ?thesis
    using csr_insn_emulated [OF _ f(1), of bare_cfg 0 misaligned_demo zero_sys] d f(2) by (simp add: shr_def)
qed

end
