(* ===== verification/Sbi_Format.thy ===== *)
theory Sbi_Format
  imports Sbi_Hart
begin

text \<open>
  When a formatted print returns. Whether the format loop of \<^verbatim>\<open>lib/sbi/sbi_console.c\<close> finds an argument of the right
  kind for every conversion does not depend on the values of the arguments, so that for a given
  format string it can be evaluated on blank arguments.
\<close>

section \<open>Kinds of arguments\<close>

definition blank :: "va \<Rightarrow> va" where
  "blank a = (case a of Vword _ \<Rightarrow> Vword 0 | Vstr _ \<Rightarrow> Vstr None)"

definition same_kind :: "va list \<Rightarrow> va list \<Rightarrow> bool" where
  "same_kind a b \<longleftrightarrow> map blank a = map blank b"

lemma same_kind_word: "same_kind a b \<Longrightarrow> va_word a = Some (w, r) \<Longrightarrow> \<exists>w' r'. va_word b = Some (w', r') \<and> same_kind r r'"
  by (auto simp: va_word_def same_kind_def blank_def split: list.splits va.splits)

lemma same_kind_no_word: "same_kind a b \<Longrightarrow> va_word a = None \<Longrightarrow> va_word b = None"
  by (auto simp: va_word_def same_kind_def blank_def split: list.splits va.splits)

lemma same_kind_str: "same_kind a b \<Longrightarrow> va_str a = Some (w, r) \<Longrightarrow> \<exists>w' r'. va_str b = Some (w', r') \<and> same_kind r r'"
  by (auto simp: va_str_def same_kind_def blank_def split: list.splits va.splits)

lemma same_kind_sym: "same_kind a b \<Longrightarrow> same_kind b a"
  by (simp add: same_kind_def)

section \<open>Prints that agree on whether they return\<close>

text \<open>Two computations on a list of characters both return, with related results, or both halt.\<close>

definition like :: "('a \<Rightarrow> 'b \<Rightarrow> bool) \<Rightarrow> (u8 list \<Rightarrow> (u8 list, 'a) outcome) \<Rightarrow> (u8 list \<Rightarrow> (u8 list, 'b) outcome) \<Rightarrow> bool" where
  "like P m n \<longleftrightarrow> (\<forall>t t'. case m t of Ret x _ \<Rightarrow> (case n t' of Ret y _ \<Rightarrow> P x y | Halt _ _ \<Rightarrow> False)
     | Halt _ _ \<Rightarrow> (case n t' of Ret y _ \<Rightarrow> False | Halt _ _ \<Rightarrow> True))"

lemma like_ret: "P x y \<Longrightarrow> like P (retM x) (retM y)"
  by (simp add: like_def run_simps)

lemma like_bind:
  assumes "like P m n" "\<And>x y. P x y \<Longrightarrow> like Q (f x) (g y)"
  shows "like Q (bindM m f) (bindM n g)"
  using assms unfolding like_def by (fastforce simp: run_simps split: outcome.splits)

lemma like_if: "like P m n \<Longrightarrow> like P m' n' \<Longrightarrow> like P (if b then m else m') (if b then n else n')"
  by simp

lemma like_word:
  assumes "same_kind a b"
  shows "like (\<lambda>x y. same_kind (snd x) (snd y)) (liftO (va_word a)) (liftO (va_word b))"
  using same_kind_word [OF assms] same_kind_no_word [OF assms]
  by (cases "va_word a"; cases "va_word b") (auto simp: like_def run_simps)

lemma like_str:
  assumes "same_kind a b"
  shows "like (\<lambda>x y. same_kind (snd x) (snd y)) (liftO (va_str a)) (liftO (va_str b))"
  using same_kind_str [OF assms] same_kind_str [OF same_kind_sym [OF assms]]
  by (cases "va_str a"; cases "va_str b") (auto simp: like_def run_simps)

lemma forM_collect: "forM xs collect t = Ret () (t @ xs)"
  by (induction xs arbitrary: t) (simp_all add: run_simps collect_def)

lemma like_prints: "like (\<lambda>_ _. True) (prints collect x w f) (prints collect y v g)"
  by (simp add: like_def prints_def run_simps Let_def forM_collect)

lemma printi_returns: "\<exists>n t'. printi collect i b sg w f l t = Ret n t'"
  by (simp add: printi_def prints_def run_simps Let_def forM_collect collect_def)

lemma like_printi: "like (\<lambda>_ _. True) (printi collect i b sg w f l) (printi collect i' b' sg' w' f' l')"
proof -
  have "\<exists>n t'. printi collect i b sg w f l t = Ret n t'" "\<exists>n t'. printi collect i' b' sg' w' f' l' t = Ret n t'" for t
    by (rule printi_returns)+
  then show ?thesis unfolding like_def by (metis outcome.case(1))
qed

text \<open>The results of a conversion: the rest of the format, the arguments left, and the byte count.\<close>

abbreviation (input) conv_rel :: "nat \<times> u8 list \<times> va list \<times> nat \<Rightarrow> nat \<times> u8 list \<times> va list \<times> nat \<Rightarrow> bool" where
  "conv_rel \<equiv> \<lambda>(_, f, a, k) (_, f', a', k'). f = f' \<and> same_kind a a' \<and> k = k'"

lemma like_conv_int:
  "same_kind a b \<Longrightarrow> like (\<lambda>(_, r, k) (_, r', k'). same_kind r r' \<and> k = k')
    (conv_int collect cast base sg l w f n a acnt) (conv_int collect cast base sg l w f n b acnt)"
  unfolding conv_int_def by (auto intro!: like_bind [OF like_word] like_bind [OF like_printi] like_ret)

lemma like_skip_ints:
  "same_kind a b \<Longrightarrow> like (\<lambda>(k, r) (k', r'). same_kind r r' \<and> k = k') (liftO (skip_ints k a)) (liftO (skip_ints k b))"
proof (induction k a arbitrary: b rule: skip_ints.induct)
  case (1 k a)
  show ?case
  proof (cases "k mod 8 = 0")
    case True
    then show ?thesis
      using 1(2) by (simp add: skip_ints.simps [of k a] skip_ints.simps [of k b] like_def run_simps)
  next
    case nz: False
    show ?thesis
    proof (cases "va_word a")
      case None
      with same_kind_no_word [OF 1(2)] nz show ?thesis
        by (simp add: skip_ints.simps [of k a] skip_ints.simps [of k b] like_def run_simps)
    next
      case (Some x)
      obtain w r where x: "x = (w, r)" by (cases x)
      from same_kind_word [OF 1(2) Some [unfolded x]] obtain w' r' where
        b: "va_word b = Some (w', r')" "same_kind r r'" by blast
      from 1(1) [OF nz Some x [symmetric] b(2)] show ?thesis
        using nz Some x b(1) by (simp add: skip_ints.simps [of k a] skip_ints.simps [of k b])
    qed
  qed
qed

lemma like_conv_ll: "same_kind a b \<Longrightarrow> like conv_rel (conv_ll collect fmt w f a k) (conv_ll collect fmt w f b k)"
  unfolding conv_ll_def Let_def
  by (auto intro!: like_bind [OF like_skip_ints] like_bind [OF like_word] like_if like_bind [OF like_printi] like_ret)

lemma like_conv_l: "same_kind a b \<Longrightarrow> like conv_rel (conv_l collect fmt w f a k) (conv_l collect fmt w f b k)"
  unfolding conv_l_def Let_def
  by (auto intro!: like_if like_bind [OF like_conv_int] like_ret)

lemma like_conversion:
  assumes "same_kind a b"
  shows "like conv_rel (conversion collect fmt w f a k) (conversion collect fmt w f b k)"
proof -
  have keep: "like conv_rel
      (bindM (conv_int collect cast base sg l w f n a k) (\<lambda>(n, args, acnt). retM (n, fmt, args, acnt)))
      (bindM (conv_int collect cast base sg l w f n b k) (\<lambda>(n, args, acnt). retM (n, fmt, args, acnt)))" for cast base sg l n
    using assms by (auto intro!: like_bind [OF like_conv_int] like_ret)
  have ch: "like conv_rel
      (if at_end fm = ch CHR ''c'' then
          bindM (liftO (va_word r)) (\<lambda>(v, rest).
            bindM (prints collect (if ucast v = (0 :: u8) then [] else [ucast v]) w f) (\<lambda>j. retM (n + j, fm, rest, m + 4)))
        else retM (n, fm, r, m))
      (if at_end fm = ch CHR ''c'' then
          bindM (liftO (va_word r')) (\<lambda>(v, rest).
            bindM (prints collect (if ucast v = (0 :: u8) then [] else [ucast v]) w f) (\<lambda>j. retM (n' + j, fm, rest, m + 4)))
        else retM (n', fm, r', m))" if "same_kind r r'" for fm r r' n n' m
    using that by (auto intro!: like_if like_bind [OF like_word] like_bind [OF like_prints] like_ret)
  have l: "like conv_rel (if at_end fmt = ch CHR ''l'' then conv_l collect fmt w f a k else retM (0, fmt, a, k))
      (if at_end fmt = ch CHR ''l'' then conv_l collect fmt w f b k else retM (0, fmt, b, k))"
    by (intro like_if like_conv_l like_ret assms) (simp add: assms)
  show ?thesis
    unfolding conversion_def Let_def
    apply (intro like_if keep like_conv_ll assms)
     apply (rule like_bind [OF like_str [OF assms]])
     apply (auto intro!: like_bind [OF like_prints] like_ret) [1]
    apply (rule like_bind [OF l])
    using ch apply auto
    done
qed

lemma conversion_pair:
  assumes "same_kind a b" "conversion collect fmt w f a k t = Ret (n, rest, a', k') u"
  shows "\<exists>m b' u'. conversion collect fmt w f b k t' = Ret (m, rest, b', k') u' \<and> same_kind a' b'"
proof -
  have "case conversion collect fmt w f b k t' of Ret y _ \<Rightarrow> conv_rel (n, rest, a', k') y | Halt _ _ \<Rightarrow> False"
    using spec [OF spec [OF like_conversion [OF assms(1), of fmt w f k, unfolded like_def], of t], of t'] assms(2) by simp
  then show ?thesis by (auto split: outcome.splits)
qed

lemma loop_char:
  "x \<noteq> ch CHR ''%'' \<Longrightarrow> print_loop collect (x # f) a k pc t = print_loop collect f a k (pc + 1) (t @ [x])"
  by (simp add: print_loop.simps(2) [of collect x] collect_def [of x t])

lemma loop_percent:
  "print_loop collect (ch CHR ''%'' # ch CHR ''%'' # f) a k pc t = print_loop collect f a k (pc + 1) (t @ [ch CHR ''%''])"
  by (subst print_loop.simps(2)) (simp add: collect_def)

lemma loop_conv:
  "y \<noteq> ch CHR ''%'' \<Longrightarrow> read_flags (y # f) = (spec, flags, width) \<Longrightarrow>
   print_loop collect (ch CHR ''%'' # y # f) a k pc t =
     (case conversion collect spec width flags a k t of Halt r s' \<Rightarrow> Halt r s'
      | Ret (n, rest, args', acnt') s' \<Rightarrow>
          (case rest of [] \<Rightarrow> Halt BadAccess s' | _ # rest' \<Rightarrow> print_loop collect rest' args' acnt' (pc + n) s'))"
  by (subst print_loop.simps(2)) simp

lemma print_loop_like:
  assumes "same_kind a b" "print_loop collect fmt a k pc t = Ret n u"
  shows "\<exists>n' u'. print_loop collect fmt b k pc' t' = Ret n' u'"
  using assms
proof (induction fmt arbitrary: a b k pc pc' t t' n u rule: length_induct)
  case (1 fmt)
  show ?case
  proof (cases fmt)
    case (Cons x fmt1)
    have step: "\<exists>n' u'. print_loop collect g b k p v = Ret n' u'"
      if "length g < length fmt" "print_loop collect g a k q v' = Ret n u" for g p v q v'
      using 1 that by blast
    show ?thesis
    proof (cases "x = ch CHR ''%'' \<and> fmt1 \<noteq> [] \<and> hd fmt1 \<noteq> ch CHR ''%''")
      case False
      then consider "x \<noteq> ch CHR ''%''" | "x = ch CHR ''%''" "fmt1 = []"
        | fmt2 where "x = ch CHR ''%''" "fmt1 = ch CHR ''%'' # fmt2" by (cases fmt1) auto
      then show ?thesis
      proof cases
        case 1
        with step [of fmt1] \<open>print_loop collect fmt a k pc t = Ret n u\<close> show ?thesis
          unfolding Cons loop_char [OF 1] by simp
      next
        case 2
        then show ?thesis by (simp add: Cons print_loop.simps)
      next
        case 3
        with step [of fmt2] \<open>print_loop collect fmt a k pc t = Ret n u\<close> show ?thesis
          unfolding Cons 3 loop_percent by simp
      qed
    next
      case True
      then obtain y fmt2 where f: "fmt1 = y # fmt2" "x = ch CHR ''%''" "y \<noteq> ch CHR ''%''" by (cases fmt1) auto
      obtain spec flags width where r: "read_flags fmt1 = (spec, flags, width)" by (cases "read_flags fmt1")
      from 1(3) obtain m rest a' k' v where c: "conversion collect spec width flags a k t = Ret (m, rest, a', k') v"
        unfolding Cons f(1,2) loop_conv [OF f(3) r [unfolded f(1)]] by (auto split: outcome.splits)
      from 1(3) c obtain z rest' where z: "rest = z # rest'" "print_loop collect rest' a' k' (pc + m) v = Ret n u"
        unfolding Cons f(1,2) loop_conv [OF f(3) r [unfolded f(1)]] by (auto split: list.splits)
      from conversion_pair [OF 1(2) c] obtain m' b' v' where d: "conversion collect spec width flags b k t' = Ret (m', rest, b', k') v'"
        "same_kind a' b'" by blast
      have "length rest \<le> length fmt1" using conversion_length [OF c] read_flags_length [OF r] by simp
      then have "length rest' < length fmt" using z(1) by (simp add: Cons)
      with 1(1) d(2) z(2) obtain n' u' where "print_loop collect rest' b' k' (pc' + m') v' = Ret n' u'" by blast
      then show ?thesis unfolding Cons f(1,2) loop_conv [OF f(3) r [unfolded f(1)]] by (simp add: d(1) z(1))
    qed
  qed (simp add: print_loop.simps)
qed

text \<open>A format that fits the kinds of its arguments, by evaluation on blank ones.\<close>

definition fits :: "string \<Rightarrow> va list \<Rightarrow> bool" where
  "fits fmt args \<longleftrightarrow> (case fmt_chars (cs fmt) (map blank args) of Ret _ _ \<Rightarrow> True | Halt _ _ \<Rightarrow> False)"

lemma printf_returns:
  assumes "fits fmt args"
  shows "\<exists>n d. sbi_printf c (cs fmt) args s = Ret n (s\<lparr>dev := d\<rparr>)"
proof -
  have "blank (blank x) = blank x" for x by (auto simp: blank_def split: va.splits)
  then have "same_kind (map blank args) args" by (simp add: same_kind_def)
  moreover obtain m u where "print_loop collect (cs fmt) (map blank args) 0 0 [] = Ret m u"
    using assms by (auto simp: fits_def fmt_chars_def split: outcome.splits)
  ultimately obtain n t where "fmt_chars (cs fmt) args = Ret n t"
    unfolding fmt_chars_def using print_loop_like by blast
  from printf_dev [OF this, of c s] show ?thesis by blast
qed

lemma printfM_returns: "fits fmt args \<Longrightarrow> \<exists>d. printfM c fmt args s = Ret () (s\<lparr>dev := d\<rparr>)"
  using printf_returns [of fmt args c s] by (auto simp: printfM_def run_simps)

lemma blank_simps [simp]: "blank (Vword w) = Vword 0" "blank (Vstr t) = Vstr None"
  by (simp_all add: blank_def)

text \<open>Computations that return and change only the device.\<close>

definition prints_only :: "('d sys \<Rightarrow> ('d sys, unit) outcome) \<Rightarrow> bool" where
  "prints_only m \<longleftrightarrow> (\<forall>s. \<exists>d. m s = Ret () (s\<lparr>dev := d\<rparr>))"

lemma same_dev: "\<exists>d. s = s\<lparr>dev := d\<rparr>"
  by (rule exI [of _ "dev s"]) simp

lemma prints_only_printf: "fits fmt args \<Longrightarrow> prints_only (printfM c fmt args)"
  by (simp add: prints_only_def printfM_returns)

lemma prints_only_seq: "prints_only m \<Longrightarrow> prints_only n \<Longrightarrow> prints_only (seqM m n)"
  unfolding prints_only_def
proof
  fix s
  assume m: "\<forall>s. \<exists>d. m s = Ret () (s\<lparr>dev := d\<rparr>)" and n: "\<forall>s. \<exists>d. n s = Ret () (s\<lparr>dev := d\<rparr>)"
  obtain d where "m s = Ret () (s\<lparr>dev := d\<rparr>)" using m by blast
  moreover obtain e where "n (s\<lparr>dev := d\<rparr>) = Ret () (s\<lparr>dev := d\<rparr>\<lparr>dev := e\<rparr>)" using n by blast
  ultimately show "\<exists>d. seqM m n s = Ret () (s\<lparr>dev := d\<rparr>)" by (auto simp: run_simps)
qed

lemma prints_only_when: "prints_only m \<Longrightarrow> prints_only (whenM b m)"
  by (simp add: prints_only_def run_simps same_dev)

lemma prints_only_forM: "(\<And>x. prints_only (f x)) \<Longrightarrow> prints_only (forM xs f)"
proof (induction xs)
  case Nil
  show ?case by (simp add: prints_only_def run_simps same_dev)
qed (simp add: prints_only_seq)

lemma prints_then:
  assumes "prints_only m" "\<And>s. \<exists>d. n s = Halt r (s\<lparr>dev := d\<rparr>)"
  shows "\<exists>d. seqM m n s = Halt r (s\<lparr>dev := d\<rparr>)"
proof -
  obtain d where "m s = Ret () (s\<lparr>dev := d\<rparr>)" using assms(1) by (auto simp: prints_only_def)
  moreover obtain e where "n (s\<lparr>dev := d\<rparr>) = Halt r (s\<lparr>dev := d\<rparr>\<lparr>dev := e\<rparr>)" using assms(2) by blast
  ultimately show ?thesis by (auto simp: run_simps)
qed

end
