(* ===== verification/Sbi_Ecall.thy ===== *)
theory Sbi_Ecall
  imports Sbi_Emulate Sbi_Format
begin

text \<open>
  Calls of the supervisor into the firmware: the registry of extensions and the call handler of
  \<^verbatim>\<open>lib/sbi/sbi_ecall.c\<close>, and the handlers of the extensions of \<^verbatim>\<open>lib/sbi/sbi_ecall_base.c\<close>, \<^verbatim>\<open>sbi_ecall_hsm.c\<close>,
  \<^verbatim>\<open>sbi_ecall_legacy.c\<close>, \<^verbatim>\<open>sbi_ecall_replace.c\<close> and \<^verbatim>\<open>sbi_ecall_vendor.c\<close>.

  The seven extension objects are the values of the datatype \<open>sbi_ecall_extension\<close>, with their fields as
  functions; the linked list of registered extensions is a list of them. A handler returns its
  result code with the values it left in \<open>out_val\<close> and \<open>out_trap\<close>, both zero before the call.
\<close>

section \<open>Interface constants\<close>

abbreviation (input) SBI_EXT_0_1_SET_TIMER :: ulong where "SBI_EXT_0_1_SET_TIMER \<equiv> 0x0"
abbreviation (input) SBI_EXT_0_1_CONSOLE_PUTCHAR :: ulong where "SBI_EXT_0_1_CONSOLE_PUTCHAR \<equiv> 0x1"
abbreviation (input) SBI_EXT_0_1_CONSOLE_GETCHAR :: ulong where "SBI_EXT_0_1_CONSOLE_GETCHAR \<equiv> 0x2"
abbreviation (input) SBI_EXT_0_1_CLEAR_IPI :: ulong where "SBI_EXT_0_1_CLEAR_IPI \<equiv> 0x3"
abbreviation (input) SBI_EXT_0_1_SEND_IPI :: ulong where "SBI_EXT_0_1_SEND_IPI \<equiv> 0x4"
abbreviation (input) SBI_EXT_0_1_REMOTE_FENCE_I :: ulong where "SBI_EXT_0_1_REMOTE_FENCE_I \<equiv> 0x5"
abbreviation (input) SBI_EXT_0_1_REMOTE_SFENCE_VMA :: ulong where "SBI_EXT_0_1_REMOTE_SFENCE_VMA \<equiv> 0x6"
abbreviation (input) SBI_EXT_0_1_REMOTE_SFENCE_VMA_ASID :: ulong where
  "SBI_EXT_0_1_REMOTE_SFENCE_VMA_ASID \<equiv> 0x7"
abbreviation (input) SBI_EXT_0_1_SHUTDOWN :: ulong where "SBI_EXT_0_1_SHUTDOWN \<equiv> 0x8"
abbreviation (input) SBI_EXT_BASE :: ulong where "SBI_EXT_BASE \<equiv> 0x10"
abbreviation (input) SBI_EXT_TIME :: ulong where "SBI_EXT_TIME \<equiv> 0x54494D45"
abbreviation (input) SBI_EXT_IPI :: ulong where "SBI_EXT_IPI \<equiv> 0x735049"
abbreviation (input) SBI_EXT_RFENCE :: ulong where "SBI_EXT_RFENCE \<equiv> 0x52464E43"
abbreviation (input) SBI_EXT_HSM :: ulong where "SBI_EXT_HSM \<equiv> 0x48534D"
abbreviation (input) SBI_EXT_VENDOR_START :: ulong where "SBI_EXT_VENDOR_START \<equiv> 0x09000000"
abbreviation (input) SBI_EXT_VENDOR_END :: ulong where "SBI_EXT_VENDOR_END \<equiv> 0x09FFFFFF"
abbreviation (input) SBI_SPEC_VERSION_MAJOR_OFFSET :: nat where "SBI_SPEC_VERSION_MAJOR_OFFSET \<equiv> 24"
abbreviation (input) SBI_SPEC_VERSION_MAJOR_MASK :: ulong where "SBI_SPEC_VERSION_MAJOR_MASK \<equiv> 0x7f"
abbreviation (input) SBI_ECALL_VERSION_MAJOR :: ulong where "SBI_ECALL_VERSION_MAJOR \<equiv> 0"
abbreviation (input) SBI_ECALL_VERSION_MINOR :: ulong where "SBI_ECALL_VERSION_MINOR \<equiv> 2"
abbreviation (input) OPENSBI_VERSION :: ulong where "OPENSBI_VERSION \<equiv> 8"
abbreviation (input) SBI_PLATFORM_RESET_SHUTDOWN :: u32 where "SBI_PLATFORM_RESET_SHUTDOWN \<equiv> 0"
abbreviation (input) SBI_LAST_ERR :: int where "SBI_LAST_ERR \<equiv> - 6"
abbreviation (input) SBI_ERR_FAILED :: int where "SBI_ERR_FAILED \<equiv> - 1"

section \<open>Registry of extensions\<close>

definition sbi_ecall_version_major :: u16 where "sbi_ecall_version_major = 0"
definition sbi_ecall_version_minor :: u16 where "sbi_ecall_version_minor = 2"

definition sbi_ecall_get_impid :: "'d sys \<Rightarrow> ('d sys, ulong) outcome" where
  "sbi_ecall_get_impid = getM ecall_impid"

definition sbi_ecall_set_impid :: "ulong \<Rightarrow> 'd sys \<Rightarrow> ('d sys, unit) outcome" where
  "sbi_ecall_set_impid impid = modM (\<lambda>s. s\<lparr>ecall_impid := impid\<rparr>)"

primrec extid_start :: "sbi_ecall_extension \<Rightarrow> ulong" where
  "extid_start ecall_time = SBI_EXT_TIME"
| "extid_start ecall_rfence = SBI_EXT_RFENCE"
| "extid_start ecall_ipi = SBI_EXT_IPI"
| "extid_start ecall_base = SBI_EXT_BASE"
| "extid_start ecall_hsm = SBI_EXT_HSM"
| "extid_start ecall_legacy = SBI_EXT_0_1_SET_TIMER"
| "extid_start ecall_vendor = SBI_EXT_VENDOR_START"

primrec extid_end :: "sbi_ecall_extension \<Rightarrow> ulong" where
  "extid_end ecall_time = SBI_EXT_TIME"
| "extid_end ecall_rfence = SBI_EXT_RFENCE"
| "extid_end ecall_ipi = SBI_EXT_IPI"
| "extid_end ecall_base = SBI_EXT_BASE"
| "extid_end ecall_hsm = SBI_EXT_HSM"
| "extid_end ecall_legacy = SBI_EXT_0_1_SHUTDOWN"
| "extid_end ecall_vendor = SBI_EXT_VENDOR_END"

definition sbi_ecall_find_extension :: "ulong \<Rightarrow> 'd sys \<Rightarrow> ('d sys, sbi_ecall_extension option) outcome" where
  "sbi_ecall_find_extension extid =
     getM (\<lambda>s. List.find (\<lambda>t. extid_start t \<le> extid \<and> extid \<le> extid_end t) (ecall_exts_list s))"

text \<open>All extension objects have a handler, so the check for a null handler does not apply.\<close>

definition sbi_ecall_register_extension :: "sbi_ecall_extension option \<Rightarrow> 'd sys \<Rightarrow> ('d sys, int) outcome" where
  "sbi_ecall_register_extension ext =
     (case ext of
        None \<Rightarrow> retM SBI_EINVAL
      | Some e \<Rightarrow>
          if extid_end e < extid_start e then retM SBI_EINVAL
          else
            bindM (getM ecall_exts_list) (\<lambda>l.
              if list_all (\<lambda>t. extid_end t < extid_start e \<or> extid_end e < extid_start t) l
              then seqM (modM (\<lambda>s. s\<lparr>ecall_exts_list := ecall_exts_list s @ [e]\<rparr>)) (retM 0)
              else retM SBI_EINVAL))"

definition sbi_ecall_unregister_extension :: "sbi_ecall_extension option \<Rightarrow> 'd sys \<Rightarrow> ('d sys, unit) outcome" where
  "sbi_ecall_unregister_extension ext =
     (case ext of
        None \<Rightarrow> retM ()
      | Some e \<Rightarrow>
          bindM (getM ecall_exts_list) (\<lambda>l.
            whenM (e \<in> set l) (modM (\<lambda>s. s\<lparr>ecall_exts_list := remove1 e (ecall_exts_list s)\<rparr>))))"

definition sbi_ecall_init :: "'d sys \<Rightarrow> ('d sys, int) outcome" where
  "sbi_ecall_init =
     bindM (sbi_ecall_register_extension (Some ecall_time)) (\<lambda>ret. if ret \<noteq> 0 then retM ret else
     bindM (sbi_ecall_register_extension (Some ecall_rfence)) (\<lambda>ret. if ret \<noteq> 0 then retM ret else
     bindM (sbi_ecall_register_extension (Some ecall_ipi)) (\<lambda>ret. if ret \<noteq> 0 then retM ret else
     bindM (sbi_ecall_register_extension (Some ecall_base)) (\<lambda>ret. if ret \<noteq> 0 then retM ret else
     bindM (sbi_ecall_register_extension (Some ecall_hsm)) (\<lambda>ret. if ret \<noteq> 0 then retM ret else
     bindM (sbi_ecall_register_extension (Some ecall_legacy)) (\<lambda>ret. if ret \<noteq> 0 then retM ret else
     bindM (sbi_ecall_register_extension (Some ecall_vendor)) (\<lambda>ret. if ret \<noteq> 0 then retM ret else
       retM 0)))))))"

section \<open>Extension handlers\<close>

type_synonym 'd ecall_fn = "'d sys \<Rightarrow> ('d sys, int \<times> ulong \<times> sbi_trap_info) outcome"

definition zero_trap :: sbi_trap_info where
  "zero_trap = \<lparr>epc = 0, cause = 0, tval = 0, tval2 = 0, tinst = 0\<rparr>"

text \<open>A result code that leaves the output value and the trap as they were.\<close>

definition ret_code :: "('d sys \<Rightarrow> ('d sys, int) outcome) \<Rightarrow> 'd ecall_fn" where
  "ret_code m = bindM m (\<lambda>ret. retM (ret, 0, zero_trap))"

definition ret_val :: "('d sys \<Rightarrow> ('d sys, ulong) outcome) \<Rightarrow> 'd ecall_fn" where
  "ret_val m = bindM m (\<lambda>v. retM (0, v, zero_trap))"

definition sbi_ecall_vendor_probe :: "'d cfg \<Rightarrow> ulong \<Rightarrow> ulong" where
  "sbi_ecall_vendor_probe c extid = of_int (sbi_platform_vendor_ext_check c extid)"

definition sbi_ecall_vendor_handler :: "'d cfg \<Rightarrow> ulong \<Rightarrow> ulong \<Rightarrow> ulong list \<Rightarrow> 'd ecall_fn" where
  "sbi_ecall_vendor_handler c extid funcid args = sbi_platform_vendor_ext_provider c extid funcid args 0 zero_trap"

text \<open>Only the vendor extension has a probe function of its own.\<close>

definition sbi_ecall_base_probe :: "'d cfg \<Rightarrow> ulong \<Rightarrow> 'd ecall_fn" where
  "sbi_ecall_base_probe c extid =
     bindM (sbi_ecall_find_extension extid) (\<lambda>ext.
       case ext of
         None \<Rightarrow> retM (0, 0, zero_trap)
       | Some e \<Rightarrow> retM (0, if e = ecall_vendor then sbi_ecall_vendor_probe c extid else 1, zero_trap))"

definition sbi_ecall_base_handler :: "'d cfg \<Rightarrow> nat \<Rightarrow> ulong \<Rightarrow> ulong list \<Rightarrow> 'd ecall_fn" where
  "sbi_ecall_base_handler c h funcid args =
     (if funcid = 0 then
        ret_val (retM ((shl SBI_ECALL_VERSION_MAJOR SBI_SPEC_VERSION_MAJOR_OFFSET AND
                        shl SBI_SPEC_VERSION_MAJOR_MASK SBI_SPEC_VERSION_MAJOR_OFFSET) OR SBI_ECALL_VERSION_MINOR))
      else if funcid = 1 then ret_val sbi_ecall_get_impid
      else if funcid = 2 then ret_val (retM OPENSBI_VERSION)
      else if funcid = 4 then ret_val (csr_read h CSR_MVENDORID)
      else if funcid = 5 then ret_val (csr_read h CSR_MARCHID)
      else if funcid = 6 then ret_val (csr_read h CSR_MIMPID)
      else if funcid = 3 then sbi_ecall_base_probe c (args ! 0)
      else ret_code (retM SBI_ENOTSUPP))"

text \<open>The hart number is passed on as a 32-bit value.\<close>

definition hart_arg :: "ulong \<Rightarrow> nat" where
  "hart_arg a = unat (ucast a :: u32)"

definition sbi_ecall_hsm_handler :: "'d cfg \<Rightarrow> nat \<Rightarrow> ulong \<Rightarrow> ulong list \<Rightarrow> 'd ecall_fn" where
  "sbi_ecall_hsm_handler c h funcid args =
     bindM (sbi_scratch_thishart_ptr h) (\<lambda>sc.
     bindM
       (if funcid = 0 then sbi_hsm_hart_start c h sc (hart_arg (args ! 0)) (args ! 1) (args ! 2)
        else if funcid = 1 then sbi_hsm_hart_stop c h (sbi_exit c h) sc True
        else if funcid = 2 then
          bindM (sbi_hsm_hart_get_state (hart_arg (args ! 0))) (\<lambda>hstate. retM (sbi_hsm_hart_state_to_status hstate))
        else retM SBI_ENOTSUPP) (\<lambda>ret.
     if 0 \<le> ret then retM (0, of_int ret, zero_trap) else retM (ret, 0, zero_trap)))"

definition sbi_ecall_time_handler :: "'d cfg \<Rightarrow> nat \<Rightarrow> ulong \<Rightarrow> ulong list \<Rightarrow> 'd ecall_fn" where
  "sbi_ecall_time_handler c h funcid args =
     (if funcid = 0 then ret_code (seqM (sbi_timer_event_start c h (args ! 0)) (retM 0))
      else ret_code (retM SBI_ENOTSUPP))"

definition sbi_ecall_ipi_handler :: "'d cfg \<Rightarrow> nat \<Rightarrow> ulong \<Rightarrow> ulong list \<Rightarrow> 'd ecall_fn" where
  "sbi_ecall_ipi_handler c h funcid args =
     ret_code (if funcid = 0 then sbi_ipi_send_smode c h (args ! 0) (args ! 1) else retM SBI_ENOTSUPP)"

text \<open>
  A remote fence with a request structure on the stack, whose contents before the initialisation do not matter;
  \<open>SBI_TLB_INFO_INIT\<close> sets every field.
\<close>

definition stack_tlb_info :: sbi_tlb_info where
  "stack_tlb_info = \<lparr>t_start = 0, t_size = 0, t_asid = 0, t_vmid = 0, t_type = 0, t_smask = \<lparr>bits = [0, 0]\<rparr>\<rparr>"

definition remote_fence :: "'d cfg \<Rightarrow> nat \<Rightarrow> ulong \<Rightarrow> ulong \<Rightarrow> ulong \<Rightarrow> ulong \<Rightarrow> ulong \<Rightarrow> ulong \<Rightarrow> ulong \<Rightarrow>
    'd sys \<Rightarrow> ('d sys, int) outcome" where
  "remote_fence c h hmask hbase st sz asid vmid ty =
     bindM (liftO (SBI_TLB_INFO_INIT stack_tlb_info st sz asid vmid ty h)) (\<lambda>tlb_info. sbi_tlb_request c h hmask hbase tlb_info)"

definition sbi_ecall_rfence_handler :: "'d cfg \<Rightarrow> nat \<Rightarrow> ulong \<Rightarrow> ulong list \<Rightarrow> 'd ecall_fn" where
  "sbi_ecall_rfence_handler c h funcid args =
     ret_code
      (let request = remote_fence c h (args ! 0) (args ! 1);
           vmid = bindM (csr_read h CSR_HGATP) (\<lambda>v. retM (shr (v AND HGATP_VMID_MASK) HGATP_VMID_SHIFT)) in
       bindM (if 3 \<le> funcid \<and> funcid \<le> 6 then bindM (misa_extension c h (ch CHR ''H'')) (\<lambda>hy. retM (\<not> hy)) else retM False) (\<lambda>no_hext.
       if no_hext then retM SBI_ENOTSUPP
       else if funcid = 0 then request 0 0 0 0 SBI_ITLB_FLUSH
       else if funcid = 3 then request (args ! 2) (args ! 3) 0 0 SBI_TLB_FLUSH_GVMA
       else if funcid = 4 then request (args ! 2) (args ! 3) 0 (args ! 4) SBI_TLB_FLUSH_GVMA_VMID
       else if funcid = 5 then bindM vmid (\<lambda>vm. request (args ! 2) (args ! 3) 0 vm SBI_TLB_FLUSH_VVMA)
       else if funcid = 6 then bindM vmid (\<lambda>vm. request (args ! 2) (args ! 3) (args ! 4) vm SBI_TLB_FLUSH_VVMA_ASID)
       else if funcid = 1 then request (args ! 2) (args ! 3) 0 0 SBI_TLB_FLUSH_VMA
       else if funcid = 2 then request (args ! 2) (args ! 3) (args ! 4) 0 SBI_TLB_FLUSH_VMA_ASID
       else retM SBI_ENOTSUPP))"

definition sbi_load_hart_mask_unpriv :: "'d cfg \<Rightarrow> nat \<Rightarrow> ulong \<Rightarrow> 'd sys \<Rightarrow> ('d sys, int \<times> ulong \<times> sbi_trap_info) outcome" where
  "sbi_load_hart_mask_unpriv c h pmask =
     (if pmask \<noteq> 0 then
        bindM (sbi_load_ulong c h pmask) (\<lambda>(mask, uptrap).
          case uptrap of Some t \<Rightarrow> retM (SBI_ETRAP, 0, t) | None \<Rightarrow> retM (0, mask, zero_trap))
      else bindM (sbi_hsm_hart_started_mask 0) (\<lambda>(_, mask). retM (0, mask, zero_trap)))"

definition sbi_ecall_legacy_handler :: "'d cfg \<Rightarrow> nat \<Rightarrow> ulong \<Rightarrow> ulong list \<Rightarrow> 'd ecall_fn" where
  "sbi_ecall_legacy_handler c h extid args =
     (let with_mask = (\<lambda>f. bindM (sbi_load_hart_mask_unpriv c h (args ! 0)) (\<lambda>(ret, hmask, out_trap).
            if ret \<noteq> SBI_ETRAP then bindM (f hmask) (\<lambda>ret. retM (ret, 0, out_trap)) else retM (ret, 0, out_trap))) in
      if extid = SBI_EXT_0_1_SET_TIMER then ret_code (seqM (sbi_timer_event_start c h (args ! 0)) (retM 0))
      else if extid = SBI_EXT_0_1_CONSOLE_PUTCHAR then ret_code (seqM (sbi_putc c (ucast (args ! 0))) (retM 0))
      else if extid = SBI_EXT_0_1_CONSOLE_GETCHAR then ret_code (sbi_getc c)
      else if extid = SBI_EXT_0_1_CLEAR_IPI then ret_code (seqM (sbi_ipi_clear_smode h) (retM 0))
      else if extid = SBI_EXT_0_1_SEND_IPI then with_mask (\<lambda>hmask. sbi_ipi_send_smode c h hmask 0)
      else if extid = SBI_EXT_0_1_REMOTE_FENCE_I then with_mask (\<lambda>hmask. remote_fence c h hmask 0 0 0 0 0 SBI_ITLB_FLUSH)
      else if extid = SBI_EXT_0_1_REMOTE_SFENCE_VMA then
        with_mask (\<lambda>hmask. remote_fence c h hmask 0 (args ! 1) (args ! 2) 0 0 SBI_TLB_FLUSH_VMA)
      else if extid = SBI_EXT_0_1_REMOTE_SFENCE_VMA_ASID then
        with_mask (\<lambda>hmask. remote_fence c h hmask 0 (args ! 1) (args ! 2) (args ! 3) 0 SBI_TLB_FLUSH_VMA_ASID)
      else if extid = SBI_EXT_0_1_SHUTDOWN then ret_code (seqM (sbi_system_reset c h SBI_PLATFORM_RESET_SHUTDOWN) (retM 0))
      else ret_code (retM SBI_ENOTSUPP))"

section \<open>The call handler\<close>

primrec ecall_handle :: "sbi_ecall_extension \<Rightarrow> 'd cfg \<Rightarrow> nat \<Rightarrow> ulong \<Rightarrow> ulong \<Rightarrow> ulong list \<Rightarrow> 'd ecall_fn" where
  "ecall_handle ecall_time c h extid funcid args = sbi_ecall_time_handler c h funcid args"
| "ecall_handle ecall_rfence c h extid funcid args = sbi_ecall_rfence_handler c h funcid args"
| "ecall_handle ecall_ipi c h extid funcid args = sbi_ecall_ipi_handler c h funcid args"
| "ecall_handle ecall_base c h extid funcid args = sbi_ecall_base_handler c h funcid args"
| "ecall_handle ecall_hsm c h extid funcid args = sbi_ecall_hsm_handler c h funcid args"
| "ecall_handle ecall_legacy c h extid funcid args = sbi_ecall_legacy_handler c h extid args"
| "ecall_handle ecall_vendor c h extid funcid args = sbi_ecall_vendor_handler c extid funcid args"

text \<open>
  The saved registers \<open>a0\<close> to \<open>a7\<close> are the registers 10 to 17. What the call handler does with the result of an
  extension's handler is a definition of its own.
\<close>

definition ecall_finish :: "'d cfg \<Rightarrow> nat \<Rightarrow> sbi_trap_regs \<Rightarrow> bool \<Rightarrow> int \<times> ulong \<times> sbi_trap_info \<Rightarrow>
    'd sys \<Rightarrow> ('d sys, int \<times> sbi_trap_regs) outcome" where
  "ecall_finish c h regs is_0_1_spec = (\<lambda>(ret, out_val, trap).
     if ret = SBI_ETRAP then
       bindM (sbi_trap_redirect c h regs (trap\<lparr>epc := mepc regs\<rparr>)) (\<lambda>(_, regs'). retM (0, regs'))
     else
       bindM
         (if ret < SBI_LAST_ERR then
            seqM (printfM c ''%s: Invalid error %d for ext=0x%lx func=0x%lx\<newline>''
                    [Vstr (Some (cs ''sbi_ecall_handler'')), Vword (of_int ret), Vword (gpr regs 17), Vword (gpr regs 16)])
              (retM SBI_ERR_FAILED)
          else retM ret) (\<lambda>ret.
       (let g = (gpr regs)(10 := of_int ret);
            g = (if \<not> is_0_1_spec then g(11 := out_val) else g) in
        retM (0, regs\<lparr>mepc := mepc regs + 4, gpr := g\<rparr>))))"

definition sbi_ecall_handler :: "'d cfg \<Rightarrow> nat \<Rightarrow> sbi_trap_regs \<Rightarrow> 'd sys \<Rightarrow> ('d sys, int \<times> sbi_trap_regs) outcome" where
  "sbi_ecall_handler c h regs =
     (let extension_id = gpr regs 17; func_id = gpr regs 16;
          args = [gpr regs 10, gpr regs 11, gpr regs 12, gpr regs 13, gpr regs 14, gpr regs 15] in
      bindM (sbi_ecall_find_extension extension_id) (\<lambda>ext.
      bindM
        (case ext of
           Some e \<Rightarrow> ecall_handle e c h extension_id func_id args
         | None \<Rightarrow> retM (SBI_ENOTSUPP, 0, zero_trap))
        (ecall_finish c h regs (ext \<noteq> None \<and> SBI_EXT_0_1_SET_TIMER \<le> extension_id \<and> extension_id \<le> SBI_EXT_0_1_SHUTDOWN))))"

section \<open>The registry keeps ranges apart\<close>

text \<open>Registrations and removals, in any order.\<close>

datatype registry_op = Register "sbi_ecall_extension option" | Unregister "sbi_ecall_extension option"

primrec registry_step :: "registry_op \<Rightarrow> 'd sys \<Rightarrow> 'd sys" where
  "registry_step (Register e) s = final (sbi_ecall_register_extension e s)"
| "registry_step (Unregister e) s = final (sbi_ecall_unregister_extension e s)"

definition in_range :: "sbi_ecall_extension \<Rightarrow> ulong \<Rightarrow> bool" where
  "in_range e x \<longleftrightarrow> extid_start e \<le> x \<and> x \<le> extid_end e"

definition registry_ok :: "sbi_ecall_extension list \<Rightarrow> bool" where
  "registry_ok l \<longleftrightarrow> distinct l \<and> (\<forall>e\<in>set l. \<forall>e'\<in>set l. \<forall>x. in_range e x \<longrightarrow> in_range e' x \<longrightarrow> e = e')"

lemma range_nonempty: "in_range e (extid_start e)"
  by (cases e) (simp_all add: in_range_def)

lemma registry_add:
  assumes "registry_ok l" "list_all (\<lambda>t. extid_end t < extid_start e \<or> extid_end e < extid_start t) l"
  shows "registry_ok (l @ [e])"
proof -
  have apart: "\<not> (in_range t x \<and> in_range e x)" if "t \<in> set l" for t x
    using assms(2) that by (auto simp: list_all_iff in_range_def)
  then have "e \<notin> set l" using range_nonempty by blast
  with apart assms(1) show ?thesis by (auto simp: registry_ok_def)
qed

lemma registry_step_ok:
  "registry_ok (ecall_exts_list s) \<Longrightarrow> registry_ok (ecall_exts_list (registry_step op s))"
proof (cases op)
  case (Register x)
  then show "registry_ok (ecall_exts_list s) \<Longrightarrow> ?thesis"
    using registry_add by (cases x) (auto simp: sbi_ecall_register_extension_def run_simps)
next
  case (Unregister x)
  then show "registry_ok (ecall_exts_list s) \<Longrightarrow> ?thesis"
    using notin_set_remove1
    by (cases x) (auto simp: sbi_ecall_unregister_extension_def run_simps registry_ok_def intro: distinct_remove1)
qed

text \<open>Seen from outside, the registry is a set: the static ranges are apart, so registering fails only for what is there.\<close>

primrec registry_spec :: "registry_op \<Rightarrow> sbi_ecall_extension set \<Rightarrow> sbi_ecall_extension set" where
  "registry_spec (Register e) A = A \<union> set_option e"
| "registry_spec (Unregister e) A = A - set_option e"

lemma ranges_apart: "t \<noteq> e \<Longrightarrow> extid_end t < extid_start e \<or> extid_end e < extid_start t"
  by (cases t; cases e) simp_all

lemma register_run:
  assumes "registry_ok (ecall_exts_list s)"
  shows "sbi_ecall_register_extension (Some e) s =
    (if e \<in> set (ecall_exts_list s) then Ret SBI_EINVAL s else Ret 0 (s\<lparr>ecall_exts_list := ecall_exts_list s @ [e]\<rparr>))"
proof -
  have "\<not> extid_end e < extid_start e" by (cases e) simp_all
  moreover from this have "list_all (\<lambda>t. extid_end t < extid_start e \<or> extid_end e < extid_start t) (ecall_exts_list s) \<longleftrightarrow>
      e \<notin> set (ecall_exts_list s)"
    unfolding list_all_iff by (metis ranges_apart)
  ultimately show ?thesis by (simp add: sbi_ecall_register_extension_def run_simps)
qed

interpretation registry: refinement "\<lambda>s. registry_ok (ecall_exts_list s)" "\<lambda>s. set (ecall_exts_list s)" registry_step registry_spec
proof
  fix s :: "'a sys" and op
  assume ok: "registry_ok (ecall_exts_list s)"
  then show "registry_ok (ecall_exts_list (registry_step op s))" by (rule registry_step_ok)
  show "set (ecall_exts_list (registry_step op s)) = registry_spec op (set (ecall_exts_list s))"
  proof (cases op)
    case (Register x)
    then show ?thesis using register_run [OF ok] by (cases x) (auto simp: sbi_ecall_register_extension_def run_simps)
  next
    case (Unregister x)
    then show ?thesis using ok by (cases x) (auto simp: sbi_ecall_unregister_extension_def run_simps registry_ok_def)
  qed
qed

lemma find_in_range:
  assumes "registry_ok l"
  shows "List.find (\<lambda>t. extid_start t \<le> x \<and> x \<le> extid_end t) l = Some e \<longleftrightarrow> e \<in> set l \<and> in_range e x"
proof
  assume "List.find (\<lambda>t. extid_start t \<le> x \<and> x \<le> extid_end t) l = Some e"
  then show "e \<in> set l \<and> in_range e x" by (auto simp: find_Some_iff in_range_def)
next
  assume e: "e \<in> set l \<and> in_range e x"
  then have "List.find (\<lambda>t. extid_start t \<le> x \<and> x \<le> extid_end t) l \<noteq> None" by (auto simp: find_None_iff in_range_def)
  then obtain e' where f: "List.find (\<lambda>t. extid_start t \<le> x \<and> x \<le> extid_end t) l = Some e'" by auto
  then have "e' \<in> set l \<and> in_range e' x" by (auto simp: find_Some_iff in_range_def)
  with e assms have "e' = e" by (auto simp: registry_ok_def)
  with f show "List.find (\<lambda>t. extid_start t \<le> x \<and> x \<le> extid_end t) l = Some e" by simp
qed

section \<open>Finishing a call\<close>

lemma invalid_error_fits:
  "fits ''%s: Invalid error %d for ext=0x%lx func=0x%lx\<newline>'' [Vstr f, Vword a, Vword b, Vword e]"
  unfolding fits_def list.map blank_simps by code_simp

lemma ecall_finish_run:
  "if ret = SBI_ETRAP
   then ecall_finish c h regs legacy (ret, val, trap) s =
     (case sbi_trap_redirect c h regs (trap\<lparr>epc := mepc regs\<rparr>) s of Ret (_, regs') s' \<Rightarrow> Ret (0, regs') s' | Halt r s' \<Rightarrow> Halt r s')
   else \<exists>d. ecall_finish c h regs legacy (ret, val, trap) s =
     Ret (0, regs\<lparr>mepc := mepc regs + 4,
            gpr := (gpr regs)(10 := of_int (if ret < - 6 then - 1 else ret), 11 := (if legacy then gpr regs 11 else val))\<rparr>)
       (if ret < - 6 then s\<lparr>dev := d\<rparr> else s)"
proof (cases "ret = SBI_ETRAP")
  case False
  obtain d where "printfM c ''%s: Invalid error %d for ext=0x%lx func=0x%lx\<newline>''
      [Vstr (Some (cs ''sbi_ecall_handler'')), Vword (of_int ret), Vword (gpr regs 17), Vword (gpr regs 16)] s = Ret () (s\<lparr>dev := d\<rparr>)"
    by (rule exE [OF printfM_returns [OF invalid_error_fits]])
  moreover have "(gpr regs)(10 := x, 11 := gpr regs 11) = (gpr regs)(10 := x)" for x by auto
  ultimately show ?thesis using False by (cases legacy) (auto simp: ecall_finish_def run_simps Let_def)
qed (simp add: ecall_finish_def run_simps split: outcome.splits prod.splits)

section \<open>Properties\<close>

text \<open>
  C22: the registry of extensions is a set. After any sequence of registrations and removals that starts from the
  empty registry, the registered extensions are those of the corresponding set operations, each
  listed once; a call number is found exactly when a registered extension has it in its range,
  and the extension found is the only one. The initialisation registers all seven extensions in the order of the code.
\<close>

theorem ecall_registry_is_a_set:
  fixes s :: "'d sys" and ops :: "registry_op list"
  assumes "ecall_exts_list s = []"
  defines "s' \<equiv> fold registry_step ops s"
  shows "distinct (ecall_exts_list s') \<and> set (ecall_exts_list s') = fold registry_spec ops {} \<and>
    (sbi_ecall_find_extension x s' = Ret (Some e) s' \<longleftrightarrow> e \<in> set (ecall_exts_list s') \<and> in_range e x) \<and>
    (sbi_ecall_find_extension x s' = Ret None s' \<longleftrightarrow> \<not> (\<exists>e\<in>set (ecall_exts_list s'). in_range e x)) \<and>
    sbi_ecall_init s = Ret 0 (s\<lparr>ecall_exts_list := [ecall_time, ecall_rfence, ecall_ipi, ecall_base, ecall_hsm, ecall_legacy, ecall_vendor]\<rparr>)"
proof -
  have "registry_ok (ecall_exts_list s)" using assms(1) by (simp add: registry_ok_def)
  from registry.run_refines [OF this, of ops] assms(1)
  have ok: "registry_ok (ecall_exts_list s')" "set (ecall_exts_list s') = fold registry_spec ops {}" by (simp_all add: s'_def)
  have init: "sbi_ecall_init s = Ret 0 (s\<lparr>ecall_exts_list := [ecall_time, ecall_rfence, ecall_ipi, ecall_base, ecall_hsm, ecall_legacy, ecall_vendor]\<rparr>)"
    using assms(1) by (simp add: sbi_ecall_init_def sbi_ecall_register_extension_def run_simps)
  have none: "(List.find (\<lambda>t. extid_start t \<le> x \<and> x \<le> extid_end t) l = None) = (\<not> (\<exists>e\<in>set l. in_range e x))" for l
    by (auto simp: find_None_iff in_range_def)
  from ok init show ?thesis
    by (simp add: sbi_ecall_find_extension_def run_simps find_in_range none) (simp add: registry_ok_def)
qed

theorem ecall_registry_is_a_set_witness:
  "set (ecall_exts_list (fold registry_step [Register (Some ecall_ipi), Register (Some ecall_hsm), Register (Some ecall_ipi), Unregister (Some ecall_hsm)] zero_sys))
     = {ecall_ipi} \<and>
   sbi_ecall_init zero_sys = Ret 0 (zero_sys\<lparr>ecall_exts_list := [ecall_time, ecall_rfence, ecall_ipi, ecall_base, ecall_hsm, ecall_legacy, ecall_vendor]\<rparr>)"
proof -
  have "ecall_exts_list zero_sys = []" by (simp add: zero_sys_def boot_sys_def)
  from ecall_registry_is_a_set [OF this, of "[Register (Some ecall_ipi), Register (Some ecall_hsm), Register (Some ecall_ipi), Unregister (Some ecall_hsm)]"]
  show ?thesis by auto
qed

text \<open>
  C18: the calling convention. A call runs the handler of the extension whose range holds \<open>a7\<close>, with \<open>a6\<close> and \<open>a0\<close> to \<open>a5\<close>,
  and for an unknown extension nothing. When the handler reports a trap in the caller's memory, the trap is
  redirected to the caller with the caller's own program counter. Otherwise the caller resumes after its call with the
  error code in \<open>a0\<close>, never one beyond the last defined error, and the value in \<open>a1\<close>; legacy calls keep
  \<open>a1\<close>. No other register changes, nothing but a message is added to the effect of the handler, and the result
  is always 0.
\<close>

theorem ecall_calling_convention:
  fixes s :: "'d sys" and c :: "'d cfg" and regs :: sbi_trap_regs and h :: nat
  defines "ext \<equiv> List.find (\<lambda>t. extid_start t \<le> gpr regs 17 \<and> gpr regs 17 \<le> extid_end t) (ecall_exts_list s)"
  defines "m \<equiv> (case ext of None \<Rightarrow> Ret (SBI_ENOTSUPP, 0, zero_trap) s
     | Some e \<Rightarrow> ecall_handle e c h (gpr regs 17) (gpr regs 16)
         [gpr regs 10, gpr regs 11, gpr regs 12, gpr regs 13, gpr regs 14, gpr regs 15] s)"
  shows "case m of Halt r s' \<Rightarrow> sbi_ecall_handler c h regs s = Halt r s'
    | Ret (ret, val, trap) s1 \<Rightarrow>
        if ret = SBI_ETRAP
        then sbi_ecall_handler c h regs s =
          (case sbi_trap_redirect c h regs (trap\<lparr>epc := mepc regs\<rparr>) s1 of Ret (_, regs') s' \<Rightarrow> Ret (0, regs') s' | Halt r s' \<Rightarrow> Halt r s')
        else \<exists>d. sbi_ecall_handler c h regs s =
          Ret (0, regs\<lparr>mepc := mepc regs + 4,
                 gpr := (gpr regs)(10 := of_int (if ret < - 6 then - 1 else ret),
                    11 := (if ext \<noteq> None \<and> gpr regs 17 \<le> 8 then gpr regs 11 else val))\<rparr>)
            (if ret < - 6 then s1\<lparr>dev := d\<rparr> else s1)"
proof -
  have run: "sbi_ecall_handler c h regs s =
      (case m of Halt r s' \<Rightarrow> Halt r s' | Ret x s1 \<Rightarrow> ecall_finish c h regs (ext \<noteq> None \<and> gpr regs 17 \<le> 8) x s1)"
    unfolding sbi_ecall_handler_def m_def ext_def
    by (simp add: run_bind sbi_ecall_find_extension_def run_get run_ret Let_def split: option.splits outcome.splits)
  show ?thesis
  proof (cases m)
    case (Ret r s1)
    obtain ret val trap where r: "r = (ret, val, trap)" by (cases r)
    show ?thesis unfolding run Ret r outcome.case prod.case by (rule ecall_finish_run)
  qed (use run in simp)
qed

end
