(* ===== verification/Sbi_Trap.thy ===== *)
theory Sbi_Trap
  imports Sbi_Ecall
begin

text \<open>
  The trap handler of \<^verbatim>\<open>lib/sbi/sbi_trap.c\<close>, called by the entry code with the saved registers, and the report
  of a trap that could not be handled.
\<close>

section \<open>Definitions\<close>

text \<open>The pairs of registers printed, by name and number.\<close>

definition trap_reg_lines :: "((string \<times> nat) \<times> (string \<times> nat)) list" where
  "trap_reg_lines =
     [((''ra'', 1), (''sp'', 2)), ((''gp'', 3), (''tp'', 4)), ((''s0'', 8), (''s1'', 9)),
      ((''a0'', 10), (''a1'', 11)), ((''a2'', 12), (''a3'', 13)), ((''a4'', 14), (''a5'', 15)),
      ((''a6'', 16), (''a7'', 17)), ((''s2'', 18), (''s3'', 19)), ((''s4'', 20), (''s5'', 21)),
      ((''s6'', 22), (''s7'', 23)), ((''s8'', 24), (''s9'', 25)), ((''s10'', 26), (''s11'', 27)),
      ((''t0'', 5), (''t1'', 6)), ((''t2'', 7), (''t3'', 28)), ((''t4'', 29), (''t5'', 30))]"

definition sbi_trap_error :: "'d cfg \<Rightarrow> nat \<Rightarrow> string \<Rightarrow> int \<Rightarrow> ulong \<Rightarrow> ulong \<Rightarrow> ulong \<Rightarrow> ulong \<Rightarrow> sbi_trap_regs \<Rightarrow>
    'd sys \<Rightarrow> ('d sys, 'a) outcome" where
  "sbi_trap_error c h msg rc mcause mtval mtval2 mtinst regs =
     (let fn = Vstr (Some (cs ''sbi_trap_error'')); hartid = Vword (of_nat h) in
      seqM (printfM c ''%s: hart%d: %s (error %d)\<newline>'' [fn, hartid, Vstr (Some (cs msg)), Vword (of_int rc)])
     (seqM (printfM c ''%s: hart%d: mcause=0x%016lx mtval=0x%016lx\<newline>'' [fn, hartid, Vword mcause, Vword mtval])
     (bindM (misa_extension c h (ch CHR ''H'')) (\<lambda>hy.
      seqM (whenM hy (printfM c ''%s: hart%d: mtval2=0x%016lx mtinst=0x%016lx\<newline>'' [fn, hartid, Vword mtval2, Vword mtinst]))
     (seqM (printfM c ''%s: hart%d: mepc=0x%016lx mstatus=0x%016lx\<newline>'' [fn, hartid, Vword (mepc regs), Vword (mstatus regs)])
     (seqM (forM trap_reg_lines (\<lambda>((n1, r1), (n2, r2)).
              printfM c ''%s: hart%d: %s=0x%016lx %s=0x%016lx\<newline>''
                [fn, hartid, Vstr (Some (cs n1)), Vword (gpr regs r1), Vstr (Some (cs n2)), Vword (gpr regs r2)]))
     (seqM (printfM c ''%s: hart%d: %s=0x%016lx\<newline>'' [fn, hartid, Vstr (Some (cs ''t6'')), Vword (gpr regs 31)])
           sbi_hart_hang)))))))"

text \<open>The handlers of the exceptions, with the message reported when they fail.\<close>

definition trap_exception :: "'d cfg \<Rightarrow> nat \<Rightarrow> ulong \<Rightarrow> ulong \<Rightarrow> ulong \<Rightarrow> ulong \<Rightarrow> sbi_trap_regs \<Rightarrow>
    string \<times> ('d sys \<Rightarrow> ('d sys, int \<times> sbi_trap_regs) outcome)" where
  "trap_exception c h mcause mtval mtval2 mtinst regs =
     (if mcause = CAUSE_ILLEGAL_INSTRUCTION then
        (''illegal instruction handler failed'', sbi_illegal_insn_handler c h mtval regs)
      else if mcause = CAUSE_MISALIGNED_LOAD then
        (''misaligned load handler failed'', sbi_misaligned_load_handler c h mtval mtval2 mtinst regs)
      else if mcause = CAUSE_MISALIGNED_STORE then
        (''misaligned store handler failed'', sbi_misaligned_store_handler c h mtval mtval2 mtinst regs)
      else if mcause = CAUSE_SUPERVISOR_ECALL \<or> mcause = CAUSE_HYPERVISOR_ECALL then
        (''ecall handler failed'', sbi_ecall_handler c h regs)
      else
        (''trap handler failed'',
         sbi_trap_redirect c h regs \<lparr>epc = mepc regs, cause = mcause, tval = mtval, tval2 = mtval2, tinst = mtinst\<rparr>))"

definition sbi_trap_handler :: "'d cfg \<Rightarrow> nat \<Rightarrow> sbi_trap_regs \<Rightarrow> 'd sys \<Rightarrow> ('d sys, sbi_trap_regs) outcome" where
  "sbi_trap_handler c h regs =
     bindM (csr_read h CSR_MCAUSE) (\<lambda>mcause.
     bindM (csr_read h CSR_MTVAL) (\<lambda>mtval.
     bindM (misa_extension c h (ch CHR ''H'')) (\<lambda>hy.
     bindM (if hy then csr_read h CSR_MTVAL2 else retM 0) (\<lambda>mtval2.
     bindM (if hy then csr_read h CSR_MTINST else retM 0) (\<lambda>mtinst.
     if mcause AND shl 1 63 \<noteq> 0 then
       (let mcause = mcause AND NOT (shl 1 63) in
        if mcause = IRQ_M_TIMER then seqM (sbi_timer_process h) (retM regs)
        else if mcause = IRQ_M_SOFT then seqM (sbi_ipi_process c h (sbi_exit c h)) (retM regs)
        else sbi_trap_error c h ''unhandled external interrupt'' SBI_ENOTSUPP mcause mtval mtval2 mtinst regs)
     else
       (let (msg, handler) = trap_exception c h mcause mtval mtval2 mtinst regs in
        bindM handler (\<lambda>(rc, regs').
          if rc \<noteq> 0 then sbi_trap_error c h msg rc mcause mtval mtval2 mtinst regs' else retM regs')))))))"

section \<open>The report always ends in a hang\<close>

lemma trap_error_fits:
  "fits ''%s: hart%d: %s (error %d)\<newline>'' [Vstr f, Vword h, Vstr a, Vword b]"
  "fits ''%s: hart%d: mcause=0x%016lx mtval=0x%016lx\<newline>'' [Vstr f, Vword h, Vword m, Vword b]"
  "fits ''%s: hart%d: mtval2=0x%016lx mtinst=0x%016lx\<newline>'' [Vstr f, Vword h, Vword m, Vword b]"
  "fits ''%s: hart%d: mepc=0x%016lx mstatus=0x%016lx\<newline>'' [Vstr f, Vword h, Vword m, Vword b]"
  "fits ''%s: hart%d: %s=0x%016lx %s=0x%016lx\<newline>'' [Vstr f, Vword h, Vstr a, Vword b, Vstr d, Vword e]"
  "fits ''%s: hart%d: %s=0x%016lx\<newline>'' [Vstr f, Vword h, Vstr a, Vword b]"
  unfolding fits_def list.map blank_simps by code_simp+

lemma trap_error_hangs: "\<exists>d. sbi_trap_error c h msg rc mcause mtval mtval2 mtinst regs s = Halt Hang (s\<lparr>dev := d\<rparr>)"
proof -
  have hang: "\<exists>d. sbi_hart_hang s = Halt Hang (s\<lparr>dev := d\<rparr>)" for s
    by (simp add: sbi_hart_hang_def run_simps same_dev)
  have misa: "bindM (misa_extension c h (ch CHR ''H'')) f s = f (misa_has c h (ch CHR ''H'') (csr (harts s h) CSR_MISA)) s" for f s
    by (simp add: run_simps)
  show ?thesis
    unfolding sbi_trap_error_def Let_def
    by (intro prints_then prints_only_printf trap_error_fits)
      (unfold misa, intro prints_then prints_only_printf prints_only_when prints_only_forM trap_error_fits hang,
        simp add: prints_only_printf trap_error_fits split: prod.splits)
qed

section \<open>Exceptions from below are handled\<close>

text \<open>
  Where a handled exception resumes: after the instruction in the mode it came from, or in supervisor mode at one
  of the trap vectors.
\<close>

definition resumes :: "csrs \<Rightarrow> sbi_trap_regs \<Rightarrow> sbi_trap_regs \<Rightarrow> bool" where
  "resumes f regs regs' \<longleftrightarrow>
     prev_mode_of regs' = prev_mode_of regs \<and> mepc regs' \<in> {mepc regs + 2, mepc regs + 4} \<or>
     prev_mode_of regs' = PRV_S \<and> mepc regs' \<in> {f CSR_STVEC, f CSR_VSTVEC}"

abbreviation (input) below_m :: "sbi_trap_regs \<Rightarrow> bool" where
  "below_m regs \<equiv> prev_mode_of regs = PRV_S \<or> prev_mode_of regs = PRV_U"

definition handled :: "csrs \<Rightarrow> sbi_trap_regs \<Rightarrow> ('d sys, int \<times> sbi_trap_regs) outcome \<Rightarrow> bool" where
  "handled f regs out \<longleftrightarrow> (\<exists>regs' s'. out = Ret (0, regs') s' \<and> resumes f regs regs')"

lemma prev_mode_set_mpp: "prev_mode_of (regs\<lparr>mepc := v, mstatus := set_mpp_s m\<rparr>) = PRV_S"
  by (simp add: prev_mode_s_iff bit_set_mpp_s)

lemma prev_mode_enter: "prev_mode_of (regs\<lparr>mepc := v, mstatus := enter_s b (set_mpp_s m)\<rparr>) = PRV_S"
  by (simp add: prev_mode_s_iff bit_set_mpp_s bit_enter_s)

lemma prev_mode_upd [simp]: "prev_mode_of (regs\<lparr>mepc := v\<rparr>) = prev_mode_of regs" "prev_mode_of (regs\<lparr>gpr := g\<rparr>) = prev_mode_of regs"
  by (simp_all add: prev_mode_of_def)

lemma redirect_handled:
  assumes "below_m regs" "csr (harts s h) = f"
  shows "handled f regs (sbi_trap_redirect c h regs trap s)"
proof (cases "guest_fault c h regs trap s")
  case True
  from redirect_run_vs [OF assms(1) True] show ?thesis
    using assms(2) by (simp add: handled_def resumes_def prev_mode_set_mpp)
next
  case False
  from redirect_run_s [OF assms(1) False] show ?thesis
    using assms(2) by (simp add: handled_def resumes_def prev_mode_enter)
qed

lemma get_insn_state: "\<exists>x. sbi_get_insn c h pc s = Ret x s"
  by (simp add: sbi_get_insn_def run_simps)

lemma csr_msg_dev: "\<exists>n d. csr_msg c h fn k s = Ret n (s\<lparr>dev := d\<rparr>)"
proof -
  have fit: "fits ''%s: hartid%d: invalid csr_num=0x%x\<newline>'' [Vstr a, Vword b, Vword e]" for a b e
    unfolding fits_def list.map blank_simps by code_simp
  have "\<exists>n d. sbi_printf c (cs ''%s: hartid%d: invalid csr_num=0x%x\<newline>'') [Vstr (Some (cs fn)), Vword (of_nat h), Vword (of_nat k)] s =
      Ret n (s\<lparr>dev := d\<rparr>)" by (rule printf_returns [OF fit])
  then show ?thesis using same_dev [of s] by (auto simp: csr_msg_def sbi_dprintf_def sbi_printf_def run_simps)
qed

lemma timer_value_run: "get_time_val s \<noteq> no_time \<Longrightarrow> \<exists>v. sbi_timer_value c h s = Ret v s"
  by (cases "get_time_val s")
    (simp_all add: sbi_timer_value_def run_simps get_ticks_fn_def sbi_platform_timer_value_def split: option.splits)

text \<open>Computations that return from a state and change only the device.\<close>

definition quiet :: "('d sys \<Rightarrow> ('d sys, 'a) outcome) \<Rightarrow> 'd sys \<Rightarrow> bool" where
  "quiet m s \<longleftrightarrow> (\<exists>x d. m s = Ret x (s\<lparr>dev := d\<rparr>))"

lemma quiet_rules:
  "quiet (retM x) s"
  "(b \<Longrightarrow> quiet m s) \<Longrightarrow> (\<not> b \<Longrightarrow> quiet n s) \<Longrightarrow> quiet (if b then m else n) s"
  "quiet m' s \<Longrightarrow> quiet (bindM m' (\<lambda>v. retM (f v))) s"
  "quiet m' s \<Longrightarrow> quiet (seqM m' (retM y)) s"
  "m' s = Ret x s \<Longrightarrow> quiet m' s"
  using same_dev [of s] by (auto simp: quiet_def run_simps)

lemma csr_read_total:
  assumes "get_time_val s \<noteq> no_time"
  shows "\<exists>ret v d. sbi_emulate_csr_read c h n regs s = Ret (ret, v) (s\<lparr>dev := d\<rparr>)"
proof -
  have msg: "quiet (csr_msg c h fn k) s" for fn k using csr_msg_dev [of c h fn k s] by (simp add: quiet_def)
  obtain v where v: "sbi_timer_value c h s = Ret v s" using timer_value_run [OF assms] by blast
  then have t: "quiet (sbi_timer_value c h) s" "quiet (sbi_timer_virt_value c h) s" "quiet (sbi_timer_get_delta h) s"
    by (auto intro!: quiet_rules(5) simp: sbi_timer_virt_value_def sbi_timer_get_delta_def run_simps)
  have cr: "quiet (csr_read h k) s" for k by (rule quiet_rules(5), rule run_csr_read)
  have "quiet (sbi_emulate_csr_read c h n regs) s"
  proof -
    have "bindM (if prev_mode_of regs = PRV_U then csr_read h CSR_SCOUNTEREN else retM (- 1)) f s =
        f (if prev_mode_of regs = PRV_U then csr (harts s h) CSR_SCOUNTEREN else - 1) s"
      for f :: "ulong \<Rightarrow> 'a sys \<Rightarrow> ('a sys, int \<times> ulong) outcome" by (simp add: run_simps)
    then show ?thesis
      unfolding sbi_emulate_csr_read_def Let_def quiet_def
      by (simp only:, fold quiet_def) (intro quiet_rules(1-4) msg t cr)
  qed
  then show ?thesis by (auto simp: quiet_def)
qed

lemma csr_write_total:
  "\<exists>ret s'. sbi_emulate_csr_write c h n regs v s = Ret ret s' \<and> (ret = 0 \<or> (\<exists>d. s' = s\<lparr>dev := d\<rparr>))"
proof -
  obtain M D where m: "\<And>k. csr_msg c h ''sbi_emulate_csr_write'' k s = Ret (M k) (s\<lparr>dev := D k\<rparr>)"
    using csr_msg_dev [of c h _ _ s] by metis
  show ?thesis
    unfolding sbi_emulate_csr_write_def Let_def by (auto simp: run_simps m sbi_timer_set_delta_def)
qed

lemma truly_illegal_handled: "below_m regs \<Longrightarrow> csr (harts s h) = f \<Longrightarrow> handled f regs (truly_illegal_insn c h insn regs s)"
  unfolding truly_illegal_insn_def by (rule redirect_handled)

lemma system_opcode_handled:
  assumes "below_m regs" "csr (harts s h) = f" "get_time_val s \<noteq> no_time"
  shows "handled f regs (system_opcode_insn c h insn regs s)"
proof -
  let ?n = "unat (shr (ucast insn :: u32) 20)"
  obtain ret v d where r: "sbi_emulate_csr_read c h ?n regs s = Ret (ret, v) (s\<lparr>dev := d\<rparr>)"
    using csr_read_total [OF assms(3)] by blast
  let ?s = "s\<lparr>dev := d\<rparr>"
  have ill: "handled f regs (truly_illegal_insn c h insn regs t)" if "csr (harts t h) = f" for t :: "'a sys"
    by (rule truly_illegal_handled [OF assms(1) that])
  show ?thesis
  proof (cases "ret \<noteq> 0 \<or> csr_new_val (GET_RM insn) v (shr insn 15 AND 0x1f) (GET_RS1 insn regs) = None")
    case True
    then show ?thesis using ill [of ?s] assms(2) r by (auto simp: system_opcode_insn_def Let_def run_bind)
  next
    case False
    then obtain nv w where nv: "csr_new_val (GET_RM insn) v (shr insn 15 AND 0x1f) (GET_RS1 insn regs) = Some (nv, w)" "ret = 0" by auto
    obtain wr s' where wr: "(if w then sbi_emulate_csr_write c h ?n regs nv else retM 0) ?s = Ret wr s'"
      "wr = 0 \<or> (\<exists>e. s' = ?s\<lparr>dev := e\<rparr>)"
      using csr_write_total [of c h ?n regs nv ?s] by (cases w) (auto simp: run_ret)
    have "system_opcode_insn c h insn regs s =
        (if wr \<noteq> 0 then truly_illegal_insn c h insn regs s'
         else Ret (0, (SET_RD insn regs v)\<lparr>mepc := mepc regs + 4\<rparr>) s')"
      using r nv wr(1) by (simp add: system_opcode_insn_def Let_def run_bind run_ret SET_RD_def)
    then show ?thesis
      using wr(2) ill [of s'] assms(2) by (cases "wr = 0") (auto simp: handled_def resumes_def SET_RD_def)
  qed
qed

lemma illegal_handled:
  assumes "below_m regs" "csr (harts s h) = f" "get_time_val s \<noteq> no_time"
  shows "handled f regs (sbi_illegal_insn_handler c h insn regs s)"
proof -
  have table: "handled f regs (sbi_illegal_insn_handler c h i regs s)" if "i AND 3 = 3" for i
    using system_opcode_handled [OF assms] truly_illegal_handled [OF assms(1,2)] by (simp add: illegal_insn_run [OF that])
  show ?thesis
  proof (cases "insn AND 3 = 3")
    case False
    obtain i t where g: "(if insn = 0 then sbi_get_insn c h (mepc regs) else retM (insn, None)) s = Ret (i, t) s"
      using get_insn_state [of c h "mepc regs" s] by (cases "insn = 0") (auto simp: run_ret)
    have tab: "bindM (liftO (rd (illegal_insn_table c h) (unat (shr (i AND 0x7c) 2)))) (\<lambda>f. f i regs) = sbi_illegal_insn_handler c h i regs"
      if "i AND 3 = 3" using that by (simp add: sbi_illegal_insn_handler_def Let_def)
    have "sbi_illegal_insn_handler c h insn regs s =
        (case t of Some u \<Rightarrow> sbi_trap_redirect c h regs (u\<lparr>epc := mepc regs\<rparr>) s
         | None \<Rightarrow> if i AND 3 \<noteq> 3 then truly_illegal_insn c h i regs s else sbi_illegal_insn_handler c h i regs s)"
      unfolding sbi_illegal_insn_handler_def [of c h insn] Let_def run_bind [of "if insn = 0 then _ else _"] if_P [OF False] g outcome.case prod.case
      using tab by (cases t) simp_all
    then show ?thesis
      using table [of i] redirect_handled [OF assms(1,2)] truly_illegal_handled [OF assms(1,2)] by (simp split: option.splits)
  qed (rule table)
qed

lemma load_bytes_state: "\<exists>x. load_bytes n i c h addr v s = Ret x s"
proof (induction n arbitrary: i v)
  case (Suc n)
  then show ?case
    by (cases "ld_trap c h s (addr + of_nat i) 1")
      (simp_all add: sbi_load_u8_def unpriv_load_def run_simps)
qed (simp add: run_simps)

lemma store_bytes_state: "\<exists>t m. store_bytes n i c h addr v s = Ret t (s\<lparr>mem := m\<rparr>)"
proof (induction n arbitrary: i s)
  case 0
  show ?case by (auto simp: run_simps intro: exI [of _ "mem s"])
next
  case (Suc n)
  show ?case
  proof (cases "st_trap c h s (addr + of_nat i) 1")
    case None
    let ?s = "s\<lparr>mem := (mem s)(addr + of_nat i := get_byte v i)\<rparr>"
    obtain t m where "store_bytes n (Suc i) c h addr v ?s = Ret t (?s\<lparr>mem := m\<rparr>)" using Suc [of "Suc i" ?s] by blast
    then show ?thesis by (auto simp: run_simps store_u8_run [OF None])
  next
    case (Some t)
    then show ?thesis
      by (auto simp: sbi_store_u8_def unpriv_store_def run_simps intro: exI [of _ "mem s"])
  qed
qed

lemma trapped_insn_state: "\<exists>x. trapped_insn c h t regs s = Ret x s"
  using get_insn_state [of c h "mepc regs" s] by (simp add: trapped_insn_def run_simps)

lemma insn_len_cases: "INSN_LEN i \<in> {2, 4}"
  by (simp add: INSN_LEN_def)

lemma misaligned_load_handled:
  assumes "below_m regs" "csr (harts s h) = f"
  shows "handled f regs (sbi_misaligned_load_handler c h addr t2 ti regs s)"
proof -
  note red = redirect_handled [OF assms]
  obtain insn up where t: "trapped_insn c h ti regs s = Ret (insn, up) s"
    using trapped_insn_state [of c h ti regs s] by auto
  show ?thesis
  proof (cases "up = None \<and> decode_load insn \<noteq> None")
    case False
    then show ?thesis using red t by (auto simp: sbi_misaligned_load_handler_def run_bind split: option.splits)
  next
    case True
    then obtain lf where up: "up = None" and lf: "decode_load insn = Some lf" by auto
    obtain v u where l: "load_bytes (lf_len lf) 0 c h addr 0 s = Ret (v, u) s"
      using load_bytes_state [of "lf_len lf" 0 c h addr 0 s] by auto
    show ?thesis
    proof (cases u)
      case (Some x)
      then show ?thesis using red t up lf l by (simp add: sbi_misaligned_load_handler_def run_bind)
    next
      case None
      have "\<exists>g s'. sbi_misaligned_load_handler c h addr t2 ti regs s =
          Ret (0, regs\<lparr>gpr := g, mepc := mepc regs + INSN_LEN (lf_insn lf)\<rparr>) s'"
        using t up lf l None
        by (auto simp: sbi_misaligned_load_handler_def run_simps SET_RD_def SET_F64_REG_def SET_F32_REG_def
            intro: exI [of _ "gpr regs"])
      then show ?thesis using insn_len_cases [of "lf_insn lf"] by (auto simp: handled_def resumes_def)
    qed
  qed
qed

lemma decode_store_reads: "decode_store h regs insn = Some (len, get) \<Longrightarrow> \<exists>v. get s = Ret v s"
  unfolding decode_store_def Let_def
  by (auto simp: run_simps GET_F64_REG_def GET_F32_REG_def split: if_splits)

lemma misaligned_store_handled:
  fixes s :: "'d sys"
  assumes "below_m regs" "csr (harts s h) = f"
  shows "handled f regs (sbi_misaligned_store_handler c h addr t2 ti regs s)"
proof -
  note red = redirect_handled [OF assms(1)]
  obtain insn up where t: "trapped_insn c h ti regs s = Ret (insn, up) s"
    using trapped_insn_state [of c h ti regs s] by auto
  let ?dec = "decode_store h regs insn :: (nat \<times> ('d sys \<Rightarrow> ('d sys, ulong) outcome)) option"
  show ?thesis
  proof (cases "up = None \<and> ?dec \<noteq> None")
    case False
    then show ?thesis using red [OF assms(2)] t by (auto simp: sbi_misaligned_store_handler_def run_bind split: option.splits)
  next
    case True
    then obtain len get where up: "up = None" and d: "?dec = Some (len, get)" by auto
    obtain v where v: "get s = Ret v s" using decode_store_reads [OF d] by blast
    obtain u m where l: "store_bytes len 0 c h addr v s = Ret u (s\<lparr>mem := m\<rparr>)"
      using store_bytes_state [of len 0 c h addr v s] by blast
    have "sbi_misaligned_store_handler c h addr t2 ti regs s =
        (case u of Some x \<Rightarrow> sbi_trap_redirect c h regs (x\<lparr>epc := mepc regs\<rparr>) (s\<lparr>mem := m\<rparr>)
         | None \<Rightarrow> Ret (0, regs\<lparr>mepc := mepc regs + INSN_LEN insn\<rparr>) (s\<lparr>mem := m\<rparr>))"
      using t up d v l by (simp add: sbi_misaligned_store_handler_def run_bind run_ret split: option.splits)
    then show ?thesis
      using red [of "s\<lparr>mem := m\<rparr>"] assms(2) insn_len_cases [of insn] by (cases u) (auto simp: handled_def resumes_def)
  qed
qed

lemma ecall_returns_zero:
  "sbi_ecall_handler c h regs s = Ret (rc, regs') s' \<Longrightarrow> rc = 0"
proof -
  have fin: "ecall_finish c h regs b x t = Ret (rc, regs') s' \<Longrightarrow> rc = 0" for b x t
    by (cases x) (auto simp: ecall_finish_def run_simps Let_def split: if_splits outcome.splits prod.splits)
  assume "sbi_ecall_handler c h regs s = Ret (rc, regs') s'"
  then show ?thesis
    unfolding sbi_ecall_handler_def Let_def run_bind
    by (auto simp: sbi_ecall_find_extension_def run_get run_bind dest!: fin split: outcome.splits option.splits)
qed

section \<open>Properties\<close>

lemma cause_bit: "mcause AND shl 1 63 \<noteq> 0 \<longleftrightarrow> bit (mcause :: ulong) 63"
proof (rule and_single_bit)
  fix n show "bit (shl 1 63 :: ulong) n \<longleftrightarrow> n = 63" by (cases "n < 64") (auto simp: bit_shl bit_1_iff dest: bit_imp_le_length)
qed

text \<open>What the handler sees of an exception.\<close>

definition exception_of :: "'d cfg \<Rightarrow> nat \<Rightarrow> sbi_trap_regs \<Rightarrow> 'd sys \<Rightarrow> string \<times> ('d sys \<Rightarrow> ('d sys, int \<times> sbi_trap_regs) outcome)" where
  "exception_of c h regs s =
     (let hy = misa_has c h (ch CHR ''H'') (csr (harts s h) CSR_MISA) in
      trap_exception c h (csr (harts s h) CSR_MCAUSE) (csr (harts s h) CSR_MTVAL)
        (if hy then csr (harts s h) CSR_MTVAL2 else 0) (if hy then csr (harts s h) CSR_MTINST else 0) regs)"

lemma trap_exception_run:
  assumes "\<not> bit (csr (harts s h) CSR_MCAUSE) 63"
  shows "\<exists>err. (\<forall>rc r t. \<exists>d. err rc r t = Halt Hang (t\<lparr>dev := d\<rparr>)) \<and>
    sbi_trap_handler c h regs s =
      (case snd (exception_of c h regs s) s of Halt r s' \<Rightarrow> Halt r s'
       | Ret (rc, regs') s' \<Rightarrow> if rc \<noteq> 0 then err rc regs' s' else Ret regs' s')"
proof -
  let ?hy = "misa_has c h (ch CHR ''H'') (csr (harts s h) CSR_MISA)"
  let ?err = "\<lambda>rc. sbi_trap_error c h (fst (exception_of c h regs s)) rc (csr (harts s h) CSR_MCAUSE) (csr (harts s h) CSR_MTVAL)
        (if ?hy then csr (harts s h) CSR_MTVAL2 else 0) (if ?hy then csr (harts s h) CSR_MTINST else 0)"
  have "sbi_trap_handler c h regs s =
      (case snd (exception_of c h regs s) s of Halt r s' \<Rightarrow> Halt r s'
       | Ret (rc, regs') s' \<Rightarrow> if rc \<noteq> 0 then ?err rc regs' s' else Ret regs' s')"
    using assms cause_bit [of "csr (harts s h) CSR_MCAUSE"]
    by (simp add: sbi_trap_handler_def exception_of_def Let_def run_simps split_beta split: outcome.splits)
  then show ?thesis by (intro exI [of _ ?err] conjI allI trap_error_hangs)
qed

text \<open>
  C6: what the firmware does with every trap. A machine timer interrupt is turned into a pending supervisor timer
  interrupt and masked; a machine software interrupt runs the inter-processor events; any other interrupt is reported
  and the hart hangs. A call runs the call handler and resumes with the registers it left. Any other exception from supervisor
  or user mode is handled: execution resumes after the instruction in the same mode, or in
  supervisor mode at a trap vector; it never ends in the error report. An exception from machine
  mode that is not emulated is reported and the hart hangs, with nothing but the console changed.
\<close>

theorem trap_handler_outcomes:
  fixes s :: "'d sys" and c :: "'d cfg" and h :: nat and regs :: sbi_trap_regs
  assumes "get_time_val s \<noteq> no_time" "prev_mode_of regs \<in> {PRV_S, PRV_U} \<or> csr (harts s h) CSR_MCAUSE \<notin> {2, 4, 6}"
  defines "mcause \<equiv> csr (harts s h) CSR_MCAUSE"
  shows "if bit mcause 63 then
      if mcause AND NOT (shl 1 63) = 7
      then sbi_trap_handler c h regs s = Ret regs (upd_hart h (\<lambda>t. t\<lparr>csr := (csr t)
        (CSR_MIE := csr t CSR_MIE AND NOT MIP_MTIP, CSR_MIP := csr t CSR_MIP OR MIP_STIP)\<rparr>) s)
      else if mcause AND NOT (shl 1 63) = 3
      then sbi_trap_handler c h regs s = (case sbi_ipi_process c h (sbi_exit c h) s of Ret _ s' \<Rightarrow> Ret regs s' | Halt r s' \<Rightarrow> Halt r s')
      else \<exists>d. sbi_trap_handler c h regs s = Halt Hang (s\<lparr>dev := d\<rparr>)
    else if mcause \<in> {9, 10}
    then sbi_trap_handler c h regs s = (case sbi_ecall_handler c h regs s of Ret (_, regs') s' \<Rightarrow> Ret regs' s' | Halt r s' \<Rightarrow> Halt r s')
    else if prev_mode_of regs \<in> {PRV_S, PRV_U}
    then \<exists>regs' s'. sbi_trap_handler c h regs s = Ret regs' s' \<and> resumes (csr (harts s h)) regs regs'
    else \<exists>d. sbi_trap_handler c h regs s = Halt Hang (s\<lparr>dev := d\<rparr>)"
proof (cases "bit mcause 63")
  case True
  then show ?thesis
    using cause_bit [of mcause]
    by (simp add: trap_error_hangs sbi_trap_handler_def run_simps Let_def mcause_def sbi_timer_process_def upd_hart_def split: outcome.splits)
next
  case False
  obtain err where err: "\<And>rc r t. \<exists>d. err rc r t = Halt Hang (t\<lparr>dev := d\<rparr>)"
    and run: "sbi_trap_handler c h regs s =
      (case snd (exception_of c h regs s) s of Halt r s' \<Rightarrow> Halt r s'
       | Ret (rc, regs') s' \<Rightarrow> if rc \<noteq> 0 then err rc regs' s' else Ret regs' s')"
    using trap_exception_run [of s h c regs] False by (auto simp: mcause_def)
  show ?thesis
  proof (cases "mcause \<in> {9, 10}")
    case ecall: True
    then have "snd (exception_of c h regs s) = sbi_ecall_handler c h regs"
      by (auto simp: exception_of_def trap_exception_def Let_def mcause_def)
    then show ?thesis
      using False ecall run ecall_returns_zero [of c h regs s] by (auto split: outcome.splits)
  next
    case other: False
    show ?thesis
    proof (cases "prev_mode_of regs \<in> {PRV_S, PRV_U}")
      case below: True
      then have b: "below_m regs" by auto
      have "handled (csr (harts s h)) regs (snd (exception_of c h regs s) s)"
        using other
        by (simp add: illegal_handled [OF b refl assms(1)] misaligned_load_handled [OF b refl] misaligned_store_handled [OF b refl]
            redirect_handled [OF b refl] exception_of_def trap_exception_def Let_def mcause_def)
      then show ?thesis using False other below run by (auto simp: handled_def)
    next
      case m: False
      then have "snd (exception_of c h regs s) s = Ret (SBI_ENOTSUPP, regs) s"
        using other assms(2)
        by (simp add: exception_of_def trap_exception_def Let_def mcause_def sbi_trap_redirect_def run_simps)
      then show ?thesis using False other m run err by simp
    qed
  qed
qed

text \<open>In user mode, a load page fault reaches the supervisor's trap vector.\<close>

definition faulting :: "unit sys" where
  "faulting = (upd_hart 0 (\<lambda>t. t\<lparr>csr := (csr t)(CSR_MCAUSE := CAUSE_LOAD_PAGE_FAULT, CSR_STVEC := 0x8000)\<rparr>) zero_sys)
     \<lparr>get_time_val := get_ticks\<rparr>"

theorem trap_handler_outcomes_witness:
  "\<exists>regs' s'. sbi_trap_handler bare_cfg 0 trap_regs0 faulting = Ret regs' s' \<and> resumes (csr (harts faulting 0)) trap_regs0 regs'"
proof -
  have f: "csr (harts faulting 0) CSR_MCAUSE = 0xd" "get_time_val faulting \<noteq> no_time"
    by (simp_all add: faulting_def upd_hart_def)
  have m: "prev_mode_of trap_regs0 = PRV_U" by (simp add: trap_regs0_def prev_mode_of_def shr_def)
  show ?thesis using trap_handler_outcomes [OF f(2), of trap_regs0 0 bare_cfg] f(1) m by simp
qed

end
