(* ===== verification/Sbi_Init.thy ===== *)
theory Sbi_Init
  imports Sbi_Trap
begin

text \<open>
  Start-up of the library, \<^verbatim>\<open>lib/sbi/sbi_init.c\<close>: the lottery that picks the hart of the cold
  boot, the cold and the warm boot sequences, and the barrier at which the other harts sleep until
  the cold boot is done.

  \<open>sbi_init\<close> is what one hart runs from reset to the next boot stage. The barrier is also stated
  over all harts: \<open>boot_step\<close> interleaves the critical sections of the code, each hart being at one
  place of it, with whatever else the harts do in between.

  The version is printed as in a build without \<^verbatim>\<open>OPENSBI_VERSION_GIT\<close>. The line buffer of the boot
  messages is cleared here, where the code has an uninitialised array that the called
  functions fill before it is printed.
\<close>

section \<open>Boot messages\<close>

abbreviation (input) bsl :: string where "bsl \<equiv> [CHR 0x5C]"

definition BANNER :: string where
  "BANNER =
     ''   ____                    _____ ____ _____\<newline>'' @
     ''  / __ '' @ bsl @ ''                  / ____|  _ '' @ bsl @ ''_   _|\<newline>'' @
     '' | |  | |_ __   ___ _ __ | (___ | |_) || |\<newline>'' @
     '' | |  | | '_ '' @ bsl @ '' / _ '' @ bsl @ '' '_ '' @ bsl @ '' '' @ bsl @ ''___ '' @ bsl @ ''|  _ < | |\<newline>'' @
     '' | |__| | |_) |  __/ | | |____) | |_) || |_\<newline>'' @
     ''  '' @ bsl @ ''____/| .__/ '' @ bsl @ ''___|_| |_|_____/|____/_____|\<newline>'' @
     ''        | |\<newline>'' @
     ''        |_|\<newline>\<newline>''"

text \<open>The string at the start of a buffer; a buffer without terminator is read past its end.\<close>

definition str_arg :: "u8 list \<Rightarrow> 's \<Rightarrow> ('s, va) outcome" where
  "str_arg buf = (if 0 \<in> set buf then retM (Vstr (Some (cstr buf 0))) else haltM BadAccess)"

definition sbi_boot_prints :: "'d cfg \<Rightarrow> nat \<Rightarrow> nat \<Rightarrow> 'd sys \<Rightarrow> ('d sys, unit) outcome" where
  "sbi_boot_prints c h sc =
     seqM (printfM c ''\<newline>OpenSBI v%d.%d\<newline>'' [Vword 0, Vword 8])
    (seqM (printfM c BANNER [])
    (bindM (misa_xlen c h) (\<lambda>xlen.
     seqM (whenM (xlen < 1)
             (seqM (printfM c ''Error %d getting MISA XLEN\<newline>'' [Vword (of_int xlen)]) sbi_hart_hang))
    (seqM (printfM c ''Platform Name       : %s\<newline>'' [Vstr (Some (sbi_platform_name c))])
    (bindM (sbi_platform_get_features_str c (replicate 128 0) 128) (\<lambda>str.
     bindM (str_arg str) (\<lambda>arg.
     seqM (printfM c ''Platform Features   : %s\<newline>'' [arg])
    (seqM (printfM c ''Platform HART Count : %u\<newline>'' [Vword (of_nat (sbi_platform_hart_count c))])
    (seqM (printfM c ''Boot HART ID        : %u\<newline>'' [Vword (of_nat h)])
    (bindM (misa_string c h xlen str 128) (\<lambda>str.
     bindM (str_arg str) (\<lambda>arg.
     seqM (printfM c ''Boot HART ISA       : %s\<newline>'' [arg])
    (bindM (sbi_hart_get_features_str sc str 128) (\<lambda>str.
     bindM (str_arg str) (\<lambda>arg.
     seqM (printfM c ''BOOT HART Features  : %s\<newline>'' [arg])
    (bindM (sbi_hart_pmp_count sc) (\<lambda>pmp_count.
     seqM (printfM c ''BOOT HART PMP Count : %d\<newline>'' [Vword (of_nat pmp_count)])
    (bindM (getM (\<lambda>s. scratch s sc)) (\<lambda>t.
     seqM (printfM c ''Firmware Base       : 0x%lx\<newline>'' [Vword (fw_start t)])
    (seqM (printfM c ''Firmware Size       : %d KB\<newline>'' [Vword (ucast (ucast (fw_size t div 1024) :: u32))])
    (seqM (printfM c ''Runtime SBI Version : %d.%d\<newline>''
             [Vword (ucast sbi_ecall_version_major), Vword (ucast sbi_ecall_version_minor)])
    (seqM (printfM c ''\<newline>'' [])
    (seqM (sbi_hart_delegation_dump c h)
          (sbi_hart_pmp_dump c h sc))))))))))))))))))))))))"

section \<open>The cold boot barrier\<close>

text \<open>
  Waiting, in the pieces that other harts can run between: entering (with the machine interrupt
  enable bits to restore as result), one look at the pending interrupts after a wake-up, leaving
  the list of waiting harts, and the restoration of the interrupt state.
\<close>

definition wait_enter :: "nat \<Rightarrow> 'd sys \<Rightarrow> ('d sys, ulong) outcome" where
  "wait_enter h =
     bindM (csr_read h CSR_MIE) (\<lambda>saved_mie.
     seqM (csr_set h CSR_MIE MIP_MSIP)
    (bindM (getM (\<lambda>s. sbi_hartmask_set_hart h (coldboot_wait_hmask s))) (\<lambda>m.
     bindM (liftO m) (\<lambda>m.
     seqM (modM (\<lambda>s. s\<lparr>coldboot_wait_hmask := m\<rparr>)) (retM saved_mie)))))"

definition wait_poll :: "nat \<Rightarrow> 'd sys \<Rightarrow> ('d sys, bool) outcome" where
  "wait_poll h = bindM (csr_read h CSR_MIP) (\<lambda>cmip. retM (cmip AND MIP_MSIP \<noteq> 0))"

definition wait_unmark :: "nat \<Rightarrow> 'd sys \<Rightarrow> ('d sys, unit) outcome" where
  "wait_unmark h =
     bindM (getM (\<lambda>s. sbi_hartmask_clear_hart h (coldboot_wait_hmask s))) (\<lambda>m.
     bindM (liftO m) (\<lambda>m. modM (\<lambda>s. s\<lparr>coldboot_wait_hmask := m\<rparr>)))"

definition wait_restore :: "'d cfg \<Rightarrow> nat \<Rightarrow> ulong \<Rightarrow> 'd sys \<Rightarrow> ('d sys, unit) outcome" where
  "wait_restore c h saved_mie = seqM (csr_write h CSR_MIE saved_mie) (sbi_platform_ipi_clear c h)"

fun wfi_loop :: "'d cfg \<Rightarrow> nat \<Rightarrow> nat \<Rightarrow> 'd sys \<Rightarrow> ('d sys, unit) outcome" where
  "wfi_loop c h 0 = haltM Spin"
| "wfi_loop c h (Suc n) =
     seqM (modM (interf c h)) (bindM (wait_poll h) (\<lambda>b. if b then retM () else wfi_loop c h n))"

fun coldboot_loop :: "'d cfg \<Rightarrow> nat \<Rightarrow> nat \<Rightarrow> 'd sys \<Rightarrow> ('d sys, unit) outcome" where
  "coldboot_loop c h 0 = haltM Spin"
| "coldboot_loop c h (Suc n) =
     bindM (getM coldboot_done) (\<lambda>b.
       if b then retM () else seqM (wfi_loop c h (fuel c)) (coldboot_loop c h n))"

definition wait_for_coldboot :: "'d cfg \<Rightarrow> nat \<Rightarrow> 'd sys \<Rightarrow> ('d sys, unit) outcome" where
  "wait_for_coldboot c h =
     bindM (wait_enter h) (\<lambda>saved_mie.
     seqM (coldboot_loop c h (fuel c))
    (seqM (wait_unmark h)
          (wait_restore c h saved_mie)))"

definition wake_coldboot_harts :: "'d cfg \<Rightarrow> nat \<Rightarrow> 'd sys \<Rightarrow> ('d sys, unit) outcome" where
  "wake_coldboot_harts c h =
     seqM (modM (\<lambda>s. s\<lparr>coldboot_done := True\<rparr>))
    (bindM sbi_scratch_last_hartid (\<lambda>last.
     forM [0..<last + 1] (\<lambda>i.
       whenM (i \<noteq> h)
         (bindM (getM (\<lambda>s. sbi_hartmask_test_hart i (coldboot_wait_hmask s))) (\<lambda>b.
          bindM (liftO b) (\<lambda>b. whenM (b \<noteq> 0) (sbi_platform_ipi_send c i)))))))"

section \<open>The boot sequences\<close>

text \<open>A step that must succeed: any other result hangs the hart.\<close>

definition must :: "('d sys \<Rightarrow> ('d sys, int) outcome) \<Rightarrow> 'd sys \<Rightarrow> ('d sys, unit) outcome" where
  "must m = bindM m (\<lambda>rc. whenM (rc \<noteq> 0) sbi_hart_hang)"

text \<open>The common end: counting the initialisation, and the jump to the next stage.\<close>

definition init_finish :: "'d cfg \<Rightarrow> nat \<Rightarrow> nat \<Rightarrow> 'd sys \<Rightarrow> ('d sys, unit) outcome" where
  "init_finish c h sc =
     seqM (modM (\<lambda>s. scratch_wr sc (init_count_offset s) (scratch_rd sc (init_count_offset s) s + 1) s))
    (seqM (sbi_hsm_prepare_next_jump sc)
    (bindM (getM (\<lambda>s. scratch s sc)) (\<lambda>t.
       sbi_hart_switch_mode c h (of_nat h) (next_arg1 t) (next_addr t) (next_mode t) False)))"

text \<open>The cold boot up to the point where the other harts are let go.\<close>

definition coldboot_setup :: "'d cfg \<Rightarrow> nat \<Rightarrow> nat \<Rightarrow> 'd sys \<Rightarrow> ('d sys, unit) outcome" where
  "coldboot_setup c h sc =
     bindM (sbi_scratch_alloc_offset 8) (\<lambda>off.
     seqM (modM (\<lambda>s. s\<lparr>init_count_offset := off\<rparr>))
    (seqM (whenM (off = 0) sbi_hart_hang)
    (seqM (must (sbi_hsm_init c h sc True))
    (seqM (must (sbi_platform_early_init c h True))
    (seqM (must (sbi_hart_init c h sc True))
    (seqM (must (sbi_console_init c))
    (seqM (must (sbi_platform_irqchip_init c h True))
    (seqM (must (sbi_ipi_init c h sc True))
    (seqM (must (sbi_tlb_init c sc True))
    (seqM (must (sbi_timer_init c h sc True))
    (seqM (must sbi_ecall_init)
    (seqM (must (sbi_platform_final_init c h True))
          (bindM (getM (\<lambda>s. options (scratch s sc))) (\<lambda>opts.
             whenM (opts AND SBI_SCRATCH_NO_BOOT_PRINTS = 0) (sbi_boot_prints c h sc)))))))))))))))"

definition init_coldboot :: "'d cfg \<Rightarrow> nat \<Rightarrow> nat \<Rightarrow> 'd sys \<Rightarrow> ('d sys, unit) outcome" where
  "init_coldboot c h sc =
     seqM (must (sbi_scratch_init c))
    (seqM (coldboot_setup c h sc)
    (seqM (wake_coldboot_harts c h)
          (init_finish c h sc)))"

definition warmboot_setup :: "'d cfg \<Rightarrow> nat \<Rightarrow> nat \<Rightarrow> 'd sys \<Rightarrow> ('d sys, unit) outcome" where
  "warmboot_setup c h sc =
     bindM (getM init_count_offset) (\<lambda>off.
     seqM (whenM (off = 0) sbi_hart_hang)
    (seqM (must (sbi_hsm_init c h sc False))
    (seqM (must (sbi_platform_early_init c h False))
    (seqM (must (sbi_hart_init c h sc False))
    (seqM (must (sbi_platform_irqchip_init c h False))
    (seqM (must (sbi_ipi_init c h sc False))
    (seqM (must (sbi_tlb_init c sc False))
    (seqM (must (sbi_timer_init c h sc False))
          (must (sbi_platform_final_init c h False))))))))))"

definition init_warmboot :: "'d cfg \<Rightarrow> nat \<Rightarrow> nat \<Rightarrow> 'd sys \<Rightarrow> ('d sys, unit) outcome" where
  "init_warmboot c h sc =
     seqM (wait_for_coldboot c h)
    (seqM (warmboot_setup c h sc)
          (init_finish c h sc))"

text \<open>\<^verbatim>\<open>atomic_xchg(&coldboot_lottery, 1)\<close>\<close>

definition lottery_xchg :: "'d sys \<Rightarrow> ('d sys, ulong) outcome" where
  "lottery_xchg = bindM (getM coldboot_lottery) (\<lambda>old. seqM (modM (\<lambda>s. s\<lparr>coldboot_lottery := 1\<rparr>)) (retM old))"

definition sbi_init :: "'d cfg \<Rightarrow> nat \<Rightarrow> nat \<Rightarrow> 'd sys \<Rightarrow> ('d sys, unit) outcome" where
  "sbi_init c h sc =
     (if SBI_HARTMASK_MAX_BITS \<le> h \<or> sbi_platform_hart_invalid c h then sbi_hart_hang
      else
        bindM lottery_xchg (\<lambda>old.
          if old = 0 then init_coldboot c h sc else init_warmboot c h sc))"

section \<open>All harts at the barrier\<close>

text \<open>
  Where a hart is: before the lottery; on the cold boot path before the hart table is set up, during
  the rest of the setup, and after the others were let go; on the warm boot path before the
  barrier, asleep in it, woken up, on its way out, and past it. The interrupt enable bits a waiting hart has saved
  are part of its place.
\<close>

datatype boot_pc = At_reset | Cold_start | Cold_setup | Cold_over
  | Warm_start | Asleep ulong | Woken ulong | Leaving ulong | Past

text \<open>What the rest of the code leaves alone: the variables of the barrier, and the extent of the hart table.\<close>

definition boot_rel :: "'d sys \<Rightarrow> 'd sys \<Rightarrow> bool" where
  "boot_rel s s' \<longleftrightarrow> coldboot_done s' = coldboot_done s \<and> coldboot_wait_hmask s' = coldboot_wait_hmask s \<and>
     coldboot_lottery s' = coldboot_lottery s \<and> last_hartid_having_scratch s' = last_hartid_having_scratch s"

text \<open>The software interrupt line of a hart, as its \<open>mip\<close> register shows it.\<close>

definition show_line :: "(nat \<Rightarrow> 'd \<Rightarrow> bool) \<Rightarrow> nat \<Rightarrow> 'd sys \<Rightarrow> 'd sys" where
  "show_line raised h s = upd_hart h (\<lambda>t. t\<lparr>csr := (csr t)(CSR_MIP :=
     (if raised h (dev s) then csr t CSR_MIP OR MIP_MSIP else csr t CSR_MIP AND NOT MIP_MSIP))\<rparr>) s"

text \<open>
  One step of one hart: a piece of the boot code that no other hart can interrupt (the lottery, a section
  under \<open>coldboot_lock\<close>, or code that only touches the hart's own registers), or other work. The cold hart may do
  anything to the devices while it sets up; when it lets the others go, the interrupt device is \<open>ready\<close>. Harts behind the
  barrier keep it so; they may raise any line, but clear none but their own. That a sleeping hart finds its line raised is therefore shown for every
  state after the release, the one right after \<open>wake_coldboot_harts\<close> included.
\<close>

inductive boot_step :: "'d cfg \<Rightarrow> (nat \<Rightarrow> 'd \<Rightarrow> bool) \<Rightarrow> ('d \<Rightarrow> bool) \<Rightarrow>
    (nat \<Rightarrow> boot_pc) \<times> 'd sys \<Rightarrow> (nat \<Rightarrow> boot_pc) \<times> 'd sys \<Rightarrow> bool" for c raised ready where
  draw: "pc h = At_reset \<Longrightarrow> h < SBI_HARTMASK_MAX_BITS \<Longrightarrow> \<not> sbi_platform_hart_invalid c h \<Longrightarrow>
    lottery_xchg s = Ret old s' \<Longrightarrow>
    boot_step c raised ready (pc, s) (pc(h := if old = 0 then Cold_start else Warm_start), s')"
| table: "pc h = Cold_start \<Longrightarrow> must (sbi_scratch_init c) s = Ret () s' \<Longrightarrow>
    boot_step c raised ready (pc, s) (pc(h := Cold_setup), s')"
| init_work: "pc h = Cold_setup \<Longrightarrow> boot_rel s s' \<Longrightarrow> boot_step c raised ready (pc, s) (pc, s')"
| wake: "pc h = Cold_setup \<Longrightarrow> ready (dev s) \<Longrightarrow> wake_coldboot_harts c h s = Ret () s' \<Longrightarrow>
    boot_step c raised ready (pc, s) (pc(h := Cold_over), s')"
| enter_sleep: "pc h = Warm_start \<Longrightarrow> wait_enter h s = Ret m s' \<Longrightarrow> \<not> coldboot_done s' \<Longrightarrow>
    boot_step c raised ready (pc, s) (pc(h := Asleep m), s')"
| enter_pass: "pc h = Warm_start \<Longrightarrow> wait_enter h s = Ret m s' \<Longrightarrow> coldboot_done s' \<Longrightarrow> wait_unmark h s' = Ret () s'' \<Longrightarrow>
    boot_step c raised ready (pc, s) (pc(h := Leaving m), s'')"
| poll: "pc h = Asleep m \<Longrightarrow> wait_poll h (show_line raised h s) = Ret b s' \<Longrightarrow>
    boot_step c raised ready (pc, s) (pc(h := if b then Woken m else Asleep m), s')"
| retest_sleep: "pc h = Woken m \<Longrightarrow> \<not> coldboot_done s \<Longrightarrow>
    boot_step c raised ready (pc, s) (pc(h := Asleep m), s)"
| retest_pass: "pc h = Woken m \<Longrightarrow> coldboot_done s \<Longrightarrow> wait_unmark h s = Ret () s' \<Longrightarrow>
    boot_step c raised ready (pc, s) (pc(h := Leaving m), s')"
| leave: "pc h = Leaving m \<Longrightarrow> wait_restore c h m s = Ret () s' \<Longrightarrow>
    boot_step c raised ready (pc, s) (pc(h := Past), s')"
| work: "pc h \<in> {Cold_over, Past} \<Longrightarrow> boot_rel s s' \<Longrightarrow> (ready (dev s) \<Longrightarrow> ready (dev s')) \<Longrightarrow>
    (\<And>k. k \<noteq> h \<Longrightarrow> raised k (dev s) \<Longrightarrow> raised k (dev s')) \<Longrightarrow>
    boot_step c raised ready (pc, s) (pc, s')"

text \<open>The state after reset, for any hardware: see \<open>boot_sys\<close>.\<close>

definition boot_start :: "'d sys \<Rightarrow> bool" where
  "boot_start s \<longleftrightarrow> \<not> coldboot_done s \<and> coldboot_lottery s = 0 \<and> hm_ok (coldboot_wait_hmask s) \<and>
     hm_set (coldboot_wait_hmask s) = {} \<and> length (hartid_to_scratch_table s) = SBI_HARTMASK_MAX_BITS"

lemma boot_start_boot_sys: "boot_start (boot_sys d hs sc m)"
  by (simp add: boot_start_def boot_sys_def hm_ok_def hm_set_def bset_def nth_Cons' split: if_splits)

definition on_cold_path :: "boot_pc \<Rightarrow> bool" where
  "on_cold_path p \<longleftrightarrow> p \<in> {Cold_start, Cold_setup, Cold_over}"

definition in_barrier :: "boot_pc \<Rightarrow> bool" where
  "in_barrier p \<longleftrightarrow> (\<exists>m. p \<in> {Asleep m, Woken m})"

definition behind_barrier :: "boot_pc \<Rightarrow> bool" where
  "behind_barrier p \<longleftrightarrow> p = Past \<or> (\<exists>m. p = Leaving m)"

lemmas boot_pc_defs = on_cold_path_def in_barrier_def behind_barrier_def

section \<open>Running the pieces\<close>

lemma lottery_run [run_simps]: "lottery_xchg s = Ret (coldboot_lottery s) (s\<lparr>coldboot_lottery := 1\<rparr>)"
  by (simp add: lottery_xchg_def run_simps)

lemma wait_enter_run:
  assumes "hm_ok (coldboot_wait_hmask s)" "h < SBI_HARTMASK_MAX_BITS"
  shows "\<exists>m. wait_enter h s = Ret (csr (harts s h) CSR_MIE)
      (upd_hart h (\<lambda>t. t\<lparr>csr := (csr t)(CSR_MIE := csr t CSR_MIE OR MIP_MSIP)\<rparr>) (s\<lparr>coldboot_wait_hmask := m\<rparr>)) \<and>
    hm_ok m \<and> hm_set m = insert h (hm_set (coldboot_wait_hmask s))"
proof -
  obtain m where "sbi_hartmask_set_hart h (coldboot_wait_hmask s) = Some m" "hm_ok m"
    "hm_set m = insert h (hm_set (coldboot_wait_hmask s))"
    using hm_ins [OF assms(1), of h] assms(2) by auto
  then show ?thesis by (intro exI [of _ m]) (simp add: wait_enter_def run_simps upd_hart_def sys.equality)
qed

lemma wait_unmark_run:
  assumes "hm_ok (coldboot_wait_hmask s)"
  shows "\<exists>m. wait_unmark h s = Ret () (s\<lparr>coldboot_wait_hmask := m\<rparr>) \<and> hm_ok m \<and>
    hm_set m = hm_set (coldboot_wait_hmask s) - {h}"
  using hm_del [OF assms, of h] by (auto simp: wait_unmark_def run_simps)

lemma wait_restore_run: "wait_restore c h m s = Ret () (upd_hart h (\<lambda>t. t\<lparr>csr := (csr t)(CSR_MIE := m)\<rparr>)
    (s\<lparr>dev := plat_void_eff c ipi_clear h (dev s)\<rparr>))"
  by (simp add: wait_restore_def run_simps plat_wrapper_defs upd_hart_def sys.equality)

lemma and_not_and: "(a AND NOT m) AND m = (0 :: ulong)"
  by (auto simp: bit_eq_iff bit_and_iff bit_not_iff)

lemma msip_bit: "(a OR MIP_MSIP) AND MIP_MSIP \<noteq> 0" "(a AND NOT MIP_MSIP) AND MIP_MSIP = (0 :: ulong)"
  by (simp_all only: or_and_absorb and_not_and) simp

lemma wait_poll_run: "wait_poll h (show_line raised h s) = Ret (raised h (dev s)) (show_line raised h s)"
  using msip_bit [of "csr (harts s h) CSR_MIP"] by (simp add: wait_poll_def run_simps show_line_def upd_hart_def)

lemma show_line_simps [simp]:
  "coldboot_done (show_line raised h s) = coldboot_done s" "coldboot_lottery (show_line raised h s) = coldboot_lottery s"
  "coldboot_wait_hmask (show_line raised h s) = coldboot_wait_hmask s" "dev (show_line raised h s) = dev s"
  "last_hartid_having_scratch (show_line raised h s) = last_hartid_having_scratch s"
  "hartid_to_scratch_table (show_line raised h s) = hartid_to_scratch_table s"
  by (simp_all add: show_line_def upd_hart_def)

lemma table_run:
  assumes "length (hartid_to_scratch_table s) = SBI_HARTMASK_MAX_BITS" "must (sbi_scratch_init c) s = Ret () s'"
  shows "boot_rel s (s'\<lparr>last_hartid_having_scratch := last_hartid_having_scratch s\<rparr>) \<and> dev s' = dev s \<and>
    (\<forall>i<SBI_HARTMASK_MAX_BITS. hart_scratch c i \<noteq> None \<longrightarrow> i \<le> last_hartid_having_scratch s')"
proof -
  have s': "s' = fold (init_step c) [0..<SBI_HARTMASK_MAX_BITS] s"
    using assms(2) by (simp add: must_def run_simps scratch_init_run [OF assms(1)])
  have "coldboot_done (fold (init_step c) xs s) = coldboot_done s \<and> dev (fold (init_step c) xs s) = dev s \<and>
      coldboot_wait_hmask (fold (init_step c) xs s) = coldboot_wait_hmask s \<and>
      coldboot_lottery (fold (init_step c) xs s) = coldboot_lottery s" for xs
    by (induction xs arbitrary: s) (simp_all add: init_step_def)
  moreover have "i \<le> last_hartid_having_scratch s'" if "i < SBI_HARTMASK_MAX_BITS" "hart_scratch c i \<noteq> None" for i
    unfolding s' init_steps_last using last_in_greatest [of "\<lambda>i. hart_scratch c i \<noteq> None", OF that(2,1)] that by blast
  ultimately show ?thesis unfolding s' boot_rel_def by simp
qed

lemma wake_run:
  fixes s :: "'d sys" and h :: nat
  assumes "hm_ok (coldboot_wait_hmask s)"
  defines "hit \<equiv> \<lambda>i. i \<noteq> h \<and> i \<in> hm_set (coldboot_wait_hmask s)"
  shows "wake_coldboot_harts c h s = Ret () (s\<lparr>coldboot_done := True,
    dev := fold (\<lambda>i d. if hit i then plat_void_eff c ipi_send i d else d) [0..<last_hartid_having_scratch s + 1] (dev s)\<rparr>)"
proof -
  let ?f = "\<lambda>i. whenM (i \<noteq> h)
         (bindM (getM (\<lambda>s. sbi_hartmask_test_hart i (coldboot_wait_hmask s))) (\<lambda>b.
          bindM (liftO b) (\<lambda>b. whenM (b \<noteq> 0) (sbi_platform_ipi_send c i))))"
  have "forM xs ?f (s\<lparr>coldboot_done := True, dev := d\<rparr>) = Ret () (s\<lparr>coldboot_done := True,
      dev := fold (\<lambda>i d. if hit i then plat_void_eff c ipi_send i d else d) xs d\<rparr>)" for xs d
    by (induction xs arbitrary: d) (simp_all add: run_simps hm_mem [OF assms(1)] hit_def plat_wrapper_defs)
  from this [of _ "dev s"] show ?thesis by (simp add: wake_coldboot_harts_def run_simps sbi_scratch_last_hartid_def)
qed

section \<open>The interrupt lines\<close>

text \<open>
  What the barrier needs of the device that carries software interrupts between the harts \<open>H\<close>: once it is ready,
  sending raises the line of the target and lowers none, and clearing lowers no line but that of the hart.
\<close>

locale ipi_line =
  fixes raised :: "nat \<Rightarrow> 'd \<Rightarrow> bool"
    and ready :: "'d \<Rightarrow> bool"
    and send :: "nat \<Rightarrow> 'd \<Rightarrow> 'd"
    and clear :: "nat \<Rightarrow> 'd \<Rightarrow> 'd"
    and H :: "nat set"
  assumes send_raises: "ready d \<Longrightarrow> i \<in> H \<Longrightarrow> raised i (send i d)"
    and send_keeps: "ready d \<Longrightarrow> i \<in> H \<Longrightarrow> k \<in> H \<Longrightarrow> raised k d \<Longrightarrow> raised k (send i d)"
    and send_ready: "ready d \<Longrightarrow> i \<in> H \<Longrightarrow> ready (send i d)"
    and clear_keeps: "ready d \<Longrightarrow> i \<in> H \<Longrightarrow> k \<in> H \<Longrightarrow> k \<noteq> i \<Longrightarrow> raised k d \<Longrightarrow> raised k (clear i d)"
    and clear_ready: "ready d \<Longrightarrow> i \<in> H \<Longrightarrow> ready (clear i d)"
    and clear_lowers: "ready d \<Longrightarrow> i \<in> H \<Longrightarrow> \<not> raised i (clear i d)"
begin

lemma sends:
  assumes "ready d" "\<forall>i\<in>set xs. P i \<longrightarrow> i \<in> H"
  shows "ready (fold (\<lambda>i d. if P i then send i d else d) xs d) \<and>
    (\<forall>k\<in>H. raised k d \<or> k \<in> set xs \<and> P k \<longrightarrow> raised k (fold (\<lambda>i d. if P i then send i d else d) xs d))"
  using assms
proof (induction xs arbitrary: d)
  case (Cons x xs)
  let ?d = "if P x then send x d else d"
  have r: "ready ?d" using Cons.prems send_ready by auto
  have "raised k ?d" if "k \<in> H" "raised k d \<or> k = x \<and> P x" for k
    using that Cons.prems send_keeps send_raises by auto
  moreover have "ready (fold (\<lambda>i d. if P i then send i d else d) xs ?d)"
    "\<And>k. k \<in> H \<Longrightarrow> raised k ?d \<or> k \<in> set xs \<and> P k \<Longrightarrow> raised k (fold (\<lambda>i d. if P i then send i d else d) xs ?d)"
    using Cons.IH [OF r] Cons.prems(2) by auto
  ultimately show ?case by (simp only: fold_Cons o_apply list.set) blast
qed simp

text \<open>The invariant of the barrier, for a platform that hands out these operations and a scratch area to every valid hart.\<close>

definition serves :: "'d cfg \<Rightarrow> bool" where
  "serves c \<longleftrightarrow> plat_void_eff c ipi_send = send \<and> plat_void_eff c ipi_clear = clear \<and>
     (\<forall>i<SBI_HARTMASK_MAX_BITS. \<not> sbi_platform_hart_invalid c i \<longrightarrow> i \<in> H \<and> hart_scratch c i \<noteq> None)"

definition boot_inv :: "'d cfg \<Rightarrow> (nat \<Rightarrow> boot_pc) \<times> 'd sys \<Rightarrow> bool" where
  "boot_inv c x \<longleftrightarrow> (case x of (pc, s) \<Rightarrow>
     hm_ok (coldboot_wait_hmask s) \<and>
     (\<forall>h\<in>hm_set (coldboot_wait_hmask s). \<not> sbi_platform_hart_invalid c h) \<and>
     (\<forall>h. pc h \<noteq> At_reset \<longrightarrow> h < SBI_HARTMASK_MAX_BITS \<and> \<not> sbi_platform_hart_invalid c h) \<and>
     (\<forall>h k. on_cold_path (pc h) \<longrightarrow> on_cold_path (pc k) \<longrightarrow> h = k) \<and>
     (coldboot_lottery s = 0 \<longrightarrow> (\<forall>h. \<not> on_cold_path (pc h))) \<and>
     (\<forall>h. pc h = Cold_start \<longrightarrow> length (hartid_to_scratch_table s) = SBI_HARTMASK_MAX_BITS) \<and>
     (coldboot_lottery s = 0 \<longrightarrow> length (hartid_to_scratch_table s) = SBI_HARTMASK_MAX_BITS) \<and>
     (\<forall>h i. pc h = Cold_setup \<longrightarrow> i < SBI_HARTMASK_MAX_BITS \<longrightarrow> hart_scratch c i \<noteq> None \<longrightarrow>
        i \<le> last_hartid_having_scratch s) \<and>
     (coldboot_done s \<longleftrightarrow> (\<exists>h. pc h = Cold_over)) \<and>
     (\<forall>h. behind_barrier (pc h) \<longrightarrow> coldboot_done s) \<and>
     (\<forall>h. in_barrier (pc h) \<longrightarrow> h \<in> hm_set (coldboot_wait_hmask s)) \<and>
     (coldboot_done s \<longrightarrow> ready (dev s)) \<and>
     (\<forall>h m. coldboot_done s \<longrightarrow> pc h = Asleep m \<longrightarrow> raised h (dev s)))"

lemma boot_invI:
  assumes "hm_ok (coldboot_wait_hmask s)"
    "\<And>h. h \<in> hm_set (coldboot_wait_hmask s) \<Longrightarrow> \<not> sbi_platform_hart_invalid c h"
    "\<And>h. pc h \<noteq> At_reset \<Longrightarrow> h < SBI_HARTMASK_MAX_BITS \<and> \<not> sbi_platform_hart_invalid c h"
    "\<And>h k. on_cold_path (pc h) \<Longrightarrow> on_cold_path (pc k) \<Longrightarrow> h = k"
    "\<And>h. coldboot_lottery s = 0 \<Longrightarrow> \<not> on_cold_path (pc h)"
    "\<And>h. pc h = Cold_start \<Longrightarrow> length (hartid_to_scratch_table s) = SBI_HARTMASK_MAX_BITS"
    "coldboot_lottery s = 0 \<Longrightarrow> length (hartid_to_scratch_table s) = SBI_HARTMASK_MAX_BITS"
    "\<And>h i. pc h = Cold_setup \<Longrightarrow> i < SBI_HARTMASK_MAX_BITS \<Longrightarrow> hart_scratch c i \<noteq> None \<Longrightarrow>
       i \<le> last_hartid_having_scratch s"
    "coldboot_done s \<longleftrightarrow> (\<exists>h. pc h = Cold_over)"
    "\<And>h. behind_barrier (pc h) \<Longrightarrow> coldboot_done s"
    "\<And>h. in_barrier (pc h) \<Longrightarrow> h \<in> hm_set (coldboot_wait_hmask s)"
    "coldboot_done s \<Longrightarrow> ready (dev s)"
    "\<And>h m. coldboot_done s \<Longrightarrow> pc h = Asleep m \<Longrightarrow> raised h (dev s)"
  shows "boot_inv c (pc, s)"
  unfolding boot_inv_def prod.case using assms by (intro conjI) blast+

lemma boot_invD:
  assumes "boot_inv c (pc, s)"
  shows "hm_ok (coldboot_wait_hmask s)"
    "h \<in> hm_set (coldboot_wait_hmask s) \<Longrightarrow> \<not> sbi_platform_hart_invalid c h"
    "pc h \<noteq> At_reset \<Longrightarrow> h < SBI_HARTMASK_MAX_BITS \<and> \<not> sbi_platform_hart_invalid c h"
    "on_cold_path (pc h) \<Longrightarrow> on_cold_path (pc k) \<Longrightarrow> h = k"
    "on_cold_path (pc h) \<Longrightarrow> coldboot_lottery s \<noteq> 0"
    "pc h = Cold_start \<Longrightarrow> length (hartid_to_scratch_table s) = SBI_HARTMASK_MAX_BITS"
    "coldboot_lottery s = 0 \<Longrightarrow> length (hartid_to_scratch_table s) = SBI_HARTMASK_MAX_BITS"
    "pc h = Cold_setup \<Longrightarrow> i < SBI_HARTMASK_MAX_BITS \<Longrightarrow> hart_scratch c i \<noteq> None \<Longrightarrow>
       i \<le> last_hartid_having_scratch s"
    "coldboot_done s \<longleftrightarrow> (\<exists>h. pc h = Cold_over)"
    "behind_barrier (pc h) \<Longrightarrow> coldboot_done s"
    "in_barrier (pc h) \<Longrightarrow> h \<in> hm_set (coldboot_wait_hmask s)"
    "coldboot_done s \<Longrightarrow> ready (dev s)"
    "coldboot_done s \<Longrightarrow> pc h = Asleep m \<Longrightarrow> raised h (dev s)"
  using assms unfolding boot_inv_def prod.case by metis+

lemma boot_inv_start: "boot_start s \<Longrightarrow> boot_inv c (\<lambda>_. At_reset, s)"
  by (intro boot_invI) (auto simp: boot_start_def boot_pc_defs)

lemma boot_inv_same:
  assumes "boot_inv c (pc, s)" "boot_rel s s'" "on_cold_path (pc k)" "pc k \<noteq> Cold_start"
    "coldboot_done s \<Longrightarrow> ready (dev s')" "\<And>k m. coldboot_done s \<Longrightarrow> pc k = Asleep m \<Longrightarrow> raised k (dev s')"
  shows "boot_inv c (pc, s')"
proof -
  note D = boot_invD [OF assms(1)]
  have n: "pc h \<noteq> Cold_start" for h using D(4) [OF assms(3), of h] assms(4) by (auto simp: boot_pc_defs)
  have l: "coldboot_lottery s \<noteq> 0" using D(5) [OF assms(3)] .
  have e: "coldboot_done s' = coldboot_done s" "coldboot_wait_hmask s' = coldboot_wait_hmask s"
    "coldboot_lottery s' = coldboot_lottery s" "last_hartid_having_scratch s' = last_hartid_having_scratch s"
    using assms(2) by (simp_all add: boot_rel_def)
  show ?thesis by (rule boot_invI; (unfold e)?) (insert D n l assms(5,6), blast+)
qed

text \<open>A hart that is not on the cold boot path moves to another place.\<close>

lemma boot_inv_move:
  assumes "boot_inv c (pc, s)" "h < SBI_HARTMASK_MAX_BITS" "\<not> sbi_platform_hart_invalid c h"
    "\<not> on_cold_path (pc h)" "\<not> on_cold_path q"
    "coldboot_done s' = coldboot_done s" "coldboot_lottery s' = 0 \<Longrightarrow> coldboot_lottery s = 0"
    "last_hartid_having_scratch s' = last_hartid_having_scratch s"
    "hartid_to_scratch_table s' = hartid_to_scratch_table s"
    "hm_ok (coldboot_wait_hmask s')" "hm_set (coldboot_wait_hmask s') \<subseteq> insert h (hm_set (coldboot_wait_hmask s))"
    "hm_set (coldboot_wait_hmask s) - {h} \<subseteq> hm_set (coldboot_wait_hmask s')"
    "in_barrier q \<Longrightarrow> h \<in> hm_set (coldboot_wait_hmask s')" "behind_barrier q \<Longrightarrow> coldboot_done s"
    "coldboot_done s \<Longrightarrow> ready (dev s) \<Longrightarrow> ready (dev s')"
    "\<And>k m. coldboot_done s \<Longrightarrow> k \<noteq> h \<Longrightarrow> pc k = Asleep m \<Longrightarrow> raised k (dev s) \<Longrightarrow> raised k (dev s')"
    "\<And>m. coldboot_done s \<Longrightarrow> q = Asleep m \<Longrightarrow> raised h (dev s')"
  shows "boot_inv c (pc(h := q), s')"
proof -
  note D = boot_invD [OF assms(1)]
  have cold: "on_cold_path ((pc(h := q)) i) = on_cold_path (pc i)" for i using assms(4,5) by simp
  have pcs: "((pc(h := q)) i = p) = (pc i = p)" if "on_cold_path p" for i p using assms(4,5) that by auto
  have p3: "on_cold_path Cold_start" "on_cold_path Cold_setup" "on_cold_path Cold_over" by (simp_all add: on_cold_path_def)
  note eqs = cold pcs [OF p3(1)] pcs [OF p3(2)] pcs [OF p3(3)] assms(6,8,9)
  show ?thesis
  proof (rule boot_invI, unfold eqs)
    show "h' < SBI_HARTMASK_MAX_BITS \<and> \<not> sbi_platform_hart_invalid c h'" if "(pc(h := q)) h' \<noteq> At_reset" for h'
      using that D(3) assms(2,3) by (cases "h' = h") auto
    show "coldboot_done s" if "behind_barrier ((pc(h := q)) h')" for h'
      using that D(10) assms(14) by (cases "h' = h") auto
    show "h' \<in> hm_set (coldboot_wait_hmask s')" if "in_barrier ((pc(h := q)) h')" for h'
      using that D(11) assms(12,13) by (cases "h' = h") auto
    show "raised h' (dev s')" if "coldboot_done s" "(pc(h := q)) h' = Asleep m" for h' m
      using that D(13) assms(16,17) by (cases "h' = h") auto
  qed (insert D assms, blast+)
qed

text \<open>The one hart on the cold boot path moves along it.\<close>

lemma boot_inv_cold:
  assumes "boot_inv c (pc, s)" "h < SBI_HARTMASK_MAX_BITS" "\<not> sbi_platform_hart_invalid c h"
    "\<And>k. k \<noteq> h \<Longrightarrow> \<not> on_cold_path (pc k)" "pc h \<noteq> Cold_over" "on_cold_path q"
    "coldboot_done s' \<longleftrightarrow> q = Cold_over" "coldboot_lottery s' \<noteq> 0" "coldboot_wait_hmask s' = coldboot_wait_hmask s"
    "q = Cold_start \<Longrightarrow> length (hartid_to_scratch_table s') = SBI_HARTMASK_MAX_BITS"
    "\<And>i. q = Cold_setup \<Longrightarrow> i < SBI_HARTMASK_MAX_BITS \<Longrightarrow> hart_scratch c i \<noteq> None \<Longrightarrow> i \<le> last_hartid_having_scratch s'"
    "q = Cold_over \<Longrightarrow> ready (dev s')"
    "\<And>k m. q = Cold_over \<Longrightarrow> pc k = Asleep m \<Longrightarrow> raised k (dev s')"
  shows "boot_inv c (pc(h := q), s')"
proof -
  note D = boot_invD [OF assms(1)]
  have q: "\<not> in_barrier q" "\<not> behind_barrier q" "q \<noteq> Asleep m" for m using assms(6) by (auto simp: boot_pc_defs)
  have cold: "on_cold_path ((pc(h := q)) i) \<longleftrightarrow> i = h" for i using assms(4,6) by auto
  have pcs: "(pc(h := q)) i = p \<longleftrightarrow> i = h \<and> q = p" if "on_cold_path p" for i p using assms(4,6) that by auto
  have p3: "on_cold_path Cold_start" "on_cold_path Cold_setup" "on_cold_path Cold_over" by (simp_all add: on_cold_path_def)
  have nd: "\<not> coldboot_done s" using D(9) assms(4,5) p3(3) by metis
  show ?thesis
  proof (rule boot_invI, unfold cold pcs [OF p3(1)] pcs [OF p3(2)] pcs [OF p3(3)] assms(9))
    show "h' < SBI_HARTMASK_MAX_BITS \<and> \<not> sbi_platform_hart_invalid c h'" if "(pc(h := q)) h' \<noteq> At_reset" for h'
      using that D(3) assms(2,3) by (cases "h' = h") auto
    show "coldboot_done s'" if "behind_barrier ((pc(h := q)) h')" for h'
      using that D(10) [of h'] nd q by (cases "h' = h") auto
    show "h' \<in> hm_set (coldboot_wait_hmask s)" if "in_barrier ((pc(h := q)) h')" for h'
      using that D(11) [of h'] q by (cases "h' = h") auto
    show "raised h' (dev s')" if "coldboot_done s'" "(pc(h := q)) h' = Asleep m" for h' m
      using that assms(7,13) q by (cases "h' = h") auto
  qed (insert D assms, blast+)
qed

text \<open>Letting the others go raises the line of every hart in the barrier.\<close>

lemma wake_raises:
  assumes "serves c" "boot_inv c (pc, s)" "pc h = Cold_setup" "ready (dev s)" "wake_coldboot_harts c h s = Ret () s'"
  shows "\<exists>d. s' = s\<lparr>coldboot_done := True, dev := d\<rparr> \<and> ready d \<and> (\<forall>k m. pc k = Asleep m \<longrightarrow> raised k d)"
proof -
  note D = boot_invD [OF assms(2)]
  let ?P = "\<lambda>i. i \<noteq> h \<and> i \<in> hm_set (coldboot_wait_hmask s)"
  define d where "d = fold (\<lambda>i d. if ?P i then send i d else d) [0..<last_hartid_having_scratch s + 1] (dev s)"
  have s': "s' = s\<lparr>coldboot_done := True, dev := d\<rparr>"
    using wake_run [OF D(1), of c h] assms(5) unfolding conjunct1 [OF assms(1) [unfolded serves_def]] d_def by simp
  have "\<forall>i. ?P i \<longrightarrow> i \<in> H" using D(2) assms(1) by (auto simp: serves_def hm_set_def)
  then have r: "ready d" "k \<in> H \<Longrightarrow> ?P k \<Longrightarrow> k \<le> last_hartid_having_scratch s \<Longrightarrow> raised k d" for k
    unfolding d_def using sends [OF assms(4), of "[0..<last_hartid_having_scratch s + 1]" ?P] by (simp_all del: upt_Suc)
  have "raised k d" if "pc k = Asleep m" for k m
  proof -
    have "k < SBI_HARTMASK_MAX_BITS" "\<not> sbi_platform_hart_invalid c k" using D(3) [of k] that by simp_all
    then have "k \<in> H" "k \<le> last_hartid_having_scratch s"
      using assms(1) D(8) [OF assms(3), of k] by (simp_all add: serves_def)
    moreover have "?P k" using D(11) [of k] that assms(3) by (auto simp: in_barrier_def)
    ultimately show ?thesis using r(2) by blast
  qed
  then show ?thesis using s' r(1) by blast
qed

lemma setup_not_done:
  assumes "boot_inv c (pc, s)" "pc h \<in> {Cold_start, Cold_setup}"
  shows "\<not> coldboot_done s" "on_cold_path (pc h)"
proof -
  show c: "on_cold_path (pc h)" using assms(2) by (auto simp: on_cold_path_def)
  show "\<not> coldboot_done s"
  proof
    assume "coldboot_done s"
    then obtain k where k: "pc k = Cold_over" using boot_invD(9) [OF assms(1)] by blast
    then have "h = k" using boot_invD(4) [OF assms(1) c] by (simp add: on_cold_path_def)
    with k assms(2) show False by simp
  qed
qed

lemma boot_inv_draw:
  assumes i: "boot_inv c (pc, s)" and "pc h = At_reset" "h < SBI_HARTMASK_MAX_BITS" "\<not> sbi_platform_hart_invalid c h"
    "lottery_xchg s = Ret old s'"
  shows "boot_inv c (pc(h := if old = 0 then Cold_start else Warm_start), s')"
proof (cases "old = 0")
  case True
  then have "\<not> on_cold_path (pc k)" for k using boot_invD(5) [OF i] assms(5) by (auto simp: run_simps)
  with True show ?thesis using assms boot_invD(7,9) [OF i]
    by (auto intro!: boot_inv_cold [OF i] simp: run_simps boot_pc_defs)
next
  case False
  then show ?thesis using assms boot_invD(1,13) [OF i]
    by (auto intro!: boot_inv_move [OF i] simp: run_simps boot_pc_defs)
qed

lemma boot_inv_table:
  assumes i: "boot_inv c (pc, s)" and "pc h = Cold_start" "must (sbi_scratch_init c) s = Ret () s'"
  shows "boot_inv c (pc(h := Cold_setup), s')"
proof -
  note D = boot_invD [OF i]
  have c: "on_cold_path (pc h)" "\<not> coldboot_done s" using setup_not_done [OF i, of h] assms(2) by simp_all
  then show ?thesis using table_run [OF D(6) [OF assms(2)] assms(3)] D(3) [of h] D(4,5) [OF c(1)] assms(2)
    by (intro boot_inv_cold [OF i]) (auto simp: boot_rel_def on_cold_path_def)
qed

lemma boot_inv_wake:
  assumes "serves c" and i: "boot_inv c (pc, s)" and "pc h = Cold_setup" "ready (dev s)" "wake_coldboot_harts c h s = Ret () s'"
  shows "boot_inv c (pc(h := Cold_over), s')"
proof -
  note D = boot_invD [OF i]
  have c: "on_cold_path (pc h)" using assms(3) by (simp add: on_cold_path_def)
  show ?thesis using wake_raises [OF assms] D(3) [of h] D(4,5) [OF c] assms(3)
    by (auto intro!: boot_inv_cold [OF i] simp: on_cold_path_def)
qed

text \<open>Entering and leaving the barrier. A hart is not yet asleep between its mark in the list and the test.\<close>

lemma boot_inv_enter:
  assumes i: "boot_inv c (pc, s)" and "pc h = Warm_start" "wait_enter h s = Ret m s'" "coldboot_done s' \<Longrightarrow> q = Woken m"
    "q \<in> {Asleep m, Woken m}"
  shows "boot_inv c (pc(h := q), s')"
proof -
  note D = boot_invD [OF i]
  have h: "h < SBI_HARTMASK_MAX_BITS" "\<not> sbi_platform_hart_invalid c h" using D(3) [of h] assms(2) by auto
  obtain k where "wait_enter h s = Ret (csr (harts s h) CSR_MIE)
      (upd_hart h (\<lambda>t. t\<lparr>csr := (csr t)(CSR_MIE := csr t CSR_MIE OR MIP_MSIP)\<rparr>) (s\<lparr>coldboot_wait_hmask := k\<rparr>))"
    "hm_ok k" "hm_set k = insert h (hm_set (coldboot_wait_hmask s))"
    using wait_enter_run [OF D(1) h(1)] by blast
  then show ?thesis using assms(2-5) h
    by (intro boot_inv_move [OF i]) (auto simp: boot_pc_defs upd_hart_def)
qed

lemma boot_inv_unmark:
  assumes i: "boot_inv c (pc, s)" and "pc h = Woken m" "coldboot_done s" "wait_unmark h s = Ret () s'"
  shows "boot_inv c (pc(h := Leaving m), s')"
proof -
  note D = boot_invD [OF i]
  have h: "h < SBI_HARTMASK_MAX_BITS" "\<not> sbi_platform_hart_invalid c h" using D(3) [of h] assms(2) by auto
  obtain k where "s' = s\<lparr>coldboot_wait_hmask := k\<rparr>" "hm_ok k" "hm_set k = hm_set (coldboot_wait_hmask s) - {h}"
    using wait_unmark_run [OF D(1), of h] assms(4) by auto
  then show ?thesis using assms(2,3) h by (intro boot_inv_move [OF i]) (auto simp: boot_pc_defs)
qed

lemma boot_inv_poll:
  assumes i: "boot_inv c (pc, s)" and "pc h = Asleep m" "wait_poll h (show_line raised h s) = Ret b s'"
  shows "boot_inv c (pc(h := if b then Woken m else Asleep m), s')"
proof -
  note D = boot_invD [OF i]
  have h: "h < SBI_HARTMASK_MAX_BITS" "\<not> sbi_platform_hart_invalid c h" using D(3) [of h] assms(2) by auto
  have "b = raised h (dev s)" "s' = show_line raised h s" using assms(3) by (simp_all add: wait_poll_run)
  then show ?thesis using assms(2) h D(1) D(11) [of h] D(13) [of h m]
    by (intro boot_inv_move [OF i]) (auto simp: boot_pc_defs)
qed

lemma boot_inv_leave:
  assumes "serves c" and i: "boot_inv c (pc, s)" and "pc h = Leaving m" "wait_restore c h m s = Ret () s'"
  shows "boot_inv c (pc(h := Past), s')"
proof -
  note D = boot_invD [OF i]
  have h: "h < SBI_HARTMASK_MAX_BITS" "\<not> sbi_platform_hart_invalid c h" "h \<in> H" "coldboot_done s"
    using D(3) [of h] D(10) [of h] assms(1,3) by (auto simp: serves_def behind_barrier_def)
  have k: "k \<in> H" if "pc k = Asleep n" for k n using D(3) [of k] that assms(1) by (auto simp: serves_def)
  have s': "s' = upd_hart h (\<lambda>t. t\<lparr>csr := (csr t)(CSR_MIE := m)\<rparr>) (s\<lparr>dev := clear h (dev s)\<rparr>)"
    using assms(1,4) by (simp add: wait_restore_run serves_def)
  show ?thesis using h D(1,12) k clear_ready clear_keeps assms(3)
    by (intro boot_inv_move [OF i]) (auto simp: s' boot_pc_defs upd_hart_def)
qed

lemma boot_inv_retest:
  assumes i: "boot_inv c (pc, s)" and "pc h = Woken m" "\<not> coldboot_done s"
  shows "boot_inv c (pc(h := Asleep m), s)"
proof -
  note D = boot_invD [OF i]
  show ?thesis using D(1) D(3) [of h] D(11) [of h] assms(2,3)
    by (intro boot_inv_move [OF i]) (auto simp: boot_pc_defs)
qed

lemma boot_inv_work:
  assumes i: "boot_inv c (pc, s)" and "pc h \<in> {Cold_over, Past}" "boot_rel s s'" "ready (dev s) \<Longrightarrow> ready (dev s')"
    "\<And>k. k \<noteq> h \<Longrightarrow> raised k (dev s) \<Longrightarrow> raised k (dev s')"
  shows "boot_inv c (pc, s')"
proof -
  note D = boot_invD [OF i]
  have "coldboot_done s" using assms(2) D(9) D(10) [of h] by (auto simp: behind_barrier_def)
  then obtain k where "pc k = Cold_over" using D(9) by blast
  then have c: "on_cold_path (pc k)" "pc k \<noteq> Cold_start" by (simp_all add: on_cold_path_def)
  have "raised j (dev s')" if "pc j = Asleep m" for j m
    using that assms(2) D(13) [OF \<open>coldboot_done s\<close> that] assms(5) [of j] by (cases "j = h") auto
  then show ?thesis using boot_inv_same [OF i assms(3) c] assms(4) D(12) by blast
qed

lemma boot_inv_step:
  assumes "serves c" "boot_step c raised ready x y" "boot_inv c x"
  shows "boot_inv c y"
  using assms(2,3)
proof (induction rule: boot_step.induct)
  case (init_work pc h s s')
  then show ?case using boot_inv_same [OF init_work(3,2), of h] setup_not_done [of c pc s h] by simp
next
  case (enter_pass pc h s m s' s'')
  have "boot_inv c (pc(h := Woken m), s')" using boot_inv_enter [OF enter_pass(5,1,2), of "Woken m"] by simp
  from boot_inv_unmark [OF this _ enter_pass(3,4)] show ?case by simp
next
  case (enter_sleep pc h s m s')
  then show ?case using boot_inv_enter [OF enter_sleep(4,1,2), of "Asleep m"] by simp
next
  case (work pc h s s')
  then show ?case using boot_inv_work [OF work(5,1,2)] by blast
next
  case (draw pc h s old s')
  show ?case by (rule boot_inv_draw [OF draw(5,1-4)])
next
  case (table pc h s s')
  show ?case by (rule boot_inv_table [OF table(3,1,2)])
next
  case (wake pc h s s')
  show ?case by (rule boot_inv_wake [OF assms(1) wake(4,1-3)])
next
  case (poll pc h m s b s')
  show ?case by (rule boot_inv_poll [OF poll(3,1,2)])
next
  case (retest_sleep pc h m s)
  show ?case by (rule boot_inv_retest [OF retest_sleep(3,1,2)])
next
  case (retest_pass pc h m s s')
  show ?case by (rule boot_inv_unmark [OF retest_pass(4,1-3)])
next
  case (leave pc h m s s')
  show ?case by (rule boot_inv_leave [OF assms(1) leave(3,1,2)])
qed

lemma boot_inv_reachable:
  assumes "serves c" "boot_start s0" "(boot_step c raised ready)\<^sup>*\<^sup>* (\<lambda>_. At_reset, s0) y"
  shows "boot_inv c y"
  using assms(3)
proof (induction rule: rtranclp_induct)
  case base
  show ?case by (rule boot_inv_start [OF assms(2)])
next
  case (step y z)
  then show ?case by (intro boot_inv_step [OF assms(1) step(2)])
qed

text \<open>Once a hart has drawn, one is on the cold boot path and stays there.\<close>

definition drawn :: "(nat \<Rightarrow> boot_pc) \<times> 'd sys \<Rightarrow> bool" where
  "drawn x \<longleftrightarrow> (case x of (pc, s) \<Rightarrow>
     (coldboot_lottery s = 0 \<longrightarrow> (\<forall>h. pc h = At_reset)) \<and> (coldboot_lottery s \<noteq> 0 \<longrightarrow> (\<exists>h. on_cold_path (pc h))))"

lemma drawn_move:
  assumes "drawn (pc, s)" "coldboot_lottery s' = coldboot_lottery s" "pc h \<noteq> At_reset" "on_cold_path (pc h) \<Longrightarrow> on_cold_path q"
  shows "drawn (pc(h := q), s')"
proof -
  have "coldboot_lottery s \<noteq> 0" using assms(1,3) by (auto simp: drawn_def)
  then obtain k where "on_cold_path (pc k)" using assms(1) by (auto simp: drawn_def)
  then have "on_cold_path ((pc(h := q)) k)" using assms(4) by (cases "k = h") auto
  then show ?thesis using \<open>coldboot_lottery s \<noteq> 0\<close> assms(2) unfolding drawn_def prod.case by metis
qed

lemma drawn_draw:
  assumes "drawn (pc, s)" "pc h = At_reset" "lottery_xchg s = Ret old s'"
  shows "drawn (pc(h := if old = 0 then Cold_start else Warm_start), s')"
proof -
  have s: "old = coldboot_lottery s" "coldboot_lottery s' = 1" using assms(3) by (auto simp: run_simps)
  have "\<exists>k. on_cold_path ((pc(h := if old = 0 then Cold_start else Warm_start)) k)"
  proof (cases "old = 0")
    case False
    then obtain k where "on_cold_path (pc k)" using assms(1) s(1) by (auto simp: drawn_def)
    then show ?thesis using assms(2) by (intro exI [of _ k]) (auto simp: on_cold_path_def)
  qed (auto intro!: exI [of _ h] simp: on_cold_path_def)
  then show ?thesis using s(2) by (simp add: drawn_def)
qed

lemma drawn_step:
  assumes "boot_step c raised ready x y" "boot_inv c x" "drawn x"
  shows "drawn y"
  using assms
proof (induction rule: boot_step.induct)
  case (draw pc h s old s')
  show ?case by (rule drawn_draw [OF draw(6,1,4)])
next
  case (table pc h s s')
  have "coldboot_lottery s' = coldboot_lottery s"
    using table_run [OF boot_invD(6) [OF table(3,1)] table(2)] by (simp add: boot_rel_def)
  with table show ?case by (intro drawn_move [OF table(4)]) (simp_all add: on_cold_path_def)
next
  case (wake pc h s s')
  then show ?case using wake_run [OF boot_invD(1) [OF wake(4)], of c h]
    by (intro drawn_move [OF wake(5)]) (auto simp: on_cold_path_def)
next
  case (enter_sleep pc h s m s')
  then show ?case
    using wait_enter_run [OF boot_invD(1) [OF enter_sleep(4)], of h] boot_invD(3) [OF enter_sleep(4), of h]
    by (intro drawn_move [OF enter_sleep(5)]) (auto simp: on_cold_path_def upd_hart_def)
next
  case (enter_pass pc h s m s' s'')
  have e: "hm_ok (coldboot_wait_hmask s')" "coldboot_lottery s' = coldboot_lottery s"
    using wait_enter_run [OF boot_invD(1) [OF enter_pass(5)], of h] boot_invD(3) [OF enter_pass(5), of h] enter_pass(1,2)
    by (auto simp: upd_hart_def)
  obtain k where "s'' = s'\<lparr>coldboot_wait_hmask := k\<rparr>" using wait_unmark_run [OF e(1), of h] enter_pass(4) by auto
  then have "coldboot_lottery s'' = coldboot_lottery s" using e(2) by simp
  then show ?case using enter_pass(1) by (intro drawn_move [OF enter_pass(6)]) (simp_all add: on_cold_path_def)
next
  case (retest_pass pc h m s s')
  obtain k where "s' = s\<lparr>coldboot_wait_hmask := k\<rparr>" using wait_unmark_run [OF boot_invD(1) [OF retest_pass(4)], of h] retest_pass(3) by auto
  then show ?case using retest_pass(1) by (intro drawn_move [OF retest_pass(5)]) (simp_all add: on_cold_path_def)
next
  case (poll pc h m s b s')
  from poll(1,2) show ?case by (intro drawn_move [OF poll(4)]) (auto simp: on_cold_path_def wait_poll_run)
next
  case (retest_sleep pc h m s)
  from retest_sleep(1) show ?case by (intro drawn_move [OF retest_sleep(4)]) (auto simp: on_cold_path_def)
next
  case (leave pc h m s s')
  from leave(1,2) show ?case by (intro drawn_move [OF leave(4)]) (auto simp: on_cold_path_def wait_restore_run upd_hart_def)
next
  case (init_work pc h s s')
  from init_work(2,4) show ?case by (simp add: drawn_def boot_rel_def)
next
  case (work pc h s s')
  from work(2,6) show ?case by (simp add: drawn_def boot_rel_def)
qed

lemma drawn_reachable:
  assumes "serves c" "boot_start s0" "(boot_step c raised ready)\<^sup>*\<^sup>* (\<lambda>_. At_reset, s0) y"
  shows "drawn y"
  using assms(3)
proof (induction rule: rtranclp_induct)
  case base
  show ?case using assms(2) by (simp add: drawn_def boot_start_def)
next
  case (step y z)
  then show ?case by (intro drawn_step [OF step(2) boot_inv_reachable [OF assms(1,2) step(1)]])
qed

text \<open>A hart that is asleep at the release has its line raised, and three pieces of its own code take it out of the barrier.\<close>

lemma asleep_passes:
  assumes "serves c" "boot_inv c (pc, s)" "pc h = Asleep m" "coldboot_done s"
  shows "raised h (dev s) \<and> (\<exists>s1 s2 s3. wait_poll h (show_line raised h s) = Ret True s1 \<and> coldboot_done s1 \<and>
    wait_unmark h s1 = Ret () s2 \<and> wait_restore c h m s2 = Ret () s3 \<and>
    csr (harts s3 h) CSR_MIE = m \<and> \<not> raised h (dev s3) \<and> h \<notin> hm_set (coldboot_wait_hmask s3))"
proof -
  note D = boot_invD [OF assms(2)]
  let ?s = "show_line raised h s"
  have r: "raised h (dev s)" by (rule D(13) [OF assms(4,3)])
  have h: "h \<in> H" "ready (dev s)" using D(3) [of h] D(12) assms by (auto simp: serves_def)
  obtain k where k: "wait_unmark h ?s = Ret () (?s\<lparr>coldboot_wait_hmask := k\<rparr>)" "hm_set k = hm_set (coldboot_wait_hmask s) - {h}"
    using wait_unmark_run [of ?s h] D(1) by auto
  obtain s3 where s3: "wait_restore c h m (?s\<lparr>coldboot_wait_hmask := k\<rparr>) = Ret () s3" "csr (harts s3 h) CSR_MIE = m"
      "dev s3 = clear h (dev s)" "coldboot_wait_hmask s3 = k"
    using assms(1) by (simp add: wait_restore_run upd_hart_def serves_def)
  have "\<not> raised h (dev s3)" using clear_lowers h s3(3) by simp
  then show ?thesis using r k s3 assms(4)
    by (intro conjI exI [of _ ?s] exI [of _ "?s\<lparr>coldboot_wait_hmask := k\<rparr>"] exI [of _ s3]) (simp_all add: wait_poll_run)
qed

theorem barrier:
  assumes "serves c" "boot_start s0" "(boot_step c raised ready)\<^sup>*\<^sup>* (\<lambda>_. At_reset, s0) (pc, s)"
  shows "((\<exists>h. pc h \<noteq> At_reset) \<longrightarrow> (\<exists>!h. on_cold_path (pc h))) \<and>
    (\<forall>h. behind_barrier (pc h) \<longrightarrow> (\<exists>k. pc k = Cold_over)) \<and>
    (\<forall>h m. pc h = Asleep m \<longrightarrow> (\<exists>k. pc k = Cold_over) \<longrightarrow> raised h (dev s) \<and>
      (\<exists>s1 s2 s3. wait_poll h (show_line raised h s) = Ret True s1 \<and> coldboot_done s1 \<and>
        wait_unmark h s1 = Ret () s2 \<and> wait_restore c h m s2 = Ret () s3 \<and>
        csr (harts s3 h) CSR_MIE = m \<and> \<not> raised h (dev s3) \<and> h \<notin> hm_set (coldboot_wait_hmask s3)))"
proof -
  have i: "boot_inv c (pc, s)" by (rule boot_inv_reachable [OF assms])
  have d: "drawn (pc, s)" by (rule drawn_reachable [OF assms])
  have "\<exists>!h. on_cold_path (pc h)" if "pc h \<noteq> At_reset" for h
    using d that boot_invD(4) [OF i] unfolding drawn_def by (cases "coldboot_lottery s = 0") auto
  then have 1: "(\<exists>h. pc h \<noteq> At_reset) \<longrightarrow> (\<exists>!h. on_cold_path (pc h))" by blast
  have 2: "\<forall>h. behind_barrier (pc h) \<longrightarrow> (\<exists>k. pc k = Cold_over)" using boot_invD(9,10) [OF i] by blast
  show ?thesis
    by (rule conjI [OF 1 conjI [OF 2]], intro allI impI, rule asleep_passes [OF assms(1) i], simp_all add: boot_invD(9) [OF i])
qed

end

section \<open>What the set-up leaves alone\<close>

interpretation bootf: frame boot_rel
  by unfold_locales (auto simp: boot_rel_def)

lemma dev_rel_boot: "dev_rel s s' \<Longrightarrow> boot_rel s s'"
  by (auto simp: dev_rel_def boot_rel_def)

lemma boot_keeps_dev: "devf.keeps m \<Longrightarrow> bootf.keeps m"
  using dev_rel_boot by (auto simp: devf.keeps_def bootf.keeps_def)

lemma boot_upd [simp]:
  "boot_rel s (upd_hart h f s)" "boot_rel s (upd_scratch sc g s)" "boot_rel s (scratch_wr sc off v s)"
  by (simp_all add: boot_rel_def upd_hart_def scratch_wr_def upd_scratch_def)

lemma boot_globals [simp]:
  "boot_rel s (s\<lparr>extra_offset := w\<rparr>)" "boot_rel s (s\<lparr>init_count_offset := w\<rparr>)" "boot_rel s (s\<lparr>hart_data_offset := w\<rparr>)"
  "boot_rel s (s\<lparr>hart_features_offset := w\<rparr>)" "boot_rel s (s\<lparr>ipi_data_off := w\<rparr>)" "boot_rel s (s\<lparr>time_delta_off := w\<rparr>)"
  "boot_rel s (s\<lparr>tlb_sync_off := w\<rparr>)" "boot_rel s (s\<lparr>tlb_fifo_off := w\<rparr>)" "boot_rel s (s\<lparr>tlb_fifo_mem_off := w\<rparr>)"
  "boot_rel s (s\<lparr>tlb_range_flush_limit := w\<rparr>)" "boot_rel s (s\<lparr>ipi_ops_array := ops\<rparr>)" "boot_rel s (s\<lparr>ipi_smode_event := n\<rparr>)"
  "boot_rel s (s\<lparr>ipi_halt_event := n\<rparr>)" "boot_rel s (s\<lparr>tlb_event := n\<rparr>)" "boot_rel s (s\<lparr>get_time_val := g\<rparr>)"
  "boot_rel s (s\<lparr>console_plat := b\<rparr>)" "boot_rel s (s\<lparr>ecall_exts_list := es\<rparr>)" "boot_rel s (s\<lparr>expected_trap_hext := b\<rparr>)"
  by (simp_all add: boot_rel_def)

lemma boot_keeps_csr:
  "bootf.keeps (csr_read h n)" "bootf.keeps (csr_write h n v)" "bootf.keeps (csr_set h n v)"
  "bootf.keeps (csr_read_allowed c h n)" "bootf.keeps (csr_write_allowed c h n v)"
  unfolding csr_read_def csr_write_def csr_set_def csr_read_allowed_def csr_write_allowed_def
  by (intro bootf.keeps_rules bootf.keeps_mod; simp)+

lemma boot_keeps_console_init: "bootf.keeps (sbi_console_init c)"
  unfolding sbi_console_init_def sbi_platform_console_init_def
  by (intro bootf.keeps_rules bootf.keeps_mod boot_keeps_dev [OF keeps_dev_run]) simp

lemmas boot_keeps_base = bootf.keeps_rules boot_keeps_csr boot_keeps_dev [OF keeps_plat_init_op]
  boot_keeps_dev [OF keeps_plat_void_op] boot_keeps_dev [OF keeps_printfM]

lemma boot_keeps_hartid_to_scratch: "bootf.keeps (sbi_hartid_to_scratch i)"
  unfolding sbi_hartid_to_scratch_def by (intro boot_keeps_base)

lemma boot_keeps_alloc: "bootf.keeps (sbi_scratch_alloc_offset sz)"
  unfolding sbi_scratch_alloc_offset_def Let_def sbi_scratch_last_hartid_def
  by (intro boot_keeps_base boot_keeps_hartid_to_scratch bootf.keeps_mod) simp_all

lemma boot_keeps_hsm_init: "bootf.keeps (sbi_hsm_init c h sc True)"
  unfolding sbi_hsm_init_def if_True sbi_scratch_last_hartid_def atomic_write_def
  by (intro boot_keeps_base boot_keeps_hartid_to_scratch boot_keeps_alloc bootf.keeps_mod) simp_all

lemma boot_keeps_misa: "bootf.keeps (misa_extension_imp c h e)" "bootf.keeps (misa_extension c h e)"
  unfolding misa_extension_def misa_extension_imp_def by (intro boot_keeps_base)+

lemma boot_keeps_hart_reads: "bootf.keeps (sbi_hart_has_feature sc f)" "bootf.keeps (sbi_hart_pmp_count sc)"
  unfolding sbi_hart_has_feature_def sbi_hart_pmp_count_def by (intro boot_keeps_base)+

lemma boot_keeps_detect: "bootf.keeps (hart_detect_features c h sc)"
proof -
  have "bootf.keeps (detect_pmp c h xs b n)" for xs b n
    by (induction xs arbitrary: b n) (auto intro!: boot_keeps_base)
  moreover have "bootf.keeps (set_hart_features sc f n)" for f n
    unfolding set_hart_features_def by (intro bootf.keeps_mod) (simp add: boot_rel_def scratch_wr_def upd_scratch_def)
  ultimately show ?thesis
    unfolding hart_detect_features_def detect_rw_def by (intro boot_keeps_base)
qed

lemma boot_keeps_hart_csrs:
  "bootf.keeps (mstatus_init c h sc)" "bootf.keeps (fp_init c h)" "bootf.keeps (delegate_traps c h)"
  unfolding mstatus_init_def fp_init_def delegate_traps_def SET_F32_REG_def Let_def
  by (intro boot_keeps_base boot_keeps_misa boot_keeps_hart_reads bootf.keeps_mod; simp)+

lemma boot_keeps_pmp_init: "bootf.keeps (pmp_init c h sc)"
proof -
  have s: "bootf.keeps (pmp_setM h n p a l)" for n p a l
    unfolding pmp_setM_def by (intro boot_keeps_base bootf.keeps_mod) simp
  have "bootf.keeps (pmp_regions c h k xs n)" for k xs n
    by (induction xs arbitrary: n) (auto intro!: boot_keeps_base s split: prod.split)
  then show ?thesis
    unfolding pmp_init_def Let_def by (intro boot_keeps_base boot_keeps_hart_reads s)
qed

lemma boot_keeps_hart_init: "bootf.keeps (sbi_hart_init c h sc True)"
  unfolding sbi_hart_init_def if_True
  by (intro boot_keeps_base boot_keeps_misa boot_keeps_alloc boot_keeps_detect boot_keeps_hart_csrs
      boot_keeps_pmp_init bootf.keeps_mod) simp_all

lemma boot_keeps_event_create: "bootf.keeps (sbi_ipi_event_create e)"
  unfolding sbi_ipi_event_create_def by (intro boot_keeps_base bootf.keeps_mod) simp_all

lemma boot_keeps_ipi_init: "bootf.keeps (sbi_ipi_init c h sc True)"
  unfolding sbi_ipi_init_def if_True plat_wrapper_defs
  by (intro boot_keeps_base boot_keeps_alloc boot_keeps_event_create bootf.keeps_mod) simp_all

lemma boot_keeps_tlb_init: "bootf.keeps (sbi_tlb_init c sc True)"
  unfolding sbi_tlb_init_def if_True sbi_scratch_free_offset_def
  by (intro boot_keeps_base boot_keeps_alloc boot_keeps_event_create bootf.keeps_mod) simp_all

lemma boot_keeps_timer_init: "bootf.keeps (sbi_timer_init c h sc True)"
  unfolding sbi_timer_init_def plat_wrapper_defs
  by (intro boot_keeps_base boot_keeps_alloc boot_keeps_hart_reads bootf.keeps_mod) simp_all

lemma boot_keeps_ecall_init: "bootf.keeps sbi_ecall_init"
proof -
  have "bootf.keeps (sbi_ecall_register_extension e)" for e
    unfolding sbi_ecall_register_extension_def by (intro boot_keeps_base bootf.keeps_mod) simp_all
  then show ?thesis unfolding sbi_ecall_init_def by (intro boot_keeps_base)
qed

lemma boot_keeps_prints: "bootf.keeps (sbi_boot_prints c h sc)"
proof -
  have a: "bootf.keeps (str_arg buf)" for buf :: "u8 list" unfolding str_arg_def by (intro boot_keeps_base)
  have p: "bootf.keeps (put_at x po)" for x and po :: "nat \<times> u8 list"
    unfolding put_at_def by (cases po) (auto intro!: boot_keeps_base)
  have pa: "bootf.keeps (put_all xs po)" for xs and po :: "nat \<times> u8 list"
    by (induction xs arbitrary: po) (auto intro!: boot_keeps_base p)
  have l: "bootf.keeps (misa_letters c h n xs po)" for n xs po
    by (induction xs arbitrary: po) (auto intro!: boot_keeps_base boot_keeps_misa p)
  have m: "bootf.keeps (misa_string c h x buf n)" for x buf n
    unfolding misa_string_def Let_def by (intro boot_keeps_base pa l p)
  have g: "bootf.keeps (pmp_getM h i)" for i unfolding pmp_getM_def by (intro boot_keeps_base)
  have hd: "bootf.keeps (sbi_hart_delegation_dump c h)" "bootf.keeps (sbi_hart_pmp_dump c h sc)"
    unfolding sbi_hart_delegation_dump_def sbi_hart_pmp_dump_def
    by (intro boot_keeps_base boot_keeps_misa boot_keeps_hart_reads g)+
  show ?thesis
    unfolding sbi_boot_prints_def misa_xlen_def sbi_platform_get_features_str_def sbi_hart_get_features_str_def
      hart_get_features_def sbi_hart_hang_def Let_def
    by (intro boot_keeps_base boot_keeps_hart_reads a m hd)
qed

lemma boot_keeps_must: "bootf.keeps m \<Longrightarrow> bootf.keeps (must m)"
  unfolding must_def sbi_hart_hang_def by (intro boot_keeps_base)

text \<open>
  The set-up between the hart table and the release of the other harts never touches the barrier, whatever its
  outcome: it is work of the cold hart in the sense of \<open>boot_step\<close>.
\<close>

lemma setup_keeps: "bootf.keeps (coldboot_setup c h sc)"
  unfolding coldboot_setup_def sbi_hart_hang_def plat_wrapper_defs
  by (intro boot_keeps_base boot_keeps_must boot_keeps_alloc boot_keeps_hsm_init boot_keeps_hart_init
      boot_keeps_console_init boot_keeps_ipi_init boot_keeps_tlb_init boot_keeps_timer_init boot_keeps_ecall_init
      boot_keeps_prints bootf.keeps_mod) simp_all

text \<open>A hart that starts never comes back to its caller.\<close>

lemma init_finish_leaves: "\<exists>r s'. init_finish c h sc s = Halt r s'"
  by (auto simp: init_finish_def sbi_hart_switch_mode_def sbi_hsm_prepare_next_jump_def sbi_hart_hang_def run_simps Let_def
      split: outcome.splits)

lemma sbi_init_leaves: "\<exists>r s'. sbi_init c h sc s = Halt r s'"
proof -
  have "\<exists>r s'. seqM m (init_finish c h sc) s = Halt r s'" for m :: "'a sys \<Rightarrow> ('a sys, unit) outcome" and s
    using init_finish_leaves [of c h sc] by (auto simp: run_simps split: outcome.splits)
  then have "\<exists>r s'. init_coldboot c h sc s = Halt r s'" "\<exists>r s'. init_warmboot c h sc s = Halt r s'" for s
    unfolding init_coldboot_def init_warmboot_def by (auto simp: run_seq split: outcome.splits)
  then show ?thesis by (simp add: sbi_init_def sbi_hart_hang_def run_simps)
qed

end
