(* ===== verification/Sys_Clint.thy ===== *)
theory Sys_Clint
  imports Sbi_Init
begin

text \<open>
  The driver of the core-local interruptor, \<^verbatim>\<open>lib/utils/sys/clint.c\<close>: software interrupts between harts and
  the timer compare registers.

  A \<open>clint_data\<close> structure is named by a number, as the driver's tables hold pointers. Device registers are a map
  from addresses to 32-bit words, a 64-bit register being two of them. The time counters run by
  themselves: \<open>clk a n\<close> is the value of the counter register at address \<open>a\<close> at the \<open>n\<close>-th access to a counter, an
  argument of the functions that read it. Computations are those of the machine model, on the state of the driver.
\<close>

section \<open>State\<close>

datatype time_rd_fn = rd32_fn | rd64_fn
datatype time_wr_fn = wr32_fn | wr64_fn

record clint_data =
  c_addr :: ulong
  first_hartid :: u32
  c_hart_count :: u32
  has_64bit_mmio :: bool
  ipi :: ulong
  time_delta_reference :: "nat option"
  time_delta_computed :: ulong
  time_delta :: u64
  time_val :: ulong
  time_cmp :: ulong
  time_rd :: time_rd_fn
  time_wr :: time_wr_fn

record clint_dev =
  regs :: "ulong \<Rightarrow> u32"
  clint_now :: nat
  clints :: "nat \<Rightarrow> clint_data"
  clint_ipi_hartid2data :: "nat option list"
  clint_timer_hartid2data :: "nat option list"

abbreviation (input) CLINT_TIME_CMP_OFF :: ulong where "CLINT_TIME_CMP_OFF \<equiv> 0x4000"
abbreviation (input) CLINT_TIME_VAL_OFF :: ulong where "CLINT_TIME_VAL_OFF \<equiv> 0xbff8"

type_synonym clock = "ulong \<Rightarrow> nat \<Rightarrow> u64"

definition clint_writel :: "u32 \<Rightarrow> ulong \<Rightarrow> clint_dev \<Rightarrow> (clint_dev, unit) outcome" where
  "clint_writel v a = modM (\<lambda>d. d\<lparr>regs := (regs d)(a := v)\<rparr>)"

definition upd_clint :: "nat \<Rightarrow> (clint_data \<Rightarrow> clint_data) \<Rightarrow> clint_dev \<Rightarrow> (clint_dev, unit) outcome" where
  "upd_clint p f = modM (\<lambda>d. d\<lparr>clints := (clints d)(p := f (clints d p))\<rparr>)"

text \<open>The address of the word (or double word) of a hart in a register array.\<close>

definition hart_reg :: "ulong \<Rightarrow> ulong \<Rightarrow> nat \<Rightarrow> clint_data \<Rightarrow> ulong" where
  "hart_reg base sz target_hart t = base + sz * ucast (of_nat target_hart - first_hartid t :: u32)"

section \<open>Software interrupts\<close>

definition clint_ipi_send :: "nat \<Rightarrow> clint_dev \<Rightarrow> (clint_dev, unit) outcome" where
  "clint_ipi_send target_hart =
     (if SBI_HARTMASK_MAX_BITS \<le> target_hart then retM ()
      else
        bindM (getM (\<lambda>d. rd (clint_ipi_hartid2data d) target_hart)) (\<lambda>e.
        bindM (liftO e) (\<lambda>e.
          case e of None \<Rightarrow> retM ()
          | Some p \<Rightarrow> bindM (getM (\<lambda>d. clints d p)) (\<lambda>t. clint_writel 1 (hart_reg (ipi t) 4 target_hart t)))))"

definition clint_ipi_clear :: "nat \<Rightarrow> clint_dev \<Rightarrow> (clint_dev, unit) outcome" where
  "clint_ipi_clear target_hart =
     (if SBI_HARTMASK_MAX_BITS \<le> target_hart then retM ()
      else
        bindM (getM (\<lambda>d. rd (clint_ipi_hartid2data d) target_hart)) (\<lambda>e.
        bindM (liftO e) (\<lambda>e.
          case e of None \<Rightarrow> retM ()
          | Some p \<Rightarrow> bindM (getM (\<lambda>d. clints d p)) (\<lambda>t. clint_writel 0 (hart_reg (ipi t) 4 target_hart t)))))"

definition clint_warm_ipi_init :: "nat \<Rightarrow> clint_dev \<Rightarrow> (clint_dev, int) outcome" where
  "clint_warm_ipi_init h = seqM (clint_ipi_clear h) (retM 0)"

definition clint_cold_ipi_init :: "nat option \<Rightarrow> clint_dev \<Rightarrow> (clint_dev, int) outcome" where
  "clint_cold_ipi_init clint =
     (case clint of
        None \<Rightarrow> retM SBI_EINVAL
      | Some p \<Rightarrow>
          seqM (upd_clint p (\<lambda>t. t\<lparr>ipi := c_addr t\<rparr>))
         (bindM (getM (\<lambda>d. clints d p)) (\<lambda>t.
          seqM (forM [0..<unat (c_hart_count t)] (\<lambda>i.
                  bindM (getM (\<lambda>d. wr (clint_ipi_hartid2data d) (unat (first_hartid t + of_nat i)) (Some p))) (\<lambda>tab.
                  bindM (liftO tab) (\<lambda>tab. modM (\<lambda>d. d\<lparr>clint_ipi_hartid2data := tab\<rparr>)))))
            (retM 0))))"

section \<open>Time\<close>

text \<open>Each access to a counter takes place at the next instant.\<close>

definition clk_read :: "(u64 \<Rightarrow> 'a) \<Rightarrow> clock \<Rightarrow> ulong \<Rightarrow> clint_dev \<Rightarrow> (clint_dev, 'a) outcome" where
  "clk_read part clk a =
     bindM (getM clint_now) (\<lambda>n. seqM (modM (\<lambda>d. d\<lparr>clint_now := n + 1\<rparr>)) (retM (part (clk a n))))"

definition lo32 :: "u64 \<Rightarrow> u32" where "lo32 v = ucast v"
definition hi32 :: "u64 \<Rightarrow> u32" where "hi32 v = ucast (drop_bit 32 v)"

definition clint_time_rd64 :: "clock \<Rightarrow> ulong \<Rightarrow> clint_dev \<Rightarrow> (clint_dev, u64) outcome" where
  "clint_time_rd64 clk a = clk_read id clk a"

fun clint_time_rd32 :: "clock \<Rightarrow> nat \<Rightarrow> ulong \<Rightarrow> clint_dev \<Rightarrow> (clint_dev, u64) outcome" where
  "clint_time_rd32 clk 0 a = haltM Spin"
| "clint_time_rd32 clk (Suc n) a =
     bindM (clk_read hi32 clk a) (\<lambda>hi.
     bindM (clk_read lo32 clk a) (\<lambda>lo.
     bindM (clk_read hi32 clk a) (\<lambda>hi'.
       if hi \<noteq> hi' then clint_time_rd32 clk n a else retM (push_bit 32 (ucast hi) OR ucast lo))))"

definition clint_time_wr64 :: "u64 \<Rightarrow> ulong \<Rightarrow> clint_dev \<Rightarrow> (clint_dev, unit) outcome" where
  "clint_time_wr64 v a = modM (\<lambda>d. d\<lparr>regs := (regs d)(a := lo32 v, a + 4 := hi32 v)\<rparr>)"

definition clint_time_wr32 :: "u64 \<Rightarrow> ulong \<Rightarrow> clint_dev \<Rightarrow> (clint_dev, unit) outcome" where
  "clint_time_wr32 v a = seqM (clint_writel (lo32 v) a) (clint_writel (hi32 v) (a + 4))"

text \<open>Calls through the accessor pointers of a structure; \<open>n\<close> bounds the loop of the 32-bit read.\<close>

definition call_time_rd :: "clock \<Rightarrow> nat \<Rightarrow> clint_data \<Rightarrow> clint_dev \<Rightarrow> (clint_dev, u64) outcome" where
  "call_time_rd clk n t =
     (case time_rd t of rd32_fn \<Rightarrow> clint_time_rd32 clk n (time_val t) | rd64_fn \<Rightarrow> clint_time_rd64 clk (time_val t))"

definition call_time_wr :: "clint_data \<Rightarrow> u64 \<Rightarrow> ulong \<Rightarrow> clint_dev \<Rightarrow> (clint_dev, unit) outcome" where
  "call_time_wr t v a = (case time_wr t of wr32_fn \<Rightarrow> clint_time_wr32 v a | wr64_fn \<Rightarrow> clint_time_wr64 v a)"

text \<open>The structure of the calling hart; the functions below read through the pointer without a check.\<close>

definition my_timer :: "nat \<Rightarrow> clint_dev \<Rightarrow> (clint_dev, nat option) outcome" where
  "my_timer h = bindM (getM (\<lambda>d. rd (clint_timer_hartid2data d) h)) liftO"

definition clint_timer_value :: "clock \<Rightarrow> nat \<Rightarrow> nat \<Rightarrow> clint_dev \<Rightarrow> (clint_dev, u64) outcome" where
  "clint_timer_value clk n h =
     bindM (my_timer h) (\<lambda>e.
     bindM (liftO e) (\<lambda>p.
     bindM (getM (\<lambda>d. clints d p)) (\<lambda>t.
     bindM (call_time_rd clk n t) (\<lambda>v.
     bindM (getM (\<lambda>d. time_delta (clints d p))) (\<lambda>delta. retM (v + delta))))))"

definition clint_timer_event_stop :: "nat \<Rightarrow> clint_dev \<Rightarrow> (clint_dev, unit) outcome" where
  "clint_timer_event_stop h =
     bindM (my_timer h) (\<lambda>e.
     bindM (liftO e) (\<lambda>p.
     bindM (getM (\<lambda>d. clints d p)) (\<lambda>t. call_time_wr t (- 1) (hart_reg (time_cmp t) 8 h t))))"

definition clint_timer_event_start :: "nat \<Rightarrow> u64 \<Rightarrow> clint_dev \<Rightarrow> (clint_dev, unit) outcome" where
  "clint_timer_event_start h next_event =
     bindM (my_timer h) (\<lambda>e.
     bindM (liftO e) (\<lambda>p.
     bindM (getM (\<lambda>d. clints d p)) (\<lambda>t.
       call_time_wr t (next_event - time_delta t) (hart_reg (time_cmp t) 8 h t))))"

definition compute_delta :: "clock \<Rightarrow> nat \<Rightarrow> nat \<Rightarrow> nat \<Rightarrow> clint_dev \<Rightarrow> (clint_dev, unit) outcome" where
  "compute_delta clk n p reference =
     bindM (getM (\<lambda>d. time_delta_computed (clints d p))) (\<lambda>old.
     seqM (upd_clint p (\<lambda>t. t\<lparr>time_delta_computed := 1\<rparr>))
       (whenM (old = 0)
          (bindM (getM (\<lambda>d. clints d p)) (\<lambda>t.
           bindM (getM (\<lambda>d. clints d reference)) (\<lambda>r.
           bindM (call_time_rd clk n t) (\<lambda>v1.
           bindM (call_time_rd clk n r) (\<lambda>mv.
           bindM (call_time_rd clk n t) (\<lambda>v2.
             upd_clint p (\<lambda>t. t\<lparr>time_delta := mv - (v1 div 2 + v2 div 2)\<rparr>)))))))))"

definition clint_warm_timer_init :: "clock \<Rightarrow> nat \<Rightarrow> nat \<Rightarrow> clint_dev \<Rightarrow> (clint_dev, int) outcome" where
  "clint_warm_timer_init clk n h =
     bindM (my_timer h) (\<lambda>e.
       case e of
         None \<Rightarrow> retM SBI_ENODEV
       | Some p \<Rightarrow>
           bindM (getM (\<lambda>d. time_delta_reference (clints d p))) (\<lambda>r.
           seqM (case r of None \<Rightarrow> retM () | Some reference \<Rightarrow> compute_delta clk n p reference)
          (bindM (getM (\<lambda>d. clints d p)) (\<lambda>t.
           seqM (call_time_wr t (- 1) (hart_reg (time_cmp t) 8 h t)) (retM 0)))))"

definition clint_cold_timer_init :: "nat option \<Rightarrow> nat option \<Rightarrow> clint_dev \<Rightarrow> (clint_dev, int) outcome" where
  "clint_cold_timer_init clint reference =
     (case clint of
        None \<Rightarrow> retM SBI_EINVAL
      | Some p \<Rightarrow>
          seqM (upd_clint p (\<lambda>t. t\<lparr>time_delta_reference := reference, time_delta_computed := 0, time_delta := 0,
                  time_val := c_addr t + CLINT_TIME_VAL_OFF, time_cmp := c_addr t + CLINT_TIME_CMP_OFF,
                  time_rd := (if has_64bit_mmio t then rd64_fn else rd32_fn),
                  time_wr := (if has_64bit_mmio t then wr64_fn else wr32_fn)\<rparr>))
         (bindM (getM (\<lambda>d. clints d p)) (\<lambda>t.
          seqM (forM [0..<unat (c_hart_count t)] (\<lambda>i.
                  bindM (getM (\<lambda>d. wr (clint_timer_hartid2data d) (unat (first_hartid t + of_nat i)) (Some p))) (\<lambda>tab.
                  bindM (liftO tab) (\<lambda>tab. modM (\<lambda>d. d\<lparr>clint_timer_hartid2data := tab\<rparr>)))))
            (retM 0))))"

section \<open>The software interrupt lines\<close>

text \<open>The line of a hart is bit 0 of its register. The driver serves the harts \<open>H\<close> when each has a structure and a register of its own.\<close>

definition msip_addr :: "clint_dev \<Rightarrow> nat \<Rightarrow> ulong" where
  "msip_addr d i = (case clint_ipi_hartid2data d ! i of None \<Rightarrow> 0 | Some p \<Rightarrow> hart_reg (ipi (clints d p)) 4 i (clints d p))"

definition clint_raised :: "nat \<Rightarrow> clint_dev \<Rightarrow> bool" where
  "clint_raised i d \<longleftrightarrow> bit (regs d (msip_addr d i)) 0"

definition clint_ready :: "nat set \<Rightarrow> clint_dev \<Rightarrow> bool" where
  "clint_ready H d \<longleftrightarrow> length (clint_ipi_hartid2data d) = SBI_HARTMASK_MAX_BITS \<and>
     (\<forall>i\<in>H. i < SBI_HARTMASK_MAX_BITS \<and> clint_ipi_hartid2data d ! i \<noteq> None) \<and> inj_on (msip_addr d) H"

lemma clint_ipi_run:
  assumes "clint_ready H d" "i \<in> H"
  shows "clint_ipi_send i d = Ret () (d\<lparr>regs := (regs d)(msip_addr d i := 1)\<rparr>)"
    "clint_ipi_clear i d = Ret () (d\<lparr>regs := (regs d)(msip_addr d i := 0)\<rparr>)"
  using assms
  by (auto simp: clint_ready_def clint_ipi_send_def clint_ipi_clear_def run_simps rd_def clint_writel_def msip_addr_def)

lemma msip_addr_regs [simp]: "msip_addr (d\<lparr>regs := r\<rparr>) = msip_addr d"
  by (simp add: fun_eq_iff msip_addr_def split: option.split)

lemma clint_ready_regs [simp]: "clint_ready H (d\<lparr>regs := r\<rparr>) = clint_ready H d"
  by (simp add: clint_ready_def)

lemma msip_addr_eq: "clint_ready H d \<Longrightarrow> i \<in> H \<Longrightarrow> k \<in> H \<Longrightarrow> msip_addr d i = msip_addr d k \<longleftrightarrow> i = k"
  by (auto simp: clint_ready_def inj_on_def)

interpretation clint_line: ipi_line clint_raised "clint_ready H" "\<lambda>i d. final (clint_ipi_send i d)"
  "\<lambda>i d. final (clint_ipi_clear i d)" H for H
  by unfold_locales (auto simp: clint_ipi_run clint_raised_def msip_addr_eq)

text \<open>The entries a structure takes in a table: those of its block of harts.\<close>

definition fill :: "nat \<Rightarrow> nat \<Rightarrow> 'a \<Rightarrow> 'a list \<Rightarrow> 'a list" where
  "fill f n x tab = fold (\<lambda>i tab. tab[f + i := x]) [0..<n] tab"

lemma fill_simps: "length (fill f n x tab) = length tab"
  "i < length tab \<Longrightarrow> f + n \<le> length tab \<Longrightarrow> fill f n x tab ! i = (if f \<le> i \<and> i < f + n then x else tab ! i)"
  unfolding fill_def by (induction n) (auto simp: nth_list_update)

lemma block_index:
  assumes "unat f + n \<le> SBI_HARTMASK_MAX_BITS" "i < n"
  shows "unat (f + of_nat i :: u32) = unat f + i"
proof -
  have "unat (of_nat i :: u32) = i" using assms by (simp add: unat_of_nat)
  then show ?thesis using assms by (subst unat_add_lem [THEN iffD1]) auto
qed

lemma fill_ipi_run:
  assumes "length (clint_ipi_hartid2data d) = SBI_HARTMASK_MAX_BITS" "unat f + n \<le> SBI_HARTMASK_MAX_BITS"
  shows "forM [0..<n] (\<lambda>i. bindM (getM (\<lambda>d. wr (clint_ipi_hartid2data d) (unat (f + of_nat i :: u32)) (Some p))) (\<lambda>tab.
      bindM (liftO tab) (\<lambda>tab. modM (\<lambda>d. d\<lparr>clint_ipi_hartid2data := tab\<rparr>)))) d =
    Ret () (d\<lparr>clint_ipi_hartid2data := fill (unat f) n (Some p) (clint_ipi_hartid2data d)\<rparr>)"
proof -
  let ?g = "\<lambda>i d. d\<lparr>clint_ipi_hartid2data := (clint_ipi_hartid2data d)[unat f + i := Some p]\<rparr>"
  have "forM [0..<n] (\<lambda>i. bindM (getM (\<lambda>d. wr (clint_ipi_hartid2data d) (unat (f + of_nat i :: u32)) (Some p))) (\<lambda>tab.
      bindM (liftO tab) (\<lambda>tab. modM (\<lambda>d. d\<lparr>clint_ipi_hartid2data := tab\<rparr>)))) d = Ret () (fold ?g [0..<n] d)"
    using assms block_index [OF assms(2)]
    by (intro conjunct1 [OF forM_fold [where I = "\<lambda>d. length (clint_ipi_hartid2data d) = 128"]]) (auto simp: run_simps wr_def)
  moreover have "fold ?g xs d = d\<lparr>clint_ipi_hartid2data := fold (\<lambda>i tab. tab[unat f + i := Some p]) xs (clint_ipi_hartid2data d)\<rparr>"
    for xs by (induction xs arbitrary: d) simp_all
  ultimately show ?thesis by (simp add: fill_def)
qed

lemma unat_quad: "k < 128 \<Longrightarrow> unat (4 * of_nat k :: ulong) = 4 * k"
  by (simp add: unat_word_ariths unat_of_nat)

lemma block_addr_inj:
  assumes "f + n \<le> SBI_HARTMASK_MAX_BITS"
  shows "inj_on (\<lambda>i. base + 4 * of_nat (i - f) :: ulong) {f..<f + n}"
proof (rule inj_onI)
  fix i k
  assume *: "i \<in> {f..<f + n}" "k \<in> {f..<f + n}" "base + 4 * of_nat (i - f) = base + 4 * of_nat (k - f)"
  have "unat (4 * of_nat (j - f) :: ulong) = 4 * (j - f)" if "j \<in> {f..<f + n}" for j
    using that assms by (intro unat_quad) auto
  then have "4 * (i - f) = 4 * (k - f)" using * by (metis add_left_cancel)
  then show "i = k" using *(1,2) by auto
qed

text \<open>One interruptor for a block of harts makes the driver ready for them.\<close>

lemma cold_ipi_init_run:
  fixes d :: clint_dev and p :: nat
  assumes "length (clint_ipi_hartid2data d) = SBI_HARTMASK_MAX_BITS"
    "unat (first_hartid (clints d p)) + unat (c_hart_count (clints d p)) \<le> SBI_HARTMASK_MAX_BITS"
  defines "f \<equiv> unat (first_hartid (clints d p))" and "n \<equiv> unat (c_hart_count (clints d p))"
  shows "\<exists>d'. clint_cold_ipi_init (Some p) d = Ret 0 d' \<and> clint_ready {f..<f + n} d' \<and> regs d' = regs d"
proof -
  let ?d = "d\<lparr>clints := (clints d)(p := (clints d p)\<lparr>ipi := c_addr (clints d p)\<rparr>)\<rparr>"
  let ?d' = "?d\<lparr>clint_ipi_hartid2data := fill f n (Some p) (clint_ipi_hartid2data d)\<rparr>"
  have run: "clint_cold_ipi_init (Some p) d = Ret 0 ?d'"
    using fill_ipi_run [of ?d "first_hartid (clints d p)" n p] assms(1,2)
    by (simp add: clint_cold_ipi_init_def upd_clint_def run_simps f_def n_def)
  have e: "fill f n (Some p) (clint_ipi_hartid2data d) ! i = Some p" if "i \<in> {f..<f + n}" for i
    using that assms by (subst fill_simps(2)) (auto simp: f_def n_def)
  have "msip_addr ?d' i = c_addr (clints d p) + 4 * of_nat (i - f)" if "i \<in> {f..<f + n}" for i
  proof -
    have "of_nat i - first_hartid (clints d p) = of_nat (i - f)" using that by (simp add: f_def of_nat_diff)
    moreover have "i - f < 128" using that assms(2) unfolding f_def n_def by auto
    ultimately show ?thesis
      using e [OF that] by (simp add: msip_addr_def hart_reg_def unsigned_of_nat take_bit_nat_eq_self)
  qed
  then have "inj_on (msip_addr ?d') {f..<f + n}"
    using block_addr_inj [of f n "c_addr (clints d p)"] assms(2) unfolding f_def n_def by (subst inj_on_cong) auto
  then show ?thesis
    using run assms(1,2) e by (intro exI [of _ ?d']) (auto simp: clint_ready_def fill_simps f_def n_def)
qed

section \<open>Reading the time\<close>

lemma clk_read_run [run_simps]:
  "clk_read part clk a d = Ret (part (clk a (clint_now d))) (d\<lparr>clint_now := clint_now d + 1\<rparr>)"
  by (simp add: clk_read_def run_simps)

lemma hi_lo: "push_bit 32 (ucast (hi32 v)) OR ucast (lo32 v) = (v :: u64)"
  by (auto simp: hi32_def lo32_def bit_eq_iff bit_or_iff bit_push_bit_iff bit_ucast_iff bit_drop_bit_eq)

lemma unat_hi32: "unat (hi32 v) = unat v div 2 ^ 32"
proof -
  have "unat v div 2 ^ 32 < 2 ^ 32" using unsigned_less [of v, where ?'a = nat] by (simp add: less_mult_imp_div_less)
  then show ?thesis by (simp add: hi32_def unsigned_ucast_eq unat_drop_bit_eq drop_bit_eq_div unat_div_distrib take_bit_nat_eq_self)
qed

text \<open>
  While the counter runs forwards, and by less than $2^{32}$ during six accesses, two rounds of the
  loop are enough, and the value put together from the halves is one the counter had.
\<close>

lemma time_rd32_run:
  assumes mono: "\<And>i j. clint_now d \<le> i \<Longrightarrow> i \<le> j \<Longrightarrow> j \<le> clint_now d + 5 \<Longrightarrow> clk a i \<le> clk a j"
    and slow: "unat (clk a (clint_now d + 5)) < unat (clk a (clint_now d)) + 2 ^ 32"
  shows "\<exists>k\<in>{1, 4}. clint_time_rd32 clk (Suc (Suc n)) a d =
    Ret (clk a (clint_now d + k)) (d\<lparr>clint_now := clint_now d + k + 2\<rparr>)"
proof -
  let ?h = "\<lambda>i. hi32 (clk a (clint_now d + i))"
  have m: "unat (?h i) \<le> unat (?h j)" if "i \<le> j" "j \<le> 5" for i j
    using mono [of "clint_now d + i" "clint_now d + j"] that by (simp add: unat_hi32 word_le_nat_alt div_le_mono)
  have up: "unat (?h 5) \<le> unat (?h 0) + 1"
  proof -
    have "unat (clk a (clint_now d + 5)) div 2 ^ 32 \<le> (unat (clk a (clint_now d)) + 2 ^ 32) div 2 ^ 32"
      using slow by (intro div_le_mono) simp
    then show ?thesis by (simp add: unat_hi32)
  qed
  have val: "push_bit 32 (ucast (?h i)) OR ucast (lo32 (clk a (clint_now d + j))) = clk a (clint_now d + j)"
    if "?h i = ?h j" for i j using hi_lo that by metis
  show ?thesis
  proof (cases "?h 0 = ?h 2")
    case True
    then have "?h 0 = ?h 1" using m [of 0 1] m [of 1 2] by (simp add: word_unat_eq_iff)
    then show ?thesis using val [of 0 1] True by (simp add: run_simps)
  next
    case False
    then have "unat (?h 0) < unat (?h 2)" using m [of 0 2] by (simp add: word_unat_eq_iff)
    then have "unat (?h 3) = unat (?h 4)" "unat (?h 3) = unat (?h 5)"
      using m [of 2 3] m [of 3 4] m [of 4 5] up by linarith+
    then have "?h 3 = ?h 4" "?h 3 = ?h 5" by (simp_all add: word_unat_eq_iff)
    then show ?thesis using val [of 3 4] False by (simp add: run_simps eval_nat_numeral)
  qed
qed

lemma call_time_rd_run:
  assumes mono: "\<And>i j. clint_now d \<le> i \<Longrightarrow> i \<le> j \<Longrightarrow> j \<le> clint_now d + 5 \<Longrightarrow> clk (time_val t) i \<le> clk (time_val t) j"
    and slow: "unat (clk (time_val t) (clint_now d + 5)) < unat (clk (time_val t) (clint_now d)) + 2 ^ 32"
  shows "\<exists>k m. call_time_rd clk (Suc (Suc n)) t d = Ret (clk (time_val t) (clint_now d + k)) (d\<lparr>clint_now := m\<rparr>) \<and>
    clint_now d + k < m"
proof (cases "time_rd t")
  case rd32_fn
  have "\<exists>k\<in>{1, 4}. clint_time_rd32 clk (Suc (Suc n)) (time_val t) d =
      Ret (clk (time_val t) (clint_now d + k)) (d\<lparr>clint_now := clint_now d + k + 2\<rparr>)"
    by (intro time_rd32_run slow) (rule mono)
  then obtain k where "clint_time_rd32 clk (Suc (Suc n)) (time_val t) d =
      Ret (clk (time_val t) (clint_now d + k)) (d\<lparr>clint_now := clint_now d + k + 2\<rparr>)" by blast
  then show ?thesis using rd32_fn
    by (intro exI [of _ k] exI [of _ "clint_now d + k + 2"]) (simp add: call_time_rd_def del: clint_time_rd32.simps)
next
  case rd64_fn
  then show ?thesis by (intro exI [of _ 0] exI [of _ "clint_now d + 1"]) (simp add: call_time_rd_def clint_time_rd64_def run_simps)
qed

text \<open>A 64-bit register, and the compare register of a hart.\<close>

definition reg64 :: "clint_dev \<Rightarrow> ulong \<Rightarrow> u64" where
  "reg64 d a = push_bit 32 (ucast (regs d (a + 4))) OR ucast (regs d a)"

lemma call_time_wr_run:
  "call_time_wr t v a d = Ret () (d\<lparr>regs := (regs d)(a := lo32 v, a + 4 := hi32 v)\<rparr>)"
  by (simp add: call_time_wr_def clint_time_wr32_def clint_time_wr64_def clint_writel_def run_simps split: time_wr_fn.split)

lemma reg64_upd: "reg64 (d\<lparr>regs := (regs d)(a := lo32 v, a + 4 := hi32 v)\<rparr>) a = v"
  by (simp add: reg64_def hi_lo)

lemma sub_le_sub_iff: "(b \<le> a \<longleftrightarrow> b \<le> c) \<Longrightarrow> a - b \<le> c - b \<longleftrightarrow> a \<le> (c :: u64)"
  using unsigned_less [of a, where ?'a = nat] unsigned_less [of b, where ?'a = nat] unsigned_less [of c, where ?'a = nat]
  by (auto simp: word_le_nat_alt unat_sub_if')

section \<open>Properties\<close>

text \<open>
  C26: timer events fire at the time the library asked for. When the counter of a hart's interruptor runs forwards, the time
  the driver reports is a value the counter had during the call, plus the offset of that interruptor, also when
  the two halves of the counter have to be read separately; and starting an event writes a compare value that the counter
  reaches exactly when the reported time reaches the requested one (up to wrap-around of the 64-bit sum), and no register but the
  compare register of the hart.
\<close>

theorem clint_timer_consistent:
  fixes d :: clint_dev and h p :: nat and clk :: clock
  defines "t \<equiv> clints d p"
  defines "a \<equiv> hart_reg (time_cmp t) 8 h t"
  assumes "h < length (clint_timer_hartid2data d)" "clint_timer_hartid2data d ! h = Some p"
    "\<And>i j. clint_now d \<le> i \<Longrightarrow> i \<le> j \<Longrightarrow> j \<le> clint_now d + 5 \<Longrightarrow> clk (time_val t) i \<le> clk (time_val t) j"
    "unat (clk (time_val t) (clint_now d + 5)) < unat (clk (time_val t) (clint_now d)) + 2 ^ 32"
  shows "(\<exists>k d'. clint_timer_value clk (Suc (Suc n)) h d = Ret (clk (time_val t) (clint_now d + k) + time_delta t) d' \<and>
      clint_now d + k < clint_now d' \<and> regs d' = regs d) \<and>
    (\<exists>d'. clint_timer_event_start h ev d = Ret () d' \<and> (\<forall>b. b \<noteq> a \<longrightarrow> b \<noteq> a + 4 \<longrightarrow> regs d' b = regs d b) \<and>
      (\<forall>v. (time_delta t \<le> ev \<longleftrightarrow> time_delta t \<le> v) \<longrightarrow> (reg64 d' a \<le> v - time_delta t \<longleftrightarrow> ev \<le> v)))"
proof
  have my: "my_timer h d = Ret (Some p) d" using assms(3,4) by (simp add: my_timer_def run_simps)
  obtain k m where "call_time_rd clk (Suc (Suc n)) t d = Ret (clk (time_val t) (clint_now d + k)) (d\<lparr>clint_now := m\<rparr>)"
    "clint_now d + k < m"
    using call_time_rd_run [of d clk t n] assms(5,6) by blast
  then show "\<exists>k d'. clint_timer_value clk (Suc (Suc n)) h d = Ret (clk (time_val t) (clint_now d + k) + time_delta t) d' \<and>
      clint_now d + k < clint_now d' \<and> regs d' = regs d"
    by (intro exI [of _ k] exI [of _ "d\<lparr>clint_now := m\<rparr>"]) (simp add: clint_timer_value_def run_simps my t_def)
  show "\<exists>d'. clint_timer_event_start h ev d = Ret () d' \<and> (\<forall>b. b \<noteq> a \<longrightarrow> b \<noteq> a + 4 \<longrightarrow> regs d' b = regs d b) \<and>
      (\<forall>v. (time_delta t \<le> ev \<longleftrightarrow> time_delta t \<le> v) \<longrightarrow> (reg64 d' a \<le> v - time_delta t \<longleftrightarrow> ev \<le> v))"
    by (simp add: clint_timer_event_start_def run_simps my call_time_wr_run reg64_upd sub_le_sub_iff flip: t_def a_def)
qed

text \<open>An interruptor for two harts with 32-bit registers, and a clock that advances by one at each access.\<close>

definition clint_demo :: clint_dev where
  "clint_demo = \<lparr>regs = (\<lambda>_. 0), clint_now = 0,
     clints = (\<lambda>_. \<lparr>c_addr = 0x2000000, first_hartid = 0, c_hart_count = 2, has_64bit_mmio = False, ipi = 0x2000000,
       time_delta_reference = None, time_delta_computed = 0, time_delta = 5, time_val = 0x200bff8,
       time_cmp = 0x2004000, time_rd = rd32_fn, time_wr = wr32_fn\<rparr>),
     clint_ipi_hartid2data = Some 0 # Some 0 # replicate 126 None,
     clint_timer_hartid2data = Some 0 # Some 0 # replicate 126 None\<rparr>"

theorem clint_timer_consistent_witness:
  "\<exists>k d'. clint_timer_value (\<lambda>_ n. of_nat n) (Suc (Suc 0)) 1 clint_demo = Ret (of_nat k + 5) d' \<and> k < clint_now d'"
proof -
  have m: "of_nat i \<le> (of_nat j :: u64)" if "i \<le> j" "j \<le> 5" for i j
    using that by (simp add: word_le_nat_alt unat_of_nat)
  have d: "clint_now clint_demo = 0" "length (clint_timer_hartid2data clint_demo) = 128"
    "clint_timer_hartid2data clint_demo ! 1 = Some 0" "time_delta (clints clint_demo 0) = 5"
    by (simp_all add: clint_demo_def)
  show ?thesis using clint_timer_consistent [of 1 clint_demo 0 "\<lambda>_ n. of_nat n" 0 9] m unfolding d by auto
qed

text \<open>A platform with two harts that sends software interrupts through the driver, at reset.\<close>

definition clint_ops :: "clint_dev sbi_platform_operations" where
  "clint_ops = \<lparr>early_init = None, final_init = None, early_exit = None, final_exit = None, misa_check_extension = None,
     misa_get_xlen = None, pmp_region_count = None, pmp_region_info = None, console_putc = None, console_getc = None,
     console_init = None, irqchip_init = None, irqchip_exit = None,
     ipi_send = Some (\<lambda>i d. final (clint_ipi_send i d)), ipi_clear = Some (\<lambda>i d. final (clint_ipi_clear i d)), ipi_init = None,
     ipi_exit = None, get_tlbr_flush_limit = None, timer_value = None, timer_event_start = None,
     timer_event_stop = None, timer_init = None, timer_exit = None, hart_start = None, hart_stop = None,
     system_reset = None, vendor_ext_check = None, vendor_ext_provider = None\<rparr>"

definition clint_cfg :: "clint_dev cfg" where
  "clint_cfg = \<lparr>plat = Some \<lparr>opensbi_version = 0, platform_version = 0, plat_name = [], plat_features = 0,
     hart_count = 2, hart_stack_size = 0, hart_index2id = None, plat_ops = clint_ops\<rparr>,
     hartid_to_scratch = (\<lambda>i _. Some i), has_csr = (\<lambda>_ _. True), interf = (\<lambda>_ s. s), fuel = 8,
     ld_trap = (\<lambda>_ _ _ _. None), st_trap = (\<lambda>_ _ _ _. None), ifetch_trap = (\<lambda>_ _ _ _. None)\<rparr>"

definition reset_state :: "clint_dev sys" where
  "reset_state = boot_sys clint_demo (\<lambda>_. zero_hart) (\<lambda>_. zero_scratch) (\<lambda>_. 0)"

lemma clint_cfg_simps:
  "sbi_platform_hart_invalid clint_cfg i \<longleftrightarrow> 2 \<le> i" "hart_scratch clint_cfg i = (if i < 2 then Some i else None)"
  "plat_op clint_cfg ipi_send = Some (\<lambda>i d. final (clint_ipi_send i d))"
  "plat_op clint_cfg ipi_clear = Some (\<lambda>i d. final (clint_ipi_clear i d))"
  by (simp_all add: clint_cfg_def clint_ops_def sbi_platform_hart_invalid_def sbi_platform_hart_index_def
      hart_scratch_def plat_op_def)

lemma clint_demo_ready: "clint_ready {0, 1} clint_demo"
  by (simp add: clint_ready_def clint_demo_def msip_addr_def hart_reg_def)

text \<open>A run in which hart 0 takes the cold boot path and hart 1 falls asleep before it is released.\<close>

lemma demo_boot:
  "\<exists>pc s m. (boot_step clint_cfg clint_raised (clint_ready {0, 1}))\<^sup>*\<^sup>* (\<lambda>_. At_reset, reset_state) (pc, s) \<and>
    pc 1 = Asleep m \<and> pc 0 = Cold_over"
proof -
  let ?step = "boot_step clint_cfg clint_raised (clint_ready {0, 1})"
  let ?p = "\<lambda>_. At_reset"
  let ?s = "reset_state\<lparr>coldboot_lottery := 1\<rparr>"
  have r: "boot_start reset_state" "dev reset_state = clint_demo" unfolding reset_state_def
    by (rule boot_start_boot_sys) (simp add: boot_sys_def)
  then have z: "coldboot_lottery reset_state = 0" "\<not> coldboot_done reset_state" "hm_ok (coldboot_wait_hmask reset_state)"
    "length (hartid_to_scratch_table reset_state) = 128" by (simp_all add: boot_start_def)
  have 1: "?step (?p, reset_state) (?p(0 := Cold_start), ?s)"
    using boot_step.draw [of ?p 0 clint_cfg reset_state 0 ?s] z(1) by (simp add: run_simps clint_cfg_simps)
  have 2: "?step (?p(0 := Cold_start), ?s) (?p(0 := Cold_start, 1 := Warm_start), ?s)"
    using boot_step.draw [of "?p(0 := Cold_start)" 1 clint_cfg ?s 1 ?s] by (simp add: run_simps clint_cfg_simps)
  obtain m s3 where e: "wait_enter 1 ?s = Ret m s3" "\<not> coldboot_done s3" "hm_ok (coldboot_wait_hmask s3)"
    "length (hartid_to_scratch_table s3) = 128" "dev s3 = clint_demo"
    using wait_enter_run [of ?s 1] z r(2) by (auto simp: upd_hart_def)
  have 3: "?step (?p(0 := Cold_start, 1 := Warm_start), ?s) (?p(0 := Cold_start, 1 := Asleep m), s3)"
    using boot_step.enter_sleep [of "?p(0 := Cold_start, 1 := Warm_start)" 1 ?s m s3] e by (simp add: fun_upd_twist)
  obtain s4 where t: "must (sbi_scratch_init clint_cfg) s3 = Ret () s4"
    by (simp add: must_def run_simps scratch_init_run e)
  have 4: "?step (?p(0 := Cold_start, 1 := Asleep m), s3) (?p(0 := Cold_setup, 1 := Asleep m), s4)"
    using boot_step.table [of "?p(0 := Cold_start, 1 := Asleep m)" 0 clint_cfg s3 s4, OF _ t] by (simp add: fun_upd_twist)
  have s4: "hm_ok (coldboot_wait_hmask s4)" "dev s4 = clint_demo" using table_run [OF e(4) t] e by (simp_all add: boot_rel_def)
  obtain s5 where w: "wake_coldboot_harts clint_cfg 0 s4 = Ret () s5" "coldboot_done s5"
    using wake_run [OF s4(1), of clint_cfg 0] by simp
  have 5: "?step (?p(0 := Cold_setup, 1 := Asleep m), s4) (?p(0 := Cold_over, 1 := Asleep m), s5)"
    using boot_step.wake [of "?p(0 := Cold_setup, 1 := Asleep m)" 0 "clint_ready {0, 1}" s4 clint_cfg s5, OF _ _ w(1)]
      s4(2) clint_demo_ready by (simp add: fun_upd_twist)
  have "?step\<^sup>*\<^sup>* (?p, reset_state) (?p(0 := Cold_over, 1 := Asleep m), s5)"
    using 1 2 3 4 5 by (meson converse_rtranclp_into_rtranclp rtranclp.rtrancl_refl)
  then show ?thesis by (intro exI [of _ "?p(0 := Cold_over, 1 := Asleep m)"] exI [of _ s5] exI [of _ m]) simp
qed

text \<open>
  C3: the cold boot barrier, with software interrupts sent through this driver. However the harts interleave: once a hart has
  left reset, exactly one hart is on the cold boot path; no hart gets past the barrier before the cold hart has released it; and no
  wake-up is lost: after the release every hart that is still asleep has its software interrupt line raised, so that its next look at the line
  wakes it up, and its own code then takes it out of the barrier, whatever the others do: it is no longer marked as waiting, its
  interrupt enable bits are those it had on entry, and its line is low again.
\<close>

theorem boot_barrier:
  fixes c :: "clint_dev cfg" and s0 s :: "clint_dev sys"
  assumes "plat_op c ipi_send = Some (\<lambda>i d. final (clint_ipi_send i d))"
    "plat_op c ipi_clear = Some (\<lambda>i d. final (clint_ipi_clear i d))"
    "\<forall>i<SBI_HARTMASK_MAX_BITS. \<not> sbi_platform_hart_invalid c i \<longrightarrow> i \<in> H \<and> hart_scratch c i \<noteq> None"
    "boot_start s0" "(boot_step c clint_raised (clint_ready H))\<^sup>*\<^sup>* (\<lambda>_. At_reset, s0) (pc, s)"
  shows "((\<exists>h. pc h \<noteq> At_reset) \<longrightarrow> (\<exists>!h. on_cold_path (pc h))) \<and>
    (\<forall>h. behind_barrier (pc h) \<longrightarrow> (\<exists>k. pc k = Cold_over)) \<and>
    (\<forall>h m. pc h = Asleep m \<longrightarrow> (\<exists>k. pc k = Cold_over) \<longrightarrow> clint_raised h (dev s) \<and>
      (\<exists>s1 s2 s3. wait_poll h (show_line clint_raised h s) = Ret True s1 \<and> coldboot_done s1 \<and>
        wait_unmark h s1 = Ret () s2 \<and> wait_restore c h m s2 = Ret () s3 \<and>
        csr (harts s3 h) CSR_MIE = m \<and> \<not> clint_raised h (dev s3) \<and> h \<notin> hm_set (coldboot_wait_hmask s3)))"
proof -
  have "clint_line.serves H c"
    using assms(1-3) by (simp add: clint_line.serves_def plat_void_eff_def fun_eq_iff)
  from clint_line.barrier [OF this assms(4,5)] show ?thesis .
qed

theorem boot_barrier_witness:
  "\<exists>pc s m s1 s2 s3. (boot_step clint_cfg clint_raised (clint_ready {0, 1}))\<^sup>*\<^sup>* (\<lambda>_. At_reset, reset_state) (pc, s) \<and>
    pc 1 = Asleep m \<and> pc 0 = Cold_over \<and> (\<exists>!h. on_cold_path (pc h)) \<and> clint_raised 1 (dev s) \<and>
    wait_poll 1 (show_line clint_raised 1 s) = Ret True s1 \<and> wait_unmark 1 s1 = Ret () s2 \<and>
    wait_restore clint_cfg 1 m s2 = Ret () s3 \<and> \<not> clint_raised 1 (dev s3)"
proof -
  have v: "\<forall>i<SBI_HARTMASK_MAX_BITS. \<not> sbi_platform_hart_invalid clint_cfg i \<longrightarrow> i \<in> {0, 1} \<and> hart_scratch clint_cfg i \<noteq> None"
    by (auto simp: clint_cfg_simps)
  have z: "boot_start reset_state" unfolding reset_state_def by (rule boot_start_boot_sys)
  obtain pc s m where r: "(boot_step clint_cfg clint_raised (clint_ready {0, 1}))\<^sup>*\<^sup>* (\<lambda>_. At_reset, reset_state) (pc, s)"
    "pc 1 = Asleep m" "pc 0 = Cold_over" using demo_boot by blast
  then have "\<exists>h. pc h \<noteq> At_reset" "\<exists>k. pc k = Cold_over" by (auto intro: exI [of _ 1])
  then show ?thesis using boot_barrier [OF clint_cfg_simps(3,4) v z r(1)] r by blast
qed

end
