(* ===== verification/Sys_Htif.thy ===== *)
theory Sys_Htif
  imports Sbi_Machine
begin

text \<open>
  The host-target interface of \<^verbatim>\<open>lib/utils/sys/htif.c\<close>, the console of simulated targets: two words in memory,
  \<open>tohost\<close> and \<open>fromhost\<close>, through which the target sends commands to the host and the host answers. The version is the one
  for 64-bit harts.

  The host runs at any time: \<open>env\<close> is what it does to the state before each access of the target to one of the words.
  Its documented behaviour is the relation \<open>host_step\<close>: it takes a command and clears \<open>tohost\<close>; it shows the character of a
  put command; it answers a get command, when a key was typed, once \<open>fromhost\<close> is free; it may acknowledge put commands.
  The calls take the lock \<open>htif_lock\<close> first and release it last, so that each is one step for the other harts
  (see \<^verbatim>\<open>Riscv_Locks\<close>). The trap instruction \<^verbatim>\<open>__builtin_trap()\<close> is \<open>Hang\<close>.
\<close>

section \<open>The driver\<close>

record htif =
  tohost :: u64
  fromhost :: u64
  htif_console_buf :: int
  host_shown :: "u8 list"
  host_typed :: "u8 list"
  host_reads :: nat

abbreviation (input) HTIF_DEV_SYSTEM :: u64 where "HTIF_DEV_SYSTEM \<equiv> 0"
abbreviation (input) HTIF_DEV_CONSOLE :: u64 where "HTIF_DEV_CONSOLE \<equiv> 1"
abbreviation (input) HTIF_CONSOLE_CMD_GETC :: u64 where "HTIF_CONSOLE_CMD_GETC \<equiv> 0"
abbreviation (input) HTIF_CONSOLE_CMD_PUTC :: u64 where "HTIF_CONSOLE_CMD_PUTC \<equiv> 1"

definition TOHOST_CMD :: "u64 \<Rightarrow> u64 \<Rightarrow> u64 \<Rightarrow> u64" where
  "TOHOST_CMD device cmd payload = push_bit 56 device OR push_bit 48 cmd OR payload"

definition FROMHOST_DEV :: "u64 \<Rightarrow> u64" where
  "FROMHOST_DEV v = drop_bit 56 v AND 0xFF"

definition FROMHOST_CMD :: "u64 \<Rightarrow> u64" where
  "FROMHOST_CMD v = drop_bit 48 v AND 0xFF"

definition FROMHOST_DATA :: "u64 \<Rightarrow> u64" where
  "FROMHOST_DATA v = v AND 0xFFFFFFFFFFFF"

definition u_check_fromhost :: "(htif \<Rightarrow> htif) \<Rightarrow> htif \<Rightarrow> (htif, unit) outcome" where
  "u_check_fromhost env =
     seqM (modM env)
    (bindM (getM fromhost) (\<lambda>fh.
       if fh = 0 then retM ()
       else
         seqM (modM env)
        (seqM (modM (\<lambda>s. s\<lparr>fromhost := 0\<rparr>))
         (if FROMHOST_DEV fh \<noteq> HTIF_DEV_CONSOLE then haltM Hang
          else if FROMHOST_CMD fh = HTIF_CONSOLE_CMD_GETC
          then modM (\<lambda>s. s\<lparr>htif_console_buf := 1 + int (unat (ucast (FROMHOST_DATA fh) :: u8))\<rparr>)
          else if FROMHOST_CMD fh = HTIF_CONSOLE_CMD_PUTC then retM ()
          else haltM Hang))))"

fun tohost_loop :: "(htif \<Rightarrow> htif) \<Rightarrow> nat \<Rightarrow> htif \<Rightarrow> (htif, unit) outcome" where
  "tohost_loop env 0 = haltM Spin"
| "tohost_loop env (Suc n) =
     seqM (modM env)
    (bindM (getM tohost) (\<lambda>t. if t \<noteq> 0 then seqM (u_check_fromhost env) (tohost_loop env n) else retM ()))"

definition u_set_tohost :: "(htif \<Rightarrow> htif) \<Rightarrow> nat \<Rightarrow> u64 \<Rightarrow> u64 \<Rightarrow> u64 \<Rightarrow> htif \<Rightarrow> (htif, unit) outcome" where
  "u_set_tohost env n device cmd data =
     seqM (tohost_loop env n)
    (seqM (modM env)
          (modM (\<lambda>s. s\<lparr>tohost := TOHOST_CMD device cmd data\<rparr>)))"

definition htif_putc :: "(htif \<Rightarrow> htif) \<Rightarrow> nat \<Rightarrow> u8 \<Rightarrow> htif \<Rightarrow> (htif, unit) outcome" where
  "htif_putc env n ch = u_set_tohost env n HTIF_DEV_CONSOLE HTIF_CONSOLE_CMD_PUTC (ucast ch)"

definition htif_getc :: "(htif \<Rightarrow> htif) \<Rightarrow> nat \<Rightarrow> htif \<Rightarrow> (htif, int) outcome" where
  "htif_getc env n =
     seqM (u_check_fromhost env)
    (bindM (getM htif_console_buf) (\<lambda>ch.
     seqM (whenM (ch \<ge> 0)
             (seqM (modM (\<lambda>s. s\<lparr>htif_console_buf := - 1\<rparr>))
                   (u_set_tohost env n HTIF_DEV_CONSOLE HTIF_CONSOLE_CMD_GETC 0)))
          (retM (ch - 1))))"

text \<open>The loop of a reset, which asks the host to end the simulation until it does.\<close>

fun htif_system_reset :: "(htif \<Rightarrow> htif) \<Rightarrow> nat \<Rightarrow> htif \<Rightarrow> (htif, int) outcome" where
  "htif_system_reset env 0 = haltM Spin"
| "htif_system_reset env (Suc n) =
     seqM (modM env)
    (seqM (modM (\<lambda>s. s\<lparr>fromhost := 0\<rparr>))
    (seqM (modM env)
    (seqM (modM (\<lambda>s. s\<lparr>tohost := 1\<rparr>))
          (htif_system_reset env n))))"

section \<open>The host\<close>

inductive host_step :: "htif \<Rightarrow> htif \<Rightarrow> bool" where
  show_char: "tohost s = TOHOST_CMD HTIF_DEV_CONSOLE HTIF_CONSOLE_CMD_PUTC (ucast (c :: u8)) \<Longrightarrow>
    host_step s (s\<lparr>tohost := 0, host_shown := host_shown s @ [c]\<rparr>)"
| take_read: "tohost s = TOHOST_CMD HTIF_DEV_CONSOLE HTIF_CONSOLE_CMD_GETC 0 \<Longrightarrow>
    host_step s (s\<lparr>tohost := 0, host_reads := host_reads s + 1\<rparr>)"
| answer: "host_reads s = Suc n \<Longrightarrow> fromhost s = 0 \<Longrightarrow> host_typed s = ucast v # cs \<Longrightarrow>
    FROMHOST_DEV v = HTIF_DEV_CONSOLE \<Longrightarrow> FROMHOST_CMD v = HTIF_CONSOLE_CMD_GETC \<Longrightarrow>
    host_step s (s\<lparr>fromhost := v, host_reads := n, host_typed := cs\<rparr>)"
| acknowledge: "fromhost s = 0 \<Longrightarrow> FROMHOST_DEV v = HTIF_DEV_CONSOLE \<Longrightarrow> FROMHOST_CMD v = HTIF_CONSOLE_CMD_PUTC \<Longrightarrow>
    host_step s (s\<lparr>fromhost := v\<rparr>)"

section \<open>The console keeps every character\<close>

text \<open>The right to ask for a key is one token: with the driver (a buffered key, or 0 before the first call), in a get command,
  with the host, or in its answer. Keys are in order: delivered, buffered, on the way, and to come.\<close>

definition answered :: "u64 \<Rightarrow> bool" where
  "answered v \<longleftrightarrow> v \<noteq> 0 \<and> FROMHOST_CMD v = HTIF_CONSOLE_CMD_GETC"

definition tokens :: "htif \<Rightarrow> nat" where
  "tokens s = of_bool (htif_console_buf s \<ge> 0) + of_bool (tohost s = TOHOST_CMD HTIF_DEV_CONSOLE HTIF_CONSOLE_CMD_GETC 0) +
     host_reads s + of_bool (answered (fromhost s))"

definition buffered :: "htif \<Rightarrow> u8 list" where
  "buffered s = (if htif_console_buf s > 0 then [of_int (htif_console_buf s - 1)] else [])"

definition on_wire :: "htif \<Rightarrow> u8 list" where
  "on_wire s = (if answered (fromhost s) then [ucast (fromhost s)] else [])"

definition unshown :: "htif \<Rightarrow> u8 list \<Rightarrow> bool" where
  "unshown s l \<longleftrightarrow> (if tohost s = 0 \<or> tohost s = TOHOST_CMD HTIF_DEV_CONSOLE HTIF_CONSOLE_CMD_GETC 0 then l = []
     else \<exists>c. l = [c] \<and> tohost s = TOHOST_CMD HTIF_DEV_CONSOLE HTIF_CONSOLE_CMD_PUTC (ucast c))"

definition console_inv :: "u8 list \<Rightarrow> u8 list \<Rightarrow> u8 list \<Rightarrow> nat \<Rightarrow> htif \<Rightarrow> bool" where
  "console_inv puts gots typed k s \<longleftrightarrow>
     (\<exists>l. puts = host_shown s @ l \<and> unshown s l) \<and>
     typed = gots @ buffered s @ on_wire s @ host_typed s \<and>
     tokens s = k \<and> - 1 \<le> htif_console_buf s \<and> htif_console_buf s \<le> 256 \<and>
     (fromhost s = 0 \<or> FROMHOST_DEV (fromhost s) = HTIF_DEV_CONSOLE \<and>
        (FROMHOST_CMD (fromhost s) = HTIF_CONSOLE_CMD_GETC \<or> FROMHOST_CMD (fromhost s) = HTIF_CONSOLE_CMD_PUTC))"

lemma fromhost_zero [simp]: "FROMHOST_DEV 0 = 0"
  by (simp add: FROMHOST_DEV_def)

lemma bit_tohost:
  "k = 0 \<or> k = 1 \<Longrightarrow> bit (TOHOST_CMD 1 k (ucast (c :: u8))) n \<longleftrightarrow> n = 56 \<or> n = 48 \<and> k = 1 \<or> n < 8 \<and> bit c n"
  unfolding TOHOST_CMD_def bit_or_iff bit_push_bit_iff by (auto simp: bit_1_iff bit_ucast_iff dest: bit_imp_le_length)

lemma tohost_byte: "k = 0 \<or> k = 1 \<Longrightarrow> ucast (TOHOST_CMD 1 k (ucast c)) = (c :: u8)"
  by (rule bit_word_eqI) (auto simp: bit_ucast_iff bit_tohost)

lemma tohost_cmds:
  "TOHOST_CMD 1 1 (ucast (c :: u8)) \<noteq> 0" "TOHOST_CMD 1 0 0 \<noteq> 0" "TOHOST_CMD 1 1 (ucast (c :: u8)) \<noteq> TOHOST_CMD 1 0 0"
  "TOHOST_CMD 1 1 (ucast c) = TOHOST_CMD 1 1 (ucast (d :: u8)) \<longleftrightarrow> c = d"
proof -
  show "TOHOST_CMD 1 1 (ucast c) \<noteq> 0" using bit_tohost [of 1 c 56] by auto
  show "TOHOST_CMD 1 0 0 \<noteq> 0" using bit_tohost [of 0 0 56] by auto
  show "TOHOST_CMD 1 1 (ucast c) \<noteq> TOHOST_CMD 1 0 0" using bit_tohost [of 1 c 48] bit_tohost [of 0 0 48] by auto
  show "TOHOST_CMD 1 1 (ucast c) = TOHOST_CMD 1 1 (ucast d) \<longleftrightarrow> c = d"
    by (metis tohost_byte [of 1])
qed

lemmas console_defs = console_inv_def unshown_def tokens_def buffered_def on_wire_def answered_def

lemma host_keeps:
  assumes "host_step s s'" "console_inv puts gots typed k s"
  shows "console_inv puts gots typed k s'"
  using assms
proof (induction rule: host_step.induct)
  case (show_char s c)
  then show ?case by (auto simp: console_defs tohost_cmds split: if_splits)
next
  case (take_read s)
  then show ?case by (auto simp: console_defs tohost_cmds split: if_splits)
next
  case (answer s n v cs)
  then have "v \<noteq> 0" by auto
  with answer show ?case by (auto simp: console_defs)
next
  case (acknowledge s v)
  then show ?case by (auto simp: console_defs)
qed

text \<open>What the driver does with a message from the host.\<close>

lemma data_byte: "(ucast (FROMHOST_DATA v) :: u8) = ucast v"
proof (rule bit_word_eqI)
  have m: "(0xFFFFFFFFFFFF :: u64) = mask 48" by (simp add: mask_eq_exp_minus_1)
  fix n assume "n < LENGTH(8)"
  then show "bit (ucast (FROMHOST_DATA v) :: u8) n = bit (ucast v :: u8) n"
    unfolding FROMHOST_DATA_def m by (simp add: bit_ucast_iff bit_and_iff bit_mask_iff)
qed

lemma inv_acknowledged:
  assumes "console_inv puts gots typed k s" "FROMHOST_CMD (fromhost s) = 1"
  shows "console_inv puts gots typed k (s\<lparr>fromhost := 0\<rparr>)"
  using assms by (auto simp: console_defs)

lemma inv_answered:
  assumes "console_inv puts gots typed k s" "k \<le> 1" "fromhost s \<noteq> 0" "FROMHOST_CMD (fromhost s) = 0"
  shows "console_inv puts gots typed k
    (s\<lparr>fromhost := 0, htif_console_buf := 1 + int (unat (ucast (FROMHOST_DATA (fromhost s)) :: u8))\<rparr>)"
proof -
  have "htif_console_buf s < 0" using assms by (auto simp: console_defs of_bool_def split: if_splits)
  moreover have "0 \<le> uint (ucast (fromhost s) :: u8)" "uint (ucast (fromhost s) :: u8) < 256"
    using uint_lt2p [of "ucast (fromhost s) :: u8"] by simp_all
  ultimately show ?thesis using assms by (auto simp: console_defs data_byte add_pos_nonneg)
qed

definition follows :: "(htif \<Rightarrow> htif) \<Rightarrow> bool" where
  "follows env \<longleftrightarrow> (\<forall>s. host_step\<^sup>*\<^sup>* s (env s))"

lemma env_keeps: "follows env \<Longrightarrow> console_inv puts gots typed k s \<Longrightarrow> console_inv puts gots typed k (env s)"
proof -
  have "host_step\<^sup>*\<^sup>* s s' \<Longrightarrow> console_inv puts gots typed k s \<Longrightarrow> console_inv puts gots typed k s'" for s'
    by (induction rule: rtranclp_induct) (auto intro: host_keeps)
  then show "follows env \<Longrightarrow> console_inv puts gots typed k s \<Longrightarrow> console_inv puts gots typed k (env s)"
    by (simp add: follows_def)
qed

text \<open>The host leaves a free command word, and a pending answer, alone.\<close>

lemma env_stable:
  assumes "follows env"
  shows "tohost s = 0 \<Longrightarrow> tohost (env s) = 0" and "fromhost s \<noteq> 0 \<Longrightarrow> fromhost (env s) = fromhost s"
proof -
  have 1: "host_step\<^sup>*\<^sup>* s (env s)" using assms by (simp add: follows_def)
  then show "tohost s = 0 \<Longrightarrow> tohost (env s) = 0"
    by (induction rule: rtranclp_induct) (auto elim!: host_step.cases simp: tohost_cmds)
  from 1 show "fromhost s \<noteq> 0 \<Longrightarrow> fromhost (env s) = fromhost s"
    by (induction rule: rtranclp_induct) (auto elim!: host_step.cases)
qed

lemma check_keeps:
  assumes "follows env" "console_inv puts gots typed k s" "k \<le> 1"
  shows "sees (u_check_fromhost env) s (\<lambda>_ s'. console_inv puts gots typed k s')"
proof (cases "fromhost (env s) = 0")
  case True
  then show ?thesis using env_keeps [OF assms(1,2)] by (simp add: u_check_fromhost_def)
next
  case False
  define s' where "s' = env (env s)"
  have f: "fromhost s' = fromhost (env s)" using env_stable(2) [OF assms(1) False] by (simp add: s'_def)
  have i: "console_inv puts gots typed k s'" using env_keeps [OF assms(1)] assms(2) by (simp add: s'_def)
  have "fromhost s' \<noteq> 0" using f False by simp
  with i have "FROMHOST_DEV (fromhost s') = 1" "FROMHOST_CMD (fromhost s') = 0 \<or> FROMHOST_CMD (fromhost s') = 1"
    by (auto simp: console_inv_def)
  with inv_acknowledged [OF i] inv_answered [OF i assms(3)] False show ?thesis
    unfolding f by (auto simp: u_check_fromhost_def s'_def [symmetric])
qed

lemma tohost_loop_keeps:
  assumes "follows env" "k \<le> 1"
  shows "console_inv puts gots typed k s \<Longrightarrow> sees (tohost_loop env n) s (\<lambda>_ s'. console_inv puts gots typed k s' \<and> tohost s' = 0)"
proof (induction n arbitrary: s)
  case (Suc n)
  have e: "console_inv puts gots typed k (env s)" by (rule env_keeps [OF assms(1) Suc.prems])
  have "sees (u_check_fromhost env) (env s)
      (\<lambda>_ s'. sees (tohost_loop env n) s' (\<lambda>_ s'. console_inv puts gots typed k s' \<and> tohost s' = 0))"
    by (rule sees_mono [OF check_keeps [OF assms(1) e assms(2)]]) (rule Suc.IH)
  then show ?case using e by simp
qed simp

lemma set_tohost_keeps:
  assumes "follows env" "k \<le> 1" "console_inv puts gots typed k s"
    "\<And>s. console_inv puts gots typed k s \<Longrightarrow> tohost s = 0 \<Longrightarrow> Q (s\<lparr>tohost := TOHOST_CMD device cmd data\<rparr>)"
  shows "sees (u_set_tohost env n device cmd data) s (\<lambda>_. Q)"
  unfolding u_set_tohost_def sees_seq sees_mod
  by (rule sees_mono [OF tohost_loop_keeps [OF assms(1-3)]]) (use env_keeps [OF assms(1)] env_stable(1) [OF assms(1)] assms(4) in blast)

lemma putc_keeps:
  assumes "follows env" "console_inv puts gots typed 1 s"
  shows "sees (htif_putc env n c) s (\<lambda>_. console_inv (puts @ [c]) gots typed 1)"
  unfolding htif_putc_def
  by (rule set_tohost_keeps [OF assms(1) _ assms(2)]) (auto simp: console_defs tohost_cmds)

lemma ask_keeps:
  assumes "follows env" "console_inv puts gots typed 0 s"
  shows "sees (u_set_tohost env n 1 0 0) s (\<lambda>_. console_inv puts gots typed 1)"
  by (rule set_tohost_keeps [OF assms(1) _ assms(2)]) (auto simp: console_defs tohost_cmds)

lemma getc_keeps:
  assumes "follows env" "console_inv puts gots typed 1 s"
  shows "sees (htif_getc env n) s (\<lambda>r s'. - 2 \<le> r \<and> r < 256 \<and>
    console_inv puts (if r \<ge> 0 then gots @ [of_int r] else gots) typed 1 s')"
proof -
  have ask: "sees (whenM (htif_console_buf t \<ge> 0) (seqM (modM (\<lambda>s. s\<lparr>htif_console_buf := - 1\<rparr>)) (u_set_tohost env n 1 0 0))) t
      (\<lambda>_. console_inv puts (if htif_console_buf t > 0 then gots @ [of_int (htif_console_buf t - 1)] else gots) typed 1)"
    if t: "console_inv puts gots typed 1 t" for t
  proof (cases "htif_console_buf t \<ge> 0")
    case True
    then have "console_inv puts (if htif_console_buf t > 0 then gots @ [of_int (htif_console_buf t - 1)] else gots) typed 0
        (t\<lparr>htif_console_buf := - 1\<rparr>)"
      using t by (auto simp: console_defs)
    with True show ?thesis unfolding whenM_def by (auto intro!: ask_keeps [OF assms(1), unfolded One_nat_def])
  next
    case False
    then show ?thesis using t by (auto simp: whenM_def)
  qed
  have bound: "- 1 \<le> htif_console_buf t \<and> htif_console_buf t \<le> 256" if "console_inv puts gots typed 1 t" for t
    using that by (simp add: console_inv_def)
  show ?thesis unfolding htif_getc_def sees_seq sees_bind sees_get sees_ret
    by (rule sees_mono [OF check_keeps [OF assms]], simp, rule sees_mono [OF ask], assumption) (use bound in force)
qed

text \<open>Calls one after the other, with the results of the get calls.\<close>

datatype htif_call = Put u8 | Get

fun htif_calls :: "(htif \<Rightarrow> htif) \<Rightarrow> nat \<Rightarrow> htif_call list \<Rightarrow> htif \<Rightarrow> (htif, int list) outcome" where
  "htif_calls env n [] = retM []"
| "htif_calls env n (Put c # cs) = seqM (htif_putc env n c) (htif_calls env n cs)"
| "htif_calls env n (Get # cs) = bindM (htif_getc env n) (\<lambda>r. bindM (htif_calls env n cs) (\<lambda>rs. retM (r # rs)))"

definition put_chars :: "htif_call list \<Rightarrow> u8 list" where
  "put_chars cs = concat (map (\<lambda>x. case x of Put c \<Rightarrow> [c] | Get \<Rightarrow> []) cs)"

definition got_chars :: "int list \<Rightarrow> u8 list" where
  "got_chars rs = map of_int (filter (\<lambda>r. r \<ge> 0) rs)"

lemma calls_keep:
  assumes "follows env"
  shows "console_inv puts gots typed 1 s \<Longrightarrow> sees (htif_calls env n cs) s (\<lambda>rs s'.
    list_all (\<lambda>r. - 2 \<le> r \<and> r < 256) rs \<and> console_inv (puts @ put_chars cs) (gots @ got_chars rs) typed 1 s')"
proof (induction cs arbitrary: puts gots s)
  case (Cons x cs)
  show ?case
  proof (cases x)
    case (Put c)
    have "sees (htif_calls env n cs) t (\<lambda>rs s'. list_all (\<lambda>r. - 2 \<le> r \<and> r < 256) rs \<and>
        console_inv (puts @ put_chars (x # cs)) (gots @ got_chars rs) typed 1 s')"
      if "console_inv (puts @ [c]) gots typed 1 t" for t
      using Cons.IH [OF that] by (simp add: Put put_chars_def)
    then show ?thesis using sees_mono [OF putc_keeps [OF assms Cons.prems]] by (simp add: Put)
  next
    case Get
    show ?thesis unfolding Get htif_calls.simps sees_bind sees_ret
      by (rule sees_mono [OF getc_keeps [OF assms Cons.prems]], rule sees_mono [OF Cons.IH])
         (auto simp: put_chars_def got_chars_def)
  qed
qed (simp add: put_chars_def got_chars_def)

text \<open>A host that has taken the command whenever the driver looks.\<close>

definition prompt :: "(htif \<Rightarrow> htif) \<Rightarrow> bool" where
  "prompt env \<longleftrightarrow> (\<forall>s l. unshown s l \<longrightarrow> tohost (env s) = 0)"

lemma sees_Ret: "sees m s Q \<Longrightarrow> m s = Ret x s' \<Longrightarrow> Q x s'"
  by (simp add: sees_def)

lemma set_tohost_returns:
  assumes "prompt env" "0 < n" "console_inv puts gots typed k s"
  shows "\<exists>s'. u_set_tohost env n device cmd data s = Ret () s'"
proof -
  have "tohost (env s) = 0" using assms(1,3) unfolding prompt_def console_inv_def by blast
  then show ?thesis using assms(2) by (cases n) (simp_all add: u_set_tohost_def run_simps)
qed

lemma check_returns:
  assumes "follows env" "console_inv puts gots typed k s" "k \<le> 1"
  shows "\<exists>s'. u_check_fromhost env s = Ret () s'"
proof -
  have "u_check_fromhost env s \<noteq> Halt Spin s'" for s' by (simp add: u_check_fromhost_def run_simps)
  with check_keeps [OF assms] show ?thesis by (cases "u_check_fromhost env s") (auto simp: sees_def)
qed

lemma calls_return:
  assumes "follows env" "prompt env" "0 < n"
  shows "console_inv puts gots typed 1 s \<Longrightarrow> \<exists>rs s'. htif_calls env n cs s = Ret rs s'"
proof (induction cs arbitrary: puts gots s)
  case (Cons x cs)
  show ?case
  proof (cases x)
    case (Put c)
    obtain t where t: "htif_putc env n c s = Ret () t"
      unfolding htif_putc_def using set_tohost_returns [OF assms(2,3) Cons.prems] by blast
    from Cons.IH [OF sees_Ret [OF putc_keeps [OF assms(1) Cons.prems] t]] t show ?thesis by (simp add: Put run_simps)
  next
    case Get
    obtain t where t: "u_check_fromhost env s = Ret () t" using check_returns [OF assms(1) Cons.prems] by auto
    have i: "console_inv puts gots typed 1 t" by (rule sees_Ret [OF check_keeps [OF assms(1) Cons.prems order_refl] t])
    have "\<exists>u. htif_getc env n s = Ret (htif_console_buf t - 1) u"
    proof (cases "htif_console_buf t \<ge> 0")
      case True
      obtain l where "unshown t l" using i unfolding console_inv_def by blast
      then have "unshown (t\<lparr>htif_console_buf := - 1\<rparr>) l" by (simp add: unshown_def)
      then have "tohost (env (t\<lparr>htif_console_buf := - 1\<rparr>)) = 0" using assms(2) unfolding prompt_def by blast
      with True t assms(3) show ?thesis by (cases n) (simp_all add: htif_getc_def u_set_tohost_def run_simps)
    qed (use t in \<open>simp add: htif_getc_def run_simps\<close>)
    then obtain u where u: "htif_getc env n s = Ret (htif_console_buf t - 1) u" ..
    have "\<exists>rs s'. htif_calls env n cs u = Ret rs s'"
      using sees_Ret [OF getc_keeps [OF assms(1) Cons.prems] u] by (blast intro: Cons.IH)
    with u show ?thesis by (auto simp: Get run_simps)
  qed
qed (simp add: run_simps)

definition htif_start :: "u8 list \<Rightarrow> htif" where
  "htif_start typed = \<lparr>tohost = 0, fromhost = 0, htif_console_buf = 0, host_shown = [], host_typed = typed, host_reads = 0\<rparr>"

lemma start_inv: "console_inv [] [] typed 1 (htif_start typed)"
  by (simp add: console_defs htif_start_def tohost_cmds)

lemma inv_in_flight:
  assumes "console_inv puts gots typed 1 s"
  shows "\<exists>l. puts = host_shown s @ l \<and> length l \<le> 1" "\<exists>l. typed = gots @ l @ host_typed s \<and> length l \<le> 1"
proof -
  obtain l where "puts = host_shown s @ l" "unshown s l" using assms by (auto simp: console_inv_def)
  moreover from this have "length l \<le> 1" by (auto simp: unshown_def split: if_splits)
  ultimately show "\<exists>l. puts = host_shown s @ l \<and> length l \<le> 1" by blast
  have "typed = gots @ (buffered s @ on_wire s) @ host_typed s" "length (buffered s @ on_wire s) \<le> 1"
    using assms by (auto simp: console_defs)
  then show "\<exists>l. typed = gots @ l @ host_typed s \<and> length l \<le> 1" by blast
qed

text \<open>C14: The host-target console neither loses, repeats nor reorders a character, and the driver never executes a trap
  instruction, for any host that follows the protocol at its own pace and any sequence of put and get calls.  What the host has
  shown are the characters put, but for at most one that is still in the command word; the results of the get calls that are not
  negative are the keys typed, in order, but for at most one that is on its way and those the host still has.  When the host takes
  commands promptly all calls return.\<close>

theorem htif_console_lossless:
  assumes "follows env"
  shows "(case htif_calls env n cs (htif_start typed) of
      Ret rs s \<Rightarrow> list_all (\<lambda>r. - 2 \<le> r \<and> r < 256) rs \<and>
        (\<exists>l. put_chars cs = host_shown s @ l \<and> length l \<le> 1) \<and>
        (\<exists>l. typed = got_chars rs @ l @ host_typed s \<and> length l \<le> 1)
    | Halt r s \<Rightarrow> r = Spin) \<and>
    (prompt env \<longrightarrow> 0 < n \<longrightarrow> (\<exists>rs s. htif_calls env n cs (htif_start typed) = Ret rs s))"
proof (intro conjI impI)
  have "sees (htif_calls env n cs) (htif_start typed) (\<lambda>rs s. list_all (\<lambda>r. - 2 \<le> r \<and> r < 256) rs \<and>
      (\<exists>l. put_chars cs = host_shown s @ l \<and> length l \<le> 1) \<and> (\<exists>l. typed = got_chars rs @ l @ host_typed s \<and> length l \<le> 1))"
    by (rule sees_mono [OF calls_keep [OF assms start_inv]]) (use inv_in_flight in force)
  then show "case htif_calls env n cs (htif_start typed) of
      Ret rs s \<Rightarrow> list_all (\<lambda>r. - 2 \<le> r \<and> r < 256) rs \<and>
        (\<exists>l. put_chars cs = host_shown s @ l \<and> length l \<le> 1) \<and> (\<exists>l. typed = got_chars rs @ l @ host_typed s \<and> length l \<le> 1)
    | Halt r s \<Rightarrow> r = Spin" by (simp only: sees_def)
  show "\<exists>rs s. htif_calls env n cs (htif_start typed) = Ret rs s" if "prompt env" "0 < n"
    by (rule calls_return [OF assms that start_inv])
qed

text \<open>A host that shows characters at once and answers at once.\<close>

definition demo_take :: "htif \<Rightarrow> htif" where
  "demo_take s =
     (if tohost s = TOHOST_CMD 1 0 0 then s\<lparr>tohost := 0, host_reads := host_reads s + 1\<rparr>
      else if tohost s = TOHOST_CMD 1 1 (ucast (ucast (tohost s) :: u8))
      then s\<lparr>tohost := 0, host_shown := host_shown s @ [ucast (tohost s)]\<rparr> else s)"

definition demo_answer :: "htif \<Rightarrow> htif" where
  "demo_answer s =
     (case (host_reads s, host_typed s) of
        (Suc n, c # cs) \<Rightarrow>
          if fromhost s = 0 then s\<lparr>fromhost := TOHOST_CMD 1 0 (ucast c), host_reads := n, host_typed := cs\<rparr> else s
      | _ \<Rightarrow> s)"

lemma demo_host_follows: "follows (\<lambda>s. demo_answer (demo_take s))"
proof -
  have t: "host_step\<^sup>*\<^sup>* s (demo_take s)" for s
    using host_step.take_read [of s] host_step.show_char [of s "ucast (tohost s)"] by (auto simp: demo_take_def)
  have m: "(0xFF :: u64) = mask 8" by (simp add: mask_eq_exp_minus_1)
  have v: "FROMHOST_DEV (TOHOST_CMD 1 0 (ucast c)) = 1" for c :: u8
    unfolding FROMHOST_DEV_def m
    by (rule bit_word_eqI) (auto simp: bit_and_iff bit_drop_bit_eq bit_tohost bit_mask_iff bit_1_iff)
  have w: "FROMHOST_CMD (TOHOST_CMD 1 0 (ucast c)) = 0" for c :: u8
    unfolding FROMHOST_CMD_def m
    by (rule bit_word_eqI) (auto simp: bit_and_iff bit_drop_bit_eq bit_tohost bit_mask_iff)
  have "host_step\<^sup>*\<^sup>* s (demo_answer s)" for s
    using host_step.answer [of s _ "TOHOST_CMD 1 0 (ucast (hd (host_typed s)))"] v w tohost_byte [of 0]
    by (auto simp: demo_answer_def split: nat.splits list.splits)
  with t show ?thesis unfolding follows_def by (meson rtranclp_trans)
qed

lemma demo_host_prompt: "prompt (\<lambda>s. demo_answer (demo_take s))"
proof -
  have "tohost (demo_answer s) = tohost s" for s by (simp add: demo_answer_def split: nat.splits list.splits)
  moreover have "unshown s l \<Longrightarrow> tohost (demo_take s) = 0" for s l
    by (auto simp: unshown_def demo_take_def tohost_byte split: if_splits)
  ultimately show ?thesis by (simp add: prompt_def)
qed

theorem htif_console_lossless_witness:
  "\<exists>rs s l l'. htif_calls (\<lambda>s. demo_answer (demo_take s)) 1 [Put 65, Get, Get, Get] (htif_start [66]) = Ret rs s \<and>
     [65] = host_shown s @ l \<and> length l \<le> 1 \<and> [66] = got_chars rs @ l' @ host_typed s \<and> length l' \<le> 1"
  using htif_console_lossless [OF demo_host_follows, where n = 1 and cs = "[Put 65, Get, Get, Get]" and typed = "[66]"] demo_host_prompt
  by (auto simp: put_chars_def)

end
