(* ===== verification/Riscv_Locks.thy ===== *)
theory Riscv_Locks
  imports Sbi_Fifo
begin

text \<open>
  The spin locks of \<^verbatim>\<open>lib/sbi/riscv_locks.c\<close>, and what they are for: the other components are modelled with
  each critical section as one step, and this theory shows that this is what the locks achieve.

  The relation \<open>lock_step\<close> interleaves the harts at the level of single accesses: a look at the lock word, the atomic swap,
  one access of a critical section, the release. A section is a list of such accesses on a local state and the protected
  data, given by the operation that is called. Theorem \<open>lock_serialises\<close> says that the sections behave as if they ran one
  after the other, in the order of the releases; \<open>fifo_linearizable\<close> is its instance for the ring buffer of
  \<^verbatim>\<open>Sbi_Fifo\<close>, whose operations are split into their single byte copies.

  Accesses are sequentially consistent: the fences around the swap and before the releasing store are what makes the sections
  so on the hardware.
\<close>

section \<open>The lock word\<close>

definition spin_lock_check :: "ulong \<Rightarrow> int" where
  "spin_lock_check lock = (if lock = 0 then 0 else 1)"

text \<open>The swap is 32 bits wide, the lock word 64: the old low half is the result and the upper half stays.\<close>

definition spin_trylock :: "ulong \<Rightarrow> int \<times> ulong" where
  "spin_trylock lock =
     (let busy = (ucast lock :: u32)
      in (if busy = 0 then 1 else 0, lock AND NOT 0xFFFFFFFF OR 1))"

definition spin_unlock :: "ulong \<Rightarrow> ulong" where
  "spin_unlock lock = 0"

section \<open>Harts that share a lock\<close>

text \<open>Where a hart is: outside, in the loop of \<open>spin_lock\<close> before the look at the word or before the swap, or inside
  the section of an operation, with its local state and the number of accesses made.\<close>

datatype ('o, 'l) lock_pc = Outside | Checking 'o | Swapping 'o | Inside 'o 'l nat

type_synonym ('o, 'l, 'd) lock_state = "ulong \<times> (nat \<Rightarrow> ('o, 'l) lock_pc) \<times> 'd \<times> ('o \<times> 'l) list"

inductive lock_step :: "('o \<Rightarrow> ('l \<times> 'd \<Rightarrow> 'l \<times> 'd) list) \<Rightarrow> ('o \<Rightarrow> 'l) \<Rightarrow> ('o \<Rightarrow> bool) \<Rightarrow>
    ('o, 'l, 'd) lock_state \<Rightarrow> ('o, 'l, 'd) lock_state \<Rightarrow> bool" for prog l0 legal where
  call: "pc h = Outside \<Longrightarrow> legal x \<Longrightarrow>
    lock_step prog l0 legal (lock, pc, d, log) (lock, pc(h := Checking x), d, log)"
| check: "pc h = Checking x \<Longrightarrow>
    lock_step prog l0 legal (lock, pc, d, log) (lock, pc(h := if spin_lock_check lock \<noteq> 0 then Checking x else Swapping x), d, log)"
| swap: "pc h = Swapping x \<Longrightarrow> spin_trylock lock = (r, lock') \<Longrightarrow>
    lock_step prog l0 legal (lock, pc, d, log) (lock', pc(h := if r \<noteq> 0 then Inside x (l0 x) 0 else Checking x), d, log)"
| access: "pc h = Inside x l k \<Longrightarrow> k < length (prog x) \<Longrightarrow> (prog x ! k) (l, d) = (l', d') \<Longrightarrow>
    lock_step prog l0 legal (lock, pc, d, log) (lock, pc(h := Inside x l' (k + 1)), d', log)"
| release: "pc h = Inside x l (length (prog x)) \<Longrightarrow>
    lock_step prog l0 legal (lock, pc, d, log) (spin_unlock lock, pc(h := Outside), d, log @ [(x, l)])"

inductive_cases lock_stepE: "lock_step prog l0 legal (lock, pc, d, log) s'"

text \<open>The sections one after the other, each on the data the one before left, with the local states they ended in.\<close>

fun serially :: "('o \<Rightarrow> ('l \<times> 'd \<Rightarrow> 'l \<times> 'd) list) \<Rightarrow> ('o \<Rightarrow> 'l) \<Rightarrow> ('o \<times> 'l) list \<Rightarrow> 'd \<Rightarrow> 'd \<Rightarrow> bool" where
  "serially prog l0 [] d d' \<longleftrightarrow> d = d'"
| "serially prog l0 ((x, l) # log) d d' \<longleftrightarrow>
     (\<exists>d1. fold (\<lambda>f. f) (prog x) (l0 x, d) = (l, d1) \<and> serially prog l0 log d1 d')"

definition inside :: "('o, 'l) lock_pc \<Rightarrow> bool" where
  "inside p \<longleftrightarrow> (case p of Inside _ _ _ \<Rightarrow> True | _ \<Rightarrow> False)"

text \<open>The hart \<open>h\<close> alone is inside, and the data are those of the log with the accesses it has made.\<close>

definition holder :: "('o \<Rightarrow> ('l \<times> 'd \<Rightarrow> 'l \<times> 'd) list) \<Rightarrow> ('o \<Rightarrow> 'l) \<Rightarrow> ('o \<Rightarrow> bool) \<Rightarrow> 'd \<Rightarrow>
    (nat \<Rightarrow> ('o, 'l) lock_pc) \<Rightarrow> 'd \<Rightarrow> ('o \<times> 'l) list \<Rightarrow> nat \<Rightarrow> 'o \<Rightarrow> 'l \<Rightarrow> nat \<Rightarrow> bool" where
  "holder prog l0 legal d0 pc d log h x l k \<longleftrightarrow>
     pc h = Inside x l k \<and> legal x \<and> (\<forall>h'. inside (pc h') \<longrightarrow> h' = h) \<and> k \<le> length (prog x) \<and>
     (\<exists>d1. serially prog l0 log d0 d1 \<and> fold (\<lambda>f. f) (take k (prog x)) (l0 x, d1) = (l, d))"

definition lock_inv :: "('o \<Rightarrow> ('l \<times> 'd \<Rightarrow> 'l \<times> 'd) list) \<Rightarrow> ('o \<Rightarrow> 'l) \<Rightarrow> ('o \<Rightarrow> bool) \<Rightarrow> 'd \<Rightarrow> ('o, 'l, 'd) lock_state \<Rightarrow> bool" where
  "lock_inv prog l0 legal d0 = (\<lambda>(lock, pc, d, log).
     list_all (\<lambda>(x, l). legal x) log \<and>
     (\<forall>h x. pc h = Checking x \<or> pc h = Swapping x \<longrightarrow> legal x) \<and>
     (if lock = 0 then (\<forall>h. \<not> inside (pc h)) \<and> serially prog l0 log d0 d
      else lock = 1 \<and> (\<exists>h x l k. holder prog l0 legal d0 pc d log h x l k)))"

lemma inside_simps [simp]: "inside (Inside x l k)" "\<not> inside Outside" "\<not> inside (Checking x)" "\<not> inside (Swapping x)"
  by (simp_all add: inside_def)

lemma spin_word [simp]:
  "spin_lock_check 0 = 0" "spin_lock_check 1 = 1" "spin_trylock 0 = (1, 1)" "spin_trylock 1 = (0, 1)" "spin_unlock w = 0"
  by (simp_all add: spin_lock_check_def spin_trylock_def spin_unlock_def)

lemma serially_snoc:
  "serially prog l0 log d d1 \<Longrightarrow> fold (\<lambda>f. f) (prog x) (l0 x, d1) = (l, d') \<Longrightarrow> serially prog l0 (log @ [(x, l)]) d d'"
  by (induction prog l0 log d d1 rule: serially.induct) auto

text \<open>A hart that stays outside changes nothing.\<close>

lemma lock_inv_outside:
  assumes "lock_inv prog l0 legal d0 (lock, pc, d, log)" "\<not> inside (pc h)" "\<not> inside p"
    "\<And>x. p = Checking x \<or> p = Swapping x \<Longrightarrow> legal x"
  shows "lock_inv prog l0 legal d0 (lock, pc(h := p), d, log)"
proof (cases "lock = 0")
  case False
  then obtain h' x l k where "holder prog l0 legal d0 pc d log h' x l k" using assms(1) by (auto simp: lock_inv_def)
  then have "holder prog l0 legal d0 (pc(h := p)) d log h' x l k" using assms(2,3) by (auto simp: holder_def)
  then show ?thesis using assms False unfolding lock_inv_def by auto
qed (use assms in \<open>auto simp: lock_inv_def\<close>)

lemma lock_inv_legal: "lock_inv prog l0 legal d0 (lock, pc, d, log) \<Longrightarrow> pc h = Checking x \<or> pc h = Swapping x \<Longrightarrow> legal x"
  unfolding lock_inv_def by blast

text \<open>A hart inside is the holder.\<close>

lemma lock_inv_inside:
  assumes "lock_inv prog l0 legal d0 (lock, pc, d, log)" "pc h = Inside x l k"
  shows "lock = 1" "holder prog l0 legal d0 pc d log h x l k" "list_all (\<lambda>(x, l). legal x) log"
    "\<And>h x. pc h = Checking x \<or> pc h = Swapping x \<Longrightarrow> legal x"
  using assms by (auto simp: lock_inv_def holder_def split: if_splits) (metis inside_simps(1) lock_pc.inject(3))+

lemma lock_inv_step:
  assumes "lock_step prog l0 legal s s'" "lock_inv prog l0 legal d0 s"
  shows "lock_inv prog l0 legal d0 s'"
  using assms
proof (induction rule: lock_step.induct)
  case (call pc h x lock d log)
  then show ?case by (intro lock_inv_outside) auto
next
  case (check pc h x lock d log)
  then show ?case using lock_inv_legal [OF check.prems] by (intro lock_inv_outside) (auto split: if_splits)
next
  case (swap pc h x lock r lock' d log)
  show ?case
  proof (cases "lock = 0")
    case True
    then have "holder prog l0 legal d0 (pc(h := Inside x (l0 x) 0)) d log h x (l0 x) 0"
      using swap lock_inv_legal [OF swap.prems] by (auto simp: holder_def lock_inv_def)
    then show ?thesis using swap True by (auto simp: lock_inv_def)
  next
    case False
    then have "lock = 1" using swap.prems by (simp add: lock_inv_def)
    then show ?thesis using swap lock_inv_legal [OF swap.prems] by (auto intro!: lock_inv_outside)
  qed
next
  case (access pc h x l k d l' d' lock log)
  note i = lock_inv_inside [OF access.prems access.hyps(1)]
  have "holder prog l0 legal d0 (pc(h := Inside x l' (k + 1))) d' log h x l' (k + 1)"
    using i(2) access.hyps by (auto simp: holder_def take_Suc_conv_app_nth)
  then show ?case using i by (auto simp: lock_inv_def)
next
  case (release pc h x l lock d log)
  note i = lock_inv_inside [OF release.prems release.hyps(1)]
  then show ?case by (auto simp: lock_inv_def holder_def intro: serially_snoc)
qed

lemma lock_inv_reach:
  assumes "(lock_step prog l0 legal)\<^sup>*\<^sup>* (0, \<lambda>_. Outside, d0, []) s"
  shows "lock_inv prog l0 legal d0 s"
  using assms
proof (induction rule: rtranclp_induct)
  case base
  show ?case by (simp add: lock_inv_def)
next
  case (step s s')
  then show ?case by (blast intro: lock_inv_step)
qed

lemma lock_serialises:
  assumes "(lock_step prog l0 legal)\<^sup>*\<^sup>* (0, \<lambda>_. Outside, d0, []) (lock, pc, d, log)"
  shows "inside (pc h) \<Longrightarrow> inside (pc h') \<Longrightarrow> h = h'"
    and "(\<And>h. \<not> inside (pc h)) \<Longrightarrow> serially prog l0 log d0 d" and "list_all (\<lambda>(x, l). legal x) log"
  using lock_inv_reach [OF assms] by (auto simp: lock_inv_def holder_def split: if_splits) (metis inside_simps(1))+

text \<open>A call that finds the lock free, and is not disturbed, takes it, runs its section and releases it.\<close>

lemma lock_accesses:
  assumes "k \<le> length (prog x)" "fold (\<lambda>f. f) (take k (prog x)) (l, d) = (l', d')"
  shows "(lock_step prog l0 legal)\<^sup>*\<^sup>* (lock, pc(h := Inside x l 0), d, log) (lock, pc(h := Inside x l' k), d', log)"
  using assms
proof (induction k arbitrary: l' d')
  case (Suc k)
  obtain l1 d1 where m: "fold (\<lambda>f. f) (take k (prog x)) (l, d) = (l1, d1)" by fastforce
  then have "(prog x ! k) (l1, d1) = (l', d')" using Suc.prems by (simp add: take_Suc_conv_app_nth)
  then have "lock_step prog l0 legal (lock, pc(h := Inside x l1 k), d1, log) (lock, pc(h := Inside x l' (Suc k)), d', log)"
    using lock_step.access [of "pc(h := Inside x l1 k)" h x l1 k prog d1 l' d'] Suc.prems(1) by simp
  with Suc.IH [OF _ m] Suc.prems(1) show ?case by (meson Suc_leD rtranclp.rtrancl_into_rtrancl)
qed simp

lemma lock_free_call:
  assumes "pc h = Outside" "legal x" "fold (\<lambda>f. f) (prog x) (l0 x, d) = (l, d')"
  shows "(lock_step prog l0 legal)\<^sup>*\<^sup>* (0, pc, d, log) (0, pc, d', log @ [(x, l)])"
proof -
  let ?R = "lock_step prog l0 legal"
  have "?R (0, pc, d, log) (0, pc(h := Checking x), d, log)" using assms(1,2) by (rule lock_step.call)
  moreover have "?R (0, pc(h := Checking x), d, log) (0, pc(h := Swapping x), d, log)"
    using lock_step.check [of "pc(h := Checking x)" h x prog l0 legal 0] by simp
  moreover have "?R (0, pc(h := Swapping x), d, log) (1, pc(h := Inside x (l0 x) 0), d, log)"
    using lock_step.swap [of "pc(h := Swapping x)" h x 0 1 1 prog l0 legal] by simp
  moreover have "?R\<^sup>*\<^sup>* (1, pc(h := Inside x (l0 x) 0), d, log) (1, pc(h := Inside x l (length (prog x))), d', log)"
    using assms(3) by (intro lock_accesses) simp_all
  moreover have "?R (1, pc(h := Inside x l (length (prog x))), d', log) (0, pc, d', log @ [(x, l)])"
    using lock_step.release [of "pc(h := Inside x l (length (prog x)))" h x l prog l0 legal 1] assms(1) by (simp add: fun_upd_idem)
  ultimately show ?thesis by (meson converse_rtranclp_into_rtranclp rtranclp.rtrancl_into_rtrancl)
qed

section \<open>The ring buffer under its lock\<close>

text \<open>The two operations that the TLB code uses, with the caller's buffer. The local state of a call is its result, the
  buffer and the byte offset of the entry it works on.\<close>

datatype fifo_op = Enq "u8 list" | Deq "u8 list"

record fifo_local =
  l_rc :: int
  l_buf :: "u8 list"
  l_off :: nat

definition fifo_l0 :: "fifo_op \<Rightarrow> fifo_local" where
  "fifo_l0 x = \<lparr>l_rc = 0, l_buf = (case x of Enq b \<Rightarrow> b | Deq b \<Rightarrow> b), l_off = 0\<rparr>"

definition when_ok :: "(fifo_local \<times> sbi_fifo \<Rightarrow> fifo_local \<times> sbi_fifo) \<Rightarrow> fifo_local \<times> sbi_fifo \<Rightarrow> fifo_local \<times> sbi_fifo" where
  "when_ok g p = (if l_rc (fst p) = 0 then g p else p)"

text \<open>The accesses of \<open>sbi_fifo_enqueue\<close> between lock and unlock: the test for a full ring, the computation of the head,
  the copy byte by byte, and the new fill count.\<close>

definition enq_accesses :: "nat \<Rightarrow> (fifo_local \<times> sbi_fifo \<Rightarrow> fifo_local \<times> sbi_fifo) list" where
  "enq_accesses n =
     [\<lambda>(l, f). (if u_sbi_fifo_is_full f then l\<lparr>l_rc := SBI_ENOSPC\<rparr> else l, f),
      when_ok (\<lambda>(l, f).
        (let head = (ucast (tail f) + ucast (avail f) :: u32);
             head = (if ucast (num_entries f) \<le> head then head - ucast (num_entries f) else head)
         in (l\<lparr>l_off := unat (head * ucast (entry_size f))\<rparr>, f)))] @
     map (\<lambda>i. when_ok (\<lambda>(l, f). (l, f\<lparr>queue := (queue f)[l_off l + i := l_buf l ! i]\<rparr>))) [0..<n] @
     [when_ok (\<lambda>(l, f). (l, f\<lparr>avail := avail f + 1\<rparr>))]"

text \<open>And of \<open>sbi_fifo_dequeue\<close>: the test for an empty ring, the copy byte by byte, the new fill count, the new tail and
  its wrap.\<close>

definition deq_accesses :: "nat \<Rightarrow> (fifo_local \<times> sbi_fifo \<Rightarrow> fifo_local \<times> sbi_fifo) list" where
  "deq_accesses n =
     [\<lambda>(l, f). (if u_sbi_fifo_is_empty f then l\<lparr>l_rc := SBI_ENOENT\<rparr> else l, f),
      when_ok (\<lambda>(l, f). (l\<lparr>l_off := unat (ucast (tail f) * ucast (entry_size f) :: u32)\<rparr>, f))] @
     map (\<lambda>i. when_ok (\<lambda>(l, f). (l\<lparr>l_buf := (l_buf l)[i := queue f ! (l_off l + i)]\<rparr>, f))) [0..<n] @
     [when_ok (\<lambda>(l, f). (l, f\<lparr>avail := avail f - 1\<rparr>)),
      when_ok (\<lambda>(l, f). (l, f\<lparr>tail := tail f + 1\<rparr>)),
      when_ok (\<lambda>(l, f). (l, if num_entries f \<le> tail f then f\<lparr>tail := 0\<rparr> else f))]"

definition fifo_accesses :: "fifo_op \<Rightarrow> (fifo_local \<times> sbi_fifo \<Rightarrow> fifo_local \<times> sbi_fifo) list" where
  "fifo_accesses x = (case x of Enq b \<Rightarrow> enq_accesses (length b) | Deq b \<Rightarrow> deq_accesses (length b))"

text \<open>The queue that the harts are promised.\<close>

fun queue_op :: "nat \<Rightarrow> fifo_op \<Rightarrow> u8 list list \<Rightarrow> (int \<times> u8 list) \<times> u8 list list" where
  "queue_op n (Enq b) q = (if length q < n then ((0, b), q @ [b]) else ((SBI_ENOSPC, b), q))"
| "queue_op n (Deq b) [] = ((SBI_ENOENT, b), [])"
| "queue_op n (Deq b) (y # q) = ((0, y), q)"

fun queue_history :: "nat \<Rightarrow> (fifo_op \<times> fifo_local) list \<Rightarrow> u8 list list \<Rightarrow> u8 list list \<Rightarrow> bool" where
  "queue_history n [] q q' \<longleftrightarrow> q = q'"
| "queue_history n ((x, l) # log) q q' \<longleftrightarrow>
     (l_rc l, l_buf l) = fst (queue_op n x q) \<and> queue_history n log (snd (queue_op n x q)) q'"

text \<open>Byte by byte, the accesses do what the whole operations do.\<close>

lemma memcpy_steps: "sbi_memcpy dest d src s n = Some dest' \<Longrightarrow> fold (\<lambda>i q. q[d + i := src ! (s + i)]) [0..<n] dest = dest'"
proof (induction n arbitrary: dest d s)
  case (Suc n)
  have "fold (\<lambda>i q. q[d + i := src ! (s + i)]) [0..<Suc n] dest =
      fold (\<lambda>i q. q[Suc d + i := src ! (Suc s + i)]) [0..<n] (dest[d := src ! s])"
    by (simp add: upt_conv_Cons map_Suc_upt [symmetric] fold_map comp_def del: upt_Suc)
  moreover have "sbi_memcpy (dest[d := src ! s]) (Suc d) src (Suc s) n = Some dest'"
    using Suc.prems by (auto simp: acc_simps Option.bind_eq_Some_conv)
  ultimately show ?case using Suc.IH [of "dest[d := src ! s]" "Suc d" "Suc s"] by simp
qed simp

lemma when_ok_pair [simp]: "when_ok g (l, f) = (if l_rc l = 0 then g (l, f) else (l, f))"
  by (simp add: when_ok_def)

lemma skip_bytes: "l_rc l \<noteq> 0 \<Longrightarrow> fold (\<lambda>g. g) (map (\<lambda>i. when_ok (g i)) is) (l, f) = (l, f)"
  by (induction "is") simp_all

lemma enq_bytes:
  "l_rc l = 0 \<Longrightarrow>
   fold (\<lambda>g. g) (map (\<lambda>i. when_ok (\<lambda>(l, f). (l, f\<lparr>queue := (queue f)[l_off l + i := l_buf l ! i]\<rparr>))) is) (l, f) =
     (l, f\<lparr>queue := fold (\<lambda>i q. q[l_off l + i := l_buf l ! i]) is (queue f)\<rparr>)"
  by (induction "is" arbitrary: f) simp_all

lemma deq_bytes:
  "l_rc l = 0 \<Longrightarrow>
   fold (\<lambda>g. g) (map (\<lambda>i. when_ok (\<lambda>(l, f). (l\<lparr>l_buf := (l_buf l)[i := queue f ! (l_off l + i)]\<rparr>, f))) is) (l, f) =
     (l\<lparr>l_buf := fold (\<lambda>i b. b[i := queue f ! (l_off l + i)]) is (l_buf l)\<rparr>, f)"
  by (induction "is" arbitrary: l) simp_all

lemma enq_section:
  assumes "length b = unat (entry_size f)" "sbi_fifo_enqueue (Some b) (Some f) = Some (r, Some f')"
  shows "\<exists>off. fold (\<lambda>g. g) (fifo_accesses (Enq b)) (fifo_l0 (Enq b), f) = (\<lparr>l_rc = r, l_buf = b, l_off = off\<rparr>, f')"
proof (cases "u_sbi_fifo_is_full f")
  case True
  then show ?thesis using assms
    by (simp add: fifo_accesses_def enq_accesses_def fifo_l0_def sbi_fifo_enqueue_def skip_bytes)
next
  case False
  define off where "off = unat ((let head = (ucast (tail f) + ucast (avail f) :: u32) in
      if ucast (num_entries f) \<le> head then head - ucast (num_entries f) else head) * ucast (entry_size f))"
  from assms False obtain q where q: "sbi_memcpy (queue f) off b 0 (unat (entry_size f)) = Some q" "r = 0"
      "f' = f\<lparr>queue := q, avail := avail f + 1\<rparr>"
    by (auto simp: sbi_fifo_enqueue_def u_sbi_fifo_enqueue_def Let_def off_def Option.bind_eq_Some_conv)
  from memcpy_steps [OF q(1)] show ?thesis using False assms(1) q
    by (simp add: fifo_accesses_def enq_accesses_def fifo_l0_def enq_bytes Let_def off_def)
qed

lemma deq_section:
  assumes "length b = unat (entry_size f)" "sbi_fifo_dequeue (Some b) (Some f) = Some (r, Some f', Some b')"
  shows "\<exists>off. fold (\<lambda>g. g) (fifo_accesses (Deq b)) (fifo_l0 (Deq b), f) = (\<lparr>l_rc = r, l_buf = b', l_off = off\<rparr>, f')"
proof (cases "u_sbi_fifo_is_empty f")
  case True
  then show ?thesis using assms
    by (simp add: fifo_accesses_def deq_accesses_def fifo_l0_def sbi_fifo_dequeue_def skip_bytes)
next
  case False
  define off where "off = unat (ucast (tail f) * ucast (entry_size f) :: u32)"
  from assms False have q: "sbi_memcpy b 0 (queue f) off (unat (entry_size f)) = Some b'" "r = 0"
      "f' = f\<lparr>avail := avail f - 1, tail := (if num_entries f \<le> tail f + 1 then 0 else tail f + 1)\<rparr>"
    by (auto simp: sbi_fifo_dequeue_def Let_def off_def Option.bind_eq_Some_conv)
  from memcpy_steps [OF q(1)] show ?thesis using False assms(1) q
    by (simp add: fifo_accesses_def deq_accesses_def fifo_l0_def deq_bytes off_def)
qed

lemma fifo_section:
  assumes "fifo_inv f" "length (case x of Enq b \<Rightarrow> b | Deq b \<Rightarrow> b) = unat (entry_size f)"
  shows "\<exists>l f'. fold (\<lambda>g. g) (fifo_accesses x) (fifo_l0 x, f) = (l, f') \<and> fifo_inv f' \<and> num_entries f' = num_entries f \<and>
    entry_size f' = entry_size f \<and> ((l_rc l, l_buf l), fifo_items f') = queue_op (unat (num_entries f)) x (fifo_items f)"
proof (cases x)
  case (Enq b)
  have "\<exists>r f'. sbi_fifo_enqueue (Some b) (Some f) = Some (r, Some f') \<and> fifo_inv f' \<and> num_entries f' = num_entries f \<and>
      entry_size f' = entry_size f \<and> ((r, b), fifo_items f') = queue_op (unat (num_entries f)) x (fifo_items f)"
    using enqueue_room [OF assms(1), of b] assms Enq fifo_invD(3) [OF assms(1)]
    by (cases "avail f = num_entries f")
       (auto simp: sbi_fifo_enqueue_def u_sbi_fifo_is_full_def length_fifo_items word_unat_eq_iff)
  then show ?thesis using enq_section [of b f] assms(2) Enq by fastforce
next
  case (Deq b)
  have "\<exists>r f' b'. sbi_fifo_dequeue (Some b) (Some f) = Some (r, Some f', Some b') \<and> fifo_inv f' \<and> num_entries f' = num_entries f \<and>
      entry_size f' = entry_size f \<and> ((r, b'), fifo_items f') = queue_op (unat (num_entries f)) x (fifo_items f)"
    using dequeue_item [OF assms(1), of b] rb.deq_none [of "Some f" b] assms Deq
    by (cases "fifo_items f") (auto simp: q_defs)
  then show ?thesis using deq_section [of b f] assms(2) Deq by fastforce
qed

lemma serially_history:
  assumes "fifo_inv f" "list_all (\<lambda>(x, l). length (case x of Enq b \<Rightarrow> b | Deq b \<Rightarrow> b) = unat (entry_size f)) log"
    "serially fifo_accesses fifo_l0 log f f'"
  shows "fifo_inv f' \<and> queue_history (unat (num_entries f)) log (fifo_items f) (fifo_items f')"
  using assms
proof (induction log arbitrary: f)
  case (Cons p log)
  obtain x l where p: "p = (x, l)" by fastforce
  from Cons.prems p obtain f1 where f1: "fold (\<lambda>g. g) (fifo_accesses x) (fifo_l0 x, f) = (l, f1)"
    "serially fifo_accesses fifo_l0 log f1 f'" by auto
  with fifo_section [OF Cons.prems(1), of x] Cons.prems p have
    "fifo_inv f1" "num_entries f1 = num_entries f" "entry_size f1 = entry_size f"
    "((l_rc l, l_buf l), fifo_items f1) = queue_op (unat (num_entries f)) x (fifo_items f)" by auto
  with Cons.IH [of f1] Cons.prems(2) f1(2) p show ?case by (cases "queue_op (unat (num_entries f)) x (fifo_items f)") auto
qed simp

text \<open>C4: The ring buffer under its spin lock, used by any number of harts whose single accesses interleave in any order, is
  a queue.  At most one hart is inside a critical section; and whenever none is, the ring satisfies its invariant and all calls
  completed so far, in the order in which they released the lock, returned what a bounded first-in first-out queue returns
  (0 and the entry, \<open>SBI_ENOSPC\<close> when it is full, \<open>SBI_ENOENT\<close> when it is empty) and left its contents in the ring.\<close>

theorem fifo_linearizable:
  assumes "fifo_inv f0"
    "(lock_step fifo_accesses fifo_l0 (\<lambda>x. length (case x of Enq b \<Rightarrow> b | Deq b \<Rightarrow> b) = unat (entry_size f0)))\<^sup>*\<^sup>*
       (0, \<lambda>_. Outside, f0, []) (lock, pc, f, log)"
  shows "(\<forall>h h'. inside (pc h) \<longrightarrow> inside (pc h') \<longrightarrow> h = h') \<and>
    ((\<forall>h. \<not> inside (pc h)) \<longrightarrow>
       fifo_inv f \<and> queue_history (unat (num_entries f0)) log (fifo_items f0) (fifo_items f))"
proof (intro conjI allI impI)
  fix h h' assume "inside (pc h)" "inside (pc h')"
  then show "h = h'" by (rule lock_serialises(1) [OF assms(2)])
next
  assume "\<forall>h. \<not> inside (pc h)"
  then have "serially fifo_accesses fifo_l0 log f0 f" by (intro lock_serialises(2) [OF assms(2)]) simp
  from serially_history [OF assms(1) lock_serialises(3) [OF assms(2)] this]
  show "fifo_inv f" "queue_history (unat (num_entries f0)) log (fifo_items f0) (fifo_items f)" by simp_all
qed

definition demo_ring :: sbi_fifo where
  "demo_ring = \<lparr>queue = [0, 0], entry_size = 1, num_entries = 2, avail = 0, tail = 1\<rparr>"

theorem fifo_linearizable_witness:
  "\<exists>f l. (lock_step fifo_accesses fifo_l0 (\<lambda>x. length (case x of Enq b \<Rightarrow> b | Deq b \<Rightarrow> b) = unat (entry_size demo_ring)))\<^sup>*\<^sup>*
      (0, \<lambda>_. Outside, demo_ring, []) (0, \<lambda>_. Outside, f, [(Enq [7], l)]) \<and> l_rc l = 0 \<and> fifo_items f = [[7]]"
proof -
  let ?R = "lock_step fifo_accesses fifo_l0 (\<lambda>x. length (case x of Enq b \<Rightarrow> b | Deq b \<Rightarrow> b) = unat (entry_size demo_ring))"
  have inv: "fifo_inv demo_ring" "fifo_items demo_ring = []" by (simp_all add: demo_ring_def fifo_inv_def fifo_items_def)
  obtain l f where "fold (\<lambda>g. g) (fifo_accesses (Enq [7])) (fifo_l0 (Enq [7]), demo_ring) = (l, f)" by fastforce
  then have run: "?R\<^sup>*\<^sup>* (0, \<lambda>_. Outside, demo_ring, []) (0, \<lambda>_. Outside, f, [] @ [(Enq [7], l)])"
    by (intro lock_free_call [of "\<lambda>_. Outside" 0]) (simp_all add: demo_ring_def)
  from fifo_linearizable [OF inv(1) this] inv(2) run show ?thesis by (auto simp: demo_ring_def)
qed

end
