(* ===== verification/Sd_Boot.thy ===== *)
theory Sd_Boot
  imports Sbi_Machine
begin

text \<open>
  The first-stage boot loader in the boot ROM of the FPGA designs, \<^verbatim>\<open>fpga/src/main/resources/zcu102/sdboot\<close>: it talks to
  an SD card over SPI, loads the payload into memory, checks every sector by its CRC, and reports on the UART (\<^verbatim>\<open>sd.c\<close>,
  \<^verbatim>\<open>kprintf.c\<close>, \<^verbatim>\<open>kprintf.h\<close>). The sources for the other boards are the same.

  The program runs alone on one hart. Its state is what it has done to the SPI controller and what came back
  (a log of register writes and of the bytes sent and received), the characters written to the UART, and the memory. The hardware
  is an argument \<open>hw\<close>: what the receive register of the SPI controller shows at the \<open>k\<close>-th look after a given log, what
  the transmit register of the UART shows at the \<open>k\<close>-th attempt after a given output, and the clock rate.
  Nothing is assumed about it: the card may answer anything.

  Busy-wait loops have fuel \<open>N\<close>, and end in \<open>Spin\<close> when it is used up.
\<close>

section \<open>State and hardware\<close>

datatype spi_event = Sckdiv u32 | Csmode u32 | Tx u8 | Rx u8

record sd_hw =
  hw_rxfifo :: "spi_event list \<Rightarrow> nat \<Rightarrow> u32"
  hw_txfifo :: "u8 list \<Rightarrow> nat \<Rightarrow> u32"
  hw_clk :: ulong

record sd_sys =
  spi_log :: "spi_event list"
  uart_out :: "u8 list"
  uart_txctrl :: u32
  ram :: "ulong \<Rightarrow> u8"

type_synonym 'a sdM = "sd_sys \<Rightarrow> (sd_sys, 'a) outcome"

abbreviation (input) PAYLOAD_DEST :: ulong where "PAYLOAD_DEST \<equiv> 0x80000000"
abbreviation (input) PAYLOAD_SIZE_B :: nat where "PAYLOAD_SIZE_B \<equiv> 134217728"
abbreviation (input) SECTOR_SIZE_B :: nat where "SECTOR_SIZE_B \<equiv> 512"
abbreviation (input) BBL_PARTITION_START_SECTOR :: u32 where "BBL_PARTITION_START_SECTOR \<equiv> 34"
abbreviation (input) SPI_CSMODE_AUTO :: u32 where "SPI_CSMODE_AUTO \<equiv> 0"
abbreviation (input) SPI_CSMODE_HOLD :: u32 where "SPI_CSMODE_HOLD \<equiv> 2"
abbreviation (input) SPI_CSMODE_OFF :: u32 where "SPI_CSMODE_OFF \<equiv> 3"
abbreviation (input) UART_TXEN :: u32 where "UART_TXEN \<equiv> 1"

definition PAYLOAD_SIZE :: nat where "PAYLOAD_SIZE = PAYLOAD_SIZE_B div SECTOR_SIZE_B"

definition spi_event :: "spi_event \<Rightarrow> unit sdM" where
  "spi_event e = modM (\<lambda>s. s\<lparr>spi_log := spi_log s @ [e]\<rparr>)"

text \<open>String literals as bytes.\<close>

definition bs :: "string \<Rightarrow> u8 list" where
  "bs t = map (\<lambda>x. of_nat (of_char x)) t"

section \<open>Console\<close>

text \<open>The atomic or on the transmit register returns its old value, negative while the queue is full.\<close>

fun kputc_loop :: "sd_hw \<Rightarrow> u8 \<Rightarrow> nat \<Rightarrow> nat \<Rightarrow> unit sdM" where
  "kputc_loop hw c 0 k = haltM Spin"
| "kputc_loop hw c (Suc n) k =
     bindM (getM (\<lambda>s. hw_txfifo hw (uart_out s) k)) (\<lambda>r.
       if sint r < 0 then kputc_loop hw c n (k + 1)
       else modM (\<lambda>s. s\<lparr>uart_out := uart_out s @ [c]\<rparr>))"

definition kputc :: "sd_hw \<Rightarrow> nat \<Rightarrow> u8 \<Rightarrow> unit sdM" where
  "kputc hw N c = kputc_loop hw c N 0"

definition u_kputs :: "sd_hw \<Rightarrow> nat \<Rightarrow> u8 list \<Rightarrow> unit sdM" where
  "u_kputs hw N t = forM t (kputc hw N)"

definition kputs :: "sd_hw \<Rightarrow> nat \<Rightarrow> u8 list \<Rightarrow> unit sdM" where
  "kputs hw N t = seqM (u_kputs hw N t) (seqM (kputc hw N 13) (kputc hw N 10))"

text \<open>An argument of a formatted print: a word, or a string (without its terminator).\<close>

datatype karg = Kword ulong | Kstr "u8 list"

definition kdigit :: "ulong \<Rightarrow> u8" where
  "kdigit d = (if d < 10 then 48 + ucast d else 97 + ucast d - 10)"

definition kputx :: "sd_hw \<Rightarrow> nat \<Rightarrow> nat \<Rightarrow> ulong \<Rightarrow> unit sdM" where
  "kputx hw N k n = forM (rev [0..<k]) (\<lambda>j. kputc hw N (kdigit (drop_bit (4 * j) n AND 0xF)))"

fun kprintf_loop :: "sd_hw \<Rightarrow> nat \<Rightarrow> u8 list \<Rightarrow> karg list \<Rightarrow> bool \<Rightarrow> bool \<Rightarrow> bool \<Rightarrow> unit sdM" where
  "kprintf_loop hw N [] args is_format is_long is_char = retM ()"
| "kprintf_loop hw N (c # fmt) args is_format is_long is_char =
     (if is_format then
        if c = of_nat (of_char (CHR ''l'')) then kprintf_loop hw N fmt args True True is_char
        else if c = of_nat (of_char (CHR ''h'')) then kprintf_loop hw N fmt args True is_long True
        else if c = of_nat (of_char (CHR ''x'')) then
          (case args of
             Kword w # rest \<Rightarrow>
               seqM (if is_long then kputx hw N 16 w
                     else kputx hw N (if is_char then 2 else 8) (ucast (ucast w :: u32)))
                 (kprintf_loop hw N fmt rest False False False)
           | _ \<Rightarrow> haltM BadAccess)
        else if c = of_nat (of_char (CHR ''s'')) then
          (case args of
             Kstr t # rest \<Rightarrow> seqM (u_kputs hw N t) (kprintf_loop hw N fmt rest False False False)
           | _ \<Rightarrow> haltM BadAccess)
        else if c = of_nat (of_char (CHR ''c'')) then
          (case args of
             Kword w # rest \<Rightarrow> seqM (kputc hw N (ucast w)) (kprintf_loop hw N fmt rest False False False)
           | _ \<Rightarrow> haltM BadAccess)
        else kprintf_loop hw N fmt args False False False
      else if c = of_nat (of_char (CHR ''%'')) then kprintf_loop hw N fmt args True is_long is_char
      else seqM (kputc hw N c) (kprintf_loop hw N fmt args is_format is_long is_char))"

definition kprintf :: "sd_hw \<Rightarrow> nat \<Rightarrow> u8 list \<Rightarrow> karg list \<Rightarrow> unit sdM" where
  "kprintf hw N fmt args = kprintf_loop hw N fmt args False False False"

section \<open>SPI transfers and SD commands\<close>

fun rx_loop :: "sd_hw \<Rightarrow> nat \<Rightarrow> nat \<Rightarrow> u32 sdM" where
  "rx_loop hw 0 k = haltM Spin"
| "rx_loop hw (Suc n) k =
     bindM (getM (\<lambda>s. hw_rxfifo hw (spi_log s) k)) (\<lambda>r. if sint r < 0 then rx_loop hw n (k + 1) else retM r)"

definition spi_xfer :: "sd_hw \<Rightarrow> nat \<Rightarrow> u8 \<Rightarrow> u8 sdM" where
  "spi_xfer hw N d =
     seqM (spi_event (Tx d))
    (bindM (rx_loop hw N 0) (\<lambda>r. seqM (spi_event (Rx (ucast r))) (retM (ucast r))))"

definition sd_dummy :: "sd_hw \<Rightarrow> nat \<Rightarrow> u8 sdM" where
  "sd_dummy hw N = spi_xfer hw N 0xFF"

definition sd_skip :: "sd_hw \<Rightarrow> nat \<Rightarrow> unit sdM" where
  "sd_skip hw N = bindM (sd_dummy hw N) (\<lambda>_. retM ())"

definition sd_send :: "sd_hw \<Rightarrow> nat \<Rightarrow> u8 \<Rightarrow> unit sdM" where
  "sd_send hw N d = bindM (spi_xfer hw N d) (\<lambda>_. retM ())"

fun cmd_loop :: "sd_hw \<Rightarrow> nat \<Rightarrow> nat \<Rightarrow> u8 sdM" where
  "cmd_loop hw N n =
     bindM (sd_dummy hw N) (\<lambda>r.
       if r AND 0x80 = 0 then retM r
       else if n - 1 > 0 then cmd_loop hw N (n - 1)
       else seqM (kputs hw N (bs ''sd_cmd: timeout'')) (retM r))"

definition sd_cmd :: "sd_hw \<Rightarrow> nat \<Rightarrow> u8 \<Rightarrow> u32 \<Rightarrow> u8 \<Rightarrow> u8 sdM" where
  "sd_cmd hw N cmd arg crc =
     seqM (spi_event (Csmode SPI_CSMODE_HOLD))
    (seqM (sd_skip hw N)
    (seqM (sd_send hw N cmd)
    (seqM (sd_send hw N (ucast (drop_bit 24 arg)))
    (seqM (sd_send hw N (ucast (drop_bit 16 arg)))
    (seqM (sd_send hw N (ucast (drop_bit 8 arg)))
    (seqM (sd_send hw N (ucast arg))
    (seqM (sd_send hw N crc)
          (cmd_loop hw N 1000))))))))"

definition sd_cmd_end :: "sd_hw \<Rightarrow> nat \<Rightarrow> unit sdM" where
  "sd_cmd_end hw N = seqM (sd_skip hw N) (spi_event (Csmode SPI_CSMODE_AUTO))"

definition sd_poweron :: "sd_hw \<Rightarrow> nat \<Rightarrow> unit sdM" where
  "sd_poweron hw N =
     seqM (spi_event (Sckdiv (ucast (hw_clk hw div 300000))))
    (seqM (spi_event (Csmode SPI_CSMODE_OFF))
    (seqM (forM [0..<10] (\<lambda>_. sd_skip hw N))
          (spi_event (Csmode SPI_CSMODE_AUTO))))"

text \<open>A command whose response is compared; \<open>True\<close> is the error result.\<close>

definition sd_cmd0 :: "sd_hw \<Rightarrow> nat \<Rightarrow> bool sdM" where
  "sd_cmd0 hw N =
     seqM (kputs hw N (bs ''CMD0''))
    (bindM (sd_cmd hw N 0x40 0 0x95) (\<lambda>r.
     seqM (sd_cmd_end hw N) (retM (r \<noteq> 0x01))))"

definition sd_cmd8 :: "sd_hw \<Rightarrow> nat \<Rightarrow> bool sdM" where
  "sd_cmd8 hw N =
     seqM (kputs hw N (bs ''CMD8''))
    (bindM (sd_cmd hw N 0x48 0x000001AA 0x87) (\<lambda>r.
     seqM (sd_skip hw N)
    (seqM (sd_skip hw N)
    (bindM (sd_dummy hw N) (\<lambda>voltage.
     bindM (sd_dummy hw N) (\<lambda>pattern.
     seqM (sd_cmd_end hw N)
          (retM (r \<noteq> 0x01 \<or> voltage AND 0xF \<noteq> 0x1 \<or> pattern \<noteq> 0xAA))))))))"

definition sd_cmd55 :: "sd_hw \<Rightarrow> nat \<Rightarrow> unit sdM" where
  "sd_cmd55 hw N = bindM (sd_cmd hw N 0x77 0 0x65) (\<lambda>_. sd_cmd_end hw N)"

fun acmd41_loop :: "sd_hw \<Rightarrow> nat \<Rightarrow> nat \<Rightarrow> u8 sdM" where
  "acmd41_loop hw N 0 = haltM Spin"
| "acmd41_loop hw N (Suc n) =
     seqM (sd_cmd55 hw N)
    (bindM (sd_cmd hw N 0x69 0x40000000 0x77) (\<lambda>r. if r = 0x01 then acmd41_loop hw N n else retM r))"

definition sd_acmd41 :: "sd_hw \<Rightarrow> nat \<Rightarrow> bool sdM" where
  "sd_acmd41 hw N =
     seqM (kputs hw N (bs ''ACMD41'')) (bindM (acmd41_loop hw N N) (\<lambda>r. retM (r \<noteq> 0x00)))"

definition sd_cmd58 :: "sd_hw \<Rightarrow> nat \<Rightarrow> bool sdM" where
  "sd_cmd58 hw N =
     seqM (kputs hw N (bs ''CMD58''))
    (bindM (sd_cmd hw N 0x7A 0 0xFD) (\<lambda>r.
     bindM (sd_dummy hw N) (\<lambda>status.
     seqM (sd_skip hw N)
    (seqM (sd_skip hw N)
    (seqM (sd_skip hw N)
    (seqM (sd_cmd_end hw N)
          (retM (r \<noteq> 0x00 \<or> status AND 0x80 \<noteq> 0x80))))))))"

definition sd_cmd16 :: "sd_hw \<Rightarrow> nat \<Rightarrow> bool sdM" where
  "sd_cmd16 hw N =
     seqM (kputs hw N (bs ''CMD16''))
    (bindM (sd_cmd hw N 0x50 0x200 0x15) (\<lambda>r.
     seqM (sd_cmd_end hw N) (retM (r \<noteq> 0x00))))"

section \<open>Checksums\<close>

definition crc16_round :: "u16 \<Rightarrow> u8 \<Rightarrow> u16" where
  "crc16_round crc data =
     (let crc = ucast (ucast (drop_bit 8 crc) :: u8) OR push_bit 8 crc;
          crc = crc XOR ucast data;
          crc = crc XOR (ucast (ucast (drop_bit 4 crc) :: u8) AND 0xf);
          crc = crc XOR push_bit 12 crc
      in crc XOR push_bit 5 (crc AND 0xff))"

section \<open>Loading the payload\<close>

definition spinner :: "u8 list" where
  "spinner = [45, 47, 124, 92]"

fun token_loop :: "sd_hw \<Rightarrow> nat \<Rightarrow> nat \<Rightarrow> unit sdM" where
  "token_loop hw N 0 = haltM Spin"
| "token_loop hw N (Suc n) = bindM (sd_dummy hw N) (\<lambda>x. if x \<noteq> 0xFE then token_loop hw N n else retM ())"

text \<open>The bytes of a sector: each is stored at \<open>p\<close> and enters the checksum.\<close>

fun sector_loop :: "sd_hw \<Rightarrow> nat \<Rightarrow> nat \<Rightarrow> ulong \<Rightarrow> u16 \<Rightarrow> u16 sdM" where
  "sector_loop hw N 0 p crc = retM crc"
| "sector_loop hw N (Suc n) p crc =
     bindM (sd_dummy hw N) (\<lambda>x.
     seqM (modM (\<lambda>s. s\<lparr>ram := (ram s)(p := x)\<rparr>))
          (sector_loop hw N n (p + 1) (crc16_round crc x)))"

fun copy_loop :: "sd_hw \<Rightarrow> nat \<Rightarrow> nat \<Rightarrow> ulong \<Rightarrow> bool sdM" where
  "copy_loop hw N 0 p = retM False"
| "copy_loop hw N (Suc i) p =
     seqM (token_loop hw N N)
    (bindM (sector_loop hw N SECTOR_SIZE_B p 0) (\<lambda>crc.
     bindM (sd_dummy hw N) (\<lambda>c1.
     bindM (sd_dummy hw N) (\<lambda>c0.
       if crc \<noteq> (push_bit 8 (ucast c1) OR ucast c0)
       then seqM (kputs hw N (8 # bs ''- CRC mismatch '')) (retM True)
       else
         seqM (whenM (Suc i mod 64 = 0)
                 (seqM (kputc hw N 8)
                       (bindM (liftO (rd spinner (Suc i div 64 mod 4))) (kputc hw N))))
              (copy_loop hw N i (p + 512))))))"

definition copy :: "sd_hw \<Rightarrow> nat \<Rightarrow> bool sdM" where
  "copy hw N =
     seqM (kputs hw N (bs ''CMD18''))
    (seqM (kprintf hw N (bs ''LOADING 0x%xB PAYLOAD'' @ [13, 10]) [Kword (of_nat PAYLOAD_SIZE_B)])
    (seqM (kprintf hw N (bs ''LOADING  '') [])
    (seqM (spi_event (Sckdiv (ucast (hw_clk hw div 5000000))))
    (bindM (sd_cmd hw N 0x52 BBL_PARTITION_START_SECTOR 0xE1) (\<lambda>r.
       if r \<noteq> 0x00 then seqM (sd_cmd_end hw N) (retM True)
       else
         bindM (copy_loop hw N PAYLOAD_SIZE PAYLOAD_DEST) (\<lambda>rc.
         seqM (sd_cmd_end hw N)
        (bindM (sd_cmd hw N 0x4C 0 0x01) (\<lambda>_.
         seqM (sd_cmd_end hw N)
        (seqM (kputs hw N (8 # bs '' ''))
              (retM rc))))))))))"

text \<open>The alternatives of the condition in \<open>main\<close>, each tried only when those before succeeded.\<close>

primrec first_failure :: "bool sdM list \<Rightarrow> bool sdM" where
  "first_failure [] = retM False"
| "first_failure (m # ms) = bindM m (\<lambda>failed. if failed then retM True else first_failure ms)"

definition sd_main :: "sd_hw \<Rightarrow> nat \<Rightarrow> int sdM" where
  "sd_main hw N =
     seqM (modM (\<lambda>s. s\<lparr>uart_txctrl := UART_TXEN\<rparr>))
    (seqM (kputs hw N (bs ''INIT''))
    (seqM (sd_poweron hw N)
    (bindM (first_failure [sd_cmd0 hw N, sd_cmd8 hw N, sd_acmd41 hw N, sd_cmd58 hw N, sd_cmd16 hw N, copy hw N]) (\<lambda>failed.
       if failed then seqM (kputs hw N (bs ''ERROR'')) (retM 1)
       else seqM (kputs hw N (bs ''BOOT'')) (retM 0)))))"

declare cmd_loop.simps [simp del]

section \<open>The checksum is the CCITT one\<close>

text \<open>One bit of the division by $x^{16} + x^{12} + x^5 + 1$, and a byte at a time from its top bit.\<close>

definition crc_bit :: "u16 \<Rightarrow> u16" where
  "crc_bit c = (if bit c 15 then push_bit 1 c XOR 0x1021 else push_bit 1 c)"

definition crc_ref :: "u16 \<Rightarrow> u8 \<Rightarrow> u16" where
  "crc_ref c data = (crc_bit ^^ 8) (c XOR push_bit 8 (ucast data))"

text \<open>Both are linear over exclusive or, so that it is enough to compare them on single bits.\<close>

definition additive :: "('a::len word \<Rightarrow> 'b::len word) \<Rightarrow> bool" where
  "additive f \<longleftrightarrow> (\<forall>x y. f (x XOR y) = f x XOR f y)"

lemma additive_zero: "additive f \<Longrightarrow> f 0 = 0"
  by (metis additive_def xor_self_eq)

lemma take_bit_Suc_xor: "take_bit (Suc k) (w :: 'a::len word) = take_bit k w XOR (if bit w k then push_bit k 1 else 0)"
  by (rule bit_word_eqI) (auto simp: bit_take_bit_iff bit_xor_iff bit_exp_iff less_Suc_eq)

lemma additive_eqI:
  fixes f g :: "'a::len word \<Rightarrow> 'b::len word"
  assumes "additive f" "additive g" "\<And>i. i < LENGTH('a) \<Longrightarrow> f (push_bit i 1) = g (push_bit i 1)"
  shows "f w = g w"
proof -
  have "k \<le> LENGTH('a) \<Longrightarrow> f (take_bit k w) = g (take_bit k w)" for k
  proof (induction k)
    case 0
    then show ?case using assms(1,2) by (simp add: additive_zero)
  next
    case (Suc k)
    have "f 0 = g 0" using assms(1,2) by (simp add: additive_zero)
    with Suc show ?case using assms by (auto simp: take_bit_Suc_xor additive_def)
  qed
  from this [of "LENGTH('a)"] show ?thesis by simp
qed

lemma additive_comp: "additive f \<Longrightarrow> additive g \<Longrightarrow> additive (\<lambda>x. f (g x))"
  by (simp add: additive_def)

lemma additive_funpow: "additive f \<Longrightarrow> additive (f ^^ n)" for f :: "u16 \<Rightarrow> u16"
  by (induction n) (simp_all add: additive_def)

lemma additive_crc_bit: "additive crc_bit"
  unfolding additive_def crc_bit_def
  by (auto simp: push_bit_xor bit_xor_iff xor.assoc xor.commute xor.left_commute)

definition crc_swap :: "u16 \<Rightarrow> u16" where
  "crc_swap c = ucast (ucast (drop_bit 8 c) :: u8) OR push_bit 8 c"

definition crc_mix :: "u16 \<Rightarrow> u16" where
  "crc_mix c =
     (let c = c XOR (ucast (ucast (drop_bit 4 c) :: u8) AND 0xf);
          c = c XOR push_bit 12 c
      in c XOR push_bit 5 (c AND 0xff))"

lemma crc16_round_parts: "crc16_round c x = crc_mix (crc_swap c XOR ucast x)"
  by (simp add: crc16_round_def crc_mix_def crc_swap_def)

lemma additive_ops:
  "additive (\<lambda>c :: u16. drop_bit n c)" "additive (\<lambda>c :: u16. push_bit n c)" "additive (\<lambda>c :: u16. c AND m)"
  "additive (\<lambda>c :: u16. ucast c :: u8)" "additive (\<lambda>c :: u8. ucast c :: u16)"
  by (simp_all add: additive_def push_bit_xor drop_bit_xor unsigned_xor_eq bit.conj_xor_distrib2)

lemma additive_xor: "additive f \<Longrightarrow> additive g \<Longrightarrow> additive (\<lambda>x. f x XOR g x)"
  by (simp add: additive_def xor.assoc xor.commute xor.left_commute)

lemma additive_id: "additive (\<lambda>x. x)"
  by (simp add: additive_def)

lemma additive_crc_mix: "additive crc_mix"
proof -
  let ?f = "\<lambda>c :: u16. c XOR (ucast (ucast (drop_bit 4 c) :: u8) AND 0xf)"
  let ?g = "\<lambda>c :: u16. c XOR push_bit 12 c"
  let ?h = "\<lambda>c :: u16. c XOR push_bit 5 (c AND 0xff)"
  have "additive ?f" "additive ?g" "additive ?h"
    by (intro additive_xor additive_id additive_comp [OF additive_ops(3)] additive_comp [OF additive_ops(5)]
        additive_comp [OF additive_ops(4)] additive_comp [OF additive_ops(2)] additive_ops)+
  from additive_comp [OF this(3) additive_comp [OF this(2,1)]] show ?thesis
    unfolding crc_mix_def [abs_def] Let_def .
qed

lemma bit_crc_swap: "n < 16 \<Longrightarrow> bit (crc_swap c) n \<longleftrightarrow> bit c (if n < 8 then n + 8 else n - 8)"
  by (simp add: crc_swap_def bit_or_iff bit_push_bit_iff bit_drop_bit_eq bit_ucast_iff ac_simps)

lemma additive_crc_swap: "additive crc_swap"
  unfolding additive_def by (intro allI bit_word_eqI) (simp add: bit_crc_swap bit_xor_iff)

lemma funpow_8: "(f ^^ 8) x = f (f (f (f (f (f (f (f x)))))))"
  by (simp add: eval_nat_numeral)

lemma crc_basis:
  "list_all (\<lambda>i. crc_mix (crc_swap (push_bit i 1)) = (crc_bit ^^ 8) (push_bit i 1)) [0..<16]"
  "list_all (\<lambda>i. crc_mix (ucast (push_bit i 1 :: u8)) = (crc_bit ^^ 8) (push_bit 8 (ucast (push_bit i 1 :: u8)))) [0..<8]"
  by (simp_all add: upt_rec crc_mix_def crc_swap_def crc_bit_def Let_def funpow_8)

lemma crc16_round_ref: "crc16_round c x = crc_ref c x"
proof -
  note R = additive_funpow [OF additive_crc_bit, of 8]
  have b1: "crc_mix (crc_swap (push_bit i 1)) = (crc_bit ^^ 8) (push_bit i 1)" if "i < LENGTH(16)" for i
    using bspec [OF crc_basis(1) [unfolded list_all_iff], of i] that by simp
  have 1: "crc_mix (crc_swap c) = (crc_bit ^^ 8) c"
    by (rule additive_eqI [of "\<lambda>c. crc_mix (crc_swap c)" "crc_bit ^^ 8" c,
        OF additive_comp [OF additive_crc_mix additive_crc_swap] R b1])
  have b2: "crc_mix (ucast (push_bit i 1 :: u8)) = (crc_bit ^^ 8) (push_bit 8 (ucast (push_bit i 1 :: u8)))" if "i < LENGTH(8)" for i
    using bspec [OF crc_basis(2) [unfolded list_all_iff], of i] that by simp
  have 2: "crc_mix (ucast x) = (crc_bit ^^ 8) (push_bit 8 (ucast x))"
    by (rule additive_eqI [of "\<lambda>x. crc_mix (ucast x)" "\<lambda>x. (crc_bit ^^ 8) (push_bit 8 (ucast x))" x,
        OF additive_comp [OF additive_crc_mix additive_ops(5)] additive_comp [OF R additive_comp [OF additive_ops(2,5)]] b2])
  show ?thesis
    using 1 2 R additive_crc_mix by (simp add: crc16_round_parts crc_ref_def additive_def)
qed

section \<open>What the checksum detects\<close>

definition crc16 :: "u8 list \<Rightarrow> u16" where
  "crc16 d = foldl crc16_round 0 d"

lemma crc_bit_inj: "crc_bit x = crc_bit y \<longleftrightarrow> x = y"
proof
  assume "crc_bit x = crc_bit y"
  then have "crc_bit (x XOR y) = 0" using additive_crc_bit by (simp add: additive_def)
  then have b: "\<not> bit (crc_bit (x XOR y)) n" for n by simp
  define z where "z = x XOR y"
  have 15: "\<not> bit z 15"
  proof
    assume "bit z 15"
    then have "\<not> bit (push_bit 1 z XOR 0x1021 :: u16) 0" using b [of 0] unfolding z_def [symmetric] crc_bit_def by simp
    moreover have "bit (0x1021 :: u16) 0" by simp
    ultimately show False unfolding bit_xor_iff bit_push_bit_iff by simp
  qed
  have "\<not> bit (x XOR y) n" for n
  proof (cases "n < 15")
    case True
    then have "\<not> bit (push_bit 1 z) (Suc n)" using b [of "Suc n"] 15 unfolding z_def [symmetric] crc_bit_def by (simp only: if_False not_False_eq_True)
    with True show ?thesis unfolding z_def [symmetric] bit_push_bit_iff by simp
  next
    case False
    then show ?thesis using 15 bit_imp_le_length [of "x XOR y" n] unfolding z_def by (cases "n = 15") auto
  qed
  then show "x = y" by (simp add: bit_eq_iff bit_xor_iff)
qed simp

lemma crc_bits_inj: "(crc_bit ^^ n) x = (crc_bit ^^ n) y \<longleftrightarrow> x = y"
  by (induction n) (simp_all add: crc_bit_inj)

lemma crc_low_byte: "(crc_bit ^^ 8) (ucast (x :: u8)) = push_bit 8 (ucast x)"
proof -
  have "list_all (\<lambda>i. (crc_bit ^^ 8) (ucast (push_bit i 1 :: u8)) = push_bit 8 (ucast (push_bit i 1 :: u8))) [0..<8]"
    by (simp add: upt_rec crc_bit_def funpow_8)
  then have b: "(crc_bit ^^ 8) (ucast (push_bit i 1 :: u8)) = push_bit 8 (ucast (push_bit i 1 :: u8))" if "i < LENGTH(8)" for i
    using that by (simp add: list_all_iff)
  show ?thesis
    by (rule additive_eqI [of "\<lambda>x. (crc_bit ^^ 8) (ucast x)" "\<lambda>x. push_bit 8 (ucast x)" x,
        OF additive_comp [OF additive_funpow [OF additive_crc_bit] additive_ops(5)]
          additive_comp [OF additive_ops(2,5)] b])
qed

text \<open>Two bytes enter the checksum like one 16-bit word.\<close>

lemma crc_two: "crc16_round (crc16_round c x1) x2 = (crc_bit ^^ 16) (c XOR (push_bit 8 (ucast x1) OR ucast x2))"
proof -
  have or: "push_bit 8 (ucast x1) OR ucast x2 = push_bit 8 (ucast x1) XOR (ucast x2 :: u16)"
    by (rule bit_word_eqI) (auto simp: bit_or_iff bit_xor_iff bit_push_bit_iff bit_ucast_iff dest: bit_imp_le_length)
  have add: "(crc_bit ^^ 8) (u XOR v) = (crc_bit ^^ 8) u XOR (crc_bit ^^ 8) v" for u v
    using additive_funpow [OF additive_crc_bit] by (simp add: additive_def)
  have "(crc_bit ^^ 16) w = (crc_bit ^^ 8) ((crc_bit ^^ 8) w)" for w
    using funpow_add [of 8 8 crc_bit] by simp
  then show ?thesis by (simp add: crc16_round_ref crc_ref_def or add crc_low_byte xor.assoc)
qed

lemma two_bytes_inj:
  "push_bit 8 (ucast x1) OR ucast x2 = (push_bit 8 (ucast y1) OR ucast y2 :: u16) \<longleftrightarrow> x1 = y1 \<and> x2 = y2" for x1 x2 y1 y2 :: u8
proof
  assume e: "push_bit 8 (ucast x1) OR ucast x2 = (push_bit 8 (ucast y1) OR ucast y2 :: u16)"
  have "bit x1 n = bit y1 n" if "n < 8" for n
    using arg_cong [OF e, of "\<lambda>w. bit w (n + 8)"] that by (auto simp: bit_or_iff bit_push_bit_iff bit_ucast_iff dest: bit_imp_le_length)
  moreover have "bit x2 n = bit y2 n" if "n < 8" for n
    using arg_cong [OF e, of "\<lambda>w. bit w n"] that by (auto simp: bit_or_iff bit_push_bit_iff bit_ucast_iff)
  ultimately show "x1 = y1 \<and> x2 = y2" by (auto intro!: bit_word_eqI)
qed simp

lemma xor_cancel: "a XOR c = b XOR c \<longleftrightarrow> a = (b :: u16)" "c XOR a = c XOR b \<longleftrightarrow> a = b"
  by (auto simp: bit_eq_iff bit_xor_iff)

lemma crc_fold_inj: "foldl crc16_round c d = foldl crc16_round c' d \<longleftrightarrow> c = c'"
proof (induction d arbitrary: c c')
  case (Cons x d)
  have "crc16_round c x = crc16_round c' x \<longleftrightarrow> c = c'"
    unfolding crc16_round_ref crc_ref_def crc_bits_inj by (rule xor_cancel(1))
  then show ?case using Cons.IH by simp
qed simp

text \<open>C25: The checksum step of the boot loader, a straight line of shifts and exclusive ors on 16-bit values,
  computes for every register and byte the bitwise CRC-16-CCITT division (polynomial 0x1021, most significant bit first)
  that the card uses.  As a check on a sector it is exact on bursts: two sectors that differ at most in two adjacent bytes
  have the same checksum if and only if they are equal.\<close>

theorem crc16_checks_sector:
  "crc16_round c x = crc_ref c x \<and>
   (crc16 (a @ [x1, x2] @ b) = crc16 (a @ [y1, y2] @ b) \<longleftrightarrow> x1 = y1 \<and> x2 = y2)"
  using crc16_round_ref [of c x]
  by (simp add: crc16_def crc_fold_inj crc_two crc_bits_inj xor_cancel two_bytes_inj)

end
