(* ===== verification/Sd_Payload.thy ===== *)
theory Sd_Payload
  imports Sd_Boot
begin

text \<open>
  What the boot loader of \<^verbatim>\<open>Sd_Boot\<close> loads.  Section one shows for the parts of the loader
  that they return or wait, so that neither a bad memory access nor a wrong argument of a print can occur.  Section two shows, for a card and an UART that may
  answer anything, that the memory only receives what the card sent, and that success means that every sector was framed and
  passed its checksum.  The converse, that a card which follows the protocol is loaded completely, is in \<^verbatim>\<open>Sd_Card\<close>.
\<close>

section \<open>Parts that return or wait\<close>

fun rx_bytes :: "spi_event list \<Rightarrow> u8 list" where
  "rx_bytes [] = []"
| "rx_bytes (Rx b # l) = b # rx_bytes l"
| "rx_bytes (e # l) = rx_bytes l"

definition received :: "sd_sys \<Rightarrow> u8 list" where
  "received s = rx_bytes (spi_log s)"

definition store :: "ulong \<Rightarrow> u8 list \<Rightarrow> (ulong \<Rightarrow> u8) \<Rightarrow> ulong \<Rightarrow> u8" where
  "store p d m = (\<lambda>a. if unat (a - p) < length d then d ! unat (a - p) else m a)"

text \<open>A sector on the wire: bytes that are not the start token, the token, the data, and the checksum of the data.\<close>

definition framed :: "u8 list \<times> u8 list \<Rightarrow> u8 list" where
  "framed b = fst b @ 0xFE # snd b @ [ucast (drop_bit 8 (crc16 (snd b))), ucast (crc16 (snd b))]"

definition good_block :: "u8 list \<times> u8 list \<Rightarrow> bool" where
  "good_block b \<longleftrightarrow> 0xFE \<notin> set (fst b) \<and> length (snd b) = SECTOR_SIZE_B"

lemma rx_bytes_append [simp]: "rx_bytes (l @ l') = rx_bytes l @ rx_bytes l'"
  by (induction l rule: rx_bytes.induct) simp_all

text \<open>Printing keeps the memory and receives nothing from the card; commands keep the memory.\<close>

definition mute_rel :: "sd_sys \<Rightarrow> sd_sys \<Rightarrow> bool" where
  "mute_rel s s' \<longleftrightarrow> ram s' = ram s \<and> received s' = received s"

definition quiet_rel :: "sd_sys \<Rightarrow> sd_sys \<Rightarrow> bool" where
  "quiet_rel s s' \<longleftrightarrow> ram s' = ram s \<and> (\<exists>l. received s' = received s @ l)"

interpretation mute: waits mute_rel
  by unfold_locales (auto simp: mute_rel_def)

interpretation quiet: waits quiet_rel
  by unfold_locales (auto simp: quiet_rel_def)

lemma mute_quiet: "mute.stays m \<Longrightarrow> quiet.stays m"
  unfolding quiet.stays_def by (auto intro!: mute.staysD simp: mute_rel_def quiet_rel_def)

lemma muteD:
  "mute.stays m \<Longrightarrow> (\<And>x s'. ram s' = ram s \<Longrightarrow> received s' = received s \<Longrightarrow> Q x s') \<Longrightarrow> sees m s Q"
  by (rule mute.staysD) (simp_all add: mute_rel_def)

lemma quietD:
  "quiet.stays m \<Longrightarrow> (\<And>x s' l. ram s' = ram s \<Longrightarrow> received s' = received s @ l \<Longrightarrow> Q x s') \<Longrightarrow> sees m s Q"
  by (rule quiet.staysD) (auto simp: quiet_rel_def)

lemma quiet_event: "quiet.stays (spi_event e)"
  by (simp add: spi_event_def quiet.stays_mod quiet_rel_def received_def)

lemma mute_kputc: "mute.stays (kputc hw N c)"
proof -
  have "mute.stays (kputc_loop hw c n k)" for n k
    by (induction n arbitrary: k) (auto intro!: mute.stays_rules mute.stays_mod simp: mute_rel_def received_def)
  then show ?thesis by (simp add: kputc_def)
qed

lemma mute_prints: "mute.stays (u_kputs hw N t)" "mute.stays (kputs hw N t)" "mute.stays (kputx hw N k n)"
  unfolding u_kputs_def kputs_def kputx_def by (intro mute.stays_rules mute_kputc)+

text \<open>The two formatted prints of the loader have the arguments that their formats ask for.\<close>

lemma mute_kprintf:
  "mute.stays (kprintf hw N (bs ''LOADING 0x%xB PAYLOAD'' @ [13, 10]) [Kword w])"
  "mute.stays (kprintf hw N (bs ''LOADING  '') [])"
  by (simp_all add: kprintf_def bs_def) (intro mute.stays_rules mute_kputc mute_prints)+

lemma quiet_rx_loop: "quiet.stays (rx_loop hw n k)"
  by (induction n arbitrary: k) (auto intro!: quiet.stays_rules quiet_event)

text \<open>A transfer receives one byte, its result.\<close>

lemma sees_rx_loop: "(\<And>r. Q r s) \<Longrightarrow> sees (rx_loop hw n k) s Q"
  by (induction n arbitrary: k) auto

lemma sees_spi_xfer:
  "(\<And>x s'. ram s' = ram s \<Longrightarrow> received s' = received s @ [x] \<Longrightarrow> Q x s') \<Longrightarrow> sees (spi_xfer hw N d) s Q"
  by (simp add: spi_xfer_def spi_event_def) (rule sees_rx_loop, simp add: received_def)

lemma sees_sd_dummy:
  "(\<And>x s'. ram s' = ram s \<Longrightarrow> received s' = received s @ [x] \<Longrightarrow> Q x s') \<Longrightarrow> sees (sd_dummy hw N) s Q"
  unfolding sd_dummy_def by (rule sees_spi_xfer)

lemma quiet_xfer: "quiet.stays (spi_xfer hw N d)" "quiet.stays (sd_dummy hw N)" "quiet.stays (sd_skip hw N)" "quiet.stays (sd_send hw N d)"
  unfolding spi_xfer_def sd_dummy_def sd_skip_def sd_send_def by (intro quiet.stays_rules quiet_event quiet_rx_loop)+

lemma quiet_cmd_loop: "quiet.stays (cmd_loop hw N n)"
  by (induction n rule: cmd_loop.induct [of _ hw N])
     (subst cmd_loop.simps, intro quiet.stays_rules quiet_event quiet_xfer mute_quiet [OF mute_prints(2)], simp_all)

lemma quiet_cmd: "quiet.stays (sd_cmd hw N cmd arg crc)" "quiet.stays (sd_cmd_end hw N)" "quiet.stays (sd_poweron hw N)"
  unfolding sd_cmd_def sd_cmd_end_def sd_poweron_def by (intro quiet.stays_rules quiet_event quiet_xfer quiet_cmd_loop)+

lemma quiet_acmd41_loop: "quiet.stays (acmd41_loop hw N n)"
  by (induction n) (simp_all, (intro quiet.stays_rules quiet_event quiet_cmd | simp add: sd_cmd55_def)+)

lemma quiet_commands: "quiet.stays (sd_cmd0 hw N)" "quiet.stays (sd_cmd8 hw N)" "quiet.stays (sd_acmd41 hw N)" "quiet.stays (sd_cmd58 hw N)"
    "quiet.stays (sd_cmd16 hw N)"
  unfolding sd_cmd0_def sd_cmd8_def sd_acmd41_def sd_cmd58_def sd_cmd16_def
  by (intro quiet.stays_rules quiet_event quiet_xfer quiet_cmd mute_quiet [OF mute_prints(2)] quiet_acmd41_loop)+

section \<open>Only what passed its checksum is called a payload\<close>

lemma store_Nil [simp]: "store p [] m = m"
  by (simp add: store_def)

lemma store_snoc:
  assumes "length d < 2 ^ 64"
  shows "(store p d m)(p + of_nat (length d) := x) = store p (d @ [x]) m"
proof (rule ext)
  fix a
  have "a = p + of_nat (length d) \<longleftrightarrow> a - p = of_nat (length d)" by (auto simp: algebra_simps)
  also have "\<dots> \<longleftrightarrow> unat (a - p) = length d"
    using assms by (simp add: word_unat_eq_iff unsigned_of_nat take_bit_nat_eq_self)
  finally have "a = p + of_nat (length d) \<longleftrightarrow> unat (a - p) = length d" .
  then show "((store p d m)(p + of_nat (length d) := x)) a = store p (d @ [x]) m a"
    by (auto simp: store_def nth_append)
qed

lemma sees_token_loop:
  "(\<And>s' g. ram s' = ram s \<Longrightarrow> received s' = received s @ g @ [0xFE] \<Longrightarrow> 0xFE \<notin> set g \<Longrightarrow> Q () s') \<Longrightarrow>
   sees (token_loop hw N n) s Q"
proof (induction n arbitrary: s)
  case (Suc n)
  have "sees (if x \<noteq> 0xFE then token_loop hw N n else retM ()) s' Q"
    if "ram s' = ram s" "received s' = received s @ [x]" for x s'
  proof (cases "x = 0xFE")
    case True
    then show ?thesis using Suc.prems [of s' "[]"] that by simp
  next
    case False
    then show ?thesis using Suc.prems [of _ "x # _"] that by (auto intro!: Suc.IH)
  qed
  then show ?case by (auto intro!: sees_sd_dummy simp del: if_not_P)
qed simp

lemma sees_sector_loop:
  assumes "ram s = store p d m" "length d + n < 2 ^ 64"
    and "\<And>s' e. length e = n \<Longrightarrow> ram s' = store p (d @ e) m \<Longrightarrow> received s' = received s @ e \<Longrightarrow> Q (foldl crc16_round c e) s'"
  shows "sees (sector_loop hw N n (p + of_nat (length d)) c) s Q"
  using assms
proof (induction n arbitrary: s d c)
  case (Suc n)
  have "sees (sector_loop hw N n (p + of_nat (length d) + 1) (crc16_round c x)) (s'\<lparr>ram := (ram s')(p + of_nat (length d) := x)\<rparr>) Q"
    if "ram s' = ram s" "received s' = received s @ [x]" for x s'
  proof -
    have st: "(ram s')(p + of_nat (length d) := x) = store p (d @ [x]) m"
      using that Suc.prems(1,2) store_snoc [of d p m x] by simp
    show ?thesis unfolding st
      using Suc.IH [of "s'\<lparr>ram := store p (d @ [x]) m\<rparr>" "d @ [x]" "crc16_round c x"] Suc.prems(2) Suc.prems(3) [of "x # _"] that
      by (simp add: received_def add.assoc add.commute [of 1])
  qed
  then show ?case by (auto intro!: sees_sd_dummy)
qed simp

text \<open>The comparison with the two bytes after the data is the comparison with the framing.\<close>

lemma crc_bytes: "w = (push_bit 8 (ucast x1) OR ucast x0) \<longleftrightarrow> [x1, x0] = [ucast (drop_bit 8 w), ucast (w :: u16)]" for x1 x0 :: u8
proof -
  have "w = push_bit 8 (ucast (ucast (drop_bit 8 w) :: u8)) OR ucast (ucast w :: u8)"
    by (rule bit_word_eqI) (auto simp: bit_or_iff bit_push_bit_iff bit_drop_bit_eq bit_ucast_iff)
  then show ?thesis using two_bytes_inj [of x1 x0 "ucast (drop_bit 8 w)" "ucast w"] by auto
qed

definition copied :: "ulong \<Rightarrow> u8 list \<Rightarrow> (ulong \<Rightarrow> u8) \<Rightarrow> nat \<Rightarrow> sd_sys \<Rightarrow> bool \<Rightarrow> sd_sys \<Rightarrow> bool" where
  "copied p d m i s rc s' \<longleftrightarrow>
     (if rc then \<exists>e l. length e \<le> 512 * i \<and> ram s' = store p (d @ e) m \<and> received s' = received s @ l
      else \<exists>bs. length bs = i \<and> list_all good_block bs \<and> received s' = received s @ concat (map framed bs)
             \<and> ram s' = store p (d @ concat (map snd bs)) m)"

lemma copied_Suc:
  assumes "copied p (d @ e) m i s' rc s''" "0xFE \<notin> set g" "length e = 512" "received s' = received s @ framed (g, e)"
  shows "copied p d m (Suc i) s rc s''"
proof (cases rc)
  case True
  with assms obtain e' l where "length e' \<le> 512 * i" "ram s'' = store p ((d @ e) @ e') m" "received s'' = received s' @ l"
    unfolding copied_def by auto
  then show ?thesis using assms True unfolding copied_def by (auto intro!: exI [of _ "e @ e'"])
next
  case False
  with assms obtain bs where "length bs = i" "list_all good_block bs" "received s'' = received s' @ concat (map framed bs)"
      "ram s'' = store p ((d @ e) @ concat (map snd bs)) m"
    unfolding copied_def by auto
  then show ?thesis using assms False unfolding copied_def by (auto intro!: exI [of _ "(g, e) # bs"] simp: good_block_def)
qed

lemma copied_failed:
  assumes "length e = 512" "ram s' = store p (d @ e) m" "received s' = received s @ l"
  shows "copied p d m (Suc i) s True s'"
  using assms by (auto simp: copied_def intro!: exI [of _ e])

lemma mute_spin: "mute.stays (whenM b (seqM (kputc hw N 8) (bindM (liftO (rd spinner (k mod 4))) (kputc hw N))))"
proof -
  have "\<exists>x. rd spinner (k mod 4) = Some x" by (simp add: rd_def spinner_def)
  then show ?thesis by (auto simp: liftO_def intro!: mute.stays_rules mute_kputc)
qed

lemma sees_copy_loop:
  assumes "ram s = store p d m" "length d + 512 * i < 2 ^ 64"
  shows "sees (copy_loop hw N i (p + of_nat (length d))) s (copied p d m i s)"
  using assms
proof (induction i arbitrary: s d)
  case 0
  then show ?case by (simp add: copied_def)
next
  case (Suc i)
  have check: "sees (if foldl crc16_round 0 e \<noteq> (push_bit 8 (ucast c1) OR ucast c0)
        then seqM (kputs hw N (8 # bs ''- CRC mismatch '')) (retM True)
        else seqM (whenM (Suc i mod 64 = 0) (seqM (kputc hw N 8) (bindM (liftO (rd spinner (Suc i div 64 mod 4))) (kputc hw N))))
               (copy_loop hw N i (p + of_nat (length d) + 512)))
       s' (copied p d m (Suc i) s)"
    if e: "length e = 512" and g: "0xFE \<notin> set g" and r: "ram s' = store p (d @ e) m"
      and rx: "received s' = received s @ g @ [0xFE] @ e @ [c1, c0]" for g e c1 c0 s'
  proof (cases "crc16 e = (push_bit 8 (ucast c1) OR ucast c0)")
    case True
    then have f: "received s' = received s @ framed (g, e)"
      using rx crc_bytes [of "crc16 e" c1 c0] by (simp add: framed_def)
    have "sees (copy_loop hw N i (p + of_nat (length d) + 512)) t (copied p d m (Suc i) s)"
      if "ram t = ram s'" "received t = received s'" for t
      using Suc.IH [of t "d @ e"] Suc.prems(2) e r that f
      by (auto elim!: sees_mono intro: copied_Suc [OF _ g e] simp: add.assoc)
    with True show ?thesis by (simp add: crc16_def) (rule muteD [OF mute_spin], simp)
  next
    case False
    then show ?thesis using e r rx by (auto simp: crc16_def intro!: muteD [OF mute_prints(2)] copied_failed)
  qed
  show ?case using Suc.prems
    by (auto simp: copy_loop.simps intro!: sees_token_loop sees_sector_loop [of _ p d m] sees_sd_dummy check)
qed

text \<open>The memory between two states: a load of all sectors, framed and checked, or the bytes of an incomplete one.\<close>

definition loaded :: "sd_sys \<Rightarrow> sd_sys \<Rightarrow> bool" where
  "loaded s s' \<longleftrightarrow> (\<exists>l bs l'. received s' = received s @ l @ concat (map framed bs) @ l' \<and> length bs = PAYLOAD_SIZE \<and>
     list_all good_block bs \<and> ram s' = store PAYLOAD_DEST (concat (map snd bs)) (ram s))"

definition incomplete :: "sd_sys \<Rightarrow> sd_sys \<Rightarrow> bool" where
  "incomplete s s' \<longleftrightarrow> (\<exists>e. length e \<le> PAYLOAD_SIZE_B \<and> ram s' = store PAYLOAD_DEST e (ram s))"

lemma load_cong:
  assumes "ram s = ram s0" "received s = received s0 @ l" "ram t' = ram t" "received t' = received t @ l'"
  shows "loaded s t \<Longrightarrow> loaded s0 t'" and "incomplete s t \<Longrightarrow> incomplete s0 t'"
  using assms unfolding loaded_def incomplete_def by (metis append.assoc)+

lemma incomplete_same: "ram s' = ram s \<Longrightarrow> incomplete s s'"
  unfolding incomplete_def by (auto intro!: exI [of _ "[]"])

lemma copied_load: "copied PAYLOAD_DEST [] (ram s) PAYLOAD_SIZE s rc s' \<Longrightarrow> (if rc then incomplete s s' else loaded s s')"
  by (auto simp: copied_def loaded_def incomplete_def PAYLOAD_SIZE_def split: if_splits) (metis append_Nil append_Nil2)

definition loads :: "bool sdM \<Rightarrow> bool" where
  "loads m \<longleftrightarrow> (\<forall>s. sees m s (\<lambda>rc s'. if rc then incomplete s s' else loaded s s'))"

lemma loads_bind:
  assumes "quiet.stays m" "\<And>x. loads (f x)"
  shows "loads (bindM m f)"
proof (unfold loads_def sees_bind, intro allI quietD [OF assms(1)])
  fix s x s' l assume eq: "ram s' = ram s" "received s' = received s @ l"
  have "sees (f x) s' (\<lambda>rc t. if rc then incomplete s' t else loaded s' t)" using assms(2) by (simp add: loads_def)
  then show "sees (f x) s' (\<lambda>rc t. if rc then incomplete s t else loaded s t)"
    by (rule sees_mono) (use load_cong [OF eq, where l' = "[]"] in \<open>auto split: if_splits\<close>)
qed

lemma loads_if: "(b \<Longrightarrow> loads m) \<Longrightarrow> (\<not> b \<Longrightarrow> loads n) \<Longrightarrow> loads (if b then m else n)"
  by simp

lemma loads_seq: "quiet.stays m \<Longrightarrow> loads n \<Longrightarrow> loads (seqM m n)"
  unfolding seqM_def by (rule loads_bind)

lemma loads_fail: "loads (retM True)"
  by (simp add: loads_def incomplete_same)

lemma sees_end:
  "(\<And>s' l'. ram s' = ram s \<Longrightarrow> received s' = received s @ l' \<Longrightarrow> Q rc s') \<Longrightarrow>
   sees (seqM (sd_cmd_end hw N) (bindM (sd_cmd hw N 0x4C 0 0x01) (\<lambda>_.
     seqM (sd_cmd_end hw N) (seqM (kputs hw N (8 # bs '' '')) (retM rc))))) s Q"
  by (simp, rule quietD [OF quiet_cmd(2)], rule quietD [OF quiet_cmd(1)], rule quietD [OF quiet_cmd(2)],
      rule quietD [OF mute_quiet [OF mute_prints(2)]], simp)

lemma loads_copy: "loads (copy hw N)"
proof -
  have main: "loads (bindM (copy_loop hw N PAYLOAD_SIZE PAYLOAD_DEST) (\<lambda>rc. seqM (sd_cmd_end hw N)
      (bindM (sd_cmd hw N 0x4C 0 0x01) (\<lambda>_. seqM (sd_cmd_end hw N) (seqM (kputs hw N (8 # bs '' '')) (retM rc))))))"
    (is "loads (bindM ?c ?e)")
  proof (unfold loads_def sees_bind, rule allI)
    fix s
    have "sees ?c s (copied PAYLOAD_DEST [] (ram s) PAYLOAD_SIZE s)"
      using sees_copy_loop [of s PAYLOAD_DEST "[]" "ram s" PAYLOAD_SIZE hw N] by (simp add: PAYLOAD_SIZE_def)
    then show "sees ?c s (\<lambda>rc s'. sees (?e rc) s' (\<lambda>rc s'. if rc then incomplete s s' else loaded s s'))"
      by (rule sees_mono) (rule sees_end, use copied_load load_cong [of s s "[]"] in \<open>auto split: if_splits\<close>)
  qed
  show ?thesis unfolding copy_def
    by (intro main loads_seq loads_bind loads_fail loads_if quiet_event quiet_cmd mute_quiet [OF mute_prints(2)]
        mute_quiet [OF mute_kprintf(1)] mute_quiet [OF mute_kprintf(2)])
qed

lemma loads_first_failure: "list_all quiet.stays ms \<Longrightarrow> loads m \<Longrightarrow> loads (first_failure (ms @ [m]))"
proof (induction ms)
  case Nil
  have "sees (if x then retM True else retM False) s Q = Q x s" for x Q and s :: sd_sys by simp
  with Nil show ?case by (simp only: append_Nil first_failure.simps loads_def sees_bind simp_thms)
qed (auto intro!: loads_bind loads_fail)

text \<open>C7: Whatever the card and the UART answer, the boot loader returns 0 or 1 or keeps waiting for one of them; it never
  reads or writes outside its tables.  When it returns 0, the bytes that the card sent contain the frames of all 262144 sectors,
  each introduced by the start token and followed by the checksum of its 512 bytes, and the memory is the old one with exactly
  these sectors stored from the load address on.  When it returns 1, at most the 128 MiB of the payload region were written.\<close>

theorem sd_main_loads_checked:
  "case sd_main hw N s of
     Ret rc s' \<Rightarrow> if rc = 0 then loaded s s' else rc = 1 \<and> incomplete s s'
   | Halt r s' \<Rightarrow> r = Spin"
proof -
  define F where "F = first_failure ([sd_cmd0 hw N, sd_cmd8 hw N, sd_acmd41 hw N, sd_cmd58 hw N, sd_cmd16 hw N] @ [copy hw N])"
  have f: "loads F"
    unfolding F_def by (rule loads_first_failure) (simp_all add: quiet_commands loads_copy)
  have e: "sees (if failed then seqM (kputs hw N (bs ''ERROR'')) (retM (1 :: int)) else seqM (kputs hw N (bs ''BOOT'')) (retM 0)) t
      (\<lambda>rc s'. if rc = 0 then loaded s s' else rc = 1 \<and> incomplete s s')"
    if "if failed then incomplete s t else loaded s t" for failed t
    using that by (auto intro!: muteD [OF mute_prints(2)] intro: load_cong [of s s "[]" _ t "[]"] split: if_splits)
  have "loads (seqM (modM (\<lambda>s. s\<lparr>uart_txctrl := UART_TXEN\<rparr>)) (seqM (kputs hw N (bs ''INIT'')) (seqM (sd_poweron hw N) F)))"
    by (intro loads_seq f quiet.stays_mod mute_quiet [OF mute_prints(2)] quiet_cmd) (simp add: quiet_rel_def received_def)
  then have "sees (sd_main hw N) s (\<lambda>rc s'. if rc = 0 then loaded s s' else rc = 1 \<and> incomplete s s')"
    unfolding sd_main_def loads_def sees_seq sees_bind F_def [simplified append_Cons append_Nil, symmetric]
    by (elim allE [of _ s] sees_mono) (rule e)
  then show ?thesis by (simp add: sees_def)
qed

end
