(* ===== verification/Sd_Card.thy ===== *)
theory Sd_Card
  imports Sd_Payload
begin

text \<open>
  The boot loader of \<^verbatim>\<open>Sd_Boot\<close> together with an SD card. The card is a machine of its own that reacts to every event on the SPI
  bus, as the SPI mode of the SD physical layer documents it for a high capacity card: it needs 74 clocks without chip select before
  its first command, collects six-byte command frames, checks the checksum of CMD0 and CMD8, echoes the argument of CMD8, takes part in the
  CMD55/ACMD41 initialisation, and sends the sectors that CMD17 or CMD18 ask for, with a start token and a checksum each.  Its contents and
  all its delays are parameters.  What it sends depends on the bytes it was sent and on nothing else, so that the loader only
  gets the payload when its commands ask for it.
\<close>

section \<open>The card\<close>

record sd_params =
  sp_disk :: "nat \<Rightarrow> u8 list" \<comment> \<open>the sectors\<close>
  sp_ncr :: "nat \<Rightarrow> nat" \<comment> \<open>bytes until the response to the given command\<close>
  sp_nac :: "nat \<Rightarrow> nat" \<comment> \<open>bytes until the start token of the given sector\<close>
  sp_rounds :: nat \<comment> \<open>how often ACMD41 finds the card still busy\<close>

datatype card_phase = Card_off | Card_idle nat | Card_ready

record sd_card =
  card_cs :: u32
  card_clocks :: nat \<comment> \<open>clocks seen without chip select\<close>
  card_frame :: "u8 list" \<comment> \<open>the part of a command received so far\<close>
  card_queue :: "u8 list" \<comment> \<open>what is sent next\<close>
  card_stream :: "nat option" \<comment> \<open>the sector that a running CMD18 sends next\<close>
  card_phase :: card_phase
  card_app :: bool \<comment> \<open>whether the last command was CMD55\<close>
  card_v2 :: bool \<comment> \<open>whether CMD8 has been accepted\<close>
  card_cmds :: nat

definition card_init :: sd_card where
  "card_init = \<lparr>card_cs = SPI_CSMODE_AUTO, card_clocks = 0, card_frame = [], card_queue = [], card_stream = None,
     card_phase = Card_off, card_app = False, card_v2 = False, card_cmds = 0\<rparr>"

text \<open>The checksum of a command frame, in the upper seven bits of its last byte: division by $x^7 + x^3 + 1$.\<close>

definition crc7_bit :: "u8 \<Rightarrow> u8" where
  "crc7_bit c = (if bit c 7 then push_bit 1 c XOR 0x12 else push_bit 1 c)"

definition crc7 :: "u8 list \<Rightarrow> u8" where
  "crc7 d = foldl (\<lambda>c x. (crc7_bit ^^ 8) (c XOR x)) 0 d OR 1"

definition crc7_ok :: "u8 list \<Rightarrow> bool" where
  "crc7_ok f \<longleftrightarrow> f ! 5 = crc7 (take 5 f)"

definition frame_arg :: "u8 list \<Rightarrow> u32" where
  "frame_arg f = push_bit 24 (ucast (f ! 1)) OR push_bit 16 (ucast (f ! 2)) OR push_bit 8 (ucast (f ! 3)) OR ucast (f ! 4)"

definition card_block :: "sd_params \<Rightarrow> nat \<Rightarrow> u8 list" where
  "card_block P a = framed (replicate (sp_nac P a) 0xFF, sp_disk P a)"

text \<open>A response: its first byte after the delay of this command, and what follows it.\<close>

definition card_answer :: "sd_params \<Rightarrow> u8 \<Rightarrow> u8 list \<Rightarrow> sd_card \<Rightarrow> sd_card" where
  "card_answer P r xs k =
     k\<lparr>card_queue := replicate (sp_ncr P (card_cmds k)) 0xFF @ r # xs, card_app := False, card_cmds := card_cmds k + 1\<rparr>"

definition card_status :: "sd_card \<Rightarrow> u8" where
  "card_status k = (if card_phase k = Card_ready then 0 else 1)"

text \<open>
  A complete command frame. A card that is not powered up only listens to CMD0; one that sends sectors only to CMD12. CMD0 and
  CMD8 with a wrong checksum are errors. ACMD41 needs CMD8 and the bit for high capacity in the argument. The read
  commands need a card that is ready, and address sectors.
\<close>

definition card_exec :: "sd_params \<Rightarrow> u8 list \<Rightarrow> sd_card \<Rightarrow> sd_card" where
  "card_exec P f k =
     (let c = f ! 0 AND 0x3F; arg = frame_arg f; r1 = card_status k in
      if card_phase k = Card_off then
        if c = 0 \<and> 74 \<le> card_clocks k \<and> crc7_ok f then card_answer P 1 [] (k\<lparr>card_phase := Card_idle 0\<rparr>) else k
      else if card_stream k \<noteq> None \<and> c \<noteq> 12 then k
      else if c = 0 then
        if crc7_ok f then card_answer P 1 [] (k\<lparr>card_phase := Card_idle 0, card_v2 := False\<rparr>) else card_answer P (r1 OR 8) [] k
      else if c = 8 then
        if \<not> crc7_ok f then card_answer P (r1 OR 8) [] k
        else if arg AND 0xF00 = 0x100 then card_answer P r1 [0, 0, ucast (drop_bit 8 arg) AND 0xF, ucast arg] (k\<lparr>card_v2 := True\<rparr>)
        else k
      else if c = 12 then card_answer P r1 [] (k\<lparr>card_stream := None\<rparr>)
      else if c = 16 then card_answer P (if arg \<le> 512 then r1 else r1 OR 0x40) [] k
      else if c = 17 \<and> card_phase k = Card_ready then card_answer P 0 (card_block P (unat arg)) k
      else if c = 18 \<and> card_phase k = Card_ready then card_answer P 0 [] (k\<lparr>card_stream := Some (unat arg)\<rparr>)
      else if c = 55 then (card_answer P r1 [] k)\<lparr>card_app := True\<rparr>
      else if c = 41 \<and> card_app k then
        (case card_phase k of
           Card_idle n \<Rightarrow>
             if card_v2 k \<and> bit arg 30 \<and> sp_rounds P \<le> n then card_answer P 0 [] (k\<lparr>card_phase := Card_ready\<rparr>)
             else card_answer P 1 [] (k\<lparr>card_phase := Card_idle (n + 1)\<rparr>)
         | _ \<Rightarrow> card_answer P 0 [] k)
      else if c = 58 then card_answer P r1 [if card_phase k = Card_ready then 0xC0 else 0, 0xFF, 0x80, 0] k
      else card_answer P (r1 OR 4) [] k)"

text \<open>One byte each way. The byte that the card sends is settled before it knows the one that it receives.\<close>

definition card_out :: "sd_params \<Rightarrow> sd_card \<Rightarrow> u8 \<times> sd_card" where
  "card_out P k =
     (case card_queue k of
        b # q \<Rightarrow> (b, k\<lparr>card_queue := q\<rparr>)
      | [] \<Rightarrow>
          (case card_stream k of
             None \<Rightarrow> (0xFF, k)
           | Some a \<Rightarrow> (hd (card_block P a), k\<lparr>card_queue := tl (card_block P a), card_stream := Some (a + 1)\<rparr>)))"

definition card_in :: "sd_params \<Rightarrow> u8 \<Rightarrow> sd_card \<Rightarrow> sd_card" where
  "card_in P d k =
     (if card_frame k = [] then (if d AND 0xC0 = 0x40 then k\<lparr>card_frame := [d]\<rparr> else k)
      else if length (card_frame k) < 5 then k\<lparr>card_frame := card_frame k @ [d]\<rparr>
      else card_exec P (card_frame k @ [d]) (k\<lparr>card_frame := []\<rparr>))"

definition card_xfer :: "sd_params \<Rightarrow> u8 \<Rightarrow> sd_card \<Rightarrow> u8 \<times> sd_card" where
  "card_xfer P d k =
     (if card_cs k = SPI_CSMODE_OFF then (0xFF, k\<lparr>card_clocks := card_clocks k + 8\<rparr>)
      else (fst (card_out P k), card_in P d (snd (card_out P k))))"

primrec card_event :: "sd_params \<Rightarrow> spi_event \<Rightarrow> sd_card \<Rightarrow> sd_card" where
  "card_event P (Sckdiv v) k = k"
| "card_event P (Csmode v) k = k\<lparr>card_cs := v\<rparr>"
| "card_event P (Tx d) k = snd (card_xfer P d k)"
| "card_event P (Rx b) k = k"

text \<open>The card after what has happened on the bus since it was switched on.\<close>

definition card_at :: "sd_params \<Rightarrow> spi_event list \<Rightarrow> sd_card" where
  "card_at P log = fold (card_event P) log card_init"

text \<open>
  The hardware with such a card attached: after a byte has been sent, the receive register shows the byte of the card within \<open>N\<close>
  looks, and the transmit register of the UART takes every character within \<open>N\<close> attempts. The delays of the card are
  within the limits of the loader, and its sectors are whole.
\<close>

definition displays :: "nat \<Rightarrow> (nat \<Rightarrow> u32) \<Rightarrow> u8 \<Rightarrow> bool" where
  "displays N reg b \<longleftrightarrow> (\<exists>k<N. (\<forall>j<k. sint (reg j) < 0) \<and> 0 \<le> sint (reg k) \<and> ucast (reg k) = b)"

definition attached :: "sd_hw \<Rightarrow> nat \<Rightarrow> sd_params \<Rightarrow> bool" where
  "attached hw N P \<longleftrightarrow>
     (\<forall>log d. displays N (hw_rxfifo hw (log @ [Tx d])) (fst (card_xfer P d (card_at P log)))) \<and>
     (\<forall>out. \<exists>b. displays N (hw_txfifo hw out) b)"

definition timely :: "nat \<Rightarrow> sd_params \<Rightarrow> bool" where
  "timely N P \<longleftrightarrow> (\<forall>n. sp_ncr P n < 1000) \<and> (\<forall>a. sp_nac P a < N) \<and> sp_rounds P < N \<and> (\<forall>a. length (sp_disk P a) = SECTOR_SIZE_B)"

section \<open>Transfers\<close>

lemma card_at_append [simp]: "card_at P (log @ l) = fold (card_event P) l (card_at P log)"
  by (simp add: card_at_def)

text \<open>\<open>takes P m k y f k'\<close>: with the card in state \<open>k\<close>, \<open>m\<close> returns \<open>y\<close>, changes the memory by \<open>f\<close> and leaves the card in
  state \<open>k'\<close>.\<close>

definition takes :: "sd_params \<Rightarrow> 'a sdM \<Rightarrow> sd_card \<Rightarrow> 'a \<Rightarrow> ((ulong \<Rightarrow> u8) \<Rightarrow> (ulong \<Rightarrow> u8)) \<Rightarrow> sd_card \<Rightarrow> bool" where
  "takes P m k y f k' \<longleftrightarrow> (\<forall>s. card_at P (spi_log s) = k \<longrightarrow>
     (\<exists>s'. m s = Ret y s' \<and> card_at P (spi_log s') = k' \<and> ram s' = f (ram s)))"

lemma takes_ret: "takes P (retM y) k y id k"
  by (simp add: takes_def run_simps)

lemmas takes_rets = takes_ret takes_ret [unfolded id_def]

lemma takes_bind: "takes P m k x f k1 \<Longrightarrow> takes P (n x) k1 y g k2 \<Longrightarrow> takes P (bindM m n) k y (g \<circ> f) k2"
  unfolding takes_def by (fastforce simp: run_simps)

lemma takes_seq: "takes P m k x f k1 \<Longrightarrow> takes P n k1 y g k2 \<Longrightarrow> takes P (seqM m n) k y (g \<circ> f) k2"
  unfolding seqM_def by (rule takes_bind)

lemma takes_same: "takes P m k x id k1 \<Longrightarrow> takes P (n x) k1 y f k2 \<Longrightarrow> takes P (bindM m n) k y f k2"
  using takes_bind [of P m k x id k1 n y f k2] by simp

lemma takes_then: "takes P m k x id k1 \<Longrightarrow> takes P n k1 y f k2 \<Longrightarrow> takes P (seqM m n) k y f k2"
  unfolding seqM_def by (rule takes_same)

lemma takes_mod: "(\<And>s. spi_log (g s) = spi_log s) \<Longrightarrow> (\<And>s. ram (g s) = f (ram s)) \<Longrightarrow> takes P (modM g) k () f k"
  by (simp add: takes_def run_simps)

lemma takes_event: "takes P (spi_event (Sckdiv v)) k () id k" "takes P (spi_event (Csmode v)) k () id (k\<lparr>card_cs := v\<rparr>)"
  by (simp_all add: spi_event_def takes_def run_simps)

lemma takes_kputc:
  assumes "attached hw N P"
  shows "takes P (kputc hw N c) k () id k"
proof (unfold takes_def, intro allI impI)
  fix s :: sd_sys assume s: "card_at P (spi_log s) = k"
  from assms obtain i where i: "i < N" "\<forall>j<i. sint (hw_txfifo hw (uart_out s) j) < 0" "0 \<le> sint (hw_txfifo hw (uart_out s) i)"
    unfolding attached_def displays_def by blast
  have "kputc_loop hw c n j s = Ret () (s\<lparr>uart_out := uart_out s @ [c]\<rparr>)" if "j \<le> i" "i < j + n" for n j
    using that
  proof (induction n arbitrary: j)
    case (Suc n)
    then show ?case using i(2,3) by (cases "j = i") (auto simp: run_simps)
  qed simp
  from this [of 0 N] i(1) s show "\<exists>s'. kputc hw N c s = Ret () s' \<and> card_at P (spi_log s') = k \<and> ram s' = id (ram s)"
    by (simp add: kputc_def)
qed

lemma takes_for: "(\<And>x. takes P (f x) k () id k) \<Longrightarrow> takes P (forM xs f) k () id k"
  by (induction xs) (auto intro: takes_ret takes_then)

lemma takes_prints:
  assumes "attached hw N P"
  shows "takes P (u_kputs hw N t) k () id k" "takes P (kputs hw N t) k () id k" "takes P (kputx hw N j n) k () id k"
  unfolding u_kputs_def kputs_def kputx_def
  by (intro takes_for takes_then [where x = "()" and ?k1.0 = k] takes_kputc [OF assms])+

lemma takes_kprintf:
  assumes "attached hw N P"
  shows "takes P (kprintf hw N (bs ''LOADING 0x%xB PAYLOAD'' @ [13, 10]) [Kword w]) k () id k"
    and "takes P (kprintf hw N (bs ''LOADING  '') []) k () id k"
  by (simp_all add: kprintf_def bs_def)
     (intro takes_then [OF takes_kputc [OF assms]] takes_then [OF takes_prints(3) [OF assms]] takes_ret)+

lemma takes_spi_xfer:
  assumes "attached hw N P" "card_xfer P d k = (x, k')"
  shows "takes P (spi_xfer hw N d) k x id k'"
proof (unfold takes_def, intro allI impI)
  fix s :: sd_sys assume s: "card_at P (spi_log s) = k"
  define t where "t = s\<lparr>spi_log := spi_log s @ [Tx d]\<rparr>"
  have "displays N (hw_rxfifo hw (spi_log t)) x" using assms(1) unfolding attached_def t_def s [symmetric]
    using assms(2) s by (auto dest!: spec [of _ "spi_log s"] spec [of _ d])
  then obtain i where i: "i < N" "\<forall>j<i. sint (hw_rxfifo hw (spi_log t) j) < 0" "0 \<le> sint (hw_rxfifo hw (spi_log t) i)"
      "ucast (hw_rxfifo hw (spi_log t) i) = x"
    unfolding displays_def by blast
  have "rx_loop hw n j t = Ret (hw_rxfifo hw (spi_log t) i) t" if "j \<le> i" "i < j + n" for n j
    using that
  proof (induction n arbitrary: j)
    case (Suc n)
    then show ?case using i(2,3) by (cases "j = i") (auto simp: run_simps)
  qed simp
  from this [of 0 N] i(1) have rx: "rx_loop hw N 0 t = Ret (hw_rxfifo hw (spi_log t) i) t" by simp
  have "spi_xfer hw N d s = Ret x (t\<lparr>spi_log := spi_log t @ [Rx x]\<rparr>)"
    unfolding spi_xfer_def spi_event_def run_seq run_mod outcome.case t_def [symmetric] run_bind rx i(4) run_ret ..
  then show "\<exists>s'. spi_xfer hw N d s = Ret x s' \<and> card_at P (spi_log s') = k' \<and> ram s' = id (ram s)"
    using s assms(2) by (simp add: t_def)
qed

lemma takes_xfer:
  assumes "attached hw N P"
  shows "card_xfer P 0xFF k = (x, k') \<Longrightarrow> takes P (sd_dummy hw N) k x id k'"
    "card_xfer P 0xFF k = (x, k') \<Longrightarrow> takes P (sd_skip hw N) k () id k'"
    "card_xfer P d k = (x, k') \<Longrightarrow> takes P (sd_send hw N d) k () id k'"
  unfolding sd_dummy_def sd_skip_def sd_send_def
  by (rule takes_spi_xfer [OF assms], assumption, (rule takes_same [OF takes_spi_xfer [OF assms] takes_ret], assumption)+)

text \<open>A selected card that is not in the middle of a command takes a dummy byte as nothing.\<close>

lemma card_out_keeps:
  "card_frame (snd (card_out P k)) = card_frame k" "card_cs (snd (card_out P k)) = card_cs k"
  by (simp_all add: card_out_def split: list.split option.split)

lemma dummy_out: "card_cs k \<noteq> SPI_CSMODE_OFF \<Longrightarrow> card_frame k = [] \<Longrightarrow> card_xfer P 0xFF k = card_out P k"
  by (simp add: card_xfer_def card_in_def card_out_keeps prod_eq_iff)

text \<open>Sending a command frame: the card goes on sending what it has to send while it collects the frame, and then executes the command.\<close>

definition card_after :: "sd_params \<Rightarrow> sd_card \<Rightarrow> sd_card" where
  "card_after P k = snd (card_out P k)"

lemma card_after_simps [simp]:
  "card_frame (card_after P k) = card_frame k" "card_cs (card_after P k) = card_cs k"
  "card_phase (card_after P k) = card_phase k" "card_cmds (card_after P k) = card_cmds k"
  "card_clocks (card_after P k) = card_clocks k" "card_v2 (card_after P k) = card_v2 k" "card_app (card_after P k) = card_app k"
  by (simp_all add: card_after_def card_out_def split: list.split option.split)

lemma card_after_frame: "card_after P (k\<lparr>card_frame := f\<rparr>) = (card_after P k)\<lparr>card_frame := f\<rparr>"
  by (simp add: card_after_def card_out_def split: list.split option.split)

lemma frame_bytes:
  assumes "card_cs k \<noteq> SPI_CSMODE_OFF" "card_frame k = []"
  shows "d AND 0xC0 = 0x40 \<Longrightarrow> snd (card_xfer P d k) = (card_after P k)\<lparr>card_frame := [d]\<rparr>"
    "f \<noteq> [] \<Longrightarrow> length f < 5 \<Longrightarrow> snd (card_xfer P d (k\<lparr>card_frame := f\<rparr>)) = (card_after P k)\<lparr>card_frame := f @ [d]\<rparr>"
    "length f = 5 \<Longrightarrow> snd (card_xfer P d (k\<lparr>card_frame := f\<rparr>)) = card_exec P (f @ [d]) (card_after P k)"
proof -
  have e: "(card_after P k)\<lparr>card_frame := []\<rparr> = card_after P k"
    using card_after_simps(1) [of P k] assms(2) by (cases "card_after P k") simp
  show "d AND 0xC0 = 0x40 \<Longrightarrow> snd (card_xfer P d k) = (card_after P k)\<lparr>card_frame := [d]\<rparr>"
    "f \<noteq> [] \<Longrightarrow> length f < 5 \<Longrightarrow> snd (card_xfer P d (k\<lparr>card_frame := f\<rparr>)) = (card_after P k)\<lparr>card_frame := f @ [d]\<rparr>"
    "length f = 5 \<Longrightarrow> snd (card_xfer P d (k\<lparr>card_frame := f\<rparr>)) = card_exec P (f @ [d]) (card_after P k)"
    using assms by (auto simp: e card_xfer_def card_in_def card_after_frame simp flip: card_after_def)
qed

lemma takes_send: "attached hw N P \<Longrightarrow> takes P (sd_send hw N d) k () id (snd (card_xfer P d k))"
  by (rule takes_xfer(3)) (auto simp: prod_eq_iff)

lemma takes_skip: "attached hw N P \<Longrightarrow> card_cs k \<noteq> SPI_CSMODE_OFF \<Longrightarrow> card_frame k = [] \<Longrightarrow>
    takes P (sd_skip hw N) k () id (card_after P k)"
  by (rule takes_xfer(2)) (auto simp: dummy_out card_after_def prod_eq_iff)

lemma takes_frame:
  assumes "attached hw N P" "card_cs k \<noteq> SPI_CSMODE_OFF" "card_frame k = []" "d0 AND 0xC0 = 0x40"
    "takes P m (card_exec P [d0, d1, d2, d3, d4, d5] ((card_after P ^^ 6) k)) y f k'"
  shows "takes P (seqM (sd_send hw N d0) (seqM (sd_send hw N d1) (seqM (sd_send hw N d2) (seqM (sd_send hw N d3)
    (seqM (sd_send hw N d4) (seqM (sd_send hw N d5) m)))))) k y f k'"
proof -
  note T = takes_then [OF takes_send [OF assms(1)]]
  have six: "(card_after P ^^ 6) k =
      card_after P (card_after P (card_after P (card_after P (card_after P (card_after P k)))))" by (simp add: eval_nat_numeral)
  show ?thesis using assms(2-5) by (intro T) (simp add: frame_bytes six)
qed

lemma takes_cmd_loop:
  assumes "attached hw N P" "card_cs k \<noteq> SPI_CSMODE_OFF" "card_frame k = []" "r AND 0x80 = 0"
  shows "n < i \<Longrightarrow> takes P (cmd_loop hw N i) (k\<lparr>card_queue := replicate n 0xFF @ r # q\<rparr>) r id (k\<lparr>card_queue := q\<rparr>)"
proof (induction n arbitrary: i)
  case 0
  have "card_xfer P 0xFF (k\<lparr>card_queue := r # q\<rparr>) = (r, k\<lparr>card_queue := q\<rparr>)" using assms by (simp add: dummy_out card_out_def)
  then show ?case unfolding append_Nil replicate_0
    by (subst cmd_loop.simps, intro takes_same [OF takes_xfer(1) [OF assms(1)]]) (assumption, simp add: assms(4) takes_ret)
next
  case (Suc n)
  have "card_xfer P 0xFF (k\<lparr>card_queue := replicate (Suc n) 0xFF @ r # q\<rparr>) = (0xFF, k\<lparr>card_queue := replicate n 0xFF @ r # q\<rparr>)"
    using assms by (simp add: dummy_out card_out_def)
  moreover have "takes P (cmd_loop hw N (i - 1)) (k\<lparr>card_queue := replicate n 0xFF @ r # q\<rparr>) r id (k\<lparr>card_queue := q\<rparr>)"
    using Suc.prems by (intro Suc.IH) simp
  ultimately show ?case using Suc.prems
    by (subst cmd_loop.simps, intro takes_same [OF takes_xfer(1) [OF assms(1)]]) (assumption, simp)
qed

lemma takes_sd_cmd:
  assumes "attached hw N P" "timely N P" "card_frame k = []" "cmd AND 0xC0 = 0x40" "r AND 0x80 = 0"
    and e: "card_exec P [cmd, ucast (drop_bit 24 arg), ucast (drop_bit 16 arg), ucast (drop_bit 8 arg), ucast arg, crc]
      ((card_after P ^^ 7) (k\<lparr>card_cs := 2\<rparr>)) = k'\<lparr>card_queue := replicate (sp_ncr P i) 0xFF @ r # q\<rparr>"
    and "card_cs k' = 2" "card_frame k' = []"
  shows "takes P (sd_cmd hw N cmd arg crc) k r id (k'\<lparr>card_queue := q\<rparr>)"
proof -
  have "takes P (cmd_loop hw N 1000) (k'\<lparr>card_queue := replicate (sp_ncr P i) 0xFF @ r # q\<rparr>) r id (k'\<lparr>card_queue := q\<rparr>)"
    using takes_cmd_loop [OF assms(1), of k' r] assms by (simp add: timely_def)
  moreover have "(card_after P ^^ 6) (card_after P x) = (card_after P ^^ 7) x" for x by (simp add: eval_nat_numeral funpow_swap1)
  ultimately show ?thesis unfolding sd_cmd_def using assms
    by (intro takes_then [OF takes_event(2)] takes_then [OF takes_skip [OF assms(1)]] takes_frame) (simp_all add: e)
qed

section \<open>The initialisation\<close>

text \<open>A card with nothing to send.\<close>

definition at_rest :: "u32 \<Rightarrow> nat \<Rightarrow> card_phase \<Rightarrow> bool \<Rightarrow> bool \<Rightarrow> nat \<Rightarrow> sd_card" where
  "at_rest c l ph a v n = \<lparr>card_cs = c, card_clocks = l, card_frame = [], card_queue = [], card_stream = None,
     card_phase = ph, card_app = a, card_v2 = v, card_cmds = n\<rparr>"

lemma at_rest_simps [simp]:
  "card_cs (at_rest c l ph a v n) = c" "card_frame (at_rest c l ph a v n) = []" "card_queue (at_rest c l ph a v n) = []"
  "card_stream (at_rest c l ph a v n) = None" "card_phase (at_rest c l ph a v n) = ph" "card_app (at_rest c l ph a v n) = a"
  "card_v2 (at_rest c l ph a v n) = v" "card_cmds (at_rest c l ph a v n) = n" "card_clocks (at_rest c l ph a v n) = l"
  "(at_rest c l ph a v n)\<lparr>card_cs := c'\<rparr> = at_rest c' l ph a v n"
  "card_after P (at_rest c l ph a v n) = at_rest c l ph a v n" "(card_after P ^^ m) (at_rest c l ph a v n) = at_rest c l ph a v n"
proof -
  show r: "card_after P (at_rest c l ph a v n) = at_rest c l ph a v n" by (simp add: at_rest_def card_after_def card_out_def)
  show "(card_after P ^^ m) (at_rest c l ph a v n) = at_rest c l ph a v n" by (induction m) (simp_all add: r)
qed (simp_all add: at_rest_def)

text \<open>A command to a card at rest whose response is \<open>r\<close> followed by \<open>q\<close>.\<close>

lemma takes_cmd_rest:
  assumes "attached hw N P" "timely N P" "cmd AND 0xC0 = 0x40" "r AND 0x80 = 0"
    "card_exec P [cmd, ucast (drop_bit 24 arg), ucast (drop_bit 16 arg), ucast (drop_bit 8 arg), ucast arg, crc] (at_rest 2 l ph a v n) =
      (at_rest 2 l ph' a' v' (n + 1))\<lparr>card_queue := replicate (sp_ncr P n) 0xFF @ r # q\<rparr>"
  shows "takes P (sd_cmd hw N cmd arg crc) (at_rest c l ph a v n) r id ((at_rest 2 l ph' a' v' (n + 1))\<lparr>card_queue := q\<rparr>)"
  by (rule takes_sd_cmd [OF assms(1,2) _ assms(3,4), where i = n]) (simp_all add: assms(5))

lemma rest_queue: "(at_rest c l ph a v n)\<lparr>card_queue := []\<rparr> = at_rest c l ph a v n"
  by (simp add: at_rest_def)

lemma takes_cmd_end:
  assumes "attached hw N P" "card_cs k \<noteq> SPI_CSMODE_OFF" "card_frame k = []"
  shows "takes P (sd_cmd_end hw N) k () id ((card_after P k)\<lparr>card_cs := SPI_CSMODE_AUTO\<rparr>)"
  unfolding sd_cmd_end_def by (rule takes_then [OF takes_skip [OF assms] takes_event(2)])

lemma takes_poweron:
  assumes "attached hw N P"
  shows "takes P (sd_poweron hw N) card_init () id (at_rest 0 80 Card_off False False 0)"
proof -
  let ?k = "\<lambda>l. at_rest 3 l Card_off False False 0"
  have "takes P (forM xs (\<lambda>_. sd_skip hw N)) (?k l) () id (?k (l + 8 * length xs))" for xs l
  proof (induction xs arbitrary: l)
    case (Cons x xs)
    have "takes P (sd_skip hw N) (?k l) () id (?k (l + 8))"
      by (rule takes_xfer(2) [OF assms, where x = "0xFF"]) (simp add: card_xfer_def at_rest_def)
    from takes_then [OF this Cons.IH] show ?case by (simp add: ac_simps)
  qed (simp add: takes_rets)
  from this [of "[0..<10]" 0] have w: "takes P (forM [0..<10] (\<lambda>_. sd_skip hw N)) (?k 0) () id (?k 80)" by simp
  have 1: "takes P (spi_event (Csmode 3)) card_init () id (?k 0)" "takes P (spi_event (Csmode 0)) (?k 80) () id (at_rest 0 80 Card_off False False 0)"
    using takes_event(2) [of P 3 card_init] takes_event(2) [of P 0 "?k 80"] by (simp_all add: card_init_def at_rest_def)
  show ?thesis unfolding sd_poweron_def by (rule takes_then [OF takes_event(1) takes_then [OF 1(1) takes_then [OF w 1(2)]]])
qed

text \<open>What the card makes of the commands of the loader.\<close>

lemma crc7_values: "crc7 [0x40, 0, 0, 0, 0] = 0x95" "crc7 [0x48, 0, 0, 1, 0x1AA] = 0x87"
  by (simp_all add: crc7_def crc7_bit_def funpow_8)

lemmas exec_simps = card_exec_def card_answer_def card_status_def frame_arg_def crc7_ok_def Let_def crc7_values at_rest_def

lemma takes_cmd0:
  assumes "attached hw N P" "timely N P" "74 \<le> l"
  shows "takes P (sd_cmd0 hw N) (at_rest c l Card_off False False n) False id (at_rest 0 l (Card_idle 0) False False (n + 1))"
proof -
  have "takes P (sd_cmd hw N 0x40 0 0x95) (at_rest c l Card_off False False n) 1 id
      ((at_rest 2 l (Card_idle 0) False False (n + 1))\<lparr>card_queue := []\<rparr>)"
    by (rule takes_cmd_rest [OF assms(1,2)]) (use assms(3) in \<open>simp_all add: exec_simps\<close>)
  moreover have "takes P (sd_cmd_end hw N) (at_rest 2 l (Card_idle 0) False False (n + 1)) () id (at_rest 0 l (Card_idle 0) False False (n + 1))"
    using takes_cmd_end [OF assms(1), of "at_rest 2 l (Card_idle 0) False False (n + 1)"] by simp
  ultimately show ?thesis unfolding sd_cmd0_def rest_queue
    by (intro takes_then [OF takes_prints(2) [OF assms(1)]]) (auto intro!: takes_same takes_then takes_ret)
qed

text \<open>Reading what is left of a response.\<close>

lemma takes_read:
  assumes "attached hw N P" "card_cs k \<noteq> SPI_CSMODE_OFF" "card_frame k = []"
  shows "takes P (sd_dummy hw N) (k\<lparr>card_queue := b # q\<rparr>) b id (k\<lparr>card_queue := q\<rparr>)"
    "takes P (sd_skip hw N) (k\<lparr>card_queue := b # q\<rparr>) () id (k\<lparr>card_queue := q\<rparr>)"
proof -
  have x: "card_xfer P 0xFF (k\<lparr>card_queue := b # q\<rparr>) = (b, k\<lparr>card_queue := q\<rparr>)"
    using assms(2,3) by (simp add: dummy_out card_out_def)
  show "takes P (sd_dummy hw N) (k\<lparr>card_queue := b # q\<rparr>) b id (k\<lparr>card_queue := q\<rparr>)" by (rule takes_xfer(1) [OF assms(1) x])
  show "takes P (sd_skip hw N) (k\<lparr>card_queue := b # q\<rparr>) () id (k\<lparr>card_queue := q\<rparr>)" by (rule takes_xfer(2) [OF assms(1) x])
qed

lemma takes_read_rest:
  assumes "attached hw N P"
  shows "takes P (sd_dummy hw N) ((at_rest 2 l ph a v n)\<lparr>card_queue := b # q\<rparr>) b id ((at_rest 2 l ph a v n)\<lparr>card_queue := q\<rparr>)"
    "takes P (sd_skip hw N) ((at_rest 2 l ph a v n)\<lparr>card_queue := b # q\<rparr>) () id ((at_rest 2 l ph a v n)\<lparr>card_queue := q\<rparr>)"
  by (rule takes_read [OF assms]; simp)+

lemma takes_end_rest: "attached hw N P \<Longrightarrow> takes P (sd_cmd_end hw N) (at_rest 2 l ph a v n) () id (at_rest 0 l ph a v n)"
  using takes_cmd_end [of hw N P "at_rest 2 l ph a v n"] by simp

lemma takes_cmd8:
  assumes "attached hw N P" "timely N P"
  shows "takes P (sd_cmd8 hw N) (at_rest c l (Card_idle i) a v n) False id (at_rest 0 l (Card_idle i) False True (n + 1))"
proof -
  note R = takes_read_rest [OF assms(1)]
  have c: "takes P (sd_cmd hw N 0x48 0x1AA 0x87) (at_rest c l (Card_idle i) a v n) 1 id
      ((at_rest 2 l (Card_idle i) False True (n + 1))\<lparr>card_queue := [0, 0, 1, 0xAA]\<rparr>)"
    by (rule takes_cmd_rest [OF assms]) (simp_all add: exec_simps)
  show ?thesis unfolding sd_cmd8_def
    by (rule takes_then [OF takes_prints(2) [OF assms(1)]], rule takes_same [OF c], rule takes_then [OF R(2)],
        rule takes_then [OF R(2)], rule takes_same [OF R(1)], rule takes_same [OF R(1)], unfold rest_queue,
        rule takes_then [OF takes_end_rest [OF assms(1)]]) (simp add: takes_rets)
qed

lemma takes_cmd58:
  assumes "attached hw N P" "timely N P"
  shows "takes P (sd_cmd58 hw N) (at_rest c l Card_ready a v n) False id (at_rest 0 l Card_ready False v (n + 1))"
proof -
  note R = takes_read_rest [OF assms(1)]
  have c: "takes P (sd_cmd hw N 0x7A 0 0xFD) (at_rest c l Card_ready a v n) 0 id
      ((at_rest 2 l Card_ready False v (n + 1))\<lparr>card_queue := [0xC0, 0xFF, 0x80, 0]\<rparr>)"
    by (rule takes_cmd_rest [OF assms]) (simp_all add: exec_simps)
  show ?thesis unfolding sd_cmd58_def
    by (rule takes_then [OF takes_prints(2) [OF assms(1)]], rule takes_same [OF c], rule takes_same [OF R(1)],
        rule takes_then [OF R(2)], rule takes_then [OF R(2)], rule takes_then [OF R(2)], unfold rest_queue,
        rule takes_then [OF takes_end_rest [OF assms(1)]]) (simp add: takes_rets)
qed

lemma takes_cmd16:
  assumes "attached hw N P" "timely N P"
  shows "takes P (sd_cmd16 hw N) (at_rest c l Card_ready a v n) False id (at_rest 0 l Card_ready False v (n + 1))"
proof -
  have c: "takes P (sd_cmd hw N 0x50 0x200 0x15) (at_rest c l Card_ready a v n) 0 id
      ((at_rest 2 l Card_ready False v (n + 1))\<lparr>card_queue := []\<rparr>)"
    by (rule takes_cmd_rest [OF assms]) (simp_all add: exec_simps)
  show ?thesis unfolding sd_cmd16_def
    by (rule takes_then [OF takes_prints(2) [OF assms(1)]], rule takes_same [OF c], unfold rest_queue,
        rule takes_then [OF takes_end_rest [OF assms(1)]]) (simp add: takes_rets)
qed

lemma takes_cmd55:
  assumes "attached hw N P" "timely N P"
  shows "takes P (sd_cmd55 hw N) (at_rest c l (Card_idle i) a v n) () id (at_rest 0 l (Card_idle i) True v (n + 1))"
proof -
  have c: "takes P (sd_cmd hw N 0x77 0 0x65) (at_rest c l (Card_idle i) a v n) 1 id
      ((at_rest 2 l (Card_idle i) True v (n + 1))\<lparr>card_queue := []\<rparr>)"
    by (rule takes_cmd_rest [OF assms]) (simp_all add: exec_simps)
  show ?thesis unfolding sd_cmd55_def by (rule takes_same [OF c], unfold rest_queue, rule takes_end_rest [OF assms(1)])
qed

text \<open>The loop over ACMD41 ends when the card is no longer busy.\<close>

lemma bit30: "bit (0x40000000 :: u32) 30"
  by simp

lemma takes_acmd41_loop:
  assumes "attached hw N P" "timely N P"
  shows "sp_rounds P - i < m \<Longrightarrow>
    \<exists>n'. takes P (acmd41_loop hw N m) (at_rest c l (Card_idle i) a True n) 0 id (at_rest 2 l Card_ready False True n')"
proof (induction m arbitrary: c i a n)
  case (Suc m)
  let ?cmd = "takes P (sd_cmd hw N 0x69 0x40000000 0x77) (at_rest 0 l (Card_idle i) True True (n + 1))"
  note C = takes_cmd_rest [OF assms, where cmd = "0x69" and arg = "0x40000000" and crc = "0x77" and q = "[]", unfolded rest_queue]
  show ?case
  proof (cases "sp_rounds P \<le> i")
    case True
    then have "?cmd 0 id (at_rest 2 l Card_ready False True (n + 1 + 1))" by (intro C) (simp_all add: exec_simps bit30)
    then show ?thesis unfolding acmd41_loop.simps
      by (intro exI [of _ "n + 1 + 1"] takes_then [OF takes_cmd55 [OF assms]] takes_same) (assumption, simp add: takes_rets)
  next
    case False
    then have c: "?cmd 1 id (at_rest 2 l (Card_idle (i + 1)) False True (n + 1 + 1))" by (intro C) (simp_all add: exec_simps bit30)
    have l: "sp_rounds P - (i + 1) < m" using Suc.prems False by arith
    obtain n' where "takes P (acmd41_loop hw N m) (at_rest 2 l (Card_idle (i + 1)) False True (n + 1 + 1)) 0 id (at_rest 2 l Card_ready False True n')"
      using Suc.IH [OF l, of 2 False "n + 1 + 1"] by blast
    then show ?thesis unfolding acmd41_loop.simps
      by (intro exI [of _ n'] takes_then [OF takes_cmd55 [OF assms]] takes_same [OF c]) (simp only: simp_thms if_True)
  qed
qed simp

lemma takes_acmd41:
  assumes "attached hw N P" "timely N P"
  shows "\<exists>n'. takes P (sd_acmd41 hw N) (at_rest c l (Card_idle 0) a True n) False id (at_rest 2 l Card_ready False True n')"
proof -
  obtain n' where "takes P (acmd41_loop hw N N) (at_rest c l (Card_idle 0) a True n) 0 id (at_rest 2 l Card_ready False True n')"
    using takes_acmd41_loop [OF assms, of 0 N c l a n] assms(2) by (auto simp: timely_def)
  then show ?thesis unfolding sd_acmd41_def
    by (intro exI [of _ n'] takes_then [OF takes_prints(2) [OF assms(1)]] takes_same) (assumption, simp add: takes_rets)
qed

section \<open>Loading\<close>

text \<open>The sectors go to the memory one after the other.\<close>

lemma store_append:
  "length d + length e < 2 ^ 64 \<Longrightarrow> store (p + of_nat (length d)) e (store p d m) = store p (d @ e) m"
proof (induction e rule: rev_induct)
  case (snoc x e)
  then show ?case
    using store_snoc [of e "p + of_nat (length d)" "store p d m" x] store_snoc [of "d @ e" p m x] by (simp add: add.assoc)
qed simp

lemma store_Cons: "length e < 2 ^ 64 - 1 \<Longrightarrow> store (p + 1) e (m(p := x)) = store p (x # e) m"
  using store_append [of "[x]" e p m] store_snoc [of "[]" p m x] by simp

lemma store_none: "store p [] = id"
  by (simp add: fun_eq_iff)

lemma takes_sector_loop:
  assumes "attached hw N P" "card_cs k \<noteq> SPI_CSMODE_OFF" "card_frame k = []"
  shows "length e < 2 ^ 64 \<Longrightarrow> takes P (sector_loop hw N (length e) p c) (k\<lparr>card_queue := e @ q\<rparr>) (foldl crc16_round c e)
    (store p e) (k\<lparr>card_queue := q\<rparr>)"
proof (induction e arbitrary: p c)
  case Nil
  show ?case unfolding store_none list.size sector_loop.simps foldl.simps append_Nil by (rule takes_ret)
next
  case (Cons x e)
  have "takes P (modM (\<lambda>s. s\<lparr>ram := (ram s)(p := x)\<rparr>)) k' () (\<lambda>m. m(p := x)) k'" for k' by (rule takes_mod) simp_all
  then have "takes P (sector_loop hw N (length (x # e)) p c) (k\<lparr>card_queue := x # e @ q\<rparr>) (foldl crc16_round (crc16_round c x) e)
      (store (p + 1) e \<circ> (\<lambda>m. m(p := x))) (k\<lparr>card_queue := q\<rparr>)"
    unfolding list.size add_Suc_right add_0_right sector_loop.simps using Cons
    by (intro takes_same [OF takes_read(1) [OF assms]] takes_seq) auto
  moreover have "store (p + 1) e \<circ> (\<lambda>m. m(p := x)) = store p (x # e)"
    using Cons.prems store_Cons [of e p] by (simp add: fun_eq_iff)
  ultimately show ?case by simp
qed

lemma takes_token_loop:
  assumes "attached hw N P" "card_cs k \<noteq> SPI_CSMODE_OFF" "card_frame k = []"
  shows "card_cs k0 \<noteq> SPI_CSMODE_OFF \<Longrightarrow> card_frame k0 = [] \<Longrightarrow>
    card_out P k0 = card_out P (k\<lparr>card_queue := replicate n 0xFF @ 0xFE # q\<rparr>) \<Longrightarrow> n < i \<Longrightarrow>
    takes P (token_loop hw N i) k0 () id (k\<lparr>card_queue := q\<rparr>)"
proof (induction n arbitrary: i k0)
  case 0
  then obtain i' where i: "i = Suc i'" by (cases i) auto
  have x: "card_xfer P 0xFF k0 = (0xFE, k\<lparr>card_queue := q\<rparr>)" using 0 by (simp add: dummy_out) (simp add: card_out_def)
  show ?case unfolding i token_loop.simps by (rule takes_same [OF takes_xfer(1) [OF assms(1) x]]) (simp add: takes_rets)
next
  case (Suc n)
  then obtain i' where i: "i = Suc i'" "n < i'" by (cases i) auto
  let ?k = "k\<lparr>card_queue := replicate n 0xFF @ 0xFE # q\<rparr>"
  have x: "card_xfer P 0xFF k0 = (0xFF, ?k)" using Suc.prems by (simp add: dummy_out) (simp add: card_out_def)
  have "takes P (token_loop hw N i') ?k () id (k\<lparr>card_queue := q\<rparr>)" using assms i(2) by (intro Suc.IH) simp_all
  then show ?case unfolding i token_loop.simps by (intro takes_same [OF takes_xfer(1) [OF assms(1) x]]) (simp add: id_def)
qed

lemma takes_spin:
  assumes "attached hw N P"
  shows "takes P (whenM b (seqM (kputc hw N 8) (bindM (liftO (rd spinner (j mod 4))) (kputc hw N)))) k () id k"
proof -
  have "\<exists>x. rd spinner (j mod 4) = Some x" by (simp add: rd_def spinner_def)
  then obtain x where "rd spinner (j mod 4) = Some x" ..
  then show ?thesis unfolding whenM_def liftO_def using assms
    by (auto intro!: takes_ret takes_then [OF takes_kputc] takes_same [OF takes_ret] takes_kputc)
qed

text \<open>A card in the middle of CMD18, before the given sector.\<close>

definition sending :: "nat \<Rightarrow> sd_card \<Rightarrow> sd_card" where
  "sending a k = k\<lparr>card_stream := Some a, card_queue := []\<rparr>"

lemma takes_copy_loop:
  assumes "attached hw N P" "timely N P" "card_cs k \<noteq> SPI_CSMODE_OFF" "card_frame k = []"
  shows "512 * n < 2 ^ 64 \<Longrightarrow> takes P (copy_loop hw N n p) (sending a k) False
    (store p (concat (map (sp_disk P) [a..<a + n]))) (sending (a + n) k)"
proof (induction n arbitrary: p a)
  case 0
  show ?case by (simp add: store_none takes_rets)
next
  case (Suc n)
  define d hi lo where "d = sp_disk P a" and "hi = (ucast (drop_bit 8 (crc16 d)) :: u8)" and "lo = (ucast (crc16 d) :: u8)"
  let ?k = "k\<lparr>card_stream := Some (a + 1)\<rparr>"
  have d: "length d = 512" "sp_nac P a < N" using assms(2) by (simp_all add: timely_def d_def)
  have k: "card_cs ?k \<noteq> SPI_CSMODE_OFF" "card_frame ?k = []" using assms(3,4) by simp_all
  have blk: "card_block P a = replicate (sp_nac P a) 0xFF @ 0xFE # d @ hi # lo # []" "card_block P a \<noteq> []"
    by (simp_all add: card_block_def framed_def d_def hi_def lo_def)
  have "card_out P (sending a k) = card_out P (?k\<lparr>card_queue := card_block P a\<rparr>)"
    using blk(2) by (cases "card_block P a") (simp_all add: card_out_def sending_def)
  then have tok: "takes P (token_loop hw N N) (sending a k) () id (?k\<lparr>card_queue := d @ hi # lo # []\<rparr>)"
    using takes_token_loop [OF assms(1) k, of "sending a k" "sp_nac P a"] assms(3,4) d(2) unfolding blk(1) by (simp add: sending_def)
  have crc: "foldl crc16_round 0 d = (push_bit 8 (ucast hi) OR ucast lo)"
    using crc_bytes [of "crc16 d" hi lo] by (simp add: crc16_def hi_def lo_def)
  have data: "takes P (sector_loop hw N 512 p 0) (?k\<lparr>card_queue := d @ hi # lo # []\<rparr>) (foldl crc16_round 0 d) (store p d)
      (?k\<lparr>card_queue := hi # lo # []\<rparr>)"
    using takes_sector_loop [OF assms(1) k, of d p 0] d(1) by simp
  have nx: "?k\<lparr>card_queue := []\<rparr> = sending (a + 1) k" by (simp add: sending_def)
  have "takes P (copy_loop hw N (Suc n) p) (sending a k) False
      (store (p + 512) (concat (map (sp_disk P) [a + 1..<a + 1 + n])) \<circ> store p d) (sending (a + 1 + n) k)"
    unfolding copy_loop.simps
    by (rule takes_then [OF tok], rule takes_bind [OF data], rule takes_same [OF takes_read(1) [OF assms(1) k]],
        rule takes_same [OF takes_read(1) [OF assms(1) k]], unfold crc, simp only: simp_thms if_False nx,
        rule takes_then [OF takes_spin [OF assms(1)]], rule Suc.IH) (use Suc.prems in simp)
  moreover have "store (p + 512) (concat (map (sp_disk P) [a + 1..<a + 1 + n])) \<circ> store p d = store p (concat (map (sp_disk P) [a..<a + Suc n]))"
  proof -
    have "length (concat (map (sp_disk P) xs)) = 512 * length xs" for xs
      using assms(2) by (induction xs) (simp_all add: timely_def)
    then show ?thesis using store_append [of d "concat (map (sp_disk P) [a + 1..<a + 1 + n])" p] d(1) Suc.prems
      by (simp add: fun_eq_iff upt_conv_Cons d_def del: upt_Suc)
  qed
  ultimately show ?case by (simp del: upt_Suc)
qed

text \<open>CMD12 stops a card that sends sectors, wherever it is in one.\<close>

lemma card_afters_simps [simp]:
  "card_frame ((card_after P ^^ m) k) = card_frame k" "card_cs ((card_after P ^^ m) k) = card_cs k"
  "card_phase ((card_after P ^^ m) k) = card_phase k" "card_cmds ((card_after P ^^ m) k) = card_cmds k"
  "card_clocks ((card_after P ^^ m) k) = card_clocks k" "card_v2 ((card_after P ^^ m) k) = card_v2 k"
  by (induction m) simp_all

lemma exec_stop:
  assumes "card_frame k = []" "card_phase k = Card_ready"
  shows "card_exec P [0x4C, 0, 0, 0, 0, 1] k =
    (at_rest (card_cs k) (card_clocks k) Card_ready False (card_v2 k) (card_cmds k + 1))\<lparr>card_queue := replicate (sp_ncr P (card_cmds k)) 0xFF @ 0 # []\<rparr>"
  using assms by (cases k) (simp add: exec_simps)

lemma takes_stop:
  assumes "attached hw N P" "timely N P" "card_frame k = []" "card_phase k = Card_ready"
  shows "takes P (sd_cmd hw N 0x4C 0 0x01) k 0 id (at_rest 2 (card_clocks k) Card_ready False (card_v2 k) (card_cmds k + 1))"
proof -
  have "takes P (sd_cmd hw N 0x4C 0 0x01) k 0 id
      ((at_rest 2 (card_clocks k) Card_ready False (card_v2 k) (card_cmds k + 1))\<lparr>card_queue := []\<rparr>)"
    by (rule takes_sd_cmd [OF assms(1-3), where i = "card_cmds k"]) (use assms(3,4) in \<open>simp_all add: exec_stop\<close>)
  then show ?thesis unfolding rest_queue .
qed

lemma takes_copy:
  assumes "attached hw N P" "timely N P"
  shows "takes P (copy hw N) (at_rest c l Card_ready a v n) False (store PAYLOAD_DEST (concat (map (sp_disk P) [34..<34 + PAYLOAD_SIZE])))
    (at_rest 0 l Card_ready False v (n + 2))"
proof -
  let ?k = "at_rest 2 l Card_ready False v (n + 1)" and ?st = "store PAYLOAD_DEST (concat (map (sp_disk P) [34..<34 + PAYLOAD_SIZE]))"
  have start: "takes P (sd_cmd hw N 0x52 34 0xE1) (at_rest c l Card_ready a v n) 0 id (sending 34 ?k)"
  proof -
    have "card_exec P [0x52, 0, 0, 0, 34, 0xE1] (at_rest 2 l Card_ready a v n) =
        (sending 34 ?k)\<lparr>card_queue := replicate (sp_ncr P n) 0xFF @ 0 # []\<rparr>" by (simp add: exec_simps sending_def)
    then have "takes P (sd_cmd hw N 0x52 34 0xE1) (at_rest c l Card_ready a v n) 0 id ((sending 34 ?k)\<lparr>card_queue := []\<rparr>)"
      by (intro takes_sd_cmd [OF assms, where i = n]) (simp_all add: sending_def)
    then show ?thesis by (simp add: sending_def)
  qed
  have loop: "takes P (copy_loop hw N PAYLOAD_SIZE PAYLOAD_DEST) (sending 34 ?k) False ?st (sending (34 + PAYLOAD_SIZE) ?k)"
    by (rule takes_copy_loop [OF assms]) (simp_all add: PAYLOAD_SIZE_def)
  let ?e = "(card_after P (sending (34 + PAYLOAD_SIZE) ?k))\<lparr>card_cs := 0\<rparr>"
  have "takes P (sd_cmd_end hw N) (sending (34 + PAYLOAD_SIZE) ?k) () id ?e"
    by (rule takes_cmd_end [OF assms(1)]) (simp_all add: sending_def)
  moreover have "takes P (sd_cmd hw N 0x4C 0 0x01) ?e 0 id (at_rest 2 l Card_ready False v (n + 2))"
    using takes_stop [OF assms, of ?e] by (simp add: sending_def)
  ultimately have tail: "takes P (seqM (sd_cmd_end hw N) (bindM (sd_cmd hw N 0x4C 0 0x01) (\<lambda>_.
      seqM (sd_cmd_end hw N) (seqM (kputs hw N (8 # bs '' '')) (retM False))))) (sending (34 + PAYLOAD_SIZE) ?k) False id
      (at_rest 0 l Card_ready False v (n + 2))"
    by (elim takes_then takes_same) (intro takes_then [OF takes_end_rest [OF assms(1)]] takes_then [OF takes_prints(2) [OF assms(1)]] takes_ret)
  have body: "takes P (bindM (copy_loop hw N PAYLOAD_SIZE PAYLOAD_DEST) (\<lambda>rc. seqM (sd_cmd_end hw N) (bindM (sd_cmd hw N 0x4C 0 0x01) (\<lambda>_.
      seqM (sd_cmd_end hw N) (seqM (kputs hw N (8 # bs '' '')) (retM rc)))))) (sending 34 ?k) False (id \<circ> ?st) (at_rest 0 l Card_ready False v (n + 2))"
    by (rule takes_bind [OF loop], rule tail)
  show ?thesis unfolding copy_def
    by (intro takes_then [OF takes_prints(2) [OF assms(1)]] takes_then [OF takes_kprintf(1) [OF assms(1)]]
        takes_then [OF takes_kprintf(2) [OF assms(1)]] takes_then [OF takes_event(1)] takes_same [OF start])
       (simp only: simp_thms if_False body [unfolded id_comp])
qed

lemma takes_first_failure:
  "takes P m k False id k1 \<Longrightarrow> takes P (first_failure ms) k1 False f k2 \<Longrightarrow> takes P (first_failure (m # ms)) k False f k2"
  unfolding first_failure.simps by (rule takes_same, assumption, unfold if_False)

lemma takes_only: "takes P m k False f k' \<Longrightarrow> takes P (first_failure [m]) k False f k'"
  using takes_bind [of P m k False f k' "\<lambda>failed. if failed then retM True else first_failure []" False id k'] by (simp add: takes_rets)

lemma takes_main:
  assumes "attached hw N P" "timely N P"
  shows "\<exists>n. takes P (sd_main hw N) card_init 0 (store PAYLOAD_DEST (concat (map (sp_disk P) [34..<34 + PAYLOAD_SIZE])))
    (at_rest 0 80 Card_ready False True n)"
proof -
  let ?st = "store PAYLOAD_DEST (concat (map (sp_disk P) [34..<34 + PAYLOAD_SIZE]))"
  obtain n where r: "takes P (sd_acmd41 hw N) (at_rest 0 80 (Card_idle 0) False True (0 + 1 + 1)) False id (at_rest 2 80 Card_ready False True n)"
    using takes_acmd41 [OF assms] by blast
  let ?k = "at_rest 0 80 Card_ready False True (n + 1 + 1 + 2)"
  have i: "takes P (first_failure [sd_cmd0 hw N, sd_cmd8 hw N, sd_acmd41 hw N, sd_cmd58 hw N, sd_cmd16 hw N, copy hw N])
      (at_rest 0 80 Card_off False False 0) False ?st ?k"
    by (rule takes_first_failure [OF takes_cmd0 [OF assms]], simp, rule takes_first_failure [OF takes_cmd8 [OF assms]],
        rule takes_first_failure [OF r], rule takes_first_failure [OF takes_cmd58 [OF assms]],
        rule takes_first_failure [OF takes_cmd16 [OF assms]], rule takes_only [OF takes_copy [OF assms]])
  have m: "takes P (modM (\<lambda>s. s\<lparr>uart_txctrl := UART_TXEN\<rparr>)) card_init () id card_init" by (rule takes_mod) simp_all
  have e: "takes P (seqM (kputs hw N (bs ''BOOT'')) (retM 0)) k (0 :: int) id k" for k
    by (rule takes_then [OF takes_prints(2) [OF assms(1)] takes_ret])
  have "takes P (sd_main hw N) card_init 0 (id \<circ> ?st) ?k" unfolding sd_main_def
    by (rule takes_then [OF m], rule takes_then [OF takes_prints(2) [OF assms(1)]], rule takes_then [OF takes_poweron [OF assms(1)]],
        rule takes_bind [OF i]) (simp only: if_False e)
  then show ?thesis unfolding id_comp by blast
qed

lemma nth_sectors:
  assumes "\<And>a. length (f a) = 512"
  shows "i < 512 * n \<Longrightarrow> concat (map f [a..<a + n]) ! i = f (a + i div 512) ! (i mod 512)"
proof (induction n)
  case (Suc n)
  have l: "length (concat (map f [a..<a + n])) = 512 * n" using assms by (induction n) simp_all
  show ?case
  proof (cases "i < 512 * n")
    case False
    then have "i div 512 = n" using Suc.prems by (intro div_nat_eqI) simp_all
    moreover from this have "i mod 512 = i - 512 * n" by (metis minus_mult_div_eq_mod)
    ultimately show ?thesis using False l by (simp add: nth_append)
  qed (use Suc l in \<open>simp add: nth_append\<close>)
qed simp

lemma payload_sectors:
  assumes "timely N P"
  shows "store PAYLOAD_DEST (concat (map (sp_disk P) [34..<34 + PAYLOAD_SIZE])) m a =
    (let i = unat (a - 0x80000000) in if i < 0x8000000 then sp_disk P (34 + i div 512) ! (i mod 512) else m a)"
proof -
  have f: "length (sp_disk P a) = 512" for a using assms by (simp add: timely_def)
  have n: "512 * PAYLOAD_SIZE = 0x8000000" by (simp add: PAYLOAD_SIZE_def)
  have "length (concat (map (sp_disk P) [i..<i + j])) = 512 * j" for i j by (induction j) (simp_all add: f)
  from this [of 34 PAYLOAD_SIZE] show ?thesis
    unfolding store_def Let_def using nth_sectors [of "sp_disk P" _ PAYLOAD_SIZE 34, OF f] by (simp only: n) simp
qed

section \<open>The loader and the card\<close>

text \<open>A card on a controller that shows every byte at the second look: busy for one round of ACMD41, a byte of delay before each response
  and each sector, and sectors that hold the low byte of their number.\<close>

definition demo_params :: sd_params where
  "demo_params = \<lparr>sp_disk = (\<lambda>a. replicate 512 (of_nat a)), sp_ncr = (\<lambda>_. 1), sp_nac = (\<lambda>_. 1), sp_rounds = 1\<rparr>"

definition demo_hw :: sd_hw where
  "demo_hw = \<lparr>hw_rxfifo = (\<lambda>log k. if k = 0 then 0x80000000
       else (case rev log of Tx d # l \<Rightarrow> ucast (fst (card_xfer demo_params d (card_at demo_params (rev l)))) | _ \<Rightarrow> 0)),
     hw_txfifo = (\<lambda>out k. 0), hw_clk = 50000000\<rparr>"

lemma demo_attached: "attached demo_hw 2 demo_params"
proof -
  have "displays 2 (\<lambda>k. if k = 0 then 0x80000000 else ucast b) b" for b :: u8
    unfolding displays_def using bit_last_iff [of "ucast b :: u32"]
    by (intro exI [of _ 1]) (auto simp: bit_ucast_iff not_less intro!: bit_word_eqI dest: bit_imp_le_length)
  moreover have "displays 2 (\<lambda>k. 0) 0" unfolding displays_def by (intro exI [of _ 0]) simp
  moreover have "hw_rxfifo demo_hw (log @ [Tx d]) =
      (\<lambda>k. if k = 0 then 0x80000000 else ucast (fst (card_xfer demo_params d (card_at demo_params log))))" for log d
    by (simp add: demo_hw_def fun_eq_iff)
  ultimately show ?thesis by (auto simp: attached_def) (auto simp: demo_hw_def)
qed

text \<open>C10: A card that follows the protocol is loaded completely.  Let a high capacity SD card that has just been switched on be attached, with
  arbitrary contents and with delays within the limits of the loader (fewer than 1000 bytes before a response, fewer than the
  fuel before a sector, fewer rounds of ACMD41 than the fuel).  The card sends a sector only when a read command has asked for it.  Then the boot loader
  returns 0; the 128 MiB of memory from 0x80000000 on hold the sectors of the card from number 34 on, in order, and the rest
  of the memory is unchanged; and the card is left idle again, its transfer stopped.\<close>

theorem sd_main_loads_card:
  assumes "attached hw N P" "timely N P" "spi_log s = []"
  shows "\<exists>s'. sd_main hw N s = Ret 0 s' \<and>
    (\<forall>a. ram s' a = (let i = unat (a - 0x80000000) in
       if i < 0x8000000 then sp_disk P (34 + i div 512) ! (i mod 512) else ram s a)) \<and>
    card_phase (card_at P (spi_log s')) = Card_ready \<and> card_stream (card_at P (spi_log s')) = None"
proof -
  obtain n where "takes P (sd_main hw N) card_init 0 (store PAYLOAD_DEST (concat (map (sp_disk P) [34..<34 + PAYLOAD_SIZE])))
      (at_rest 0 80 Card_ready False True n)"
    using takes_main [OF assms(1,2)] by blast
  moreover have "card_at P (spi_log s) = card_init" by (simp add: assms(3) card_at_def)
  ultimately show ?thesis using payload_sectors [OF assms(2), of "ram s"] unfolding takes_def by force
qed

theorem sd_main_loads_card_witness:
  "\<exists>s'. sd_main demo_hw 2 \<lparr>spi_log = [], uart_out = [], uart_txctrl = 0, ram = \<lambda>_. 0\<rparr> = Ret 0 s' \<and>
    ram s' 0x80000000 = 34 \<and> ram s' 0x80000200 = 35 \<and> ram s' 0x90000000 = 0"
proof -
  let ?s = "\<lparr>spi_log = [], uart_out = [], uart_txctrl = 0, ram = \<lambda>_. 0\<rparr>"
  have "timely 2 demo_params" by (simp add: timely_def demo_params_def)
  then obtain s' where "sd_main demo_hw 2 ?s = Ret 0 s'" and r: "\<And>a. ram s' a = (let i = unat (a - 0x80000000) in
       if i < 0x8000000 then sp_disk demo_params (34 + i div 512) ! (i mod 512) else ram ?s a)"
    using sd_main_loads_card [OF demo_attached, of ?s] by force
  then show ?thesis by (intro exI [of _ s']) (simp add: r demo_params_def)
qed

end
