(* ===== verification/Fdt_Base.thy ===== *)
theory Fdt_Base
  imports Sbi_Strings Sbi_Machine
begin

text \<open>
  The tag level of the flattened device tree library, \<^verbatim>\<open>lib/utils/libfdt/fdt.c\<close>: the header and its checks, the
  lexer \<open>fdt_next_tag\<close>, and the walk from node to node.

  A function that reads a tree is a computation on the bytes of the blob. Pointers into the blob are
  byte indices, and a read outside the blob halts with \<open>BadAccess\<close>. Offsets and results of type \<^verbatim>\<open>int\<close> are 32-bit words, read
  as signed numbers where the code compares them as such, so that the mixed arithmetic of the source keeps its
  wrap-around. The argument \<open>N\<close> bounds the rounds of each loop.
\<close>

section \<open>Reading the blob\<close>

type_synonym 'a fdtM = "u8 list \<Rightarrow> (u8 list, 'a) outcome"

abbreviation (input) FDT_ERR_NOTFOUND :: u32 where "FDT_ERR_NOTFOUND \<equiv> 1"
abbreviation (input) FDT_ERR_NOSPACE :: u32 where "FDT_ERR_NOSPACE \<equiv> 3"
abbreviation (input) FDT_ERR_BADOFFSET :: u32 where "FDT_ERR_BADOFFSET \<equiv> 4"
abbreviation (input) FDT_ERR_BADPATH :: u32 where "FDT_ERR_BADPATH \<equiv> 5"
abbreviation (input) FDT_ERR_BADPHANDLE :: u32 where "FDT_ERR_BADPHANDLE \<equiv> 6"
abbreviation (input) FDT_ERR_BADSTATE :: u32 where "FDT_ERR_BADSTATE \<equiv> 7"
abbreviation (input) FDT_ERR_TRUNCATED :: u32 where "FDT_ERR_TRUNCATED \<equiv> 8"
abbreviation (input) FDT_ERR_BADMAGIC :: u32 where "FDT_ERR_BADMAGIC \<equiv> 9"
abbreviation (input) FDT_ERR_BADVERSION :: u32 where "FDT_ERR_BADVERSION \<equiv> 10"
abbreviation (input) FDT_ERR_BADSTRUCTURE :: u32 where "FDT_ERR_BADSTRUCTURE \<equiv> 11"
abbreviation (input) FDT_ERR_INTERNAL :: u32 where "FDT_ERR_INTERNAL \<equiv> 13"
abbreviation (input) FDT_ERR_BADNCELLS :: u32 where "FDT_ERR_BADNCELLS \<equiv> 14"
abbreviation (input) FDT_ERR_BADVALUE :: u32 where "FDT_ERR_BADVALUE \<equiv> 15"
abbreviation (input) FDT_ERR_NOPHANDLES :: u32 where "FDT_ERR_NOPHANDLES \<equiv> 17"

abbreviation (input) FDT_MAGIC :: u32 where "FDT_MAGIC \<equiv> 0xd00dfeed"
abbreviation (input) FDT_SW_MAGIC :: u32 where "FDT_SW_MAGIC \<equiv> 0x2ff20112"
abbreviation (input) FDT_BEGIN_NODE :: u32 where "FDT_BEGIN_NODE \<equiv> 1"
abbreviation (input) FDT_END_NODE :: u32 where "FDT_END_NODE \<equiv> 2"
abbreviation (input) FDT_PROP :: u32 where "FDT_PROP \<equiv> 3"
abbreviation (input) FDT_NOP :: u32 where "FDT_NOP \<equiv> 4"
abbreviation (input) FDT_END :: u32 where "FDT_END \<equiv> 9"
abbreviation (input) FDT_TAGSIZE :: u32 where "FDT_TAGSIZE \<equiv> 4"
abbreviation (input) INT_MAX :: u32 where "INT_MAX \<equiv> 0x7fffffff"

text \<open>The tests \<open>x < 0\<close> of C on a value of type \<^verbatim>\<open>int\<close>.\<close>

definition neg :: "u32 \<Rightarrow> bool" where
  "neg x \<longleftrightarrow> sint x < 0"

definition ld8 :: "nat \<Rightarrow> u8 fdtM" where
  "ld8 p = bindM (getM (\<lambda>m. rd m p)) liftO"

definition be_word :: "u8 list \<Rightarrow> 'a::len word" where
  "be_word bs = foldl (\<lambda>v b. shl v 8 OR ucast b) 0 bs"

definition fdt32_ld :: "nat \<Rightarrow> u32 fdtM" where
  "fdt32_ld p = bindM (getM (\<lambda>m. if p + 4 \<le> length m then Some (be_word (blk m p 4)) else None)) liftO"

definition fdt64_ld :: "nat \<Rightarrow> u64 fdtM" where
  "fdt64_ld p = bindM (getM (\<lambda>m. if p + 8 \<le> length m then Some (be_word (blk m p 8)) else None)) liftO"

text \<open>Calls of the string routines on the blob.\<close>

definition on_blob :: "(u8 list \<Rightarrow> 'a option) \<Rightarrow> 'a fdtM" where
  "on_blob f = bindM (getM f) liftO"

section \<open>The header\<close>

definition fdt_magic :: "u32 fdtM" where "fdt_magic = fdt32_ld 0"
definition fdt_totalsize :: "u32 fdtM" where "fdt_totalsize = fdt32_ld 4"
definition fdt_off_dt_struct :: "u32 fdtM" where "fdt_off_dt_struct = fdt32_ld 8"
definition fdt_off_dt_strings :: "u32 fdtM" where "fdt_off_dt_strings = fdt32_ld 12"
definition fdt_off_mem_rsvmap :: "u32 fdtM" where "fdt_off_mem_rsvmap = fdt32_ld 16"
definition fdt_version :: "u32 fdtM" where "fdt_version = fdt32_ld 20"
definition fdt_last_comp_version :: "u32 fdtM" where "fdt_last_comp_version = fdt32_ld 24"
definition fdt_size_dt_strings :: "u32 fdtM" where "fdt_size_dt_strings = fdt32_ld 32"
definition fdt_size_dt_struct :: "u32 fdtM" where "fdt_size_dt_struct = fdt32_ld 36"

definition fdt_ro_probe_u :: "u32 fdtM" where
  "fdt_ro_probe_u =
     bindM fdt_totalsize (\<lambda>totalsize.
     let size = retM (if totalsize < INT_MAX then totalsize else - FDT_ERR_TRUNCATED) in
     bindM fdt_magic (\<lambda>magic.
     if magic = FDT_MAGIC then
       bindM fdt_version (\<lambda>version.
       if version < 0x02 then retM (- FDT_ERR_BADVERSION)
       else bindM fdt_last_comp_version (\<lambda>last.
         if 0x11 < last then retM (- FDT_ERR_BADVERSION) else size))
     else if magic = FDT_SW_MAGIC then
       bindM fdt_size_dt_struct (\<lambda>struct. if struct = 0 then retM (- FDT_ERR_BADSTATE) else size)
     else retM (- FDT_ERR_BADMAGIC)))"

text \<open>The macro that returns from the calling function when the probe fails.\<close>

definition FDT_RO_PROBE :: "u32 fdtM \<Rightarrow> u32 fdtM" where
  "FDT_RO_PROBE m = bindM fdt_ro_probe_u (\<lambda>totalsize. if neg totalsize then retM totalsize else m)"

definition check_off_u :: "u32 \<Rightarrow> u32 \<Rightarrow> u32 \<Rightarrow> bool" where
  "check_off_u hdrsize totalsize off \<longleftrightarrow> hdrsize \<le> off \<and> off \<le> totalsize"

definition check_block_u :: "u32 \<Rightarrow> u32 \<Rightarrow> u32 \<Rightarrow> u32 \<Rightarrow> bool" where
  "check_block_u hdrsize totalsize base bsize =
     (if \<not> check_off_u hdrsize totalsize base then False
      else if base + bsize < base then False
      else if \<not> check_off_u hdrsize totalsize (base + bsize) then False
      else True)"

definition fdt_header_size_u :: "u32 \<Rightarrow> u32" where
  "fdt_header_size_u version =
     (if version \<le> 1 then 28 else if version \<le> 2 then 32 else if version \<le> 3 then 36
      else if version \<le> 16 then 36 else 40)"

definition fdt_check_header :: "u32 fdtM" where
  "fdt_check_header =
     bindM fdt_magic (\<lambda>magic.
     if magic \<noteq> FDT_MAGIC then retM (- FDT_ERR_BADMAGIC)
     else bindM fdt_version (\<lambda>version.
     let hdrsize = fdt_header_size_u version in
     bindM fdt_last_comp_version (\<lambda>last.
     if version < 0x02 \<or> 0x11 < last then retM (- FDT_ERR_BADVERSION)
     else if version < last then retM (- FDT_ERR_BADVERSION)
     else bindM fdt_totalsize (\<lambda>totalsize.
     if totalsize < hdrsize \<or> INT_MAX < totalsize then retM (- FDT_ERR_TRUNCATED)
     else bindM fdt_off_mem_rsvmap (\<lambda>rsvmap.
     if \<not> check_off_u hdrsize totalsize rsvmap then retM (- FDT_ERR_TRUNCATED)
     else bindM fdt_off_dt_struct (\<lambda>struct.
     bindM (if version < 17 then retM (check_off_u hdrsize totalsize struct)
            else bindM fdt_size_dt_struct (\<lambda>size. retM (check_block_u hdrsize totalsize struct size))) (\<lambda>ok.
     if \<not> ok then retM (- FDT_ERR_TRUNCATED)
     else bindM fdt_off_dt_strings (\<lambda>strings.
     bindM fdt_size_dt_strings (\<lambda>size.
     if \<not> check_block_u hdrsize totalsize strings size then retM (- FDT_ERR_TRUNCATED)
     else retM 0)))))))))"

section \<open>Tags\<close>

definition fdt_offset_ptr_u :: "u32 \<Rightarrow> nat fdtM" where
  "fdt_offset_ptr_u offset =
     bindM fdt_off_dt_struct (\<lambda>struct. retM (unat (ucast struct + scast offset :: u64)))"

definition fdt_offset_ptr :: "u32 \<Rightarrow> u32 \<Rightarrow> nat option fdtM" where
  "fdt_offset_ptr offset len =
     bindM fdt_off_dt_struct (\<lambda>struct.
     let absoffset = offset + struct in
     bindM fdt_totalsize (\<lambda>totalsize.
     if absoffset < offset \<or> absoffset + len < absoffset \<or> totalsize < absoffset + len then retM None
     else bindM fdt_version (\<lambda>version.
       if version \<ge> 0x11 then
         bindM fdt_size_dt_struct (\<lambda>size.
         if offset + len < offset \<or> size < offset + len then retM None
         else bindM (fdt_offset_ptr_u offset) (\<lambda>p. retM (Some p)))
       else bindM (fdt_offset_ptr_u offset) (\<lambda>p. retM (Some p)))))"

text \<open>The loop that skips the name of a node: the offset behind the terminator, or nothing at a premature end.\<close>

primrec skip_name :: "nat \<Rightarrow> u32 \<Rightarrow> u32 option fdtM" where
  "skip_name 0 offset = haltM Spin"
| "skip_name (Suc k) offset =
     bindM (fdt_offset_ptr offset 1) (\<lambda>p.
     case p of None \<Rightarrow> retM None
     | Some p \<Rightarrow> bindM (ld8 p) (\<lambda>c. if c \<noteq> 0 then skip_name k (offset + 1) else retM (Some (offset + 1))))"

definition FDT_TAGALIGN :: "u32 \<Rightarrow> u32" where
  "FDT_TAGALIGN x = (x + FDT_TAGSIZE - 1) AND NOT (FDT_TAGSIZE - 1)"

text \<open>The offset behind a tag of the given kind, before alignment; the tag itself has been read.\<close>

definition tag_end :: "nat \<Rightarrow> u32 \<Rightarrow> u32 \<Rightarrow> u32 option fdtM" where
  "tag_end N tag offset =
     (if tag = FDT_BEGIN_NODE then skip_name N offset
      else if tag = FDT_PROP then
        bindM (fdt_offset_ptr offset 4) (\<lambda>lenp.
        case lenp of None \<Rightarrow> retM None
        | Some lenp \<Rightarrow>
            bindM (fdt32_ld lenp) (\<lambda>len.
            let offset = offset + (12 - FDT_TAGSIZE + len) in
            bindM fdt_version (\<lambda>version.
            retM (Some (if version < 0x10 \<and> 8 \<le> len \<and> (offset - len) mod 8 \<noteq> 0 then offset + 4 else offset)))))
      else if tag = FDT_END \<or> tag = FDT_END_NODE \<or> tag = FDT_NOP then retM (Some offset)
      else retM None)"

definition fdt_next_tag :: "nat \<Rightarrow> u32 \<Rightarrow> (u32 \<times> u32) fdtM" where
  "fdt_next_tag N startoffset =
     bindM (fdt_offset_ptr startoffset FDT_TAGSIZE) (\<lambda>tagp.
     case tagp of None \<Rightarrow> retM (FDT_END, - FDT_ERR_TRUNCATED)
     | Some tagp \<Rightarrow>
         bindM (fdt32_ld tagp) (\<lambda>tag.
         bindM (tag_end N tag (startoffset + FDT_TAGSIZE)) (\<lambda>offset.
         case offset of None \<Rightarrow> retM (FDT_END, - FDT_ERR_BADSTRUCTURE)
         | Some offset \<Rightarrow>
             bindM (fdt_offset_ptr startoffset (offset - startoffset)) (\<lambda>p.
             case p of None \<Rightarrow> retM (FDT_END, - FDT_ERR_BADSTRUCTURE)
             | Some _ \<Rightarrow> retM (tag, FDT_TAGALIGN offset)))))"

definition fdt_check_node_offset_u :: "nat \<Rightarrow> u32 \<Rightarrow> u32 fdtM" where
  "fdt_check_node_offset_u N offset =
     (if neg offset \<or> offset mod FDT_TAGSIZE \<noteq> 0 then retM (- FDT_ERR_BADOFFSET)
      else bindM (fdt_next_tag N offset) (\<lambda>(tag, offset).
        retM (if tag \<noteq> FDT_BEGIN_NODE then - FDT_ERR_BADOFFSET else offset)))"

definition fdt_check_prop_offset_u :: "nat \<Rightarrow> u32 \<Rightarrow> u32 fdtM" where
  "fdt_check_prop_offset_u N offset =
     (if neg offset \<or> offset mod FDT_TAGSIZE \<noteq> 0 then retM (- FDT_ERR_BADOFFSET)
      else bindM (fdt_next_tag N offset) (\<lambda>(tag, offset).
        retM (if tag \<noteq> FDT_PROP then - FDT_ERR_BADOFFSET else offset)))"

section \<open>From node to node\<close>

text \<open>
  \<open>fdt_next_node\<close> takes the depth counter as a pointer that may be null: an option here, returned with its new value.
\<close>

primrec next_node_loop :: "nat \<Rightarrow> nat \<Rightarrow> u32 \<Rightarrow> u32 option \<Rightarrow> (u32 \<times> u32 option) fdtM" where
  "next_node_loop N 0 offset depth = haltM Spin"
| "next_node_loop N (Suc k) offset depth =
     bindM (fdt_next_tag N offset) (\<lambda>(tag, nextoffset).
     if tag = FDT_BEGIN_NODE then retM (offset, map_option (\<lambda>d. d + 1) depth)
     else if tag = FDT_END_NODE then
       (case depth of None \<Rightarrow> next_node_loop N k nextoffset None
        | Some d \<Rightarrow> if neg (d - 1) then retM (nextoffset, Some (d - 1))
                   else next_node_loop N k nextoffset (Some (d - 1)))
     else if tag = FDT_END then
       retM (if \<not> neg nextoffset \<or> nextoffset = - FDT_ERR_TRUNCATED \<and> depth = None then - FDT_ERR_NOTFOUND
             else nextoffset, depth)
     else next_node_loop N k nextoffset depth)"

definition fdt_next_node :: "nat \<Rightarrow> u32 \<Rightarrow> u32 option \<Rightarrow> (u32 \<times> u32 option) fdtM" where
  "fdt_next_node N offset depth =
     (if \<not> neg offset then
        bindM (fdt_check_node_offset_u N offset) (\<lambda>nextoffset.
        if neg nextoffset then retM (nextoffset, depth) else next_node_loop N N nextoffset depth)
      else next_node_loop N N 0 depth)"

definition fdt_first_subnode :: "nat \<Rightarrow> u32 \<Rightarrow> u32 fdtM" where
  "fdt_first_subnode N offset =
     bindM (fdt_next_node N offset (Some 0)) (\<lambda>(offset, depth).
     retM (if neg offset \<or> depth \<noteq> Some 1 then - FDT_ERR_NOTFOUND else offset))"

primrec next_subnode_loop :: "nat \<Rightarrow> nat \<Rightarrow> u32 \<Rightarrow> u32 \<Rightarrow> u32 fdtM" where
  "next_subnode_loop N 0 offset depth = haltM Spin"
| "next_subnode_loop N (Suc k) offset depth =
     bindM (fdt_next_node N offset (Some depth)) (\<lambda>(offset, depth).
     if neg offset \<or> sint (the depth) < 1 then retM (- FDT_ERR_NOTFOUND)
     else if sint (the depth) > 1 then next_subnode_loop N k offset (the depth)
     else retM offset)"

definition fdt_next_subnode :: "nat \<Rightarrow> u32 \<Rightarrow> u32 fdtM" where
  "fdt_next_subnode N offset = next_subnode_loop N N offset 1"

text \<open>The search for a string in a string block that is the buffer \<open>strtab\<close>.\<close>

fun find_string_loop :: "u8 list \<Rightarrow> nat \<Rightarrow> u8 list \<Rightarrow> nat \<Rightarrow> nat \<Rightarrow> nat option option" where
  "find_string_loop strtab p s len 0 = Some None"
| "find_string_loop strtab p s len (Suc rounds) =
     (case sbi_memcmp strtab p s 0 len of None \<Rightarrow> None
      | Some r \<Rightarrow> if r = 0 then Some (Some p) else find_string_loop strtab (p + 1) s len rounds)"

definition fdt_find_string_u :: "u8 list \<Rightarrow> nat \<Rightarrow> u8 list \<Rightarrow> nat option option" where
  "fdt_find_string_u strtab tabsize s =
     (case sbi_strlen s of None \<Rightarrow> None
      | Some n \<Rightarrow> let len = n + 1 in find_string_loop strtab 0 s len (tabsize + 1 - len))"

text \<open>
  The copy of the blob to another buffer. The buffer is an object of its own, on which both
  directions of \<open>memmove\<close> write the same bytes; the comparison with its length is unsigned.
\<close>

definition fdt_move :: "u8 list \<Rightarrow> u32 \<Rightarrow> (u32 \<times> u8 list) fdtM" where
  "fdt_move buf bufsize =
     bindM fdt_ro_probe_u (\<lambda>probe.
     if neg probe then retM (probe, buf)
     else bindM fdt_totalsize (\<lambda>totalsize.
       if bufsize < totalsize then retM (- FDT_ERR_NOSPACE, buf)
       else bindM (on_blob (\<lambda>m. sbi_memcpy buf 0 m 0 (unat totalsize))) (\<lambda>buf. retM (0, buf))))"

end
