(* ===== verification/Fdt_Ro.thy ===== *)
theory Fdt_Ro
  imports Fdt_Base
begin

text \<open>
  Looking things up in a flattened device tree: \<^verbatim>\<open>lib/utils/libfdt/fdt_ro.c\<close> and the cell sizes of
  \<^verbatim>\<open>lib/utils/libfdt/fdt_addresses.c\<close>, on top of the tag level of \<^verbatim>\<open>Fdt_Base\<close>.

  Names and paths are C strings in buffers of the caller, or in the blob itself, with the string routines of
  \<^verbatim>\<open>Sbi_Strings\<close>, to which \<^verbatim>\<open>libfdt_env.h\<close> maps the names of the C library. A pointer result that may be null is an
  option, paired with what the code stores in the length.
\<close>

definition zstr :: "string \<Rightarrow> u8 list" where
  "zstr s = map of_char s @ [0]"

section \<open>Names and strings\<close>

text \<open>The name of a node: 47 is the slash.\<close>

definition fdt_get_name :: "nat \<Rightarrow> u32 \<Rightarrow> (nat option \<times> u32) fdtM" where
  "fdt_get_name N nodeoffset =
     bindM (fdt_offset_ptr_u nodeoffset) (\<lambda>nh.
     bindM fdt_ro_probe_u (\<lambda>err.
     if neg err then retM (None, err)
     else bindM (fdt_check_node_offset_u N nodeoffset) (\<lambda>err.
     if neg err then retM (None, err)
     else
       let nameptr = nh + 4 in
       bindM fdt_version (\<lambda>version.
       bindM (if version < 0x10 then
                bindM (on_blob (\<lambda>m. sbi_strrchr (drop nameptr m) 47)) (\<lambda>leaf.
                retM (map_option (\<lambda>i. nameptr + i + 1) leaf))
              else retM (Some nameptr)) (\<lambda>nameptr.
       case nameptr of None \<Rightarrow> retM (None, - FDT_ERR_BADSTRUCTURE)
       | Some nameptr \<Rightarrow>
           bindM (on_blob (\<lambda>m. sbi_strlen (drop nameptr m))) (\<lambda>len.
           retM (Some nameptr, of_nat len)))))))"

text \<open>Comparing a node's name: 64 is the at sign, which ends the name proper and begins the unit address.\<close>

definition fdt_nodename_eq_u :: "nat \<Rightarrow> u32 \<Rightarrow> u8 list \<Rightarrow> nat \<Rightarrow> bool fdtM" where
  "fdt_nodename_eq_u N offset s len =
     bindM (fdt_get_name N offset) (\<lambda>(p, olen).
     case p of None \<Rightarrow> retM False
     | Some p \<Rightarrow>
         if sint olen < int len then retM False
         else bindM (on_blob (\<lambda>m. sbi_memcmp m p s 0 len)) (\<lambda>r.
           if r \<noteq> 0 then retM False
           else bindM (ld8 (p + len)) (\<lambda>c.
             if c = 0 then retM True
             else bindM (liftO (sbi_memchr s 64 len)) (\<lambda>q. retM (q = None \<and> c = 64)))))"

text \<open>The string at an offset in the strings block: \<open>string_room\<close> is the number of bytes in which its end is searched.\<close>

definition string_room :: "u32 \<Rightarrow> u32 \<Rightarrow> u32 \<Rightarrow> (u32 + nat) fdtM" where
  "string_room stroffset totalsize absoffset =
     (let len = unat (totalsize - absoffset); fail = retM (Inl (- FDT_ERR_BADOFFSET)) in
      bindM fdt_magic (\<lambda>magic.
      if magic = FDT_MAGIC then
        if neg stroffset then fail
        else bindM fdt_version (\<lambda>version.
          if version \<ge> 17 then
            bindM fdt_size_dt_strings (\<lambda>size.
            if size \<le> stroffset then fail else retM (Inr (min (unat (size - stroffset)) len)))
          else retM (Inr len))
      else if magic = FDT_SW_MAGIC then
        bindM fdt_size_dt_strings (\<lambda>size.
        if \<not> neg stroffset \<or> stroffset < - size then fail
        else retM (Inr (min (unat (- stroffset)) len)))
      else retM (Inl (- FDT_ERR_INTERNAL))))"

definition fdt_get_string :: "nat \<Rightarrow> u32 \<Rightarrow> (nat option \<times> u32) fdtM" where
  "fdt_get_string N stroffset =
     bindM fdt_ro_probe_u (\<lambda>totalsize.
     bindM fdt_off_dt_strings (\<lambda>strings.
     let absoffset = stroffset + strings in
     if neg totalsize then retM (None, totalsize)
     else if totalsize \<le> absoffset then retM (None, - FDT_ERR_BADOFFSET)
     else bindM (string_room stroffset totalsize absoffset) (\<lambda>room.
       case room of Inl err \<Rightarrow> retM (None, err)
       | Inr len \<Rightarrow>
           bindM (on_blob (\<lambda>m. memchr_from m (unat absoffset) 0 len)) (\<lambda>n.
           case n of None \<Rightarrow> retM (None, - FDT_ERR_TRUNCATED)
           | Some n \<Rightarrow> retM (Some (unat absoffset), of_nat (n - unat absoffset))))))"

definition fdt_string :: "nat \<Rightarrow> u32 \<Rightarrow> nat option fdtM" where
  "fdt_string N stroffset = bindM (fdt_get_string N stroffset) (\<lambda>(p, len). retM p)"

definition fdt_string_eq_u :: "nat \<Rightarrow> u32 \<Rightarrow> u8 list \<Rightarrow> nat \<Rightarrow> bool fdtM" where
  "fdt_string_eq_u N stroffset s len =
     bindM (fdt_get_string N stroffset) (\<lambda>(p, slen).
     case p of None \<Rightarrow> retM False
     | Some p \<Rightarrow>
         if sint slen = int len then bindM (on_blob (\<lambda>m. sbi_memcmp m p s 0 len)) (\<lambda>r. retM (r = 0))
         else retM False)"

section \<open>Memory reservations\<close>

definition fdt_mem_rsv :: "u32 \<Rightarrow> nat option fdtM" where
  "fdt_mem_rsv n =
     bindM fdt_off_mem_rsvmap (\<lambda>rsvmap.
     let absoffset = rsvmap + n * 16 in
     bindM fdt_totalsize (\<lambda>totalsize.
     if absoffset < rsvmap then retM None
     else if (ucast totalsize - 16 :: u64) < scast absoffset then retM None
     else retM (Some (unat (ucast rsvmap + scast n * 16 :: u64)))))"

definition fdt_get_mem_rsv :: "u32 \<Rightarrow> (u32 \<times> u64 \<times> u64) fdtM" where
  "fdt_get_mem_rsv n =
     bindM fdt_ro_probe_u (\<lambda>err.
     if neg err then retM (err, 0, 0)
     else bindM (fdt_mem_rsv n) (\<lambda>re.
       case re of None \<Rightarrow> retM (- FDT_ERR_BADOFFSET, 0, 0)
       | Some re \<Rightarrow> bindM (fdt64_ld re) (\<lambda>address. bindM (fdt64_ld (re + 8)) (\<lambda>size. retM (0, address, size)))))"

primrec num_mem_rsv_loop :: "nat \<Rightarrow> u32 \<Rightarrow> u32 fdtM" where
  "num_mem_rsv_loop 0 i = haltM Spin"
| "num_mem_rsv_loop (Suc k) i =
     bindM (fdt_mem_rsv i) (\<lambda>re.
     case re of None \<Rightarrow> retM (- FDT_ERR_TRUNCATED)
     | Some re \<Rightarrow> bindM (fdt64_ld (re + 8)) (\<lambda>size. if size = 0 then retM i else num_mem_rsv_loop k (i + 1)))"

definition fdt_num_mem_rsv :: "nat \<Rightarrow> u32 fdtM" where
  "fdt_num_mem_rsv N = num_mem_rsv_loop N 0"

section \<open>Properties of a node\<close>

primrec nextprop_loop :: "nat \<Rightarrow> nat \<Rightarrow> u32 \<Rightarrow> u32 fdtM" where
  "nextprop_loop N 0 offset = haltM Spin"
| "nextprop_loop N (Suc k) offset =
     bindM (fdt_next_tag N offset) (\<lambda>(tag, nextoffset).
     if tag = FDT_END then retM (if \<not> neg nextoffset then - FDT_ERR_BADSTRUCTURE else nextoffset)
     else if tag = FDT_PROP then retM offset
     else if tag = FDT_NOP then nextprop_loop N k nextoffset
     else retM (- FDT_ERR_NOTFOUND))"

definition nextprop_u :: "nat \<Rightarrow> u32 \<Rightarrow> u32 fdtM" where
  "nextprop_u N offset = nextprop_loop N N offset"

definition fdt_first_property_offset :: "nat \<Rightarrow> u32 \<Rightarrow> u32 fdtM" where
  "fdt_first_property_offset N nodeoffset =
     bindM (fdt_check_node_offset_u N nodeoffset) (\<lambda>offset.
     if neg offset then retM offset else nextprop_u N offset)"

definition fdt_next_property_offset :: "nat \<Rightarrow> u32 \<Rightarrow> u32 fdtM" where
  "fdt_next_property_offset N offset =
     bindM (fdt_check_prop_offset_u N offset) (\<lambda>offset.
     if neg offset then retM offset else nextprop_u N offset)"

definition fdt_get_property_by_offset_u :: "nat \<Rightarrow> u32 \<Rightarrow> (nat option \<times> u32) fdtM" where
  "fdt_get_property_by_offset_u N offset =
     bindM (fdt_check_prop_offset_u N offset) (\<lambda>err.
     if neg err then retM (None, err)
     else bindM (fdt_offset_ptr_u offset) (\<lambda>prop. bindM (fdt32_ld (prop + 4)) (\<lambda>len. retM (Some prop, len))))"

definition fdt_get_property_by_offset :: "nat \<Rightarrow> u32 \<Rightarrow> (nat option \<times> u32) fdtM" where
  "fdt_get_property_by_offset N offset =
     bindM fdt_version (\<lambda>version.
     if version < 0x10 then retM (None, - FDT_ERR_BADVERSION) else fdt_get_property_by_offset_u N offset)"

text \<open>The search for a property by name; the result carries the property with its offset, and the length.\<close>

primrec get_property_loop :: "nat \<Rightarrow> nat \<Rightarrow> u32 \<Rightarrow> u8 list \<Rightarrow> nat \<Rightarrow> ((nat \<times> u32) option \<times> u32) fdtM" where
  "get_property_loop N 0 offset name namelen = haltM Spin"
| "get_property_loop N (Suc k) offset name namelen =
     (if neg offset then retM (None, offset)
      else bindM (fdt_get_property_by_offset_u N offset) (\<lambda>(prop, len).
        case prop of None \<Rightarrow> retM (None, - FDT_ERR_INTERNAL)
        | Some prop \<Rightarrow>
            bindM (fdt32_ld (prop + 8)) (\<lambda>nameoff.
            bindM (fdt_string_eq_u N nameoff name namelen) (\<lambda>eq.
            if eq then retM (Some (prop, offset), len)
            else bindM (fdt_next_property_offset N offset) (\<lambda>offset. get_property_loop N k offset name namelen)))))"

definition fdt_get_property_namelen_u :: "nat \<Rightarrow> u32 \<Rightarrow> u8 list \<Rightarrow> nat \<Rightarrow> ((nat \<times> u32) option \<times> u32) fdtM" where
  "fdt_get_property_namelen_u N offset name namelen =
     bindM (fdt_first_property_offset N offset) (\<lambda>offset. get_property_loop N N offset name namelen)"

definition fdt_get_property_namelen :: "nat \<Rightarrow> u32 \<Rightarrow> u8 list \<Rightarrow> nat \<Rightarrow> (nat option \<times> u32) fdtM" where
  "fdt_get_property_namelen N offset name namelen =
     bindM fdt_version (\<lambda>version.
     if version < 0x10 then retM (None, - FDT_ERR_BADVERSION)
     else bindM (fdt_get_property_namelen_u N offset name namelen) (\<lambda>(prop, len). retM (map_option fst prop, len)))"

definition fdt_get_property :: "nat \<Rightarrow> u32 \<Rightarrow> u8 list \<Rightarrow> (nat option \<times> u32) fdtM" where
  "fdt_get_property N nodeoffset name =
     bindM (liftO (sbi_strlen name)) (\<lambda>n. fdt_get_property_namelen N nodeoffset name n)"

text \<open>Where the value begins: trees before version 16 align values of 8 bytes and more.\<close>

definition prop_data :: "nat \<Rightarrow> u32 \<Rightarrow> nat fdtM" where
  "prop_data prop offset =
     bindM fdt_version (\<lambda>version.
     if version < 0x10 \<and> (offset + 12) mod 8 \<noteq> 0 then
       bindM (fdt32_ld (prop + 4)) (\<lambda>len. retM (if 8 \<le> len then prop + 16 else prop + 12))
     else retM (prop + 12))"

definition fdt_getprop_namelen :: "nat \<Rightarrow> u32 \<Rightarrow> u8 list \<Rightarrow> nat \<Rightarrow> (nat option \<times> u32) fdtM" where
  "fdt_getprop_namelen N nodeoffset name namelen =
     bindM (fdt_get_property_namelen_u N nodeoffset name namelen) (\<lambda>(prop, len).
     case prop of None \<Rightarrow> retM (None, len)
     | Some (prop, poffset) \<Rightarrow> bindM (prop_data prop poffset) (\<lambda>data. retM (Some data, len)))"

text \<open>The value and the name of the property at an offset.\<close>

definition fdt_getprop_by_offset :: "nat \<Rightarrow> u32 \<Rightarrow> ((nat \<times> nat) option \<times> u32) fdtM" where
  "fdt_getprop_by_offset N offset =
     bindM (fdt_get_property_by_offset_u N offset) (\<lambda>(prop, len).
     case prop of None \<Rightarrow> retM (None, len)
     | Some prop \<Rightarrow>
         bindM (fdt32_ld (prop + 8)) (\<lambda>nameoff.
         bindM (fdt_get_string N nameoff) (\<lambda>(name, namelen).
         case name of None \<Rightarrow> retM (None, namelen)
         | Some name \<Rightarrow> bindM (prop_data prop offset) (\<lambda>data. retM (Some (data, name), len)))))"

definition fdt_getprop :: "nat \<Rightarrow> u32 \<Rightarrow> u8 list \<Rightarrow> (nat option \<times> u32) fdtM" where
  "fdt_getprop N nodeoffset name =
     bindM (liftO (sbi_strlen name)) (\<lambda>n. fdt_getprop_namelen N nodeoffset name n)"

definition fdt_get_phandle :: "nat \<Rightarrow> u32 \<Rightarrow> u32 fdtM" where
  "fdt_get_phandle N nodeoffset =
     bindM (fdt_getprop N nodeoffset (zstr ''phandle'')) (\<lambda>(php, len).
     if php = None \<or> len \<noteq> 4 then
       bindM (fdt_getprop N nodeoffset (zstr ''linux,phandle'')) (\<lambda>(php, len).
       case php of None \<Rightarrow> retM 0 | Some p \<Rightarrow> if len \<noteq> 4 then retM 0 else fdt32_ld p)
     else fdt32_ld (the php))"

primrec find_max_phandle_loop :: "nat \<Rightarrow> nat \<Rightarrow> u32 \<Rightarrow> u32 \<Rightarrow> (u32 \<times> u32) fdtM" where
  "find_max_phandle_loop N 0 offset mx = haltM Spin"
| "find_max_phandle_loop N (Suc k) offset mx =
     bindM (fdt_next_node N offset None) (\<lambda>(offset, _).
     if neg offset then retM (if offset = - FDT_ERR_NOTFOUND then 0 else offset, mx)
     else bindM (fdt_get_phandle N offset) (\<lambda>value.
       find_max_phandle_loop N k offset (if mx < value then value else mx)))"

text \<open>The result with the largest handle, which is stored only when the result is 0.\<close>

definition fdt_find_max_phandle :: "nat \<Rightarrow> (u32 \<times> u32) fdtM" where
  "fdt_find_max_phandle N = find_max_phandle_loop N N (- 1) 0"

definition fdt_generate_phandle :: "nat \<Rightarrow> (u32 \<times> u32 option) fdtM" where
  "fdt_generate_phandle N =
     bindM (fdt_find_max_phandle N) (\<lambda>(err, mx).
     retM (if neg err then (err, None)
           else if mx = 0xfffffffe then (- FDT_ERR_NOPHANDLES, None)
           else (0, Some (mx + 1))))"

section \<open>Paths\<close>

primrec subnode_loop :: "nat \<Rightarrow> nat \<Rightarrow> u32 \<Rightarrow> u32 \<Rightarrow> u8 list \<Rightarrow> nat \<Rightarrow> u32 fdtM" where
  "subnode_loop N 0 offset depth name namelen = haltM Spin"
| "subnode_loop N (Suc k) offset depth name namelen =
     (if \<not> neg offset \<and> \<not> neg depth then
        bindM (if depth = 1 then fdt_nodename_eq_u N offset name namelen else retM False) (\<lambda>eq.
        if eq then retM offset
        else bindM (fdt_next_node N offset (Some depth)) (\<lambda>(offset, depth).
          subnode_loop N k offset (the depth) name namelen))
      else retM (if neg depth then - FDT_ERR_NOTFOUND else offset))"

definition fdt_subnode_offset_namelen :: "nat \<Rightarrow> u32 \<Rightarrow> u8 list \<Rightarrow> nat \<Rightarrow> u32 fdtM" where
  "fdt_subnode_offset_namelen N offset name namelen = FDT_RO_PROBE (subnode_loop N N offset 0 name namelen)"

definition fdt_subnode_offset :: "nat \<Rightarrow> u32 \<Rightarrow> u8 list \<Rightarrow> u32 fdtM" where
  "fdt_subnode_offset N parentoffset name =
     bindM (liftO (sbi_strlen name)) (\<lambda>n. fdt_subnode_offset_namelen N parentoffset name n)"

text \<open>The loop over the slashes before a component: the index of the component, or nothing at the end of the path.\<close>

function skip_slashes :: "u8 list \<Rightarrow> nat \<Rightarrow> nat \<Rightarrow> nat option option" where
  "skip_slashes path p e =
     (case rd path p of None \<Rightarrow> None
      | Some c \<Rightarrow> if c = 47 then (if p + 1 = e then Some None else skip_slashes path (p + 1) e) else Some (Some p))"
  by pat_completeness auto
termination
  by (relation "measure (\<lambda>(path, p, e). length path - p)") (auto simp: rd_eq_Some)

declare skip_slashes.simps [simp del]

primrec path_loop :: "nat \<Rightarrow> nat \<Rightarrow> u8 list \<Rightarrow> nat \<Rightarrow> nat \<Rightarrow> u32 \<Rightarrow> u32 fdtM" where
  "path_loop N 0 path p e offset = haltM Spin"
| "path_loop N (Suc k) path p e offset =
     (if p < e then
        bindM (liftO (skip_slashes path p e)) (\<lambda>r.
        case r of None \<Rightarrow> retM offset
        | Some p \<Rightarrow>
            bindM (liftO (memchr_from path p 47 (e - p))) (\<lambda>q.
            let q = (case q of None \<Rightarrow> e | Some q \<Rightarrow> q) in
            bindM (fdt_subnode_offset_namelen N offset (drop p path) (q - p)) (\<lambda>offset.
            if neg offset then retM offset else path_loop N k path q e offset)))
      else retM offset)"

text \<open>
  An alias is looked up with the path function itself, which is why that is an argument here. The recursion is
  that of \<open>fdt_path_offset_namelen\<close> through the value of an alias, bounded by the second fuel.
\<close>

definition fdt_get_alias_namelen :: "(u8 list \<Rightarrow> u32 fdtM) \<Rightarrow> nat \<Rightarrow> u8 list \<Rightarrow> nat \<Rightarrow> nat option fdtM" where
  "fdt_get_alias_namelen path_offset N name namelen =
     bindM (path_offset (zstr ''/aliases'')) (\<lambda>aliasoffset.
     if neg aliasoffset then retM None
     else bindM (fdt_getprop_namelen N aliasoffset name namelen) (\<lambda>(p, _). retM p))"

primrec fdt_path_offset_namelen :: "nat \<Rightarrow> nat \<Rightarrow> u8 list \<Rightarrow> nat \<Rightarrow> u32 fdtM" where
  "fdt_path_offset_namelen N 0 path namelen = haltM Spin"
| "fdt_path_offset_namelen N (Suc k) path namelen =
     (let path_offset = (\<lambda>p. bindM (liftO (sbi_strlen p)) (fdt_path_offset_namelen N k p)) in
      FDT_RO_PROBE (
      bindM (liftO (rd path 0)) (\<lambda>c.
      if c \<noteq> 47 then
        bindM (liftO (memchr_from path 0 47 namelen)) (\<lambda>q.
        let q = (case q of None \<Rightarrow> namelen | Some q \<Rightarrow> q) in
        bindM (fdt_get_alias_namelen path_offset N path q) (\<lambda>p.
        case p of None \<Rightarrow> retM (- FDT_ERR_BADPATH)
        | Some p \<Rightarrow>
            bindM (getM (drop p)) (\<lambda>buf.
            bindM (path_offset buf) (\<lambda>offset. path_loop N N path q namelen offset))))
      else path_loop N N path 0 namelen 0)))"

definition fdt_path_offset :: "nat \<Rightarrow> nat \<Rightarrow> u8 list \<Rightarrow> u32 fdtM" where
  "fdt_path_offset N k path = bindM (liftO (sbi_strlen path)) (fdt_path_offset_namelen N k path)"

definition fdt_get_alias :: "nat \<Rightarrow> nat \<Rightarrow> u8 list \<Rightarrow> nat option fdtM" where
  "fdt_get_alias N k name =
     bindM (liftO (sbi_strlen name)) (\<lambda>n. fdt_get_alias_namelen (fdt_path_offset N k) N name n)"

text \<open>
  The path of a node, written into the caller's buffer. Removing the last component steps back over
  the buffer until a slash lies before the write position.
\<close>

fun path_pop :: "u8 list \<Rightarrow> nat \<Rightarrow> nat option" where
  "path_pop buf 0 = None"
| "path_pop buf (Suc 0) = None"
| "path_pop buf (Suc (Suc p)) =
     (case rd buf p of None \<Rightarrow> None | Some c \<Rightarrow> if c \<noteq> 47 then path_pop buf (Suc p) else Some (Suc p))"

primrec path_pops :: "u8 list \<Rightarrow> nat \<Rightarrow> nat \<Rightarrow> nat option" where
  "path_pops buf 0 p = Some p"
| "path_pops buf (Suc n) p = (case path_pop buf p of None \<Rightarrow> None | Some p \<Rightarrow> path_pops buf n p)"

definition path_push :: "u8 list \<Rightarrow> nat \<Rightarrow> nat \<Rightarrow> nat \<Rightarrow> u8 list fdtM" where
  "path_push buf p name namelen =
     bindM (on_blob (\<lambda>m. sbi_memcpy buf p m name namelen)) (\<lambda>buf. liftO (wr buf (p + namelen) 47))"

primrec get_path_loop ::
  "nat \<Rightarrow> nat \<Rightarrow> u32 \<Rightarrow> int \<Rightarrow> u32 \<Rightarrow> u32 \<Rightarrow> int \<Rightarrow> nat \<Rightarrow> u8 list \<Rightarrow> (u32 \<times> u8 list) fdtM" where
  "get_path_loop N 0 nodeoffset buflen offset depth pdepth p buf = haltM Spin"
| "get_path_loop N (Suc k) nodeoffset buflen offset depth pdepth p buf =
     (if \<not> neg offset \<and> sint offset \<le> sint nodeoffset then
        bindM (liftO (path_pops buf (nat (pdepth - sint depth)) p)) (\<lambda>p.
        let pdepth = min pdepth (sint depth) in
        bindM (if pdepth \<ge> sint depth then
                 bindM (fdt_get_name N offset) (\<lambda>(name, namelen).
                 case name of None \<Rightarrow> retM (Inl namelen)
                 | Some name \<Rightarrow>
                     if int p + sint namelen + 1 \<le> buflen then
                       bindM (path_push buf p name (unat namelen)) (\<lambda>buf.
                       retM (Inr (pdepth + 1, p + unat namelen + 1, buf)))
                     else retM (Inr (pdepth, p, buf)))
               else retM (Inr (pdepth, p, buf))) (\<lambda>r.
        case r of Inl err \<Rightarrow> retM (err, buf)
        | Inr (pdepth, p, buf) \<Rightarrow>
            if offset = nodeoffset then
              if pdepth < sint depth + 1 then retM (- FDT_ERR_NOSPACE, buf)
              else bindM (liftO (wr buf (if 1 < p then p - 1 else p) 0)) (\<lambda>buf. retM (0, buf))
            else bindM (fdt_next_node N offset (Some depth)) (\<lambda>(offset, depth).
              get_path_loop N k nodeoffset buflen offset (the depth) pdepth p buf)))
      else retM (if offset = - FDT_ERR_NOTFOUND \<or> \<not> neg offset then - FDT_ERR_BADOFFSET
                 else if offset = - FDT_ERR_BADOFFSET then - FDT_ERR_BADSTRUCTURE else offset, buf))"

definition fdt_get_path :: "nat \<Rightarrow> u32 \<Rightarrow> u8 list \<Rightarrow> int \<Rightarrow> (u32 \<times> u8 list) fdtM" where
  "fdt_get_path N nodeoffset buf buflen =
     bindM fdt_ro_probe_u (\<lambda>err.
     if neg err then retM (err, buf)
     else if buflen < 2 then retM (- FDT_ERR_NOSPACE, buf)
     else get_path_loop N N nodeoffset buflen 0 0 0 0 buf)"

section \<open>Supernodes\<close>

primrec supernode_loop :: "nat \<Rightarrow> nat \<Rightarrow> u32 \<Rightarrow> u32 \<Rightarrow> u32 \<Rightarrow> u32 \<Rightarrow> u32 \<Rightarrow> (u32 \<times> u32 option) fdtM" where
  "supernode_loop N 0 nodeoffset supernodedepth offset depth supernodeoffset = haltM Spin"
| "supernode_loop N (Suc k) nodeoffset supernodedepth offset depth supernodeoffset =
     (if \<not> neg offset \<and> sint offset \<le> sint nodeoffset then
        let supernodeoffset = (if depth = supernodedepth then offset else supernodeoffset) in
        if offset = nodeoffset then
          retM (if sint depth < sint supernodedepth then - FDT_ERR_NOTFOUND else supernodeoffset, Some depth)
        else bindM (fdt_next_node N offset (Some depth)) (\<lambda>(offset, depth).
          supernode_loop N k nodeoffset supernodedepth offset (the depth) supernodeoffset)
      else retM (if offset = - FDT_ERR_NOTFOUND \<or> \<not> neg offset then - FDT_ERR_BADOFFSET
                 else if offset = - FDT_ERR_BADOFFSET then - FDT_ERR_BADSTRUCTURE else offset, None))"

text \<open>The second component is what is stored through \<open>nodedepth\<close>, if anything.\<close>

definition fdt_supernode_atdepth_offset :: "nat \<Rightarrow> u32 \<Rightarrow> u32 \<Rightarrow> (u32 \<times> u32 option) fdtM" where
  "fdt_supernode_atdepth_offset N nodeoffset supernodedepth =
     bindM fdt_ro_probe_u (\<lambda>err.
     if neg err then retM (err, None)
     else if neg supernodedepth then retM (- FDT_ERR_NOTFOUND, None)
     else supernode_loop N N nodeoffset supernodedepth 0 0 (- FDT_ERR_INTERNAL))"

definition fdt_node_depth :: "nat \<Rightarrow> u32 \<Rightarrow> u32 fdtM" where
  "fdt_node_depth N nodeoffset =
     bindM (fdt_supernode_atdepth_offset N nodeoffset 0) (\<lambda>(err, nodedepth).
     if err \<noteq> 0 then retM (if neg err then err else - FDT_ERR_INTERNAL)
     else liftO nodedepth)"

definition fdt_parent_offset :: "nat \<Rightarrow> u32 \<Rightarrow> u32 fdtM" where
  "fdt_parent_offset N nodeoffset =
     bindM (fdt_node_depth N nodeoffset) (\<lambda>nodedepth.
     if neg nodedepth then retM nodedepth
     else bindM (fdt_supernode_atdepth_offset N nodeoffset (nodedepth - 1)) (\<lambda>(offset, _). retM offset))"

section \<open>Searching all nodes\<close>

text \<open>
  The three searches walk over the nodes and test each: \<open>node_search test\<close> is their common loop, where the test
  may also end the search with a result.
\<close>

primrec node_search :: "nat \<Rightarrow> nat \<Rightarrow> (u32 \<Rightarrow> u32 option fdtM) \<Rightarrow> u32 \<Rightarrow> u32 fdtM" where
  "node_search N 0 test offset = haltM Spin"
| "node_search N (Suc k) test offset =
     bindM (fdt_next_node N offset None) (\<lambda>(offset, _).
     if neg offset then retM offset
     else bindM (test offset) (\<lambda>r. case r of Some r \<Rightarrow> retM r | None \<Rightarrow> node_search N k test offset))"

definition fdt_node_offset_by_prop_value :: "nat \<Rightarrow> u32 \<Rightarrow> u8 list \<Rightarrow> u8 list \<Rightarrow> nat \<Rightarrow> u32 fdtM" where
  "fdt_node_offset_by_prop_value N startoffset propname propval proplen =
     FDT_RO_PROBE (node_search N N (\<lambda>offset.
       bindM (fdt_getprop N offset propname) (\<lambda>(val, len).
       case val of None \<Rightarrow> retM None
       | Some val \<Rightarrow>
           if sint len = int proplen then
             bindM (on_blob (\<lambda>m. sbi_memcmp m val propval 0 proplen)) (\<lambda>r. retM (if r = 0 then Some offset else None))
           else retM None)) startoffset)"

definition fdt_node_offset_by_phandle :: "nat \<Rightarrow> u32 \<Rightarrow> u32 fdtM" where
  "fdt_node_offset_by_phandle N phandle =
     (if phandle = 0 \<or> phandle = - 1 then retM (- FDT_ERR_BADPHANDLE)
      else FDT_RO_PROBE (node_search N N (\<lambda>offset.
        bindM (fdt_get_phandle N offset) (\<lambda>ph. retM (if ph = phandle then Some offset else None))) (- 1)))"

section \<open>String lists\<close>

text \<open>A string list is a property value: the strings one after the other, each with its terminator.\<close>

primrec stringlist_contains_loop :: "nat \<Rightarrow> nat \<Rightarrow> int \<Rightarrow> u8 list \<Rightarrow> nat \<Rightarrow> bool fdtM" where
  "stringlist_contains_loop 0 strlist listlen str len = haltM Spin"
| "stringlist_contains_loop (Suc k) strlist listlen str len =
     (if listlen \<ge> int len then
        bindM (on_blob (\<lambda>m. sbi_memcmp str 0 m strlist (len + 1))) (\<lambda>r.
        if r = 0 then retM True
        else bindM (on_blob (\<lambda>m. memchr_from m strlist 0 (nat listlen))) (\<lambda>p.
          case p of None \<Rightarrow> retM False
          | Some p \<Rightarrow> stringlist_contains_loop k (p + 1) (listlen - (int p - int strlist + 1)) str len))
      else retM False)"

definition fdt_stringlist_contains :: "nat \<Rightarrow> nat \<Rightarrow> u32 \<Rightarrow> u8 list \<Rightarrow> bool fdtM" where
  "fdt_stringlist_contains N strlist listlen str =
     bindM (liftO (sbi_strlen str)) (\<lambda>len. stringlist_contains_loop N strlist (sint listlen) str len)"

text \<open>The loop over the strings of a list with the test of each; the test gets the index, the position and the length with terminator.\<close>

primrec stringlist_walk :: "nat \<Rightarrow> nat \<Rightarrow> nat \<Rightarrow> nat \<Rightarrow> (nat \<Rightarrow> nat \<Rightarrow> nat \<Rightarrow> 'a option fdtM) \<Rightarrow> (u32 + 'a) fdtM" where
  "stringlist_walk 0 lst e idx test = haltM Spin"
| "stringlist_walk (Suc k) lst e idx test =
     (if lst < e then
        bindM (on_blob (\<lambda>m. strnlen_from m lst 0 (e - lst))) (\<lambda>n.
        let len = n + 1 in
        if e < lst + len then retM (Inl (- FDT_ERR_BADVALUE))
        else bindM (test idx lst len) (\<lambda>r.
          case r of Some r \<Rightarrow> retM (Inr r) | None \<Rightarrow> stringlist_walk k (lst + len) e (idx + 1) test))
      else retM (Inl (of_nat idx)))"

definition list_end :: "nat \<Rightarrow> u32 \<Rightarrow> nat" where
  "list_end lst len = nat (int lst + sint len)"

definition fdt_stringlist_count :: "nat \<Rightarrow> u32 \<Rightarrow> u8 list \<Rightarrow> u32 fdtM" where
  "fdt_stringlist_count N nodeoffset property =
     bindM (fdt_getprop N nodeoffset property) (\<lambda>(lst, len).
     case lst of None \<Rightarrow> retM len
     | Some lst \<Rightarrow>
         bindM (stringlist_walk N lst (list_end lst len) 0 (\<lambda>_ _ _. retM (None :: u32 option))) (\<lambda>r.
         retM (case r of Inl n \<Rightarrow> n | Inr n \<Rightarrow> n)))"

definition fdt_stringlist_search :: "nat \<Rightarrow> u32 \<Rightarrow> u8 list \<Rightarrow> u8 list \<Rightarrow> u32 fdtM" where
  "fdt_stringlist_search N nodeoffset property str =
     bindM (fdt_getprop N nodeoffset property) (\<lambda>(lst, ln).
     case lst of None \<Rightarrow> retM ln
     | Some lst \<Rightarrow>
         bindM (liftO (sbi_strlen str)) (\<lambda>n.
         bindM (stringlist_walk N lst (list_end lst ln) 0 (\<lambda>idx lst ln.
           if ln = n + 1 then
             bindM (on_blob (\<lambda>m. sbi_memcmp m lst str 0 ln)) (\<lambda>r. retM (if r = 0 then Some idx else None))
           else retM None)) (\<lambda>r.
         retM (case r of Inl e \<Rightarrow> if neg e then e else - FDT_ERR_NOTFOUND | Inr idx \<Rightarrow> of_nat idx))))"

definition fdt_stringlist_get :: "nat \<Rightarrow> u32 \<Rightarrow> u8 list \<Rightarrow> nat \<Rightarrow> (nat option \<times> u32) fdtM" where
  "fdt_stringlist_get N nodeoffset property idx =
     bindM (fdt_getprop N nodeoffset property) (\<lambda>(lst, ln).
     case lst of None \<Rightarrow> retM (None, ln)
     | Some lst \<Rightarrow>
         bindM (stringlist_walk N lst (list_end lst ln) 0 (\<lambda>i lst ln.
           retM (if i = idx then Some (lst, ln) else None))) (\<lambda>r.
         retM (case r of Inl e \<Rightarrow> (None, if neg e then e else - FDT_ERR_NOTFOUND)
               | Inr (lst, ln) \<Rightarrow> (Some lst, of_nat (ln - 1)))))"

definition fdt_node_check_compatible :: "nat \<Rightarrow> u32 \<Rightarrow> u8 list \<Rightarrow> u32 fdtM" where
  "fdt_node_check_compatible N nodeoffset compatible =
     bindM (fdt_getprop N nodeoffset (zstr ''compatible'')) (\<lambda>(prop, len).
     case prop of None \<Rightarrow> retM len
     | Some prop \<Rightarrow> bindM (fdt_stringlist_contains N prop len compatible) (\<lambda>b. retM (if b then 0 else 1)))"

definition fdt_node_offset_by_compatible :: "nat \<Rightarrow> u32 \<Rightarrow> u8 list \<Rightarrow> u32 fdtM" where
  "fdt_node_offset_by_compatible N startoffset compatible =
     FDT_RO_PROBE (node_search N N (\<lambda>offset.
       bindM (fdt_node_check_compatible N offset compatible) (\<lambda>err.
       retM (if neg err \<and> err \<noteq> - FDT_ERR_NOTFOUND then Some err
             else if err = 0 then Some offset else None))) startoffset)"

section \<open>The full check\<close>

primrec check_full_loop :: "nat \<Rightarrow> nat \<Rightarrow> u32 \<Rightarrow> u32 \<Rightarrow> u32 fdtM" where
  "check_full_loop N 0 offset depth = haltM Spin"
| "check_full_loop N (Suc k) offset depth =
     bindM (fdt_next_tag N offset) (\<lambda>(tag, nextoffset).
     if neg nextoffset then retM nextoffset
     else if tag = FDT_NOP then check_full_loop N k nextoffset depth
     else if tag = FDT_END then retM (if depth \<noteq> 0 then - FDT_ERR_BADSTRUCTURE else 0)
     else if tag = FDT_BEGIN_NODE then
       if INT_MAX < depth + 1 then retM (- FDT_ERR_BADSTRUCTURE) else check_full_loop N k nextoffset (depth + 1)
     else if tag = FDT_END_NODE then
       if depth = 0 then retM (- FDT_ERR_BADSTRUCTURE) else check_full_loop N k nextoffset (depth - 1)
     else if tag = FDT_PROP then
       bindM (fdt_getprop_by_offset N offset) (\<lambda>(prop, err).
       if prop = None then retM err else check_full_loop N k nextoffset depth)
     else retM (- FDT_ERR_INTERNAL))"

definition fdt_check_full :: "nat \<Rightarrow> nat \<Rightarrow> u32 fdtM" where
  "fdt_check_full N bufsize =
     (if bufsize < 28 then retM (- FDT_ERR_TRUNCATED)
      else bindM fdt_check_header (\<lambda>err.
        if err \<noteq> 0 then retM err
        else bindM fdt_totalsize (\<lambda>totalsize.
          if bufsize < unat totalsize then retM (- FDT_ERR_TRUNCATED)
          else bindM (fdt_num_mem_rsv N) (\<lambda>num_memrsv.
            if neg num_memrsv then retM num_memrsv else check_full_loop N N 0 0))))"

section \<open>Cells\<close>

definition fdt_cells :: "nat \<Rightarrow> u32 \<Rightarrow> u8 list \<Rightarrow> u32 fdtM" where
  "fdt_cells N nodeoffset name =
     bindM (fdt_getprop N nodeoffset name) (\<lambda>(c, len).
     case c of None \<Rightarrow> retM len
     | Some c \<Rightarrow>
         if len \<noteq> 4 then retM (- FDT_ERR_BADNCELLS)
         else bindM (fdt32_ld c) (\<lambda>val. retM (if 4 < val then - FDT_ERR_BADNCELLS else val)))"

definition fdt_address_cells :: "nat \<Rightarrow> u32 \<Rightarrow> u32 fdtM" where
  "fdt_address_cells N nodeoffset =
     bindM (fdt_cells N nodeoffset (zstr ''#address-cells'')) (\<lambda>val.
     retM (if val = 0 then - FDT_ERR_BADNCELLS else if val = - FDT_ERR_NOTFOUND then 2 else val))"

definition fdt_size_cells :: "nat \<Rightarrow> u32 \<Rightarrow> u32 fdtM" where
  "fdt_size_cells N nodeoffset =
     bindM (fdt_cells N nodeoffset (zstr ''#size-cells'')) (\<lambda>val.
     retM (if val = - FDT_ERR_NOTFOUND then 1 else val))"

end
