(* ===== verification/Fdt_Tree.thy ===== *)
theory Fdt_Tree
  imports Fdt_Ro
begin

text \<open>
  What the lookups of \<^verbatim>\<open>Fdt_Ro\<close> find. A device tree is a tree of named nodes with properties; flattened it is a
  sequence of tokens, and a blob is an image of such a sequence with a table of the property names. On an image the
  lexer reads the tokens one after the other, and the searches find what they would find in the tree.
\<close>

section \<open>Trees, tokens and images\<close>

datatype dnode = DNode (nname: "u8 list") (nprops: "(u8 list \<times> u8 list) list") (nkids: "dnode list")

datatype token = TBegin "u8 list" | TEnd | TProp nat "u8 list" | TNop | TDone

text \<open>A property refers to its name by an offset into the strings block.\<close>

definition ptok :: "(u8 list \<Rightarrow> nat) \<Rightarrow> u8 list \<times> u8 list \<Rightarrow> token" where
  "ptok noff kv = TProp (noff (fst kv)) (snd kv)"

fun flatten :: "(u8 list \<Rightarrow> nat) \<Rightarrow> dnode \<Rightarrow> token list" where
  "flatten noff (DNode n ps ks) =
     TBegin n # map (ptok noff) ps @ concat (map (flatten noff) ks) @ [TEnd]"

definition be_bytes :: "u32 \<Rightarrow> u8 list" where
  "be_bytes w = [ucast (shr w 24), ucast (shr w 16), ucast (shr w 8), ucast w]"

definition pad :: "u8 list \<Rightarrow> u8 list" where
  "pad xs = xs @ replicate ((4 - length xs mod 4) mod 4) 0"

fun tok_tag :: "token \<Rightarrow> u32" where
  "tok_tag (TBegin n) = FDT_BEGIN_NODE"
| "tok_tag TEnd = FDT_END_NODE"
| "tok_tag (TProp off v) = FDT_PROP"
| "tok_tag TNop = FDT_NOP"
| "tok_tag TDone = FDT_END"

fun tok_rest :: "token \<Rightarrow> u8 list" where
  "tok_rest (TBegin n) = n @ [0]"
| "tok_rest (TProp off v) = be_bytes (of_nat (length v)) @ be_bytes (of_nat off) @ v"
| "tok_rest _ = []"

definition tok_bytes :: "token \<Rightarrow> u8 list" where
  "tok_bytes t = be_bytes (tok_tag t) @ pad (tok_rest t)"

definition toks_bytes :: "token list \<Rightarrow> u8 list" where
  "toks_bytes ts = concat (map tok_bytes ts)"

definition boff :: "token list \<Rightarrow> nat" where
  "boff ts = length (toks_bytes ts)"

definition hdr :: "u8 list \<Rightarrow> nat \<Rightarrow> u32" where
  "hdr fdt i = be_word (blk fdt i 4)"

text \<open>
  A blob of version 17 whose structure block holds the tokens and whose strings block is \<open>strs\<close>. The blocks
  may lie anywhere in the blob, and the buffer may be longer than the blob.
\<close>

definition fdt_image :: "u8 list \<Rightarrow> token list \<Rightarrow> u8 list \<Rightarrow> bool" where
  "fdt_image fdt ts strs \<longleftrightarrow>
     40 \<le> unat (hdr fdt 4) \<and> unat (hdr fdt 4) \<le> length fdt \<and> hdr fdt 4 < INT_MAX \<and>
     hdr fdt 0 = FDT_MAGIC \<and> hdr fdt 20 = 17 \<and> hdr fdt 24 \<le> 17 \<and>
     unat (hdr fdt 36) = boff ts \<and> unat (hdr fdt 8) + boff ts \<le> unat (hdr fdt 4) \<and>
     blk fdt (unat (hdr fdt 8)) (boff ts) = toks_bytes ts \<and>
     unat (hdr fdt 32) = length strs \<and> unat (hdr fdt 12) + length strs \<le> unat (hdr fdt 4) \<and>
     blk fdt (unat (hdr fdt 12)) (length strs) = strs"

fun tok_ok :: "token \<Rightarrow> bool" where
  "tok_ok (TBegin n) \<longleftrightarrow> 0 \<notin> set n"
| "tok_ok _ \<longleftrightarrow> True"

section \<open>Words and bytes\<close>

lemma be_word_bytes [simp]: "be_word (be_bytes w) = w"
proof -
  have "bit (be_word (be_bytes w) :: u32) i = bit w i" if "i < 32" for i
  proof -
    consider "i < 8" | "8 \<le> i" "i < 16" | "16 \<le> i" "i < 24" | "24 \<le> i" by linarith
    then show ?thesis using that by cases (auto simp: be_word_def be_bytes_def shl_def shr_def bit_simps less_diff_conv2)
  qed
  then show ?thesis by (intro bit_word_eqI) simp
qed

lemma length_be_bytes [simp]: "length (be_bytes w) = 4"
  by (simp add: be_bytes_def)

lemma length_pad: "length (pad xs) = (length xs + 3) div 4 * 4"
proof -
  have "n + (4 - n mod 4) mod 4 = (n + 3) div 4 * 4" for n :: nat
  proof -
    have "n mod 4 < 4" "n = 4 * (n div 4) + n mod 4" by simp_all
    moreover obtain q r where q: "q = n div 4" and r: "r = n mod 4" by blast
    ultimately have "r < 4" "n = 4 * q + r" by simp_all
    then consider "n = 4 * q" | "n = 4 * q + 1" | "n = 4 * q + 2" | "n = 4 * q + 3" by linarith
    then show ?thesis by cases (simp_all add: mod_Suc)
  qed
  then show ?thesis by (simp add: pad_def)
qed

lemma length_tok_bytes: "length (tok_bytes t) = 4 + (length (tok_rest t) + 3) div 4 * 4"
  by (simp add: tok_bytes_def length_pad)

lemma toks_bytes_simps [simp]:
  "toks_bytes [] = []" "toks_bytes (t # ts) = tok_bytes t @ toks_bytes ts"
  "toks_bytes (ts @ us) = toks_bytes ts @ toks_bytes us"
  by (simp_all add: toks_bytes_def)

lemma boff_simps [simp]:
  "boff [] = 0" "boff (t # ts) = length (tok_bytes t) + boff ts" "boff (ts @ us) = boff ts + boff us"
  by (simp_all add: boff_def)

lemma boff_aligned: "boff ts mod 4 = 0"
  by (induction ts) (auto simp: length_tok_bytes)

lemma boff_length: "4 * length ts \<le> boff ts"
  by (induction ts) (simp_all add: length_tok_bytes)

lemma sint_small: "n < 2 ^ 31 \<Longrightarrow> sint (of_nat n :: u32) = int n"
  by (simp add: signed_of_nat signed_take_bit_eq_if_positive bit_iff_odd take_bit_nat_eq_self take_bit_int_eq_self)

lemma unat_small: "n < 2 ^ 32 \<Longrightarrow> unat (of_nat n :: u32) = n"
  by (simp add: unat_of_nat)

lemma less_small: "a < 2 ^ 32 \<Longrightarrow> b < 2 ^ 32 \<Longrightarrow> (of_nat a :: u32) < of_nat b \<longleftrightarrow> a < b"
  by (simp add: word_less_nat_alt unat_small)

lemma le_small: "a < 2 ^ 32 \<Longrightarrow> b < 2 ^ 32 \<Longrightarrow> (of_nat a :: u32) \<le> of_nat b \<longleftrightarrow> a \<le> b"
  by (simp add: word_le_nat_alt unat_small)

lemma not_neg_small: "n < 2 ^ 31 \<Longrightarrow> \<not> neg (of_nat n)"
  by (simp add: neg_def sint_small)

lemma of_nat_unat_u32: "(of_nat (unat w) :: u32) = w"
  by simp

lemma offset64: "a < 2 ^ 32 \<Longrightarrow> n < 2 ^ 31 \<Longrightarrow> unat (ucast (of_nat a :: u32) + scast (of_nat n :: u32) :: u64) = a + n"
proof -
  assume a: "a < 2 ^ 32" and n: "n < 2 ^ 31"
  have "(ucast (of_nat a :: u32) :: u64) = of_nat a" using a by (simp add: unsigned_of_nat take_bit_nat_eq_self)
  moreover have "(scast (of_nat n :: u32) :: u64) = of_nat n"
    using sint_small [OF n] by (metis of_int_of_nat_eq of_int_sint)
  moreover have "unat (of_nat (a + n) :: u64) = a + n" using a n by (simp add: unat_of_nat del: of_nat_add)
  ultimately show ?thesis by simp
qed

section \<open>Reading an image\<close>

lemma ld32_run: "p + 4 \<le> length fdt \<Longrightarrow> fdt32_ld p fdt = Ret (be_word (blk fdt p 4)) fdt"
  by (simp add: fdt32_ld_def run_simps)

lemma ld8_run: "p < length fdt \<Longrightarrow> ld8 p fdt = Ret (fdt ! p) fdt"
  by (simp add: ld8_def run_simps)

lemma header_run:
  assumes "fdt_image fdt ts strs"
  shows "fdt_magic fdt = Ret FDT_MAGIC fdt" "fdt_totalsize fdt = Ret (hdr fdt 4) fdt"
    "fdt_off_dt_struct fdt = Ret (hdr fdt 8) fdt" "fdt_off_dt_strings fdt = Ret (hdr fdt 12) fdt"
    "fdt_version fdt = Ret 17 fdt" "fdt_last_comp_version fdt = Ret (hdr fdt 24) fdt"
    "fdt_size_dt_strings fdt = Ret (hdr fdt 32) fdt" "fdt_size_dt_struct fdt = Ret (hdr fdt 36) fdt"
  using assms
  by (simp_all add: fdt_image_def fdt_magic_def fdt_totalsize_def fdt_off_dt_struct_def fdt_off_dt_strings_def fdt_version_def
      fdt_last_comp_version_def fdt_size_dt_strings_def fdt_size_dt_struct_def ld32_run hdr_def)

text \<open>The positions of the blocks and the size of the blob are small.\<close>

lemma image_sizes:
  assumes "fdt_image fdt ts strs"
  obtains so ss T where "hdr fdt 8 = of_nat so" "hdr fdt 12 = of_nat ss" "hdr fdt 4 = of_nat T"
    "so + boff ts \<le> T" "ss + length strs \<le> T" "T < 2 ^ 31 - 1" "T \<le> length fdt" "40 \<le> T"
    "hdr fdt 36 = of_nat (boff ts)" "hdr fdt 32 = of_nat (length strs)"
    "blk fdt so (boff ts) = toks_bytes ts" "blk fdt ss (length strs) = strs"
    "so = unat (hdr fdt 8)" "ss = unat (hdr fdt 12)"
proof -
  have "unat (hdr fdt 4) < 2 ^ 31 - 1" using assms by (simp add: fdt_image_def word_less_nat_alt)
  moreover have "hdr fdt 36 = of_nat (boff ts)" "hdr fdt 32 = of_nat (length strs)"
    using assms unfolding fdt_image_def by (metis of_nat_unat_u32)+
  ultimately show thesis
    using that [of "unat (hdr fdt 8)" "unat (hdr fdt 12)" "unat (hdr fdt 4)"] assms
    by (simp add: fdt_image_def)
qed

lemma probe_run:
  assumes "fdt_image fdt ts strs"
  shows "fdt_ro_probe_u fdt = Ret (hdr fdt 4) fdt" "\<not> neg (hdr fdt 4)"
proof -
  obtain T where T: "hdr fdt 4 = of_nat T" "T < 2 ^ 31 - 1" using assms by (rule image_sizes)
  then show "\<not> neg (hdr fdt 4)" by (simp add: not_neg_small)
  show "fdt_ro_probe_u fdt = Ret (hdr fdt 4) fdt"
  proof -
    have "hdr fdt 4 < INT_MAX" "\<not> 17 < hdr fdt 24" using assms by (auto simp: fdt_image_def not_less)
    then show ?thesis by (simp add: fdt_ro_probe_u_def run_simps header_run [OF assms] Let_def)
  qed
qed

lemma offset_ptr_u_run:
  assumes "fdt_image fdt ts strs" "p \<le> boff ts"
  shows "fdt_offset_ptr_u (of_nat p) fdt = Ret (unat (hdr fdt 8) + p) fdt"
proof -
  obtain so T where "hdr fdt 8 = of_nat so" "so = unat (hdr fdt 8)" "so + boff ts \<le> T" "T < 2 ^ 31 - 1"
    using assms(1) by (rule image_sizes)
  then show ?thesis
    using assms offset64 [of so p] by (simp add: fdt_offset_ptr_u_def run_simps header_run)
qed

lemma offset_ptr_run:
  assumes "fdt_image fdt ts strs" "p + l \<le> boff ts"
  shows "fdt_offset_ptr (of_nat p) (of_nat l) fdt = Ret (Some (unat (hdr fdt 8) + p)) fdt"
proof -
  obtain so T where so: "hdr fdt 8 = of_nat so" "so + boff ts \<le> T" "T < 2 ^ 31 - 1" "hdr fdt 4 = of_nat T"
    "hdr fdt 36 = of_nat (boff ts)"
    using assms(1) by (rule image_sizes)
  have "\<not> (of_nat (p + so) :: u32) < of_nat p" "\<not> (of_nat (p + so + l) :: u32) < of_nat (p + so)"
    "\<not> (of_nat T :: u32) < of_nat (p + so + l)" "\<not> (of_nat (p + l) :: u32) < of_nat p"
    "\<not> (of_nat (boff ts) :: u32) < of_nat (p + l)"
    using so assms(2) by (simp_all add: not_less le_small del: of_nat_add)
  then show ?thesis
    using assms offset_ptr_u_run [OF assms(1), of p] so
    by (simp add: fdt_offset_ptr_def run_simps header_run)
qed

lemma tagalign_small: "x < 2 ^ 31 \<Longrightarrow> FDT_TAGALIGN (of_nat x) = of_nat ((x + 3) div 4 * 4)"
proof -
  assume x: "x < 2 ^ 31"
  have m: "w AND NOT 3 = push_bit 2 (drop_bit 2 w)" for w :: u32
  proof (rule bit_word_eqI)
    fix i assume "i < LENGTH(32)"
    moreover have "bit (3 :: u32) i \<longleftrightarrow> i < 2"
      using bit_mask_iff [of 2 i, where 'a = u32] calculation by (simp add: mask_eq_exp_minus_1)
    moreover have "2 \<le> i \<Longrightarrow> Suc (Suc (i - 2)) = i" by simp
    ultimately show "bit (w AND NOT 3) i = bit (push_bit 2 (drop_bit 2 w)) i"
      by (auto simp: bit_simps not_less)
  qed
  have "FDT_TAGALIGN (of_nat x) = of_nat (x + 3) AND NOT 3"
    by (simp add: FDT_TAGALIGN_def add.commute)
  also have "\<dots> = push_bit 2 (of_nat ((x + 3) div 4))"
  proof -
    have "unat (drop_bit 2 (of_nat (x + 3) :: u32)) = (x + 3) div 4"
      using x unat_small [of "x + 3"] by (simp add: unat_div drop_bit_eq_div del: of_nat_add)
    then show ?thesis unfolding m by (metis of_nat_unat_u32)
  qed
  finally show ?thesis by (simp add: push_bit_eq_mult mult.commute)
qed

lemma blk_mid:
  assumes "blk m i n = xs @ ys @ zs" "i + n \<le> length m"
  shows "blk m (i + length xs) (length ys) = ys"
proof -
  have n: "n = length xs + length ys + length zs" using arg_cong [OF assms(1), of length] assms(2) by simp
  have "ys = take (length ys) (drop (length xs) (blk m i n))" by (simp add: assms(1))
  also have "\<dots> = blk m (i + length xs) (length ys)" by (simp add: blk_def drop_take n add.commute)
  finally show ?thesis by simp
qed

lemma image_bytes:
  assumes "fdt_image fdt ts strs" "toks_bytes ts = xs @ ys @ zs"
  shows "blk fdt (unat (hdr fdt 8) + length xs) (length ys) = ys"
    "unat (hdr fdt 8) + length xs + length ys \<le> length fdt"
  using blk_mid [of fdt "unat (hdr fdt 8)" "boff ts" xs ys zs] assms
  by (auto simp: fdt_image_def boff_def)

lemma skip_name_run:
  assumes "fdt_image fdt ts strs" "toks_bytes ts = xs @ n @ 0 # zs" "0 \<notin> set n" "length n < k"
  shows "skip_name k (of_nat (length xs)) fdt = Ret (Some (of_nat (length xs + length n + 1))) fdt"
  using assms(2-)
proof (induction n arbitrary: xs k)
  case Nil
  have "length xs + 1 \<le> boff ts" using Nil by (simp add: boff_def)
  note p = offset_ptr_run [OF assms(1) this]
  have "blk fdt (unat (hdr fdt 8) + length xs) 1 = [0]" "unat (hdr fdt 8) + length xs < length fdt"
    using image_bytes [OF assms(1), of xs "[0]" zs] Nil by auto
  then have "fdt ! (unat (hdr fdt 8) + length xs) = 0" by (simp add: blk_def take_Suc hd_drop_conv_nth)
  with p Nil show ?case using \<open>_ < length fdt\<close> by (cases k) (simp_all add: run_simps ld8_run)
next
  case (Cons c n)
  have "length xs + 1 \<le> boff ts" using Cons.prems by (simp add: boff_def)
  note p = offset_ptr_run [OF assms(1) this]
  have "blk fdt (unat (hdr fdt 8) + length xs) 1 = [c]" "unat (hdr fdt 8) + length xs < length fdt"
    using image_bytes [OF assms(1), of xs "[c]" "n @ 0 # zs"] Cons.prems by auto
  then have "fdt ! (unat (hdr fdt 8) + length xs) = c" by (simp add: blk_def take_Suc hd_drop_conv_nth)
  with p Cons.prems Cons.IH [of "xs @ [c]" "k - 1"] show ?case using \<open>_ < length fdt\<close>
    by (cases k) (simp_all add: run_simps ld8_run add.commute add.left_commute)
qed

section \<open>The lexer reads the tokens\<close>

lemma tag_word:
  assumes "fdt_image fdt (ts @ t # us) strs"
  shows "fdt32_ld (unat (hdr fdt 8) + boff ts) fdt = Ret (tok_tag t) fdt"
  using image_bytes [OF assms, of "toks_bytes ts" "be_bytes (tok_tag t)" "pad (tok_rest t) @ toks_bytes us"]
  by (simp add: ld32_run boff_def tok_bytes_def add.assoc)

lemma prop_words:
  assumes "fdt_image fdt (ts @ TProp off v # us) strs"
  shows "fdt32_ld (unat (hdr fdt 8) + boff ts + 4) fdt = Ret (of_nat (length v)) fdt"
    "fdt32_ld (unat (hdr fdt 8) + boff ts + 8) fdt = Ret (of_nat off) fdt"
    "blk fdt (unat (hdr fdt 8) + boff ts + 12) (length v) = v"
    "unat (hdr fdt 8) + boff ts + 12 + length v \<le> length fdt"
proof -
  let ?n = "be_bytes (of_nat (length v))" and ?o = "be_bytes (of_nat off)" and ?z = "toks_bytes us"
  obtain zs where b: "toks_bytes (ts @ TProp off v # us) = toks_bytes ts @ be_bytes 3 @ ?n @ ?o @ v @ zs"
    by (simp add: tok_bytes_def pad_def)
  have "length (toks_bytes ts) = boff ts" by (simp add: boff_def)
  then show "fdt32_ld (unat (hdr fdt 8) + boff ts + 4) fdt = Ret (of_nat (length v)) fdt"
    "fdt32_ld (unat (hdr fdt 8) + boff ts + 8) fdt = Ret (of_nat off) fdt"
    "blk fdt (unat (hdr fdt 8) + boff ts + 12) (length v) = v"
    "unat (hdr fdt 8) + boff ts + 12 + length v \<le> length fdt"
    using image_bytes [OF assms, of "toks_bytes ts @ be_bytes 3" ?n "?o @ v @ zs"]
      image_bytes [OF assms, of "toks_bytes ts @ be_bytes 3 @ ?n" ?o "v @ zs"]
      image_bytes [OF assms, of "toks_bytes ts @ be_bytes 3 @ ?n @ ?o" v zs] b
    by (simp_all add: ld32_run add.assoc)
qed

lemma boff_bound: "fdt_image fdt ts strs \<Longrightarrow> boff ts < 2 ^ 31 - 1"
  by (erule image_sizes) simp

lemma tag_end_run:
  assumes "fdt_image fdt (ts @ t # us) strs" "tok_ok t" "boff (ts @ t # us) \<le> N"
  shows "tag_end N (tok_tag t) (of_nat (boff ts + 4)) fdt = Ret (Some (of_nat (boff ts + 4 + length (tok_rest t)))) fdt"
proof (cases t)
  case (TBegin n)
  have "toks_bytes (ts @ t # us) = (toks_bytes ts @ be_bytes 1) @ n @ 0 # drop (length n + 1) (pad (n @ [0])) @ toks_bytes us"
    by (simp add: TBegin tok_bytes_def pad_def)
  from skip_name_run [OF assms(1) this, of N] assms(2,3) TBegin show ?thesis
    by (simp add: tag_end_def boff_def [symmetric] length_tok_bytes add.assoc del: of_nat_add)
next
  case (TProp off v)
  have "boff ts + 4 + 4 \<le> boff (ts @ t # us)" by (simp add: TProp length_tok_bytes)
  from offset_ptr_run [OF assms(1) this] show ?thesis
    using prop_words(1) [of fdt ts off v us strs] assms(1) TProp
    by (simp add: tag_end_def run_simps header_run [OF assms(1)] Let_def add.assoc)
qed (simp_all add: tag_end_def run_simps)

lemma next_tag_run:
  assumes "fdt_image fdt (ts @ t # us) strs" "tok_ok t" "boff (ts @ t # us) \<le> N"
  shows "fdt_next_tag N (of_nat (boff ts)) fdt = Ret (tok_tag t, of_nat (boff (ts @ [t]))) fdt"
proof -
  let ?r = "length (tok_rest t)"
  have l: "boff ts + 4 + ?r \<le> boff (ts @ t # us)" by (simp add: length_tok_bytes)
  then have p: "fdt_offset_ptr (of_nat (boff ts)) 4 fdt = Ret (Some (unat (hdr fdt 8) + boff ts)) fdt"
    "fdt_offset_ptr (of_nat (boff ts)) (of_nat (4 + ?r)) fdt = Ret (Some (unat (hdr fdt 8) + boff ts)) fdt"
    using offset_ptr_run [OF assms(1), of "boff ts" 4] offset_ptr_run [OF assms(1), of "boff ts" "4 + ?r"] by simp_all
  have a: "FDT_TAGALIGN (of_nat (boff ts + 4 + ?r)) = of_nat (boff (ts @ [t]))"
  proof -
    have "(boff ts + 4 + ?r + 3) div 4 * 4 = boff (ts @ [t])"
      using boff_aligned [of ts] by (simp add: length_tok_bytes) presburger
    then show ?thesis using tagalign_small [of "boff ts + 4 + ?r"] boff_bound [OF assms(1)] l by simp
  qed
  show ?thesis
    using tag_end_run [OF assms] p tag_word [OF assms(1)] a
    by (simp add: fdt_next_tag_def run_simps)
qed

lemma boff_mod: "boff ts < 2 ^ 32 \<Longrightarrow> (of_nat (boff ts) :: u32) mod 4 = 0"
  using boff_aligned [of ts] by (simp add: unat_eq_0 [symmetric] unat_mod unat_small)

lemma boff_prefix:
  assumes "fdt_image fdt (ts @ us) strs"
  shows "boff ts < 2 ^ 31" "\<not> neg (of_nat (boff ts))" "(of_nat (boff ts) :: u32) mod 4 = 0"
  using boff_bound [OF assms] by (simp_all add: not_neg_small boff_mod)

lemma boff_behind:
  assumes "fdt_image fdt (ts @ t # us) strs"
  shows "boff (ts @ [t]) < 2 ^ 31" "\<not> neg (of_nat (boff (ts @ [t])))"
  using boff_prefix [of fdt "ts @ [t]" us strs] assms by simp_all

lemma check_node_run:
  assumes "fdt_image fdt (ts @ TBegin n # us) strs" "0 \<notin> set n" "boff (ts @ TBegin n # us) \<le> N"
  shows "fdt_check_node_offset_u N (of_nat (boff ts)) fdt = Ret (of_nat (boff (ts @ [TBegin n]))) fdt"
  using next_tag_run [OF assms(1) _ assms(3)] assms(2) boff_prefix [OF assms(1)]
  by (simp add: fdt_check_node_offset_u_def run_simps)

lemma check_prop_run:
  assumes "fdt_image fdt (ts @ TProp off v # us) strs" "boff (ts @ TProp off v # us) \<le> N"
  shows "fdt_check_prop_offset_u N (of_nat (boff ts)) fdt = Ret (of_nat (boff (ts @ [TProp off v]))) fdt"
  using next_tag_run [OF assms(1) _ assms(2)] boff_prefix [OF assms(1)]
  by (simp add: fdt_check_prop_offset_u_def run_simps)

section \<open>Names\<close>

lemma memchr_found:
  "blk m p (length k + 1) = k @ [0] \<Longrightarrow> p + length k < length m \<Longrightarrow> 0 \<notin> set k \<Longrightarrow> length k < len \<Longrightarrow>
   memchr_from m p 0 len = Some (Some (p + length k))"
proof (induction k arbitrary: p len)
  case Nil
  then show ?case by (cases len) (simp_all add: blk_def take_Suc hd_drop_conv_nth)
next
  case (Cons c k)
  then have "m ! p = c" "blk m (Suc p) (length k + 1) = k @ [0]" by (simp_all add: blk_Suc)
  with Cons show ?case by (cases len) simp_all
qed

lemma memchr_none: "len \<le> length s \<Longrightarrow> \<exists>r. sbi_memchr s 64 len = Some r \<and> (r = None \<longleftrightarrow> 64 \<notin> set (take len s))"
proof -
  have "\<exists>r. memchr_from s p 64 len = Some r \<and> (r = None \<longleftrightarrow> 64 \<notin> set (blk s p len))" if "p + len \<le> length s" for p
    using that
  proof (induction len arbitrary: p)
    case (Suc len)
    from Suc.IH [of "Suc p"] Suc.prems show ?case by (auto simp: blk_Suc)
  qed (simp add: blk_def)
  from this [of 0] show "len \<le> length s \<Longrightarrow> ?thesis" by (simp add: sbi_memchr_def blk_def)
qed

lemma cstr_at:
  assumes "blk m p (length k + 1) = k @ [0]" "p + length k < length m" "0 \<notin> set k"
  shows "sbi_strlen (drop p m) = Some (length k)"
proof -
  have d: "drop p m = k @ 0 # drop (p + length k + 1) m"
  proof -
    have "drop p m = blk m p (length k + 1) @ drop (length k + 1) (drop p m)" by (simp add: blk_def del: drop_drop)
    then show ?thesis using assms(1) by (simp add: add.commute)
  qed
  have "takeWhile (\<lambda>c. c \<noteq> 0) (k @ 0 # zs) = k" for zs using assms(3) by (subst takeWhile_append2) auto
  with d show ?thesis
    using strlen_from_correct [of "drop p m" 0 0] by (simp add: sbi_strlen_def terminated_def cstr_def)
qed

definition name_at :: "u8 list \<Rightarrow> nat \<Rightarrow> u8 list \<Rightarrow> bool" where
  "name_at m p k \<longleftrightarrow> blk m p (length k + 1) = k @ [0] \<and> p + length k < length m \<and> 0 \<notin> set k"

lemma name_at_begin:
  assumes "fdt_image fdt (ts @ TBegin n # us) strs" "0 \<notin> set n"
  shows "name_at fdt (unat (hdr fdt 8) + boff ts + 4) n"
proof -
  have "toks_bytes (ts @ TBegin n # us) =
      (toks_bytes ts @ be_bytes 1) @ (n @ [0]) @ drop (length n + 1) (pad (n @ [0])) @ toks_bytes us"
    by (simp add: tok_bytes_def pad_def)
  from image_bytes [OF assms(1) this] assms(2) show ?thesis
    by (simp add: name_at_def boff_def add.assoc)
qed

lemma get_name_run:
  assumes "fdt_image fdt (ts @ TBegin n # us) strs" "0 \<notin> set n" "boff (ts @ TBegin n # us) \<le> N"
  shows "fdt_get_name N (of_nat (boff ts)) fdt = Ret (Some (unat (hdr fdt 8) + boff ts + 4), of_nat (length n)) fdt"
proof -
  have "boff ts \<le> boff (ts @ TBegin n # us)" by simp
  note p = offset_ptr_u_run [OF assms(1) this]
  have "sbi_strlen (drop (unat (hdr fdt 8) + boff ts + 4) fdt) = Some (length n)"
    using name_at_begin [OF assms(1,2)] unfolding name_at_def by (intro cstr_at) auto
  then show ?thesis
    using p check_node_run [OF assms] probe_run [OF assms(1)] boff_behind [OF assms(1)] header_run [OF assms(1)]
    by (simp add: fdt_get_name_def run_simps on_blob_def Let_def)
qed

text \<open>A component of a path matches a node of that name, or of that name with a unit address.\<close>

definition name_match :: "u8 list \<Rightarrow> u8 list \<Rightarrow> bool" where
  "name_match s n \<longleftrightarrow> n = s \<or> 64 \<notin> set s \<and> length s < length n \<and> take (length s) n = s \<and> n ! length s = 64"

lemma nodename_eq_run:
  assumes "fdt_image fdt (ts @ TBegin n # us) strs" "0 \<notin> set n" "boff (ts @ TBegin n # us) \<le> N" "len \<le> length s"
  shows "fdt_nodename_eq_u N (of_nat (boff ts)) s len fdt = Ret (name_match (take len s) n) fdt"
proof -
  let ?p = "unat (hdr fdt 8) + boff ts + 4"
  have na: "blk fdt ?p (length n + 1) = n @ [0]" "?p + length n < length fdt"
    using name_at_begin [OF assms(1,2)] by (simp_all add: name_at_def)
  have "length n < 2 ^ 31" using boff_bound [OF assms(1)] by (simp add: length_tok_bytes)
  then have l: "sint (of_nat (length n) :: u32) = int (length n)" by (rule sint_small)
  note g = get_name_run [OF assms(1-3)]
  show ?thesis
  proof (cases "length n < len")
    case True
    then show ?thesis using g l assms(4) by (auto simp: fdt_nodename_eq_u_def run_simps name_match_def)
  next
    case False
    have b: "blk fdt ?p len = take len n" "fdt ! (?p + len) = (n @ [0]) ! len"
    proof -
      have "blk fdt ?p len = take len (blk fdt ?p (length n + 1))" using False by (simp add: blk_def min_def)
      then show "blk fdt ?p len = take len n" using na(1) False by simp
      have "fdt ! (?p + len) = blk fdt ?p (length n + 1) ! len"
        using na(2) False by (intro nth_blk [symmetric]) auto
      then show "fdt ! (?p + len) = (n @ [0]) ! len" unfolding na(1) .
    qed
    obtain r where r: "sbi_memcmp fdt ?p s 0 len = Some r" "r = 0 \<longleftrightarrow> take len n = take len s"
      using memcmp_correct [of ?p len fdt 0 s] na(2) False assms(4) b(1) by (auto simp: blk_def)
    obtain q where q: "sbi_memchr s 64 len = Some q" "q = None \<longleftrightarrow> 64 \<notin> set (take len s)"
      using memchr_none [OF assms(4)] by blast
    have c: "(n @ [0]) ! len = 0 \<longleftrightarrow> len = length n"
    proof
      show "(n @ [0]) ! len = 0 \<Longrightarrow> len = length n" using False assms(2) nth_mem [of len n]
        by (cases "len < length n") (auto simp: nth_append)
    qed simp
    show ?thesis
      using g l r q b c False assms(4) na(2)
      by (auto simp: fdt_nodename_eq_u_def run_simps on_blob_def ld8_run name_match_def nth_append min_def)
  qed
qed

text \<open>The strings block holds the names of the properties.\<close>

definition names_ok :: "u8 list \<Rightarrow> (u8 list \<Rightarrow> nat) \<Rightarrow> u8 list set \<Rightarrow> bool" where
  "names_ok strs noff K \<longleftrightarrow> (\<forall>k\<in>K. name_at strs (noff k) k)"

lemma name_in_strings:
  assumes "fdt_image fdt ts strs" "name_at strs q k"
  shows "name_at fdt (unat (hdr fdt 12) + q) k"
proof -
  obtain zs where "blk fdt (unat (hdr fdt 12)) (length strs) = take q strs @ (k @ [0]) @ zs"
    "unat (hdr fdt 12) + length strs \<le> length fdt"
  proof
    show "blk fdt (unat (hdr fdt 12)) (length strs) = take q strs @ (k @ [0]) @ drop (q + length k + 1) strs"
    proof -
      have "drop q strs = blk strs q (length k + 1) @ drop (length k + 1) (drop q strs)"
        by (simp add: blk_def del: drop_drop)
      then have "drop q strs = (k @ [0]) @ drop (q + length k + 1) strs"
        using assms(2) by (simp add: name_at_def add.commute)
      then show ?thesis using assms(1) append_take_drop_id [of q strs] by (simp add: fdt_image_def)
    qed
    show "unat (hdr fdt 12) + length strs \<le> length fdt" using assms(1) by (simp add: fdt_image_def)
  qed
  from blk_mid [OF this] show ?thesis
    using assms(2) \<open>_ \<le> length fdt\<close> by (simp add: name_at_def)
qed

lemma get_string_run:
  assumes "fdt_image fdt ts strs" "name_at strs q k"
  shows "fdt_get_string N (of_nat q) fdt = Ret (Some (unat (hdr fdt 12) + q), of_nat (length k)) fdt"
proof -
  obtain ss T where s: "hdr fdt 12 = of_nat ss" "ss + length strs \<le> T" "T < 2 ^ 31 - 1" "hdr fdt 4 = of_nat T"
    "hdr fdt 32 = of_nat (length strs)"
    using assms(1) by (rule image_sizes)
  have ss: "unat (hdr fdt 12) = ss" using s by (simp add: unat_small)
  have q: "q + length k < length strs" using assms(2) by (simp add: name_at_def)
  have u: "unat (of_nat q + hdr fdt 12) = ss + q"
    using unat_small [of "q + ss"] s q by (simp add: add.commute)
  have a: "\<not> hdr fdt 4 \<le> of_nat q + hdr fdt 12" "\<not> hdr fdt 32 \<le> of_nat q" "\<not> neg (of_nat q)"
    using s q le_small [of T "q + ss"] le_small [of "length strs" q] by (simp_all add: not_neg_small)
  have r: "unat (hdr fdt 4 - (of_nat q + hdr fdt 12)) = T - (ss + q)" "unat (hdr fdt 32 - of_nat q) = length strs - q"
    using s q u a unat_small [of T] unat_small [of q] unat_small [of "length strs"] by (simp_all add: unat_sub not_le)
  have "memchr_from fdt (ss + q) 0 (min (length strs - q) (T - (ss + q))) = Some (Some (ss + q + length k))"
    using name_in_strings [OF assms] q s(2) unfolding name_at_def ss by (intro memchr_found) auto
  then show ?thesis
    using a u r probe_run [OF assms(1)] header_run [OF assms(1)] ss
    by (simp add: fdt_get_string_def string_room_def run_simps on_blob_def Let_def)
qed

lemma string_eq_run:
  assumes "fdt_image fdt ts strs" "name_at strs q k" "len \<le> length s"
  shows "fdt_string_eq_u N (of_nat q) s len fdt = Ret (k = take len s) fdt"
proof -
  let ?p = "unat (hdr fdt 12) + q"
  have na: "blk fdt ?p (length k + 1) = k @ [0]" "?p + length k < length fdt"
    using name_in_strings [OF assms(1,2)] by (simp_all add: name_at_def)
  obtain T where "length k < T" "T < 2 ^ 31 - 1"
  proof -
    from assms(1) obtain ss T where "ss + length strs \<le> T" "T < 2 ^ 31 - 1" by (rule image_sizes)
    then show thesis using assms(2) that [of T] by (simp add: name_at_def)
  qed
  then have l: "sint (of_nat (length k) :: u32) = int (length k)" by (intro sint_small) simp
  show ?thesis
  proof (cases "length k = len")
    case True
    have "blk fdt ?p len = take len (blk fdt ?p (length k + 1))" using True by (simp add: blk_def min_def)
    then have "blk fdt ?p len = k" using na(1) True by simp
    then obtain r where "sbi_memcmp fdt ?p s 0 len = Some r" "r = 0 \<longleftrightarrow> k = take len s"
      using memcmp_correct [of ?p len fdt 0 s] na(2) True assms(3) by (auto simp: blk_def [of s])
    then show ?thesis
      using get_string_run [OF assms(1,2)] l True by (simp add: fdt_string_eq_u_def run_simps on_blob_def)
  next
    case False
    then have "k \<noteq> take len s" using assms(3) by auto
    then show ?thesis using get_string_run [OF assms(1,2)] l False by (simp add: fdt_string_eq_u_def run_simps)
  qed
qed

section \<open>Properties of a node\<close>

lemma ptok_pair [simp]: "ptok noff (k, v) = TProp (noff k) v"
  by (simp add: ptok_def)

lemma prop_data_run: "fdt_version fdt = Ret 17 fdt \<Longrightarrow> prop_data p q fdt = Ret (p + 12) fdt"
  by (simp add: prop_data_def run_simps)

lemma nextprop_run:
  assumes "fdt_image fdt (ts @ t # us) strs" "tok_ok t" "boff (ts @ t # us) \<le> N"
  shows "t = TProp q v \<Longrightarrow> nextprop_u N (of_nat (boff ts)) fdt = Ret (of_nat (boff ts)) fdt"
    "t = TEnd \<or> t = TBegin n \<Longrightarrow> nextprop_u N (of_nat (boff ts)) fdt = Ret (- 1) fdt"
proof -
  have "0 < N" using assms(3) by (auto simp: length_tok_bytes)
  then obtain k where "N = Suc k" by (cases N) auto
  then show "t = TProp q v \<Longrightarrow> nextprop_u N (of_nat (boff ts)) fdt = Ret (of_nat (boff ts)) fdt"
    "t = TEnd \<or> t = TBegin n \<Longrightarrow> nextprop_u N (of_nat (boff ts)) fdt = Ret (- 1) fdt"
    using next_tag_run [OF assms] by (auto simp: nextprop_u_def run_simps)
qed

lemma neg_m1: "neg (- 1)"
  by (simp add: neg_def)

text \<open>The search from the first of the properties \<open>ps\<close> on: \<open>u\<close> is the token that ends the properties.\<close>

definition prop_found :: "u8 list \<Rightarrow> u8 list option \<Rightarrow> (u8 list, (nat \<times> u32) option \<times> u32) outcome \<Rightarrow> bool" where
  "prop_found fdt r out \<longleftrightarrow>
     (case r of None \<Rightarrow> out = Ret (None, - 1) fdt
      | Some v \<Rightarrow> \<exists>p q. out = Ret (Some (p, q), of_nat (length v)) fdt \<and>
          blk fdt (p + 12) (length v) = v \<and> p + 12 + length v \<le> length fdt)"

lemma property_loop_run:
  assumes "fdt_image fdt (ts @ map (ptok noff) ps @ u # us) strs" "boff (ts @ map (ptok noff) ps @ u # us) \<le> N"
    "names_ok strs noff (fst ` set ps)" "u = TEnd \<or> u = TBegin n" "tok_ok u" "length ps < k" "len \<le> length s"
  shows "prop_found fdt (map_of ps (take len s))
    (bindM (nextprop_u N (of_nat (boff ts))) (\<lambda>q. get_property_loop N k q s len) fdt)"
  using assms(1-3,6)
proof (induction ps arbitrary: ts k)
  case Nil
  then show ?case using nextprop_run(2) [of fdt ts u us strs N n] assms(4,5)
    by (cases k) (auto simp: prop_found_def run_simps neg_m1)
next
  case (Cons kv ps)
  obtain k' v' where kv: "kv = (k', v')" by fastforce
  obtain j where k: "k = Suc j" using Cons.prems(4) by (cases k) auto
  let ?us = "map (ptok noff) ps @ u # us" and ?t = "TProp (noff k') v'"
  have im: "fdt_image fdt (ts @ ?t # ?us) strs" "boff (ts @ ?t # ?us) \<le> N"
    using Cons.prems(1,2) by (simp_all add: kv)
  have na: "name_at strs (noff k') k'" using Cons.prems(3) by (simp add: names_ok_def kv)
  have o: "boff ts \<le> boff (ts @ ?t # ?us)" by simp
  note c = check_prop_run [OF im] boff_behind [OF im(1)] boff_prefix [OF im(1)]
  have st: "get_property_loop N (Suc j) (of_nat (boff ts)) s len fdt =
      (if k' = take len s then Ret (Some (unat (hdr fdt 8) + boff ts, of_nat (boff ts)), of_nat (length v')) fdt
       else bindM (nextprop_u N (of_nat (boff (ts @ [?t])))) (\<lambda>q. get_property_loop N j q s len) fdt)"
    using c prop_words [OF im(1)] string_eq_run [OF im(1) na assms(7)] offset_ptr_u_run [OF im(1) o]
    by (simp add: run_simps fdt_get_property_by_offset_u_def fdt_next_property_offset_def)
  have n: "bindM (nextprop_u N (of_nat (boff ts))) (\<lambda>q. get_property_loop N k q s len) fdt =
      get_property_loop N (Suc j) (of_nat (boff ts)) s len fdt"
    using nextprop_run(1) [OF im(1) _ im(2), of "noff k'" v'] by (simp add: run_bind k)
  show ?case
  proof (cases "k' = take len s")
    case True
    then show ?thesis unfolding n st prop_found_def
      using prop_words(3,4) [OF im(1)] by (auto simp: kv)
  next
    case False
    then have "map_of (kv # ps) (take len s) = map_of ps (take len s)" by (simp add: kv)
    then show ?thesis unfolding n st
      using Cons.IH [of "ts @ [?t]" j] im Cons.prems(3,4) False by (simp add: k names_ok_def)
  qed
qed

lemma getprop_run:
  assumes "fdt_image fdt (ts @ TBegin m # map (ptok noff) ps @ u # us) strs"
    "boff (ts @ TBegin m # map (ptok noff) ps @ u # us) \<le> N" "0 \<notin> set m"
    "names_ok strs noff (fst ` set ps)" "u = TEnd \<or> u = TBegin n" "tok_ok u" "len \<le> length s"
  shows "case map_of ps (take len s) of
      None \<Rightarrow> fdt_getprop_namelen N (of_nat (boff ts)) s len fdt = Ret (None, - 1) fdt
    | Some v \<Rightarrow> \<exists>p. fdt_getprop_namelen N (of_nat (boff ts)) s len fdt = Ret (Some p, of_nat (length v)) fdt \<and>
        blk fdt p (length v) = v \<and> p + length v \<le> length fdt"
proof -
  have im: "fdt_image fdt ((ts @ [TBegin m]) @ map (ptok noff) ps @ u # us) strs"
    "boff ((ts @ [TBegin m]) @ map (ptok noff) ps @ u # us) \<le> N" using assms(1,2) by simp_all
  have "length ps < N" using boff_length [of "map (ptok noff) ps"] assms(2) by (simp add: length_tok_bytes)
  from property_loop_run [OF im assms(4-6) this assms(7)]
  have "prop_found fdt (map_of ps (take len s)) (fdt_get_property_namelen_u N (of_nat (boff ts)) s len fdt)"
    using check_node_run [OF assms(1,3,2)] boff_behind(2) [OF assms(1)]
    by (simp add: fdt_get_property_namelen_u_def fdt_first_property_offset_def run_bind)
  then show ?thesis using prop_data_run [OF header_run(5) [OF assms(1)]]
    by (cases "map_of ps (take len s)")
      (auto simp: prop_found_def fdt_getprop_namelen_def run_simps)
qed

section \<open>From node to node\<close>

text \<open>
  What \<open>fdt_next_node\<close> finds in the tokens \<open>us\<close> behind \<open>ts\<close>: the tokens before the node it stops at and the depth there.
  Without a depth counter it does not stop at the end of a node.
\<close>

fun nn :: "token list \<Rightarrow> token list \<Rightarrow> int option \<Rightarrow> token list option \<times> int option" where
  "nn ts (TBegin n # us) d = (Some ts, map_option (\<lambda>d. d + 1) d)"
| "nn ts (TEnd # us) d =
     (case d of None \<Rightarrow> nn (ts @ [TEnd]) us None
      | Some d \<Rightarrow> if d - 1 < 0 then (Some (ts @ [TEnd]), Some (d - 1)) else nn (ts @ [TEnd]) us (Some (d - 1)))"
| "nn ts (TDone # us) d = (None, d)"
| "nn ts (t # us) d = nn (ts @ [t]) us d"
| "nn ts [] d = (None, d)"

lemma sint_of_int: "- (2 ^ 31) \<le> x \<Longrightarrow> x < 2 ^ 31 \<Longrightarrow> sint (of_int x :: u32) = x"
  by (simp add: signed_of_int signed_take_bit_int_eq_self)

definition nn_out :: "token list option \<times> int option \<Rightarrow> u32 \<times> u32 option" where
  "nn_out r = (case fst r of None \<Rightarrow> - 1 | Some p \<Rightarrow> of_nat (boff p), map_option of_int (snd r))"

definition stream_ok :: "u8 list \<Rightarrow> token list \<Rightarrow> u8 list \<Rightarrow> nat \<Rightarrow> bool" where
  "stream_ok fdt ts strs N \<longleftrightarrow>
     fdt_image fdt ts strs \<and> boff ts \<le> N \<and> (\<forall>t\<in>set ts. tok_ok t) \<and> ts \<noteq> [] \<and> last ts = TDone"

lemma stream_tag:
  assumes "stream_ok fdt (ts @ t # us) strs N"
  shows "fdt_next_tag N (of_nat (boff ts)) fdt = Ret (tok_tag t, of_nat (boff (ts @ [t]))) fdt"
  using assms unfolding stream_ok_def by (intro next_tag_run) auto

lemma node_loop_run:
  assumes "stream_ok fdt (ts @ us) strs N" "us \<noteq> []" "length us \<le> k"
    "\<And>x. d = Some x \<Longrightarrow> 0 \<le> x \<and> x + int (length us) < 2 ^ 31"
  shows "next_node_loop N k (of_nat (boff ts)) (map_option of_int d) fdt = Ret (nn_out (nn ts us d)) fdt"
  using assms
proof (induction us arbitrary: ts k d)
  case (Cons t us)
  obtain j where k: "k = Suc j" using Cons.prems(3) by (cases k) auto
  have im: "fdt_image fdt (ts @ t # us) strs" using Cons.prems(1) by (simp add: stream_ok_def)
  note g = stream_tag [OF Cons.prems(1)] boff_behind [OF im]
  have l: "us = [] \<Longrightarrow> t = TDone" using Cons.prems(1) by (simp add: stream_ok_def)
  have st: "stream_ok fdt ((ts @ [t]) @ us) strs N" using Cons.prems(1) by simp
  have ih: "next_node_loop N j (of_nat (boff (ts @ [t]))) (map_option of_int e) fdt = Ret (nn_out (nn (ts @ [t]) us e)) fdt"
    if "t \<noteq> TDone" "\<And>x. e = Some x \<Longrightarrow> 0 \<le> x \<and> x + int (length us) < 2 ^ 31" for e
    using Cons.IH [OF st _ _ that(2)] l that(1) Cons.prems(3) by (auto simp: k)
  have "0 \<le> x \<and> x + int (length us) < 2 ^ 31" if "d = Some x" for x using Cons.prems(4) [OF that] by simp
  note ihd = ih [OF _ this]
  show ?case
  proof (cases t)
    case (TBegin n)
    then show ?thesis using g by (simp add: k run_simps nn_out_def option.map_comp o_def)
  next
    case TEnd
    show ?thesis
    proof (cases d)
      case None
      then show ?thesis using g ih [of None] TEnd by (simp add: k run_simps)
    next
      case (Some x)
      then have x: "0 \<le> x" "x + int (length us) + 1 < 2 ^ 31" using Cons.prems(4) by auto
      have "neg (of_int x - 1) \<longleftrightarrow> x - 1 < 0" using sint_of_int [of "x - 1"] x by (simp add: neg_def)
      then show ?thesis using g ih [of "Some (x - 1)"] TEnd Some x by (simp add: k run_simps nn_out_def)
    qed
  next
    case (TProp q v)
    then show ?thesis using g ihd by (simp add: k run_simps)
  next
    case TNop
    then show ?thesis using g ihd by (simp add: k run_simps)
  next
    case TDone
    then show ?thesis using g by (simp add: k run_simps nn_out_def)
  qed
qed simp

lemma next_node_run:
  assumes "stream_ok fdt (ts @ TBegin n # us) strs N" "us \<noteq> []"
    "\<And>x. d = Some x \<Longrightarrow> 0 \<le> x \<and> x + int (length us) < 2 ^ 31"
  shows "fdt_next_node N (of_nat (boff ts)) (map_option of_int d) fdt = Ret (nn_out (nn (ts @ [TBegin n]) us d)) fdt"
proof -
  have im: "fdt_image fdt (ts @ TBegin n # us) strs" "0 \<notin> set n" "boff (ts @ TBegin n # us) \<le> N"
    using assms(1) by (simp_all add: stream_ok_def)
  have "length us \<le> N" using boff_length [of us] im(3) by (simp add: length_tok_bytes)
  then show ?thesis
    using node_loop_run [of fdt "ts @ [TBegin n]" us strs N N d] assms check_node_run [OF im]
      boff_prefix [OF im(1)] boff_behind [OF im(1)]
    by (simp add: fdt_next_node_def run_simps)
qed

text \<open>The nodes that repeated calls visit, with the tokens before each, its name and its depth.\<close>

fun visits :: "token list \<Rightarrow> token list \<Rightarrow> int option \<Rightarrow> (token list \<times> u8 list \<times> int option) list" where
  "visits ts (TBegin n # us) d =
     (ts, n, map_option (\<lambda>d. d + 1) d) # visits (ts @ [TBegin n]) us (map_option (\<lambda>d. d + 1) d)"
| "visits ts (TEnd # us) d =
     (case d of None \<Rightarrow> visits (ts @ [TEnd]) us None
      | Some d \<Rightarrow> if d - 1 < 0 then [] else visits (ts @ [TEnd]) us (Some (d - 1)))"
| "visits ts (TDone # us) d = []"
| "visits ts (t # us) d = visits (ts @ [t]) us d"
| "visits ts [] d = []"

lemma stream_last:
  assumes "stream_ok fdt (ts @ t # us) strs N" "t \<noteq> TDone"
  shows "us \<noteq> []" "stream_ok fdt ((ts @ [t]) @ us) strs N"
  using assms by (auto simp: stream_ok_def)

lemma stream_sizes:
  assumes "stream_ok fdt (ts @ us) strs N"
  shows "length ts + length us < 2 ^ 29" "4 * length us \<le> N" "\<not> neg (of_nat (boff ts))"
proof -
  have "fdt_image fdt (ts @ us) strs" "boff (ts @ us) \<le> N" using assms by (auto simp: stream_ok_def)
  then show "length ts + length us < 2 ^ 29" "4 * length us \<le> N" "\<not> neg (of_nat (boff ts))"
    using boff_length [of ts] boff_length [of us] boff_bound [of fdt "ts @ us" strs] boff_prefix [of fdt ts us strs] by auto
qed

text \<open>The loop of \<open>fdt_subnode_offset_namelen\<close> from where a call of \<open>fdt_next_node\<close> leaves it.\<close>

lemma subnode_scan:
  assumes "stream_ok fdt (ts @ us) strs N" "us \<noteq> []" "length us < k" "0 \<le> d" "d \<le> int (length ts)" "len \<le> length s"
  shows "(case nn_out (nn ts us (Some d)) of (q, e) \<Rightarrow> subnode_loop N k q (the e) s len fdt) =
    Ret (case find (\<lambda>(p, n, e). e = Some 1 \<and> name_match (take len s) n) (visits ts us (Some d)) of
        None \<Rightarrow> - 1 | Some (p, _) \<Rightarrow> of_nat (boff p)) fdt"
  using assms(1-5)
proof (induction us arbitrary: ts k d)
  case (Cons t us)
  obtain j where k: "k = Suc j" using Cons.prems(3) by (cases k) auto
  note sz = stream_sizes [OF Cons.prems(1)]
  have st: "stream_ok fdt ((ts @ [t]) @ us) strs N" "us \<noteq> []" if "t \<noteq> TDone"
    using stream_last [OF Cons.prems(1) that] by auto
  show ?case
  proof (cases t)
    case (TBegin n)
    have g: "fdt_next_node N (of_nat (boff ts)) (Some (of_int (d + 1))) fdt = Ret (nn_out (nn (ts @ [TBegin n]) us (Some (d + 1)))) fdt"
      using next_node_run [of fdt ts n us strs N "Some (d + 1)"] Cons.prems(1,4,5) sz st(2) by (simp add: TBegin)
    have im: "fdt_image fdt (ts @ TBegin n # us) strs" "0 \<notin> set n" "boff (ts @ TBegin n # us) \<le> N"
      using Cons.prems(1) by (simp_all add: stream_ok_def TBegin)
    have d: "\<not> neg (of_int d + 1)" "of_int d + 1 = (1 :: u32) \<longleftrightarrow> d = 0"
      using sint_of_int [of "d + 1"] Cons.prems(4,5) sz by (auto simp: neg_def)
    have ih: "(case nn_out (nn (ts @ [TBegin n]) us (Some (d + 1))) of (q, e) \<Rightarrow> subnode_loop N j q (the e) s len fdt) =
      Ret (case find (\<lambda>(p, n, e). e = Some 1 \<and> name_match (take len s) n) (visits (ts @ [TBegin n]) us (Some (d + 1))) of
        None \<Rightarrow> - 1 | Some (p, _) \<Rightarrow> of_nat (boff p)) fdt"
      using Cons.IH [of "ts @ [t]" j "d + 1"] st Cons.prems by (simp add: k TBegin)
    obtain q e where "nn_out (nn (ts @ [TBegin n]) us (Some (d + 1))) = (q, e)" by fastforce
    then show ?thesis
      using g ih d sz(3) nodename_eq_run [OF im assms(6)]
      by (cases "d = 0") (simp_all add: TBegin k nn_out_def [of "(Some ts, _)"] run_simps)
  next
    case TEnd
    show ?thesis
    proof (cases "d = 0")
      case True
      then show ?thesis by (simp add: TEnd nn_out_def k run_simps neg_m1)
    next
      case False
      then show ?thesis using Cons.IH [of "ts @ [t]" k "d - 1"] st Cons.prems TEnd by simp
    qed
  next
    case (TProp q v)
    then show ?thesis using Cons.IH [of "ts @ [t]" k d] st Cons.prems by auto
  next
    case TNop
    then show ?thesis using Cons.IH [of "ts @ [t]" k d] st Cons.prems by auto
  next
    case TDone
    then show ?thesis by (simp add: nn_out_def k run_simps neg_m1)
  qed
qed simp

section \<open>The nodes of a tree\<close>

definition flats :: "(u8 list \<Rightarrow> nat) \<Rightarrow> dnode list \<Rightarrow> token list" where
  "flats noff ks = concat (map (flatten noff) ks)"

lemma flats_simps [simp]: "flats noff [] = []" "flats noff (k # ks) = flatten noff k @ flats noff ks"
  by (simp_all add: flats_def)

lemma flatten_eq: "flatten noff (DNode n ps ks) = TBegin n # map (ptok noff) ps @ flats noff ks @ [TEnd]"
  by (simp add: flats_def)

text \<open>The nodes of a tree and of a forest in the order of the blob, each with the tokens before it and its depth.\<close>

fun tnodes :: "(u8 list \<Rightarrow> nat) \<Rightarrow> token list \<Rightarrow> int option \<Rightarrow> dnode \<Rightarrow> (token list \<times> dnode \<times> int option) list"
  and fnodes :: "(u8 list \<Rightarrow> nat) \<Rightarrow> token list \<Rightarrow> int option \<Rightarrow> dnode list \<Rightarrow> (token list \<times> dnode \<times> int option) list"
where
  "tnodes noff ts e (DNode n ps ks) =
     (ts, DNode n ps ks, e) # fnodes noff (ts @ TBegin n # map (ptok noff) ps) (map_option (\<lambda>d. d + 1) e) ks"
| "fnodes noff ts e [] = []"
| "fnodes noff ts e (k # ks) = tnodes noff ts e k @ fnodes noff (ts @ flatten noff k) e ks"

definition visit_of :: "token list \<times> dnode \<times> int option \<Rightarrow> token list \<times> u8 list \<times> int option" where
  "visit_of x = (case x of (ts, t, e) \<Rightarrow> (ts, nname t, e))"

lemma visits_props: "visits ts (map (ptok noff) ps @ us) d = visits (ts @ map (ptok noff) ps) us d"
  by (induction ps arbitrary: ts) (auto simp: ptok_def)

lemma visits_nodes:
  "(\<And>x. e = Some x \<Longrightarrow> 1 \<le> x) \<Longrightarrow> d = map_option (\<lambda>x. x - 1) e \<Longrightarrow>
   visits ts (flatten noff t @ us) d = map visit_of (tnodes noff ts e t) @ visits (ts @ flatten noff t) us d"
  "(\<And>x. e = Some x \<Longrightarrow> 1 \<le> x) \<Longrightarrow> d = map_option (\<lambda>x. x - 1) e \<Longrightarrow>
   visits ts (flats noff ks @ us) d = map visit_of (fnodes noff ts e ks) @ visits (ts @ flats noff ks) us d"
proof (induction noff ts e t and noff ts e ks arbitrary: us d and us d rule: tnodes_fnodes.induct)
  case (1 noff ts e n ps ks)
  have e: "map_option (\<lambda>d. d + 1) d = e" using "1.prems"(2) by (cases e) simp_all
  have "1 \<le> x" if "map_option (\<lambda>d. d + 1) e = Some x" for x using that "1.prems"(1) by fastforce
  from "1.IH" [OF this, of e "TEnd # us"]
  have "visits (ts @ TBegin n # map (ptok noff) ps) (flats noff ks @ TEnd # us) e =
      map visit_of (fnodes noff (ts @ TBegin n # map (ptok noff) ps) (map_option (\<lambda>d. d + 1) e) ks) @
      visits (ts @ TBegin n # map (ptok noff) ps @ flats noff ks) (TEnd # us) e"
    by (simp add: option.map_comp o_def option.map_ident)
  moreover have "visits ws (TEnd # us) e = visits (ws @ [TEnd]) us d" for ws
    using "1.prems" by (cases e) auto
  ultimately show ?case
    using e visits_props [of "ts @ [TBegin n]" noff ps "flats noff ks @ TEnd # us" e]
    by (simp add: flatten_eq visit_of_def del: flatten.simps)
next
  case (3 noff ts e k ks)
  then show ?case by simp
qed simp

lemma depths:
  "x \<in> set (tnodes noff ts (Some e) t) \<Longrightarrow> x = (ts, t, Some e) \<or> (\<exists>y>e. snd (snd x) = Some y)"
  "x \<in> set (fnodes noff ts (Some e) ks) \<Longrightarrow> \<exists>y\<ge>e. snd (snd x) = Some y"
proof (induction noff ts "Some e" t and noff ts "Some e" ks arbitrary: e and e rule: tnodes_fnodes.induct)
  case (1 noff ts n ps ks e)
  then show ?case by force
next
  case (3 noff ts k ks e)
  then show ?case by force
qed simp

lemma find_append: "find P (xs @ ys) = (case find P xs of None \<Rightarrow> find P ys | Some x \<Rightarrow> Some x)"
  by (induction xs) auto

text \<open>The first child with a matching name, in the tree and in the list of nodes.\<close>

definition kid :: "u8 list \<Rightarrow> dnode list \<Rightarrow> dnode option" where
  "kid s ks = find (\<lambda>k. name_match s (nname k)) ks"

lemma find_kid:
  "case kid s ks of
     None \<Rightarrow> find (\<lambda>(p, n, e). e = Some 1 \<and> name_match s n) (map visit_of (fnodes noff ts (Some 1) ks)) = None
   | Some k \<Rightarrow> \<exists>p us. find (\<lambda>(p, n, e). e = Some 1 \<and> name_match s n) (map visit_of (fnodes noff ts (Some 1) ks)) =
        Some (p, nname k, Some 1) \<and> ts @ flats noff ks = p @ flatten noff k @ us"
proof (induction ks arbitrary: ts)
  case (Cons k ks)
  let ?P = "\<lambda>(p, n, e). e = Some 1 \<and> name_match s n"
  obtain n ps cs where k: "k = DNode n ps cs" by (cases k)
  let ?rest = "fnodes noff (ts @ TBegin n # map (ptok noff) ps) (Some 2) cs"
  have "find ?P (map visit_of ?rest) = None"
    using depths(2) [of _ noff _ 2 cs] by (fastforce simp: find_None_iff visit_of_def)
  then have "find ?P (map visit_of (fnodes noff ts (Some 1) (k # ks))) =
      (if name_match s n then Some (ts, n, Some 1)
       else find ?P (map visit_of (fnodes noff (ts @ flatten noff k) (Some 1) ks)))"
    by (simp add: k find_append visit_of_def)
  then show ?case using Cons.IH [of "ts @ flatten noff k"]
    by (auto simp: kid_def k split: option.splits)
qed (simp add: kid_def)

text \<open>A tree at a place of the token stream.\<close>

definition node_at :: "(u8 list \<Rightarrow> nat) \<Rightarrow> token list \<Rightarrow> token list \<Rightarrow> dnode \<Rightarrow> bool" where
  "node_at noff ts p t \<longleftrightarrow> (\<exists>us. ts = p @ flatten noff t @ us)"

lemma subnode_run:
  assumes "stream_ok fdt ts strs N" "node_at noff ts p t" "len \<le> length s"
  shows "case kid (take len s) (nkids t) of
      None \<Rightarrow> fdt_subnode_offset_namelen N (of_nat (boff p)) s len fdt = Ret (- 1) fdt
    | Some k \<Rightarrow> \<exists>q. node_at noff ts q k \<and> fdt_subnode_offset_namelen N (of_nat (boff p)) s len fdt = Ret (of_nat (boff q)) fdt"
proof -
  obtain n ps ks where t: "t = DNode n ps ks" by (cases t)
  obtain us where us: "ts = p @ flatten noff t @ us" using assms(2) by (auto simp: node_at_def)
  let ?P = "\<lambda>(p, n, e). e = Some 1 \<and> name_match (take len s) n"
  let ?q = "p @ TBegin n # map (ptok noff) ps" and ?r = "map (ptok noff) ps @ flats noff ks @ TEnd # us"
  have st: "stream_ok fdt (p @ TBegin n # ?r) strs N" "stream_ok fdt ((p @ [TBegin n]) @ ?r) strs N"
    using assms(1) by (simp_all add: us t flatten_eq del: flatten.simps)
  note sz = stream_sizes [OF st(1)]
  have "?r \<noteq> []" by simp
  have im: "fdt_image fdt ts strs" using assms(1) by (simp add: stream_ok_def)
  obtain j where N: "N = Suc j" using sz(2) by (cases N) auto
  have v: "visits (p @ [TBegin n]) ?r (Some 0) = map visit_of (fnodes noff ?q (Some 1) ks)"
    using visits_nodes(2) [of "Some 1" "Some 0" ?q noff ks "TEnd # us"] visits_props [of "p @ [TBegin n]"]
    by simp
  obtain q e where qe: "nn_out (nn (p @ [TBegin n]) ?r (Some 0)) = (q, e)" by fastforce
  have "subnode_loop N N (of_nat (boff p)) 0 s len fdt = subnode_loop N j q (the e) s len fdt"
    using next_node_run [OF st(1) \<open>?r \<noteq> []\<close>, of "Some 0"] sz qe by (simp add: N run_simps neg_def [of 0])
  also have "\<dots> = Ret (case find ?P (map visit_of (fnodes noff ?q (Some 1) ks)) of
      None \<Rightarrow> - 1 | Some (p, _) \<Rightarrow> of_nat (boff p)) fdt"
    using subnode_scan [OF st(2) \<open>?r \<noteq> []\<close> _ _ _ assms(3), of j 0] qe v sz by (simp add: N)
  finally have f: "fdt_subnode_offset_namelen N (of_nat (boff p)) s len fdt = \<dots>"
    using probe_run [OF im] by (simp add: fdt_subnode_offset_namelen_def FDT_RO_PROBE_def run_simps)
  note fk = find_kid [where s = "take len s" and ks = ks and noff = noff and ts = ?q]
  show ?thesis
  proof (cases "kid (take len s) ks")
    case None
    then show ?thesis using fk f by (simp add: t)
  next
    case (Some k)
    then obtain q' vs where q: "find ?P (map visit_of (fnodes noff ?q (Some 1) ks)) = Some (q', nname k, Some 1)"
      "?q @ flats noff ks = q' @ flatten noff k @ vs" using fk by auto
    have "ts = (?q @ flats noff ks) @ TEnd # us" by (simp add: us t flatten_eq del: flatten.simps)
    then have "node_at noff ts q' k" unfolding q(2) by (auto simp: node_at_def)
    then show ?thesis using Some f q(1) by (auto simp: t)
  qed
qed

section \<open>Paths\<close>

fun walk :: "dnode \<Rightarrow> u8 list list \<Rightarrow> dnode option" where
  "walk t [] = Some t"
| "walk t (c # cs) = (case kid c (nkids t) of None \<Rightarrow> None | Some k \<Rightarrow> walk k cs)"

definition comp_ok :: "u8 list \<Rightarrow> bool" where
  "comp_ok c \<longleftrightarrow> c \<noteq> [] \<and> 0 \<notin> set c \<and> 47 \<notin> set c"

definition slashed :: "u8 list list \<Rightarrow> u8 list" where
  "slashed cs = concat (map ((#) 47) cs)"

definition path_of :: "u8 list list \<Rightarrow> u8 list" where
  "path_of cs = (if cs = [] then [47] else slashed cs)"

lemma memchr_first:
  "p + len \<le> length m \<Longrightarrow> memchr_from m p x len =
     Some (if x \<in> set (blk m p len) then Some (p + length (takeWhile (\<lambda>c. c \<noteq> x) (blk m p len))) else None)"
proof (induction len arbitrary: p)
  case (Suc len)
  then show ?case by (auto simp: blk_Suc)
qed (simp add: blk_def)

lemma path_step:
  assumes "path = pre @ slashed (c # cs) @ [0]" "comp_ok c" "e = length pre + length (slashed (c # cs))"
  shows "skip_slashes path (length pre) e = Some (Some (length pre + 1))"
    "\<exists>r. memchr_from path (length pre + 1) 47 (e - (length pre + 1)) = Some r \<and>
      (case r of None \<Rightarrow> e | Some q \<Rightarrow> q) = length pre + 1 + length c"
    "take (length c) (drop (length pre + 1) path) = c"
proof -
  obtain x xs where c: "c = x # xs" "x \<noteq> 47" using assms(2) by (cases c) (auto simp: comp_ok_def)
  have b: "path ! length pre = 47" "path ! Suc (length pre) = x" "Suc (length pre) < length path"
    by (simp_all add: assms(1) slashed_def c nth_append)
  then show "skip_slashes path (length pre) e = Some (Some (length pre + 1))"
    using assms(3) c by (simp add: skip_slashes.simps [of path "length pre"] skip_slashes.simps [of path "Suc (length pre)"] slashed_def)
  show "take (length c) (drop (length pre + 1) path) = c" by (simp add: assms(1) slashed_def)
  have w: "blk path (length pre + 1) (e - (length pre + 1)) = c @ slashed cs"
    by (simp add: assms(1,3) slashed_def blk_def)
  have "takeWhile (\<lambda>y. y \<noteq> 47) (c @ slashed cs) = c" if "cs \<noteq> []"
    using that assms(2) by (cases cs) (auto simp: slashed_def comp_ok_def takeWhile_append)
  moreover have "47 \<in> set (c @ slashed cs) \<longleftrightarrow> cs \<noteq> []"
    using assms(2) by (cases cs) (auto simp: slashed_def comp_ok_def)
  ultimately show "\<exists>r. memchr_from path (length pre + 1) 47 (e - (length pre + 1)) = Some r \<and>
      (case r of None \<Rightarrow> e | Some q \<Rightarrow> q) = length pre + 1 + length c"
    using memchr_first [of "length pre + 1" "e - (length pre + 1)" path 47] w assms(1,3)
    by (auto simp: slashed_def)
qed

lemma path_loop_run:
  assumes "stream_ok fdt ts strs N" "node_at noff ts p t" "path = pre @ slashed cs @ [0]" "e = length pre + length (slashed cs)"
    "\<forall>c\<in>set cs. comp_ok c" "length cs < k"
  shows "case walk t cs of
      None \<Rightarrow> path_loop N k path (length pre) e (of_nat (boff p)) fdt = Ret (- 1) fdt
    | Some t' \<Rightarrow> \<exists>q. node_at noff ts q t' \<and> path_loop N k path (length pre) e (of_nat (boff p)) fdt = Ret (of_nat (boff q)) fdt"
  using assms(2-)
proof (induction cs arbitrary: p t pre k)
  case Nil
  then show ?case by (cases k) (auto simp: slashed_def run_simps)
next
  case (Cons c cs)
  obtain j where k: "k = Suc j" using Cons.prems(5) by (cases k) auto
  have c: "comp_ok c" using Cons.prems(4) by simp
  note ps = path_step [OF Cons.prems(2) c Cons.prems(3)]
  obtain r where r: "memchr_from path (length pre + 1) 47 (e - (length pre + 1)) = Some r"
    "(case r of None \<Rightarrow> e | Some q \<Rightarrow> q) = length pre + 1 + length c" using ps(2) by blast
  have "length pre < e" using Cons.prems(3) by (simp add: slashed_def)
  have "length c \<le> length (drop (length pre + 1) path)" by (simp add: Cons.prems(2) slashed_def)
  note sub = subnode_run [OF assms(1) Cons.prems(1) this, unfolded ps(3)]
  have st: "path_loop N k path (length pre) e q fdt =
      (case fdt_subnode_offset_namelen N q (drop (length pre + 1) path) (length c) fdt of
        Ret q s \<Rightarrow> (if neg q then retM q else path_loop N j path (length pre + 1 + length c) e q) s
      | Halt h s \<Rightarrow> Halt h s)" for q
    using r ps(1) \<open>length pre < e\<close> by (simp add: k run_simps Let_def split: outcome.splits)
  show ?case
  proof (cases "kid c (nkids t)")
    case None
    then show ?thesis using sub by (simp add: st run_simps neg_m1)
  next
    case (Some t')
    then obtain q where q: "node_at noff ts q t'"
      "fdt_subnode_offset_namelen N (of_nat (boff p)) (drop (length pre + 1) path) (length c) fdt = Ret (of_nat (boff q)) fdt"
      using sub by auto
    then have "\<not> neg (of_nat (boff q))" using stream_sizes(3) assms(1) by (auto simp: node_at_def)
    then have l: "path_loop N k path (length pre) e (of_nat (boff p)) fdt =
        path_loop N j path (length (pre @ 47 # c)) e (of_nat (boff q)) fdt"
      using q(2) by (simp add: st)
    have "path = (pre @ 47 # c) @ slashed cs @ [0]" "e = length (pre @ 47 # c) + length (slashed cs)"
      using Cons.prems(2,3) by (simp_all add: slashed_def)
    from Cons.IH [OF q(1) this, of j] show ?thesis
      using Cons.prems(4,5) unfolding l by (simp add: k Some)
  qed
qed

lemma path_offset_run:
  assumes "stream_ok fdt (flatten noff root @ [TDone]) strs N" "\<forall>c\<in>set cs. comp_ok c" "length cs < N"
  shows "case walk root cs of
      None \<Rightarrow> fdt_path_offset N (Suc k) (path_of cs @ [0]) fdt = Ret (- 1) fdt
    | Some t \<Rightarrow> \<exists>q. node_at noff (flatten noff root @ [TDone]) q t \<and>
        fdt_path_offset N (Suc k) (path_of cs @ [0]) fdt = Ret (of_nat (boff q)) fdt"
proof -
  let ?b = "path_of cs @ [0]"
  have z: "0 \<notin> set (path_of cs)" using assms(2) by (auto simp: path_of_def slashed_def comp_ok_def)
  have n: "sbi_strlen ?b = Some (length (path_of cs))" using cstr_at [of ?b 0 "path_of cs"] z by (simp add: blk_def)
  have h: "rd ?b 0 = Some 47" by (cases cs) (simp_all add: path_of_def slashed_def rd_def)
  have im: "fdt_image fdt (flatten noff root @ [TDone]) strs" using assms(1) by (simp add: stream_ok_def)
  have st: "fdt_path_offset N (Suc k) ?b fdt = path_loop N N ?b 0 (length (path_of cs)) 0 fdt"
    using n h probe_run [OF im] by (simp add: fdt_path_offset_def FDT_RO_PROBE_def run_simps Let_def)
  have root: "node_at noff (flatten noff root @ [TDone]) [] root" by (auto simp: node_at_def)
  show ?thesis
  proof (cases "cs = []")
    case True
    obtain j where N: "N = Suc j" using assms(3) by (cases N) auto
    have "path_loop N N ?b 0 (length (path_of cs)) 0 fdt = Ret 0 fdt"
      by (simp add: True path_of_def N skip_slashes.simps [of _ 0] rd_def run_simps)
    then show ?thesis using st root True by auto
  next
    case False
    then have "path_of cs = slashed cs" by (simp add: path_of_def)
    then show ?thesis
      using path_loop_run [OF assms(1) root, of ?b "[]" cs "length (path_of cs)" N] assms(2,3) unfolding st
      by (auto split: option.splits)
  qed
qed

section \<open>Lookups in the blob and in the tree\<close>

fun tree_ok :: "u8 list \<Rightarrow> (u8 list \<Rightarrow> nat) \<Rightarrow> dnode \<Rightarrow> bool" where
  "tree_ok strs noff (DNode n ps ks) \<longleftrightarrow>
     0 \<notin> set n \<and> names_ok strs noff (fst ` set ps) \<and> (\<forall>k\<in>set ks. tree_ok strs noff k)"

lemma tree_ok_tokens: "tree_ok strs noff t \<Longrightarrow> tok \<in> set (flatten noff t) \<Longrightarrow> tok_ok tok"
  by (induction strs noff t rule: tree_ok.induct) (auto simp: ptok_def)

lemma kid_in: "kid s ks = Some k \<Longrightarrow> k \<in> set ks"
  by (auto simp: kid_def find_Some_iff)

lemma walk_ok: "tree_ok strs noff t \<Longrightarrow> walk t cs = Some t' \<Longrightarrow> tree_ok strs noff t'"
proof (induction t cs rule: walk.induct)
  case (2 t c cs)
  obtain n ps ks where t: "t = DNode n ps ks" by (cases t)
  from 2 show ?case by (auto simp: t dest: kid_in split: option.splits)
qed simp

lemma tree_stream:
  assumes "fdt_image fdt (flatten noff root @ [TDone]) strs" "tree_ok strs noff root" "length fdt \<le> N"
  shows "stream_ok fdt (flatten noff root @ [TDone]) strs N"
proof -
  have "boff (flatten noff root @ [TDone]) \<le> length fdt" using assms(1) by (auto simp: fdt_image_def)
  then show ?thesis using assms tree_ok_tokens [OF assms(2)] by (auto simp: stream_ok_def)
qed

lemma node_getprop:
  assumes "stream_ok fdt ts strs N" "node_at noff ts q t" "tree_ok strs noff t" "0 \<notin> set name"
  shows "case map_of (nprops t) name of
      None \<Rightarrow> fdt_getprop N (of_nat (boff q)) (name @ [0]) fdt = Ret (None, - 1) fdt
    | Some v \<Rightarrow> \<exists>p. fdt_getprop N (of_nat (boff q)) (name @ [0]) fdt = Ret (Some p, of_nat (length v)) fdt \<and>
        blk fdt p (length v) = v \<and> p + length v \<le> length fdt"
proof -
  obtain n ps ks where t: "t = DNode n ps ks" by (cases t)
  obtain us where us: "ts = q @ flatten noff t @ us" using assms(2) by (auto simp: node_at_def)
  obtain u vs m where u: "flats noff ks @ TEnd # us = u # vs" "u = TEnd \<or> u = TBegin m" "tok_ok u"
  proof (cases ks)
    case (Cons k ks')
    then show thesis using that assms(3) by (cases k) (auto simp: t)
  qed (use that in auto)
  have ts: "ts = q @ TBegin n # map (ptok noff) ps @ u # vs"
    using u(1) by (simp add: us t flatten_eq del: flatten.simps)
  have "sbi_strlen (name @ [0]) = Some (length name)"
    using cstr_at [of "name @ [0]" 0 name] assms(4) by (simp add: blk_def)
  then show ?thesis
    using getprop_run [of fdt q n noff ps u vs strs N m "length name" "name @ [0]"] assms(1,3) u(2,3)
    by (auto simp: ts t fdt_getprop_def run_simps stream_ok_def split: option.splits)
qed

text \<open>A blob for given tokens and strings: header, empty list of reservations, structure block, strings block.\<close>

definition fdt_blob :: "token list \<Rightarrow> u8 list \<Rightarrow> u8 list" where
  "fdt_blob ts strs =
     concat (map be_bytes [FDT_MAGIC, of_nat (56 + boff ts + length strs), 56, of_nat (56 + boff ts), 40, 17, 16, 0,
       of_nat (length strs), of_nat (boff ts)]) @ replicate 16 0 @ toks_bytes ts @ strs"

lemma hdr_word: "j < length ws \<Longrightarrow> hdr (concat (map be_bytes ws) @ r) (4 * j) = ws ! j"
proof (induction ws arbitrary: j)
  case (Cons w ws)
  have "hdr (be_bytes w @ m) (4 + i) = hdr m i" "hdr (be_bytes w @ m) 0 = w" for m i
    by (simp_all add: hdr_def blk_def)
  with Cons show ?case by (cases j) simp_all
qed simp

lemma blob_image:
  assumes "56 + boff ts + length strs < 2 ^ 31 - 1"
  shows "fdt_image (fdt_blob ts strs) ts strs"
proof -
  let ?ws = "[FDT_MAGIC, of_nat (56 + boff ts + length strs), 56, of_nat (56 + boff ts), 40, 17, 16, 0,
       of_nat (length strs), of_nat (boff ts)] :: u32 list"
  let ?m = "fdt_blob ts strs"
  have h: "hdr ?m (4 * j) = ?ws ! j" if "j < 10" for j
    using that hdr_word [of j ?ws] by (simp add: fdt_blob_def)
  have "hdr ?m 0 = FDT_MAGIC" "hdr ?m 4 = of_nat (56 + boff ts + length strs)" "hdr ?m 8 = 56"
    "hdr ?m 12 = of_nat (56 + boff ts)" "hdr ?m 20 = 17" "hdr ?m 24 = 16" "hdr ?m 32 = of_nat (length strs)"
    "hdr ?m 36 = of_nat (boff ts)"
    using h [of 0] h [of 1] h [of 2] h [of 3] h [of 5] h [of 6] h [of 8] h [of 9] by simp_all
  moreover have "length ?m = 56 + boff ts + length strs" by (simp add: fdt_blob_def boff_def)
  moreover have "blk ?m 56 (boff ts) = toks_bytes ts" "blk ?m (56 + boff ts) (length strs) = strs"
    by (simp_all add: fdt_blob_def blk_def boff_def)
  moreover have "(of_nat (56 + boff ts + length strs) :: u32) < INT_MAX"
    using less_small [of "56 + boff ts + length strs" "2 ^ 31 - 1"] assms by (simp del: of_nat_add)
  ultimately show ?thesis using assms by (simp add: fdt_image_def unat_small del: of_nat_add)
qed

definition demo_tree :: dnode where
  "demo_tree = DNode [] [(map of_char ''model'', [1, 0])]
     [DNode (map of_char ''soc'') [] [],
      DNode (map of_char ''cpus'') [(map of_char ''x'', [])]
        [DNode (map of_char ''cpu@7'') [(map of_char ''x'', [5]), (map of_char ''reg'', [0, 0, 0, 7])] []]]"

definition demo_strs :: "u8 list" where
  "demo_strs = zstr ''model'' @ zstr ''x'' @ zstr ''reg''"

definition demo_noff :: "u8 list \<Rightarrow> nat" where
  "demo_noff k = (if k = map of_char ''model'' then 0 else if k = map of_char ''x'' then 6 else 8)"

definition demo_fdt :: "u8 list" where
  "demo_fdt = fdt_blob (flatten demo_noff demo_tree @ [TDone]) demo_strs"

lemma demo_sizes: "56 + boff (flatten demo_noff demo_tree @ [TDone]) + length demo_strs < 1000"
  by code_simp

lemma demo_image: "fdt_image demo_fdt (flatten demo_noff demo_tree @ [TDone]) demo_strs"
  unfolding demo_fdt_def by (rule blob_image) (rule less_trans [OF demo_sizes], simp)

lemma demo_ok: "tree_ok demo_strs demo_noff demo_tree"
  by code_simp

text \<open>
  C5: looking up a path and then a property in a blob finds what the tree holds that the blob is an image of. Walking
  down the tree by the components of the path, each of which selects the first child of that name (the unit
  address may be left out), either ends at a node, and then \<open>fdt_path_offset\<close> returns its offset and \<open>fdt_getprop\<close> with that offset
  returns a pointer to the value of every property the node has and reports every other as missing; or
  some component has no child, and \<open>fdt_path_offset\<close> reports that nothing is found. The fuel \<open>N\<close> is enough
  as soon as it exceeds the size of the blob and the length of the path, and no read leaves the blob.
\<close>

theorem fdt_lookup_correct:
  assumes "fdt_image fdt (flatten noff root @ [TDone]) strs" "tree_ok strs noff root" "length fdt \<le> N"
    "\<forall>c\<in>set cs. comp_ok c" "length cs < N"
  shows "case walk root cs of
      None \<Rightarrow> fdt_path_offset N (Suc k) (path_of cs @ [0]) fdt = Ret (- FDT_ERR_NOTFOUND) fdt
    | Some node \<Rightarrow> \<exists>off. fdt_path_offset N (Suc k) (path_of cs @ [0]) fdt = Ret off fdt \<and> \<not> neg off \<and>
        (\<forall>name. 0 \<notin> set name \<longrightarrow>
          (case map_of (nprops node) name of
             None \<Rightarrow> fdt_getprop N off (name @ [0]) fdt = Ret (None, - FDT_ERR_NOTFOUND) fdt
           | Some v \<Rightarrow> \<exists>p. fdt_getprop N off (name @ [0]) fdt = Ret (Some p, of_nat (length v)) fdt \<and>
               blk fdt p (length v) = v \<and> p + length v \<le> length fdt))"
proof -
  note st = tree_stream [OF assms(1-3)]
  note po = path_offset_run [OF st assms(4,5), of k]
  show ?thesis
  proof (cases "walk root cs")
    case None
    then show ?thesis using po by simp
  next
    case (Some t)
    then obtain q where q: "node_at noff (flatten noff root @ [TDone]) q t"
      "fdt_path_offset N (Suc k) (path_of cs @ [0]) fdt = Ret (of_nat (boff q)) fdt" using po by auto
    have "\<not> neg (of_nat (boff q))" using stream_sizes(3) st q(1) by (auto simp: node_at_def)
    then show ?thesis
      using Some q(2) node_getprop [OF st q(1) walk_ok [OF assms(2) Some]] by auto
  qed
qed

theorem fdt_lookup_correct_witness:
  "fdt_image demo_fdt (flatten demo_noff demo_tree @ [TDone]) demo_strs \<and> tree_ok demo_strs demo_noff demo_tree \<and>
   (\<exists>off p. fdt_path_offset 1000 1 (zstr ''/cpus/cpu'') demo_fdt = Ret off demo_fdt \<and>
      fdt_getprop 1000 off (zstr ''reg'') demo_fdt = Ret (Some p, 4) demo_fdt \<and> blk demo_fdt p 4 = [0, 0, 0, 7])"
proof -
  let ?cs = "[map of_char ''cpus'', map of_char ''cpu''] :: u8 list list" and ?r = "map of_char ''reg'' :: u8 list"
  have l: "length demo_fdt \<le> 1000" by code_simp
  have w: "walk demo_tree ?cs = Some (DNode (map of_char ''cpu@7'')
      [(map of_char ''x'', [5]), (map of_char ''reg'', [0, 0, 0, 7])] [])" by code_simp
  have c: "\<forall>c\<in>set ?cs. comp_ok c" by code_simp
  have p: "path_of ?cs @ [0] = zstr ''/cpus/cpu''" "?r @ [0] = zstr ''reg''" by code_simp+
  have r: "map_of [(map of_char ''x'', [5]), (?r, [0, 0, 0, 7])] ?r = Some [0, 0, 0, 7 :: u8]" "0 \<notin> set ?r" by code_simp+
  have n: "length ?cs < 1000" "length [0, 0, 0, 7 :: u8] = 4" by simp_all
  obtain off where off: "fdt_path_offset 1000 (Suc 0) (path_of ?cs @ [0]) demo_fdt = Ret off demo_fdt"
    and all: "\<forall>name. 0 \<notin> set name \<longrightarrow>
      (case map_of [(map of_char ''x'', [5]), (map of_char ''reg'', [0, 0, 0, 7])] name of
         None \<Rightarrow> fdt_getprop 1000 off (name @ [0]) demo_fdt = Ret (None, - FDT_ERR_NOTFOUND) demo_fdt
       | Some v \<Rightarrow> \<exists>p. fdt_getprop 1000 off (name @ [0]) demo_fdt = Ret (Some p, of_nat (length v)) demo_fdt \<and>
           blk demo_fdt p (length v) = v \<and> p + length v \<le> length demo_fdt)"
    using fdt_lookup_correct [OF demo_image demo_ok l c n(1), of 0, unfolded w option.case dnode.sel] by blast
  have "\<exists>p. fdt_getprop 1000 off (?r @ [0]) demo_fdt = Ret (Some p, 4) demo_fdt \<and> blk demo_fdt p 4 = [0, 0, 0, 7]"
    using mp [OF spec [OF all, of ?r] r(2), unfolded r(1) option.case n(2)] by auto
  with off show ?thesis using demo_image demo_ok unfolding p by auto
qed

end
