(* ===== verification/Fdt_Safety.thy ===== *)
theory Fdt_Safety
  imports Fdt_Tree
begin

text \<open>
  What \<open>fdt_next_tag\<close>, on which every walk over a tree rests, does with an arbitrary blob whose header passes
  \<open>fdt_check_header\<close>: it stays inside the blob, and it moves forward unless the length field of a property wraps the
  offset around. The second property shows a blob where that happens.
\<close>

section \<open>An accepted header\<close>

definition header_ok :: "u8 list \<Rightarrow> bool" where
  "header_ok fdt \<longleftrightarrow> fdt_check_header fdt = Ret 0 fdt \<and> unat (hdr fdt 4) \<le> length fdt \<and> 40 \<le> length fdt"

lemma header_reads:
  assumes "40 \<le> length fdt"
  shows "fdt_magic fdt = Ret (hdr fdt 0) fdt" "fdt_totalsize fdt = Ret (hdr fdt 4) fdt"
    "fdt_off_dt_struct fdt = Ret (hdr fdt 8) fdt" "fdt_off_dt_strings fdt = Ret (hdr fdt 12) fdt"
    "fdt_off_mem_rsvmap fdt = Ret (hdr fdt 16) fdt" "fdt_version fdt = Ret (hdr fdt 20) fdt"
    "fdt_last_comp_version fdt = Ret (hdr fdt 24) fdt" "fdt_size_dt_strings fdt = Ret (hdr fdt 32) fdt"
    "fdt_size_dt_struct fdt = Ret (hdr fdt 36) fdt"
  using assms by (simp_all add: fdt_magic_def fdt_totalsize_def fdt_off_dt_struct_def fdt_off_dt_strings_def
      fdt_off_mem_rsvmap_def fdt_version_def fdt_last_comp_version_def fdt_size_dt_strings_def fdt_size_dt_struct_def
      ld32_run hdr_def)

lemma header_ok_sizes:
  assumes "header_ok fdt"
  shows "unat (hdr fdt 4) < 2 ^ 31" "28 \<le> unat (hdr fdt 8)" "unat (hdr fdt 8) \<le> unat (hdr fdt 4)"
    "unat (hdr fdt 4) \<le> length fdt" "40 \<le> length fdt"
proof -
  have l: "40 \<le> length fdt" "unat (hdr fdt 4) \<le> length fdt" and c: "fdt_check_header fdt = Ret 0 fdt"
    using assms by (auto simp: header_ok_def)
  have "hdr fdt 4 \<le> INT_MAX" "28 \<le> hdr fdt 8" "hdr fdt 8 \<le> hdr fdt 4"
  proof -
    have h: "28 \<le> fdt_header_size_u v" for v by (simp add: fdt_header_size_u_def)
    have "hdr fdt 4 \<le> INT_MAX \<and> check_off_u (fdt_header_size_u (hdr fdt 20)) (hdr fdt 4) (hdr fdt 8)"
      using c unfolding fdt_check_header_def check_block_u_def
      by (simp add: run_simps header_reads [OF l(1)] Let_def not_less split: if_splits)
    then show "hdr fdt 4 \<le> INT_MAX" "28 \<le> hdr fdt 8" "hdr fdt 8 \<le> hdr fdt 4"
      using h [of "hdr fdt 20"] order_trans by (auto simp: check_off_u_def)
  qed
  then show "unat (hdr fdt 4) < 2 ^ 31" "28 \<le> unat (hdr fdt 8)" "unat (hdr fdt 8) \<le> unat (hdr fdt 4)"
    by (simp_all add: word_le_nat_alt)
qed (use assms in \<open>simp_all add: header_ok_def\<close>)

lemma nowrap: "\<not> a + b < a \<Longrightarrow> unat (a + b) = unat a + unat b" for a b :: u32
  by (simp add: word_less_nat_alt unat_plus_if' split: if_splits) (use unsigned_less [of b, where 'a = nat] in simp)

lemma offset_ptr_cases:
  assumes "header_ok fdt"
  shows "fdt_offset_ptr off len fdt = Ret None fdt \<or>
    (fdt_offset_ptr off len fdt = Ret (Some (unat (hdr fdt 8) + unat off)) fdt \<and>
     unat (hdr fdt 8) + unat off + unat len \<le> unat (hdr fdt 4))"
proof -
  note sz = header_ok_sizes [OF assms]
  note r = header_reads [OF sz(5)]
  let ?a = "off + hdr fdt 8"
  show ?thesis
  proof (cases "?a < off \<or> ?a + len < ?a \<or> hdr fdt 4 < ?a + len")
    case True
    then show ?thesis by (simp add: fdt_offset_ptr_def run_simps r Let_def)
  next
    case False
    then have "unat off + unat (hdr fdt 8) + unat len \<le> unat (hdr fdt 4)"
      using nowrap [of off "hdr fdt 8"] nowrap [of ?a len] by (simp add: word_less_nat_alt)
    moreover from this have "fdt_offset_ptr_u off fdt = Ret (unat (hdr fdt 8) + unat off) fdt"
      using offset64 [of "unat (hdr fdt 8)" "unat off"] sz(1,3) by (simp add: fdt_offset_ptr_u_def run_simps r)
    ultimately show ?thesis using False
      by (simp add: fdt_offset_ptr_def run_simps r Let_def)
  qed
qed

lemma skip_name_total:
  assumes "header_ok fdt" "0 < k" "unat (hdr fdt 4) < k + unat (hdr fdt 8) + unat off"
  shows "skip_name k off fdt = Ret None fdt \<or>
    (\<exists>off'. skip_name k off fdt = Ret (Some off') fdt \<and> unat off < unat off' \<and>
      unat (hdr fdt 8) + unat off' \<le> unat (hdr fdt 4))"
  using assms(2,3)
proof (induction k arbitrary: off)
  case (Suc k)
  consider (none) "fdt_offset_ptr off 1 fdt = Ret None fdt"
    | (some) "fdt_offset_ptr off 1 fdt = Ret (Some (unat (hdr fdt 8) + unat off)) fdt"
      "unat (hdr fdt 8) + unat off + 1 \<le> unat (hdr fdt 4)"
    using offset_ptr_cases [OF assms(1), of off 1] by auto
  then show ?case
  proof cases
    case none
    then show ?thesis by (simp add: run_simps)
  next
    case some
    note sz = header_ok_sizes [OF assms(1)]
    have u: "unat (off + 1) = unat off + 1" using some(2) sz(1) by (simp add: unat_plus_if')
    show ?thesis
      using some sz Suc.IH [of "off + 1"] Suc.prems u
      by (auto simp: run_simps ld8_run)
  qed
qed simp

section \<open>One step of the lexer\<close>

text \<open>A property whose length takes the 32-bit offset past its end.\<close>

definition wraps :: "u8 list \<Rightarrow> u32 \<Rightarrow> bool" where
  "wraps fdt off \<longleftrightarrow>
     (case fdt32_ld (unat (hdr fdt 8) + unat off + 4) fdt of Ret len _ \<Rightarrow> 2 ^ 32 \<le> unat off + 16 + unat len | _ \<Rightarrow> False)"

lemma tag_end_total:
  assumes "header_ok fdt" "length fdt \<le> N" "unat (hdr fdt 8) + unat off + 4 \<le> unat (hdr fdt 4)"
  shows "\<exists>r. tag_end N tag (off + 4) fdt = Ret r fdt \<and>
    (\<forall>e. r = Some e \<longrightarrow> unat off + 4 \<le> unat e \<or> tag = FDT_PROP \<and> wraps fdt off)"
proof -
  note sz = header_ok_sizes [OF assms(1)]
  have u: "unat (off + 4) = unat off + 4" using assms(3) sz(1) by (simp add: unat_plus_if')
  consider (nod) "tag = FDT_BEGIN_NODE" | (prp) "tag = FDT_PROP" | (oth) "tag \<noteq> FDT_BEGIN_NODE" "tag \<noteq> FDT_PROP" by blast
  then show ?thesis
  proof cases
    case nod
    have "0 < N" "unat (hdr fdt 4) < N + unat (hdr fdt 8) + unat (off + 4)" using sz assms(2) u by linarith+
    from skip_name_total [OF assms(1) this] show ?thesis using nod u by (auto simp: tag_end_def)
  next
    case prp
    let ?p = "unat (hdr fdt 8) + unat off + 4"
    consider (none) "fdt_offset_ptr (off + 4) 4 fdt = Ret None fdt"
      | (some) "fdt_offset_ptr (off + 4) 4 fdt = Ret (Some ?p) fdt" "?p + 4 \<le> length fdt"
      using offset_ptr_cases [OF assms(1), of "off + 4" 4] u sz(4) by (auto simp: add.assoc)
    then show ?thesis
    proof cases
      case none
      then show ?thesis using prp by (simp add: tag_end_def run_simps)
    next
      case some
      obtain len where len: "fdt32_ld ?p fdt = Ret len fdt" using some(2) ld32_run by blast
      have "unat off + 4 \<le> unat (off + 4 + (8 + len))" "unat off + 4 \<le> unat (off + 4 + (8 + len) + 4)"
        if "unat off + 16 + unat len < 2 ^ 32"
        using that by (simp_all add: unat_plus_if')
      then show ?thesis using prp some(1) len header_reads(6) [OF sz(5)]
        by (auto simp: tag_end_def run_simps Let_def wraps_def not_le)
    qed
  next
    case oth
    then show ?thesis using u by (auto simp: tag_end_def run_simps)
  qed
qed

lemma align_bounds: "x \<le> (x + 3) div 4 * 4" "(x + 3) div 4 * 4 \<le> x + 3" for x :: nat
  by presburger+

text \<open>
  C17: one step of the lexer on an arbitrary blob whose header was accepted. For every start offset \<open>fdt_next_tag\<close>
  returns and reads only inside the blob. What it returns is the end marker, or the next tag lies at least four
  bytes further on and at most three bytes of padding behind the end of the blob, or the tag is a property whose length field
  makes the offset wrap around.
\<close>

theorem fdt_next_tag_bounds:
  assumes "fdt_check_header fdt = Ret 0 fdt" "unat (hdr fdt 4) \<le> length fdt" "40 \<le> length fdt" "length fdt \<le> N"
  shows "\<exists>tag next. fdt_next_tag N off fdt = Ret (tag, next) fdt \<and>
    (tag = FDT_END \<or> unat off + 4 \<le> unat next \<and> unat (hdr fdt 8) + unat next \<le> unat (hdr fdt 4) + 3 \<or>
     tag = FDT_PROP \<and> wraps fdt off)"
proof -
  have ok: "header_ok fdt" using assms by (simp add: header_ok_def)
  note sz = header_ok_sizes [OF ok]
  consider (none) "fdt_offset_ptr off 4 fdt = Ret None fdt"
    | (some) "fdt_offset_ptr off 4 fdt = Ret (Some (unat (hdr fdt 8) + unat off)) fdt"
      "unat (hdr fdt 8) + unat off + 4 \<le> unat (hdr fdt 4)"
    using offset_ptr_cases [OF ok, of off 4] by auto
  then show ?thesis
  proof cases
    case none
    then show ?thesis by (simp add: fdt_next_tag_def run_simps)
  next
    case some
    then obtain tag where tag: "fdt32_ld (unat (hdr fdt 8) + unat off) fdt = Ret tag fdt" using sz(4) ld32_run by fastforce
    obtain r where r: "tag_end N tag (off + 4) fdt = Ret r fdt"
      "\<And>e. r = Some e \<Longrightarrow> unat off + 4 \<le> unat e \<or> tag = FDT_PROP \<and> wraps fdt off"
      using tag_end_total [OF ok assms(4) some(2), of tag] by blast
    show ?thesis
    proof (cases r)
      case None
      then show ?thesis using some tag r(1) by (simp add: fdt_next_tag_def run_simps)
    next
      case (Some e)
      have "unat off + 4 \<le> unat (FDT_TAGALIGN e) \<and> unat (hdr fdt 8) + unat (FDT_TAGALIGN e) \<le> unat (hdr fdt 4) + 3"
        if "unat off + 4 \<le> unat e" "unat (hdr fdt 8) + unat off + unat (e - off) \<le> unat (hdr fdt 4)"
      proof -
        have "unat (e - off) = unat e - unat off" using that(1) by (simp add: unat_sub word_le_nat_alt)
        then have e: "unat (hdr fdt 8) + unat e \<le> unat (hdr fdt 4)" using that by simp
        then have "FDT_TAGALIGN e = of_nat ((unat e + 3) div 4 * 4)" using tagalign_small [of "unat e"] sz(1) by simp
        moreover have "(unat e + 3) div 4 * 4 < 2 ^ 32" by (rule le_less_trans [OF align_bounds(2)]) (use e sz(1) in simp)
        ultimately have "unat (FDT_TAGALIGN e) = (unat e + 3) div 4 * 4" by (simp only: unat_small)
        then show ?thesis using align_bounds [of "unat e"] that(1) e by simp
      qed
      then show ?thesis
        using some tag r Some offset_ptr_cases [OF ok, of off "e - off"]
        by (auto simp: fdt_next_tag_def run_simps)
    qed
  qed
qed

theorem fdt_next_tag_bounds_witness:
  "fdt_check_header demo_fdt = Ret 0 demo_fdt \<and> unat (hdr demo_fdt 4) \<le> length demo_fdt \<and>
   (\<exists>tag next. fdt_next_tag 1000 0 demo_fdt = Ret (tag, next) demo_fdt \<and>
     (tag = FDT_END \<or> 4 \<le> unat next \<and> unat (hdr demo_fdt 8) + unat next \<le> unat (hdr demo_fdt 4) + 3 \<or>
      tag = FDT_PROP \<and> wraps demo_fdt 0))"
proof -
  have h: "fdt_check_header demo_fdt = Ret 0 demo_fdt" "unat (hdr demo_fdt 4) \<le> length demo_fdt"
    "40 \<le> length demo_fdt" "length demo_fdt \<le> 1000" by code_simp+
  show ?thesis using fdt_next_tag_bounds [OF h, of 0] h by simp
qed

section \<open>A tree that cannot be walked\<close>

text \<open>A root node with one property, whose length field is \<open>- 12\<close>.\<close>

definition loop_fdt :: "u8 list" where
  "loop_fdt = concat (map be_bytes [FDT_MAGIC, 86, 56, 84, 40, 17, 16, 0, 2, 28, 0, 0, 0, 0,
     FDT_BEGIN_NODE, 0, FDT_PROP, 0xfffffff4, 0, FDT_END_NODE, FDT_END]) @ [97, 0]"

lemma loop_steps:
  "fdt_next_tag (Suc N) 0 loop_fdt = Ret (FDT_BEGIN_NODE, 8) loop_fdt"
  "fdt_next_tag N 8 loop_fdt = Ret (FDT_PROP, 8) loop_fdt"
  "\<exists>p len. fdt_getprop_by_offset N 8 loop_fdt = Ret (Some p, len) loop_fdt"
  "fdt_num_mem_rsv (Suc N) loop_fdt = Ret 0 loop_fdt" "fdt_check_header loop_fdt = Ret 0 loop_fdt"
proof -
  have "fdt_getprop_by_offset N 8 loop_fdt = Ret (Some (76, 84), 0xfffffff4) loop_fdt" by code_simp
  then show "\<exists>p len. fdt_getprop_by_offset N 8 loop_fdt = Ret (Some p, len) loop_fdt" by blast
qed code_simp+

lemma loop_node: "next_node_loop N k 8 d loop_fdt = Halt Spin loop_fdt"
  by (induction k) (simp_all add: run_simps loop_steps)

lemma loop_check: "check_full_loop N k 8 1 loop_fdt = Halt Spin loop_fdt"
proof (induction k)
  case (Suc k)
  obtain p len where "fdt_getprop_by_offset N 8 loop_fdt = Ret (Some p, len) loop_fdt" using loop_steps(3) by blast
  then show ?case using Suc by (simp add: run_simps loop_steps neg_def)
qed (simp add: run_simps)

text \<open>
  C33: a blob that passes \<open>fdt_check_header\<close> and makes the library loop. The length of the only property takes the offset
  back to the property itself, so that neither \<open>fdt_check_full\<close>, whose purpose is to check an untrusted blob,
  nor \<open>fdt_next_node\<close> from the root ever returns, whatever the fuel.
\<close>

theorem fdt_check_full_diverges:
  "fdt_check_header loop_fdt = Ret 0 loop_fdt \<and> hdr loop_fdt 4 = of_nat (length loop_fdt) \<and>
   fdt_check_full N (length loop_fdt) loop_fdt = Halt Spin loop_fdt \<and>
   fdt_next_node N 0 d loop_fdt = Halt Spin loop_fdt"
proof -
  have h: "hdr loop_fdt 4 = 86" "length loop_fdt = 86" "fdt_totalsize loop_fdt = Ret 86 loop_fdt" by code_simp+
  show ?thesis
  proof (cases N)
    case 0
    have "fdt_next_tag 0 0 loop_fdt = Halt Spin loop_fdt" by code_simp
    then show ?thesis
      using h loop_steps(5)
      by (simp add: 0 fdt_check_full_def fdt_num_mem_rsv_def fdt_next_node_def fdt_check_node_offset_u_def neg_def run_simps)
  next
    case (Suc k)
    show ?thesis
      using h loop_steps loop_node loop_check
      by (simp add: Suc fdt_check_full_def fdt_next_node_def fdt_check_node_offset_u_def neg_def run_simps)
  qed
qed

end
