(* ===== verification/Fdt_Search.thy ===== *)
theory Fdt_Search
  imports Fdt_Tree
begin

text \<open>
  Searches over all nodes of a tree, on the image of a tree as in \<^verbatim>\<open>Fdt_Tree\<close>: the first node in the order of the blob that is
  compatible with a string, and the parent of a node.
\<close>

section \<open>The nodes in their order\<close>

text \<open>The loop of the searches from where a call of \<open>fdt_next_node\<close> leaves it, for a test that is a function of the node.\<close>

lemma search_scan:
  assumes "stream_ok fdt (ts @ us) strs N" "us \<noteq> []" "length us < k"
    "\<forall>x\<in>set (visits ts us None). test (of_nat (boff (fst x))) fdt = Ret (T (fst x)) fdt"
  shows "(case nn_out (nn ts us None) of (q, _) \<Rightarrow>
      (if neg q then retM q
       else bindM (test q) (\<lambda>r. case r of Some r \<Rightarrow> retM r | None \<Rightarrow> node_search N k test q)) fdt) =
    Ret (case find (\<lambda>(p, _). T p \<noteq> None) (visits ts us None) of None \<Rightarrow> - 1 | Some (p, _) \<Rightarrow> the (T p)) fdt"
  using assms
proof (induction us arbitrary: ts k)
  case (Cons t us)
  note sz = stream_sizes [OF Cons.prems(1)]
  have st: "stream_ok fdt ((ts @ [t]) @ us) strs N" "us \<noteq> []" if "t \<noteq> TDone"
    using stream_last [OF Cons.prems(1) that] by auto
  consider (nod) n where "t = TBegin n" | (fin) "t = TDone"
    | (skip) "t \<noteq> TDone" "nn ts (t # us) None = nn (ts @ [t]) us None" "visits ts (t # us) None = visits (ts @ [t]) us None"
    by (cases t) auto
  then show ?case
  proof cases
    case (nod n)
    obtain j where k: "k = Suc j" using Cons.prems(3) by (cases k) auto
    have g: "fdt_next_node N (of_nat (boff ts)) None fdt = Ret (nn_out (nn (ts @ [TBegin n]) us None)) fdt"
      using next_node_run [of fdt ts n us strs N None] Cons.prems(1) st(2) by (simp add: nod)
    obtain q e where q: "nn_out (nn (ts @ [TBegin n]) us None) = (q, e)" by fastforce
    let ?R = "\<lambda>k q. if neg q then retM q
        else bindM (test q) (\<lambda>r. case r of Some r \<Rightarrow> retM r | None \<Rightarrow> node_search N k test q)"
    have ih: "?R j q fdt = Ret (case find (\<lambda>(p, _). T p \<noteq> None) (visits (ts @ [TBegin n]) us None) of
        None \<Rightarrow> - 1 | Some (p, _) \<Rightarrow> the (T p)) fdt"
      using Cons.IH [of "ts @ [t]" j] st Cons.prems(3,4) q by (simp add: nod k)
    have s: "node_search N k test (of_nat (boff ts)) fdt = ?R j q fdt"
      using g q by (simp add: k run_bind [of "fdt_next_node N (of_nat (boff ts)) None"])
    have "test (of_nat (boff ts)) fdt = Ret (T ts) fdt" using Cons.prems(4) by (simp add: nod)
    then have "?R k (of_nat (boff ts)) fdt = (case T ts of Some r \<Rightarrow> Ret r fdt | None \<Rightarrow> ?R j q fdt)"
      using s sz(3) by (simp add: run_bind [of "test (of_nat (boff ts))"] run_ret split: option.splits)
    then show ?thesis unfolding ih by (simp add: nod nn_out_def [of "(Some ts, _)"] split: option.splits)
  next
    case fin
    then show ?thesis by (simp add: nn_out_def run_simps neg_m1)
  next
    case skip
    have "length us < k" using Cons.prems(3) by simp
    from Cons.IH [OF st [OF skip(1)] this] Cons.prems(4) show ?thesis unfolding skip(2,3) by blast
  qed
qed simp

fun nodes_of :: "dnode \<Rightarrow> dnode list" where
  "nodes_of (DNode n ps ks) = DNode n ps ks # concat (map nodes_of ks)"

lemma nodes_of_tnodes:
  "map (fst \<circ> snd) (tnodes noff ts e t) = nodes_of t"
  "map (fst \<circ> snd) (fnodes noff ts e ks) = concat (map nodes_of ks)"
  by (induction noff ts e t and noff ts e ks rule: tnodes_fnodes.induct) auto

lemma tnodes_at:
  "(p, t, x) \<in> set (tnodes noff ts e t0) \<Longrightarrow> \<exists>us. ts @ flatten noff t0 = p @ flatten noff t @ us"
  "(p, t, x) \<in> set (fnodes noff ts e ks) \<Longrightarrow> \<exists>us. ts @ flats noff ks = p @ flatten noff t @ us"
proof (induction noff ts e t0 and noff ts e ks rule: tnodes_fnodes.induct)
  case (1 noff ts e n ps ks)
  show ?case
  proof (cases "(p, t, x) = (ts, DNode n ps ks, e)")
    case True
    then show ?thesis by (intro exI [of _ "[]"]) simp
  next
    case False
    then obtain us where "(ts @ TBegin n # map (ptok noff) ps) @ flats noff ks = p @ flatten noff t @ us"
      using 1 by auto
    then have "ts @ flatten noff (DNode n ps ks) = p @ flatten noff t @ us @ [TEnd]"
      by (simp add: flatten_eq del: flatten.simps)
    then show ?thesis by blast
  qed
next
  case (3 noff ts e k ks)
  then consider "(p, t, x) \<in> set (tnodes noff ts e k)" | "(p, t, x) \<in> set (fnodes noff (ts @ flatten noff k) e ks)" by auto
  then show ?case
  proof cases
    case 1
    then obtain us where us: "ts @ flatten noff k = p @ flatten noff t @ us" using 3 by blast
    have "ts @ flats noff (k # ks) = (ts @ flatten noff k) @ flats noff ks" by simp
    then have "ts @ flats noff (k # ks) = p @ flatten noff t @ us @ flats noff ks" unfolding us by simp
    then show ?thesis by blast
  next
    case 2
    then show ?thesis using 3 by simp
  qed
qed simp

text \<open>The list of all nodes with the root at depth 0, as the code visits them.\<close>

definition all_nodes :: "(u8 list \<Rightarrow> nat) \<Rightarrow> dnode \<Rightarrow> (token list \<times> dnode \<times> int option) list" where
  "all_nodes noff root = tnodes noff [] (Some 0) root"

lemma tnodes_same:
  "map (\<lambda>(p, t, e). (p, t)) (tnodes noff ts e t) = map (\<lambda>(p, t, e). (p, t)) (tnodes noff ts e' t)"
  "map (\<lambda>(p, t, e). (p, t)) (fnodes noff ts e ks) = map (\<lambda>(p, t, e). (p, t)) (fnodes noff ts e' ks)"
proof (induction noff ts e t and noff ts e ks arbitrary: e' and e' rule: tnodes_fnodes.induct)
  case (3 noff ts e k ks)
  show ?case by (simp only: fnodes.simps map_append 3 [of e'])
qed auto

lemma all_nodes_of:
  assumes "(p, t, e) \<in> set (tnodes noff [] None root)"
  obtains x where "(p, t, Some x) \<in> set (all_nodes noff root)"
proof -
  have "(p, t) \<in> (\<lambda>(p, t, e). (p, t)) ` set (tnodes noff [] None root)" using assms by force
  also have "\<dots> = (\<lambda>(p, t, e). (p, t)) ` set (all_nodes noff root)"
    using arg_cong [OF tnodes_same(1) [of noff "[]" None root "Some 0"], of set] by (simp add: all_nodes_def)
  finally obtain y where "(p, t, y) \<in> set (all_nodes noff root)" by auto
  moreover from this obtain x where "y = Some x" using depths(1) [of "(p, t, y)" noff "[]" 0 root] by (auto simp: all_nodes_def)
  ultimately show thesis using that by blast
qed

lemma all_nodes_at:
  assumes "(p, t, e) \<in> set (all_nodes noff root)"
  shows "node_at noff (flatten noff root @ [TDone]) p t" "t \<in> set (nodes_of root)"
proof -
  show "node_at noff (flatten noff root @ [TDone]) p t"
    using tnodes_at(1) [of p t e noff "[]" "Some 0" root] assms by (auto simp: node_at_def all_nodes_def)
  show "t \<in> set (nodes_of root)"
    using imageI [OF assms, of "fst \<circ> snd"] arg_cong [OF nodes_of_tnodes(1) [of noff "[]" "Some 0" root], of set]
    by (simp add: all_nodes_def)
qed

lemma tree_ok_nodes: "tree_ok strs noff t \<Longrightarrow> t' \<in> set (nodes_of t) \<Longrightarrow> tree_ok strs noff t'"
  by (induction strs noff t rule: tree_ok.induct) auto

lemma root_visits:
  "visits [] (flatten noff root @ [TDone]) None = map visit_of (tnodes noff [] None root)"
  using visits_nodes(1) [of None None "[]" noff root "[TDone]"] by simp

lemma find_map: "find P (map f xs) = map_option f (find (P \<circ> f) xs)"
  by (induction xs) auto

lemma find_in: "find P xs = Some x \<Longrightarrow> x \<in> set xs \<and> P x"
  by (induction xs) (auto split: if_splits)

text \<open>A search whose test depends on the node only finds the first node that passes, in the order of the blob.\<close>

lemma node_search_run:
  assumes "stream_ok fdt (flatten noff root @ [TDone]) strs N"
    "\<And>q t x. (q, t, Some x) \<in> set (all_nodes noff root) \<Longrightarrow>
       test (of_nat (boff q)) fdt = Ret (if P t then Some (of_nat (boff q)) else None) fdt"
  shows "case find P (nodes_of root) of
      None \<Rightarrow> node_search N N test (- 1) fdt = Ret (- 1) fdt
    | Some t \<Rightarrow> \<exists>q x. (q, t, Some x) \<in> set (all_nodes noff root) \<and> node_search N N test (- 1) fdt = Ret (of_nat (boff q)) fdt"
proof -
  let ?S = "flatten noff root @ [TDone]" and ?L = "tnodes noff [] None root"
  define T :: "token list \<Rightarrow> u32 option" where "T p = (case test (of_nat (boff p)) fdt of Ret r _ \<Rightarrow> r | _ \<Rightarrow> None)" for p
  have te: "test (of_nat (boff p)) fdt = Ret (T p) fdt" "T p = (if P t then Some (of_nat (boff p)) else None)"
    if "(p, t, x) \<in> set ?L" for p t x
  proof -
    from that obtain y where "(p, t, Some y) \<in> set (all_nodes noff root)" by (rule all_nodes_of)
    from assms(2) [OF this] show "test (of_nat (boff p)) fdt = Ret (T p) fdt"
      "T p = (if P t then Some (of_nat (boff p)) else None)" by (simp_all add: T_def)
  qed
  have v: "\<forall>x\<in>set (visits [] ?S None). test (of_nat (boff (fst x))) fdt = Ret (T (fst x)) fdt"
    using te(1) by (auto simp: root_visits visit_of_def)
  have sz: "length ?S < N" "?S \<noteq> []" using stream_sizes(2) [of fdt "[]" ?S strs N] assms(1) by auto
  obtain j where N: "N = Suc j" using sz(1) by (cases N) auto
  have "length ?S < j" using stream_sizes(2) [of fdt "[]" ?S strs N] assms(1) by (simp add: N)
  have g: "fdt_next_node N (- 1) None fdt = Ret (nn_out (nn [] ?S None)) fdt"
    using node_loop_run [of fdt "[]" ?S strs N N None] assms(1) sz by (simp add: fdt_next_node_def neg_m1)
  obtain q e where q: "nn_out (nn [] ?S None) = (q, e)" by fastforce
  have "node_search N (Suc j) test (- 1) fdt =
      (if neg q then retM q else bindM (test q) (\<lambda>r. case r of Some r \<Rightarrow> retM r | None \<Rightarrow> node_search N j test q)) fdt"
    using g q by (simp add: run_bind [of "fdt_next_node N (- 1) None"])
  also have "\<dots> = Ret (case find (\<lambda>(p, _). T p \<noteq> None) (visits [] ?S None) of
      None \<Rightarrow> - 1 | Some (p, _) \<Rightarrow> the (T p)) fdt"
    using search_scan [of fdt "[]" ?S strs N j test T] assms(1) sz(2) \<open>length ?S < j\<close> v unfolding q by simp
  also have "find (\<lambda>(p, _). T p \<noteq> None) (visits [] ?S None) = map_option visit_of (find (\<lambda>(p, t, e). P t) ?L)"
    unfolding root_visits find_map
    by (rule arg_cong [of _ _ "map_option visit_of"], rule find_cong) (auto simp: visit_of_def te(2) split: if_splits)
  finally have s: "node_search N N test (- 1) fdt = Ret (case map_option visit_of (find (\<lambda>(p, t, e). P t) ?L) of
      None \<Rightarrow> - 1 | Some (p, _) \<Rightarrow> the (T p)) fdt" by (simp add: N)
  have f: "find P (nodes_of root) = map_option (fst \<circ> snd) (find (\<lambda>(p, t, e). P t) ?L)"
    unfolding nodes_of_tnodes(1) [of noff "[]" None root, symmetric] find_map
    by (simp add: comp_def case_prod_unfold)
  show ?thesis
  proof (cases "find (\<lambda>(p, t, e). P t) ?L")
    case None
    then show ?thesis using s f by simp
  next
    case (Some x)
    obtain p t e where x: "x = (p, t, e)" by (cases x)
    then have "(p, t, e) \<in> set ?L" "P t" using find_in [OF Some] by auto
    moreover from this obtain d where "(p, t, Some d) \<in> set (all_nodes noff root)" using all_nodes_of by blast
    ultimately show ?thesis using s f Some x te(2) [of p t e] by (auto simp: visit_of_def)
  qed
qed

section \<open>String lists\<close>

text \<open>The strings of a list: what lies before each terminator.\<close>

function strings_of :: "u8 list \<Rightarrow> u8 list list" where
  "strings_of v = (if v = [] then [] else takeWhile (\<lambda>c. c \<noteq> 0) v # strings_of (tl (dropWhile (\<lambda>c. c \<noteq> 0) v)))"
  by pat_completeness auto
termination
proof (relation "measure length")
  fix v :: "u8 list" assume "v \<noteq> []"
  then show "(tl (dropWhile (\<lambda>c. c \<noteq> 0) v), v) \<in> measure length"
    using length_dropWhile_le [of "\<lambda>c. c \<noteq> 0" v] by (cases v) auto
qed simp

declare strings_of.simps [simp del]

lemma strings_of_Cons:
  assumes "0 \<notin> set x"
  shows "strings_of (x @ 0 # v) = x # strings_of v"
proof -
  have "takeWhile (\<lambda>c. c \<noteq> 0) (x @ 0 # v) = x" "dropWhile (\<lambda>c. c \<noteq> 0) (x @ 0 # v) = 0 # v"
    using assms by (induction x) auto
  then show ?thesis by (simp add: strings_of.simps [of "x @ 0 # v"])
qed

text \<open>A list that ends in a terminator is empty or begins with a terminated string.\<close>

lemma string_list_cases:
  assumes "v = [] \<or> last v = (0 :: u8)"
  obtains "v = []" | x w where "v = x @ 0 # w" "0 \<notin> set x" "w = [] \<or> last w = 0"
proof (cases "v = []")
  case False
  then have "0 \<in> set v" using assms by (metis last_in_set)
  then obtain x w where v: "v = x @ 0 # w" "0 \<notin> set x" by (metis split_list_first)
  then have "w = [] \<or> last w = 0" using assms False by (auto split: if_splits)
  with v show thesis using that(2) by blast
qed (rule that(1))

lemma strings_shorter:
  assumes "v = [] \<or> last v = (0 :: u8)" "c \<in> set (strings_of v)"
  shows "length c < length v"
  using assms
proof (induction "length v" arbitrary: v rule: less_induct)
  case less
  from less.prems(1) show ?case
  proof (cases rule: string_list_cases)
    case 1
    then show ?thesis using less.prems(2) by (simp add: strings_of.simps)
  next
    case (2 x w)
    then have "c = x \<or> c \<in> set (strings_of w)" using less.prems(2) by (simp add: strings_of_Cons)
    then show ?thesis using less.hyps [of w] 2 by auto
  qed
qed

text \<open>The comparison with a terminated string ends inside it: it meets a difference or both terminators.\<close>

lemma memcmp_terminated:
  assumes "name_at m p x" "0 \<notin> set c"
  shows "\<exists>r. sbi_memcmp (pre @ c @ [0]) (length pre) m p (length c + 1) = Some r \<and> (r = 0 \<longleftrightarrow> c = x)"
  using assms
proof (induction c arbitrary: pre p x)
  case Nil
  then have "p < length m" "m ! p = (x @ [0]) ! 0"
    using nth_blk [of p "length x + 1" m 0] by (auto simp: name_at_def)
  then show ?case using Nil.prems(1) by (cases x) (auto simp: name_at_def nth_append uint_0_iff)
next
  case (Cons d c)
  have m: "p < length m" "m ! p = (x @ [0]) ! 0"
    using Cons.prems(1) nth_blk [of p "length x + 1" m 0] by (auto simp: name_at_def)
  show ?case
  proof (cases x)
    case Nil
    then show ?thesis using m Cons.prems(2) by (auto simp: nth_append word_uint_eq_iff)
  next
    case (Cons y ys)
    then have "name_at m (Suc p) ys" using Cons.prems(1) blk_Suc [of p "length ys + 1" m] by (simp add: name_at_def)
    then show ?thesis using m Cons Cons.prems(2) Cons.IH [of "Suc p" ys "pre @ [d]"]
      by (auto simp: nth_append word_uint_eq_iff)
  qed
qed

lemma contains_run:
  assumes "blk fdt p (length v) = v" "p + length v \<le> length fdt" "v = [] \<or> last v = 0"
    "0 \<notin> set c" "c \<noteq> []" "length v < k"
  shows "stringlist_contains_loop k p (int (length v)) (c @ [0]) (length c) fdt = Ret (c \<in> set (strings_of v)) fdt"
  using assms(1-3,6)
proof (induction k arbitrary: p v)
  case (Suc k)
  show ?case
  proof (cases "length c \<le> length v")
    case False
    then show ?thesis using strings_shorter [OF Suc.prems(3)] by (fastforce simp: run_simps)
  next
    case True
    from Suc.prems(3) show ?thesis
    proof (cases rule: string_list_cases)
      case 1
      then show ?thesis using True assms(5) by simp
    next
      case (2 x w)
      have na: "name_at fdt p x"
        using blk_mid [of fdt p "length v" "[]" "x @ [0]" w] Suc.prems(1,2) 2 by (simp add: name_at_def)
      obtain r where r: "sbi_memcmp (c @ [0]) 0 fdt p (Suc (length c)) = Some r" "r = 0 \<longleftrightarrow> c = x"
        using memcmp_terminated [OF na assms(4), of "[]"] by auto
      have m: "memchr_from fdt p 0 (length v) = Some (Some (p + length x))"
        using na 2(1) by (intro memchr_found) (auto simp: name_at_def)
      have "blk fdt (Suc (p + length x)) (length w) = w" "Suc (p + length x) + length w \<le> length fdt"
        using blk_mid [of fdt p "length v" "x @ [0]" w "[]"] Suc.prems(1,2) 2(1) by auto
      from Suc.IH [OF this 2(3)] Suc.prems(4) 2(1)
      have ih: "stringlist_contains_loop k (Suc (p + length x)) (int (length w)) (c @ [0]) (length c) fdt =
        Ret (c \<in> set (strings_of w)) fdt" by simp
      have "int (length v) - (int (p + length x) - int p + 1) = int (length w)" "strings_of v = x # strings_of w"
        using 2(1,2) by (simp_all add: strings_of_Cons)
      then show ?thesis using r m ih True
        by (auto simp: run_simps on_blob_def simp del: sbi_memcmp.simps memchr_from.simps)
    qed
  qed
qed simp

section \<open>Compatible nodes\<close>

abbreviation (input) compat_key :: "u8 list" where "compat_key \<equiv> map of_char ''compatible''"

text \<open>The strings of the node's property of that name, if the property is a string list.\<close>

definition compat :: "u8 list \<Rightarrow> dnode \<Rightarrow> bool" where
  "compat c t \<longleftrightarrow> (case map_of (nprops t) compat_key of None \<Rightarrow> False | Some v \<Rightarrow> c \<in> set (strings_of v))"

definition compat_ok :: "dnode \<Rightarrow> bool" where
  "compat_ok t \<longleftrightarrow> (case map_of (nprops t) compat_key of None \<Rightarrow> True | Some v \<Rightarrow> v = [] \<or> last v = 0)"

lemma boff_member: "tok \<in> set ts \<Longrightarrow> length (tok_bytes tok) \<le> boff ts"
  by (induction ts) auto

lemma prop_value_small:
  assumes "stream_ok fdt ts strs N" "node_at noff ts q t" "map_of (nprops t) k = Some v"
  shows "length v < 2 ^ 31" "length v < N"
proof -
  obtain n ps ks where t: "t = DNode n ps ks" by (cases t)
  have "(k, v) \<in> set ps" using assms(3) by (simp add: t map_of_SomeD)
  then have "ptok noff (k, v) \<in> set ts" using assms(2) by (force simp: node_at_def t)
  then have "length v < boff ts" using boff_member [of "TProp (noff k) v" ts] by (simp add: length_tok_bytes)
  then show "length v < 2 ^ 31" "length v < N"
    using assms(1) boff_bound [of fdt ts strs] by (auto simp: stream_ok_def)
qed

lemma check_compatible_run:
  assumes "stream_ok fdt ts strs N" "node_at noff ts q t" "tree_ok strs noff t" "compat_ok t" "0 \<notin> set c" "c \<noteq> []"
  shows "fdt_node_check_compatible N (of_nat (boff q)) (c @ [0]) fdt =
    Ret (if map_of (nprops t) compat_key = None then - 1 else if compat c t then 0 else 1) fdt"
proof -
  have z: "compat_key @ [0] = zstr ''compatible''" "0 \<notin> set compat_key" by (simp_all add: zstr_def)
  note g = node_getprop [OF assms(1-3) z(2), unfolded z(1)]
  show ?thesis
  proof (cases "map_of (nprops t) compat_key")
    case None
    then show ?thesis using g by (simp add: fdt_node_check_compatible_def run_simps)
  next
    case (Some v)
    then obtain p where p: "fdt_getprop N (of_nat (boff q)) (zstr ''compatible'') fdt = Ret (Some p, of_nat (length v)) fdt"
      "blk fdt p (length v) = v" "p + length v \<le> length fdt" using g by auto
    note v = prop_value_small [OF assms(1,2) Some]
    have "sbi_strlen (c @ [0]) = Some (length c)" using cstr_at [of "c @ [0]" 0 c] assms(5) by (simp add: blk_def)
    then have "fdt_stringlist_contains N p (of_nat (length v)) (c @ [0]) fdt = Ret (c \<in> set (strings_of v)) fdt"
      using contains_run [OF p(2,3) _ assms(5,6), of N] assms(4) Some v
      by (simp add: fdt_stringlist_contains_def run_simps sint_small compat_ok_def)
    then show ?thesis using p(1) Some by (simp add: fdt_node_check_compatible_def run_simps compat_def)
  qed
qed

text \<open>The test of \<open>fdt_node_offset_by_compatible\<close> at a node.\<close>

definition compat_test :: "nat \<Rightarrow> u8 list \<Rightarrow> u32 \<Rightarrow> u32 option fdtM" where
  "compat_test N s offset = bindM (fdt_node_check_compatible N offset s) (\<lambda>err.
     retM (if neg err \<and> err \<noteq> - FDT_ERR_NOTFOUND then Some err else if err = 0 then Some offset else None))"

lemma compat_test_run:
  assumes "stream_ok fdt (flatten noff root @ [TDone]) strs N" "tree_ok strs noff root"
    "\<forall>t\<in>set (nodes_of root). compat_ok t" "0 \<notin> set c" "c \<noteq> []" "(q, t, Some x) \<in> set (all_nodes noff root)"
  shows "compat_test N (c @ [0]) (of_nat (boff q)) fdt = Ret (if compat c t then Some (of_nat (boff q)) else None) fdt"
  using check_compatible_run [OF assms(1) all_nodes_at(1) [OF assms(6)] tree_ok_nodes [OF assms(2) all_nodes_at(2) [OF assms(6)]] _ assms(4,5)]
    assms(3) all_nodes_at(2) [OF assms(6)]
  by (auto simp: compat_test_def run_simps neg_def compat_def)

lemma by_compatible_search:
  assumes "stream_ok fdt ts strs N"
  shows "fdt_node_offset_by_compatible N start s fdt = node_search N N (compat_test N s) start fdt"
  using probe_run [of fdt ts strs] assms
  by (simp add: fdt_node_offset_by_compatible_def FDT_RO_PROBE_def run_simps compat_test_def [abs_def] stream_ok_def)

lemma by_compatible_run:
  assumes "stream_ok fdt (flatten noff root @ [TDone]) strs N" "tree_ok strs noff root"
    "\<forall>t\<in>set (nodes_of root). compat_ok t" "0 \<notin> set c" "c \<noteq> []"
  shows "case find (compat c) (nodes_of root) of
      None \<Rightarrow> fdt_node_offset_by_compatible N (- 1) (c @ [0]) fdt = Ret (- 1) fdt
    | Some t \<Rightarrow> \<exists>q x. (q, t, Some x) \<in> set (all_nodes noff root) \<and>
        fdt_node_offset_by_compatible N (- 1) (c @ [0]) fdt = Ret (of_nat (boff q)) fdt"
  unfolding by_compatible_search [OF assms(1)]
  by (rule node_search_run [OF assms(1)]) (rule compat_test_run [OF assms])

section \<open>Parents\<close>

text \<open>
  \<open>fdt_supernode_atdepth_offset\<close> on the list of the offsets and depths it visits: it remembers the last
  offset at the depth in question until it comes to the node.
\<close>

fun supscan :: "nat \<Rightarrow> int \<Rightarrow> (nat \<times> int) list \<Rightarrow> u32 \<Rightarrow> u32 \<times> u32 option" where
  "supscan no sd [] s = (s, None)"
| "supscan no sd ((p, d) # xs) s =
     (let s' = (if d = sd then of_nat p else s) in
      if p = no then (if d < sd then - 1 else s', Some (of_int d)) else supscan no sd xs s')"

definition place :: "token list \<times> 'b \<times> int option \<Rightarrow> nat \<times> int" where
  "place x = (case x of (p, _, e) \<Rightarrow> (boff p, the e))"

lemma place_simp [simp]: "place (p, x, e) = (boff p, the e)"
  by (simp add: place_def)

lemma visits_behind: "x \<in> set (visits ts us d) \<Longrightarrow> boff ts \<le> boff (fst x)"
  by (induction ts us d rule: visits.induct) (force split: option.splits if_splits)+

lemma super_scan:
  assumes "stream_ok fdt (ts @ us) strs N" "us \<noteq> []" "length us < k" "0 \<le> d" "d \<le> int (length ts)"
    "\<exists>x\<in>set (visits ts us (Some d)). boff (fst x) = no" "no < 2 ^ 31" "0 \<le> sd" "sd < 2 ^ 31"
  shows "(case nn_out (nn ts us (Some d)) of (q, e) \<Rightarrow>
      supernode_loop N k (of_nat no) (of_int sd) q (the e) s fdt) =
    Ret (supscan no sd (map place (visits ts us (Some d))) s) fdt"
  using assms(1-6)
proof (induction us arbitrary: ts k d s)
  case (Cons t us)
  obtain j where k: "k = Suc j" using Cons.prems(3) by (cases k) auto
  note sz = stream_sizes [OF Cons.prems(1)]
  have st: "stream_ok fdt ((ts @ [t]) @ us) strs N" "us \<noteq> []" if "t \<noteq> TDone"
    using stream_last [OF Cons.prems(1) that] by auto
  consider (nod) n where "t = TBegin n" | (fin) "t = TDone" | (out) "t = TEnd" "d = 0"
    | (up) "t = TEnd" "0 < d"
    | (skip) "t \<noteq> TDone" "nn ts (t # us) (Some d) = nn (ts @ [t]) us (Some d)"
      "visits ts (t # us) (Some d) = visits (ts @ [t]) us (Some d)"
    using Cons.prems(4) by (cases t) fastforce+
  then show ?case
  proof cases
    case (nod n)
    have im: "fdt_image fdt (ts @ TBegin n # us) strs" using Cons.prems(1) by (simp add: stream_ok_def nod)
    have b: "boff ts \<le> no" "boff ts < 2 ^ 31"
      using Cons.prems(6) visits_behind boff_prefix(1) [OF im] by (fastforce simp: nod)+
    have w1: "sint (of_nat (boff ts) :: u32) = int (boff ts)" "sint (of_nat no :: u32) = int no"
      using b(2) assms(7) by (simp_all add: sint_small)
    have w: "(of_nat (boff ts) :: u32) = of_nat no \<longleftrightarrow> boff ts = no" using w1 by (metis of_nat_eq_iff)
    have d1: "sint (of_int (d + 1) :: u32) = d + 1" "sint (of_int sd :: u32) = sd"
      using sint_of_int [of "d + 1"] sint_of_int [of sd] Cons.prems(4,5) sz assms(8,9) by simp_all
    have d: "(of_int (d + 1) :: u32) = of_int sd \<longleftrightarrow> d + 1 = sd" using d1 by metis
    have g: "fdt_next_node N (of_nat (boff ts)) (Some (of_int (d + 1))) fdt = Ret (nn_out (nn (ts @ [TBegin n]) us (Some (d + 1)))) fdt"
      using next_node_run [of fdt ts n us strs N "Some (d + 1)"] Cons.prems(1,4,5) sz st(2) by (simp add: nod)
    obtain q e where q: "nn_out (nn (ts @ [TBegin n]) us (Some (d + 1))) = (q, e)" by fastforce
    show ?thesis
    proof (cases "boff ts = no")
      case True
      then show ?thesis using w w1 d d1 b Cons.prems(4)
        by (simp add: nod k nn_out_def [of "(Some ts, _)"] run_simps neg_def Let_def)
    next
      case False
      then have "\<exists>x\<in>set (visits (ts @ [TBegin n]) us (Some (d + 1))). boff (fst x) = no"
        using Cons.prems(6) by (auto simp: nod)
      then have "supernode_loop N j (of_nat no) (of_int sd) q (the e) s' fdt =
          Ret (supscan no sd (map place (visits (ts @ [TBegin n]) us (Some (d + 1)))) s') fdt" for s'
        using Cons.IH [of "ts @ [t]" j "d + 1" s'] st Cons.prems(3,4,5) q by (simp add: nod k)
      then show ?thesis using False g q w w1 d d1 b Cons.prems(4)
        by (simp add: nod k nn_out_def [of "(Some ts, _)"] run_simps neg_def Let_def)
    qed
  next
    case fin
    then show ?thesis using Cons.prems(6) by simp
  next
    case out
    then show ?thesis using Cons.prems(6) by simp
  next
    case up
    then show ?thesis using Cons.IH [of "ts @ [t]" k "d - 1"] st Cons.prems(3,4,5,6) by simp
  next
    case skip
    then show ?thesis using Cons.IH [OF st [OF skip(1)], of k d] Cons.prems(3,4,5,6) by simp
  qed
qed simp

lemma supscan_at:
  assumes "\<forall>y\<in>set A. fst y \<noteq> no" "sd < x"
  shows "supscan no sd (A @ (no, x) # B) s = (foldl (\<lambda>s (p, d). if d = sd then of_nat p else s) s A, Some (of_int x))"
  using assms(1)
proof (induction A arbitrary: s)
  case Nil
  then show ?case using assms(2) by simp
next
  case (Cons y A)
  then show ?case by (cases y) (simp add: Let_def)
qed

lemma split_append:
  assumes "xs @ ys = A @ z # B"
  obtains B' where "xs = A @ z # B'" | A' where "A = xs @ A'" "ys = A' @ z # B"
proof -
  from assms obtain us where "xs = A @ us \<and> us @ ys = z # B \<or> A = xs @ us \<and> ys = us @ z # B"
    by (auto simp: append_eq_append_conv2)
  then show thesis using that by (cases us) auto
qed

text \<open>Before every node but the first lies its parent, and no other node of the parent's depth in between.\<close>

definition has_parent :: "(token list \<times> dnode \<times> int option) list \<Rightarrow> dnode \<Rightarrow> int \<Rightarrow> token list \<Rightarrow> dnode \<Rightarrow> bool" where
  "has_parent A t x q' t' \<longleftrightarrow>
     (\<exists>A1 A2. A = A1 @ (q', t', Some (x - 1)) # A2 \<and> t \<in> set (nkids t') \<and> (\<forall>y\<in>set A2. snd (snd y) \<noteq> Some (x - 1)))"

lemma has_parent_append: "has_parent A t x q' t' \<Longrightarrow> has_parent (C @ A) t x q' t'"
  unfolding has_parent_def by (metis append.assoc)

lemma parents:
  "tnodes noff ts (Some e) t0 = A @ (q, t, Some x) # B \<Longrightarrow> A \<noteq> [] \<Longrightarrow> \<exists>q' t'. has_parent A t x q' t'"
  "fnodes noff ts (Some e) ks = A @ (q, t, Some x) # B \<Longrightarrow> x = e \<and> t \<in> set ks \<or> (\<exists>q' t'. has_parent A t x q' t')"
proof (induction noff ts "Some e" t0 and noff ts "Some e" ks arbitrary: e A B and e A B rule: tnodes_fnodes.induct)
  case (1 noff ts n ps ks e)
  obtain A' where A: "A = (ts, DNode n ps ks, Some e) # A'" using "1.prems" by (cases A) auto
  have f: "fnodes noff (ts @ TBegin n # map (ptok noff) ps) (Some (e + 1)) ks = A' @ (q, t, Some x) # B"
    using "1.prems"(1) by (simp add: A)
  consider "x = e + 1" "t \<in> set ks" | "\<exists>q' t'. has_parent A' t x q' t'" using "1.hyps" [of "e + 1" A' B] f by auto
  then show ?case
  proof cases
    case 1
    have "\<forall>y\<in>set A'. snd (snd y) \<noteq> Some e"
      using depths(2) [of _ noff _ "e + 1" ks] f by (metis Un_iff set_append option.inject zle_add1_eq_le not_less_iff_gr_or_eq)
    then have "has_parent A t x ts (DNode n ps ks)" using 1 by (auto simp: has_parent_def A)
    then show ?thesis by blast
  next
    case 2
    then show ?thesis using has_parent_append [of A' t x _ _ "[(ts, DNode n ps ks, Some e)]"] by (auto simp: A)
  qed
next
  case (3 noff ts k ks e)
  have "tnodes noff ts (Some e) k @ fnodes noff (ts @ flatten noff k) (Some e) ks = A @ (q, t, Some x) # B"
    using "3.prems" by simp
  then show ?case
  proof (cases rule: split_append)
    case (1 B')
    show ?thesis
    proof (cases "A = []")
      case True
      then show ?thesis using 1 by (cases k) auto
    next
      case False
      then show ?thesis using "3.hyps"(1) [OF 1] by blast
    qed
  next
    case (2 A')
    then show ?thesis using "3.hyps"(2) [OF 2(2)] has_parent_append [of A' t x _ _ "tnodes noff ts (Some e) k"] by auto
  qed
qed simp

lemma foldl_skip: "\<forall>y\<in>set A. snd y \<noteq> sd \<Longrightarrow> foldl (\<lambda>s (p, d). if d = sd then f p else s) s A = s"
  by (induction A) auto

lemma depth_bound:
  "(p, t, Some x) \<in> set (tnodes noff ts (Some e) t0) \<Longrightarrow> e \<le> x \<and> x + int (length ts) \<le> e + int (length p)"
  "(p, t, Some x) \<in> set (fnodes noff ts (Some e) ks) \<Longrightarrow> e \<le> x \<and> x + int (length ts) \<le> e + int (length p)"
  by (induction noff ts "Some e" t0 and noff ts "Some e" ks arbitrary: e and e rule: tnodes_fnodes.induct) fastforce+

lemma visits_sorted: "sorted_wrt (\<lambda>x y. boff (fst x) < boff (fst y)) (visits ts us d)"
proof (induction ts us d rule: visits.induct)
  case (1 ts n us d)
  have "boff ts < boff (fst y)" if "y \<in> set (visits (ts @ [TBegin n]) us (map_option (\<lambda>d. d + 1) d))" for y
    using visits_behind [OF that] by (simp add: length_tok_bytes)
  then show ?case using 1 by auto
qed (auto split: option.splits)

lemma all_nodes_split:
  obtains n ps ks where "root = DNode n ps ks"
    "flatten noff root @ [TDone] = [] @ TBegin n # map (ptok noff) ps @ flats noff ks @ [TEnd, TDone]"
    "all_nodes noff root = ([], root, Some 0) # fnodes noff (TBegin n # map (ptok noff) ps) (Some 1) ks"
    "map place (visits [TBegin n] (map (ptok noff) ps @ flats noff ks @ [TEnd, TDone]) (Some 0)) =
      map place (fnodes noff (TBegin n # map (ptok noff) ps) (Some 1) ks)"
proof -
  obtain n ps ks where r: "root = DNode n ps ks" by (cases root)
  have "place \<circ> visit_of = (place :: token list \<times> dnode \<times> int option \<Rightarrow> _)" by (auto simp: visit_of_def)
  then have "map place (visits [TBegin n] (map (ptok noff) ps @ flats noff ks @ [TEnd, TDone]) (Some 0)) =
      map place (fnodes noff (TBegin n # map (ptok noff) ps) (Some 1) ks)"
    using visits_nodes(2) [of "Some 1" "Some 0" "TBegin n # map (ptok noff) ps" noff ks "[TEnd, TDone]"]
      visits_props [of "[TBegin n]" noff ps "flats noff ks @ [TEnd, TDone]" "Some 0"] by simp
  then show thesis using that [of n ps ks] by (simp add: r all_nodes_def flats_def)
qed

lemma all_nodes_sorted: "sorted_wrt (\<lambda>x y. fst x < fst y) (map place (all_nodes noff root))"
proof -
  obtain n ps ks where a: "root = DNode n ps ks"
    "all_nodes noff root = ([], root, Some 0) # fnodes noff (TBegin n # map (ptok noff) ps) (Some 1) ks"
    "map place (visits [TBegin n] (map (ptok noff) ps @ flats noff ks @ [TEnd, TDone]) (Some 0)) =
      map place (fnodes noff (TBegin n # map (ptok noff) ps) (Some 1) ks)"
    by (rule all_nodes_split)
  let ?V = "visits [TBegin n] (map (ptok noff) ps @ flats noff ks @ [TEnd, TDone]) (Some 0)"
  have "sorted_wrt (\<lambda>x y. fst x < fst y) (map place ?V)"
    using visits_sorted [of "[TBegin n]"] by (simp add: sorted_wrt_map place_def case_prod_unfold)
  moreover have "0 < fst y" if "y \<in> set (map place ?V)" for y
    using that visits_behind [of _ "[TBegin n]"] by (fastforce simp: length_tok_bytes)
  ultimately show ?thesis unfolding a(2) list.map a(3) [symmetric] by simp
qed

lemma supernode_run:
  assumes "stream_ok fdt (flatten noff root @ [TDone]) strs N" "(q, t, Some x) \<in> set (all_nodes noff root)"
    "0 \<le> sd" "sd < 2 ^ 31"
  shows "fdt_supernode_atdepth_offset N (of_nat (boff q)) (of_int sd) fdt =
    Ret (supscan (boff q) sd (map place (all_nodes noff root)) (- 13)) fdt"
proof -
  obtain n ps ks where a: "root = DNode n ps ks"
    "flatten noff root @ [TDone] = [] @ TBegin n # map (ptok noff) ps @ flats noff ks @ [TEnd, TDone]"
    "all_nodes noff root = ([], root, Some 0) # fnodes noff (TBegin n # map (ptok noff) ps) (Some 1) ks"
    "map place (visits [TBegin n] (map (ptok noff) ps @ flats noff ks @ [TEnd, TDone]) (Some 0)) =
      map place (fnodes noff (TBegin n # map (ptok noff) ps) (Some 1) ks)"
    by (rule all_nodes_split)
  let ?r = "map (ptok noff) ps @ flats noff ks @ [TEnd, TDone]"
  have st: "stream_ok fdt ([] @ TBegin n # ?r) strs N" "stream_ok fdt ([TBegin n] @ ?r) strs N" "?r \<noteq> []"
    using assms(1) by (simp_all add: a(2))
  note sz = stream_sizes [OF st(1)]
  obtain j where N: "N = Suc j" using sz(2) by (cases N) auto
  have im: "fdt_image fdt (flatten noff root @ [TDone]) strs" using assms(1) by (simp add: stream_ok_def)
  have q: "boff q < 2 ^ 31"
  proof -
    have "\<exists>us. flatten noff root = q @ us"
      using tnodes_at(1) [of q t "Some x" noff "[]" "Some 0" root] assms(2) by (auto simp: all_nodes_def)
    then show ?thesis using boff_bound [OF im] by auto
  qed
  have w: "sint (of_nat (boff q) :: u32) = int (boff q)" "sint (of_int sd :: u32) = sd"
    using q sint_small assms(3,4) by (simp_all add: sint_of_int)
  have z1: "(0 :: u32) = of_nat (boff q) \<longleftrightarrow> boff q = 0"
  proof
    assume "(0 :: u32) = of_nat (boff q)"
    then show "boff q = 0" using w(1) by (metis of_nat_eq_0_iff sint_0)
  qed simp
  have z2: "(0 :: u32) = of_int sd \<longleftrightarrow> sd = 0"
  proof
    assume "(0 :: u32) = of_int sd"
    then show "sd = 0" using w(2) by (metis sint_0)
  qed simp
  note z = z1 z2
  obtain q1 e1 where g: "nn_out (nn [TBegin n] ?r (Some 0)) = (q1, e1)" by fastforce
  have nx: "fdt_next_node N 0 (Some 0) fdt = Ret (q1, e1) fdt"
    using next_node_run [OF st(1,3), of "Some 0"] sz g by simp
  have loop: "supernode_loop N N (of_nat (boff q)) (of_int sd) 0 0 s fdt =
      Ret (supscan (boff q) sd (map place (all_nodes noff root)) s) fdt" for s
  proof (cases "boff q = 0")
    case True
    then show ?thesis using z(2) w assms(3) by (simp add: N a(3) run_simps neg_def Let_def)
  next
    case False
    have "\<exists>x\<in>set (visits [TBegin n] ?r (Some 0)). boff (fst x) = boff q"
    proof -
      have "place (q, t, Some x) \<in> set (map place (fnodes noff (TBegin n # map (ptok noff) ps) (Some 1) ks))"
        using assms(2) False unfolding a(3) by (auto intro: rev_image_eqI)
      then show ?thesis unfolding a(4) [symmetric] by (force simp: place_def)
    qed
    then have "supernode_loop N j (of_nat (boff q)) (of_int sd) q1 (the e1) s' fdt =
        Ret (supscan (boff q) sd (map place (visits [TBegin n] ?r (Some 0))) s') fdt" for s'
      using super_scan [OF st(2,3), of j 0 "boff q" sd s'] q assms(3,4) sz N g by simp
    then show ?thesis using False z w nx assms(3) unfolding a(4)
      by (simp add: N a(3) run_simps neg_def Let_def)
  qed
  show ?thesis
    using probe_run [OF im] assms(3) w(2) loop
    by (simp add: fdt_supernode_atdepth_offset_def run_simps neg_def)
qed

lemma parent_run:
  assumes "stream_ok fdt (flatten noff root @ [TDone]) strs N" "(q, t, Some x) \<in> set (all_nodes noff root)" "0 < x"
  shows "\<exists>q' t'. (q', t', Some (x - 1)) \<in> set (all_nodes noff root) \<and> t \<in> set (nkids t') \<and>
    fdt_parent_offset N (of_nat (boff q)) fdt = Ret (of_nat (boff q')) fdt"
proof -
  let ?L = "all_nodes noff root" and ?f = "\<lambda>sd. foldl (\<lambda>s (p, d). if d = sd then of_nat p else s) (- 13 :: u32)"
  obtain A B where L: "?L = A @ (q, t, Some x) # B" using assms(2) by (meson split_list)
  obtain n ps ks where a: "?L = ([], root, Some 0) # fnodes noff (TBegin n # map (ptok noff) ps) (Some 1) ks"
    by (rule all_nodes_split)
  obtain A' where A: "A = ([], root, Some 0) # A'" using a L assms(3) by (cases A) auto
  have F: "fnodes noff (TBegin n # map (ptok noff) ps) (Some 1) ks = A' @ (q, t, Some x) # B" using a L A by simp
  have A'd: "\<forall>y\<in>set (map place A'). snd y \<noteq> 0"
  proof
    fix y assume "y \<in> set (map place A')"
    then obtain z where z: "z \<in> set A'" "y = place z" by auto
    then have "z \<in> set (fnodes noff (TBegin n # map (ptok noff) ps) (Some 1) ks)" unfolding F by simp
    from depths(2) [OF this] show "snd y \<noteq> 0" using z(2) by (auto simp: place_def case_prod_unfold)
  qed
  have ne: "\<forall>y\<in>set (map place A). fst y \<noteq> boff q"
    using all_nodes_sorted [of noff root] unfolding L by (fastforce simp: sorted_wrt_append)
  have s: "supscan (boff q) sd (map place ?L) (- 13) = (?f sd (map place A), Some (of_int x))" if "sd < x" for sd
    using supscan_at [OF ne that, of "map place B"] by (simp add: L)
  obtain q' t' A1 A2 where p: "A = A1 @ (q', t', Some (x - 1)) # A2" "t \<in> set (nkids t')"
    "\<forall>y\<in>set A2. snd (snd y) \<noteq> Some (x - 1)"
    using parents(1) [of noff "[]" 0 root A q t x B] L A unfolding all_nodes_def has_parent_def by auto
  have A2d: "\<forall>y\<in>set (map place A2). snd y \<noteq> x - 1"
  proof
    fix y assume "y \<in> set (map place A2)"
    then obtain z where z: "z \<in> set A2" "y = place z" by auto
    then have "z \<in> set ?L" unfolding L p(1) by simp
    then obtain d where "snd (snd z) = Some d" using depths(1) [of z noff "[]" 0 root] by (auto simp: all_nodes_def)
    then show "snd y \<noteq> x - 1" using z p(3) by (auto simp: place_def case_prod_unfold)
  qed
  have f: "?f 0 (map place A) = 0" "?f (x - 1) (map place A) = of_nat (boff q')"
  proof -
    show "?f 0 (map place A) = 0" unfolding A using foldl_skip [OF A'd, of "of_nat :: nat \<Rightarrow> u32" 0] by simp
    show "?f (x - 1) (map place A) = of_nat (boff q')"
      unfolding p(1) using foldl_skip [OF A2d, of "of_nat :: nat \<Rightarrow> u32" "of_nat (boff q')"] by simp
  qed
  have b: "x < 2 ^ 31"
  proof -
    have "\<exists>us. flatten noff root = q @ us" "x \<le> int (length q)"
      using tnodes_at(1) [of q t "Some x" noff "[]" "Some 0" root] depth_bound(1) [of q t x noff "[]" 0 root] assms(2)
      by (auto simp: all_nodes_def)
    then show ?thesis using stream_sizes(1) [of fdt "[]" "flatten noff root @ [TDone]" strs N] assms(1) by auto
  qed
  have "fdt_node_depth N (of_nat (boff q)) fdt = Ret (of_int x) fdt"
    using supernode_run [OF assms(1,2), of 0] s [of 0] f(1) assms(3) by (simp add: fdt_node_depth_def run_simps)
  moreover have "\<not> neg (of_int x)" using b assms(3) sint_of_int [of x] by (simp add: neg_def)
  ultimately have "fdt_parent_offset N (of_nat (boff q)) fdt = Ret (of_nat (boff q')) fdt"
    using supernode_run [OF assms(1,2), of "x - 1"] s [of "x - 1"] f(2) assms(3) b by (simp add: fdt_parent_offset_def run_simps)
  moreover have "(q', t', Some (x - 1)) \<in> set ?L" unfolding L p(1) by simp
  ultimately show ?thesis using p(2) by blast
qed

section \<open>Searching on from a node\<close>

lemma visits_append: "TDone \<notin> set xs \<Longrightarrow> visits ts (xs @ ys) None = visits ts xs None @ visits (ts @ xs) ys None"
proof (induction xs arbitrary: ts)
  case (Cons t xs)
  then show ?case by (cases t) auto
qed simp

lemma flatten_open: "TDone \<notin> set (flatten noff t)"
  by (induction t) (auto simp: ptok_def)

lemma all_nodes_unique:
  assumes "(q, t, Some x) \<in> set (all_nodes noff root)" "(q, t', Some x') \<in> set (all_nodes noff root)"
  shows "t = t'"
proof -
  obtain i j where i: "i < length (all_nodes noff root)" "all_nodes noff root ! i = (q, t, Some x)"
    and j: "j < length (all_nodes noff root)" "all_nodes noff root ! j = (q, t', Some x')"
    using assms by (auto simp: in_set_conv_nth)
  have "i = j"
    using sorted_wrt_nth_less [OF all_nodes_sorted, of i j noff root] sorted_wrt_nth_less [OF all_nodes_sorted, of j i noff root] i j
    by (cases i j rule: linorder_cases) auto
  then show ?thesis using i j by simp
qed

text \<open>A search that starts behind the only node of a kind finds no other.\<close>

lemma search_behind:
  assumes "stream_ok fdt (flatten noff root @ [TDone]) strs N"
    "\<And>q t x. (q, t, Some x) \<in> set (all_nodes noff root) \<Longrightarrow>
       test (of_nat (boff q)) fdt = Ret (if P t then Some (of_nat (boff q)) else None) fdt"
    "(q, t, Some x) \<in> set (all_nodes noff root)" "Q t" "length (filter Q (nodes_of root)) = 1" "\<And>t. P t \<Longrightarrow> Q t"
  shows "node_search N N test (of_nat (boff q)) fdt = Ret (- 1) fdt"
proof -
  let ?S = "flatten noff root @ [TDone]" and ?L = "tnodes noff [] None root"
  obtain n ps ks where t: "t = DNode n ps ks" by (cases t)
  obtain us where S: "?S = q @ TBegin n # us" using all_nodes_at(1) [OF assms(3)] by (auto simp: node_at_def t)
  have "us \<noteq> []" using S by (cases us rule: rev_cases) auto
  have "TDone \<notin> set q"
  proof -
    obtain vs where "us = vs @ [TDone]" using \<open>us \<noteq> []\<close> S by (cases us rule: rev_cases) auto
    then have "set q \<subseteq> set (flatten noff root)" using S by auto
    then show ?thesis using flatten_open by blast
  qed
  note st = assms(1) [unfolded S]
  have V: "map visit_of ?L = visits [] q None @ (q, n, None) # visits (q @ [TBegin n]) us None"
    using root_visits [of noff root] visits_append [OF \<open>TDone \<notin> set q\<close>, of "[]" "TBegin n # us"] by (simp add: S)
  then obtain L1 y L2 where L: "?L = L1 @ y # L2" "visit_of y = (q, n, None)" "map visit_of L2 = visits (q @ [TBegin n]) us None"
    by (auto simp: map_eq_append_conv map_eq_Cons_conv)
  obtain t' where y: "y = (q, t', None)" using L(2) by (cases y) (auto simp: visit_of_def)
  obtain x' where "(q, t', Some x') \<in> set (all_nodes noff root)" using all_nodes_of [of q t' None noff root] L(1) y by auto
  then have "t' = t" using all_nodes_unique [OF assms(3)] by blast
  have no: "\<not> P u" if "(p, u, e) \<in> set L2" for p u e
  proof
    assume "P u"
    have "nodes_of root = map (fst \<circ> snd) (L1 @ (q, t, None) # L2)"
      using nodes_of_tnodes(1) [of noff "[]" None root] L(1) y \<open>t' = t\<close> by simp
    then have "length (filter Q (map (fst \<circ> snd) L2)) = 0" using assms(4,5) by simp
    moreover have "u \<in> set (filter Q (map (fst \<circ> snd) L2))" using that assms(6) [OF \<open>P u\<close>] by force
    ultimately show False by (metis length_0_conv empty_iff list.set(1))
  qed
  have te: "\<forall>z\<in>set (visits (q @ [TBegin n]) us None). test (of_nat (boff (fst z))) fdt = Ret None fdt"
  proof
    fix z assume "z \<in> set (visits (q @ [TBegin n]) us None)"
    then obtain p u e where u: "(p, u, e) \<in> set L2" "fst z = p" unfolding L(3) [symmetric] by (auto simp: visit_of_def)
    then obtain k where "(p, u, Some k) \<in> set (all_nodes noff root)" using all_nodes_of [of p u e noff root] L(1) by auto
    from assms(2) [OF this] show "test (of_nat (boff (fst z))) fdt = Ret None fdt" using no [OF u(1)] u(2) by simp
  qed
  note sz = stream_sizes [OF st]
  obtain j where N: "N = Suc j" using sz(2) by (cases N) auto
  obtain q' e where q': "nn_out (nn (q @ [TBegin n]) us None) = (q', e)" by fastforce
  have "fdt_next_node N (of_nat (boff q)) None fdt = Ret (q', e) fdt" using next_node_run [OF st \<open>us \<noteq> []\<close>, of None] q' by simp
  then have "node_search N (Suc j) test (of_nat (boff q)) fdt =
      (if neg q' then retM q' else bindM (test q') (\<lambda>r. case r of Some r \<Rightarrow> retM r | None \<Rightarrow> node_search N j test q')) fdt"
    by (simp add: run_bind [of "fdt_next_node N (of_nat (boff q)) None"])
  also have "\<dots> = Ret (- 1) fdt"
  proof -
    have "stream_ok fdt ((q @ [TBegin n]) @ us) strs N" "length us < j" using st sz(2) by (simp_all add: N)
    moreover have "find (\<lambda>(p, _). None \<noteq> None) (visits (q @ [TBegin n]) us None) = None" by (simp add: find_None_iff)
    ultimately show ?thesis using search_scan [of fdt "q @ [TBegin n]" us strs N j test "\<lambda>_. None"] \<open>us \<noteq> []\<close> te q' by simp
  qed
  finally show ?thesis by (simp add: N)
qed

lemma by_compatible_behind:
  assumes "stream_ok fdt (flatten noff root @ [TDone]) strs N" "tree_ok strs noff root"
    "\<forall>t\<in>set (nodes_of root). compat_ok t" "0 \<notin> set c" "c \<noteq> []"
    "(q, t, Some x) \<in> set (all_nodes noff root)" "Q t" "length (filter Q (nodes_of root)) = 1" "\<And>t. compat c t \<Longrightarrow> Q t"
  shows "fdt_node_offset_by_compatible N (of_nat (boff q)) (c @ [0]) fdt = Ret (- 1) fdt"
  unfolding by_compatible_search [OF assms(1)]
  by (rule search_behind [where P = "compat c" and Q = Q and t = t and x = x, OF assms(1)])
    (use compat_test_run [OF assms(1-5)] assms(6-9) in auto)

end
