(* ===== verification/Fdt_Helper.thy ===== *)
theory Fdt_Helper
  imports Fdt_Search Sys_Clint
begin

text \<open>
  What the firmware reads from the device tree, \<^verbatim>\<open>lib/utils/fdt/fdt_helper.c\<close>: the drivers for the nodes it finds, and the
  addresses, clock rates and harts their set-up needs. Results of type \<^verbatim>\<open>int\<close> are integers here, since error
  codes of the tree library and of the firmware meet in them. Objects the code fills in are returned; null
  arguments, which no caller in the library passes, are left out.
\<close>

section \<open>Matching drivers\<close>

text \<open>A match table is the list of its strings, without the closing null entry; a match is an index.\<close>

primrec match_node_loop :: "nat \<Rightarrow> u32 \<Rightarrow> u8 list list \<Rightarrow> nat \<Rightarrow> nat option fdtM" where
  "match_node_loop N nodeoff [] i = retM None"
| "match_node_loop N nodeoff (c # tbl) i =
     bindM (fdt_node_check_compatible N nodeoff c) (\<lambda>ret.
     if ret = 0 then retM (Some i) else match_node_loop N nodeoff tbl (i + 1))"

definition fdt_match_node :: "nat \<Rightarrow> u32 \<Rightarrow> u8 list list \<Rightarrow> nat option fdtM" where
  "fdt_match_node N nodeoff match_table =
     (if neg nodeoff then retM None else match_node_loop N nodeoff match_table 0)"

primrec find_match_loop :: "nat \<Rightarrow> u32 \<Rightarrow> u8 list list \<Rightarrow> nat \<Rightarrow> (int \<times> nat option) fdtM" where
  "find_match_loop N startoff [] i = retM (SBI_ENODEV, None)"
| "find_match_loop N startoff (c # tbl) i =
     bindM (fdt_node_offset_by_compatible N startoff c) (\<lambda>nodeoff.
     if \<not> neg nodeoff then retM (sint nodeoff, Some i) else find_match_loop N startoff tbl (i + 1))"

definition fdt_find_match :: "nat \<Rightarrow> u32 \<Rightarrow> u8 list list \<Rightarrow> (int \<times> nat option) fdtM" where
  "fdt_find_match N startoff match_table = find_match_loop N startoff match_table 0"

section \<open>Addresses\<close>

text \<open>The loop over the cells of a number: 32-bit cells, the first one most significant.\<close>

primrec read_cells :: "nat \<Rightarrow> nat \<Rightarrow> u64 \<Rightarrow> u64 fdtM" where
  "read_cells 0 p temp = retM temp"
| "read_cells (Suc n) p temp = bindM (fdt32_ld p) (\<lambda>c. read_cells n (p + 4) (shl temp 32 OR ucast c))"

text \<open>Error code, and on success address and size; the size is computed when the caller asks for it.\<close>

definition fdt_get_node_addr_size :: "nat \<Rightarrow> u32 \<Rightarrow> bool \<Rightarrow> (int \<times> (ulong \<times> ulong) option) fdtM" where
  "fdt_get_node_addr_size N node want_size =
     bindM (fdt_parent_offset N node) (\<lambda>parent.
     if neg parent then retM (sint parent, None)
     else bindM (fdt_address_cells N parent) (\<lambda>cell_addr.
     if sint cell_addr < 1 then retM (SBI_ENODEV, None)
     else bindM (fdt_size_cells N parent) (\<lambda>cell_size.
     if neg cell_size then retM (SBI_ENODEV, None)
     else bindM (fdt_getprop N node (zstr ''reg'')) (\<lambda>(prop_addr, len).
     case prop_addr of None \<Rightarrow> retM (SBI_ENODEV, None)
     | Some prop_addr \<Rightarrow>
         bindM (read_cells (unat cell_addr) prop_addr 0) (\<lambda>addr.
         bindM (if want_size then read_cells (unat cell_size) (prop_addr + 4 * unat cell_addr) 0 else retM 0) (\<lambda>size.
         retM (0, Some (addr, size))))))))"

definition fdt_parse_compat_addr :: "nat \<Rightarrow> u8 list \<Rightarrow> (int \<times> ulong option) fdtM" where
  "fdt_parse_compat_addr N compatible =
     bindM (fdt_node_offset_by_compatible N (- 1) compatible) (\<lambda>nodeoffset.
     if neg nodeoffset then retM (sint nodeoffset, None)
     else bindM (fdt_get_node_addr_size N nodeoffset False) (\<lambda>(rc, r).
       retM (if rc < 0 then SBI_ENODEV else 0, map_option fst r)))"

section \<open>Harts\<close>

definition fdt_parse_hart_id :: "nat \<Rightarrow> u32 \<Rightarrow> (int \<times> u32) fdtM" where
  "fdt_parse_hart_id N cpu_offset =
     (if neg cpu_offset then retM (SBI_EINVAL, 0)
      else bindM (fdt_getprop N cpu_offset (zstr ''device_type'')) (\<lambda>(prop, len).
        case prop of None \<Rightarrow> retM (SBI_EINVAL, 0)
        | Some prop \<Rightarrow>
            if len = 0 then retM (SBI_EINVAL, 0)
            else bindM (on_blob (\<lambda>m. sbi_strcmp (drop prop m) (zstr ''cpu''))) (\<lambda>r.
              if r \<noteq> 0 then retM (SBI_EINVAL, 0)
              else bindM (fdt_getprop N cpu_offset (zstr ''reg'')) (\<lambda>(val, len).
                case val of None \<Rightarrow> retM (SBI_EINVAL, 0)
                | Some val \<Rightarrow>
                    if (scast len :: u64) < 4 then retM (SBI_EINVAL, 0)
                    else bindM (fdt32_ld (if (4 :: u64) < scast len then val + 4 else val)) (\<lambda>hartid.
                      retM (0, hartid))))))"

primrec max_hart_loop :: "nat \<Rightarrow> nat \<Rightarrow> u32 \<Rightarrow> u32 \<Rightarrow> u32 fdtM" where
  "max_hart_loop N 0 cpu_offset max_hartid = haltM Spin"
| "max_hart_loop N (Suc k) cpu_offset max_hartid =
     (if neg cpu_offset then retM max_hartid
      else bindM (fdt_parse_hart_id N cpu_offset) (\<lambda>(err, hartid).
        bindM (fdt_next_subnode N cpu_offset) (\<lambda>nxt.
        max_hart_loop N k nxt (if err = 0 \<and> max_hartid < hartid then hartid else max_hartid))))"

definition fdt_parse_max_hart_id :: "nat \<Rightarrow> (int \<times> u32) fdtM" where
  "fdt_parse_max_hart_id N =
     bindM (fdt_path_offset N N (zstr ''/cpus'')) (\<lambda>cpus_offset.
     if neg cpus_offset then retM (sint cpus_offset, 0)
     else bindM (fdt_first_subnode N cpus_offset) (\<lambda>cpu_offset.
       bindM (max_hart_loop N N cpu_offset 0) (\<lambda>m. retM (0, m))))"

section \<open>Devices\<close>

record platform_uart_data =
  u_addr :: ulong
  u_freq :: ulong
  u_baud :: ulong
  u_reg_shift :: ulong
  u_reg_io_width :: ulong

text \<open>A 32-bit property with a default.\<close>

definition prop_or :: "nat \<Rightarrow> u32 \<Rightarrow> u8 list \<Rightarrow> ulong \<Rightarrow> ulong fdtM" where
  "prop_or N nodeoffset name dflt =
     bindM (fdt_getprop N nodeoffset name) (\<lambda>(val, len).
     case val of None \<Rightarrow> retM dflt
     | Some val \<Rightarrow> if sint len > 0 then bindM (fdt32_ld val) (\<lambda>v. retM (ucast v)) else retM dflt)"

text \<open>The register block of a device: its address, when there is one and its size is not zero.\<close>

definition dev_addr :: "nat \<Rightarrow> u32 \<Rightarrow> ulong option fdtM" where
  "dev_addr N nodeoffset =
     (if neg nodeoffset then retM None
      else bindM (fdt_get_node_addr_size N nodeoffset True) (\<lambda>(rc, r).
        retM (case r of None \<Rightarrow> None
              | Some (reg_addr, reg_size) \<Rightarrow> if rc < 0 \<or> reg_addr = 0 \<or> reg_size = 0 then None else Some reg_addr)))"

definition fdt_parse_shakti_uart_node :: "nat \<Rightarrow> u32 \<Rightarrow> platform_uart_data \<Rightarrow> (int \<times> platform_uart_data) fdtM" where
  "fdt_parse_shakti_uart_node N nodeoffset uart =
     bindM (dev_addr N nodeoffset) (\<lambda>a.
     case a of None \<Rightarrow> retM (SBI_ENODEV, uart)
     | Some reg_addr \<Rightarrow>
         bindM (prop_or N nodeoffset (zstr ''clock-frequency'') 50000000) (\<lambda>freq.
         bindM (prop_or N nodeoffset (zstr ''current-speed'') 115200) (\<lambda>baud.
         retM (0, uart\<lparr>u_addr := reg_addr, u_freq := freq, u_baud := baud\<rparr>))))"

definition fdt_parse_sifive_uart_node :: "nat \<Rightarrow> u32 \<Rightarrow> platform_uart_data \<Rightarrow> (int \<times> platform_uart_data) fdtM" where
  "fdt_parse_sifive_uart_node N nodeoffset uart =
     bindM (dev_addr N nodeoffset) (\<lambda>a.
     case a of None \<Rightarrow> retM (SBI_ENODEV, uart)
     | Some reg_addr \<Rightarrow>
         bindM (prop_or N nodeoffset (zstr ''clock-frequency'') 0) (\<lambda>freq.
         bindM (prop_or N nodeoffset (zstr ''current-speed'') 115200) (\<lambda>baud.
         retM (0, uart\<lparr>u_addr := reg_addr, u_freq := freq, u_baud := baud, u_reg_shift := 0, u_reg_io_width := 4\<rparr>))))"

definition fdt_parse_uart8250_node :: "nat \<Rightarrow> u32 \<Rightarrow> platform_uart_data \<Rightarrow> (int \<times> platform_uart_data) fdtM" where
  "fdt_parse_uart8250_node N nodeoffset uart =
     bindM (dev_addr N nodeoffset) (\<lambda>a.
     case a of None \<Rightarrow> retM (SBI_ENODEV, uart)
     | Some reg_addr \<Rightarrow>
         bindM (prop_or N nodeoffset (zstr ''clock-frequency'') 0) (\<lambda>freq.
         bindM (prop_or N nodeoffset (zstr ''current-speed'') 115200) (\<lambda>baud.
         bindM (prop_or N nodeoffset (zstr ''reg-shift'') 0) (\<lambda>reg_shift.
         bindM (prop_or N nodeoffset (zstr ''reg-io-width'') 1) (\<lambda>reg_io_width.
         retM (0, uart\<lparr>u_addr := reg_addr, u_freq := freq, u_baud := baud, u_reg_shift := reg_shift,
           u_reg_io_width := reg_io_width\<rparr>))))))"

definition fdt_parse_uart8250 :: "nat \<Rightarrow> platform_uart_data \<Rightarrow> u8 list \<Rightarrow> (int \<times> platform_uart_data) fdtM" where
  "fdt_parse_uart8250 N uart compatible =
     bindM (fdt_node_offset_by_compatible N (- 1) compatible) (\<lambda>nodeoffset.
     if neg nodeoffset then retM (sint nodeoffset, uart) else fdt_parse_uart8250_node N nodeoffset uart)"

record plic_data =
  plic_addr :: ulong
  num_src :: ulong

text \<open>A length stays what it was when the property is missing: \<open>len\<close> is then negative.\<close>

definition fdt_parse_plic_node :: "nat \<Rightarrow> u32 \<Rightarrow> plic_data \<Rightarrow> (int \<times> plic_data) fdtM" where
  "fdt_parse_plic_node N nodeoffset plic =
     bindM (dev_addr N nodeoffset) (\<lambda>a.
     case a of None \<Rightarrow> retM (SBI_ENODEV, plic)
     | Some reg_addr \<Rightarrow>
         bindM (prop_or N nodeoffset (zstr ''riscv,ndev'') (num_src plic)) (\<lambda>n.
         retM (0, plic\<lparr>plic_addr := reg_addr, num_src := n\<rparr>)))"

definition fdt_parse_plic :: "nat \<Rightarrow> plic_data \<Rightarrow> u8 list \<Rightarrow> (int \<times> plic_data) fdtM" where
  "fdt_parse_plic N plic compatible =
     bindM (fdt_node_offset_by_compatible N (- 1) compatible) (\<lambda>nodeoffset.
     if neg nodeoffset then retM (sint nodeoffset, plic) else fdt_parse_plic_node N nodeoffset plic)"

section \<open>The core local interruptor\<close>

text \<open>
  The hart behind one entry of the property that lists a device's interrupts: the handle of a hart's interrupt
  controller, whose parent is the hart's node.
\<close>

definition intc_hartid :: "nat \<Rightarrow> u32 \<Rightarrow> u32 option fdtM" where
  "intc_hartid N phandle =
     bindM (fdt_node_offset_by_phandle N phandle) (\<lambda>cpu_intc_offset.
     if neg cpu_intc_offset then retM None
     else bindM (fdt_parent_offset N cpu_intc_offset) (\<lambda>cpu_offset.
       bindM (fdt_parse_hart_id N cpu_offset) (\<lambda>(rc, hartid).
       retM (if rc \<noteq> 0 \<or> 128 \<le> hartid then None else Some hartid))))"

text \<open>The loop over pairs of a handle and an interrupt number; it keeps the lowest and highest hart id and the count.\<close>

fun clint_harts :: "nat \<Rightarrow> nat \<Rightarrow> u32 \<Rightarrow> nat \<Rightarrow> u32 \<times> u32 \<times> u32 \<Rightarrow> (u32 \<times> u32 \<times> u32) fdtM" where
  "clint_harts N val match_hwirq 0 acc = retM acc"
| "clint_harts N val match_hwirq (Suc n) (lo, hi, count) =
     bindM (fdt32_ld val) (\<lambda>phandle.
     bindM (fdt32_ld (val + 4)) (\<lambda>hwirq.
     bindM (intc_hartid N phandle) (\<lambda>h.
     clint_harts N (val + 8) match_hwirq (n - 1)
       (case h of None \<Rightarrow> (lo, hi, count)
        | Some hartid \<Rightarrow>
            if match_hwirq = hwirq then (min hartid lo, max hartid hi, count + 1) else (lo, hi, count)))))"

definition fdt_parse_clint_node :: "nat \<Rightarrow> u32 \<Rightarrow> bool \<Rightarrow> clint_data \<Rightarrow> (int \<times> clint_data) fdtM" where
  "fdt_parse_clint_node N nodeoffset for_timer clint =
     bindM (dev_addr N nodeoffset) (\<lambda>a.
     case a of None \<Rightarrow> retM (SBI_ENODEV, clint)
     | Some reg_addr \<Rightarrow>
         let clint = clint\<lparr>c_addr := reg_addr\<rparr> in
         bindM (fdt_getprop N nodeoffset (zstr ''interrupts-extended'')) (\<lambda>(val, count).
         case val of None \<Rightarrow> retM (SBI_EINVAL, clint)
         | Some val \<Rightarrow>
             if (scast count :: u64) < 4 then retM (SBI_EINVAL, clint)
             else bindM (clint_harts N val (if for_timer then 7 else 3) (nat (sint (ucast ((scast count :: u64) div 4) :: u32))) (- 1, 0, 0))
               (\<lambda>(lo, hi, hart_count).
               let clint = clint\<lparr>c_hart_count := hart_count\<rparr> in
               if hi < lo \<or> lo = - 1 then retM (SBI_ENODEV, clint)
               else retM (0, clint\<lparr>first_hartid := lo, c_hart_count := max hart_count (hi - lo + 1), has_64bit_mmio := True\<rparr>))))"

section \<open>Numbers in cells\<close>

lemma cell_step:
  "shl temp 32 OR ucast (be_word [a, b, c, d] :: u32) = foldl (\<lambda>v x. shl v 8 OR ucast x) temp [a, b, c, d]" for temp :: u64
proof (rule bit_word_eqI)
  fix i assume "i < LENGTH(64)"
  consider "i < 8" | "8 \<le> i" "i < 16" | "16 \<le> i" "i < 24" | "24 \<le> i" "i < 32" | "32 \<le> i" by linarith
  then show "bit (shl temp 32 OR ucast (be_word [a, b, c, d] :: u32)) i =
      bit (foldl (\<lambda>v x. shl v 8 OR ucast x) temp [a, b, c, d]) i"
    using \<open>i < LENGTH(64)\<close>
    by cases (auto simp: be_word_def shl_def bit_simps less_diff_conv2 dest: bit_imp_le_length)
qed

lemma read_cells_run:
  "p + 4 * n \<le> length fdt \<Longrightarrow>
   read_cells n p temp fdt = Ret (foldl (\<lambda>v x. shl v 8 OR ucast x) temp (blk fdt p (4 * n))) fdt"
proof (induction n arbitrary: p temp)
  case (Suc n)
  obtain a b c d where w: "blk fdt p 4 = [a, b, c, d]"
  proof -
    have "length (blk fdt p 4) = 4" using Suc.prems by simp
    then show thesis using that by (auto simp: numeral_eq_Suc length_Suc_conv)
  qed
  have "blk fdt p (4 * Suc n) = [a, b, c, d] @ blk fdt (p + 4) (4 * n)"
    unfolding w [symmetric] by (simp add: blk_def take_add [of 4] add.commute)
  then show ?case
    using Suc.IH [of "p + 4"] Suc.prems cell_step [of temp a b c d] by (simp add: run_simps ld32_run w)
qed (simp add: run_simps blk_def)

section \<open>The address of a device\<close>

abbreviation (input) key :: "string \<Rightarrow> u8 list" where "key s \<equiv> map of_char s"

text \<open>The number of cells a node declares for its children, with the default of the specification.\<close>

definition ncells :: "string \<Rightarrow> nat \<Rightarrow> dnode \<Rightarrow> nat" where
  "ncells k dflt t = (case map_of (nprops t) (key k) of None \<Rightarrow> dflt | Some v \<Rightarrow> unat (be_word v :: u32))"

definition cells_ok :: "string \<Rightarrow> dnode \<Rightarrow> bool" where
  "cells_ok k t \<longleftrightarrow> (case map_of (nprops t) (key k) of None \<Rightarrow> True | Some v \<Rightarrow> length v = 4 \<and> (be_word v :: u32) \<le> 4)"

lemma fdt_cells_run:
  assumes "stream_ok fdt ts strs N" "node_at noff ts q t" "tree_ok strs noff t" "0 \<notin> set (key k)" "cells_ok k t"
  shows "fdt_cells N (of_nat (boff q)) (zstr k) fdt =
    Ret (case map_of (nprops t) (key k) of None \<Rightarrow> - 1 | Some v \<Rightarrow> be_word v) fdt"
proof -
  have z: "key k @ [0] = zstr k" by (simp add: zstr_def)
  note g = node_getprop [OF assms(1-3) assms(4), unfolded z]
  show ?thesis
  proof (cases "map_of (nprops t) (key k)")
    case None
    then show ?thesis using g by (simp add: fdt_cells_def run_simps)
  next
    case (Some v)
    then have v: "length v = 4" "(be_word v :: u32) \<le> 4" using assms(5) by (auto simp: cells_ok_def)
    then obtain p where "fdt_getprop N (of_nat (boff q)) (zstr k) fdt = Ret (Some p, 4) fdt" "blk fdt p 4 = v" "p + 4 \<le> length fdt"
      using g Some by auto
    moreover have "\<not> 4 < (be_word v :: u32)" using v(2) by (simp only: not_less)
    ultimately show ?thesis using v(1) Some by (simp add: fdt_cells_def run_simps ld32_run)
  qed
qed

text \<open>A node whose parent declares usable cell counts and whose register property holds an address of that size.\<close>

definition reg_ok :: "dnode \<Rightarrow> dnode \<Rightarrow> bool" where
  "reg_ok root t \<longleftrightarrow> (\<exists>v. map_of (nprops t) (key ''reg'') = Some v \<and>
     (\<forall>t'\<in>set (nodes_of root). t \<in> set (nkids t') \<longrightarrow> cells_ok ''#address-cells'' t' \<and> cells_ok ''#size-cells'' t' \<and>
        1 \<le> ncells ''#address-cells'' 2 t' \<and> 4 * ncells ''#address-cells'' 2 t' \<le> length v))"

lemma keys_ok: "0 \<notin> set (key ''#address-cells'')" "0 \<notin> set (key ''#size-cells'')" "0 \<notin> set (key ''reg'')"
  by code_simp+

lemma minus_one_large: "\<not> (- 1 :: u32) \<le> 4"
  by code_simp

lemma addr_cells_run:
  assumes "stream_ok fdt ts strs N" "node_at noff ts q t" "tree_ok strs noff t" "cells_ok ''#address-cells'' t"
    "1 \<le> ncells ''#address-cells'' 2 t"
  shows "\<exists>a. fdt_address_cells N (of_nat (boff q)) fdt = Ret a fdt \<and> unat a = ncells ''#address-cells'' 2 t \<and> 1 \<le> sint a"
proof -
  define r :: u32 where "r = (case map_of (nprops t) (key ''#address-cells'') of None \<Rightarrow> 2 | Some v \<Rightarrow> be_word v)"
  have r: "unat r = ncells ''#address-cells'' 2 t" by (simp add: r_def ncells_def split: option.splits)
  have "r \<le> 4" using assms(4) by (auto simp: r_def cells_ok_def split: option.splits)
  then have r4: "unat r \<le> 4" by (simp add: word_le_nat_alt)
  have m: "r \<noteq> - 1" using \<open>r \<le> 4\<close> minus_one_large by auto
  have "sint r = int (unat r)" using sint_small [of "unat r"] r4 by simp
  moreover have "fdt_address_cells N (of_nat (boff q)) fdt = Ret r fdt"
    using fdt_cells_run [OF assms(1-3) keys_ok(1) assms(4)] r r4 m assms(5)
    by (auto simp: fdt_address_cells_def run_simps r_def split: option.splits)
  ultimately show ?thesis using r assms(5) by auto
qed

lemma size_cells_run:
  assumes "stream_ok fdt ts strs N" "node_at noff ts q t" "tree_ok strs noff t" "cells_ok ''#size-cells'' t"
  shows "\<exists>a. fdt_size_cells N (of_nat (boff q)) fdt = Ret a fdt \<and> unat a = ncells ''#size-cells'' 1 t \<and> \<not> neg a"
proof -
  define r :: u32 where "r = (case map_of (nprops t) (key ''#size-cells'') of None \<Rightarrow> 1 | Some v \<Rightarrow> be_word v)"
  have "r \<le> 4" using assms(4) by (auto simp: r_def cells_ok_def split: option.splits)
  then have r4: "unat r \<le> 4" by (simp add: word_le_nat_alt)
  have m: "r \<noteq> - 1" using \<open>r \<le> 4\<close> minus_one_large by auto
  have "\<not> neg r" using not_neg_small [of "unat r"] r4 by simp
  moreover have "fdt_size_cells N (of_nat (boff q)) fdt = Ret r fdt"
    using fdt_cells_run [OF assms(1-3) keys_ok(2) assms(4)] m
    by (auto simp: fdt_size_cells_def run_simps r_def split: option.splits)
  moreover have "unat r = ncells ''#size-cells'' 1 t" by (auto simp: r_def ncells_def split: option.splits)
  ultimately show ?thesis by auto
qed

lemma addr_run:
  assumes "stream_ok fdt (flatten noff root @ [TDone]) strs N" "tree_ok strs noff root"
    "(q, t, Some x) \<in> set (all_nodes noff root)" "0 < x" "reg_ok root t"
  shows "\<exists>t'\<in>set (nodes_of root). t \<in> set (nkids t') \<and>
    fdt_get_node_addr_size N (of_nat (boff q)) False fdt =
      Ret (0, Some (be_word (take (4 * ncells ''#address-cells'' 2 t') (the (map_of (nprops t) (key ''reg'')))), 0)) fdt"
proof -
  obtain q' t' where p: "(q', t', Some (x - 1)) \<in> set (all_nodes noff root)" "t \<in> set (nkids t')"
    "fdt_parent_offset N (of_nat (boff q)) fdt = Ret (of_nat (boff q')) fdt"
    using parent_run [OF assms(1,3,4)] by blast
  note at' = all_nodes_at [OF p(1)] and at = all_nodes_at [OF assms(3)]
  note ok' = tree_ok_nodes [OF assms(2) at'(2)] and ok = tree_ok_nodes [OF assms(2) at(2)]
  obtain v where v: "map_of (nprops t) (key ''reg'') = Some v" "cells_ok ''#address-cells'' t'" "cells_ok ''#size-cells'' t'"
    "1 \<le> ncells ''#address-cells'' 2 t'" "4 * ncells ''#address-cells'' 2 t' \<le> length v"
    using assms(5) at'(2) p(2) by (auto simp: reg_ok_def)
  obtain a where a: "fdt_address_cells N (of_nat (boff q')) fdt = Ret a fdt" "unat a = ncells ''#address-cells'' 2 t'" "1 \<le> sint a"
    using addr_cells_run [OF assms(1) at'(1) ok' v(2,4)] by blast
  obtain b where b: "fdt_size_cells N (of_nat (boff q')) fdt = Ret b fdt" "\<not> neg b"
    using size_cells_run [OF assms(1) at'(1) ok' v(3)] by blast
  have z: "key ''reg'' @ [0] = zstr ''reg''" by (simp add: zstr_def)
  obtain r where r: "fdt_getprop N (of_nat (boff q)) (zstr ''reg'') fdt = Ret (Some r, of_nat (length v)) fdt"
    "blk fdt r (length v) = v" "r + length v \<le> length fdt"
    using node_getprop [OF assms(1) at(1) ok keys_ok(3), unfolded z] v(1) by auto
  have "blk fdt r (4 * unat a) = take (4 * unat a) (blk fdt r (length v))" using v(5) a(2) by (simp add: blk_def min_def)
  then have "read_cells (unat a) r 0 fdt = Ret (be_word (take (4 * unat a) v)) fdt"
    using read_cells_run [of r "unat a" fdt 0] r v(5) a(2) by (simp add: be_word_def)
  moreover have "\<not> neg (of_nat (boff q'))" using stream_sizes(3) assms(1) at'(1) by (auto simp: node_at_def)
  ultimately have "fdt_get_node_addr_size N (of_nat (boff q)) False fdt = Ret (0, Some (be_word (take (4 * unat a) v), 0)) fdt"
    using p(3) a(1,3) b r(1) by (simp add: fdt_get_node_addr_size_def run_simps)
  then show ?thesis using at'(2) p(2) v(1) a(2) by auto
qed

text \<open>A tree with one device, on a bus with addresses of one cell.\<close>

definition dev_tree :: dnode where
  "dev_tree = DNode [] []
     [DNode (key ''soc'') [(key ''#address-cells'', [0, 0, 0, 1])]
        [DNode (key ''uart@10'') [(key ''compatible'', zstr ''ns16550'' @ zstr ''uart8250''), (key ''reg'', [16, 0, 0, 1, 0, 0, 16, 0])] []]]"

definition dev_strs :: "u8 list" where
  "dev_strs = zstr ''compatible'' @ zstr ''#address-cells'' @ zstr ''reg''"

definition dev_noff :: "u8 list \<Rightarrow> nat" where
  "dev_noff k = (if k = key ''compatible'' then 0 else if k = key ''reg'' then 26 else 11)"

definition dev_fdt :: "u8 list" where
  "dev_fdt = fdt_blob (flatten dev_noff dev_tree @ [TDone]) dev_strs"

lemma dev_image: "fdt_image dev_fdt (flatten dev_noff dev_tree @ [TDone]) dev_strs"
proof -
  have "56 + boff (flatten dev_noff dev_tree @ [TDone]) + length dev_strs < 1000" by code_simp
  then show ?thesis unfolding dev_fdt_def by (intro blob_image) (rule less_trans, assumption, simp)
qed

definition dev_uart :: dnode where
  "dev_uart = hd (nkids (hd (nkids dev_tree)))"

lemma dev_found: "find (compat (key ''uart8250'')) (nodes_of dev_tree) = Some dev_uart"
  by code_simp

lemma dev_reg_ok: "reg_ok dev_tree dev_uart"
proof -
  have "map_of (nprops dev_uart) (key ''reg'') = Some [16, 0, 0, 1, 0, 0, 16, 0]" by code_simp
  moreover have "\<forall>t'\<in>set (nodes_of dev_tree). dev_uart \<in> set (nkids t') \<longrightarrow> cells_ok ''#address-cells'' t' \<and>
      cells_ok ''#size-cells'' t' \<and> 1 \<le> ncells ''#address-cells'' 2 t' \<and> 4 * ncells ''#address-cells'' 2 t' \<le> 8"
    by code_simp
  ultimately show ?thesis unfolding reg_ok_def by auto
qed

text \<open>
  C11: the firmware finds the address of a device. On the image of a tree whose string lists are well formed,
  \<open>fdt_parse_compat_addr\<close> takes the first node in the order of the blob that lists the string as compatible, and
  returns the first number of its register property, with as many cells as the node's parent declares for
  addresses; when no node is compatible it returns the error of the search. The hypothesis on the node found excludes
  register properties that are too short, which the code does not check.
\<close>

theorem fdt_parse_compat_addr_correct:
  assumes "fdt_image fdt (flatten noff root @ [TDone]) strs" "tree_ok strs noff root" "length fdt \<le> N"
    "\<forall>t\<in>set (nodes_of root). compat_ok t" "0 \<notin> set c" "c \<noteq> []" "\<not> compat c root"
    "\<forall>t. find (compat c) (nodes_of root) = Some t \<longrightarrow> reg_ok root t"
  shows "case find (compat c) (nodes_of root) of
      None \<Rightarrow> fdt_parse_compat_addr N (c @ [0]) fdt = Ret (- 1, None) fdt
    | Some t \<Rightarrow> \<exists>t'\<in>set (nodes_of root). t \<in> set (nkids t') \<and>
        fdt_parse_compat_addr N (c @ [0]) fdt =
          Ret (0, Some (be_word (take (4 * ncells ''#address-cells'' 2 t') (the (map_of (nprops t) (key ''reg'')))))) fdt"
proof -
  note st = tree_stream [OF assms(1-3)]
  note bc = by_compatible_run [OF st assms(2,4-6)]
  show ?thesis
  proof (cases "find (compat c) (nodes_of root)")
    case None
    then show ?thesis using bc by (simp add: fdt_parse_compat_addr_def run_simps neg_m1)
  next
    case (Some t)
    then obtain q x where q: "(q, t, Some x) \<in> set (all_nodes noff root)"
      "fdt_node_offset_by_compatible N (- 1) (c @ [0]) fdt = Ret (of_nat (boff q)) fdt" using bc by auto
    have "0 < x"
    proof -
      have "t \<noteq> root" using find_in [OF Some] assms(7) by auto
      then show ?thesis using depths(1) [of "(q, t, Some x)" noff "[]" 0 root] q(1) by (auto simp: all_nodes_def)
    qed
    moreover have "reg_ok root t" using assms(8) Some by blast
    moreover have "\<not> neg (of_nat (boff q))" using stream_sizes(3) st all_nodes_at(1) [OF q(1)] by (auto simp: node_at_def)
    ultimately show ?thesis
      using addr_run [OF st assms(2) q(1)] q(2) Some by (fastforce simp: fdt_parse_compat_addr_def run_simps)
  qed
qed

theorem fdt_parse_compat_addr_correct_witness:
  "fdt_image dev_fdt (flatten dev_noff dev_tree @ [TDone]) dev_strs \<and> reg_ok dev_tree dev_uart \<and>
   fdt_parse_compat_addr 1000 (zstr ''uart8250'') dev_fdt = Ret (0, Some 0x10000001) dev_fdt"
proof -
  let ?c = "key ''uart8250''"
  have h: "tree_ok dev_strs dev_noff dev_tree" "length dev_fdt \<le> 1000" "\<forall>t\<in>set (nodes_of dev_tree). compat_ok t"
    "0 \<notin> set ?c" "?c \<noteq> []" "\<not> compat ?c dev_tree" "?c @ [0] = zstr ''uart8250''" by code_simp+
  have r: "\<forall>t. find (compat ?c) (nodes_of dev_tree) = Some t \<longrightarrow> reg_ok dev_tree t" using dev_found dev_reg_ok by simp
  have v: "\<forall>t'\<in>set (nodes_of dev_tree). dev_uart \<in> set (nkids t') \<longrightarrow>
      be_word (take (4 * ncells ''#address-cells'' 2 t') (the (map_of (nprops dev_uart) (key ''reg'')))) = (0x10000001 :: u64)"
    by code_simp
  obtain t' where "t' \<in> set (nodes_of dev_tree)" "dev_uart \<in> set (nkids t')" and e:
    "fdt_parse_compat_addr 1000 (?c @ [0]) dev_fdt =
      Ret (0, Some (be_word (take (4 * ncells ''#address-cells'' 2 t') (the (map_of (nprops dev_uart) (key ''reg'')))))) dev_fdt"
    using fdt_parse_compat_addr_correct [OF dev_image h(1-6) r, unfolded dev_found option.case] by blast
  then have "be_word (take (4 * ncells ''#address-cells'' 2 t') (the (map_of (nprops dev_uart) (key ''reg'')))) = (0x10000001 :: u64)"
    using v by blast
  with e show ?thesis using dev_image dev_reg_ok unfolding h(7) by (simp only:)
qed

end
