(* ===== verification/Fdt_Harts.thy ===== *)
theory Fdt_Harts
  imports Fdt_Helper
begin

text \<open>
  Harts and devices in the device tree: the children of a node one after the other, as \<^verbatim>\<open>fdt_for_each_subnode\<close> visits
  them, the hart id of a processor node, the hart behind the handle of an interrupt controller, and the registers of a device.
\<close>

section \<open>The children of a node\<close>

text \<open>The loop of \<open>fdt_next_subnode\<close> from where a call of \<open>fdt_next_node\<close> leaves it.\<close>

lemma next_subnode_scan:
  assumes "stream_ok fdt (ts @ us) strs N" "us \<noteq> []" "length us < k" "0 \<le> d" "d \<le> int (length ts)"
  shows "(case nn_out (nn ts us (Some d)) of (q, e) \<Rightarrow>
      (if neg q \<or> sint (the e) < 1 then retM (- FDT_ERR_NOTFOUND)
       else if sint (the e) > 1 then next_subnode_loop N k q (the e) else retM q) fdt) =
    Ret (case find (\<lambda>(p, n, e). e = Some 1) (visits ts us (Some d)) of None \<Rightarrow> - 1 | Some (p, _) \<Rightarrow> of_nat (boff p)) fdt"
  using assms
proof (induction us arbitrary: ts k d)
  case (Cons t us)
  obtain j where k: "k = Suc j" using Cons.prems(3) by (cases k) auto
  note sz = stream_sizes [OF Cons.prems(1)]
  have st: "stream_ok fdt ((ts @ [t]) @ us) strs N" "us \<noteq> []" if "t \<noteq> TDone"
    using stream_last [OF Cons.prems(1) that] by auto
  show ?case
  proof (cases t)
    case (TBegin n)
    have g: "fdt_next_node N (of_nat (boff ts)) (Some (of_int (d + 1))) fdt = Ret (nn_out (nn (ts @ [TBegin n]) us (Some (d + 1)))) fdt"
      using next_node_run [of fdt ts n us strs N "Some (d + 1)"] Cons.prems(1,4,5) sz st(2) by (simp add: TBegin)
    have d: "sint (of_int d + 1 :: u32) = d + 1" using sint_of_int [of "d + 1"] Cons.prems(4,5) sz by auto
    note ih = Cons.IH [of "ts @ [t]" j "d + 1"]
    obtain q e where "nn_out (nn (ts @ [TBegin n]) us (Some (d + 1))) = (q, e)" by fastforce
    then show ?thesis
      using g ih d sz(3) st Cons.prems
      by (cases "d = 0") (simp_all add: TBegin k nn_out_def [of "(Some ts, _)"] run_simps)
  next
    case TEnd
    show ?thesis
    proof (cases "d = 0")
      case True
      then show ?thesis by (simp add: TEnd nn_out_def k run_simps neg_m1)
    next
      case False
      then show ?thesis using Cons.IH [of "ts @ [t]" k "d - 1"] st Cons.prems TEnd by simp
    qed
  next
    case (TProp q v)
    then show ?thesis using Cons.IH [of "ts @ [t]" k d] st Cons.prems by auto
  next
    case TNop
    then show ?thesis using Cons.IH [of "ts @ [t]" k d] st Cons.prems by auto
  next
    case TDone
    then show ?thesis by (simp add: nn_out_def k run_simps neg_m1)
  qed
qed simp

text \<open>The places of the children \<open>ks\<close> of a node when \<open>ts\<close> are the tokens before the first of them.\<close>

fun kid_places :: "(u8 list \<Rightarrow> nat) \<Rightarrow> token list \<Rightarrow> dnode list \<Rightarrow> u32 list" where
  "kid_places noff ts [] = []"
| "kid_places noff ts (k # ks) = of_nat (boff ts) # kid_places noff (ts @ flatten noff k) ks"

text \<open>What the two calls return: the first place of a list, or that there is none.\<close>

definition first_or_none :: "u32 list \<Rightarrow> u32" where
  "first_or_none xs = (case xs of [] \<Rightarrow> - 1 | x # _ \<Rightarrow> x)"

lemma find_deep:
  assumes "1 < e"
  shows "find (\<lambda>(p, n, e). e = Some 1) (map visit_of (fnodes noff ts (Some e) ks)) = None"
proof -
  have "snd (snd x) \<noteq> Some 1" if "x \<in> set (fnodes noff ts (Some e) ks)" for x
    using depths(2) [OF that] assms by auto
  then show ?thesis unfolding find_None_iff by (fastforce simp: visit_of_def)
qed

lemma first_kid:
  "(case find (\<lambda>(p, n, e). e = Some 1) (map visit_of (fnodes noff ts (Some 1) ks)) of None \<Rightarrow> - 1 | Some (p, _) \<Rightarrow> of_nat (boff p)) =
   first_or_none (kid_places noff ts ks)"
proof (cases ks)
  case (Cons k ks')
  then show ?thesis by (cases k) (simp add: first_or_none_def visit_of_def)
qed (simp add: first_or_none_def)

lemma nn_props: "nn ts (map (ptok noff) ps @ us) d = nn (ts @ map (ptok noff) ps) us d"
  by (induction ps arbitrary: ts) (auto simp: ptok_def)

lemma first_subnode_run:
  assumes "stream_ok fdt (p @ flatten noff (DNode n ps ks) @ us) strs N"
  shows "fdt_first_subnode N (of_nat (boff p)) fdt = Ret (first_or_none (kid_places noff (p @ TBegin n # map (ptok noff) ps) ks)) fdt"
proof -
  let ?q = "p @ TBegin n # map (ptok noff) ps" and ?r = "map (ptok noff) ps @ flats noff ks @ TEnd # us"
  have st: "stream_ok fdt (p @ TBegin n # ?r) strs N" using assms by (simp add: flatten_eq del: flatten.simps)
  have st': "stream_ok fdt (?q @ flats noff ks @ TEnd # us) strs N" using st by simp
  note sz = stream_sizes [OF st] and nq = stream_sizes(3) [OF st']
  have nx: "nn (p @ [TBegin n]) ?r (Some 0) = (case ks of [] \<Rightarrow> (Some (?q @ [TEnd]), Some (- 1)) | k # _ \<Rightarrow> (Some ?q, Some 1))"
  proof (cases ks)
    case (Cons k ks')
    then show ?thesis by (cases k) (simp add: nn_props)
  qed (simp add: nn_props)
  have r: "?r \<noteq> []" by simp
  have "fdt_next_node N (of_nat (boff p)) (Some 0) fdt = Ret (nn_out (nn (p @ [TBegin n]) ?r (Some 0))) fdt"
    using next_node_run [OF st r, of "Some 0"] sz by simp
  then show ?thesis unfolding nx
    by (cases ks) (use nq in \<open>simp_all add: fdt_first_subnode_def run_simps nn_out_def first_or_none_def\<close>)
qed

lemma next_subnode_run:
  assumes "stream_ok fdt (p @ flatten noff k @ flats noff ks @ TEnd # us) strs N"
  shows "fdt_next_subnode N (of_nat (boff p)) fdt = Ret (first_or_none (kid_places noff (p @ flatten noff k) ks)) fdt"
proof -
  obtain n ps kk where k: "k = DNode n ps kk" by (cases k)
  let ?q = "p @ TBegin n # map (ptok noff) ps" and ?r = "map (ptok noff) ps @ flats noff kk @ TEnd # flats noff ks @ TEnd # us"
  have st: "stream_ok fdt (p @ TBegin n # ?r) strs N" "stream_ok fdt ((p @ [TBegin n]) @ ?r) strs N"
    using assms by (simp_all add: k flatten_eq del: flatten.simps)
  note sz = stream_sizes [OF st(1)]
  have r: "?r \<noteq> []" by simp
  obtain j where N: "N = Suc j" using sz(2) by (cases N) auto
  have v: "visits (p @ [TBegin n]) ?r (Some 1) = map visit_of (fnodes noff ?q (Some 2) kk) @
      map visit_of (fnodes noff (p @ flatten noff k) (Some 1) ks)"
    using visits_nodes(2) [of "Some 2" "Some 1" ?q noff kk "TEnd # flats noff ks @ TEnd # us"]
      visits_nodes(2) [of "Some 1" "Some 0" "p @ flatten noff k" noff ks "TEnd # us"] visits_props [of "p @ [TBegin n]"]
    by (simp add: k flatten_eq del: flatten.simps)
  obtain q e where qe: "nn_out (nn (p @ [TBegin n]) ?r (Some 1)) = (q, e)" by fastforce
  have "fdt_next_subnode N (of_nat (boff p)) fdt =
      (if neg q \<or> sint (the e) < 1 then retM (- FDT_ERR_NOTFOUND)
       else if sint (the e) > 1 then next_subnode_loop N j q (the e) else retM q) fdt"
    using next_node_run [OF st(1) r, of "Some 1"] sz qe by (simp add: fdt_next_subnode_def N run_simps)
  then show ?thesis
    using next_subnode_scan [OF st(2) r, of j 1] qe v sz first_kid [of noff "p @ flatten noff k" ks]
    by (simp add: N find_append find_deep)
qed

section \<open>Hart ids\<close>

text \<open>
  A processor node: its device type is the string \<^verbatim>\<open>cpu\<close>, and its hart id is the register property, of which
  the second cell counts when it has more than one. The code reads a register property of five to seven
  bytes past its end; well-formed nodes have whole cells.
\<close>

definition hart_of :: "dnode \<Rightarrow> u32 option" where
  "hart_of t =
     (if map_of (nprops t) (key ''device_type'') = Some (zstr ''cpu'') then
        (case map_of (nprops t) (key ''reg'') of None \<Rightarrow> None
         | Some v \<Rightarrow> if length v < 4 then None else Some (be_word (if 4 < length v then take 4 (drop 4 v) else v)))
      else None)"

definition hart_ok :: "dnode \<Rightarrow> bool" where
  "hart_ok t \<longleftrightarrow>
     (case map_of (nprops t) (key ''device_type'') of None \<Rightarrow> True | Some v \<Rightarrow> v = [] \<or> last v = 0 \<and> 0 \<notin> set (butlast v)) \<and>
     (case map_of (nprops t) (key ''reg'') of None \<Rightarrow> True | Some v \<Rightarrow> length v mod 4 = 0)"

lemma hart_keys: "0 \<notin> set (key ''device_type'')" "0 \<notin> set (key ''reg'')" "0 \<notin> set (key ''mmu-type'')"
  "0 \<notin> set (key ''phandle'')" "0 \<notin> set (key ''linux,phandle'')"
  by code_simp+

lemma node_prop:
  assumes "stream_ok fdt ts strs N" "node_at noff ts q t" "tree_ok strs noff t" "0 \<notin> set (key k)"
  shows "case map_of (nprops t) (key k) of
      None \<Rightarrow> fdt_getprop N (of_nat (boff q)) (zstr k) fdt = Ret (None, - 1) fdt
    | Some v \<Rightarrow> \<exists>p. fdt_getprop N (of_nat (boff q)) (zstr k) fdt = Ret (Some p, of_nat (length v)) fdt \<and>
        blk fdt p (length v) = v \<and> p + length v \<le> length fdt \<and> length v < 2 ^ 31"
  using node_getprop [OF assms] prop_value_small(1) [OF assms(1,2), of "key k"]
  by (auto simp: zstr_def split: option.splits)

lemma strcmp_run:
  assumes "blk fdt p (length v) = v" "p + length v \<le> length fdt" "v = x @ [0]" "0 \<notin> set x" "0 \<notin> set y"
  shows "\<exists>r. sbi_strcmp (drop p fdt) (y @ [0]) = Some r \<and> (r = 0 \<longleftrightarrow> x = y)"
proof -
  have d: "drop p fdt = x @ 0 # drop (length v) (drop p fdt)"
    using append_take_drop_id [of "length v" "drop p fdt"] assms(1,3) by (simp add: blk_def)
  have "terminated (drop p fdt) 0" "cstr (drop p fdt) 0 = x"
    using assms(4) by (subst d, fastforce simp: terminated_def cstr_def takeWhile_tail)+
  moreover have "terminated (y @ [0]) 0" "cstr (y @ [0]) 0 = y" using assms(5) by (fastforce simp: terminated_def cstr_def takeWhile_tail)+
  ultimately show ?thesis using strcmp_from_correct [of "drop p fdt" 0 "y @ [0]" 0] by (auto simp: sbi_strcmp_def)
qed

lemma small_length:
  assumes "n < 2 ^ 31"
  shows "(scast (of_nat n :: u32) :: u64) < 4 \<longleftrightarrow> n < 4" "4 < (scast (of_nat n :: u32) :: u64) \<longleftrightarrow> 4 < n"
    "(of_nat n :: u32) = 0 \<longleftrightarrow> n = 0"
  using offset64 [of 0 n] unat_small [of n] assms by (auto simp: word_less_nat_alt word_unat_eq_iff)

lemma hart_id_run:
  assumes "stream_ok fdt ts strs N" "node_at noff ts q t" "tree_ok strs noff t" "hart_ok t"
  shows "fdt_parse_hart_id N (of_nat (boff q)) fdt =
    Ret (case hart_of t of None \<Rightarrow> (SBI_EINVAL, 0) | Some h \<Rightarrow> (0, h)) fdt"
proof -
  note g = node_prop [OF assms(1-3)]
  have nq: "\<not> neg (of_nat (boff q))" using stream_sizes(3) assms(1,2) by (auto simp: node_at_def)
  have z: "zstr ''cpu'' = key ''cpu'' @ [0]" "0 \<notin> set (key ''cpu'')" by code_simp+
  have reg: "bindM (fdt_getprop N (of_nat (boff q)) (zstr ''reg'')) (\<lambda>(val, len).
      case val of None \<Rightarrow> retM (SBI_EINVAL, 0)
      | Some val \<Rightarrow> if (scast len :: u64) < 4 then retM (SBI_EINVAL, 0)
          else bindM (fdt32_ld (if (4 :: u64) < scast len then val + 4 else val)) (\<lambda>hartid. retM (0, hartid))) fdt =
    Ret (case map_of (nprops t) (key ''reg'') of None \<Rightarrow> (SBI_EINVAL, 0)
         | Some v \<Rightarrow> if length v < 4 then (SBI_EINVAL, 0) else (0, be_word (if 4 < length v then take 4 (drop 4 v) else v))) fdt"
  proof (cases "map_of (nprops t) (key ''reg'')")
    case None
    then show ?thesis using g [OF hart_keys(2)] by (simp add: run_simps)
  next
    case (Some v)
    then obtain p where p: "fdt_getprop N (of_nat (boff q)) (zstr ''reg'') fdt = Ret (Some p, of_nat (length v)) fdt"
      "blk fdt p (length v) = v" "p + length v \<le> length fdt" "length v < 2 ^ 31"
      using g [OF hart_keys(2)] by auto
    have m: "length v mod 4 = 0" using assms(4) Some by (simp add: hart_ok_def)
    have "8 \<le> length v" if "4 < length v" using that m by presburger
    moreover have "take 4 (drop 4 v) = blk fdt (p + 4) 4" if "8 \<le> length v"
      using that by (subst p(2) [symmetric]) (simp add: blk_def drop_take add.commute min_def)
    ultimately show ?thesis using p m Some
      by (cases "4 < length v"; cases "length v < 4") (auto simp: run_simps small_length [OF p(4)] ld32_run)
  qed
  show ?thesis
  proof (cases "map_of (nprops t) (key ''device_type'')")
    case None
    then show ?thesis using g [OF hart_keys(1)] nq by (simp add: fdt_parse_hart_id_def hart_of_def run_simps)
  next
    case (Some v)
    then obtain p where p: "fdt_getprop N (of_nat (boff q)) (zstr ''device_type'') fdt = Ret (Some p, of_nat (length v)) fdt"
      "blk fdt p (length v) = v" "p + length v \<le> length fdt" "length v < 2 ^ 31"
      using g [OF hart_keys(1)] by auto
    show ?thesis
    proof (cases "v = []")
      case True
      then show ?thesis using p(1) nq Some by (simp add: fdt_parse_hart_id_def hart_of_def run_simps z)
    next
      case False
      then have l: "last v = 0" "0 \<notin> set (butlast v)" using assms(4) Some by (simp_all add: hart_ok_def)
      then have x: "v = butlast v @ [0]" using append_butlast_last_id [OF False] by (simp only:)
      obtain r where r: "sbi_strcmp (drop p fdt) (zstr ''cpu'') = Some r" "r = 0 \<longleftrightarrow> butlast v = key ''cpu''"
        using strcmp_run [OF p(2,3) x l(2) z(2)] unfolding z(1) by blast
      have "v = zstr ''cpu'' \<longleftrightarrow> r = 0" using x r(2) unfolding z(1) by (metis append1_eq_conv)
      then show ?thesis using p(1) nq Some r(1) False reg small_length(3) [OF p(4)]
        by (auto simp: fdt_parse_hart_id_def hart_of_def run_simps on_blob_def split: option.splits)
    qed
  qed
qed

text \<open>The handle of a node.\<close>

definition phandle_of :: "dnode \<Rightarrow> u32" where
  "phandle_of t =
     (case map_of (nprops t) (key ''phandle'') of
        Some v \<Rightarrow> if length v = 4 then be_word v else
          (case map_of (nprops t) (key ''linux,phandle'') of Some v \<Rightarrow> if length v = 4 then be_word v else 0 | None \<Rightarrow> 0)
      | None \<Rightarrow> (case map_of (nprops t) (key ''linux,phandle'') of Some v \<Rightarrow> if length v = 4 then be_word v else 0 | None \<Rightarrow> 0))"

lemma length_eq_4: "length v < 2 ^ 31 \<Longrightarrow> (of_nat (length v) :: u32) = 4 \<longleftrightarrow> length v = 4"
  using unat_small [of "length v"] by (auto simp: word_unat_eq_iff)

lemma get_phandle_run:
  assumes "stream_ok fdt ts strs N" "node_at noff ts q t" "tree_ok strs noff t"
  shows "fdt_get_phandle N (of_nat (boff q)) fdt = Ret (phandle_of t) fdt"
  using node_prop [OF assms hart_keys(4)] node_prop [OF assms hart_keys(5)]
  by (auto simp: fdt_get_phandle_def phandle_of_def run_simps length_eq_4 ld32_run split: option.splits)

lemma by_phandle_run:
  assumes "stream_ok fdt (flatten noff root @ [TDone]) strs N" "tree_ok strs noff root" "ph \<noteq> 0" "ph \<noteq> - 1"
  shows "case find (\<lambda>t. phandle_of t = ph) (nodes_of root) of
      None \<Rightarrow> fdt_node_offset_by_phandle N ph fdt = Ret (- 1) fdt
    | Some t \<Rightarrow> \<exists>q x. (q, t, Some x) \<in> set (all_nodes noff root) \<and> fdt_node_offset_by_phandle N ph fdt = Ret (of_nat (boff q)) fdt"
proof -
  define test where "test = (\<lambda>offset. bindM (fdt_get_phandle N offset) (\<lambda>p. retM (if p = ph then Some offset else None)))"
  have te: "test (of_nat (boff q)) fdt = Ret (if phandle_of t = ph then Some (of_nat (boff q)) else None) fdt"
    if "(q, t, Some x) \<in> set (all_nodes noff root)" for q t x
    using get_phandle_run [OF assms(1) all_nodes_at(1) [OF that] tree_ok_nodes [OF assms(2) all_nodes_at(2) [OF that]]]
    by (simp add: test_def run_simps)
  have "fdt_image fdt (flatten noff root @ [TDone]) strs" using assms(1) by (simp add: stream_ok_def)
  from probe_run [OF this] have e: "fdt_node_offset_by_phandle N ph fdt = node_search N N test (- 1) fdt"
    using assms(3,4) by (simp add: fdt_node_offset_by_phandle_def FDT_RO_PROBE_def run_simps test_def)
  show ?thesis unfolding e by (rule node_search_run [OF assms(1)]) (rule te)
qed

section \<open>Interrupt controllers of harts\<close>

text \<open>
  The hart behind the handle of its interrupt controller: the node with the handle is a child of the processor node.
  Harts with an id behind the size of a hart mask are left out. The handle must name one node with one parent.
\<close>

definition node_parent :: "dnode \<Rightarrow> dnode \<Rightarrow> dnode option" where
  "node_parent root t = find (\<lambda>t'. t \<in> set (nkids t')) (nodes_of root)"

definition intc_of :: "dnode \<Rightarrow> u32 \<Rightarrow> u32 option" where
  "intc_of root ph =
     (if ph = 0 \<or> ph = - 1 then None
      else case find (\<lambda>t. phandle_of t = ph) (nodes_of root) of None \<Rightarrow> None
        | Some t \<Rightarrow> (case node_parent root t of None \<Rightarrow> None
            | Some t' \<Rightarrow> (case hart_of t' of None \<Rightarrow> None | Some h \<Rightarrow> if h < 128 then Some h else None)))"

definition intc_ok :: "dnode \<Rightarrow> u32 \<Rightarrow> bool" where
  "intc_ok root ph \<longleftrightarrow>
     (case find (\<lambda>t. phandle_of t = ph) (nodes_of root) of None \<Rightarrow> True
      | Some t \<Rightarrow> t \<noteq> root \<and> (\<forall>t'\<in>set (nodes_of root). t \<in> set (nkids t') \<longrightarrow> Some t' = node_parent root t))"

lemma inner_depth:
  assumes "(q, t, Some x) \<in> set (all_nodes noff root)" "t \<noteq> root"
  shows "0 < x"
  using depths(1) [of "(q, t, Some x)" noff "[]" 0 root] assms by (auto simp: all_nodes_def)

lemma node_place: "stream_ok fdt ts strs N \<Longrightarrow> node_at noff ts q t \<Longrightarrow> \<not> neg (of_nat (boff q))"
  using stream_sizes(3) by (auto simp: node_at_def)

lemma intc_run:
  assumes "stream_ok fdt (flatten noff root @ [TDone]) strs N" "tree_ok strs noff root" "\<forall>t\<in>set (nodes_of root). hart_ok t"
    "intc_ok root ph"
  shows "intc_hartid N ph fdt = Ret (intc_of root ph) fdt"
proof (cases "ph = 0 \<or> ph = - 1")
  case True
  then show ?thesis by (auto simp: intc_hartid_def intc_of_def fdt_node_offset_by_phandle_def run_simps neg_def)
next
  case ph: False
  then have ph': "ph \<noteq> 0" "ph \<noteq> - 1" by auto
  note bp = by_phandle_run [OF assms(1,2) ph']
  show ?thesis
  proof (cases "find (\<lambda>t. phandle_of t = ph) (nodes_of root)")
    case None
    then show ?thesis using bp by (simp add: intc_hartid_def intc_of_def run_simps neg_m1)
  next
    case (Some t)
    then obtain q x where q: "(q, t, Some x) \<in> set (all_nodes noff root)"
      "fdt_node_offset_by_phandle N ph fdt = Ret (of_nat (boff q)) fdt" using bp by auto
    have u: "t \<noteq> root" "\<And>t'. t' \<in> set (nodes_of root) \<Longrightarrow> t \<in> set (nkids t') \<Longrightarrow> node_parent root t = Some t'"
      using assms(4) Some by (auto simp: intc_ok_def)
    obtain q' t' where p: "(q', t', Some (x - 1)) \<in> set (all_nodes noff root)" "t \<in> set (nkids t')"
      "fdt_parent_offset N (of_nat (boff q)) fdt = Ret (of_nat (boff q')) fdt"
      using parent_run [OF assms(1) q(1) inner_depth [OF q(1) u(1)]] by blast
    note at = all_nodes_at [OF p(1)]
    have "fdt_parse_hart_id N (of_nat (boff q')) fdt = Ret (case hart_of t' of None \<Rightarrow> (SBI_EINVAL, 0) | Some h \<Rightarrow> (0, h)) fdt"
      using hart_id_run [OF assms(1) at(1) tree_ok_nodes [OF assms(2) at(2)]] assms(3) at(2) by blast
    then show ?thesis
      using q(2) p(3) ph Some u(2) [OF at(2) p(2)] node_place [OF assms(1) all_nodes_at(1) [OF q(1)]]
      by (auto simp: intc_hartid_def intc_of_def run_simps not_le split: option.splits)
  qed
qed

section \<open>Devices\<close>

text \<open>
  The register block of a device, address and size, in the cells its parent declares. The node must have one
  parent, with usable cell counts, and a register property that is long enough, which the code does not check.
\<close>

definition dev_region :: "dnode \<Rightarrow> dnode \<Rightarrow> ulong \<times> ulong" where
  "dev_region root t =
     (let t' = the (node_parent root t); v = the (map_of (nprops t) (key ''reg''));
          na = ncells ''#address-cells'' 2 t'; ns = ncells ''#size-cells'' 1 t'
      in (be_word (take (4 * na) v), be_word (take (4 * ns) (drop (4 * na) v))))"

definition bus_ok :: "dnode \<Rightarrow> dnode \<Rightarrow> bool" where
  "bus_ok root t \<longleftrightarrow> t \<noteq> root \<and> (\<forall>t'\<in>set (nodes_of root). t \<in> set (nkids t') \<longrightarrow>
     node_parent root t = Some t' \<and> cells_ok ''#address-cells'' t' \<and> cells_ok ''#size-cells'' t' \<and>
     1 \<le> ncells ''#address-cells'' 2 t' \<and>
     (case map_of (nprops t) (key ''reg'') of None \<Rightarrow> False
      | Some v \<Rightarrow> 4 * (ncells ''#address-cells'' 2 t' + ncells ''#size-cells'' 1 t') \<le> length v))"

lemma addr_size_run:
  assumes "stream_ok fdt (flatten noff root @ [TDone]) strs N" "tree_ok strs noff root"
    "(q, t, Some x) \<in> set (all_nodes noff root)" "bus_ok root t"
  shows "fdt_get_node_addr_size N (of_nat (boff q)) True fdt = Ret (0, Some (dev_region root t)) fdt"
proof -
  have nr: "t \<noteq> root" using assms(4) by (simp add: bus_ok_def)
  obtain q' t' where p: "(q', t', Some (x - 1)) \<in> set (all_nodes noff root)" "t \<in> set (nkids t')"
    "fdt_parent_offset N (of_nat (boff q)) fdt = Ret (of_nat (boff q')) fdt"
    using parent_run [OF assms(1,3) inner_depth [OF assms(3) nr]] by blast
  note at' = all_nodes_at [OF p(1)] and at = all_nodes_at [OF assms(3)]
  note ok' = tree_ok_nodes [OF assms(2) at'(2)] and ok = tree_ok_nodes [OF assms(2) at(2)]
  obtain v where v: "map_of (nprops t) (key ''reg'') = Some v" "cells_ok ''#address-cells'' t'" "cells_ok ''#size-cells'' t'"
    "1 \<le> ncells ''#address-cells'' 2 t'" "4 * (ncells ''#address-cells'' 2 t' + ncells ''#size-cells'' 1 t') \<le> length v"
    "node_parent root t = Some t'"
    using assms(4) at'(2) p(2) unfolding bus_ok_def by (metis (no_types, lifting) option.case_eq_if option.collapse)
  obtain a where a: "fdt_address_cells N (of_nat (boff q')) fdt = Ret a fdt" "unat a = ncells ''#address-cells'' 2 t'" "1 \<le> sint a"
    using addr_cells_run [OF assms(1) at'(1) ok' v(2,4)] by blast
  obtain b where b: "fdt_size_cells N (of_nat (boff q')) fdt = Ret b fdt" "unat b = ncells ''#size-cells'' 1 t'" "\<not> neg b"
    using size_cells_run [OF assms(1) at'(1) ok' v(3)] by blast
  obtain r where r: "fdt_getprop N (of_nat (boff q)) (zstr ''reg'') fdt = Ret (Some r, of_nat (length v)) fdt"
    "blk fdt r (length v) = v" "r + length v \<le> length fdt"
    using node_prop [OF assms(1) at(1) ok keys_ok(3)] v(1) by auto
  have "blk fdt r (4 * unat a) = take (4 * unat a) v" "blk fdt (r + 4 * unat a) (4 * unat b) = take (4 * unat b) (drop (4 * unat a) v)"
    using v(5) a(2) b(2) by (subst r(2) [symmetric], simp add: blk_def min_def drop_take add.commute)+
  then have "read_cells (unat a) r 0 fdt = Ret (fst (dev_region root t)) fdt"
    "read_cells (unat b) (r + 4 * unat a) 0 fdt = Ret (snd (dev_region root t)) fdt"
    using read_cells_run [of r "unat a" fdt 0] read_cells_run [of "r + 4 * unat a" "unat b" fdt 0] r(3) v a(2) b(2)
    by (simp_all add: be_word_def dev_region_def Let_def)
  then show ?thesis using p(3) a(1,3) b r(1) node_place [OF assms(1) at'(1)] by (simp add: fdt_get_node_addr_size_def run_simps)
qed

lemma dev_addr_run:
  assumes "stream_ok fdt (flatten noff root @ [TDone]) strs N" "tree_ok strs noff root"
    "(q, t, Some x) \<in> set (all_nodes noff root)" "bus_ok root t"
  shows "dev_addr N (of_nat (boff q)) fdt =
    Ret (if fst (dev_region root t) = 0 \<or> snd (dev_region root t) = 0 then None else Some (fst (dev_region root t))) fdt"
  using addr_size_run [OF assms] node_place [OF assms(1) all_nodes_at(1) [OF assms(3)]]
  by (cases "dev_region root t") (simp add: dev_addr_def run_simps)

lemma prop_or_run:
  assumes "stream_ok fdt ts strs N" "node_at noff ts q t" "tree_ok strs noff t" "0 \<notin> set (key k)"
    "case map_of (nprops t) (key k) of None \<Rightarrow> True | Some v \<Rightarrow> length v = 4"
  shows "prop_or N (of_nat (boff q)) (zstr k) d fdt =
    Ret (case map_of (nprops t) (key k) of None \<Rightarrow> d | Some v \<Rightarrow> ucast (be_word v :: u32)) fdt"
  using node_prop [OF assms(1-4)] assms(5) by (auto simp: prop_or_def run_simps ld32_run split: option.splits)

section \<open>Device tree readers inside larger computations\<close>

text \<open>A computation on the blob as one on a state that holds the blob in a field, with the field's selector and update.\<close>

definition zoom :: "('s \<Rightarrow> u8 list) \<Rightarrow> (u8 list \<Rightarrow> 's \<Rightarrow> 's) \<Rightarrow> 'a fdtM \<Rightarrow> 's \<Rightarrow> ('s, 'a) outcome" where
  "zoom get put m s = (case m (get s) of Ret x fdt \<Rightarrow> Ret x (put fdt s) | Halt h fdt \<Rightarrow> Halt h (put fdt s))"

locale fdt_field =
  fixes get :: "'s \<Rightarrow> u8 list" and put :: "u8 list \<Rightarrow> 's \<Rightarrow> 's"
  assumes put_get: "put (get s) s = s"
begin

lemma zoom_run: "m (get s) = Ret x (get s) \<Longrightarrow> zoom get put m s = Ret x s"
  by (simp add: zoom_def put_get)

end

text \<open>A search with a table of strings: the first string some node is compatible with, and a node that is.\<close>

lemma find_match_run:
  assumes "stream_ok fdt (flatten noff root @ [TDone]) strs N" "tree_ok strs noff root" "\<forall>t\<in>set (nodes_of root). compat_ok t"
    "\<forall>c\<in>set tbl. 0 \<notin> set c \<and> c \<noteq> []"
  shows "if \<exists>c\<in>set tbl. \<exists>t\<in>set (nodes_of root). compat c t
    then \<exists>n j. fdt_find_match N (- 1) (map (\<lambda>c. c @ [0]) tbl) fdt = Ret (n, Some j) fdt \<and> 0 \<le> n \<and> j < length tbl
    else fdt_find_match N (- 1) (map (\<lambda>c. c @ [0]) tbl) fdt = Ret (SBI_ENODEV, None) fdt"
proof -
  have "if \<exists>c\<in>set tbl. \<exists>t\<in>set (nodes_of root). compat c t
    then \<exists>n j. find_match_loop N (- 1) (map (\<lambda>c. c @ [0]) tbl) i fdt = Ret (n, Some j) fdt \<and> 0 \<le> n \<and> j < i + length tbl
    else find_match_loop N (- 1) (map (\<lambda>c. c @ [0]) tbl) i fdt = Ret (SBI_ENODEV, None) fdt" for i
    using assms(4)
  proof (induction tbl arbitrary: i)
    case (Cons c tbl)
    then have c: "0 \<notin> set c" "c \<noteq> []" by auto
    note b = by_compatible_run [OF assms(1-3) c]
    show ?case
    proof (cases "find (compat c) (nodes_of root)")
      case None
      then have "\<not> (\<exists>t\<in>set (nodes_of root). compat c t)" by (auto simp: find_None_iff)
      then show ?thesis using b None Cons.IH [of "i + 1"] Cons.prems by (simp add: run_simps neg_m1 cong: if_cong)
    next
      case (Some t)
      then obtain q x where q: "(q, t, Some x) \<in> set (all_nodes noff root)"
        "fdt_node_offset_by_compatible N (- 1) (c @ [0]) fdt = Ret (of_nat (boff q)) fdt" using b by auto
      have "\<exists>t\<in>set (nodes_of root). compat c t" using find_in [OF Some] by blast
      then show ?thesis using q(2) node_place [OF assms(1) all_nodes_at(1) [OF q(1)]] by (auto simp: run_simps neg_def)
    qed
  qed (simp add: run_simps)
  from this [of 0] show ?thesis unfolding fdt_find_match_def by (simp only: add_0)
qed

end
