(* ===== verification/Sys_Plic.thy ===== *)
theory Sys_Plic
  imports Fdt_Harts
begin

text \<open>
  The platform-level interrupt controller: the register accesses of \<^verbatim>\<open>lib/utils/irqchip/plic.c\<close>, the driver that takes
  controllers and the contexts of harts from the device tree, \<^verbatim>\<open>lib/utils/irqchip/fdt_irqchip_plic.c\<close>, and the selection of
  the driver in \<^verbatim>\<open>lib/utils/irqchip/fdt_irqchip.c\<close>.

  Registers are a map from addresses to 32-bit words. A structure \<open>plic_data\<close> of the driver is named by its index in
  the driver's array, a null pointer is \<open>None\<close>. The device tree is the one in the second argument of the firmware.
  Offsets of registers are computed in 32 bits before they are added to the base address, as in the code.
\<close>

section \<open>The controller\<close>

datatype fdt_irqchip = fdt_irqchip_plic

record irqchip =
  irq_fdt :: "u8 list"
  plic_regs :: "ulong \<Rightarrow> u32"
  plic_count :: nat
  plic :: "plic_data list"
  plic_hartid2data :: "nat option list"
  plic_hartid2context :: "(int \<times> int) list"
  irq_driver :: "fdt_irqchip option"

type_synonym 'a irqM = "irqchip \<Rightarrow> (irqchip, 'a) outcome"

abbreviation (input) PLIC_PRIORITY_BASE :: ulong where "PLIC_PRIORITY_BASE \<equiv> 0"
abbreviation (input) PLIC_ENABLE_BASE :: ulong where "PLIC_ENABLE_BASE \<equiv> 0x2000"
abbreviation (input) PLIC_ENABLE_STRIDE :: u32 where "PLIC_ENABLE_STRIDE \<equiv> 0x80"
abbreviation (input) PLIC_CONTEXT_BASE :: ulong where "PLIC_CONTEXT_BASE \<equiv> 0x200000"
abbreviation (input) PLIC_CONTEXT_STRIDE :: u32 where "PLIC_CONTEXT_STRIDE \<equiv> 0x1000"
abbreviation (input) PLIC_MAX_NR :: nat where "PLIC_MAX_NR \<equiv> 16"

definition plic_writel :: "u32 \<Rightarrow> ulong \<Rightarrow> unit irqM" where
  "plic_writel val a = modM (\<lambda>s. s\<lparr>plic_regs := (plic_regs s)(a := val)\<rparr>)"

definition plic_set_priority :: "plic_data \<Rightarrow> u32 \<Rightarrow> u32 \<Rightarrow> unit irqM" where
  "plic_set_priority pd source val = plic_writel val (plic_addr pd + PLIC_PRIORITY_BASE + ucast (4 * source))"

definition plic_set_thresh :: "plic_data option \<Rightarrow> u32 \<Rightarrow> u32 \<Rightarrow> unit irqM" where
  "plic_set_thresh pd cntxid val =
     (case pd of None \<Rightarrow> retM ()
      | Some pd \<Rightarrow> plic_writel val (plic_addr pd + PLIC_CONTEXT_BASE + ucast (PLIC_CONTEXT_STRIDE * cntxid)))"

definition plic_set_ie :: "plic_data option \<Rightarrow> u32 \<Rightarrow> u32 \<Rightarrow> u32 \<Rightarrow> unit irqM" where
  "plic_set_ie pd cntxid word_index val =
     (case pd of None \<Rightarrow> retM ()
      | Some pd \<Rightarrow> plic_writel val (plic_addr pd + PLIC_ENABLE_BASE + ucast (PLIC_ENABLE_STRIDE * cntxid) + ucast (word_index * 4)))"

definition plic_warm_irqchip_init :: "plic_data option \<Rightarrow> int \<Rightarrow> int \<Rightarrow> int irqM" where
  "plic_warm_irqchip_init pd m_cntx_id s_cntx_id =
     (case pd of None \<Rightarrow> retM SBI_EINVAL
      | Some p \<Rightarrow>
          let ie_words = num_src p div 32 + 1 in
          seqM (whenM (m_cntx_id > - 1) (forM [0..<unat ie_words] (\<lambda>i. plic_set_ie pd (of_int m_cntx_id) (of_nat i) 0)))
         (seqM (whenM (s_cntx_id > - 1) (forM [0..<unat ie_words] (\<lambda>i. plic_set_ie pd (of_int s_cntx_id) (of_nat i) 0)))
         (seqM (whenM (m_cntx_id > - 1) (plic_set_thresh pd (of_int m_cntx_id) 7))
         (seqM (whenM (s_cntx_id > - 1) (plic_set_thresh pd (of_int s_cntx_id) 7))
         (retM 0)))))"

text \<open>The counter is a signed 32-bit integer; the increment that overflows it is an undefined operation.\<close>

definition plic_cold_irqchip_init :: "plic_data option \<Rightarrow> int irqM" where
  "plic_cold_irqchip_init pd =
     (case pd of None \<Rightarrow> retM SBI_EINVAL
      | Some p \<Rightarrow>
          seqM (forM [1..<Suc (min (unat (num_src p)) (2 ^ 31 - 1))] (\<lambda>i. plic_set_priority p (of_nat i) 0))
            (if unat (num_src p) < 2 ^ 31 - 1 then retM 0 else haltM BadAccess))"

section \<open>The driver\<close>

text \<open>Computations on the device tree inside computations of the driver.\<close>

definition on_fdt :: "'a fdtM \<Rightarrow> 'a irqM" where
  "on_fdt = zoom irq_fdt (\<lambda>fdt s. s\<lparr>irq_fdt := fdt\<rparr>)"

interpretation irq_field: fdt_field irq_fdt "\<lambda>fdt s. s\<lparr>irq_fdt := fdt\<rparr>"
  by unfold_locales simp

definition irqchip_plic_warm_init :: "nat \<Rightarrow> int irqM" where
  "irqchip_plic_warm_init hartid =
     bindM (getM (\<lambda>s. rd (plic_hartid2data s) hartid)) (\<lambda>e. bindM (liftO e) (\<lambda>e.
     bindM (getM (\<lambda>s. rd (plic_hartid2context s) hartid)) (\<lambda>c. bindM (liftO c) (\<lambda>(m, sx).
     bindM (getM (\<lambda>s. case e of None \<Rightarrow> Some None | Some p \<Rightarrow> map_option Some (rd (plic s) p))) (\<lambda>pd.
     bindM (liftO pd) (\<lambda>pd. plic_warm_irqchip_init pd m sx))))))"

text \<open>The entry of one pair of cells: the structure of the hart, and its context for the machine or supervisor mode.\<close>

definition set_context :: "nat \<Rightarrow> nat \<Rightarrow> u32 \<Rightarrow> u32 \<Rightarrow> unit irqM" where
  "set_context pd i hwirq hartid =
     bindM (getM (\<lambda>s. wr (plic_hartid2data s) (unat hartid) (Some pd))) (\<lambda>t. bindM (liftO t) (\<lambda>t.
     seqM (modM (\<lambda>s. s\<lparr>plic_hartid2data := t\<rparr>))
    (bindM (getM (\<lambda>s. rd (plic_hartid2context s) (unat hartid))) (\<lambda>c. bindM (liftO c) (\<lambda>(m, sx).
     let c = (if hwirq = 11 then (int i, sx) else if hwirq = 9 then (m, int i) else (m, sx)) in
     modM (\<lambda>s. s\<lparr>plic_hartid2context := (plic_hartid2context s)[unat hartid := c]\<rparr>))))))"

text \<open>The loop over the pairs of cells: \<open>i\<close> is the number of the pair, the last argument the number of cells left.\<close>

fun update_loop :: "nat \<Rightarrow> nat \<Rightarrow> nat \<Rightarrow> nat \<Rightarrow> nat \<Rightarrow> unit irqM" where
  "update_loop N pd val i 0 = retM ()"
| "update_loop N pd val i (Suc n) =
     bindM (on_fdt (fdt32_ld val)) (\<lambda>phandle.
     bindM (on_fdt (fdt32_ld (val + 4))) (\<lambda>hwirq.
     bindM (on_fdt (intc_hartid N phandle)) (\<lambda>h.
     seqM (case h of None \<Rightarrow> retM () | Some hartid \<Rightarrow> set_context pd i hwirq hartid)
       (update_loop N pd (val + 8) (i + 1) (n - 1)))))"

definition irqchip_plic_update_hartid_table :: "nat \<Rightarrow> u32 \<Rightarrow> nat \<Rightarrow> int irqM" where
  "irqchip_plic_update_hartid_table N nodeoff pd =
     bindM (on_fdt (fdt_getprop N nodeoff (zstr ''interrupts-extended''))) (\<lambda>(val, count).
     case val of None \<Rightarrow> retM SBI_EINVAL
     | Some val \<Rightarrow>
         if (scast count :: u64) < 4 then retM SBI_EINVAL
         else seqM (update_loop N pd val 0 (nat (sint (ucast ((scast count :: u64) div 4) :: u32)))) (retM 0))"

definition irqchip_plic_cold_init :: "nat \<Rightarrow> u32 \<Rightarrow> int irqM" where
  "irqchip_plic_cold_init N nodeoff =
     bindM (getM plic_count) (\<lambda>n.
     if PLIC_MAX_NR \<le> n then retM SBI_ENOSPC
     else
       seqM (modM (\<lambda>s. s\<lparr>plic_count := n + 1\<rparr>))
      (bindM (getM (\<lambda>s. rd (plic s) n)) (\<lambda>pd. bindM (liftO pd) (\<lambda>pd.
       bindM (on_fdt (fdt_parse_plic_node N nodeoff pd)) (\<lambda>(rc, pd).
       seqM (modM (\<lambda>s. s\<lparr>plic := (plic s)[n := pd]\<rparr>))
      (if rc \<noteq> 0 then retM rc
       else bindM (plic_cold_irqchip_init (Some pd)) (\<lambda>rc.
         if rc \<noteq> 0 then retM rc
         else
           seqM (whenM (n + 1 = 1) (modM (\<lambda>s. s\<lparr>plic_hartid2data := replicate SBI_HARTMASK_MAX_BITS None,
                   plic_hartid2context := replicate SBI_HARTMASK_MAX_BITS (- 1, - 1)\<rparr>)))
             (irqchip_plic_update_hartid_table N nodeoff n))))))))"

definition irqchip_plic_match :: "u8 list list" where
  "irqchip_plic_match = [zstr ''riscv,plic0'', zstr ''sifive,plic-1.0.0'']"

section \<open>The selection of the driver\<close>

text \<open>The driver has no exit function.\<close>

definition fdt_irqchip_exit :: "unit irqM" where
  "fdt_irqchip_exit = bindM (getM irq_driver) (\<lambda>d. case d of None \<Rightarrow> retM () | Some fdt_irqchip_plic \<Rightarrow> retM ())"

definition fdt_irqchip_warm_init :: "nat \<Rightarrow> int irqM" where
  "fdt_irqchip_warm_init hartid =
     bindM (getM irq_driver) (\<lambda>d. case d of None \<Rightarrow> retM 0 | Some fdt_irqchip_plic \<Rightarrow> irqchip_plic_warm_init hartid)"

text \<open>The loop over the nodes that match the table of the only driver; \<open>k\<close> bounds the number of nodes.\<close>

primrec irqchip_nodes :: "nat \<Rightarrow> nat \<Rightarrow> u32 \<Rightarrow> int irqM" where
  "irqchip_nodes N 0 noff = haltM Spin"
| "irqchip_nodes N (Suc k) noff =
     bindM (on_fdt (fdt_find_match N noff irqchip_plic_match)) (\<lambda>(noff, _).
     if noff < 0 then retM 0
     else bindM (irqchip_plic_cold_init N (of_int noff)) (\<lambda>rc.
       if rc \<noteq> 0 then retM rc
       else seqM (modM (\<lambda>s. s\<lparr>irq_driver := Some fdt_irqchip_plic\<rparr>)) (irqchip_nodes N k (of_int noff))))"

definition fdt_irqchip_cold_init :: "nat \<Rightarrow> int irqM" where
  "fdt_irqchip_cold_init N = irqchip_nodes N N (- 1)"

definition fdt_irqchip_init :: "nat \<Rightarrow> nat \<Rightarrow> bool \<Rightarrow> int irqM" where
  "fdt_irqchip_init N hartid cold_boot =
     (if cold_boot then
        bindM (fdt_irqchip_cold_init N) (\<lambda>rc. if rc \<noteq> 0 then retM rc else fdt_irqchip_warm_init hartid)
      else fdt_irqchip_warm_init hartid)"

section \<open>Registers\<close>

text \<open>
  The registers of a controller: the priority of a source, a word of the enable bits of a context, the threshold of a
  context. There are at most 1023 sources and 15872 contexts, and within these bounds no two registers share an address.
\<close>

definition prio_reg :: "plic_data \<Rightarrow> nat \<Rightarrow> ulong" where
  "prio_reg p i = plic_addr p + of_nat (4 * i)"

definition ie_reg :: "plic_data \<Rightarrow> nat \<Rightarrow> nat \<Rightarrow> ulong" where
  "ie_reg p c w = plic_addr p + of_nat (0x2000 + 0x80 * c + 4 * w)"

definition thresh_reg :: "plic_data \<Rightarrow> nat \<Rightarrow> ulong" where
  "thresh_reg p c = plic_addr p + of_nat (0x200000 + 0x1000 * c)"

lemmas reg_defs = prio_reg_def ie_reg_def thresh_reg_def

lemma of_nat_eq_small: "a < 2 ^ 32 \<Longrightarrow> b < 2 ^ 32 \<Longrightarrow> (of_nat a :: ulong) = of_nat b \<longleftrightarrow> a = b"
  by (simp add: word_unat_eq_iff unsigned_of_nat take_bit_nat_eq_self)

lemma word_of_context:
  assumes "w < 32" "w' < 32" "128 * c + 4 * w = 128 * c' + 4 * (w' :: nat)"
  shows "c = c' \<and> w = w'"
proof -
  have "(128 * c + 4 * w) div 128 = c" "(128 * c' + 4 * w') div 128 = c'" using assms(1,2) by simp_all
  then show ?thesis using assms(3) by simp
qed

lemma regs_disjoint:
  assumes "c < 15872" "w < 32" "i < 1024" "c' < 15872"
  shows "prio_reg p i \<noteq> ie_reg p c w" "prio_reg p i \<noteq> thresh_reg p c" "thresh_reg p c' \<noteq> ie_reg p c w"
  using assms by (simp_all add: reg_defs of_nat_eq_small del: of_nat_add of_nat_mult)

lemma regs_distinct:
  assumes "c < 15872" "c' < 15872"
  shows "thresh_reg p c = thresh_reg p c' \<longleftrightarrow> c = c'"
    "w < 32 \<Longrightarrow> w' < 32 \<Longrightarrow> ie_reg p c w = ie_reg p c' w' \<longleftrightarrow> c = c' \<and> w = w'"
proof -
  show "thresh_reg p c = thresh_reg p c' \<longleftrightarrow> c = c'"
    using assms by (simp add: reg_defs of_nat_eq_small del: of_nat_add of_nat_mult)
  assume w: "w < 32" "w' < 32"
  have "ie_reg p c w = ie_reg p c' w' \<longleftrightarrow> 0x2000 + 0x80 * c + 4 * w = 0x2000 + 0x80 * c' + 4 * w'"
    unfolding ie_reg_def using of_nat_eq_small [of "0x2000 + 0x80 * c + 4 * w" "0x2000 + 0x80 * c' + 4 * w'"] assms w
    by (simp del: of_nat_add of_nat_mult)
  also have "\<dots> \<longleftrightarrow> c = c' \<and> w = w'" using word_of_context [OF w, of c c'] by auto
  finally show "ie_reg p c w = ie_reg p c' w' \<longleftrightarrow> c = c' \<and> w = w'" .
qed

lemma ucast_of_nat_small: "n < 2 ^ 32 \<Longrightarrow> (ucast (of_nat n :: u32) :: ulong) = of_nat n"
  by (simp add: word_unat_eq_iff unsigned_ucast_eq unsigned_of_nat take_bit_nat_eq_self)

lemma set_priority_eq:
  assumes "i < 1024"
  shows "plic_set_priority p (of_nat i) v = plic_writel v (prio_reg p i)"
  using ucast_of_nat_small [of "4 * i"] assms by (simp add: plic_set_priority_def prio_reg_def)

lemma set_ie_eq:
  assumes "c < 15872" "w < 32"
  shows "plic_set_ie (Some p) (of_nat c) (of_nat w) v = plic_writel v (ie_reg p c w)"
  using ucast_of_nat_small [of "0x80 * c"] ucast_of_nat_small [of "w * 4"] assms
  by (simp add: plic_set_ie_def ie_reg_def ac_simps)

lemma set_thresh_eq:
  assumes "c < 15872"
  shows "plic_set_thresh (Some p) (of_nat c) v = plic_writel v (thresh_reg p c)"
  using ucast_of_nat_small [of "0x1000 * c"] assms by (simp add: plic_set_thresh_def thresh_reg_def ac_simps)

definition fill :: "ulong set \<Rightarrow> u32 \<Rightarrow> (ulong \<Rightarrow> u32) \<Rightarrow> ulong \<Rightarrow> u32" where
  "fill A v R = (\<lambda>a. if a \<in> A then v else R a)"

lemma forM_writes:
  assumes "\<And>i. i \<in> set xs \<Longrightarrow> f i = plic_writel v (g i)"
  shows "forM xs f s = Ret () (s\<lparr>plic_regs := fill (g ` set xs) v (plic_regs s)\<rparr>)"
  using assms
proof (induction xs arbitrary: s)
  case (Cons x xs)
  then show ?case by (simp add: run_simps plic_writel_def) (auto simp: fill_def fun_eq_iff)
qed (simp add: run_simps fill_def)

lemma cold_run:
  assumes "num_src p \<le> 1023"
  shows "plic_cold_irqchip_init (Some p) s =
    Ret 0 (s\<lparr>plic_regs := fill (prio_reg p ` {1..unat (num_src p)}) 0 (plic_regs s)\<rparr>)"
proof -
  have n: "unat (num_src p) \<le> 1023" using assms by (simp add: word_le_nat_alt)
  have "forM [1..<Suc (unat (num_src p))] (\<lambda>i. plic_set_priority p (of_nat i) 0) s =
      Ret () (s\<lparr>plic_regs := fill (prio_reg p ` set [1..<Suc (unat (num_src p))]) 0 (plic_regs s)\<rparr>)"
    by (rule forM_writes) (use n in \<open>auto intro: set_priority_eq\<close>)
  moreover have "set [1..<Suc (unat (num_src p))] = {1..unat (num_src p)}" by auto
  moreover have "min (unat (num_src p)) (2 ^ 31 - 1) = unat (num_src p)" using n by simp
  ultimately show ?thesis using n by (simp add: plic_cold_irqchip_init_def run_simps del: upt_Suc)
qed

text \<open>The contexts of a hart, of which -1 is none, and their registers.\<close>

definition ctx :: "int \<Rightarrow> nat set" where
  "ctx c = (if 0 \<le> c then {nat c} else {})"

definition ie_regs :: "plic_data \<Rightarrow> nat set \<Rightarrow> ulong set" where
  "ie_regs p T = (\<Union>c\<in>T. ie_reg p c ` {..unat (num_src p) div 32})"

lemma fill_fill: "fill A v (fill B v R) = fill (B \<union> A) v R"
  by (auto simp: fill_def)

lemma fill_none: "fill {} v R = R"
  by (simp add: fill_def)

lemma ie_regs_simps: "ie_regs p {} = {}" "ie_regs p (S \<union> T) = ie_regs p S \<union> ie_regs p T"
  by (simp_all add: ie_regs_def)

lemma ie_words:
  assumes "num_src p \<le> 1023"
  shows "unat (num_src p div 32 + 1) = Suc (unat (num_src p) div 32)"
proof -
  have "unat (num_src p) \<le> 1023" using assms by (simp add: word_le_nat_alt)
  moreover have "unat (num_src p div 32) = unat (num_src p) div 32"
    using unat_div_distrib [of "num_src p" 32] by simp
  moreover have "unat (x + 1) = Suc (unat x)" if "unat x \<le> 1023" for x :: ulong
    using that unat_plus_if' [of x 1] by simp
  ultimately show ?thesis by simp
qed

lemma warm_ie:
  assumes "num_src p \<le> 1023" "c < 15872"
  shows "whenM (c > - 1) (forM [0..<unat (num_src p div 32 + 1)] (\<lambda>i. plic_set_ie (Some p) (of_int c) (of_nat i) 0)) s =
    Ret () (s\<lparr>plic_regs := fill (ie_regs p (ctx c)) 0 (plic_regs s)\<rparr>)"
proof (cases "0 \<le> c")
  case True
  have n: "unat (num_src p) \<le> 1023" using assms(1) by (simp add: word_le_nat_alt)
  have k: "unat (num_src p div 32 + 1) = Suc (unat (num_src p) div 32)" by (rule ie_words [OF assms(1)])
  obtain d where d: "c = int d" using True by (cases c) auto
  have "forM [0..<Suc (unat (num_src p) div 32)] (\<lambda>i. plic_set_ie (Some p) (of_nat d) (of_nat i) 0) s =
      Ret () (s\<lparr>plic_regs := fill (ie_reg p d ` set [0..<Suc (unat (num_src p) div 32)]) 0 (plic_regs s)\<rparr>)"
  proof (rule forM_writes)
    fix i assume "i \<in> set [0..<Suc (unat (num_src p) div 32)]"
    then have "i < 32" using n by (simp only: set_upt atLeastLessThan_iff) linarith
    then show "plic_set_ie (Some p) (of_nat d) (of_nat i) 0 = plic_writel 0 (ie_reg p d i)"
      using set_ie_eq [of d i p 0] assms(2) d by simp
  qed
  moreover have "set [0..<Suc (unat (num_src p) div 32)] = {..unat (num_src p) div 32}" by auto
  moreover have "c > - 1" "ctx c = {d}" "(of_int c :: u32) = of_nat d" by (simp_all add: d ctx_def)
  moreover have "ie_regs p {d} = ie_reg p d ` {..unat (num_src p) div 32}" by (simp only: ie_regs_def SUP_insert) simp
  ultimately show ?thesis by (simp only: whenM_def if_True k)
next
  case False
  then show ?thesis by (simp add: whenM_def ie_regs_simps ctx_def fill_none run_simps)
qed

lemma warm_thresh:
  assumes "c < 15872"
  shows "whenM (c > - 1) (plic_set_thresh (Some p) (of_int c) 7) s =
    Ret () (s\<lparr>plic_regs := fill (thresh_reg p ` ctx c) 7 (plic_regs s)\<rparr>)"
proof (cases "0 \<le> c")
  case True
  then obtain d where d: "c = int d" by (cases c) auto
  moreover have "plic_set_thresh (Some p) (of_nat d) 7 s = Ret () (s\<lparr>plic_regs := fill (thresh_reg p ` {d}) 7 (plic_regs s)\<rparr>)"
    using set_thresh_eq [of d p 7] assms d by (simp add: plic_writel_def modM_def fill_def fun_upd_def)
  moreover have "c > - 1" "ctx c = {d}" "(of_int c :: u32) = of_nat d" by (simp_all add: d ctx_def)
  ultimately show ?thesis by (simp only: whenM_def if_True)
next
  case False
  then show ?thesis by (simp add: whenM_def fill_none run_simps ctx_def)
qed

lemma warm_run:
  assumes "num_src p \<le> 1023" "m < 15872" "sx < 15872"
  shows "plic_warm_irqchip_init (Some p) m sx s =
    Ret 0 (s\<lparr>plic_regs := fill (thresh_reg p ` (ctx m \<union> ctx sx)) 7 (fill (ie_regs p (ctx m \<union> ctx sx)) 0 (plic_regs s))\<rparr>)"
  unfolding plic_warm_irqchip_init_def option.case Let_def
  by (simp only: seqM_def bindM_def warm_ie [OF assms(1,2)] warm_ie [OF assms(1,3)] warm_thresh [OF assms(2)]
      warm_thresh [OF assms(3)] outcome.case retM_def) (simp add: fill_fill ie_regs_simps image_Un)

section \<open>Contexts in the device tree\<close>

lemma on_fdt_run: "m (irq_fdt s) = Ret x (irq_fdt s) \<Longrightarrow> on_fdt m s = Ret x s"
  unfolding on_fdt_def by (rule irq_field.zoom_run)

text \<open>The pairs of a handle and an interrupt number; the position of a pair is the number of a context.\<close>

definition ext_pairs :: "u8 list \<Rightarrow> (u32 \<times> u32) list" where
  "ext_pairs v = map (\<lambda>i. (be_word (blk v (8 * i) 4), be_word (blk v (8 * i + 4) 4))) [0..<length v div 8]"

definition put_context :: "nat \<Rightarrow> u32 \<Rightarrow> int \<times> int \<Rightarrow> int \<times> int" where
  "put_context i hwirq c = (if hwirq = 11 then (int i, snd c) else if hwirq = 9 then (fst c, int i) else c)"

fun route :: "dnode \<Rightarrow> nat \<Rightarrow> nat \<times> u32 \<times> u32 \<Rightarrow> nat option list \<times> (int \<times> int) list \<Rightarrow> nat option list \<times> (int \<times> int) list" where
  "route root pd (i, ph, hwirq) (D, C) =
     (case intc_of root ph of None \<Rightarrow> (D, C)
      | Some h \<Rightarrow> (D[unat h := Some pd], C[unat h := put_context i hwirq (C ! unat h)]))"

definition set_tables :: "irqchip \<Rightarrow> nat option list \<times> (int \<times> int) list \<Rightarrow> irqchip" where
  "set_tables s t = s\<lparr>plic_hartid2data := fst t, plic_hartid2context := snd t\<rparr>"

lemma intc_of_small: "intc_of root ph = Some h \<Longrightarrow> unat h < 128"
  by (auto simp: intc_of_def word_less_nat_alt split: if_splits option.splits)

lemma route_lengths: "length (fst (route root pd x t)) = length (fst t)" "length (snd (route root pd x t)) = length (snd t)"
  by (cases x; cases t; auto split: option.splits)+

lemma set_context_run:
  assumes "length (fst t) = 128" "length (snd t) = 128" "intc_of root ph = Some h"
  shows "set_context pd i hwirq h (set_tables s t) = Ret () (set_tables s (route root pd (i, ph, hwirq) t))"
  using assms intc_of_small [OF assms(3)]
  by (cases t) (simp add: set_context_def set_tables_def run_simps rd_def wr_def put_context_def Let_def split: prod.splits)

lemma blk_blk: "i + k \<le> n \<Longrightarrow> blk (blk m p n) i k = blk m (p + i) k"
  by (simp add: blk_def drop_take add.commute min_def)

lemma ext_pairs_blk:
  assumes "p + 8 * n \<le> length m"
  shows "ext_pairs (blk m p (8 * n)) = map (\<lambda>i. (be_word (blk m (p + 8 * i) 4), be_word (blk m (p + 8 * i + 4) 4))) [0..<n]"
proof -
  have "length (blk m p (8 * n)) div 8 = n" using assms by (simp add: blk_def)
  then show ?thesis by (auto simp: ext_pairs_def blk_blk add.assoc)
qed

lemma ext_pairs_step:
  assumes "p + 8 * Suc n \<le> length m"
  shows "ext_pairs (blk m p (8 * Suc n)) = (be_word (blk m p 4), be_word (blk m (p + 4) 4)) # ext_pairs (blk m (p + 8) (8 * n))"
  unfolding ext_pairs_blk [OF assms] using ext_pairs_blk [of "p + 8" n m] assms
  by (simp add: upt_conv_Cons map_Suc_upt [symmetric] ac_simps del: upt_Suc)

lemma update_loop_run:
  assumes "stream_ok fdt (flatten noff root @ [TDone]) strs N" "tree_ok strs noff root" "\<forall>t\<in>set (nodes_of root). hart_ok t"
    "irq_fdt s = fdt" "length (fst t) = 128" "length (snd t) = 128"
    "blk fdt val (8 * n) = v" "val + 8 * n \<le> length fdt" "\<forall>x\<in>set (ext_pairs v). intc_ok root (fst x)"
  shows "update_loop N pd val i (2 * n) (set_tables s t) =
    Ret () (set_tables s (fold (route root pd) (zip [i..<i + n] (ext_pairs v)) t))"
  using assms(5-)
proof (induction n arbitrary: val i v t)
  case 0
  then show ?case by (simp add: ext_pairs_def run_simps)
next
  case (Suc n)
  obtain ph irq :: u32 where w: "be_word (blk fdt val 4) = ph" "be_word (blk fdt (val + 4) 4) = irq" by auto
  have e: "ext_pairs v = (ph, irq) # ext_pairs (blk fdt (val + 8) (8 * n))"
    using ext_pairs_step [of val n fdt] Suc.prems(3,4) w by simp
  have h: "on_fdt (intc_hartid N ph) (set_tables s t) = Ret (intc_of root ph) (set_tables s t)"
    using intc_run [OF assms(1-3), of ph] Suc.prems(5) assms(4) by (intro on_fdt_run) (simp add: e set_tables_def)
  have l: "on_fdt (fdt32_ld val) (set_tables s t) = Ret ph (set_tables s t)"
    "on_fdt (fdt32_ld (val + 4)) (set_tables s t) = Ret irq (set_tables s t)"
    using Suc.prems(4) w assms(4) by (auto intro!: on_fdt_run simp: ld32_run set_tables_def)
  have "(case intc_of root ph of None \<Rightarrow> retM () | Some hartid \<Rightarrow> set_context pd i irq hartid) (set_tables s t) =
      Ret () (set_tables s (route root pd (i, ph, irq) t))"
    using set_context_run [OF Suc.prems(1,2)] by (cases t) (auto simp: run_simps split: option.splits)
  then show ?case
    using Suc.IH [of "route root pd (i, ph, irq) t" "val + 8" "blk fdt (val + 8) (8 * n)" "i + 1"] Suc.prems h l
    by (simp add: e run_simps route_lengths upt_conv_Cons del: upt_Suc)
qed

text \<open>
  The last context of a hart for an interrupt number, -1 when there is none, is what the table holds for the hart
  after all pairs.
\<close>

definition intc_hart :: "dnode \<Rightarrow> u32 \<Rightarrow> nat option" where
  "intc_hart root ph = map_option unat (intc_of root ph)"

definition hart_pairs :: "dnode \<Rightarrow> u32 \<Rightarrow> nat \<Rightarrow> (u32 \<times> u32) list \<Rightarrow> nat list" where
  "hart_pairs root irq h xs = filter (\<lambda>i. intc_hart root (fst (xs ! i)) = Some h \<and> snd (xs ! i) = irq) [0..<length xs]"

definition hart_context :: "dnode \<Rightarrow> u32 \<Rightarrow> nat \<Rightarrow> (u32 \<times> u32) list \<Rightarrow> int" where
  "hart_context root irq h xs = (if hart_pairs root irq h xs = [] then - 1 else int (last (hart_pairs root irq h xs)))"

definition tables :: "dnode \<Rightarrow> nat \<Rightarrow> (u32 \<times> u32) list \<Rightarrow> nat option list \<times> (int \<times> int) list" where
  "tables root pd xs = fold (route root pd) (zip [0..<length xs] xs) (replicate 128 None, replicate 128 (- 1, - 1))"

lemma hart_pairs_snoc:
  "hart_pairs root irq h (xs @ [x]) =
   hart_pairs root irq h xs @ (if intc_hart root (fst x) = Some h \<and> snd x = irq then [length xs] else [])"
proof -
  have "filter (\<lambda>i. intc_hart root (fst ((xs @ [x]) ! i)) = Some h \<and> snd ((xs @ [x]) ! i) = irq) [0..<length xs] =
      hart_pairs root irq h xs"
    unfolding hart_pairs_def by (rule filter_cong) (auto simp: nth_append)
  then show ?thesis unfolding hart_pairs_def [of _ _ _ "xs @ [x]"] by simp
qed

lemma hart_context_snoc:
  "hart_context root irq h (xs @ [x]) =
   (if intc_hart root (fst x) = Some h \<and> snd x = irq then int (length xs) else hart_context root irq h xs)"
  by (simp add: hart_context_def hart_pairs_snoc)

lemma tables_snoc: "tables root pd (xs @ [x]) = route root pd (length xs, x) (tables root pd xs)"
  by (simp add: tables_def)

lemma tables_lengths: "length (fst (tables root pd xs)) = 128" "length (snd (tables root pd xs)) = 128"
proof (induction xs rule: rev_induct)
  case (snoc x xs)
  { case 1 show ?case using snoc by (simp add: tables_snoc route_lengths) next
    case 2 show ?case using snoc by (simp add: tables_snoc route_lengths) }
qed (simp_all add: tables_def)

lemma tables_contexts:
  assumes "h < 128"
  shows "snd (tables root pd xs) ! h = (hart_context root 11 h xs, hart_context root 9 h xs)"
proof (induction xs rule: rev_induct)
  case Nil
  then show ?case using assms by (simp add: tables_def hart_context_def hart_pairs_def)
next
  case (snoc x xs)
  obtain D C ph irq where e: "tables root pd xs = (D, C)" "x = (ph, irq)" by fastforce
  show ?case using snoc tables_lengths [of root pd xs] assms
    by (auto simp: tables_snoc e hart_context_snoc put_context_def nth_list_update intc_hart_def split: option.splits)
qed

lemma tables_data:
  assumes "h < 128"
  shows "fst (tables root pd xs) ! h = (if \<exists>x\<in>set xs. intc_hart root (fst x) = Some h then Some pd else None)"
proof (induction xs rule: rev_induct)
  case Nil
  then show ?case using assms by (simp add: tables_def)
next
  case (snoc x xs)
  obtain D C ph irq where e: "tables root pd xs = (D, C)" "x = (ph, irq)" by fastforce
  show ?case using snoc tables_lengths [of root pd xs] intc_of_small [of root ph] assms
    by (cases "\<exists>x\<in>set xs. intc_hart root (fst x) = Some h"; cases "intc_of root ph")
      (auto simp: tables_snoc e nth_list_update intc_hart_def [of root ph])
qed

text \<open>The registers after all writes, by register.\<close>

definition quiet_regs :: "plic_data \<Rightarrow> nat set \<Rightarrow> (ulong \<Rightarrow> u32) \<Rightarrow> ulong \<Rightarrow> u32" where
  "quiet_regs p T R = fill (thresh_reg p ` T) 7 (fill (ie_regs p T) 0 (fill (prio_reg p ` {1..unat (num_src p)}) 0 R))"

lemma reg_members:
  assumes "num_src p \<le> 1023" "T \<subseteq> {..<15872}" "c < 15872"
  shows "thresh_reg p c \<in> thresh_reg p ` T \<longleftrightarrow> c \<in> T" "thresh_reg p c \<notin> ie_regs p T"
    "thresh_reg p c \<notin> prio_reg p ` {1..unat (num_src p)}"
    "w < 32 \<Longrightarrow> ie_reg p c w \<notin> thresh_reg p ` T" "w < 32 \<Longrightarrow> ie_reg p c w \<in> ie_regs p T \<longleftrightarrow> c \<in> T \<and> w \<le> unat (num_src p) div 32"
    "w < 32 \<Longrightarrow> ie_reg p c w \<notin> prio_reg p ` {1..unat (num_src p)}"
proof -
  have n: "unat (num_src p) \<le> 1023" using assms(1) by (simp add: word_le_nat_alt)
  have T: "d < 15872" if "d \<in> T" for d using that assms(2) by auto
  have w: "v < 32" if "v \<le> unat (num_src p) div 32" for v using that n by linarith
  have P: "v < 32 \<Longrightarrow> ie_reg p c v \<noteq> prio_reg p i" "thresh_reg p c \<noteq> prio_reg p i" if "i \<le> unat (num_src p)" for i v
    using regs_disjoint(1) [of c v i 0 p] regs_disjoint(2) [of c 0 i 0 p] that n assms(3) by auto
  show "thresh_reg p c \<in> thresh_reg p ` T \<longleftrightarrow> c \<in> T" using regs_distinct(1) [OF assms(3) T] by blast
  show "thresh_reg p c \<notin> ie_regs p T"
    unfolding ie_regs_def using regs_disjoint(3) [of _ _ 0 c p] T w assms(3) by auto
  show "thresh_reg p c \<notin> prio_reg p ` {1..unat (num_src p)}"
    using P(2) by (fastforce simp: image_iff)
  assume v: "w < 32"
  show "ie_reg p c w \<notin> thresh_reg p ` T" using regs_disjoint(3) [of c w 0 _ p] T v assms(3) by (metis (no_types) imageE zero_less_numeral)
  show "ie_reg p c w \<in> ie_regs p T \<longleftrightarrow> c \<in> T \<and> w \<le> unat (num_src p) div 32"
    unfolding ie_regs_def using regs_distinct(2) [OF assms(3) T v \<open>\<And>v. _ \<Longrightarrow> v < 32\<close>] by blast
  show "ie_reg p c w \<notin> prio_reg p ` {1..unat (num_src p)}"
    using P(1) v by (fastforce simp: image_iff)
qed

lemma quiet_regs_values:
  assumes "num_src p \<le> 1023" "T \<subseteq> {..<15872}"
  shows "i \<in> {1..unat (num_src p)} \<Longrightarrow> quiet_regs p T R (prio_reg p i) = 0"
    "c < 15872 \<Longrightarrow> quiet_regs p T R (thresh_reg p c) = (if c \<in> T then 7 else R (thresh_reg p c))"
    "c < 15872 \<Longrightarrow> w < 32 \<Longrightarrow> c \<notin> T \<Longrightarrow> quiet_regs p T R (ie_reg p c w) = R (ie_reg p c w)"
    "c < 15872 \<Longrightarrow> w \<le> unat (num_src p) div 32 \<Longrightarrow> c \<in> T \<Longrightarrow> quiet_regs p T R (ie_reg p c w) = 0"
proof -
  note m = reg_members [OF assms]
  have n: "unat (num_src p) \<le> 1023" using assms(1) by (simp add: word_le_nat_alt)
  show "quiet_regs p T R (thresh_reg p c) = (if c \<in> T then 7 else R (thresh_reg p c))" if "c < 15872"
    using m(1-3) [OF that] by (simp add: quiet_regs_def fill_def)
  show "quiet_regs p T R (ie_reg p c w) = R (ie_reg p c w)" if "c < 15872" "w < 32" "c \<notin> T"
    using m(4-6) [OF that(1,2)] that(3) by (simp add: quiet_regs_def fill_def)
  show "quiet_regs p T R (ie_reg p c w) = 0" if "c < 15872" "w \<le> unat (num_src p) div 32" "c \<in> T"
  proof -
    have "w < 32" using that(2) n by linarith
    then show ?thesis using m(4,5) [OF that(1), of w] that(2,3) by (simp add: quiet_regs_def fill_def)
  qed
  assume i: "i \<in> {1..unat (num_src p)}"
  have "prio_reg p i \<noteq> thresh_reg p c" if "c \<in> T" for c using regs_disjoint(2) [of c 0 i 0 p] i n that assms(2) by force
  then have "prio_reg p i \<notin> thresh_reg p ` T" by blast
  then show "quiet_regs p T R (prio_reg p i) = 0" using i by (simp add: quiet_regs_def fill_def)
qed

definition context_quiet :: "plic_data \<Rightarrow> nat \<Rightarrow> (ulong \<Rightarrow> u32) \<Rightarrow> bool" where
  "context_quiet p c R \<longleftrightarrow> R (thresh_reg p c) = 7 \<and> (\<forall>w\<le>unat (num_src p) div 32. R (ie_reg p c w) = 0)"

definition context_kept :: "plic_data \<Rightarrow> nat \<Rightarrow> (ulong \<Rightarrow> u32) \<Rightarrow> (ulong \<Rightarrow> u32) \<Rightarrow> bool" where
  "context_kept p c R R' \<longleftrightarrow> R' (thresh_reg p c) = R (thresh_reg p c) \<and> (\<forall>w<32. R' (ie_reg p c w) = R (ie_reg p c w))"

lemma quiet_contexts:
  assumes "num_src p \<le> 1023" "T \<subseteq> {..<15872}" "c < 15872"
  shows "c \<in> T \<Longrightarrow> context_quiet p c (quiet_regs p T R)" "c \<notin> T \<Longrightarrow> context_kept p c R (quiet_regs p T R)"
  using quiet_regs_values(2-4) [OF assms] by (simp_all add: context_quiet_def context_kept_def)

lemma context_set:
  assumes "length (hart_pairs root irq h xs) \<le> 1"
  shows "ctx (hart_context root irq h xs) = set (hart_pairs root irq h xs)"
  using assms by (cases "hart_pairs root irq h xs") (auto simp: hart_context_def ctx_def)

lemma context_bound: "length xs \<le> 15872 \<Longrightarrow> hart_context root irq h xs < 15872"
proof -
  assume l: "length xs \<le> 15872"
  have "last (hart_pairs root irq h xs) < length xs" if "hart_pairs root irq h xs \<noteq> []"
    using last_in_set [OF that] by (auto simp: hart_pairs_def)
  then show ?thesis using l by (auto simp: hart_context_def)
qed

section \<open>The controller of a device tree\<close>

text \<open>The structure and the pairs of a controller's node, and what the node must look like.\<close>

definition plic_of :: "dnode \<Rightarrow> dnode \<Rightarrow> plic_data" where
  "plic_of root t =
     \<lparr>plic_addr = fst (dev_region root t), num_src = ucast (be_word (the (map_of (nprops t) (key ''riscv,ndev''))) :: u32)\<rparr>"

definition pairs_of :: "dnode \<Rightarrow> (u32 \<times> u32) list" where
  "pairs_of t = ext_pairs (the (map_of (nprops t) (key ''interrupts-extended'')))"

definition plic_node_ok :: "dnode \<Rightarrow> dnode \<Rightarrow> bool" where
  "plic_node_ok root t \<longleftrightarrow> bus_ok root t \<and> fst (dev_region root t) \<noteq> 0 \<and> snd (dev_region root t) \<noteq> 0 \<and>
     (case map_of (nprops t) (key ''riscv,ndev'') of None \<Rightarrow> False | Some v \<Rightarrow> length v = 4 \<and> be_word v \<le> (1023 :: u32)) \<and>
     (case map_of (nprops t) (key ''interrupts-extended'') of None \<Rightarrow> False
      | Some v \<Rightarrow> v \<noteq> [] \<and> length v mod 8 = 0 \<and> length v div 8 \<le> 15872 \<and> (\<forall>x\<in>set (ext_pairs v). intc_ok root (fst x)))"

lemma plic_keys: "0 \<notin> set (key ''riscv,ndev'')" "0 \<notin> set (key ''interrupts-extended'')"
  by code_simp+

lemma plic_node_run:
  assumes "stream_ok fdt (flatten noff root @ [TDone]) strs N" "tree_ok strs noff root"
    "(q, t, Some x) \<in> set (all_nodes noff root)" "plic_node_ok root t"
  shows "fdt_parse_plic_node N (of_nat (boff q)) pd fdt = Ret (0, plic_of root t) fdt" "num_src (plic_of root t) \<le> 1023"
proof -
  note at = all_nodes_at [OF assms(3)]
  note ok = tree_ok_nodes [OF assms(2) at(2)]
  obtain v where v: "map_of (nprops t) (key ''riscv,ndev'') = Some v" "length v = 4" "be_word v \<le> (1023 :: u32)"
    using assms(4) by (auto simp: plic_node_ok_def split: option.splits)
  have p: "prop_or N (of_nat (boff q)) (zstr ''riscv,ndev'') d fdt = Ret (ucast (be_word v :: u32)) fdt" for d
    using prop_or_run [OF assms(1) at(1) ok plic_keys(1), of d] v by simp
  have a: "dev_addr N (of_nat (boff q)) fdt = Ret (Some (fst (dev_region root t))) fdt"
    using dev_addr_run [OF assms(1-3)] assms(4) by (simp add: plic_node_ok_def)
  have "pd\<lparr>plic_addr := fst (dev_region root t), num_src := ucast (be_word v :: u32)\<rparr> = plic_of root t"
    using v(1) by (cases pd) (simp add: plic_of_def)
  then show "fdt_parse_plic_node N (of_nat (boff q)) pd fdt = Ret (0, plic_of root t) fdt"
    using a p by (simp add: fdt_parse_plic_node_def run_simps)
  have "unat (be_word v :: u32) \<le> 1023" using v(3) by (simp add: word_le_nat_alt)
  then show "num_src (plic_of root t) \<le> 1023" using v(1)
    by (simp add: plic_of_def word_le_nat_alt unsigned_ucast_eq order.trans [OF take_bit_nat_less_eq_self])
qed

lemma ucast_is_of_nat: "(ucast x :: u32) = of_nat (unat x)" for x :: u64
  by (simp add: word_unat_eq_iff unsigned_ucast_eq unsigned_of_nat)

lemma cell_count: "n < 2 ^ 31 \<Longrightarrow> nat (sint (ucast ((scast (of_nat n :: u32) :: u64) div 4) :: u32)) = n div 4"
proof -
  assume n: "n < 2 ^ 31"
  have "unat ((scast (of_nat n :: u32) :: u64) div 4) = n div 4"
    using offset64 [of 0 n] n unat_div_distrib [of "scast (of_nat n :: u32) :: u64" 4] by simp
  then have "(ucast ((scast (of_nat n :: u32) :: u64) div 4) :: u32) = of_nat (n div 4)"
    using ucast_is_of_nat [of "(scast (of_nat n :: u32) :: u64) div 4"] by simp
  then show ?thesis using sint_small [of "n div 4"] n by simp
qed

lemma update_table_run:
  assumes "stream_ok fdt (flatten noff root @ [TDone]) strs N" "tree_ok strs noff root" "\<forall>t\<in>set (nodes_of root). hart_ok t"
    "(q, t, Some x) \<in> set (all_nodes noff root)" "plic_node_ok root t" "irq_fdt s = fdt"
  shows "irqchip_plic_update_hartid_table N (of_nat (boff q)) pd (set_tables s (replicate 128 None, replicate 128 (- 1, - 1))) =
    Ret 0 (set_tables s (tables root pd (pairs_of t)))"
proof -
  note at = all_nodes_at [OF assms(4)]
  note ok = tree_ok_nodes [OF assms(2) at(2)]
  let ?s = "set_tables s (replicate 128 None, replicate 128 (- 1, - 1))"
  obtain v where v: "map_of (nprops t) (key ''interrupts-extended'') = Some v" "v \<noteq> []" "length v mod 8 = 0"
    "\<forall>x\<in>set (ext_pairs v). intc_ok root (fst x)"
    using assms(5) by (auto simp: plic_node_ok_def split: option.splits)
  obtain p where p: "fdt_getprop N (of_nat (boff q)) (zstr ''interrupts-extended'') fdt = Ret (Some p, of_nat (length v)) fdt"
    "blk fdt p (length v) = v" "p + length v \<le> length fdt" "length v < 2 ^ 31"
    using node_prop [OF assms(1) at(1) ok plic_keys(2)] v(1) by auto
  obtain n where n: "length v = 8 * n" using v(3) by (auto dest: dvd_imp_mod_0 simp: mod_eq_0_iff_dvd elim: dvdE)
  have l: "\<not> (scast (of_nat (length v) :: u32) :: u64) < 4" using small_length(1) [OF p(4)] v(2) n by auto
  have c: "nat (sint (ucast ((scast (of_nat (length v) :: u32) :: u64) div 4) :: u32)) = 2 * n"
    using cell_count [OF p(4)] n by simp
  have e: "length (ext_pairs v) = n" by (simp add: ext_pairs_def n)
  have "on_fdt (fdt_getprop N (of_nat (boff q)) (zstr ''interrupts-extended'')) ?s = Ret (Some p, of_nat (length v)) ?s"
    using p(1) assms(6) by (intro on_fdt_run) (simp add: set_tables_def)
  moreover have "update_loop N pd p 0 (2 * n) ?s = Ret () (set_tables s (tables root pd (pairs_of t)))"
    using update_loop_run [OF assms(1-3,6), of "(replicate 128 None, replicate 128 (- 1, - 1))" p n v pd 0] p(2,3) n v(1,4)
    by (simp add: tables_def pairs_of_def e)
  ultimately show ?thesis using l c by (simp add: irqchip_plic_update_hartid_table_def run_simps)
qed

lemma cold_init_run:
  assumes "stream_ok fdt (flatten noff root @ [TDone]) strs N" "tree_ok strs noff root" "\<forall>t\<in>set (nodes_of root). hart_ok t"
    "(q, t, Some x) \<in> set (all_nodes noff root)" "plic_node_ok root t"
    "irq_fdt s = fdt" "plic_count s = 0" "length (plic s) = PLIC_MAX_NR"
  shows "irqchip_plic_cold_init N (of_nat (boff q)) s =
    Ret 0 (set_tables (s\<lparr>plic_count := 1, plic := (plic s)[0 := plic_of root t],
      plic_regs := fill (prio_reg (plic_of root t) ` {1..unat (num_src (plic_of root t))}) 0 (plic_regs s)\<rparr>)
      (tables root 0 (pairs_of t)))"
proof -
  let ?p = "plic_of root t"
  let ?s = "s\<lparr>plic_count := 1, plic := (plic s)[0 := ?p],
    plic_regs := fill (prio_reg ?p ` {1..unat (num_src ?p)}) 0 (plic_regs s)\<rparr>"
  note pn = plic_node_run [OF assms(1,2,4,5)]
  have f: "on_fdt (fdt_parse_plic_node N (of_nat (boff q)) (plic s ! 0)) (s\<lparr>plic_count := 1\<rparr>) =
      Ret (0, ?p) (s\<lparr>plic_count := 1\<rparr>)"
    using pn(1) assms(6) by (intro on_fdt_run) simp
  have u: "irqchip_plic_update_hartid_table N (of_nat (boff q)) 0
      (?s\<lparr>plic_hartid2data := replicate 128 None, plic_hartid2context := replicate 128 (- 1, - 1)\<rparr>) =
      Ret 0 (set_tables ?s (tables root 0 (pairs_of t)))"
    using update_table_run [OF assms(1-5), of ?s 0] assms(6) by (simp add: set_tables_def)
  have "plic s \<noteq> []" using assms(8) by auto
  then show ?thesis using f u assms(7,8) cold_run [OF pn(2), of "s\<lparr>plic_count := 1, plic := (plic s)[0 := ?p]\<rparr>"]
    by (simp add: irqchip_plic_cold_init_def run_simps rd_def)
qed

lemma warm_init_run:
  assumes "h < 128" "plic_hartid2data s = fst (tables root 0 xs)" "plic_hartid2context s = snd (tables root 0 xs)"
    "rd (plic s) 0 = Some p" "num_src p \<le> 1023" "length xs \<le> 15872"
    "length (hart_pairs root 11 h xs) \<le> 1" "length (hart_pairs root 9 h xs) \<le> 1"
  shows "irqchip_plic_warm_init h s =
    (if \<exists>x\<in>set xs. intc_hart root (fst x) = Some h
     then Ret 0 (s\<lparr>plic_regs := fill (thresh_reg p ` (set (hart_pairs root 11 h xs) \<union> set (hart_pairs root 9 h xs))) 7
       (fill (ie_regs p (set (hart_pairs root 11 h xs) \<union> set (hart_pairs root 9 h xs))) 0 (plic_regs s))\<rparr>)
     else Ret SBI_EINVAL s)"
  using assms tables_lengths [of root 0 xs] tables_data [OF assms(1), of root 0 xs] tables_contexts [OF assms(1), of root 0 xs]
    warm_run [OF assms(5) context_bound [OF assms(6)] context_bound [OF assms(6)], of root 11 h root 9 h s]
  by (simp add: irqchip_plic_warm_init_def run_simps rd_def context_set plic_warm_irqchip_init_def [of None])

text \<open>The nodes the driver takes: those compatible with one of its two strings.\<close>

definition is_plic :: "dnode \<Rightarrow> bool" where
  "is_plic t \<longleftrightarrow> compat (key ''riscv,plic0'') t \<or> compat (key ''sifive,plic-1.0.0'') t"

lemma plic_strings: "irqchip_plic_match = [key ''riscv,plic0'' @ [0], key ''sifive,plic-1.0.0'' @ [0]]"
  "0 \<notin> set (key ''riscv,plic0'')" "key ''riscv,plic0'' \<noteq> []"
  "0 \<notin> set (key ''sifive,plic-1.0.0'')" "key ''sifive,plic-1.0.0'' \<noteq> []"
  by code_simp+

lemma filter_single:
  assumes "filter Q xs = [t]" "\<And>x. P x \<Longrightarrow> Q x" "find P xs = Some u"
  shows "u = t"
proof -
  have "u \<in> set (filter Q xs)" using find_in [OF assms(3)] assms(2) by auto
  then show ?thesis using assms(1) by simp
qed

lemma first_match_run:
  assumes "stream_ok fdt (flatten noff root @ [TDone]) strs N" "tree_ok strs noff root"
    "\<forall>t\<in>set (nodes_of root). compat_ok t" "filter is_plic (nodes_of root) = [t]"
  shows "\<exists>q x m. (q, t, Some x) \<in> set (all_nodes noff root) \<and>
    fdt_find_match N (- 1) irqchip_plic_match fdt = Ret (sint (of_nat (boff q) :: u32), Some m) fdt"
proof -
  note s1 = by_compatible_run [OF assms(1-3) plic_strings(2,3)] and s2 = by_compatible_run [OF assms(1-3) plic_strings(4,5)]
  have P: "compat (key ''riscv,plic0'') u \<Longrightarrow> is_plic u" "compat (key ''sifive,plic-1.0.0'') u \<Longrightarrow> is_plic u" for u
    by (auto simp: is_plic_def)
  show ?thesis
  proof (cases "find (compat (key ''riscv,plic0'')) (nodes_of root)")
    case (Some u)
    have "u = t" using filter_single [OF assms(4) P(1) Some] .
    then obtain q x where q: "(q, t, Some x) \<in> set (all_nodes noff root)"
      "fdt_node_offset_by_compatible N (- 1) (key ''riscv,plic0'' @ [0]) fdt = Ret (of_nat (boff q)) fdt"
      using s1 Some by auto
    then show ?thesis using node_place [OF assms(1) all_nodes_at(1) [OF q(1)]]
      by (intro exI [of _ q] exI [of _ x] exI [of _ 0]) (simp add: fdt_find_match_def plic_strings(1) run_simps)
  next
    case None
    have "t \<in> set (nodes_of root)" "is_plic t" using arg_cong [OF assms(4), of set] by auto
    then have "compat (key ''sifive,plic-1.0.0'') t" using None by (auto simp: is_plic_def find_None_iff)
    then obtain u where u: "find (compat (key ''sifive,plic-1.0.0'')) (nodes_of root) = Some u"
      using \<open>t \<in> set (nodes_of root)\<close> by (metis find_None_iff not_None_eq)
    have "u = t" using filter_single [OF assms(4) P(2) u] .
    then obtain q x where q: "(q, t, Some x) \<in> set (all_nodes noff root)"
      "fdt_node_offset_by_compatible N (- 1) (key ''sifive,plic-1.0.0'' @ [0]) fdt = Ret (of_nat (boff q)) fdt"
      using s2 u by auto
    then show ?thesis using node_place [OF assms(1) all_nodes_at(1) [OF q(1)]] s1 None
      by (intro exI [of _ q] exI [of _ x] exI [of _ 1]) (simp add: fdt_find_match_def plic_strings(1) run_simps neg_m1)
  qed
qed

lemma no_more_match:
  assumes "stream_ok fdt (flatten noff root @ [TDone]) strs N" "tree_ok strs noff root"
    "\<forall>t\<in>set (nodes_of root). compat_ok t" "filter is_plic (nodes_of root) = [t]" "(q, t, Some x) \<in> set (all_nodes noff root)"
  shows "fdt_find_match N (of_nat (boff q)) irqchip_plic_match fdt = Ret (SBI_ENODEV, None) fdt"
proof -
  have t: "is_plic t" using arg_cong [OF assms(4), of set] by auto
  have "fdt_node_offset_by_compatible N (of_nat (boff q)) (c @ [0]) fdt = Ret (- 1) fdt"
    if "0 \<notin> set c" "c \<noteq> []" "\<And>t. compat c t \<Longrightarrow> is_plic t" for c
    using by_compatible_behind [OF assms(1-3) that(1,2) assms(5), of is_plic] t assms(4) that(3) by simp
  from this [OF plic_strings(2,3)] this [OF plic_strings(4,5)] show ?thesis
    by (simp add: fdt_find_match_def plic_strings(1) run_simps neg_m1 is_plic_def)
qed

lemma set_tables_driver: "(set_tables s t)\<lparr>irq_driver := d\<rparr> = set_tables (s\<lparr>irq_driver := d\<rparr>) t"
  by (cases s) (simp add: set_tables_def)

lemma irqchip_init_run:
  assumes "stream_ok fdt (flatten noff root @ [TDone]) strs N" "tree_ok strs noff root"
    "\<forall>t\<in>set (nodes_of root). compat_ok t" "\<forall>t\<in>set (nodes_of root). hart_ok t"
    "filter is_plic (nodes_of root) = [t]" "plic_node_ok root t"
    "irq_fdt s = fdt" "plic_count s = 0" "length (plic s) = PLIC_MAX_NR"
  shows "fdt_irqchip_init N h True s = irqchip_plic_warm_init h
    (set_tables (s\<lparr>plic_count := 1, plic := (plic s)[0 := plic_of root t],
      plic_regs := fill (prio_reg (plic_of root t) ` {1..unat (num_src (plic_of root t))}) 0 (plic_regs s),
      irq_driver := Some fdt_irqchip_plic\<rparr>) (tables root 0 (pairs_of t)))"
proof -
  let ?s = "set_tables (s\<lparr>plic_count := 1, plic := (plic s)[0 := plic_of root t],
      plic_regs := fill (prio_reg (plic_of root t) ` {1..unat (num_src (plic_of root t))}) 0 (plic_regs s),
      irq_driver := Some fdt_irqchip_plic\<rparr>) (tables root 0 (pairs_of t))"
  obtain q x m where q: "(q, t, Some x) \<in> set (all_nodes noff root)"
    "fdt_find_match N (- 1) irqchip_plic_match fdt = Ret (sint (of_nat (boff q) :: u32), Some m) fdt"
    using first_match_run [OF assms(1-3,5)] by blast
  have nn: "\<not> sint (of_nat (boff q) :: u32) < 0"
    using node_place [OF assms(1) all_nodes_at(1) [OF q(1)]] by (simp add: neg_def)
  obtain k where N: "N = Suc (Suc k)"
    using stream_sizes(2) [of fdt "[]" "flatten noff root @ [TDone]" strs N] assms(1) by (cases N rule: nat.exhaust; cases "N - 1") auto
  have f1: "on_fdt (fdt_find_match N (- 1) irqchip_plic_match) s = Ret (sint (of_nat (boff q) :: u32), Some m) s"
    using q(2) assms(7) by (intro on_fdt_run) simp
  have f2: "on_fdt (fdt_find_match N (of_nat (boff q)) irqchip_plic_match) ?s = Ret (SBI_ENODEV, None) ?s"
    using no_more_match [OF assms(1-3,5) q(1)] assms(7) by (intro on_fdt_run) (simp add: set_tables_def)
  have "irqchip_nodes N (Suc (Suc k)) (- 1) s = Ret 0 ?s"
    using f1 f2 nn cold_init_run [OF assms(1,2,4) q(1) assms(6-9)] by (simp add: run_simps set_tables_driver)
  then show ?thesis by (simp add: fdt_irqchip_init_def fdt_irqchip_cold_init_def fdt_irqchip_warm_init_def N run_simps set_tables_def)
qed

text \<open>A tree with one hart, of id 3, and a controller with 40 sources and a context for each of its modes.\<close>

definition plic_node :: dnode where
  "plic_node = DNode (key ''plic@c000000'') [(key ''compatible'', zstr ''sifive,plic-1.0.0''), (key ''reg'', [12, 0, 0, 0, 4, 0, 0, 0]),
     (key ''riscv,ndev'', [0, 0, 0, 40]), (key ''interrupts-extended'', [0, 0, 0, 1, 0, 0, 0, 11, 0, 0, 0, 1, 0, 0, 0, 9])] []"

definition plic_tree :: dnode where
  "plic_tree = DNode [] []
     [DNode (key ''cpus'') [] [DNode (key ''cpu@3'') [(key ''device_type'', zstr ''cpu''), (key ''reg'', [0, 0, 0, 3])]
        [DNode (key ''intc'') [(key ''phandle'', [0, 0, 0, 1])] []]],
      DNode (key ''soc'') [(key ''#address-cells'', [0, 0, 0, 1])] [plic_node]]"

definition plic_strs :: "u8 list" where
  "plic_strs = concat (map zstr [''device_type'', ''reg'', ''phandle'', ''#address-cells'', ''compatible'', ''riscv,ndev'', ''interrupts-extended''])"

definition plic_noff :: "u8 list \<Rightarrow> nat" where
  "plic_noff k = (if k = key ''device_type'' then 0 else if k = key ''reg'' then 12 else if k = key ''phandle'' then 16
     else if k = key ''#address-cells'' then 24 else if k = key ''compatible'' then 39 else if k = key ''riscv,ndev'' then 50 else 61)"

definition plic_fdt :: "u8 list" where
  "plic_fdt = fdt_blob (flatten plic_noff plic_tree @ [TDone]) plic_strs"

definition plic_start :: irqchip where
  "plic_start = \<lparr>irq_fdt = plic_fdt, plic_regs = (\<lambda>_. 1), plic_count = 0, plic = replicate 16 \<lparr>plic_addr = 0, num_src = 0\<rparr>,
     plic_hartid2data = [], plic_hartid2context = [], irq_driver = None\<rparr>"

lemma plic_image: "fdt_image plic_fdt (flatten plic_noff plic_tree @ [TDone]) plic_strs"
proof -
  have "56 + boff (flatten plic_noff plic_tree @ [TDone]) + length plic_strs < 1000" by code_simp
  then show ?thesis unfolding plic_fdt_def by (intro blob_image) simp
qed

lemma plic_tree_ok:
  "tree_ok plic_strs plic_noff plic_tree" "length plic_fdt \<le> 1000" "\<forall>t\<in>set (nodes_of plic_tree). compat_ok t"
  "\<forall>t\<in>set (nodes_of plic_tree). hart_ok t" "filter is_plic (nodes_of plic_tree) = [plic_node]" "plic_node_ok plic_tree plic_node"
  "length (hart_pairs plic_tree 11 3 (pairs_of plic_node)) \<le> 1" "length (hart_pairs plic_tree 9 3 (pairs_of plic_node)) \<le> 1"
  by code_simp+

text \<open>
  C12: the interrupt controller is quiet after start-up. For a device tree with one controller node, the cold
  initialisation on hart \<open>h\<close> reads address, number of sources and contexts from the tree: the table of contexts holds for every hart
  the positions of its machine and supervisor external interrupt in the list of the node, the priority of every
  source is zero, and the contexts of hart \<open>h\<close>, and no others, have their enable bits cleared and the threshold
  set. A hart that the node does not list gets an error. The tree has at most one entry per hart and mode, at most 1023 sources
  and 15872 contexts, and cells of whole length, which the code takes for granted.
\<close>

theorem plic_contexts_quiet:
  assumes "fdt_image fdt (flatten noff root @ [TDone]) strs" "tree_ok strs noff root" "length fdt \<le> N"
    "\<forall>t\<in>set (nodes_of root). compat_ok t" "\<forall>t\<in>set (nodes_of root). hart_ok t"
    "filter is_plic (nodes_of root) = [t]" "plic_node_ok root t"
    "irq_fdt s = fdt" "plic_count s = 0" "length (plic s) = PLIC_MAX_NR" "h < SBI_HARTMASK_MAX_BITS"
    "length (hart_pairs root 11 h (pairs_of t)) \<le> 1" "length (hart_pairs root 9 h (pairs_of t)) \<le> 1"
  shows "\<exists>s'. fdt_irqchip_init N h True s =
      Ret (if \<exists>x\<in>set (pairs_of t). intc_hart root (fst x) = Some h then 0 else SBI_EINVAL) s' \<and>
    (\<forall>g<SBI_HARTMASK_MAX_BITS. plic_hartid2context s' ! g =
      (hart_context root 11 g (pairs_of t), hart_context root 9 g (pairs_of t))) \<and>
    (\<forall>i\<in>{1..unat (num_src (plic_of root t))}. plic_regs s' (prio_reg (plic_of root t) i) = 0) \<and>
    (\<forall>c<length (pairs_of t).
       if intc_hart root (fst (pairs_of t ! c)) = Some h \<and> snd (pairs_of t ! c) \<in> {9, 11}
       then context_quiet (plic_of root t) c (plic_regs s')
       else context_kept (plic_of root t) c (plic_regs s) (plic_regs s'))"
proof -
  let ?p = "plic_of root t" and ?xs = "pairs_of t"
  note st = tree_stream [OF assms(1-3)]
  let ?s = "set_tables (s\<lparr>plic_count := 1, plic := (plic s)[0 := ?p], plic_regs := fill (prio_reg ?p ` {1..unat (num_src ?p)}) 0 (plic_regs s),
      irq_driver := Some fdt_irqchip_plic\<rparr>) (tables root 0 ?xs)"
  note init = irqchip_init_run [OF st assms(2,4-10), of h]
  obtain q x where "(q, t, Some x) \<in> set (all_nodes noff root)" using first_match_run [OF st assms(2,4,6)] by blast
  note ns = plic_node_run(2) [OF st assms(2) this assms(7)]
  have l: "length ?xs \<le> 15872" using assms(7) by (auto simp: plic_node_ok_def pairs_of_def ext_pairs_def split: option.splits)
  define T where "T = set (hart_pairs root 11 h ?xs) \<union> set (hart_pairs root 9 h ?xs)"
  have T: "c \<in> T \<longleftrightarrow> intc_hart root (fst (?xs ! c)) = Some h \<and> snd (?xs ! c) \<in> {9, 11}" if "c < length ?xs" for c
    using that by (auto simp: T_def hart_pairs_def)
  have Ts: "T \<subseteq> {..<15872}" using l by (auto simp: T_def hart_pairs_def)
  have "rd (plic ?s) 0 = Some ?p" using assms(10) by (cases "plic s") (auto simp: set_tables_def rd_def)
  note warm = warm_init_run [OF assms(11) _ _ this ns l assms(12,13), folded T_def]
  have c15: "c < 15872" if "c < length ?xs" for c using that l by linarith
  note qv = quiet_regs_values(1) [OF ns Ts] quiet_contexts [OF ns Ts c15]
  show ?thesis
  proof (cases "\<exists>x\<in>set ?xs. intc_hart root (fst x) = Some h")
    case True
    let ?s' = "?s\<lparr>plic_regs := quiet_regs ?p T (plic_regs s)\<rparr>"
    have "fdt_irqchip_init N h True s = Ret 0 ?s'"
      unfolding init using warm True by (simp add: set_tables_def quiet_regs_def)
    then show ?thesis using True T qv tables_contexts [of _ root 0 ?xs]
      by (intro exI [of _ ?s']) (simp add: set_tables_def)
  next
    case False
    then have "T = {}" by (auto simp: T_def hart_pairs_def)
    have "fdt_irqchip_init N h True s = Ret SBI_EINVAL ?s"
      unfolding init using warm False by (simp add: set_tables_def)
    moreover have "plic_regs ?s = quiet_regs ?p {} (plic_regs s)" by (simp add: set_tables_def quiet_regs_def ie_regs_simps fill_none)
    ultimately show ?thesis using False T qv tables_contexts [of _ root 0 ?xs] \<open>T = {}\<close>
      by (intro exI [of _ ?s]) (simp add: set_tables_def)
  qed
qed

theorem plic_contexts_quiet_witness:
  "fdt_image plic_fdt (flatten plic_noff plic_tree @ [TDone]) plic_strs \<and> plic_node_ok plic_tree plic_node \<and>
   (\<exists>s'. fdt_irqchip_init 1000 3 True plic_start = Ret 0 s' \<and> plic_hartid2context s' ! 3 = (0, 1) \<and>
      plic_regs s' (prio_reg (plic_of plic_tree plic_node) 40) = 0 \<and>
      context_quiet (plic_of plic_tree plic_node) 0 (plic_regs s') \<and> context_quiet (plic_of plic_tree plic_node) 1 (plic_regs s'))"
proof -
  have h: "irq_fdt plic_start = plic_fdt" "plic_count plic_start = 0" "length (plic plic_start) = 16" "(3 :: nat) < 128"
    by (simp_all add: plic_start_def)
  have e: "\<exists>x\<in>set (pairs_of plic_node). intc_hart plic_tree (fst x) = Some 3"
    "hart_context plic_tree 11 3 (pairs_of plic_node) = 0" "hart_context plic_tree 9 3 (pairs_of plic_node) = 1"
    "40 \<in> {1..unat (num_src (plic_of plic_tree plic_node))}" "length (pairs_of plic_node) = 2"
    "intc_hart plic_tree (fst (pairs_of plic_node ! 0)) = Some 3 \<and> snd (pairs_of plic_node ! 0) \<in> {9, 11}"
    "intc_hart plic_tree (fst (pairs_of plic_node ! 1)) = Some 3 \<and> snd (pairs_of plic_node ! 1) \<in> {9, 11}"
    by code_simp+
  obtain s' where s: "fdt_irqchip_init 1000 3 True plic_start = Ret 0 s'"
    "\<forall>g<128. plic_hartid2context s' ! g = (hart_context plic_tree 11 g (pairs_of plic_node), hart_context plic_tree 9 g (pairs_of plic_node))"
    "\<forall>i\<in>{1..unat (num_src (plic_of plic_tree plic_node))}. plic_regs s' (prio_reg (plic_of plic_tree plic_node) i) = 0"
    "\<forall>c<length (pairs_of plic_node).
       if intc_hart plic_tree (fst (pairs_of plic_node ! c)) = Some 3 \<and> snd (pairs_of plic_node ! c) \<in> {9, 11}
       then context_quiet (plic_of plic_tree plic_node) c (plic_regs s')
       else context_kept (plic_of plic_tree plic_node) c (plic_regs plic_start) (plic_regs s')"
    using plic_contexts_quiet [OF plic_image plic_tree_ok(1-6) h plic_tree_ok(7,8)] unfolding if_P [OF e(1)] by blast
  have "plic_hartid2context s' ! 3 = (0, 1)" using s(2) [rule_format, OF h(4)] unfolding e(2,3) .
  moreover have "context_quiet (plic_of plic_tree plic_node) 0 (plic_regs s')" "context_quiet (plic_of plic_tree plic_node) 1 (plic_regs s')"
    using s(4) [rule_format, of 0] s(4) [rule_format, of 1] unfolding e(5) if_P [OF e(6)] if_P [OF e(7)] by simp_all
  ultimately show ?thesis using plic_image plic_tree_ok(6) s(1) s(3) [rule_format, OF e(4)] by blast
qed

end
