(* ===== verification/Sys_Generic.thy ===== *)
theory Sys_Generic
  imports Fdt_Harts
begin

text \<open>
  The generic platform, \<^verbatim>\<open>platform/generic/platform.c\<close> with the overrides of \<^verbatim>\<open>platform/generic/sifive_fu540.c\<close>: how the firmware
  learns its name and its harts from the device tree before the library starts, and the limit of remote flushes.

  The table of overrides is the list \<open>special_platforms\<close>; the pointer \<^verbatim>\<open>generic_plat\<close> is an index into it and
  \<^verbatim>\<open>generic_plat_match\<close> an index into its match table. Of the functions of an override the model has those without effects; the only
  override defines no other but the fix-up of the device tree for the operating system.
\<close>

section \<open>State\<close>

record platform_override =
  match_table :: "u8 list list option"
  po_features :: "(nat \<Rightarrow> u64) option"
  po_tlbr_flush_limit :: "(nat \<Rightarrow> u64) option"

record generic =
  g_fdt :: "u8 list"
  platform_name :: "u8 list"
  platform_features :: u64
  platform_hart_count :: u32
  generic_hart_index2id :: "u32 list"
  generic_plat :: "nat option"
  generic_plat_match :: nat

type_synonym 'a genM = "generic \<Rightarrow> (generic, 'a) outcome"

definition on_tree :: "'a fdtM \<Rightarrow> 'a genM" where
  "on_tree = zoom g_fdt (\<lambda>fdt s. s\<lparr>g_fdt := fdt\<rparr>)"

interpretation gen_field: fdt_field g_fdt "\<lambda>fdt s. s\<lparr>g_fdt := fdt\<rparr>"
  by unfold_locales simp

section \<open>Overrides\<close>

definition sifive_fu540_tlbr_flush_limit :: "nat \<Rightarrow> u64" where
  "sifive_fu540_tlbr_flush_limit m = 0"

definition sifive_fu540_match :: "u8 list list" where
  "sifive_fu540_match =
     [zstr ''sifive,fu540'', zstr ''sifive,fu540g'', zstr ''sifive,fu540-c000'', zstr ''sifive,hifive-unleashed-a00'']"

definition sifive_fu540 :: platform_override where
  "sifive_fu540 = \<lparr>match_table = Some sifive_fu540_match, po_features = None, po_tlbr_flush_limit = Some sifive_fu540_tlbr_flush_limit\<rparr>"

definition special_platforms :: "platform_override list" where
  "special_platforms = [sifive_fu540]"

primrec lookup_loop :: "nat \<Rightarrow> platform_override list \<Rightarrow> nat \<Rightarrow> unit genM" where
  "lookup_loop N [] i = retM ()"
| "lookup_loop N (po # pos) i =
     (case match_table po of None \<Rightarrow> lookup_loop N pos (i + 1)
      | Some tbl \<Rightarrow>
          bindM (on_tree (fdt_find_match N (- 1) tbl)) (\<lambda>(noff, m).
          if noff < 0 then lookup_loop N pos (i + 1)
          else modM (\<lambda>s. s\<lparr>generic_plat := Some i, generic_plat_match := the m\<rparr>)))"

definition fw_platform_lookup_special :: "nat \<Rightarrow> unit genM" where
  "fw_platform_lookup_special N = lookup_loop N special_platforms 0"

section \<open>Start of the platform\<close>

text \<open>The entry of one child of the node of the processors; the value is the number of entries.\<close>

definition put_hart :: "nat \<Rightarrow> u32 \<Rightarrow> nat \<Rightarrow> nat genM" where
  "put_hart N cpu_offset count =
     bindM (on_tree (fdt_parse_hart_id N cpu_offset)) (\<lambda>(rc, hartid).
     if rc \<noteq> 0 \<or> 128 \<le> hartid then retM count
     else bindM (on_tree (fdt_getprop N cpu_offset (zstr ''mmu-type''))) (\<lambda>(mmu_type, len).
       let hartid = (if mmu_type = None \<or> len = 0 then - 1 else hartid) in
       bindM (getM (\<lambda>s. wr (generic_hart_index2id s) count hartid)) (\<lambda>t. bindM (liftO t) (\<lambda>t.
       seqM (modM (\<lambda>s. s\<lparr>generic_hart_index2id := t\<rparr>)) (retM (count + 1))))))"

primrec harts_loop :: "nat \<Rightarrow> nat \<Rightarrow> u32 \<Rightarrow> nat \<Rightarrow> nat genM" where
  "harts_loop N 0 cpu_offset count = haltM Spin"
| "harts_loop N (Suc k) cpu_offset count =
     (if neg cpu_offset then retM count
      else bindM (put_hart N cpu_offset count) (\<lambda>count.
        bindM (on_tree (fdt_next_subnode N cpu_offset)) (\<lambda>nxt. harts_loop N k nxt count)))"

text \<open>The name of the platform, from the property of the root, and the features an override has.\<close>

definition put_name :: "nat \<Rightarrow> u32 \<Rightarrow> unit genM" where
  "put_name N root_offset =
     bindM (on_tree (fdt_getprop N root_offset (zstr ''model''))) (\<lambda>(model, len).
     case model of None \<Rightarrow> retM ()
     | Some p \<Rightarrow>
         bindM (getM (\<lambda>s. sbi_strncpy (platform_name s) (drop p (g_fdt s)) 64)) (\<lambda>n.
         bindM (liftO n) (\<lambda>n. modM (\<lambda>s. s\<lparr>platform_name := n\<rparr>))))"

definition put_features :: "unit genM" where
  "put_features =
     bindM (getM generic_plat) (\<lambda>g.
     case g of None \<Rightarrow> retM ()
     | Some i \<Rightarrow> (case po_features (special_platforms ! i) of None \<Rightarrow> retM ()
         | Some f \<Rightarrow> modM (\<lambda>s. s\<lparr>platform_features := f (generic_plat_match s)\<rparr>)))"

definition fw_platform_init :: "nat \<Rightarrow> ulong \<Rightarrow> ulong genM" where
  "fw_platform_init N arg1 =
     bindM (on_tree (fdt_path_offset N N (zstr ''/''))) (\<lambda>root_offset.
     if neg root_offset then haltM Hang
     else
       seqM (fw_platform_lookup_special N)
      (seqM (put_name N root_offset)
      (seqM put_features
      (bindM (on_tree (fdt_path_offset N N (zstr ''/cpus''))) (\<lambda>cpus_offset.
       if neg cpus_offset then haltM Hang
       else bindM (on_tree (fdt_first_subnode N cpus_offset)) (\<lambda>cpu_offset.
         bindM (harts_loop N N cpu_offset 0) (\<lambda>count.
         seqM (modM (\<lambda>s. s\<lparr>platform_hart_count := of_nat count\<rparr>)) (retM arg1))))))))"

definition generic_tlbr_flush_limit :: "u64 genM" where
  "generic_tlbr_flush_limit =
     bindM (getM generic_plat) (\<lambda>g.
     case g of None \<Rightarrow> retM SBI_PLATFORM_TLB_RANGE_FLUSH_LIMIT_DEFAULT
     | Some i \<Rightarrow> (case po_tlbr_flush_limit (special_platforms ! i) of None \<Rightarrow> retM SBI_PLATFORM_TLB_RANGE_FLUSH_LIMIT_DEFAULT
         | Some f \<Rightarrow> getM (\<lambda>s. f (generic_plat_match s))))"

section \<open>The harts of a device tree\<close>

text \<open>
  What the table should hold: an entry for each processor node with a usable hart id, in their order, which is -1 for
  a hart without memory management.
\<close>

definition hart_entry :: "dnode \<Rightarrow> u32 option" where
  "hart_entry t =
     (case hart_of t of None \<Rightarrow> None
      | Some h \<Rightarrow> if 128 \<le> h then None
          else Some (case map_of (nprops t) (key ''mmu-type'') of None \<Rightarrow> - 1 | Some v \<Rightarrow> if v = [] then - 1 else h))"

definition tree_harts :: "dnode list \<Rightarrow> u32 list" where
  "tree_harts ks = List.map_filter hart_entry ks"

lemma tree_harts_simps: "tree_harts [] = []" "tree_harts (k # ks) = (case hart_entry k of None \<Rightarrow> tree_harts ks | Some h \<Rightarrow> h # tree_harts ks)"
  by (auto simp: tree_harts_def List.map_filter_def split: option.splits)

lemma on_tree_run: "m (g_fdt s) = Ret x (g_fdt s) \<Longrightarrow> on_tree m s = Ret x s"
  unfolding on_tree_def by (rule gen_field.zoom_run)

lemma put_hart_run:
  assumes "stream_ok fdt ts strs N" "node_at noff ts q t" "tree_ok strs noff t" "hart_ok t" "g_fdt s = fdt"
  shows "put_hart N (of_nat (boff q)) n s =
    (case hart_entry t of None \<Rightarrow> Ret n s
     | Some h \<Rightarrow> if n < length (generic_hart_index2id s)
         then Ret (n + 1) (s\<lparr>generic_hart_index2id := (generic_hart_index2id s)[n := h]\<rparr>) else Halt BadAccess s)"
proof -
  have h: "on_tree (fdt_parse_hart_id N (of_nat (boff q))) s = Ret (case hart_of t of None \<Rightarrow> (SBI_EINVAL, 0) | Some h \<Rightarrow> (0, h)) s"
    using hart_id_run [OF assms(1-4)] assms(5) by (intro on_tree_run) simp
  note m = node_prop [OF assms(1-3) hart_keys(3)]
  show ?thesis
  proof (cases "map_of (nprops t) (key ''mmu-type'')")
    case None
    then have "on_tree (fdt_getprop N (of_nat (boff q)) (zstr ''mmu-type'')) s = Ret (None, - 1) s"
      using m assms(5) by (intro on_tree_run) simp
    then show ?thesis using h None
      by (auto simp: put_hart_def hart_entry_def run_simps wr_def split: option.splits)
  next
    case (Some v)
    then obtain p where p: "fdt_getprop N (of_nat (boff q)) (zstr ''mmu-type'') fdt = Ret (Some p, of_nat (length v)) fdt" "length v < 2 ^ 31"
      using m by auto
    then have "on_tree (fdt_getprop N (of_nat (boff q)) (zstr ''mmu-type'')) s = Ret (Some p, of_nat (length v)) s"
      using assms(5) by (intro on_tree_run) simp
    then show ?thesis using h Some small_length(3) [OF p(2)]
      by (auto simp: put_hart_def hart_entry_def run_simps wr_def split: option.splits)
  qed
qed

text \<open>The table after the loop; the loop writes behind it when there are too many entries.\<close>

definition put_harts :: "u32 list \<Rightarrow> nat \<Rightarrow> generic \<Rightarrow> generic" where
  "put_harts hs n s = s\<lparr>generic_hart_index2id := take n (generic_hart_index2id s) @ hs @ drop (n + length hs) (generic_hart_index2id s)\<rparr>"

lemma put_harts_simps:
  "n \<le> length (generic_hart_index2id s) \<Longrightarrow> put_harts [] n s = s"
  "n < length (generic_hart_index2id s) \<Longrightarrow>
   put_harts hs (n + 1) (s\<lparr>generic_hart_index2id := (generic_hart_index2id s)[n := h]\<rparr>) = put_harts (h # hs) n s"
  by (simp_all add: put_harts_def take_Suc_conv_app_nth)

lemma harts_loop_run:
  assumes "stream_ok fdt (ts @ flats noff ks @ TEnd # us) strs N" "\<forall>t\<in>set ks. tree_ok strs noff t \<and> hart_ok t"
    "length ks < k" "g_fdt s = fdt" "n \<le> length (generic_hart_index2id s)"
  shows "if n + length (tree_harts ks) \<le> length (generic_hart_index2id s)
    then harts_loop N k (first_or_none (kid_places noff ts ks)) n s = Ret (n + length (tree_harts ks)) (put_harts (tree_harts ks) n s)
    else \<exists>s'. harts_loop N k (first_or_none (kid_places noff ts ks)) n s = Halt BadAccess s'"
  using assms
proof (induction ks arbitrary: ts k n s)
  case Nil
  then obtain j where "k = Suc j" by (cases k) auto
  then show ?case using Nil by (simp add: first_or_none_def neg_m1 run_simps tree_harts_simps put_harts_simps)
next
  case (Cons t ks)
  obtain j where k: "k = Suc j" using Cons.prems(3) by (cases k) auto
  have st: "stream_ok fdt ((ts @ flatten noff t) @ flats noff ks @ TEnd # us) strs N" using Cons.prems(1) by simp
  have at: "node_at noff (ts @ flats noff (t # ks) @ TEnd # us) ts t" by (simp add: node_at_def)
  have nx: "on_tree (fdt_next_subnode N (of_nat (boff ts))) s' = Ret (first_or_none (kid_places noff (ts @ flatten noff t) ks)) s'"
    if "g_fdt s' = fdt" for s'
    using next_subnode_run [of fdt ts noff t ks us strs N] Cons.prems(1) that by (intro on_tree_run) simp
  have "tree_ok strs noff t" "hart_ok t" using Cons.prems(2) by auto
  note ph = put_hart_run [OF Cons.prems(1) at this Cons.prems(4), of n]
  have first: "first_or_none (kid_places noff ts (t # ks)) = of_nat (boff ts)" by (simp add: first_or_none_def)
  show ?case
  proof (cases "hart_entry t")
    case None
    then show ?thesis using Cons.IH [OF st _ _ Cons.prems(4), of j n] Cons.prems nx [OF Cons.prems(4)] ph node_place [OF Cons.prems(1) at]
      unfolding first by (simp add: k run_simps tree_harts_simps)
  next
    case (Some h)
    let ?s = "s\<lparr>generic_hart_index2id := (generic_hart_index2id s)[n := h]\<rparr>"
    show ?thesis
    proof (cases "n < length (generic_hart_index2id s)")
      case True
      then show ?thesis using Some Cons.IH [OF st, of j ?s "n + 1"] Cons.prems nx [of ?s] ph node_place [OF Cons.prems(1) at]
        unfolding first by (simp add: k run_simps tree_harts_simps put_harts_simps [simplified] cong: if_cong)
    next
      case False
      then show ?thesis using Some ph node_place [OF Cons.prems(1) at] unfolding first by (simp add: k run_simps tree_harts_simps)
    qed
  qed
qed

section \<open>The start of the platform on a device tree\<close>

definition fu540_strings :: "u8 list list" where
  "fu540_strings = map key [''sifive,fu540'', ''sifive,fu540g'', ''sifive,fu540-c000'', ''sifive,hifive-unleashed-a00'']"

definition is_fu540 :: "dnode \<Rightarrow> bool" where
  "is_fu540 root \<longleftrightarrow> (\<exists>c\<in>set fu540_strings. \<exists>t\<in>set (nodes_of root). compat c t)"

text \<open>The name the code gives the platform: the model string over the old name, without a terminator.\<close>

definition model_name :: "dnode \<Rightarrow> u8 list \<Rightarrow> u8 list" where
  "model_name root nm = (case map_of (nprops root) (key ''model'') of None \<Rightarrow> nm
     | Some v \<Rightarrow> blit nm 0 (take 64 (cstr v 0)))"

definition model_ok :: "dnode \<Rightarrow> bool" where
  "model_ok root \<longleftrightarrow> (case map_of (nprops root) (key ''model'') of None \<Rightarrow> True | Some v \<Rightarrow> 0 \<in> set v)"

lemma generic_strings: "sifive_fu540_match = map (\<lambda>c. c @ [0]) fu540_strings" "\<forall>c\<in>set fu540_strings. 0 \<notin> set c \<and> c \<noteq> []"
  "0 \<notin> set (key ''model'')" "zstr ''/'' = path_of [] @ [0]" "zstr ''/cpus'' = path_of [key ''cpus''] @ [0]" "comp_ok (key ''cpus'')"
  by code_simp+

lemma lookup_special_run:
  assumes "stream_ok fdt (flatten noff root @ [TDone]) strs N" "tree_ok strs noff root" "\<forall>t\<in>set (nodes_of root). compat_ok t"
    "g_fdt s = fdt"
  shows "\<exists>j. fw_platform_lookup_special N s =
    Ret () (if is_fu540 root then s\<lparr>generic_plat := Some 0, generic_plat_match := j\<rparr> else s)"
proof -
  note f = find_match_run [OF assms(1-3) generic_strings(2), folded generic_strings(1) is_fu540_def]
  show ?thesis
  proof (cases "is_fu540 root")
    case True
    then obtain n j where "fdt_find_match N (- 1) sifive_fu540_match fdt = Ret (n, Some j) fdt" "0 \<le> n" using f by auto
    then have "on_tree (fdt_find_match N (- 1) sifive_fu540_match) s = Ret (n, Some j) s" using assms(4) by (intro on_tree_run) simp
    then show ?thesis using True \<open>0 \<le> n\<close>
      by (intro exI [of _ j]) (simp add: fw_platform_lookup_special_def special_platforms_def sifive_fu540_def run_simps)
  next
    case False
    then have "on_tree (fdt_find_match N (- 1) sifive_fu540_match) s = Ret (SBI_ENODEV, None) s"
      using f assms(4) by (intro on_tree_run) simp
    then show ?thesis using False by (simp add: fw_platform_lookup_special_def special_platforms_def sifive_fu540_def run_simps)
  qed
qed

lemma cstr_blk:
  assumes "blk m p (length v) = v" "0 \<in> set v"
  shows "cstr (drop p m) 0 = cstr v 0" "terminated (drop p m) 0"
proof -
  have d: "drop p m = v @ drop (length v) (drop p m)" using append_take_drop_id [of "length v" "drop p m"] assms(1) by (simp add: blk_def)
  show "cstr (drop p m) 0 = cstr v 0" using assms(2) by (subst d) (simp add: cstr_def takeWhile_append1 [of 0])
  show "terminated (drop p m) 0" using assms(2) by (subst d) (simp add: terminated_def)
qed

lemma put_name_run:
  assumes "stream_ok fdt ts strs N" "node_at noff ts q root" "tree_ok strs noff root" "model_ok root"
    "g_fdt s = fdt" "length (platform_name s) = 64"
  shows "put_name N (of_nat (boff q)) s = Ret () (s\<lparr>platform_name := model_name root (platform_name s)\<rparr>)"
proof (cases "map_of (nprops root) (key ''model'')")
  case None
  then have "on_tree (fdt_getprop N (of_nat (boff q)) (zstr ''model'')) s = Ret (None, - 1) s"
    using node_prop [OF assms(1-3) generic_strings(3)] assms(5) by (intro on_tree_run) simp
  then show ?thesis using None by (simp add: put_name_def model_name_def run_simps)
next
  case (Some v)
  then obtain p where p: "fdt_getprop N (of_nat (boff q)) (zstr ''model'') fdt = Ret (Some p, of_nat (length v)) fdt"
    "blk fdt p (length v) = v" using node_prop [OF assms(1-3) generic_strings(3)] by auto
  have g: "on_tree (fdt_getprop N (of_nat (boff q)) (zstr ''model'')) s = Ret (Some p, of_nat (length v)) s"
    using p(1) assms(5) by (intro on_tree_run) simp
  have "0 \<in> set v" using assms(4) Some by (simp add: model_ok_def)
  note c = cstr_blk [OF p(2) this]
  have "sbi_strncpy (platform_name s) (drop p fdt) 64 = Some (blit (platform_name s) 0 (take 64 (cstr v 0)))"
    using strncpy_from_correct [OF c(2), of 0 64 "platform_name s"] assms(6) by (simp add: sbi_strncpy_def c(1))
  then show ?thesis using Some g assms(5) by (simp add: put_name_def model_name_def run_simps)
qed

lemma put_features_run: "generic_plat s \<in> {None, Some 0} \<Longrightarrow> put_features s = Ret () s"
  by (auto simp: put_features_def special_platforms_def sifive_fu540_def run_simps)

lemma path_run:
  assumes "stream_ok fdt (flatten noff root @ [TDone]) strs N" "\<forall>c\<in>set p. comp_ok c" "length p \<le> 1" "g_fdt s = fdt"
  shows "case walk root p of
      None \<Rightarrow> on_tree (fdt_path_offset N N (path_of p @ [0])) s = Ret (- 1) s
    | Some t \<Rightarrow> \<exists>q. node_at noff (flatten noff root @ [TDone]) q t \<and> on_tree (fdt_path_offset N N (path_of p @ [0])) s = Ret (of_nat (boff q)) s"
proof -
  obtain k where N: "N = Suc (Suc k)"
    using stream_sizes(2) [of fdt "[]" "flatten noff root @ [TDone]" strs N] assms(1) by (cases N rule: nat.exhaust; cases "N - 1") auto
  have "length p < N" using assms(3) N by simp
  from path_offset_run [OF assms(1,2) this, of "N - 1"] show ?thesis
    using assms(4) N by (auto intro: on_tree_run split: option.splits)
qed

lemma init_prefix_run:
  assumes "stream_ok fdt (flatten noff root @ [TDone]) strs N" "tree_ok strs noff root" "\<forall>t\<in>set (nodes_of root). compat_ok t"
    "model_ok root" "g_fdt s = fdt" "length (platform_name s) = 64" "generic_plat s = None"
  shows "\<exists>j. (bindM (on_tree (fdt_path_offset N N (zstr ''/''))) (\<lambda>root_offset.
      if neg root_offset then haltM Hang
      else seqM (fw_platform_lookup_special N) (seqM (put_name N root_offset) (seqM put_features rest)))) s =
    rest ((if is_fu540 root then s\<lparr>generic_plat := Some 0, generic_plat_match := j\<rparr> else s)\<lparr>platform_name := model_name root (platform_name s)\<rparr>)"
proof -
  obtain q where q: "node_at noff (flatten noff root @ [TDone]) q root" "on_tree (fdt_path_offset N N (zstr ''/'')) s = Ret (of_nat (boff q)) s"
    using path_run [OF assms(1) _ _ assms(5), of "[]", folded generic_strings(4)] by auto
  obtain j where j: "fw_platform_lookup_special N s = Ret () (if is_fu540 root then s\<lparr>generic_plat := Some 0, generic_plat_match := j\<rparr> else s)"
    using lookup_special_run [OF assms(1-3,5)] by blast
  let ?s = "if is_fu540 root then s\<lparr>generic_plat := Some 0, generic_plat_match := j\<rparr> else s"
  have n: "put_name N (of_nat (boff q)) ?s = Ret () (?s\<lparr>platform_name := model_name root (platform_name s)\<rparr>)"
    using put_name_run [OF assms(1) q(1) assms(2,4), of ?s] assms(5,6) by simp
  have f: "put_features (?s\<lparr>platform_name := model_name root (platform_name s)\<rparr>) = Ret () (?s\<lparr>platform_name := model_name root (platform_name s)\<rparr>)"
    using assms(7) by (intro put_features_run) simp
  show ?thesis
    using q(2) j n f node_place [OF assms(1) q(1)] by (intro exI [of _ j]) (simp only: seqM_def bindM_def outcome.case if_False)
qed

lemma length_flats: "length ks \<le> length (flats noff ks)"
proof (induction ks)
  case (Cons k ks)
  then show ?case by (cases k) (simp add: flatten_eq del: flatten.simps)
qed simp

lemma kids_in_nodes:
  assumes "walk root [c] = Some t" "k \<in> set (nkids t)"
  shows "k \<in> set (nodes_of root)"
proof -
  have "t \<in> set (nkids root)" using assms(1) kid_in [of c "nkids root" t] by (simp split: option.splits)
  moreover have "u \<in> set (nodes_of v)" if "u \<in> set (nodes_of w)" "w \<in> set (nkids v)" for u v w using that by (cases v) auto
  moreover have "k \<in> set (nodes_of k)" by (cases k) simp
  ultimately show ?thesis using assms(2) by blast
qed

lemma cpus_run:
  assumes "stream_ok fdt ts strs N" "node_at noff ts q cpus" "\<forall>t\<in>set (nkids cpus). tree_ok strs noff t \<and> hart_ok t"
    "g_fdt s = fdt" "length (generic_hart_index2id s) = 128"
  shows "if 128 < length (tree_harts (nkids cpus))
    then \<exists>s'. bindM (on_tree (fdt_first_subnode N (of_nat (boff q)))) (\<lambda>off. harts_loop N N off 0) s = Halt BadAccess s'
    else bindM (on_tree (fdt_first_subnode N (of_nat (boff q)))) (\<lambda>off. harts_loop N N off 0) s =
      Ret (length (tree_harts (nkids cpus))) (put_harts (tree_harts (nkids cpus)) 0 s)"
proof -
  obtain n ps ks where c: "cpus = DNode n ps ks" by (cases cpus)
  obtain us where us: "ts = q @ flatten noff cpus @ us" using assms(2) by (auto simp: node_at_def)
  let ?q = "q @ TBegin n # map (ptok noff) ps"
  have st: "stream_ok fdt (q @ flatten noff (DNode n ps ks) @ us) strs N" "stream_ok fdt (?q @ flats noff ks @ TEnd # us) strs N"
    using assms(1) by (simp_all add: us c flatten_eq del: flatten.simps)
  have "length ks < N" using stream_sizes(2) [OF st(2)] length_flats [of ks noff] by simp
  note loop = harts_loop_run [OF st(2) assms(3) [unfolded c dnode.sel] this assms(4), of 0]
  have "on_tree (fdt_first_subnode N (of_nat (boff q))) s = Ret (first_or_none (kid_places noff ?q ks)) s"
    using first_subnode_run [OF st(1)] assms(4) by (intro on_tree_run) simp
  then show ?thesis using loop assms(5) by (simp add: c run_simps not_less split: if_splits)
qed

text \<open>A tree with three processor nodes: one with memory management, one without, one with an id that is too large.\<close>

definition cpu_node :: "u8 \<Rightarrow> u8 \<Rightarrow> (u8 list \<times> u8 list) list \<Rightarrow> dnode" where
  "cpu_node hi lo ps = DNode (key ''cpu'') ([(key ''device_type'', zstr ''cpu''), (key ''reg'', [0, 0, hi, lo])] @ ps) []"

definition gen_tree :: dnode where
  "gen_tree = DNode [] [(key ''model'', zstr ''rocket'')]
     [DNode (key ''cpus'') [] [cpu_node 0 0 [], cpu_node 1 0 [], cpu_node 0 4 [(key ''mmu-type'', zstr ''riscv,sv39'')]]]"

definition gen_strs :: "u8 list" where
  "gen_strs = concat (map zstr [''device_type'', ''reg'', ''model'', ''mmu-type''])"

definition gen_noff :: "u8 list \<Rightarrow> nat" where
  "gen_noff k = (if k = key ''device_type'' then 0 else if k = key ''reg'' then 12 else if k = key ''model'' then 16 else 22)"

definition gen_fdt :: "u8 list" where
  "gen_fdt = fdt_blob (flatten gen_noff gen_tree @ [TDone]) gen_strs"

definition gen_start :: generic where
  "gen_start = \<lparr>g_fdt = gen_fdt, platform_name = zstr ''Generic'' @ replicate 56 0, platform_features = 0, platform_hart_count = 128,
     generic_hart_index2id = replicate 128 0, generic_plat = None, generic_plat_match = 0\<rparr>"

lemma gen_image: "fdt_image gen_fdt (flatten gen_noff gen_tree @ [TDone]) gen_strs"
proof -
  have "56 + boff (flatten gen_noff gen_tree @ [TDone]) + length gen_strs < 1000" by code_simp
  then show ?thesis unfolding gen_fdt_def by (intro blob_image) simp
qed

lemma gen_tree_ok:
  "tree_ok gen_strs gen_noff gen_tree" "length gen_fdt \<le> 1000" "\<forall>t\<in>set (nodes_of gen_tree). compat_ok t"
  "\<forall>t\<in>set (nodes_of gen_tree). hart_ok t" "model_ok gen_tree"
  by code_simp+

text \<open>
  C13: the firmware learns its harts from the device tree. On the image of a tree, \<open>fw_platform_init\<close> returns the tree it was given;
  the table of hart ids then begins with one entry for every processor node below the node of the processors that has
  a hart id below 128, in their order, which is the hart id or, without memory management, -1, and the
  number of harts is the number of these entries. When there are more entries than the table has room for, the code writes
  behind the table. Without the node of the processors the hart hangs. The name of the platform is the model string written over the
  old name, and the overrides for one board apply exactly when some node is compatible with it.
\<close>

theorem fw_platform_init_harts:
  assumes "fdt_image fdt (flatten noff root @ [TDone]) strs" "tree_ok strs noff root" "length fdt \<le> N"
    "\<forall>t\<in>set (nodes_of root). compat_ok t" "\<forall>t\<in>set (nodes_of root). hart_ok t" "model_ok root"
    "g_fdt s = fdt" "length (platform_name s) = 64" "generic_plat s = None" "length (generic_hart_index2id s) = SBI_HARTMASK_MAX_BITS"
  shows "case walk root [key ''cpus''] of
      None \<Rightarrow> \<exists>s'. fw_platform_init N arg1 s = Halt Hang s'
    | Some cpus \<Rightarrow>
        if SBI_HARTMASK_MAX_BITS < length (tree_harts (nkids cpus)) then \<exists>s'. fw_platform_init N arg1 s = Halt BadAccess s'
        else \<exists>s'. fw_platform_init N arg1 s = Ret arg1 s' \<and>
          platform_hart_count s' = of_nat (length (tree_harts (nkids cpus))) \<and>
          take (length (tree_harts (nkids cpus))) (generic_hart_index2id s') = tree_harts (nkids cpus) \<and>
          platform_name s' = model_name root (platform_name s) \<and> platform_features s' = platform_features s \<and>
          generic_plat s' = (if is_fu540 root then Some 0 else None)"
proof -
  note st = tree_stream [OF assms(1-3)]
  define rest where "rest = (bindM (on_tree (fdt_path_offset N N (zstr ''/cpus''))) (\<lambda>cpus_offset.
       if neg cpus_offset then haltM Hang
       else bindM (on_tree (fdt_first_subnode N cpus_offset)) (\<lambda>cpu_offset.
         bindM (harts_loop N N cpu_offset 0) (\<lambda>count.
         seqM (modM (\<lambda>s. s\<lparr>platform_hart_count := of_nat count\<rparr>)) (retM arg1)))))"
  obtain j where "fw_platform_init N arg1 s =
      rest ((if is_fu540 root then s\<lparr>generic_plat := Some 0, generic_plat_match := j\<rparr> else s)\<lparr>platform_name := model_name root (platform_name s)\<rparr>)"
    (is "_ = rest ?s")
    using init_prefix_run [OF st assms(2,4,6-9), of rest] unfolding fw_platform_init_def rest_def by blast
  then have i: "fw_platform_init N arg1 s = rest ?s" .
  have gs: "g_fdt ?s = fdt" "length (generic_hart_index2id ?s) = 128" using assms(7,10) by auto
  note p = path_run [OF st _ _ gs(1), of "[key ''cpus'']", folded generic_strings(5)]
  show ?thesis
  proof (cases "walk root [key ''cpus'']")
    case None
    then show ?thesis using p generic_strings(6) i by (simp add: rest_def run_simps neg_m1)
  next
    case (Some cpus)
    obtain q where q: "node_at noff (flatten noff root @ [TDone]) q cpus" "on_tree (fdt_path_offset N N (zstr ''/cpus'')) ?s = Ret (of_nat (boff q)) ?s"
      using p Some generic_strings(6) by auto
    have "\<forall>t\<in>set (nkids cpus). tree_ok strs noff t \<and> hart_ok t"
      using kids_in_nodes [OF Some] assms(5) tree_ok_nodes [OF assms(2)] by blast
    note loop = cpus_run [OF st q(1) this gs]
    have r: "rest ?s = bindM (bindM (on_tree (fdt_first_subnode N (of_nat (boff q)))) (\<lambda>off. harts_loop N N off 0)) (\<lambda>count.
         seqM (modM (\<lambda>s. s\<lparr>platform_hart_count := of_nat count\<rparr>)) (retM arg1)) ?s"
      using q(2) node_place [OF st q(1)] by (simp add: rest_def bindM_def split: outcome.splits)
    show ?thesis
    proof (cases "128 < length (tree_harts (nkids cpus))")
      case True
      then show ?thesis using loop Some i r by (auto simp: bindM_def)
    next
      case False
      then show ?thesis using loop Some i r assms(9) by (auto simp: run_simps put_harts_def)
    qed
  qed
qed

theorem fw_platform_init_harts_witness:
  "fdt_image gen_fdt (flatten gen_noff gen_tree @ [TDone]) gen_strs \<and>
   (\<exists>s'. fw_platform_init 1000 0x80000000 gen_start = Ret 0x80000000 s' \<and> platform_hart_count s' = 2 \<and>
      take 2 (generic_hart_index2id s') = [- 1, 4] \<and> generic_plat s' = None)"
proof -
  let ?cpus = "hd (nkids gen_tree)"
  have h: "g_fdt gen_start = gen_fdt" "length (platform_name gen_start) = 64" "generic_plat gen_start = None"
    "length (generic_hart_index2id gen_start) = 128"
    by (simp_all add: gen_start_def zstr_def)
  have e: "walk gen_tree [key ''cpus''] = Some ?cpus" "tree_harts (nkids ?cpus) = [- 1, 4]" "is_fu540 gen_tree = False"
    by code_simp+
  have "\<exists>s'. fw_platform_init 1000 0x80000000 gen_start = Ret 0x80000000 s' \<and>
      platform_hart_count s' = of_nat (length [- 1, 4 :: u32]) \<and> take (length [- 1, 4 :: u32]) (generic_hart_index2id s') = [- 1, 4] \<and>
      platform_name s' = model_name gen_tree (platform_name gen_start) \<and> platform_features s' = platform_features gen_start \<and>
      generic_plat s' = (if False then Some 0 else None)"
    using fw_platform_init_harts [where ?arg1.0 = "0x80000000", OF gen_image gen_tree_ok h, unfolded e option.case] by simp
  then show ?thesis using gen_image by (auto simp: numeral_2_eq_2)
qed

end
