(* ===== verification/Spec2Isabelle.thy ===== *)
theory Spec2Isabelle
  imports Sys_Clint Sys_Htif Riscv_Locks Sd_Card Fdt_Safety Sys_Plic Sys_Generic
begin

text \<open>
  A verification development for the RISC-V boot firmware of this repository: the OpenSBI library
  (\<^verbatim>\<open>src/software/firemarshal/boards/default/firmware/opensbi\<close>, called \<^verbatim>\<open>opensbi\<close> below) that runs in machine
  mode under the operating system, and the first-stage boot loader of the FPGA designs
  (\<^verbatim>\<open>src/fpga/src/main/resources/zcu102/sdboot\<close>), which copies the payload from an SD card into memory.

  \<^bold>\<open>The program and how its parts interact.\<close>
  After reset the boot ROM runs \<^verbatim>\<open>sdboot/sd.c\<close>: it brings up the card over SPI, copies the payload sector by
  sector with a checksum over each, and jumps to it. The payload begins with OpenSBI. The generic platform first
  reads the harts from the flattened device tree (\<open>fw_platform_init\<close>); later its drivers find their registers there. Every hart calls
  \<open>sbi_init\<close>; a lottery picks one for the cold boot, which initialises the scratch areas, the hart state management,
  the platform's devices, the inter-processor interrupts, the TLB queues, the timer and the extension registry and then
  wakes the others, which wait at a barrier. Each started hart programs its trap delegation and its memory protection
  and leaves for the supervisor with \<open>mret\<close>. From then on the firmware runs only in \<open>sbi_trap_handler\<close>: for interrupts
  (timer, inter-processor events), for calls of the supervisor (\<open>sbi_ecall_handler\<close> with its extensions), and for
  illegal instructions and misaligned accesses, which it emulates or hands to the supervisor with \<open>sbi_trap_redirect\<close>.
  A call for a remote TLB flush puts a request into the ring buffer of each target hart, raises an interrupt there and
  waits until the targets have acknowledged.

  \<^bold>\<open>The model.\<close> The model is a shallow embedding for a 64-bit hart. C integers are words of their width
  (\<open>ulong = 64 word\<close>), results of type \<^verbatim>\<open>int\<close> that only carry an error code are \<open>int\<close>, arrays are lists that are read and
  written with a bounds check. A function without effects is a HOL function, a failing access gives \<open>None\<close>. A function with
  effects is a computation in the state monad with early termination of \<^verbatim>\<open>Sbi_Machine\<close>: it ends with \<open>Ret\<close> and a value,
  or with \<open>Halt\<close> and the reason why control does not come back: \<open>Hang\<close> (the code called \<open>sbi_hart_hang\<close>), \<open>Mret\<close> and \<open>Jump\<close>
  (control left the firmware), \<open>Stopped\<close> (the platform took the hart off), \<open>BadAccess\<close> (an access outside its object) and
  \<open>Spin\<close> (a busy wait used up its fuel). The harts of one machine share a state record (global variables of the library,
  scratch areas, CSR files, the device), and every definition takes the number \<open>h\<close> of the hart that runs it.
  Two kinds of code that is not read are arguments: the platform operations, the table of function pointers
  of \<^verbatim>\<open>include/sbi/sbi_platform.h\<close>, and the hardware (the card, the UART, the host behind the HTIF, other harts during a busy wait).

  \<^bold>\<open>Theories, sources and lemma groups.\<close>
  \<^item> \<^verbatim>\<open>Sbi_Prelude\<close>: C types, error codes, checked array access, bits of words, first index with a property.
    \<^verbatim>\<open>Riscv_Encoding\<close>: the constants of \<^verbatim>\<open>include/sbi/riscv_encoding.h\<close>.
  \<^item> \<^verbatim>\<open>Sbi_Bitops\<close>: \<^verbatim>\<open>sbi_bitops.h\<close>, \<^verbatim>\<open>sbi_bitops.c\<close>. Each search returns the position its reference definition names, also
    on empty bitmaps and bitmaps that end inside a word.
    \<^verbatim>\<open>Sbi_Hartmask\<close>: \<^verbatim>\<open>sbi_bitmap.h\<close>, \<^verbatim>\<open>sbi_hartmask.h\<close>. Hart masks refine finite sets (locale \<open>mask_set\<close>).
  \<^item> \<^verbatim>\<open>Sbi_Strings\<close>: \<^verbatim>\<open>sbi_string.c\<close> over byte buffers, overlap of \<open>sbi_memmove\<close> included; the bounded routines are stated as they
    are, which is not what their names promise.
  \<^item> \<^verbatim>\<open>Sbi_Fifo\<close>: \<^verbatim>\<open>sbi_fifo.c\<close> on bytes. The ring buffer satisfies the contract of a bounded queue (locale \<open>bounded_queue\<close>).
    \<^verbatim>\<open>Riscv_Locks\<close>: \<^verbatim>\<open>riscv_locks.c\<close> and the two queue operations access by access under the lock; every interleaving of any number of
    harts behaves like atomic operations, which justifies that the other theories take a locked section as one step.
  \<^item> \<^verbatim>\<open>Riscv_Pmp\<close>: the protection entries of \<^verbatim>\<open>riscv_asm.c\<close>, encoding against decoding.
    \<^verbatim>\<open>Sbi_Machine\<close>: the monad, the state and the generic contracts (locales \<open>frame\<close>, \<open>waits\<close>, \<open>refinement\<close>).
    \<^verbatim>\<open>Sbi_Platform\<close>: \<^verbatim>\<open>sbi_platform.h\<close>, \<^verbatim>\<open>sbi_platform.c\<close>. \<^verbatim>\<open>Sbi_Scratch\<close>: \<^verbatim>\<open>sbi_scratch.c\<close>, CSR access and atomics; allocations are disjoint
    and inside the area (locale \<open>bump_allocator\<close>).
  \<^item> \<^verbatim>\<open>Sbi_Console\<close> and \<^verbatim>\<open>Sbi_Format\<close>: \<^verbatim>\<open>sbi_console.c\<close>; formatting does not depend on the target (locale \<open>sink_hom\<close>), printed digits
    read back as the number.
  \<^item> \<^verbatim>\<open>Sbi_Hart\<close>: \<^verbatim>\<open>sbi_hart.c\<close>; the firmware's own memory is closed to the supervisor, the exact set of delegated traps,
    the mode switch ends in \<open>mret\<close> or a hang. \<^verbatim>\<open>Sbi_Hsm\<close>: \<^verbatim>\<open>sbi_hsm.c\<close> refines the state machine of the hart states, a hart is started by at most one call.
  \<^item> \<^verbatim>\<open>Sbi_Tlb\<close>, \<^verbatim>\<open>Sbi_Tlb_Protocol\<close>: \<^verbatim>\<open>sbi_tlb.c\<close>; what a flush covers, the refinement of merging and the four cases in which it loses a flush, and an invariant over all interleavings
    of requesters and the target: an acknowledged request was flushed. \<^verbatim>\<open>Sbi_Ipi\<close>: \<^verbatim>\<open>sbi_ipi.c\<close>; delivery of events, completion of
    a remote flush, the state after cold boot. \<^verbatim>\<open>Sbi_Timer\<close>: \<^verbatim>\<open>sbi_timer.c\<close>.
  \<^item> \<^verbatim>\<open>Sbi_Exit\<close>: \<open>sbi_exit\<close> and \<open>sbi_system_reset\<close>, whose recursion through the halt event has depth two; neither returns, whether the
    platform can reset itself or not.
    \<^verbatim>\<open>Sbi_Redirect\<close>: \<open>sbi_trap_redirect\<close> and \<^verbatim>\<open>sbi_unpriv.c\<close>. \<^verbatim>\<open>Sbi_Emulate\<close>: \<^verbatim>\<open>sbi_emulate_csr.c\<close>, \<^verbatim>\<open>sbi_illegal_insn.c\<close>, \<^verbatim>\<open>sbi_misaligned_ldst.c\<close>.
    \<^verbatim>\<open>Sbi_Ecall\<close>: \<^verbatim>\<open>sbi_ecall*.c\<close>; the registry refines a set of disjoint ranges, the calling convention. \<^verbatim>\<open>Sbi_Trap\<close>: \<^verbatim>\<open>sbi_trap.c\<close>; the
    outcomes of a trap.
  \<^item> \<^verbatim>\<open>Sbi_Init\<close>: \<^verbatim>\<open>sbi_init.c\<close>; the boot barrier over all interleavings, for any interrupt lines that satisfy the contract
    of the locale \<open>ipi_line\<close>. \<^verbatim>\<open>Sys_Clint\<close>: \<^verbatim>\<open>lib/utils/sys/clint.c\<close>, which satisfies it, and its timer.
    \<^verbatim>\<open>Sys_Htif\<close>: \<^verbatim>\<open>lib/utils/sys/htif.c\<close>; the console keeps every character with any host that follows the protocol.
  \<^item> \<^verbatim>\<open>Fdt_Base\<close>, \<^verbatim>\<open>Fdt_Ro\<close>: \<^verbatim>\<open>lib/utils/libfdt/fdt.c\<close>, \<^verbatim>\<open>fdt_ro.c\<close> and the cell counts of \<^verbatim>\<open>fdt_addresses.c\<close>, on the bytes of the blob with 32-bit
    offsets that wrap. \<^verbatim>\<open>Fdt_Tree\<close>: device trees, their flattening and their images as blobs; the lookups of paths and properties refine those
    of the tree. \<^verbatim>\<open>Fdt_Safety\<close>: on any blob with an accepted header the lexer stays inside it; a blob on which the
    walks do not end. \<^verbatim>\<open>Fdt_Search\<close>: searches over all nodes and parents.
    \<^verbatim>\<open>Fdt_Helper\<close>: \<^verbatim>\<open>lib/utils/fdt/fdt_helper.c\<close>, the address of a device. \<^verbatim>\<open>Fdt_Harts\<close>: children of a node, hart ids, handles, and the contract of a state
    that holds a blob (locale \<open>fdt_field\<close>).
    \<^verbatim>\<open>Sys_Plic\<close>: \<^verbatim>\<open>lib/utils/irqchip/plic.c\<close>, \<^verbatim>\<open>fdt_irqchip_plic.c\<close>, \<^verbatim>\<open>fdt_irqchip.c\<close>; from the tree to the registers, exactly the contexts of the hart are made quiet.
    \<^verbatim>\<open>Sys_Generic\<close>: \<^verbatim>\<open>platform/generic\<close>, the start of the platform; the hart table is the one of the tree.
  \<^item> \<^verbatim>\<open>Sd_Boot\<close>, \<^verbatim>\<open>Sd_Payload\<close>, \<^verbatim>\<open>Sd_Card\<close>: \<^verbatim>\<open>sd.c\<close>, \<^verbatim>\<open>kprintf.c\<close>. The checksum is the CCITT one and tells sectors apart that differ in two adjacent bytes; whatever the
    card answers, a payload the loader reports as loaded consists of sectors that passed their checksum. \<^verbatim>\<open>Sd_Card\<close> attaches a card
    that reacts to the bytes it is sent, as the SPI mode of the SD standard documents it: then the loader succeeds, and the payload is the content of the card from
    sector 34 on.

  \<^bold>\<open>Bounds and fuel.\<close> Loops with a bound in the code recurse structurally over it. A busy wait takes its
  fuel from the configuration (or as an argument) and ends in \<open>Halt Spin\<close> when it is used up; safety
  properties hold for every fuel, and the liveness properties state a fuel for which the wait ends: the number of rounds after which
  the hardware or the other harts have answered. The recursion of \<open>sbi_exit\<close> is cut at a depth that its termination
  property shows is never reached. A loop over the blob takes the number \<open>N\<close> of rounds as an argument, and the length of
  the blob is enough on every image of a tree. The bound 128 on hart numbers is \<open>SBI_HARTMASK_MAX_BITS\<close>, 4096 is the size of a scratch area,
  16 the number of protection entries and the queue lengths are those of the code.

  \<^bold>\<open>Not modelled.\<close>
  Assembly (\<^verbatim>\<open>opensbi/firmware/*.S\<close>, \<^verbatim>\<open>sbi_hfence.S\<close>, \<^verbatim>\<open>sbi_expected_trap.S\<close>, \<^verbatim>\<open>sdboot/head.S\<close>) would need an instruction-set semantics; what it
  establishes for the C code (saved registers, the scratch record) is the initial state of the definitions. 32-bit variants are
  left out, since the designs are 64-bit. Memory is sequentially consistent: fences have no effect in the model. The part of
  the device tree library that writes (\<^verbatim>\<open>fdt_rw.c\<close>, \<^verbatim>\<open>fdt_sw.c\<close>, \<^verbatim>\<open>fdt_wip.c\<close>, \<^verbatim>\<open>fdt_overlay.c\<close>) and the fix-ups that use it prepare the tree for the operating system and
  do not change what the firmware does. The serial drivers are a few register accesses; they, the selection of drivers other than the
  interrupt controller's, and the ports for single boards fill in the platform operations, which are parameters.
  The copies of the boot loader for other boards differ from the modelled one in constants only. \<^verbatim>\<open>riscv-pk\<close> and the excerpt of the Linux tree are
  separate programs that this firmware does not call; Scala and Verilog describe hardware.
\<close>

end
